(* ===== verification/Prelude.thy ===== *)
theory Prelude
  imports Main "HOL-Library.Word" "HOL-Library.Monad_Syntax"
begin

text \<open>
  Shared material of the development: the types that name bytes and C strings, bounds-checked
  reads and writes of C arrays, and the array loops that the sources repeat in several places
  (copy a run of cells, close a gap, open a gap), each as the recursion the C loop performs and
  with a lemma that gives its closed form. A C array is a list; an access outside of it is
  \<^const>\<open>None\<close>, so a definition that returns \<^const>\<open>Some\<close> made no access out of bounds.
\<close>

named_theorems arr_simps \<open>closed forms of bounds-checked array accesses and loops\<close>

type_synonym byte = "8 word"

text \<open>A NUL-terminated C string is modelled by the bytes before its NUL.\<close>

type_synonym cstring = "byte list"

definition cstr :: "byte list \<Rightarrow> cstring" where
  "cstr buf = takeWhile (\<lambda>b. b \<noteq> 0) buf"

definition strlen :: "cstring \<Rightarrow> int" where
  "strlen s = int (length s)"

text \<open>String literals of the sources.\<close>

definition lit :: "string \<Rightarrow> cstring" where
  "lit s = map of_char s"

subsection \<open>Bounds-checked array cells\<close>

definition rd :: "'a list \<Rightarrow> int \<Rightarrow> 'a option" where
  "rd xs i = (if 0 \<le> i \<and> i < int (length xs) then Some (xs ! nat i) else None)"

definition wr :: "'a list \<Rightarrow> int \<Rightarrow> 'a \<Rightarrow> 'a list option" where
  "wr xs i v = (if 0 \<le> i \<and> i < int (length xs) then Some (xs[nat i := v]) else None)"

lemma rd_Some [arr_simps]: "0 \<le> i \<Longrightarrow> i < int (length xs) \<Longrightarrow> rd xs i = Some (xs ! nat i)"
  by (simp add: rd_def)

lemma wr_Some [arr_simps]: "0 \<le> i \<Longrightarrow> i < int (length xs) \<Longrightarrow> wr xs i v = Some (xs[nat i := v])"
  by (simp add: wr_def)

lemma rd_eq_Some_iff: "rd xs i = Some v \<longleftrightarrow> 0 \<le> i \<and> i < int (length xs) \<and> v = xs ! nat i"
  by (auto simp: rd_def)

lemma wr_eq_Some_iff: "wr xs i v = Some ys \<longleftrightarrow> 0 \<le> i \<and> i < int (length xs) \<and> ys = xs[nat i := v]"
  by (auto simp: wr_def)

lemma rd_nat [simp]: "n < length xs \<Longrightarrow> rd xs (int n) = Some (xs ! n)"
  by (simp add: rd_def)

lemma wr_nat [simp]: "n < length xs \<Longrightarrow> wr xs (int n) v = Some (xs[n := v])"
  by (simp add: wr_def)

subsection \<open>Loops over arrays\<close>

text \<open>\<^verbatim>\<open>for (; i < n; i++) dst[d + i] = src[s + i];\<close>\<close>

function copy_loop :: "'a list \<Rightarrow> int \<Rightarrow> 'a list \<Rightarrow> int \<Rightarrow> int \<Rightarrow> int \<Rightarrow> 'a list option" where
  "copy_loop dst d src s i n =
     (if i < n then do { v \<leftarrow> rd src (s + i); dst' \<leftarrow> wr dst (d + i) v; copy_loop dst' d src s (i + 1) n }
      else Some dst)"
  by pat_completeness auto
termination by (relation "measure (\<lambda>(dst, d, src, s, i, n). nat (n - i))") auto

declare copy_loop.simps [simp del]

text \<open>\<^verbatim>\<open>for (; i < n; i++) a[i] = a[i + 1];\<close>\<close>

function shift_left :: "'a list \<Rightarrow> int \<Rightarrow> int \<Rightarrow> 'a list option" where
  "shift_left a i n =
     (if i < n then do { v \<leftarrow> rd a (i + 1); a' \<leftarrow> wr a i v; shift_left a' (i + 1) n } else Some a)"
  by pat_completeness auto
termination by (relation "measure (\<lambda>(a, i, n). nat (n - i))") auto

declare shift_left.simps [simp del]

text \<open>\<^verbatim>\<open>for (; i > p; i--) a[i] = a[i - 1];\<close>\<close>

function shift_right :: "'a list \<Rightarrow> int \<Rightarrow> int \<Rightarrow> 'a list option" where
  "shift_right a i p =
     (if i > p then do { v \<leftarrow> rd a (i - 1); a' \<leftarrow> wr a i v; shift_right a' (i - 1) p } else Some a)"
  by pat_completeness auto
termination by (relation "measure (\<lambda>(a, i, p). nat (i - p))") auto

declare shift_right.simps [simp del]

lemma copy_loop_nat:
  "i \<le> n \<Longrightarrow> d + n \<le> length dst \<Longrightarrow> s + n \<le> length src \<Longrightarrow>
   copy_loop dst (int d) src (int s) (int i) (int n) =
     Some (take (d + i) dst @ take (n - i) (drop (s + i) src) @ drop (d + n) dst)"
proof (induction "n - i" arbitrary: i dst)
  case 0
  then show ?case by (simp add: copy_loop.simps)
next
  case (Suc k)
  then have lt: "i < n" and b: "d + i < length dst" "s + i < length src" by auto
  let ?dst = "dst[d + i := src ! (s + i)]"
  have "copy_loop dst (int d) src (int s) (int i) (int n) =
        copy_loop ?dst (int d) src (int s) (int (Suc i)) (int n)"
    using lt b by (subst copy_loop.simps)
      (simp add: rd_def wr_def nat_add_distrib flip: of_nat_add, simp add: add.commute)
  also have "\<dots> = Some (take (d + Suc i) ?dst @ take (n - Suc i) (drop (s + Suc i) src) @ drop (d + n) ?dst)"
    using Suc.hyps(1)[of "Suc i" ?dst] Suc.hyps(2) Suc.prems lt by simp
  also have "\<dots> = Some (take (d + i) dst @ take (n - i) (drop (s + i) src) @ drop (d + n) dst)"
  proof -
    have "take (d + Suc i) ?dst = take (d + i) dst @ [src ! (s + i)]"
      using b by (simp add: take_Suc_conv_app_nth)
    moreover have "take (n - i) (drop (s + i) src) = src ! (s + i) # take (n - Suc i) (drop (s + Suc i) src)"
      using lt b by (simp add: Cons_nth_drop_Suc[symmetric] take_Cons' )
    moreover have "drop (d + n) ?dst = drop (d + n) dst" using lt by simp
    ultimately show ?thesis by simp
  qed
  finally show ?case .
qed

lemma shift_left_nat:
  "i \<le> n \<Longrightarrow> n < length a \<Longrightarrow>
   shift_left a (int i) (int n) = Some (take i a @ take (n - i) (drop (Suc i) a) @ drop n a)"
proof (induction "n - i" arbitrary: i a)
  case 0
  then show ?case by (simp add: shift_left.simps)
next
  case (Suc k)
  then have lt: "i < n" "Suc i < length a" by auto
  let ?a = "a[i := a ! Suc i]"
  have "shift_left a (int i) (int n) = shift_left ?a (int (Suc i)) (int n)"
    using lt by (subst shift_left.simps) (simp add: rd_def wr_def nat_add_distrib add.commute)
  also have "\<dots> = Some (take (Suc i) ?a @ take (n - Suc i) (drop (Suc (Suc i)) ?a) @ drop n ?a)"
    using Suc.hyps(1)[of "Suc i" ?a] Suc.hyps(2) Suc.prems lt by simp
  also have "\<dots> = Some (take i a @ take (n - i) (drop (Suc i) a) @ drop n a)"
  proof -
    have "take (Suc i) ?a = take i a @ [a ! Suc i]"
      using lt by (simp add: take_Suc_conv_app_nth)
    moreover have "take (n - i) (drop (Suc i) a) = a ! Suc i # take (n - Suc i) (drop (Suc (Suc i)) a)"
      using lt by (simp add: Cons_nth_drop_Suc[symmetric] take_Cons')
    ultimately show ?thesis using lt by simp
  qed
  finally show ?case .
qed

lemma shift_right_nat:
  "p \<le> i \<Longrightarrow> i < length a \<Longrightarrow>
   shift_right a (int i) (int p) = Some (take (Suc p) a @ take (i - p) (drop p a) @ drop (Suc i) a)"
proof (induction "i - p" arbitrary: i a)
  case 0
  then have "i = p" by simp
  with 0 show ?case by (simp add: shift_right.simps)
next
  case (Suc k)
  then have "p < i" by simp
  then obtain j where j: "i = Suc j" and pj: "p \<le> j" by (cases i) auto
  let ?a = "a[Suc j := a ! j]"
  have b: "Suc j < length a" using Suc.prems j by simp
  have "shift_right a (int i) (int p) = shift_right ?a (int j) (int p)"
    using b pj by (subst shift_right.simps) (simp add: j rd_def wr_def nat_add_distrib add.commute)
  also have "\<dots> = Some (take (Suc p) ?a @ take (j - p) (drop p ?a) @ drop (Suc j) ?a)"
    using Suc.hyps(1)[of j ?a] Suc.hyps(2) j pj b by simp
  also have "\<dots> = Some (take (Suc p) a @ take (i - p) (drop p a) @ drop (Suc i) a)"
  proof -
    have "take (Suc p) ?a = take (Suc p) a" using pj by simp
    moreover have "take (j - p) (drop p ?a) = take (j - p) (drop p a)"
      using pj by (simp add: take_drop)
    moreover have "drop (Suc j) ?a = a ! j # drop (Suc (Suc j)) a"
      using b by (simp add: drop_update_swap Cons_nth_drop_Suc[symmetric])
    moreover have "take (Suc j - p) (drop p a) = take (j - p) (drop p a) @ [a ! j]"
      using pj b by (simp add: Suc_diff_le take_Suc_conv_app_nth)
    ultimately show ?thesis by (simp add: j)
  qed
  finally show ?case .
qed

subsection \<open>C strings\<close>

lemma cstr_id: "0 \<notin> set s \<Longrightarrow> cstr s = s"
  by (auto simp: cstr_def takeWhile_eq_all_conv)

lemma cstr_append0 [simp]: "0 \<notin> set s \<Longrightarrow> cstr (s @ 0 # t) = s"
  by (auto simp: cstr_def takeWhile_append)

lemma cstr_no0: "0 \<notin> set (cstr s)"
  by (auto simp: cstr_def dest: set_takeWhileD)

lemma append_sep_eq:
  "a @ x # c = b @ x # d \<Longrightarrow> x \<notin> set a \<Longrightarrow> x \<notin> set b \<Longrightarrow> a = b \<and> c = d"
proof (induction a arbitrary: b)
  case Nil then show ?case by (cases b) auto
next
  case (Cons y a) then show ?case by (cases b) auto
qed

lemma replicate_single [simp]: "replicate (Suc 0) x = [x]"
  by simp

end
