(* ===== verification/Textframe.thy ===== *)
theory Textframe
  imports Prelude
begin

text \<open>
  The text buffer of the editor (src/src/textframe.c, textframe.h): lines, a cursor, and the editing
  operations the widgets call. The record keeps the C fields; \<open>data\<close> is the array of line
  pointers with as many cells as were allocated, \<^const>\<open>None\<close> for a null pointer, so that
  \<open>maxrow_capacity\<close> (what the code believes it allocated) and the real size can differ.
  Heap management (\<^verbatim>\<open>free\<close>) is not part of the model: an operation returns the frame that the
  pointers denote afterwards, and \<^const>\<open>None\<close> when the code would read or write outside of an
  array or through a null pointer. Rows and columns are unbounded integers; the code's are
  32-bit, which matters only for texts of more than \<open>2\<^sup>3\<^sup>1\<close> rows or columns.
\<close>

record textframe =
  data :: "cstring option list"
  row :: int
  col :: int
  cursor_row :: int
  cursor_col :: int
  maxrow :: int
  maxrow_capacity :: int

section \<open>String helpers\<close>

text \<open>
  A string argument stands for the buffer \<open>s @ [0]\<close>. The bytes of a fresh buffer are written
  before they are read, so their initial value does not matter.
\<close>

definition strcat :: "cstring \<Rightarrow> cstring \<Rightarrow> int \<Rightarrow> int \<Rightarrow> cstring option" where
  "strcat str1 str2 len1 len2 =
     (let len1 = (if len1 < 0 then 0 else len1);
          len2 = (if len2 < 0 then 0 else len2);
          res = replicate (nat (len1 + len2 + 1)) 0
      in do {
        res \<leftarrow> copy_loop res 0 (str1 @ [0]) 0 0 len1;
        res \<leftarrow> copy_loop res len1 (str2 @ [0]) 0 0 len2;
        res \<leftarrow> wr res (len1 + len2) 0;
        Some (cstr res) })"

definition substr :: "cstring \<Rightarrow> int \<Rightarrow> int \<Rightarrow> cstring option" where
  "substr src start_index len =
     (if start_index < 0 then Some src
      else
        let max_len = strlen src - start_index;
            len = (if len > max_len then max_len else len);
            len = (if len < 0 then 0 else len);
            dst = replicate (nat (len + 1)) 0
        in do {
          dst \<leftarrow> copy_loop dst 0 (src @ [0]) start_index 0 len;
          dst \<leftarrow> wr dst len 0;
          Some (cstr dst) })"

definition data_assign :: "cstring \<Rightarrow> int \<Rightarrow> int \<Rightarrow> cstring \<Rightarrow> int \<Rightarrow> int \<Rightarrow> cstring option" where
  "data_assign src index len tmp tmplen tmpflag =
     (if tmpflag \<noteq> 0 then do { s \<leftarrow> substr src index len; strcat tmp s tmplen len }
      else substr src index len)"

section \<open>Rows and the cursor\<close>

text \<open>\<^verbatim>\<open>text->data[r]\<close>, read through; and the store \<^verbatim>\<open>text->data[r] = l\<close>.\<close>

definition deref :: "cstring option list \<Rightarrow> int \<Rightarrow> cstring option" where
  "deref d r = do { p \<leftarrow> rd d r; p }"

definition line_at :: "textframe \<Rightarrow> int \<Rightarrow> cstring option" where
  "line_at text r = deref (data text) r"

definition set_line :: "textframe \<Rightarrow> int \<Rightarrow> cstring \<Rightarrow> textframe option" where
  "set_line text r l = do { d \<leftarrow> wr (data text) r (Some l); Some (text\<lparr>data := d\<rparr>) }"

text \<open>The backward scan over bytes that belong to Chinese characters (\<open>\<ge> 160\<close>).\<close>

function han_scan :: "cstring \<Rightarrow> int \<Rightarrow> int option" where
  "han_scan s i =
     (if i \<ge> 0 then do { ch \<leftarrow> rd s i; if ch < 160 then Some i else han_scan s (i - 1) } else Some i)"
  by pat_completeness auto
termination by (relation "measure (\<lambda>(s, i). nat (i + 1))") auto

declare han_scan.simps [simp del]

definition textframe_adjust_r_c :: "textframe \<Rightarrow> int \<Rightarrow> int \<Rightarrow> int \<Rightarrow> int \<Rightarrow> (int \<times> int) option" where
  "textframe_adjust_r_c text r c pos dir =
     (let r = (if r \<ge> maxrow text then maxrow text - 1 else r);
          r = (if r < 0 then maxrow text + 1 else r)
      in if 0 \<le> r \<and> r < maxrow text then do {
           curline \<leftarrow> line_at text r;
           let len = strlen curline;
           let c = (if c > len then len else c);
           let c = (if c < 0 then 0 else c);
           if 0 \<le> c \<and> c < len then do {
             ch \<leftarrow> rd curline c;
             if ch \<ge> 160 then do {
               i \<leftarrow> han_scan curline c;
               let count = c - i;
               let c = (if pos = 0 \<and> count mod 2 = 0 then c + dir else c);
               let c = (if pos = 1 \<and> count mod 2 = 1 then c + dir else c);
               Some (r, c) }
             else Some (r, c) }
           else Some (r, c) }
         else Some (r, c))"

text \<open>The call \<^verbatim>\<open>textframe_adjust_r_c(text, &text->cursor_row, &text->cursor_col, pos, dir)\<close>.\<close>

definition adjust_cursor :: "textframe \<Rightarrow> int \<Rightarrow> int \<Rightarrow> textframe option" where
  "adjust_cursor text pos dir = do {
     (r, c) \<leftarrow> textframe_adjust_r_c text (cursor_row text) (cursor_col text) pos dir;
     Some (text\<lparr>cursor_row := r, cursor_col := c\<rparr>) }"

text \<open>
  The comparison \<^verbatim>\<open>c > strlen(text->data[r])\<close> is unsigned in C, so that a negative column
  counts as greater.
\<close>

definition move_to_pos :: "textframe \<Rightarrow> int \<Rightarrow> int \<Rightarrow> textframe option" where
  "move_to_pos text r c =
     (let r = (if r = -1 then 0x7fffffff else r);
          c = (if c = -1 then 0x7fffffff else c);
          r = (if r \<ge> maxrow text then maxrow text - 1 else r)
      in do {
        c \<leftarrow> (if r \<ge> 0 then do { l \<leftarrow> line_at text r; Some (if c < 0 \<or> c > strlen l then strlen l else c) }
              else Some c);
        adjust_cursor (text\<lparr>cursor_row := r, cursor_col := c\<rparr>) 0 1 })"

definition move_to_end :: "textframe \<Rightarrow> textframe option" where
  "move_to_end text = move_to_pos text 0x7fffffff 0x7fffffff"

definition move_to_next_char :: "textframe \<Rightarrow> textframe option" where
  "move_to_next_char text = do {
     l \<leftarrow> line_at text (cursor_row text);
     let text = (if cursor_col text < strlen l then text\<lparr>cursor_col := cursor_col text + 1\<rparr>
                 else if cursor_row text + 1 < maxrow text
                 then text\<lparr>cursor_row := cursor_row text + 1, cursor_col := 0\<rparr>
                 else text);
     adjust_cursor text 0 1 }"

definition move_to_previous_char :: "textframe \<Rightarrow> textframe option" where
  "move_to_previous_char text = do {
     text \<leftarrow> (if cursor_col text > 0 then Some (text\<lparr>cursor_col := cursor_col text - 1\<rparr>)
              else if cursor_row text > 0 then do {
                l \<leftarrow> line_at text (cursor_row text - 1);
                Some (text\<lparr>cursor_row := cursor_row text - 1, cursor_col := strlen l\<rparr>) }
              else Some text);
     adjust_cursor text 0 (-1) }"

definition move_to_next_line :: "textframe \<Rightarrow> textframe option" where
  "move_to_next_line text =
     adjust_cursor (if cursor_row text + 1 < maxrow text
                    then text\<lparr>cursor_row := cursor_row text + 1\<rparr> else text) 0 1"

definition move_to_last_line :: "textframe \<Rightarrow> textframe option" where
  "move_to_last_line text =
     adjust_cursor (if cursor_row text > 0
                    then text\<lparr>cursor_row := cursor_row text - 1\<rparr> else text) 0 1"

section \<open>Editing at the cursor\<close>

text \<open>
  \<open>putc_to_str\<close> opens a gap in a copy of the line and stores the byte. With a column outside
  of the line the code would move bytes it never initialised; the model refuses that.
\<close>

definition putc_to_str :: "textframe \<Rightarrow> byte \<Rightarrow> textframe option" where
  "putc_to_str text ch = do {
     s \<leftarrow> line_at text (cursor_row text);
     let len = strlen s;
     new_s \<leftarrow> copy_loop (replicate (nat (len + 2)) 0) 0 (s @ [0]) 0 0 len;
     if 0 \<le> cursor_col text \<and> cursor_col text \<le> len then do {
       new_s \<leftarrow> shift_right new_s (len + 1) (cursor_col text);
       new_s \<leftarrow> wr new_s (cursor_col text) ch;
       new_s \<leftarrow> wr new_s (len + 1) 0;
       set_line text (cursor_row text) (cstr new_s) }
     else None }"

text \<open>The \<^verbatim>\<open>do ... while (is_han--)\<close> loop runs once more for a Chinese byte.\<close>

definition backspace_to_str :: "textframe \<Rightarrow> textframe option" where
  "backspace_to_str text = do {
     text \<leftarrow> adjust_cursor text 0 1;
     s \<leftarrow> line_at text (cursor_row text);
     let p = cursor_col text;
     let len = strlen s;
     let is_han = (0 \<le> p \<and> p < len \<and> s ! nat p \<ge> 160);
     buf \<leftarrow> shift_left (s @ [0]) p len;
     buf \<leftarrow> (if is_han then shift_left buf p len else Some buf);
     set_line text (cursor_row text) (cstr buf) }"

definition new_line_to_editor :: "textframe \<Rightarrow> textframe option" where
  "new_line_to_editor text = do {
     let len = maxrow text;
     text \<leftarrow> adjust_cursor text 0 1;
     (new_data, capacity) \<leftarrow>
       (if len + 1 \<ge> maxrow_capacity text then do {
          d \<leftarrow> copy_loop (replicate (nat (len * 2)) None) 0 (data text) 0 0 len;
          Some (d, len * 2) }
        else Some (data text, maxrow_capacity text));
     new_data \<leftarrow> shift_right new_data len (cursor_row text + 1);
     curline \<leftarrow> deref new_data (cursor_row text);
     tail \<leftarrow> substr curline (cursor_col text) (strlen curline - cursor_col text);
     new_data \<leftarrow> wr new_data (cursor_row text + 1) (Some tail);
     buf \<leftarrow> wr (curline @ [0]) (cursor_col text) 0;
     new_data \<leftarrow> wr new_data (cursor_row text) (Some (cstr buf));
     move_to_pos (text\<lparr>data := new_data, maxrow := len + 1, maxrow_capacity := capacity\<rparr>)
       (cursor_row text + 1) 0 }"

definition LineEdit_set_str :: "cstring \<Rightarrow> textframe" where
  "LineEdit_set_str str =
     \<lparr>data = [Some str], row = 0, col = 0, cursor_row = 0, cursor_col = 0,
      maxrow = 1, maxrow_capacity = 1\<rparr>"

definition clear_cur_line :: "textframe \<Rightarrow> textframe option" where
  "clear_cur_line text =
     (if 0 \<le> cursor_row text \<and> cursor_row text < maxrow text then do {
        text \<leftarrow> set_line text (cursor_row text) [];
        Some (text\<lparr>cursor_col := 0\<rparr>) }
      else Some text)"

definition move_cur_line_to_prev_line :: "textframe \<Rightarrow> textframe option" where
  "move_cur_line_to_prev_line text =
     (if 0 < cursor_row text \<and> cursor_row text < maxrow text then do {
        cur \<leftarrow> line_at text (cursor_row text);
        prev \<leftarrow> line_at text (cursor_row text - 1);
        joined \<leftarrow> strcat prev cur (strlen prev) (strlen cur);
        text \<leftarrow> set_line text (cursor_row text - 1) joined;
        d \<leftarrow> shift_left (data text) (cursor_row text) (maxrow text - 1);
        move_to_pos (text\<lparr>data := d, maxrow := maxrow text - 1\<rparr>) (cursor_row text - 1) (-1) }
      else Some text)"

section \<open>Files\<close>

text \<open>
  \<open>textframe_read\<close> takes the descriptor that \<^verbatim>\<open>open\<close> returned and the blocks that the successive
  calls of \<^verbatim>\<open>read\<close> returned until the first that was not positive. \<open>lastc\<close> is the
  previous character (\<open>-1\<close> before the first).
\<close>

definition read_byte :: "textframe \<Rightarrow> int \<Rightarrow> byte \<Rightarrow> (textframe \<times> int) option" where
  "read_byte text lastc c = do {
     text \<leftarrow> (if c = 13 \<or> c = 10
              then (if c = 13 \<or> (c = 10 \<and> lastc \<noteq> 13) then new_line_to_editor text else Some text)
              else do { text \<leftarrow> putc_to_str text c; move_to_next_char text });
     Some (text, sint c) }"

fun read_block :: "textframe \<Rightarrow> int \<Rightarrow> byte list \<Rightarrow> (textframe \<times> int) option" where
  "read_block text lastc [] = Some (text, lastc)"
| "read_block text lastc (c # cs) = do {
     (text, lastc) \<leftarrow> read_byte text lastc c; read_block text lastc cs }"

fun read_blocks :: "textframe \<Rightarrow> int \<Rightarrow> byte list list \<Rightarrow> (textframe \<times> int) option" where
  "read_blocks text lastc [] = Some (text, lastc)"
| "read_blocks text lastc (b # bs) = do {
     (text, lastc) \<leftarrow> read_block text lastc b; read_blocks text lastc bs }"

definition textframe_read :: "textframe \<Rightarrow> int \<Rightarrow> byte list list \<Rightarrow> (int \<times> textframe) option" where
  "textframe_read text fd blocks =
     (if fd < 0 then Some (-1, text)
      else do {
        (text, lastc) \<leftarrow> read_blocks (LineEdit_set_str []) (-1) blocks;
        text \<leftarrow> (if maxrow text > 0 then move_to_pos text 0 0 else Some text);
        Some (0, text\<lparr>maxrow_capacity := maxrow text\<rparr>) })"

text \<open>
  The parameter \<open>sys_write\<close> is the system call: from the contents of the open file and the bytes
  to append it gives the value returned and the contents afterwards.
\<close>

type_synonym write_call = "byte list \<Rightarrow> byte list \<Rightarrow> int \<times> byte list"

function write_rows :: "write_call \<Rightarrow> textframe \<Rightarrow> int \<Rightarrow> byte list \<Rightarrow> (int \<times> byte list) option" where
  "write_rows sys_write text i file =
     (if i < maxrow text then do {
        l \<leftarrow> line_at text i;
        let (len, file) = sys_write file l;
        if len < 0 then Some (-1, file)
        else
          let file = (if i < maxrow text - 1 then snd (sys_write file [10]) else file)
          in write_rows sys_write text (i + 1) file }
      else Some (0, file))"
  by pat_completeness auto
termination by (relation "measure (\<lambda>(w, text, i, file). nat (maxrow text - i))") auto

declare write_rows.simps [simp del]

text \<open>\<open>file\<close> is what the file holds once it is opened (nothing, when \<^verbatim>\<open>unlink\<close> removed the old one).\<close>

definition textframe_write ::
  "write_call \<Rightarrow> textframe \<Rightarrow> int \<Rightarrow> byte list \<Rightarrow> (int \<times> textframe \<times> byte list) option" where
  "textframe_write sys_write text fd file =
     (if fd < 0 then Some (-1, text, file)
      else do {
        (r, file) \<leftarrow> write_rows sys_write text 0 file;
        Some (if r < 0 then (-1, text, file)
              else (0, text\<lparr>maxrow_capacity := maxrow text\<rparr>, file)) })"

section \<open>Ranges of text\<close>

text \<open>
  The loop of \<open>textframe_extract\<close>: row \<open>i\<close> of the result is taken from row
  \<open>start_row\<close> of the text, from column \<open>start_col\<close> on, \<open>line_len\<close> bytes.
\<close>

function extract_loop :: "textframe \<Rightarrow> int \<Rightarrow> int \<Rightarrow> int \<Rightarrow> int \<Rightarrow> int \<Rightarrow> int \<Rightarrow> int \<Rightarrow> int \<Rightarrow>
    cstring option list \<Rightarrow> cstring option list option" where
  "extract_loop text start_len end_col end_len max_row i start_row start_col line_len res =
     (if i < max_row then do {
        (start_row, start_col, line_len) \<leftarrow>
          (if i = 0 \<and> start_col > start_len
           then do { l \<leftarrow> line_at text (start_row + 1); Some (start_row + 1, 0, strlen l) }
           else Some (start_row, start_col, line_len));
        l \<leftarrow> line_at text start_row;
        s \<leftarrow> substr l start_col line_len;
        res \<leftarrow> wr res i (Some s);
        line_len \<leftarrow>
          (if i < max_row - 2
           then do { l \<leftarrow> line_at text (start_row + 1); Some (strlen l) }
           else Some (if end_col \<ge> end_len \<and> i = max_row - 2 then 0 else end_col + 1));
        extract_loop text start_len end_col end_len max_row (i + 1) (start_row + 1) 0 line_len res }
      else Some res)"
  by pat_completeness auto
termination
  by (relation "measure (\<lambda>(text, sl, ec, el, max_row, i, sr, sc, ll, res). nat (max_row - i))") auto

declare extract_loop.simps [simp del]

text \<open>
  When nothing is extracted only \<open>maxrow\<close> of the result is set; its other fields are whatever
  \<^verbatim>\<open>malloc\<close> returned, here an array without cells.
\<close>

definition textframe_extract :: "textframe \<Rightarrow> int \<Rightarrow> int \<Rightarrow> int \<Rightarrow> int \<Rightarrow> textframe option" where
  "textframe_extract text start_row start_col end_row end_col = do {
     (start_row, start_col) \<leftarrow> textframe_adjust_r_c text start_row start_col 0 (-1);
     (end_row, end_col) \<leftarrow> textframe_adjust_r_c text end_row end_col 1 1;
     let start_row = (if start_row < 0 then 0 else start_row);
     let end_row = (if end_row < 0 \<or> end_row \<ge> maxrow text then maxrow text - 1 else end_row);
     start_line \<leftarrow> line_at text start_row;
     end_line \<leftarrow> line_at text end_row;
     let start_len = strlen start_line;
     let end_len = strlen end_line;
     let max_row = end_row - start_row + 1;
     let max_row = (if start_col > start_len then max_row - 1 else max_row);
     let max_row = (if end_col \<ge> end_len then max_row + 1 else max_row);
     if max_row \<le> 0
     then Some \<lparr>data = [], row = 0, col = 0, cursor_row = 0, cursor_col = 0,
                maxrow = -1, maxrow_capacity = 0\<rparr>
     else do {
       let start_col = (if start_col < 0 then 0 else start_col);
       let line_len = (if start_row = end_row then end_col - start_col + 1 else start_len - start_col);
       d \<leftarrow> extract_loop text start_len end_col end_len max_row 0 start_row start_col line_len
             (replicate (nat max_row) None);
       Some \<lparr>data = d, row = 0, col = 0, cursor_row = 0, cursor_col = 0,
             maxrow = max_row, maxrow_capacity = max_row\<rparr> } }"

text \<open>
  The loop of \<open>textframe_delete\<close>. The length passed for the tail of the last row is computed
  from the row the loop is at (\<^verbatim>\<open>strlen(text_cur_line)\<close>), as in the source.
\<close>

function delete_loop :: "textframe \<Rightarrow> int \<Rightarrow> int \<Rightarrow> int \<Rightarrow> int \<Rightarrow> int \<Rightarrow> int \<Rightarrow>
    cstring option list \<Rightarrow> (cstring option list \<times> int) option" where
  "delete_loop text start_row start_col end_row end_col i_text i_res res =
     (if i_text < maxrow text then
        if i_text > start_row \<and> i_text < end_row
        then delete_loop text start_row start_col end_row end_col (i_text + 1) i_res res
        else do {
          let keep = (i_text < start_row \<or> i_text > end_row);
          text_cur_line \<leftarrow> line_at text i_text;
          res_cur_line \<leftarrow>
            (if keep then substr text_cur_line 0 (strlen text_cur_line)
             else do {
               first \<leftarrow> line_at text start_row;
               left \<leftarrow> substr first 0 start_col;
               last \<leftarrow> line_at text end_row;
               right \<leftarrow> substr last (end_col + 1) (strlen text_cur_line - end_col - 1);
               strcat left right (strlen left) (strlen right) });
          res \<leftarrow> wr res i_res (Some res_cur_line);
          delete_loop text start_row start_col end_row end_col
            ((if keep then i_text else end_row) + 1) (i_res + 1) res }
      else Some (res, i_res))"
  by pat_completeness auto
termination
  by (relation "measure (\<lambda>(text, sr, sc, er, ec, i_text, i_res, res). nat (maxrow text - i_text))") auto

declare delete_loop.simps [simp del]

definition textframe_delete :: "textframe \<Rightarrow> int \<Rightarrow> int \<Rightarrow> int \<Rightarrow> int \<Rightarrow> textframe option" where
  "textframe_delete text start_row start_col end_row end_col = do {
     (start_row, start_col) \<leftarrow> textframe_adjust_r_c text start_row start_col 0 (-1);
     (end_row, end_col) \<leftarrow> textframe_adjust_r_c text end_row end_col 1 1;
     let start_row = (if start_row < 0 then 0 else start_row);
     let start_col = (if start_col < 0 then 0 else start_col);
     let (end_row, end_col) = (if end_row \<ge> maxrow text then (maxrow text - 1, -1) else (end_row, end_col));
     (d, n) \<leftarrow> delete_loop text start_row start_col end_row end_col 0 0
                (replicate (nat (maxrow text)) None);
     Some \<lparr>data = d, row = 0, col = 0, cursor_row = 0, cursor_col = 0,
           maxrow = n, maxrow_capacity = n\<rparr> }"

text \<open>
  One row of the result of \<open>textframe_insert\<close>, and the cursor position if this row sets it.
  \<open>m\<close> is \<^verbatim>\<open>in_text->maxrow\<close>; \<^verbatim>\<open>text->data[start_row] + start_col\<close> must point into the line.
\<close>

definition insert_row :: "textframe \<Rightarrow> textframe \<Rightarrow> int \<Rightarrow> int \<Rightarrow> int \<Rightarrow> (cstring \<times> (int \<times> int) option) option" where
  "insert_row text in_text start_row start_col i =
     (let m = maxrow in_text in
      if i < start_row then do {
        l \<leftarrow> line_at text i; s \<leftarrow> substr l 0 (strlen l); Some (s, None) }
      else if start_row < i \<and> i < start_row + m - 1 then do {
        l \<leftarrow> line_at in_text (i - start_row); s \<leftarrow> substr l 0 (strlen l); Some (s, None) }
      else if i = start_row \<or> i = start_row + m - 1 then do {
        l \<leftarrow> line_at text start_row;
        left \<leftarrow> substr l 0 start_col;
        right \<leftarrow> (if 0 \<le> start_col \<and> start_col \<le> strlen l
                  then substr (drop (nat start_col) l) 0 (strlen l - start_col) else None);
        if m = 1 then do {
          l0 \<leftarrow> line_at in_text 0;
          curline_left \<leftarrow> strcat left l0 (strlen left) (strlen l0);
          curline \<leftarrow> strcat curline_left right (strlen curline_left) (strlen right);
          Some (curline, Some (i, strlen curline_left)) }
        else if i = start_row then do {
          l0 \<leftarrow> line_at in_text 0;
          curline \<leftarrow> strcat left l0 (strlen left) (strlen l0);
          Some (curline, None) }
        else do {
          l1 \<leftarrow> line_at in_text (m - 1);
          curline \<leftarrow> strcat l1 right (strlen l1) (strlen right);
          Some (curline, Some (i, strlen l1)) } }
      else do {
        l \<leftarrow> line_at text (i - (m - 1)); s \<leftarrow> substr l 0 (strlen l); Some (s, None) })"

function insert_loop :: "textframe \<Rightarrow> textframe \<Rightarrow> int \<Rightarrow> int \<Rightarrow> int \<Rightarrow> textframe \<Rightarrow> textframe option" where
  "insert_loop text in_text start_row start_col i res_text =
     (if i < maxrow text + maxrow in_text - 1 then do {
        (curline, cur) \<leftarrow> insert_row text in_text start_row start_col i;
        res_text \<leftarrow> set_line res_text i curline;
        insert_loop text in_text start_row start_col (i + 1)
          (case cur of None \<Rightarrow> res_text
           | Some (r, c) \<Rightarrow> res_text\<lparr>cursor_row := r, cursor_col := c\<rparr>) }
      else Some res_text)"
  by pat_completeness auto
termination
  by (relation "measure (\<lambda>(text, in_text, sr, sc, i, res). nat (maxrow text + maxrow in_text - 1 - i))") auto

declare insert_loop.simps [simp del]

definition textframe_insert :: "textframe \<Rightarrow> textframe \<Rightarrow> int \<Rightarrow> int \<Rightarrow> textframe option" where
  "textframe_insert text in_text start_row start_col = do {
     (start_row, start_col) \<leftarrow> textframe_adjust_r_c text start_row start_col 0 1;
     let n = maxrow text + maxrow in_text - 1;
     insert_loop text in_text start_row start_col 0
       \<lparr>data = replicate (nat n) None, row = 0, col = 0, cursor_row = 0, cursor_col = 0,
        maxrow = n, maxrow_capacity = 0\<rparr> }"

section \<open>Search\<close>

text \<open>\<^verbatim>\<open>while (k < len && l < str_len && S[k++] == str[l++]);\<close>\<close>

function match_loop :: "cstring \<Rightarrow> cstring \<Rightarrow> int \<Rightarrow> int \<Rightarrow> (int \<times> int) option" where
  "match_loop S str k l =
     (if k < strlen S \<and> l < strlen str then do {
        a \<leftarrow> rd S k; b \<leftarrow> rd str l;
        if a = b then match_loop S str (k + 1) (l + 1) else Some (k + 1, l + 1) }
      else Some (k, l))"
  by pat_completeness auto
termination by (relation "measure (\<lambda>(S, str, k, l). nat (strlen S - k))") auto

declare match_loop.simps [simp del]

text \<open>The loop over the columns of a row: the column after the match, if there is one.\<close>

function search_cols :: "cstring \<Rightarrow> cstring \<Rightarrow> int \<Rightarrow> int option option" where
  "search_cols S str j =
     (if j < strlen S then do {
        (k, l) \<leftarrow> match_loop S str j 0;
        hit \<leftarrow> (if l = strlen str then do { a \<leftarrow> rd S (k - 1); b \<leftarrow> rd str (l - 1); Some (a = b) }
                else Some False);
        if hit then Some (Some k) else search_cols S str (j + 1) }
      else Some None)"
  by pat_completeness auto
termination by (relation "measure (\<lambda>(S, str, j). nat (strlen S - j))") auto

declare search_cols.simps [simp del]

function search_rows :: "textframe \<Rightarrow> cstring \<Rightarrow> int \<Rightarrow> textframe option option" where
  "search_rows edit str i =
     (if i < maxrow edit then do {
        S \<leftarrow> line_at edit i;
        k \<leftarrow> search_cols S str (if i = cursor_row edit then cursor_col edit else 0);
        case k of
          Some k \<Rightarrow> Some (Some (edit\<lparr>cursor_row := i, cursor_col := k\<rparr>))
        | None \<Rightarrow> search_rows edit str (i + 1) }
      else Some None)"
  by pat_completeness auto
termination by (relation "measure (\<lambda>(edit, str, i). nat (maxrow edit - i))") auto

declare search_rows.simps [simp del]

function Search :: "textframe \<Rightarrow> cstring \<Rightarrow> (int \<times> textframe) option" where
  "Search edit str = do {
     found \<leftarrow> search_rows edit str (cursor_row edit);
     case found of
       Some edit' \<Rightarrow> Some (0, edit')
     | None \<Rightarrow>
         (if cursor_row edit \<noteq> 0 \<or> cursor_col edit \<noteq> 0 then do {
            (r, edit') \<leftarrow> Search (edit\<lparr>cursor_row := 0, cursor_col := 0\<rparr>) str;
            Some (if r \<ge> 0 then (1, edit') else (-1, edit)) }
          else Some (-1, edit)) }"
  by pat_completeness auto
termination
  by (relation "measure (\<lambda>(edit, str). if cursor_row edit \<noteq> 0 \<or> cursor_col edit \<noteq> 0 then 1 else 0)") auto

declare Search.simps [simp del]

end
