(* ===== verification/Text_Spec.thy ===== *)
theory Text_Spec
  imports Textframe
begin

text \<open>
  What the text buffer promises: closed forms of its string helpers, the well-formedness
  invariant with the cursor on a character boundary, and one refinement lemma per operation
  against the abstract text (a list of rows and a cursor).
\<close>

section \<open>Closed forms of the string helpers\<close>

lemma copy_loop_upto:
  assumes "0 \<le> d" "0 \<le> s" "0 \<le> n" "d + n \<le> int (length dst)" "s + n \<le> int (length src)"
  shows "copy_loop dst d src s 0 n =
    Some (take (nat d) dst @ take (nat n) (drop (nat s) src) @ drop (nat (d + n)) dst)"
  using assms copy_loop_nat[of 0 "nat n" "nat d" dst "nat s" src]
  by (simp add: nat_add_distrib)

lemma substr_closed [arr_simps]:
  assumes "0 \<notin> set l" "0 \<le> a"
  shows "substr l a n = Some (take (nat n) (drop (nat a) l))"
proof -
  define m where "m = (let m = strlen l - a; k = (if n > m then m else n) in if k < 0 then 0 else k)"
  have m0: "0 \<le> m" and eq: "take (nat m) (drop (nat a) l) = take (nat n) (drop (nat a) l)"
    using assms(2) by (auto simp: m_def Let_def strlen_def)
  have len: "length (take (nat m) (drop (nat a) l)) = nat m"
    using assms(2) by (auto simp: m_def Let_def strlen_def)
  have am: "m = 0 \<or> a + m \<le> strlen l"
    using assms(2) by (auto simp: m_def Let_def)
  have "copy_loop (replicate (nat (m + 1)) 0) 0 (l @ [0]) a 0 m =
        Some (take (nat m) (drop (nat a) l) @ [0])"
  proof (cases "m = 0")
    case True
    then show ?thesis by (simp add: copy_loop.simps)
  next
    case False
    with am have "a + m \<le> strlen l" by simp
    then show ?thesis
      using assms(2) m0
      by (subst copy_loop_upto) (auto simp: strlen_def nat_add_distrib simp del: replicate_Suc)
  qed
  moreover have "wr (take (nat m) (drop (nat a) l) @ [0]) m 0 = Some (take (nat m) (drop (nat a) l) @ [0])"
    using m0 len by (simp add: wr_def list_update_append)
  moreover have "cstr (take (nat m) (drop (nat a) l) @ [0]) = take (nat m) (drop (nat a) l)"
    using assms(1) by (intro cstr_append0) (meson in_set_dropD in_set_takeD)
  ultimately show ?thesis
    using assms(2) eq unfolding substr_def m_def[symmetric] Let_def
    by (simp add: m_def Let_def)
qed

lemma strcat_closed [arr_simps]:
  assumes "0 \<notin> set s" "0 \<notin> set t"
  shows "strcat s t (strlen s) (strlen t) = Some (s @ t)"
proof -
  have "copy_loop (replicate (length s + length t + 1) 0) 0 (s @ [0]) 0 0 (int (length s)) =
        Some (s @ replicate (length t + 1) 0)"
    by (subst copy_loop_upto) (auto simp del: replicate_Suc)
  moreover have "copy_loop (s @ replicate (length t + 1) 0) (int (length s)) (t @ [0]) 0 0 (int (length t)) =
        Some (s @ t @ [0])"
    by (subst copy_loop_upto) (auto simp: nat_add_distrib simp del: replicate_Suc)
  moreover have "wr (s @ t @ [0]) (int (length s) + int (length t)) 0 = Some (s @ t @ [0])"
    by (simp add: wr_def nat_add_distrib list_update_append)
  moreover have "cstr ((s @ t) @ [0]) = s @ t"
    using assms by (intro cstr_append0) auto
  ultimately show ?thesis
    by (simp add: strcat_def strlen_def Let_def nat_add_distrib)
qed

section \<open>Well-formed frames\<close>

definition lines :: "textframe \<Rightarrow> cstring list" where
  "lines t = map the (take (nat (maxrow t)) (data t))"

definition wf_text :: "textframe \<Rightarrow> bool" where
  "wf_text t \<longleftrightarrow> 1 \<le> maxrow t \<and> maxrow t \<le> int (length (data t)) \<and>
     maxrow_capacity t \<le> int (length (data t)) \<and>
     list_all (\<lambda>p. case p of None \<Rightarrow> False | Some l \<Rightarrow> 0 \<notin> set l) (take (nat (maxrow t)) (data t))"

text \<open>
  A byte \<open>\<ge> 160\<close> followed by another one is one Chinese character of two bytes.
  \<open>boundary s c\<close>: column \<open>c\<close> does not fall inside such a pair.
\<close>

fun boundary :: "cstring \<Rightarrow> nat \<Rightarrow> bool" where
  "boundary s 0 = True"
| "boundary [] (Suc c) = False"
| "boundary [b] (Suc c) = (c = 0)"
| "boundary (b # b' # s) (Suc c) =
     (if b \<ge> 160 \<and> b' \<ge> 160 then (case c of 0 \<Rightarrow> False | Suc c' \<Rightarrow> boundary s c')
      else boundary (b' # s) c)"

definition cursor_in :: "textframe \<Rightarrow> bool" where
  "cursor_in t \<longleftrightarrow> 0 \<le> cursor_row t \<and> cursor_row t < maxrow t \<and> 0 \<le> cursor_col t \<and>
     cursor_col t \<le> strlen (lines t ! nat (cursor_row t))"

definition cursor_ok :: "textframe \<Rightarrow> bool" where
  "cursor_ok t \<longleftrightarrow> cursor_in t \<and> boundary (lines t ! nat (cursor_row t)) (nat (cursor_col t))"

lemma cursor_ok_in [simp]: "cursor_ok t \<Longrightarrow> cursor_in t"
  by (simp add: cursor_ok_def)

lemma length_lines [simp]: "wf_text t \<Longrightarrow> length (lines t) = nat (maxrow t)"
  by (auto simp: lines_def wf_text_def min_def)

lemma data_line: "wf_text t \<Longrightarrow> r < nat (maxrow t) \<Longrightarrow> data t ! r = Some (lines t ! r)"
  by (auto simp: lines_def wf_text_def list_all_length split: option.splits) 

lemma line_at_wf [arr_simps]:
  "wf_text t \<Longrightarrow> 0 \<le> r \<Longrightarrow> r < maxrow t \<Longrightarrow> line_at t r = Some (lines t ! nat r)"
  using data_line[of t "nat r"] by (auto simp: line_at_def deref_def rd_def wf_text_def)

lemma lines_no0: "wf_text t \<Longrightarrow> l \<in> set (lines t) \<Longrightarrow> 0 \<notin> set l"
  by (auto simp: lines_def wf_text_def list_all_iff split: option.splits) 

lemma lines_nth_no0: "wf_text t \<Longrightarrow> r < nat (maxrow t) \<Longrightarrow> 0 \<notin> set (lines t ! r)"
  using lines_no0[of t "lines t ! r"] by (simp add: nth_mem)

section \<open>Character boundaries\<close>

text \<open>Length of the run of Chinese bytes that ends at column \<open>c\<close>.\<close>

definition han_run :: "cstring \<Rightarrow> nat \<Rightarrow> nat" where
  "han_run s c = length (takeWhile (\<lambda>b. b \<ge> 160) (rev (take (Suc c) s)))"

lemma han_run_0 [simp]: "han_run (b # s) 0 = (if b \<ge> 160 then 1 else 0)"
  by (simp add: han_run_def)

lemma han_run_step:
  "Suc c < length s \<Longrightarrow> han_run s (Suc c) = (if s ! Suc c \<ge> 160 then Suc (han_run s c) else 0)"
  by (simp add: han_run_def take_Suc_conv_app_nth)

lemma han_run_le: "han_run s c \<le> Suc c"
  by (auto simp: han_run_def intro: order_trans[OF length_takeWhile_le])

lemma han_scan_run:
  "c < length s \<Longrightarrow> han_scan s (int c) = Some (int c - int (han_run s c))"
proof (induction c)
  case 0
  then show ?case
    by (cases s) (auto simp: han_scan.simps[of s 0] han_scan.simps[of s "-1"] han_scan.simps[of _ "-1"]
        han_scan.simps[of _ 0] rd_def not_le)
next
  case (Suc c)
  then have "han_scan s (int c) = Some (int c - int (han_run s c))" by simp
  with Suc.prems show ?case
    by (subst han_scan.simps) (auto simp: rd_def nat_add_distrib han_run_step not_le add.commute)
qed

lemma boundary_1: "s \<noteq> [] \<Longrightarrow> s ! 0 < 160 \<Longrightarrow> boundary s (Suc 0)"
  by (cases s; cases "tl s") (auto simp: not_le)

lemma boundary_ascii: "c < length s \<Longrightarrow> s ! c < 160 \<Longrightarrow> boundary s c \<and> boundary s (Suc c)"
  by (induction s c rule: boundary.induct) (auto simp: not_le nth_Cons boundary_1 split: nat.splits)

lemma boundary_length: "boundary s (length s)"
  by (induction s "length s" rule: boundary.induct) auto

lemma han_run_Cons_ascii: "b < 160 \<Longrightarrow> c < length s \<Longrightarrow> han_run (b # s) (Suc c) = han_run s c"
proof (induction c)
  case 0 then show ?case by (cases s) (auto simp: han_run_step not_le)
next
  case (Suc c) then show ?case by (auto simp: han_run_step)
qed

lemma boundary_han_run:
  "c < length s \<Longrightarrow> s ! c \<ge> 160 \<Longrightarrow> boundary s c \<longleftrightarrow> odd (han_run s c)"
proof (induction s c rule: boundary.induct)
  case (1 s)
  then show ?case by (cases s) auto
next
  case (4 b b' s c)
  show ?case
  proof (cases "b \<ge> 160 \<and> b' \<ge> 160")
    case True
    have two: "odd (han_run (b # b' # s) (Suc (Suc k))) \<longleftrightarrow> odd (han_run s k)" if "k < length s" for k
      using that True
    proof (induction k)
      case 0 then show ?case by (cases s) (auto simp: han_run_step)
    next
      case (Suc k) then show ?case by (auto simp: han_run_step)
    qed
    show ?thesis
    proof (cases c)
      case 0
      with True show ?thesis by (simp add: han_run_step)
    next
      case (Suc k)
      with "4.prems" True "4.IH"(1)[of k] two[of k] show ?thesis by simp
    qed
  next
    case False
    have one: "han_run (b # b' # s) (Suc k) = han_run (b' # s) k" if "k < length (b' # s)" for k
      using that False
    proof (induction k)
      case 0 then show ?case using False by (auto simp: han_run_step)
    next
      case (Suc k) then show ?case by (auto simp: han_run_step)
    qed
    then show ?thesis using "4.prems" "4.IH"(2) False by auto
  qed
qed auto

section \<open>Adjusting a position\<close>

text \<open>The column \<open>textframe_adjust_r_c\<close> chooses in a row \<open>s\<close>, for \<open>pos = 0\<close> and for \<open>pos = 1, dir = 1\<close>.\<close>

definition clampc :: "cstring \<Rightarrow> int \<Rightarrow> int" where
  "clampc s c = (if c > strlen s then strlen s else if c < 0 then 0 else c)"

definition snap :: "cstring \<Rightarrow> int \<Rightarrow> int \<Rightarrow> int" where
  "snap s c dir = (let c = clampc s c in
     if c < strlen s \<and> s ! nat c \<ge> 160 \<and> even (han_run s (nat c)) then c + dir else c)"

definition snap_end :: "cstring \<Rightarrow> int \<Rightarrow> int" where
  "snap_end s c = (let c = clampc s c in
     if c < strlen s \<and> s ! nat c \<ge> 160 \<and> odd (han_run s (nat c)) then c + 1 else c)"

lemma strlen_nonneg [simp]: "0 \<le> strlen s" "\<not> strlen s < 0"
  by (simp_all add: strlen_def)

lemma clampc_range [simp]: "0 \<le> clampc s c" "clampc s c \<le> strlen s"
  by (auto simp: clampc_def)

lemma clampc_id: "0 \<le> c \<Longrightarrow> c \<le> strlen s \<Longrightarrow> clampc s c = c"
  by (simp add: clampc_def)

lemma adjust_clamp:
  assumes "wf_text t" "0 \<le> r" "r < maxrow t"
  shows "textframe_adjust_r_c t r c pos d = textframe_adjust_r_c t r (clampc (lines t ! nat r) c) pos d"
  using assms
  by (cases "c > strlen (lines t ! nat r)"; cases "c < 0")
    (simp_all add: textframe_adjust_r_c_def line_at_wf clampc_def Let_def)

lemma adjust_in_range:
  assumes "wf_text t" "0 \<le> r" "r < maxrow t" "0 \<le> c" "c \<le> strlen (lines t ! nat r)"
  shows "textframe_adjust_r_c t r c pos d = Some (r,
    if c < strlen (lines t ! nat r) \<and> lines t ! nat r ! nat c \<ge> 160 \<and>
       (pos = 0 \<and> even (han_run (lines t ! nat r) (nat c)) \<or> pos = 1 \<and> odd (han_run (lines t ! nat r) (nat c)))
    then c + d else c)"
proof -
  let ?s = "lines t ! nat r"
  have scan: "han_scan ?s c = Some (c - int (han_run ?s (nat c)))" if "c < strlen ?s"
    using han_scan_run[of "nat c" ?s] that assms by (simp add: strlen_def nat_less_iff)
  have par: "int n mod 2 = 0 \<longleftrightarrow> even n" "int n mod 2 = 1 \<longleftrightarrow> odd n" for n
    by presburger+
  show ?thesis
    using assms scan
    by (auto simp: textframe_adjust_r_c_def line_at_wf Let_def rd_def strlen_def par not_le)
qed

lemma adjust_col:
  assumes "wf_text t" "0 \<le> r" "r < maxrow t"
  shows "textframe_adjust_r_c t r c 0 d = Some (r, snap (lines t ! nat r) c d)"
    and "textframe_adjust_r_c t r c 1 1 = Some (r, snap_end (lines t ! nat r) c)"
  by (subst adjust_clamp[OF assms], subst adjust_in_range[OF assms],
      auto simp: snap_def snap_end_def Let_def)+

lemma adjust_row:
  assumes "wf_text t" "0 \<le> r"
  shows "textframe_adjust_r_c t r c pos d = textframe_adjust_r_c t (min r (maxrow t - 1)) c pos d"
  using assms by (auto simp: textframe_adjust_r_c_def Let_def min_def wf_text_def)

lemma adjust_pos:
  assumes "wf_text t" "0 \<le> r" "q = min r (maxrow t - 1)"
  shows "textframe_adjust_r_c t r c 0 d = Some (q, snap (lines t ! nat q) c d)"
    and "textframe_adjust_r_c t r c 1 1 = Some (q, snap_end (lines t ! nat q) c)"
    and "0 \<le> q" "q < maxrow t"
proof -
  show q: "0 \<le> q" "q < maxrow t" using assms by (auto simp: wf_text_def)
  show "textframe_adjust_r_c t r c 0 d = Some (q, snap (lines t ! nat q) c d)"
    "textframe_adjust_r_c t r c 1 1 = Some (q, snap_end (lines t ! nat q) c)"
    using adjust_col[OF assms(1) q] adjust_row[OF assms(1,2)] assms(3) by simp_all
qed

lemma snap_ok:
  assumes "d = 1 \<or> d = -1"
  shows "0 \<le> snap s c d" "snap s c d \<le> strlen s" "boundary s (nat (snap s c d))"
proof -
  let ?c = "clampc s c"
  let ?n = "nat ?c"
  have "0 \<le> snap s c d \<and> snap s c d \<le> strlen s \<and> boundary s (nat (snap s c d))"
  proof (cases "?c < strlen s")
    case False
    then have "?c = strlen s" using clampc_range(2)[of s c] by simp
    then show ?thesis by (simp add: snap_def Let_def strlen_def boundary_length)
  next
    case lt: True
    then have n: "?n < length s" by (simp add: strlen_def nat_less_iff)
    show ?thesis
    proof (cases "s ! ?n \<ge> 160 \<and> even (han_run s ?n)")
      case False
      then have "boundary s ?n"
        using boundary_ascii[OF n] boundary_han_run[OF n] by (cases "s ! ?n < 160") (auto simp: not_less)
      with False lt show ?thesis by (auto simp: snap_def Let_def)
    next
      case True
      then have n0: "?n \<noteq> 0" using n by (cases s) auto
      then obtain m where m: "?n = Suc m" by (cases ?n) auto
      have odd_m: "odd (han_run s m)" "s ! m \<ge> 160"
      proof -
        show "odd (han_run s m)" using True n m han_run_step[of m s] by auto
        then show "s ! m \<ge> 160"
          using n m by (cases m; cases s) (auto simp: han_run_step split: if_splits)
      qed
      have bm: "boundary s m" using boundary_han_run[of m s] n m odd_m by simp
      have bs: "boundary s (Suc ?n)"
      proof (cases "Suc ?n < length s")
        case False
        with n have "Suc ?n = length s" by simp
        then show ?thesis by (metis boundary_length)
      next
        case l: True
        show ?thesis
        proof (cases "s ! Suc ?n < 160")
          case True with boundary_ascii[OF l] show ?thesis by simp
        next
          case False
          with l True show ?thesis by (simp add: boundary_han_run han_run_step not_less)
        qed
      qed
      have "nat (?c + 1) = Suc ?n" "nat (?c + -1) = m" using m clampc_range(1)[of s c] by auto
      with True lt assms bm bs n0 show ?thesis
        by (auto simp: snap_def Let_def)
    qed
  qed
  then show "0 \<le> snap s c d" "snap s c d \<le> strlen s" "boundary s (nat (snap s c d))" by auto
qed

lemma snap_id:
  assumes "0 \<le> c" "c \<le> strlen s" "boundary s (nat c)"
  shows "snap s c d = c"
  using assms boundary_han_run[of "nat c" s]
  by (auto simp: snap_def Let_def clampc_id strlen_def nat_less_iff)

section \<open>Rebuilding well-formedness\<close>

text \<open>A frame whose first cells are exactly the rows \<open>L\<close> is well-formed and has these lines.\<close>

lemma wf_linesI:
  assumes "take (length L) (data t) = map Some L" "maxrow t = int (length L)" "L \<noteq> []"
    "maxrow_capacity t \<le> int (length (data t))" "\<And>l. l \<in> set L \<Longrightarrow> 0 \<notin> set l"
  shows "wf_text t" "lines t = L"
proof -
  have "length L \<le> length (data t)"
    using arg_cong[OF assms(1), of length] by simp
  moreover have "nat (maxrow t) = length L" "1 \<le> maxrow t"
    using assms(2,3) by (cases L; simp)+
  ultimately show "wf_text t"
    using assms by (auto simp: wf_text_def list_all_iff)
  show "lines t = L"
    using assms(1,2) by (simp add: lines_def comp_def)
qed

lemma wf_rowsI:
  assumes "data t = map Some L @ rest" "maxrow t = int (length L)" "L \<noteq> []"
    "maxrow_capacity t \<le> int (length L + length rest)" "\<And>l. l \<in> set L \<Longrightarrow> 0 \<notin> set l"
  shows "wf_text t" "lines t = L"
  using assms by (intro wf_linesI[of L t]; simp)+

lemma wf_take: 
  assumes "wf_text t"
  shows "take (nat (maxrow t)) (data t) = map Some (lines t)"
proof (rule nth_equalityI)
  have "nat (maxrow t) \<le> length (data t)" using assms by (auto simp: wf_text_def)
  then show "length (take (nat (maxrow t)) (data t)) = length (map Some (lines t))" using assms by simp
qed (use assms in \<open>auto simp: data_line\<close>)

lemma wf_text_fields:
  assumes "wf_text t"
  shows "1 \<le> maxrow t" "maxrow t \<le> int (length (data t))" "maxrow_capacity t \<le> int (length (data t))"
    "lines t \<noteq> []" "maxrow t = int (length (lines t))"
  using assms length_lines[OF assms] by (auto simp: wf_text_def simp del: length_lines)

lemma wf_cursor [simp]:
  "wf_text (t\<lparr>cursor_row := r\<rparr>) = wf_text t" "wf_text (t\<lparr>cursor_col := c\<rparr>) = wf_text t"
  "lines (t\<lparr>cursor_row := r\<rparr>) = lines t" "lines (t\<lparr>cursor_col := c\<rparr>) = lines t"
  by (simp_all add: wf_text_def lines_def)

lemma wf_update_row:
  assumes "wf_text t" "r < nat (maxrow t)" "0 \<notin> set l"
  shows "wf_text (t\<lparr>data := (data t)[r := Some l]\<rparr>)"
    "lines (t\<lparr>data := (data t)[r := Some l]\<rparr>) = (lines t)[r := l]"
proof -
  let ?t = "t\<lparr>data := (data t)[r := Some l]\<rparr>" and ?L = "(lines t)[r := l]"
  have a: "take (length ?L) (data ?t) = map Some ?L"
    using assms wf_take[OF assms(1)] by (simp add: take_update_swap map_update)
  have b: "0 \<notin> set x" if "x \<in> set ?L" for x
    using that assms lines_no0[OF assms(1)] set_update_subset_insert[of "lines t" r l] by auto
  have c: "maxrow ?t = int (length ?L)" "?L \<noteq> []" "maxrow_capacity ?t \<le> int (length (data ?t))"
    using wf_text_fields[OF assms(1)] by auto
  show "wf_text ?t" "lines ?t = ?L"
    using wf_linesI[OF a c b] by auto
qed

lemma set_line_wf:
  assumes "wf_text t" "0 \<le> r" "r < maxrow t"
  shows "set_line t r l = Some (t\<lparr>data := (data t)[nat r := Some l]\<rparr>)"
  using assms wf_text_fields(2)[OF assms(1)] by (simp add: set_line_def wr_def)

section \<open>Moving the cursor\<close>

lemma adjust_cursor_wf:
  assumes "wf_text t" "0 \<le> cursor_row t"
  shows "adjust_cursor t 0 d =
    Some (t\<lparr>cursor_row := min (cursor_row t) (maxrow t - 1),
            cursor_col := snap (lines t ! nat (min (cursor_row t) (maxrow t - 1))) (cursor_col t) d\<rparr>)"
  using wf_text_fields(1)[OF assms(1)] assms
  unfolding adjust_cursor_def by (subst adjust_row[OF assms]) (simp add: adjust_col(1))

lemma adjust_cursor_result:
  assumes "wf_text t" "0 \<le> cursor_row t" "d = 1 \<or> d = -1"
  obtains t' where "adjust_cursor t 0 d = Some t'" "wf_text t'" "cursor_ok t'" "lines t' = lines t"
    "data t' = data t" "maxrow t' = maxrow t"
  using adjust_cursor_wf[OF assms(1,2), of d] snap_ok[OF assms(3)] assms wf_text_fields(1)[OF assms(1)]
  by (simp add: cursor_ok_def cursor_in_def)

lemma adjust_cursor_id:
  assumes "wf_text t" "cursor_ok t"
  shows "adjust_cursor t 0 d = Some t"
  using assms by (simp add: adjust_cursor_wf cursor_ok_def cursor_in_def snap_id min_def)

lemma move_to_pos_wf:
  assumes "wf_text t" "0 \<le> r" "r < maxrow t" "0 \<le> c"
  shows "move_to_pos t r c = Some (t\<lparr>cursor_row := r, cursor_col := snap (lines t ! nat r) c 1\<rparr>)"
proof -
  have "clampc s (if c < 0 \<or> strlen s < c then strlen s else c) = clampc s c" for s
    using assms(4) by (simp add: clampc_def)
  then have "snap s (if c < 0 \<or> strlen s < c then strlen s else c) 1 = snap s c 1" for s
    by (simp add: snap_def)
  then show ?thesis
    using assms by (simp add: move_to_pos_def line_at_wf adjust_cursor_wf min_def Let_def)
qed

lemma move_to_pos_end:
  "wf_text t \<Longrightarrow> 0 \<le> r \<Longrightarrow> r < maxrow t \<Longrightarrow>
   move_to_pos t r (-1) = Some (t\<lparr>cursor_row := r, cursor_col := snap (lines t ! nat r) 0x7fffffff 1\<rparr>)"
  using move_to_pos_wf[of t r "0x7fffffff"] by (simp add: move_to_pos_def)

lemma snap_end_of_line:
  assumes "strlen s \<le> c"
  shows "snap s c d = strlen s"
proof -
  have "clampc s c = strlen s" using assms by (auto simp: clampc_def)
  then show ?thesis by (simp add: snap_def)
qed

section \<open>Editing operations on the abstract text\<close>

text \<open>The row under the cursor and the cursor column of a frame, and the rows the cursor splits.\<close>

abbreviation cur_line :: "textframe \<Rightarrow> cstring" where
  "cur_line t \<equiv> lines t ! nat (cursor_row t)"

lemma cursor_inD:
  assumes "wf_text t" "cursor_in t"
  shows "0 \<le> cursor_row t" "cursor_row t < maxrow t" "nat (cursor_row t) < length (lines t)"
    "0 \<le> cursor_col t" "cursor_col t \<le> strlen (cur_line t)" "nat (cursor_col t) \<le> length (cur_line t)"
    "0 \<notin> set (cur_line t)"
  using assms lines_nth_no0[of t "nat (cursor_row t)"] by (auto simp: cursor_in_def strlen_def)

lemma putc_closed:
  assumes "0 \<notin> set s" "c \<le> length s" "ch \<noteq> 0"
  shows "(do { new_s \<leftarrow> copy_loop (replicate (nat (strlen s + 2)) 0) 0 (s @ [0]) 0 0 (strlen s);
               new_s \<leftarrow> shift_right new_s (strlen s + 1) (int c);
               new_s \<leftarrow> wr new_s (int c) ch;
               wr new_s (strlen s + 1) 0 }) = Some (take c s @ ch # drop c s @ [0])"
proof -
  have n: "replicate (nat (strlen s + 2)) 0 = replicate (length s) 0 @ [0, 0]"
    by (simp add: strlen_def nat_add_distrib replicate_append_same[symmetric] flip: append_Cons)
  have 1: "copy_loop (replicate (nat (strlen s + 2)) 0) 0 (s @ [0]) 0 0 (strlen s) = Some (s @ [0, 0])"
    unfolding n by (subst copy_loop_upto) (auto simp: strlen_def)
  have 2: "shift_right (s @ [0, 0]) (strlen s + 1) (int c) =
      Some (take (Suc c) (s @ [0, 0]) @ take (Suc (length s) - c) (drop c (s @ [0, 0])))"
    using shift_right_nat[of c "Suc (length s)" "s @ [0, 0]"] assms(2) by (simp add: strlen_def add.commute)
  have 3: "take (Suc c) (s @ [0, 0]) = take c s @ [(s @ [0, 0]) ! c]"
    using assms(2) by (subst take_Suc_conv_app_nth) auto
  have 4: "take (Suc (length s) - c) (drop c (s @ [0, 0])) = drop c s @ [0]"
    using assms(2) by (simp add: Suc_diff_le)
  have 5: "wr ((take c s @ [(s @ [0, 0]) ! c]) @ drop c s @ [0]) (int c) ch = Some (take c s @ ch # drop c s @ [0])"
    using assms(2) by (simp add: list_update_append)
  have 6: "wr (take c s @ ch # drop c s @ [0]) (strlen s + 1) 0 = Some (take c s @ ch # drop c s @ [0])"
    using assms(2) by (simp add: wr_def strlen_def nat_add_distrib list_update_append Suc_diff_le
        split: nat.splits)
  show ?thesis by (simp only: 1 2 3 4 5 6 bind.bind_lunit)
qed

text \<open>\<open>putc_to_str\<close> inserts the byte at the cursor and leaves the cursor where it is.\<close>

lemma putc_to_str_wf:
  assumes "wf_text t" "cursor_in t" "ch \<noteq> 0"
  defines "l \<equiv> cur_line t" and "c \<equiv> nat (cursor_col t)"
  shows "putc_to_str t ch = Some (t\<lparr>data := (data t)[nat (cursor_row t) := Some (take c l @ ch # drop c l)]\<rparr>)"
proof -
  note c = cursor_inD[OF assms(1,2)]
  have no0: "0 \<notin> set (take c l @ ch # drop c l)"
    using c(7) assms(3) by (auto simp: l_def dest: in_set_takeD in_set_dropD)
  have cs: "cstr (take c l @ ch # drop c l @ [0]) = take c l @ ch # drop c l"
    using cstr_append0[OF no0, of "[]"] by simp
  have p: "(do { new_s \<leftarrow> copy_loop (replicate (nat (strlen l + 2)) 0) 0 (l @ [0]) 0 0 (strlen l);
               new_s \<leftarrow> shift_right new_s (strlen l + 1) (cursor_col t);
               new_s \<leftarrow> wr new_s (cursor_col t) ch;
               wr new_s (strlen l + 1) 0 }) = Some (take c l @ ch # drop c l @ [0])"
    using putc_closed[of l c ch] c assms(3) by (simp add: l_def c_def)
  have assoc: "putc_to_str t ch = do { new_s \<leftarrow>
       (do { new_s \<leftarrow> copy_loop (replicate (nat (strlen l + 2)) 0) 0 (l @ [0]) 0 0 (strlen l);
               new_s \<leftarrow> shift_right new_s (strlen l + 1) (cursor_col t);
               new_s \<leftarrow> wr new_s (cursor_col t) ch;
               wr new_s (strlen l + 1) 0 });
       set_line t (cursor_row t) (cstr new_s) }"
    using c by (simp add: putc_to_str_def line_at_wf assms(1) l_def Let_def)
  show ?thesis
    unfolding assoc p using c assms(1) by (simp add: cs set_line_wf)
qed

text \<open>
  \<open>backspace_to_str\<close> (the Delete key at a position) removes the character that starts at the
  cursor: two bytes for a Chinese character, one otherwise, nothing at the end of the line.
\<close>

definition char_len :: "cstring \<Rightarrow> nat \<Rightarrow> nat" where
  "char_len s c = (if c < length s \<and> s ! c \<ge> 160 then 2 else 1)"

lemma shift_left_twice:
  assumes "p < length s"
  shows "(do { buf \<leftarrow> shift_left (s @ [0]) (int p) (strlen s); shift_left buf (int p) (strlen s) }) =
    Some (take p s @ drop (Suc (Suc p)) s @ [0, 0] @ (if Suc p < length s then [0] else []))"
proof -
  have 1: "shift_left (s @ [0]) (int p) (strlen s) = Some (take p s @ drop (Suc p) s @ [0, 0])"
    using shift_left_nat[of p "length s" "s @ [0]"] assms by (simp add: strlen_def)
  have 2: "shift_left (take p s @ drop (Suc p) s @ [0, 0]) (int p) (strlen s) =
     Some (take p s @ take (length s - p) (drop (Suc p) (take p s @ drop (Suc p) s @ [0, 0])) @ [0])"
    using shift_left_nat[of p "length s" "take p s @ drop (Suc p) s @ [0, 0]"] assms by (simp add: strlen_def)
  have 3: "take (length s - p) (drop (Suc p) (take p s @ drop (Suc p) s @ [0, 0])) @ [0] =
     drop (Suc (Suc p)) s @ [0, 0] @ (if Suc p < length s then [0] else [])"
  proof (cases "Suc p < length s")
    case False
    with assms have "length s = Suc p" by simp
    then show ?thesis by simp
  qed (auto simp: Suc_diff_Suc)
  show ?thesis by (simp only: 1 2 3 bind.bind_lunit)
qed

lemma backspace_line:
  assumes "0 \<notin> set s" "p \<le> length s"
  shows "(do { buf \<leftarrow> shift_left (s @ [0]) (int p) (strlen s);
               buf \<leftarrow> (if p < length s \<and> s ! p \<ge> 160 then shift_left buf (int p) (strlen s) else Some buf);
               Some (cstr buf) }) = Some (take p s @ drop (p + char_len s p) s)"
proof (cases "p < length s \<and> s ! p \<ge> 160")
  case True
  have no0: "0 \<notin> set (take p s @ drop (Suc (Suc p)) s)"
    using assms(1) by (auto dest: in_set_takeD in_set_dropD)
  show ?thesis
    using True shift_left_twice[of p s] cstr_append0[OF no0] by (auto simp: char_len_def bind_eq_Some_conv)
next
  case False
  have no0: "0 \<notin> set (take p s @ drop (Suc p) s)"
    using assms(1) by (auto dest: in_set_takeD in_set_dropD)
  have "shift_left (s @ [0]) (int p) (strlen s) =
      Some (take p s @ drop (Suc p) s @ (if p < length s then [0, 0] else [0]))"
    using shift_left_nat[of p "length s" "s @ [0]"] assms(2) by (auto simp: strlen_def)
  then show ?thesis
    using False cstr_append0[OF no0] by (auto simp: char_len_def)
qed

lemma backspace_to_str_wf:
  assumes "wf_text t" "cursor_ok t"
  defines "l \<equiv> cur_line t" and "c \<equiv> nat (cursor_col t)"
  shows "backspace_to_str t =
    Some (t\<lparr>data := (data t)[nat (cursor_row t) := Some (take c l @ drop (c + char_len l c) l)]\<rparr>)"
proof -
  note c = cursor_inD[OF assms(1) cursor_ok_in[OF assms(2)]]
  have cc: "cursor_col t = int c" using c by (simp add: c_def)
  have lc: "0 \<notin> set l" "c \<le> length l" using c by (simp_all add: l_def c_def)
  obtain buf buf' where b: "shift_left (l @ [0]) (int c) (strlen l) = Some buf"
    "(if c < length l \<and> l ! c \<ge> 160 then shift_left buf (int c) (strlen l) else Some buf) = Some buf'"
    "cstr buf' = take c l @ drop (c + char_len l c) l"
    using backspace_line[OF lc] unfolding bind_eq_Some_conv option.inject by blast
  have "backspace_to_str t = set_line t (cursor_row t) (cstr buf')"
    using b adjust_cursor_id[OF assms(1,2), of 1] line_at_wf[OF assms(1) c(1,2)]
    by (cases "c < length l \<and> l ! c \<ge> 160")
      (auto simp: backspace_to_str_def l_def[symmetric] cc Let_def strlen_def)
  then show ?thesis using c assms(1) b(3) by (simp add: set_line_wf)
qed

text \<open>The array of rows with a gap opened below row \<open>r\<close>.\<close>

lemma open_gap:
  assumes "take (length L) nd = map Some L" "length L < length nd" "r < length L"
  obtains p rest where "shift_right nd (int (length L)) (int r + 1) =
      Some (map Some (take r L) @ Some (L ! r) # p # map Some (drop (Suc r) L) @ rest)"
    "length rest = length nd - Suc (length L)"
proof -
  have nd: "nd = map Some L @ drop (length L) nd"
    using assms(1) by (metis append_take_drop_id)
  have 1: "take (Suc (Suc r)) nd = map Some (take r L) @ [Some (L ! r), nd ! Suc r]"
  proof -
    have "take (Suc r) nd = take (Suc r) (map Some L)"
      using assms by (metis Suc_leI min.absorb1 take_take)
    then show ?thesis using assms
      by (simp add: take_Suc_conv_app_nth[of "Suc r"] take_map take_Suc_conv_app_nth[of r L])
  qed
  have 2: "take (length L - Suc r) (drop (Suc r) nd) = map Some (drop (Suc r) L)"
    using assms by (subst nd) (simp add: drop_map)
  have "shift_right nd (int (length L)) (int (Suc r)) =
      Some (take (Suc (Suc r)) nd @ take (length L - Suc r) (drop (Suc r) nd) @ drop (Suc (length L)) nd)"
    using assms by (intro shift_right_nat) auto
  then show thesis
    unfolding 1 2 by (intro that[of "nd ! Suc r" "drop (Suc (length L)) nd"]) (auto simp: add.commute)
qed

lemma new_line_capacity:
  assumes "wf_text t" "len = maxrow t"
  obtains nd cap where
    "(if len + 1 \<ge> maxrow_capacity t then do {
          d \<leftarrow> copy_loop (replicate (nat (len * 2)) None) 0 (data t) 0 0 len;
          Some (d, len * 2) }
        else Some (data t, maxrow_capacity t)) = Some (nd, cap)"
    "cap \<le> int (length nd)" "length (lines t) < length nd"
    "take (length (lines t)) nd = map Some (lines t)"
proof (cases "len + 1 \<ge> maxrow_capacity t")
  case True
  note f = wf_text_fields(1,2)[OF assms(1)]
  have "copy_loop (replicate (nat (len * 2)) None) 0 (data t) 0 0 len =
      Some (map Some (lines t) @ replicate (nat len) None)"
    using f wf_take[OF assms(1)] by (subst copy_loop_upto) (auto simp: assms(2) nat_mult_distrib)
  then show thesis
    using True f assms
    by (intro that[of "map Some (lines t) @ replicate (nat len) None" "len * 2"]) auto
next
  case False
  then show thesis
    using wf_text_fields(1,2,3)[OF assms(1)] wf_take[OF assms(1)] assms
    by (intro that[of "data t" "maxrow_capacity t"]) auto
qed

lemma new_line_to_editor_wf:
  assumes "wf_text t" "cursor_ok t"
  defines "L \<equiv> lines t" and "r \<equiv> nat (cursor_row t)" and "c \<equiv> nat (cursor_col t)"
  obtains t' where "new_line_to_editor t = Some t'" "wf_text t'" "cursor_ok t'"
    "lines t' = take r L @ [take c (L ! r), drop c (L ! r)] @ drop (Suc r) L"
    "cursor_row t' = cursor_row t + 1" "cursor_col t' = 0"
proof -
  note c = cursor_inD[OF assms(1) cursor_ok_in[OF assms(2)]]
  obtain nd cap where nd: "(if maxrow t + 1 \<ge> maxrow_capacity t then do {
          d \<leftarrow> copy_loop (replicate (nat (maxrow t * 2)) None) 0 (data t) 0 0 (maxrow t);
          Some (d, maxrow t * 2) }
        else Some (data t, maxrow_capacity t)) = Some (nd, cap)"
    "cap \<le> int (length nd)" "length L < length nd" "take (length L) nd = map Some L"
    using new_line_capacity[OF assms(1) refl] unfolding L_def by blast
  have len: "int (length L) = maxrow t" using wf_text_fields(1)[OF assms(1)] assms(1) by (simp add: L_def)
  have r: "r < length L" "int r = cursor_row t" using c by (simp_all add: L_def r_def)
  obtain p rest where gap: "shift_right nd (maxrow t) (cursor_row t + 1) =
      Some (map Some (take r L) @ Some (L ! r) # p # map Some (drop (Suc r) L) @ rest)"
      and rest: "length rest = length nd - Suc (length L)"
    using open_gap[OF nd(4,3) r(1)] r(2) len by metis
  have cl: "c \<le> length (L ! r)" "cursor_col t = int c" "0 \<notin> set (L ! r)"
    using c by (simp_all add: L_def r_def c_def)
  let ?L = "take r L @ [take c (L ! r), drop c (L ! r)] @ drop (Suc r) L"
  let ?d = "map Some ?L @ rest"
  let ?t = "t\<lparr>data := ?d, maxrow := maxrow t + 1, maxrow_capacity := cap\<rparr>"
  have buf: "cstr ((L ! r @ [0])[c := 0]) = take c (L ! r)"
  proof -
    have "(L ! r @ [0])[c := 0] = take c (L ! r) @ 0 # drop (Suc c) (L ! r @ [0])"
      using cl(1) by (simp add: upd_conv_take_nth_drop)
    moreover have "0 \<notin> set (take c (L ! r))" using cl(3) by (auto dest: in_set_takeD)
    ultimately show ?thesis by simp
  qed
  let ?g = "\<lambda>a b. map Some (take r L) @ Some a # b # map Some (drop (Suc r) L) @ rest"
  have g: "deref (?g a b) (cursor_row t) = Some a" "wr (?g a b) (cursor_row t + 1) (Some b') = Some (?g a (Some b'))"
    "wr (?g a b) (cursor_row t) (Some a') = Some (?g a' b)" for a a' b b'
    using r by (simp_all add: deref_def rd_def wr_def nth_append list_update_append nat_add_distrib flip: r(2))
  have sub: "substr (L ! r) (cursor_col t) (strlen (L ! r) - cursor_col t) = Some (drop c (L ! r))"
    "wr (L ! r @ [0]) (cursor_col t) 0 = Some ((L ! r @ [0])[c := 0])"
    using cl by (simp_all add: substr_closed strlen_def)
  have "new_line_to_editor t = move_to_pos ?t (cursor_row t + 1) 0"
    unfolding new_line_to_editor_def adjust_cursor_id[OF assms(1,2)]
    by (simp only: Let_def bind.bind_lunit nd(1) prod.case gap g sub buf) simp
  moreover have "wf_text ?t" "lines ?t = ?L"
  proof -
    have "0 \<notin> set x" if "x \<in> set ?L" for x
      using that lines_no0[OF assms(1)] cl(3)
      by (auto simp: L_def dest: in_set_takeD in_set_dropD)
    moreover have "cap \<le> int (length ?L + length rest)" "maxrow ?t = int (length ?L)"
      using rest nd len r by auto
    moreover have "?L \<noteq> []" "data ?t = map Some ?L @ rest" by simp_all
    ultimately show "wf_text ?t" "lines ?t = ?L"
      using wf_rowsI[of ?t ?L rest] by auto
  qed
  ultimately show thesis
    using c len r(1)
    by (intro that[of "?t\<lparr>cursor_row := cursor_row t + 1, cursor_col := 0\<rparr>"])
      (simp_all add: move_to_pos_wf snap_id cursor_ok_def cursor_in_def)
qed

text \<open>Joining the row under the cursor to the row above; the cursor goes to the end of the joined row.\<close>

lemma join_rows:
  assumes "d = map Some (take r L) @ Some a # Some b # map Some (drop (Suc (Suc r)) L) @ rest"
    "Suc r < length L"
  obtains p where "shift_left d (int r + 1) (int (length L) - 1) =
      Some (map Some (take r L) @ Some a # map Some (drop (Suc (Suc r)) L) @ p # rest)"
proof -
  have len: "length L \<le> length d" "Suc (length L) - 2 = length L - 1" using assms by auto
  have "shift_left d (int (Suc r)) (int (length L - 1)) =
      Some (take (Suc r) d @ take (length L - 1 - Suc r) (drop (Suc (Suc r)) d) @ drop (length L - 1) d)"
    using assms(2) len by (intro shift_left_nat) auto
  moreover have "take (Suc r) d = map Some (take r L) @ [Some a]"
    using assms by simp
  moreover have "take (length L - 1 - Suc r) (drop (Suc (Suc r)) d) = map Some (drop (Suc (Suc r)) L)"
    using assms by simp
  moreover have "drop (length L - 1) d = d ! (length L - 1) # rest"
  proof -
    obtain k where "length L = Suc (Suc (r + k))" using assms(2) less_iff_Suc_add by auto
    then have "drop (length L) d = rest" using assms(1) by simp
    then show ?thesis using assms(2) len(1) by (metis Cons_nth_drop_Suc Suc_diff_1 Suc_lessD
          diff_less less_le_trans less_one zero_less_iff_neq_zero less_zeroE)
  qed
  ultimately show thesis
    using assms(2) by (intro that[of "d ! (length L - 1)"]) (simp add: add.commute of_nat_diff)
qed

lemma move_cur_line_to_prev_line_wf:
  assumes "wf_text t" "cursor_in t" "0 < cursor_row t"
  defines "L \<equiv> lines t" and "r \<equiv> nat (cursor_row t) - 1"
  obtains t' where "move_cur_line_to_prev_line t = Some t'" "wf_text t'" "cursor_ok t'"
    "lines t' = take r L @ [L ! r @ L ! Suc r] @ drop (Suc (Suc r)) L"
    "cursor_row t' = cursor_row t - 1" "cursor_col t' = snap (L ! r @ L ! Suc r) 0x7fffffff 1"
proof -
  note c = cursor_inD[OF assms(1,2)]
  have len: "int (length L) = maxrow t" using wf_text_fields(1)[OF assms(1)] assms(1) by (simp add: L_def)
  have r: "Suc r < length L" "cursor_row t = int r + 1" using c assms(3) len by (auto simp: L_def r_def)
  let ?J = "L ! r @ L ! Suc r"
  let ?L = "take r L @ [?J] @ drop (Suc (Suc r)) L"
  define rest where "rest = drop (length L) (data t)"
  have lt: "line_at t (cursor_row t) = Some (L ! Suc r)" "line_at t (cursor_row t - 1) = Some (L ! r)"
    using line_at_wf[OF assms(1)] r len by (simp_all add: L_def nat_add_distrib)
  have no0: "0 \<notin> set (L ! r)" "0 \<notin> set (L ! Suc r)"
    using lines_nth_no0[OF assms(1)] r len by (auto simp: L_def)
  have dat: "data t = map Some L @ rest"
    using wf_take[OF assms(1)] assms(1) by (metis L_def append_take_drop_id length_lines rest_def)
  have spl: "(data t)[r := Some ?J] =
      map Some (take r L) @ Some ?J # Some (L ! Suc r) # map Some (drop (Suc (Suc r)) L) @ rest"
    using r by (simp add: dat list_update_append upd_conv_take_nth_drop drop_map take_map
        Cons_nth_drop_Suc[of "Suc r" L, symmetric] flip: map_update)
  obtain p where p: "shift_left ((data t)[r := Some ?J]) (int r + 1) (int (length L) - 1) =
      Some (map Some (take r L) @ Some ?J # map Some (drop (Suc (Suc r)) L) @ p # rest)"
    using join_rows[OF spl r(1)] by blast
  let ?t = "t\<lparr>data := map Some ?L @ p # rest, maxrow := maxrow t - 1\<rparr>"
  have "move_cur_line_to_prev_line t = move_to_pos ?t (cursor_row t - 1) (-1)"
    using r assms(1,3) len lt p
    by (simp add: move_cur_line_to_prev_line_def strcat_closed no0 set_line_wf)
  moreover have wf: "wf_text ?t" "lines ?t = ?L"
  proof -
    have "0 \<notin> set x" if "x \<in> set ?L" for x
      using that lines_no0[OF assms(1)] no0 by (auto simp: L_def dest: in_set_takeD in_set_dropD)
    moreover have "maxrow_capacity ?t \<le> int (length ?L + length (p # rest))" "maxrow ?t = int (length ?L)"
      using wf_text_fields(3)[OF assms(1)] len r dat by auto
    moreover have "?L \<noteq> []" "data ?t = map Some ?L @ p # rest" by simp_all
    ultimately show "wf_text ?t" "lines ?t = ?L"
      using wf_rowsI[of ?t ?L "p # rest"] by auto
  qed
  moreover have J: "?L ! r = ?J" "nat (cursor_row t - 1) = r" "0 \<le> cursor_row t - 1"
    "cursor_row t - 1 < maxrow t - 1"
    using r len by (simp_all add: nth_append)
  ultimately have "move_cur_line_to_prev_line t =
      Some (?t\<lparr>cursor_row := cursor_row t - 1, cursor_col := snap ?J 0x7fffffff 1\<rparr>)" (is "_ = Some ?u")
    using move_to_pos_end[OF wf(1), of "cursor_row t - 1"] by simp
  moreover have "cursor_ok ?u"
    using snap_ok[of 1 ?J] wf(2) J by (simp add: cursor_ok_def cursor_in_def)
  ultimately show thesis
    using wf by (intro that[of ?u]) simp_all
qed

end
