(* ===== verification/Text_Edit.thy ===== *)
theory Text_Edit
  imports Text_Spec
begin

text \<open>
  Sequences of editing commands on a text: each command is one call the widgets make, the
  invariant is that the rows are proper strings and that the cursor stands on a character
  boundary of a row that exists, and no command makes an access outside of an array.
\<close>

definition frame_ok :: "textframe \<Rightarrow> bool" where
  "frame_ok t \<longleftrightarrow> wf_text t \<and> cursor_ok t"

lemma frame_okD [dest]: "frame_ok t \<Longrightarrow> wf_text t" "frame_ok t \<Longrightarrow> cursor_ok t"
  by (simp_all add: frame_ok_def)

section \<open>Each command keeps the invariant\<close>

text \<open>Moves change the cursor only.\<close>

definition moves_only :: "textframe \<Rightarrow> textframe option \<Rightarrow> bool" where
  "moves_only t res = (case res of None \<Rightarrow> False | Some t' \<Rightarrow> frame_ok t' \<and> lines t' = lines t \<and> data t' = data t)"

lemma moves_onlyE:
  assumes "moves_only t res"
  obtains t' where "res = Some t'" "frame_ok t'" "lines t' = lines t" "data t' = data t"
  using assms by (auto simp: moves_only_def split: option.splits)

lemma adjust_moves_only:
  assumes "wf_text t" "wf_text u" "lines u = lines t" "data u = data t" "0 \<le> cursor_row u" "d = 1 \<or> d = -1"
  shows "moves_only t (adjust_cursor u 0 d)"
proof -
  obtain t' where "adjust_cursor u 0 d = Some t'" "wf_text t'" "cursor_ok t'" "lines t' = lines u" "data t' = data u"
    using adjust_cursor_result[OF assms(2,5,6)] by blast
  with assms(3,4) show ?thesis by (simp add: moves_only_def frame_ok_def)
qed

lemma move_to_next_char_ok:
  assumes t: "wf_text t" "cursor_in t"
  shows "moves_only t (move_to_next_char t)"
proof -
  note c = cursor_inD(1,2)[OF t]
  show ?thesis
    unfolding move_to_next_char_def Let_def
    using t c by (auto simp: line_at_wf simp del: length_lines intro!: adjust_moves_only)
qed

lemma move_to_previous_char_ok:
  assumes t: "wf_text t" "cursor_in t"
  shows "moves_only t (move_to_previous_char t)"
proof -
  note c = cursor_inD(1,2)[OF t]
  show ?thesis
    unfolding move_to_previous_char_def Let_def
    using t c by (auto simp: line_at_wf simp del: length_lines intro!: adjust_moves_only)
qed

lemma move_to_next_line_ok:
  assumes t: "wf_text t" "cursor_in t"
  shows "moves_only t (move_to_next_line t)"
proof -
  note c = cursor_inD(1,2)[OF t]
  show ?thesis
    unfolding move_to_next_line_def Let_def
    using t c by (auto simp: line_at_wf simp del: length_lines intro!: adjust_moves_only)
qed

lemma move_to_last_line_ok:
  assumes t: "wf_text t" "cursor_in t"
  shows "moves_only t (move_to_last_line t)"
proof -
  note c = cursor_inD(1,2)[OF t]
  show ?thesis
    unfolding move_to_last_line_def Let_def
    using t c by (auto simp: line_at_wf simp del: length_lines intro!: adjust_moves_only)
qed

lemma move_to_pos_ok:
  assumes "wf_text t" "-1 \<le> r"
  shows "moves_only t (move_to_pos t r c)"
proof -
  define r' where "r' = (let r = (if r = -1 then 0x7fffffff else r) in if r \<ge> maxrow t then maxrow t - 1 else r)"
  have r': "0 \<le> r'" "r' < maxrow t"
    using assms wf_text_fields(1)[OF assms(1)] by (auto simp: r'_def Let_def)
  obtain c' where "move_to_pos t r c = adjust_cursor (t\<lparr>cursor_row := r', cursor_col := c'\<rparr>) 0 1"
    using r' assms(1) unfolding move_to_pos_def Let_def r'_def[unfolded Let_def, symmetric]
    by (simp add: line_at_wf)
  with assms(1) r' show ?thesis by (auto intro!: adjust_moves_only)
qed

section \<open>Lines of whole characters\<close>

text \<open>Every Chinese byte of the line belongs to a pair.\<close>

fun gbk :: "cstring \<Rightarrow> bool" where
  "gbk [] = True"
| "gbk [b] = (b < 160)"
| "gbk (b # b' # s) = (if b < 160 then gbk (b' # s) else b' \<ge> 160 \<and> gbk s)"

lemma gbk_Cons: "b < 160 \<Longrightarrow> gbk (b # s) = gbk s"
  by (cases s) auto

lemma gbk_append: "gbk s \<Longrightarrow> gbk (s @ t) = gbk t"
  by (induction s rule: gbk.induct) (auto simp: gbk_Cons not_less)

lemma gbk_boundary: "gbk s \<Longrightarrow> c \<le> length s \<Longrightarrow> boundary s c \<longleftrightarrow> gbk (take c s)"
  by (induction s c rule: boundary.induct) (auto simp: not_le take_Cons' split: nat.splits if_splits)

lemma gbk_boundary_append: "gbk s \<Longrightarrow> boundary (s @ t) (length s)"
proof (induction s rule: gbk.induct)
  case (2 b)
  then show ?case by (simp add: boundary_1)
next
  case (3 b b' s)
  then show ?case by (cases "b < 160") (auto dest: leD)
qed simp

section \<open>Operations that are safe in every state\<close>

text \<open>A text whose cursor is inside, and the operations that keep this and never fault.\<close>

definition text_ok :: "textframe \<Rightarrow> bool" where
  "text_ok t \<longleftrightarrow> wf_text t \<and> cursor_in t"

definition keeps_text :: "(textframe \<Rightarrow> textframe option) \<Rightarrow> bool" where
  "keeps_text f \<longleftrightarrow> (\<forall>t. text_ok t \<longrightarrow> (\<exists>t'. f t = Some t' \<and> text_ok t'))"

lemma keeps_textE:
  assumes "keeps_text f" "text_ok t"
  obtains t' where "f t = Some t'" "text_ok t'"
  using assms by (auto simp: keeps_text_def)

lemma moves_only_text_ok: "moves_only t res \<Longrightarrow> \<exists>t'. res = Some t' \<and> text_ok t'"
  by (auto simp: moves_only_def text_ok_def frame_ok_def split: option.splits)

lemma keeps_text_moves:
  "keeps_text move_to_next_char" "keeps_text move_to_previous_char"
  "keeps_text move_to_next_line" "keeps_text move_to_last_line"
  "-1 \<le> r \<Longrightarrow> keeps_text (\<lambda>t. move_to_pos t r c)"
  unfolding keeps_text_def
  by (auto simp: text_ok_def[of _] intro!: moves_only_text_ok[unfolded text_ok_def] move_to_next_char_ok
      move_to_previous_char_ok move_to_next_line_ok move_to_last_line_ok move_to_pos_ok)

lemma text_ok_update_row:
  assumes "text_ok t" "0 \<notin> set l" "cursor_col t \<le> strlen l"
  shows "text_ok (t\<lparr>data := (data t)[nat (cursor_row t) := Some l]\<rparr>)"
proof -
  have t: "wf_text t" "cursor_in t" using assms(1) by (auto simp: text_ok_def)
  note c = cursor_inD[OF t]
  show ?thesis
    using wf_update_row[OF t(1), of "nat (cursor_row t)" l] c assms(2,3) t
    by (simp add: text_ok_def cursor_in_def)
qed

lemma keeps_text_putc: "ch \<noteq> 0 \<Longrightarrow> keeps_text (\<lambda>t. putc_to_str t ch)"
  unfolding keeps_text_def
proof (intro allI impI)
  fix t assume ch: "ch \<noteq> 0" and t: "text_ok t"
  then have w: "wf_text t" "cursor_in t" by (auto simp: text_ok_def)
  note c = cursor_inD[OF w]
  have "0 \<notin> set (take k (cur_line t) @ ch # drop k (cur_line t))" for k
    using c ch by (auto dest: in_set_takeD in_set_dropD)
  moreover have "cursor_col t \<le> strlen (take (nat (cursor_col t)) (cur_line t) @ ch # drop (nat (cursor_col t)) (cur_line t))"
    using c by (simp add: strlen_def)
  ultimately show "\<exists>t'. putc_to_str t ch = Some t' \<and> text_ok t'"
    using putc_to_str_wf[OF w ch] text_ok_update_row[OF t] by blast
qed

text \<open>Two operations put the cursor on a character boundary before they work.\<close>

lemma adjusts_first:
  assumes "text_ok t"
  obtains u where "adjust_cursor t 0 1 = Some u" "wf_text u" "cursor_ok u" "adjust_cursor u 0 1 = Some u"
    "maxrow u = maxrow t"
  using adjust_cursor_result[of t 1] adjust_cursor_id assms
  by (metis text_ok_def cursor_in_def)

lemma keeps_text_backspace: "keeps_text backspace_to_str"
  unfolding keeps_text_def
proof (intro allI impI)
  fix t assume "text_ok t"
  then obtain u where u: "adjust_cursor t 0 1 = Some u" "wf_text u" "cursor_ok u" "adjust_cursor u 0 1 = Some u"
    by (rule adjusts_first)
  then have eq: "backspace_to_str t = backspace_to_str u" by (simp add: backspace_to_str_def)
  have uok: "text_ok u" using u by (simp add: text_ok_def)
  note c = cursor_inD[OF u(2) cursor_ok_in[OF u(3)]]
  have "0 \<notin> set (take k (cur_line u) @ drop m (cur_line u))" for k m
    using c by (auto dest: in_set_takeD in_set_dropD)
  moreover have "cursor_col u \<le> strlen (take (nat (cursor_col u)) (cur_line u) @ drop m (cur_line u))" for m
    using c by (simp add: strlen_def)
  ultimately show "\<exists>t'. backspace_to_str t = Some t' \<and> text_ok t'"
    using backspace_to_str_wf[OF u(2,3)] text_ok_update_row[OF uok] unfolding eq by blast
qed

lemma keeps_text_newline: "keeps_text new_line_to_editor"
  unfolding keeps_text_def
proof (intro allI impI)
  fix t assume "text_ok t"
  then obtain u where u: "adjust_cursor t 0 1 = Some u" "wf_text u" "cursor_ok u" "adjust_cursor u 0 1 = Some u"
    "maxrow u = maxrow t" by (rule adjusts_first)
  then have "new_line_to_editor t = new_line_to_editor u" by (simp add: new_line_to_editor_def)
  then show "\<exists>t'. new_line_to_editor t = Some t' \<and> text_ok t'"
    using new_line_to_editor_wf[OF u(2,3)] by (auto simp: text_ok_def intro: cursor_ok_in)
qed

lemma keeps_text_join: "keeps_text move_cur_line_to_prev_line"
  unfolding keeps_text_def
proof (intro allI impI)
  fix t assume t: "text_ok t"
  show "\<exists>t'. move_cur_line_to_prev_line t = Some t' \<and> text_ok t'"
  proof (cases "0 < cursor_row t")
    case True
    with t show ?thesis using move_cur_line_to_prev_line_wf[of t] by (auto simp: text_ok_def intro: cursor_ok_in)
  next
    case False
    with t show ?thesis by (simp add: move_cur_line_to_prev_line_def)
  qed
qed

lemmas keeps_text_ops = keeps_text_moves keeps_text_putc keeps_text_backspace keeps_text_newline keeps_text_join

end
