(* ===== verification/Text_Range.thy ===== *)
theory Text_Range
  imports Text_Edit
begin

text \<open>
  Ranges of text: what \<open>textframe_delete\<close>, \<open>textframe_extract\<close> and \<open>textframe_insert\<close>
  compute on the abstract rows.
\<close>

section \<open>Filling an array of rows\<close>

text \<open>The result array of the three operations: the rows written so far, then null pointers.\<close>

definition filled :: "nat \<Rightarrow> cstring list \<Rightarrow> cstring option list" where
  "filled n A = map Some A @ replicate (n - length A) None"

lemma filled_wr [simp]:
  "length A < n \<Longrightarrow> wr (filled n A) (int (length A)) (Some l) = Some (filled n (A @ [l]))"
  by (cases "n - length A") (auto simp: filled_def wr_def list_update_append Suc_diff_Suc)

lemma filled_upd [simp]:
  "length A < n \<Longrightarrow> (filled n A)[length A := Some l] = filled n (A @ [l])"
  by (cases "n - length A") (auto simp: filled_def list_update_append Suc_diff_Suc)

lemma filled_Nil: "replicate n None = filled n []"
  by (simp add: filled_def)

lemma filled_full: "length A = n \<Longrightarrow> filled n A = map Some A"
  by (simp add: filled_def)

lemma length_filled [simp]: "length A \<le> n \<Longrightarrow> length (filled n A) = n"
  by (simp add: filled_def)

lemma substr_whole: "0 \<notin> set l \<Longrightarrow> substr l 0 (strlen l) = Some l"
  by (simp add: substr_closed strlen_def)

section \<open>Deleting a range\<close>

lemma delete_loop_keep:
  assumes "wf_text t" "i \<le> j" "j \<le> length (lines t)" "length A \<le> i"
    "\<And>k. i \<le> k \<Longrightarrow> k < j \<Longrightarrow> int k < sr \<or> int k > er"
  shows "delete_loop t sr sc er ec (int i) (int (length A)) (filled (length (lines t)) A) =
    delete_loop t sr sc er ec (int j) (int (length A + (j - i)))
      (filled (length (lines t)) (A @ take (j - i) (drop i (lines t))))"
  using assms(2-5)
proof (induction "j - i" arbitrary: i A)
  case 0
  then show ?case by simp
next
  case (Suc k)
  then have lt: "i < j" "i < length (lines t)" by auto
  have row: "line_at t (int i) = Some (lines t ! i)" "0 \<notin> set (lines t ! i)" "int i < maxrow t"
    using lt assms(1) line_at_wf[OF assms(1), of "int i"] lines_nth_no0[OF assms(1), of i] by auto
  have keep: "\<not> (int i > sr \<and> int i < er)" "int i < sr \<or> int i > er"
    using Suc.prems(4)[of i] lt by auto
  have "delete_loop t sr sc er ec (int i) (int (length A)) (filled (length (lines t)) A) =
     delete_loop t sr sc er ec (int (Suc i)) (int (length (A @ [lines t ! i])))
        (filled (length (lines t)) (A @ [lines t ! i]))"
    using lt row keep Suc.prems(3)
    by (subst delete_loop.simps) (auto simp: Let_def substr_whole add.commute simp del: length_lines)
  also have "\<dots> = delete_loop t sr sc er ec (int j) (int (length (A @ [lines t ! i]) + (j - Suc i)))
      (filled (length (lines t)) ((A @ [lines t ! i]) @ take (j - Suc i) (drop (Suc i) (lines t))))"
    using Suc.hyps(1)[of "Suc i" "A @ [lines t ! i]"] Suc.hyps(2) Suc.prems lt by auto
  also have "(A @ [lines t ! i]) @ take (j - Suc i) (drop (Suc i) (lines t)) = A @ take (j - i) (drop i (lines t))"
    using lt by (simp add: Cons_nth_drop_Suc[symmetric] take_Cons' del: length_lines)
  finally show ?case using lt by (simp add: algebra_simps del: length_lines)
qed

text \<open>
  The tail of the last row is cut to the length the first row leaves after \<open>end_col\<close>: the
  source passes the length of the row the loop stands at, which is the first one.
\<close>

definition deleted_rows :: "cstring list \<Rightarrow> nat \<Rightarrow> nat \<Rightarrow> nat \<Rightarrow> int \<Rightarrow> cstring list" where
  "deleted_rows L sr sc er ec = take sr L @
     [take sc (L ! sr) @ take (nat (strlen (L ! sr) - ec - 1)) (drop (nat (ec + 1)) (L ! er))] @
     drop (Suc er) L"

lemma delete_loop_rows:
  assumes "wf_text t" "sr \<le> er" "er < length (lines t)" "0 \<le> sc" "-1 \<le> ec"
  defines "L' \<equiv> deleted_rows (lines t) sr (nat sc) er ec"
  shows "delete_loop t (int sr) sc (int er) ec 0 0 (filled (length (lines t)) []) =
    Some (filled (length (lines t)) L', int (length L'))"
proof -
  let ?L = "lines t" and ?D = "delete_loop t (int sr) sc (int er) ec"
  let ?N = "length (lines t)"
  let ?m = "take (nat sc) (?L ! sr) @ take (nat (strlen (?L ! sr) - ec - 1)) (drop (nat (ec + 1)) (?L ! er))"
  have no0: "0 \<notin> set (?L ! sr)" "0 \<notin> set (?L ! er)"
    using assms(1-3) lines_nth_no0[OF assms(1)] by auto
  then have no0': "0 \<notin> set (take a (?L ! sr))" "0 \<notin> set (take a (drop b (?L ! er)))" for a b
    by (auto dest: in_set_takeD in_set_dropD)
  have rows: "line_at t (int sr) = Some (?L ! sr)" "line_at t (int er) = Some (?L ! er)" "int sr < maxrow t"
    using assms(1-3) line_at_wf[OF assms(1), of "int sr"] line_at_wf[OF assms(1), of "int er"] by auto
  have "?D 0 0 (filled ?N []) = ?D (int sr) (int sr) (filled ?N (take sr ?L))"
    using delete_loop_keep[OF assms(1), of 0 sr "[]" "int sr" "int er" sc ec] assms(2,3) by simp
  also have "\<dots> = ?D (int (Suc er)) (int (length (take sr ?L @ [?m]))) (filled ?N (take sr ?L @ [?m]))"
    using assms(2,3) rows no0 no0' filled_wr[of "take sr ?L" ?N ?m] assms(4,5)
    by (subst delete_loop.simps)
      (simp add: Let_def substr_closed strcat_closed min_def add.commute del: length_lines filled_wr)
  also have "\<dots> = ?D (int ?N) (int (length L')) (filled ?N L')"
    using delete_loop_keep[OF assms(1), of "Suc er" ?N "take sr ?L @ [?m]" "int sr" "int er" sc ec] assms(2,3)
    by (simp add: L'_def deleted_rows_def min_def algebra_simps of_nat_diff del: length_lines)
  also have "\<dots> = Some (filled ?N L', int (length L'))"
    using assms(1) by (subst delete_loop.simps) simp
  finally show ?thesis .
qed

text \<open>When the last row comes before the first one nothing is deleted.\<close>

lemma delete_loop_none:
  assumes "wf_text t" "er < sr"
  shows "delete_loop t sr sc er ec 0 0 (filled (length (lines t)) []) =
    Some (filled (length (lines t)) (lines t), int (length (lines t)))"
proof -
  have "delete_loop t sr sc er ec 0 0 (filled (length (lines t)) []) =
     delete_loop t sr sc er ec (maxrow t) (maxrow t) (filled (length (lines t)) (lines t))"
  proof -
    have "int k < sr \<or> int k > er" for k using assms(2) by arith
    then show ?thesis
      using delete_loop_keep[OF assms(1), of 0 "length (lines t)" "[]" sr er sc ec] assms
        wf_text_fields(1)[OF assms(1)] by simp
  qed
  also have "\<dots> = Some (filled (length (lines t)) (lines t), int (length (lines t)))"
    using assms wf_text_fields(1)[OF assms(1)] by (subst delete_loop.simps) simp
  finally show ?thesis .
qed

definition fresh_frame :: "nat \<Rightarrow> cstring list \<Rightarrow> textframe" where
  "fresh_frame n L = \<lparr>data = filled n L, row = 0, col = 0, cursor_row = 0, cursor_col = 0,
     maxrow = int (length L), maxrow_capacity = int (length L)\<rparr>"

lemma fresh_frame_ok:
  assumes "L \<noteq> []" "\<And>l. l \<in> set L \<Longrightarrow> 0 \<notin> set l"
  shows "wf_text (fresh_frame n L)" "lines (fresh_frame n L) = L" "cursor_ok (fresh_frame n L)"
proof -
  show 1: "wf_text (fresh_frame n L)" "lines (fresh_frame n L) = L"
    using wf_rowsI[of "fresh_frame n L" L "replicate (n - length L) None"] assms
    by (auto simp: fresh_frame_def filled_def)
  then show "cursor_ok (fresh_frame n L)"
    using assms by (simp add: cursor_ok_def cursor_in_def) (simp add: fresh_frame_def)
qed

lemma deleted_rows_no0:
  "\<lbrakk>\<And>l. l \<in> set L \<Longrightarrow> 0 \<notin> set l; sr < length L; er < length L; x \<in> set (deleted_rows L sr sc er ec)\<rbrakk>
   \<Longrightarrow> 0 \<notin> set x"
  by (auto simp: deleted_rows_def dest!: in_set_takeD in_set_dropD)

lemma adjust_neg_row:
  "wf_text t \<Longrightarrow> r < 0 \<Longrightarrow> textframe_adjust_r_c t r c pos d = Some (maxrow t + 1, c)"
  using wf_text_fields(1)[of t] by (simp add: textframe_adjust_r_c_def)

lemma snap_end_range: "0 \<le> snap_end s c"
  by (simp add: snap_end_def Let_def)

text \<open>The rows that \<open>textframe_delete\<close> leaves, for positions in any row of the text or below it.\<close>

lemma textframe_delete_closed:
  assumes "wf_text t" "0 \<le> sr" "0 \<le> er" "min sr (maxrow t - 1) \<le> min er (maxrow t - 1)"
  defines "r1 \<equiv> nat (min sr (maxrow t - 1))" and "r2 \<equiv> nat (min er (maxrow t - 1))"
  shows "textframe_delete t sr sc er ec =
    Some (fresh_frame (length (lines t))
      (deleted_rows (lines t) r1 (nat (snap (lines t ! r1) sc (-1))) r2 (snap_end (lines t ! r2) ec)))"
proof -
  note f = wf_text_fields(1)[OF assms(1)]
  have r: "r1 \<le> r2" "r2 < length (lines t)" "int r1 = min sr (maxrow t - 1)" "int r2 = min er (maxrow t - 1)"
    using assms f by (auto simp: r1_def r2_def)
  have lt: "int r2 < maxrow t" "int r1 < maxrow t" using r f assms(1) by auto
  have a: "textframe_adjust_r_c t sr sc 0 (-1) = Some (int r1, snap (lines t ! r1) sc (-1))"
    using adjust_pos(1)[OF assms(1,2) r(3)] by simp
  have b: "textframe_adjust_r_c t er ec 1 1 = Some (int r2, snap_end (lines t ! r2) ec)"
    using adjust_pos(2)[OF assms(1,3) r(4)] by simp
  have s: "0 \<le> snap (lines t ! r1) sc (-1)" "0 \<le> snap_end (lines t ! r2) ec"
    by (simp_all add: snap_ok snap_end_range)
  have N: "nat (maxrow t) = length (lines t)" using assms(1) by simp
  show ?thesis
    using s lt delete_loop_rows[OF assms(1) r(1,2) s(1), of "snap_end (lines t ! r2) ec"]
    by (simp add: textframe_delete_def a b Let_def N filled_Nil fresh_frame_def del: length_lines)
qed

text \<open>Whatever the positions, the result is a proper text: no access out of bounds is made.\<close>

lemma textframe_delete_safe:
  assumes "wf_text t"
  obtains t' where "textframe_delete t sr sc er ec = Some t'" "wf_text t'" "cursor_ok t'"
proof -
  note f = wf_text_fields(1)[OF assms]
  have N: "nat (maxrow t) = length (lines t)" using assms by simp
  obtain r1 c1 where a: "textframe_adjust_r_c t sr sc 0 (-1) = Some (r1, c1)"
    and r1: "0 \<le> r1" "r1 < maxrow t \<or> r1 = maxrow t + 1"
    using adjust_neg_row[OF assms, of sr sc 0 "-1"] adjust_pos(1,3,4)[OF assms _ refl, of sr] f
    by (cases "sr < 0") (auto simp: not_less)
  obtain r2 c2 where b: "textframe_adjust_r_c t er ec 1 1 = Some (r2, c2)"
    and r2: "0 \<le> r2" "r2 < maxrow t \<and> 0 \<le> c2 \<or> r2 = maxrow t + 1"
    using adjust_neg_row[OF assms, of er ec 1 1] adjust_pos(2,3,4)[OF assms _ refl, of er] f
    by (cases "er < 0") (auto simp: not_less snap_end_range)
  define e where "e = (if r2 \<ge> maxrow t then maxrow t - 1 else r2)"
  define k where "k = (if r2 \<ge> maxrow t then -1 else c2)"
  define c where "c = (if c1 < 0 then 0 else c1)"
  have e: "0 \<le> e" "e < maxrow t" "-1 \<le> k" "0 \<le> c" using r2 f by (auto simp: e_def k_def c_def)
  obtain L where L: "delete_loop t r1 c e k 0 0 (filled (length (lines t)) []) =
      Some (filled (length (lines t)) L, int (length L))" "L \<noteq> []" "\<And>l. l \<in> set L \<Longrightarrow> 0 \<notin> set l"
  proof (cases "r1 \<le> e")
    case True
    then have n: "nat r1 \<le> nat e" "nat e < length (lines t)" "nat r1 < length (lines t)" using e r1 assms by auto
    have "delete_loop t r1 c e k 0 0 (filled (length (lines t)) []) = Some (filled (length (lines t))
       (deleted_rows (lines t) (nat r1) (nat c) (nat e) k), int (length (deleted_rows (lines t) (nat r1) (nat c) (nat e) k)))"
      using delete_loop_rows[OF assms n(1,2) e(4,3)] r1 e by simp
    moreover have "deleted_rows (lines t) (nat r1) (nat c) (nat e) k \<noteq> []" by (simp add: deleted_rows_def)
    ultimately show thesis using that deleted_rows_no0[OF lines_no0[OF assms] n(3,2)] by blast
  next
    case False
    then show thesis
      using that[OF delete_loop_none[OF assms, of e r1 c k] wf_text_fields(4)[OF assms] lines_no0[OF assms]] by simp
  qed
  have "textframe_delete t sr sc er ec = Some (fresh_frame (length (lines t)) L)"
    using L(1) r1(1) unfolding textframe_delete_def a b N filled_Nil c_def e_def k_def
    by (simp add: Let_def fresh_frame_def del: length_lines split: if_splits)
  then show thesis using that fresh_frame_ok[OF L(2,3)] by blast
qed

section \<open>The text as one sequence of bytes\<close>

text \<open>
  Rows joined by newlines, and the parts before and from a position. The range operations are
  specified on this sequence.
\<close>

fun flat :: "cstring list \<Rightarrow> cstring" where
  "flat [] = []"
| "flat [l] = l"
| "flat (l # l' # ls) = l @ 10 # flat (l' # ls)"

definition before :: "cstring list \<Rightarrow> nat \<Rightarrow> nat \<Rightarrow> cstring" where
  "before L r c = flat (take r L @ [take c (L ! r)])"

definition after :: "cstring list \<Rightarrow> nat \<Rightarrow> nat \<Rightarrow> cstring" where
  "after L r c = flat (drop c (L ! r) # drop (Suc r) L)"

lemma flat_Cons: "L \<noteq> [] \<Longrightarrow> flat (l # L) = l @ 10 # flat L"
  by (cases L) auto

lemma flat_prefix: "flat ((x @ y) # B) = x @ flat (y # B)"
  by (cases B) auto

lemma flat_split: "flat (A @ (x @ y) # B) = flat (A @ [x]) @ flat (y # B)"
  by (induction A) (auto simp: flat_prefix flat_Cons)

lemma flat_before_after:
  assumes "r < length L"
  shows "flat L = before L r c @ after L r c"
proof -
  have "L = take r L @ (take c (L ! r) @ drop c (L ! r)) # drop (Suc r) L"
    using assms by (simp add: id_take_nth_drop[symmetric])
  then show ?thesis unfolding before_def after_def by (metis flat_split)
qed

text \<open>Rows without newlines can be read back from the sequence.\<close>

lemma flat_inj:
  "flat L = flat M \<Longrightarrow> L \<noteq> [] \<Longrightarrow> M \<noteq> [] \<Longrightarrow> \<forall>l\<in>set L. 10 \<notin> set l \<Longrightarrow> \<forall>l\<in>set M. 10 \<notin> set l \<Longrightarrow> L = M"
proof (induction L arbitrary: M rule: flat.induct)
  case (2 l)
  then show ?case by (cases M rule: flat.cases) auto
next
  case (3 l l' ls)
  show ?case
  proof (cases M rule: flat.cases)
    case (3 m m' ms)
    with "3.prems" have "l @ 10 # flat (l' # ls) = m @ 10 # flat (m' # ms)" "10 \<notin> set l" "10 \<notin> set m" by auto
    then have "l = m" "flat (l' # ls) = flat (m' # ms)"
      using append_sep_eq by fast+
    with "3.IH"[of "m' # ms"] "3.prems" 3 show ?thesis by auto
  qed (use "3.prems" in auto)
qed simp

section \<open>Inserting a text\<close>

definition inserted_rows :: "cstring list \<Rightarrow> cstring list \<Rightarrow> nat \<Rightarrow> nat \<Rightarrow> cstring list" where
  "inserted_rows L M r c = take r L @
     (if length M = 1 then [take c (L ! r) @ hd M @ drop c (L ! r)]
      else (take c (L ! r) @ hd M) # butlast (tl M) @ [last M @ drop c (L ! r)]) @
     drop (Suc r) L"

lemma length_inserted_rows:
  "r < length L \<Longrightarrow> M \<noteq> [] \<Longrightarrow> length (inserted_rows L M r c) = length L + length M - 1"
  by (cases M) (auto simp: inserted_rows_def Suc_diff_Suc)

lemma flat_inserted_rows:
  assumes "r < length L" "M \<noteq> []"
  shows "flat (inserted_rows L M r c) = before L r c @ flat M @ after L r c"
proof (cases "length M = 1")
  case True
  then obtain m where "M = [m]" by (cases M) auto
  then show ?thesis by (simp add: inserted_rows_def before_def after_def flat_split flat_prefix)
next
  case False
  then have M: "M = hd M # butlast (tl M) @ [last M]"
    using assms(2) by (cases M) (auto simp: neq_Nil_conv)
  have "flat (inserted_rows L M r c) =
     before L r c @ flat (hd M # butlast (tl M) @ [last M @ drop c (L ! r)] @ drop (Suc r) L)"
    using False by (simp add: inserted_rows_def before_def flat_split)
  also have "\<dots> = before L r c @ flat (hd M # butlast (tl M) @ [last M]) @ after L r c"
    using flat_split[of "hd M # butlast (tl M)" "last M" "drop c (L ! r)" "drop (Suc r) L"] by (simp add: after_def)
  finally show ?thesis using M by simp
qed

lemma inserted_rows_nth:
  assumes "r < length L" "M \<noteq> []"
  shows "length M = 1 \<Longrightarrow> inserted_rows L M r c ! r = take c (L ! r) @ hd M @ drop c (L ! r)"
    and "length M > 1 \<Longrightarrow> inserted_rows L M r c ! r = take c (L ! r) @ hd M"
    and "r < i \<Longrightarrow> i < r + length M - 1 \<Longrightarrow> inserted_rows L M r c ! i = M ! (i - r)"
    and "length M > 1 \<Longrightarrow> inserted_rows L M r c ! (r + length M - 1) = last M @ drop c (L ! r)"
    and "r + length M - 1 < i \<Longrightarrow> i < length L + length M - 1 \<Longrightarrow>
         inserted_rows L M r c ! i = L ! (i - (length M - 1))"
proof -
  show "length M = 1 \<Longrightarrow> inserted_rows L M r c ! r = take c (L ! r) @ hd M @ drop c (L ! r)"
    "length M > 1 \<Longrightarrow> inserted_rows L M r c ! r = take c (L ! r) @ hd M"
    using assms by (simp_all add: inserted_rows_def nth_append)
  have big: "\<exists>a B z. M = a # B @ [z]" if "length M > 1"
    using that by (cases M) (auto simp: neq_Nil_conv, metis append_butlast_last_id list.distinct(1))
  show "inserted_rows L M r c ! i = M ! (i - r)" if i: "r < i" "i < r + length M - 1"
  proof -
    obtain a B z where "M = a # B @ [z]" using big i by force
    with i assms(1) show ?thesis
      by (auto simp: inserted_rows_def nth_append nth_Cons Suc_diff_Suc split: nat.splits)
  qed
  show "inserted_rows L M r c ! (r + length M - 1) = last M @ drop c (L ! r)" if "length M > 1"
    using big[OF that] assms(1) by (auto simp: inserted_rows_def nth_append)
  show "inserted_rows L M r c ! i = L ! (i - (length M - 1))"
    if i: "r + length M - 1 < i" "i < length L + length M - 1"
  proof -
    have "length (inserted_rows L M r c) = length L + length M - 1" using assms by (rule length_inserted_rows)
    then have "drop (r + length M) (inserted_rows L M r c) = drop (Suc r) L"
    proof (cases "length M = 1")
      case False
      then obtain a B z where "M = a # B @ [z]" using big assms(2) by (cases M) auto
      then show ?thesis using assms(1) by (simp add: inserted_rows_def)
    qed (use assms in \<open>auto simp: inserted_rows_def\<close>)
    then have "inserted_rows L M r c ! (r + length M + k) = L ! (Suc r + k)"
      if "r + length M + k < length L + length M - 1" for k
      using that assms \<open>length (inserted_rows L M r c) = _\<close> by (metis nth_drop less_imp_le_nat
          add_lessD1 Suc_leI)
    from this[of "i - (r + length M)"] i have "inserted_rows L M r c ! i = L ! (Suc r + (i - (r + length M)))" by simp
    moreover have "Suc r + (i - (r + length M)) = i - (length M - 1)" using i assms(2) by (cases M) auto
    ultimately show ?thesis by (simp only:)
  qed
qed

lemma insert_row_closed:
  assumes "wf_text t" "wf_text u" "r < length (lines t)" "c \<le> length (lines t ! r)"
    "i < length (lines t) + length (lines u) - 1"
  defines "L \<equiv> lines t" and "M \<equiv> lines u"
  shows "insert_row t u (int r) (int c) (int i) = Some (inserted_rows L M r c ! i,
    if i = r + length M - 1 then Some (int i, strlen (last M) + (if length M = 1 then int c else 0)) else None)"
proof -
  have m: "maxrow u = int (length M)" "M \<noteq> []" and n: "maxrow t = int (length L)"
    using wf_text_fields(4,5)[OF assms(2)] wf_text_fields(5)[OF assms(1)] by (auto simp: L_def M_def simp del: length_lines)
  have Lrow: "line_at t (int k) = Some (L ! k)" "0 \<notin> set (L ! k)" if "k < length L" for k
    using that line_at_wf[OF assms(1), of "int k"] lines_nth_no0[OF assms(1), of k] n by (auto simp: L_def)
  have Mrow: "line_at u (int k) = Some (M ! k)" "0 \<notin> set (M ! k)" if "k < length M" for k
    using that line_at_wf[OF assms(2), of "int k"] lines_nth_no0[OF assms(2), of k] m by (auto simp: M_def)
  have r: "r < length L" "c \<le> length (L ! r)" using assms by (auto simp: L_def)
  have no0: "0 \<notin> set (take c (L ! r))" "0 \<notin> set (drop c (L ! r))"
    using Lrow(2)[OF r(1)] by (auto dest: in_set_takeD in_set_dropD)
  have sub: "substr (L ! r) 0 (int c) = Some (take c (L ! r))"
    "substr (drop c (L ! r)) 0 (strlen (L ! r) - int c) = Some (drop c (L ! r))"
    using Lrow(2)[OF r(1)] no0 r(2) by (simp_all add: substr_closed strlen_def)
  consider (before) "i < r" | (mid) "r < i" "i < r + length M - 1" | (at) "i = r \<or> i = r + length M - 1"
    | (aft) "r + length M - 1 < i" by linarith
  then show ?thesis
  proof cases
    case before
    then have "int i < int r" "i < length L" "i \<noteq> r + length M - 1" using r m(2) by (cases M; simp)+
    then show ?thesis using before r Lrow[of i] m(2)
      by (simp add: insert_row_def Let_def substr_whole inserted_rows_def nth_append)
  next
    case mid
    then have k: "i - r < length M" "int i - int r = int (i - r)" "int i < int r + int (length M) - 1" by auto
    have "inserted_rows L M r c ! i = M ! (i - r)"
      using inserted_rows_nth(3)[OF r(1) m(2)] mid by blast
    then show ?thesis using mid k Mrow[OF k(1)] by (simp add: insert_row_def Let_def substr_whole m(1))
  next
    case at
    show ?thesis
    proof (cases "length M = 1")
      case True
      with at have i: "i = r" by auto
      have "hd M = M ! 0" "last M = M ! 0" using True by (cases M; simp)+
      with i True r Lrow[OF r(1)] Mrow[of 0] sub no0 show ?thesis
        using inserted_rows_nth(1)[OF r(1) m(2), of c] strcat_closed[of "take c (L ! r) @ M ! 0" "drop c (L ! r)"]
        by (simp add: insert_row_def Let_def strcat_closed m(1)) (simp add: strlen_def)
    next
      case False
      then have big: "length M > 1" using m(2) by (cases M) auto
      have hl: "hd M = M ! 0" "last M = M ! (length M - 1)" "int (length M) - 1 = int (length M - 1)"
        using m(2) by (simp_all add: hd_conv_nth last_conv_nth of_nat_diff Suc_leI)
      have cl: "int c \<le> strlen (L ! r)" "r \<noteq> r + length M - 1" using r big by (auto simp: strlen_def)
      show ?thesis
      proof (cases "i = r")
        case True
        then show ?thesis
          using cl m(2) big r Lrow[OF r(1)] Mrow[of 0] sub no0 hl inserted_rows_nth(2)[OF r(1) m(2), of c]
          by (simp add: insert_row_def Let_def strcat_closed m(1))
      next
        case i: False
        with at have i': "i = r + length M - 1" by simp
        have ii: "\<not> int i < int r + int (length M) - 1" "int i = int r + (int (length M) - 1)" using i' big by auto
        have lM: "line_at u (int (length M) - 1) = Some (last M)" "0 \<notin> set (last M)"
          using Mrow[of "length M - 1"] m(2) unfolding hl(2,3) by auto
        have "insert_row t u (int r) (int c) (int i) =
            Some (last M @ drop c (L ! r), Some (int i, strlen (last M)))"
          using cl i ii(1) r Lrow[OF r(1)] sub no0 lM False m(2)
          by (simp add: insert_row_def Let_def strcat_closed m(1) ii(2))
        then show ?thesis using i' False inserted_rows_nth(4)[OF r(1) m(2) big, of c] by simp
      qed
    qed
  next
    case aft
    then have k: "i - (length M - 1) < length L" "int i - (int (length M) - 1) = int (i - (length M - 1))"
      using assms(5) m(2) by (auto simp: L_def M_def of_nat_diff Suc_leI)
    have "inserted_rows L M r c ! i = L ! (i - (length M - 1))"
      using inserted_rows_nth(5)[OF r(1) m(2)] aft assms(5) by (simp add: L_def M_def)
    moreover have "\<not> int i < int r" "\<not> int i < int r + int (length M) - 1" "int i \<noteq> int r"
      "int i \<noteq> int r + int (length M) - 1" "i \<noteq> r + length M - 1"
      using aft m(2) by (cases M; simp)+
    moreover have "line_at t (int i - (int (length M) - 1)) = Some (L ! (i - (length M - 1)))"
      "0 \<notin> set (L ! (i - (length M - 1)))"
      using Lrow[OF k(1)] unfolding k(2) by auto
    ultimately show ?thesis
      unfolding insert_row_def Let_def m(1)
      by (simp only: if_False bind.bind_lunit substr_whole) (simp add: substr_whole)
  qed
qed

lemma insert_loop_closed:
  assumes "wf_text t" "wf_text u" "r < length (lines t)" "c \<le> length (lines t ! r)"
  defines "I \<equiv> inserted_rows (lines t) (lines u) r c" and "k \<equiv> r + length (lines u) - 1"
  assumes "i \<le> length I" "data res = filled (length I) (take i I)"
  shows "insert_loop t u (int r) (int c) (int i) res = Some (
    (if i \<le> k then res\<lparr>cursor_row := int k, cursor_col := strlen (last (lines u)) + (if length (lines u) = 1 then int c else 0)\<rparr>
     else res)\<lparr>data := map Some I\<rparr>)"
  using assms(7,8)
proof (induction "length I - i" arbitrary: i res)
  case 0
  have n: "maxrow t + maxrow u - 1 = int (length I)" and k: "k < length I"
    using wf_text_fields(1,4)[OF assms(1)] wf_text_fields(1,4)[OF assms(2)] assms(1-3) length_inserted_rows[OF assms(3), of "lines u" c]
    by (auto simp: I_def k_def)
  from 0 have "i = length I" by simp
  with 0 k show ?case by (subst insert_loop.simps) (simp add: n filled_full)
next
  case (Suc m)
  have len: "length I = length (lines t) + length (lines u) - 1"
    using length_inserted_rows[OF assms(3) wf_text_fields(4)[OF assms(2)]] by (simp add: I_def)
  have n: "maxrow t + maxrow u - 1 = int (length I)"
    using wf_text_fields(1)[OF assms(1)] wf_text_fields(1)[OF assms(2)] assms(1,2) len by auto
  from Suc have i: "i < length I" by simp
  define cur where "cur = (if i = k then Some (int i, strlen (last (lines u)) + (if length (lines u) = 1 then int c else 0)) else None)"
  have row: "insert_row t u (int r) (int c) (int i) = Some (I ! i, cur)"
    using insert_row_closed[OF assms(1-4), of i] i len by (simp add: I_def k_def cur_def)
  have sl: "set_line res (int i) (I ! i) = Some (res\<lparr>data := filled (length I) (take (Suc i) I)\<rparr>)"
    using i Suc.prems(2) filled_wr[of "take i I" "length I" "I ! i"]
    by (simp add: set_line_def take_Suc_conv_app_nth min_def del: filled_wr)
  let ?res = "case cur of None \<Rightarrow> res\<lparr>data := filled (length I) (take (Suc i) I)\<rparr>
     | Some (r, c) \<Rightarrow> res\<lparr>data := filled (length I) (take (Suc i) I), cursor_row := r, cursor_col := c\<rparr>"
  have "insert_loop t u (int r) (int c) (int i) res = insert_loop t u (int r) (int c) (int (Suc i)) ?res"
    using i row sl by (subst insert_loop.simps) (simp add: n add.commute split: option.splits)
  also have "\<dots> = Some (
    (if Suc i \<le> k then ?res\<lparr>cursor_row := int k, cursor_col := strlen (last (lines u)) + (if length (lines u) = 1 then int c else 0)\<rparr>
     else ?res)\<lparr>data := map Some I\<rparr>)"
    using Suc.hyps(1)[of "Suc i" ?res] Suc.hyps(2) i by (auto simp: cur_def)
  also have "\<dots> = Some (
    (if i \<le> k then res\<lparr>cursor_row := int k, cursor_col := strlen (last (lines u)) + (if length (lines u) = 1 then int c else 0)\<rparr>
     else res)\<lparr>data := map Some I\<rparr>)"
    by (auto simp: cur_def)
  finally show ?case .
qed

lemma textframe_insert_closed:
  fixes c :: int
  assumes "wf_text t" "wf_text u" "0 \<le> r" "q = nat (min r (maxrow t - 1))"
  defines "c' \<equiv> nat (snap (lines t ! q) c 1)"
  defines "I \<equiv> inserted_rows (lines t) (lines u) q c'"
  shows "textframe_insert t u r c = Some
    \<lparr>data = map Some I, row = 0, col = 0, cursor_row = int (q + length (lines u) - 1),
     cursor_col = strlen (last (lines u)) + (if length (lines u) = 1 then int c' else 0),
     maxrow = int (length I), maxrow_capacity = 0\<rparr>"
proof -
  have q: "q < length (lines t)" "int q = min r (maxrow t - 1)" 
    using assms(1,3,4) wf_text_fields(1)[OF assms(1)] by auto
  have c': "c' \<le> length (lines t ! q)" "snap (lines t ! q) c 1 = int c'"
    using snap_ok(1,2)[of 1 "lines t ! q" c] by (auto simp: c'_def strlen_def)
  have adj: "textframe_adjust_r_c t r c 0 1 = Some (int q, int c')"
    using adjust_pos(1)[OF assms(1,3) q(2), of c 1] c'(2) by simp
  have n: "maxrow t + maxrow u - 1 = int (length I)"
    using wf_text_fields(1,4)[OF assms(1)] wf_text_fields(1,4)[OF assms(2)] assms(1,2)
      length_inserted_rows[OF q(1), of "lines u" c'] by (auto simp: I_def)
  show ?thesis
    using insert_loop_closed[OF assms(1,2) q(1) c'(1), of 0
        "\<lparr>data = replicate (length I) None, row = 0, col = 0, cursor_row = 0, cursor_col = 0,
        maxrow = int (length I), maxrow_capacity = 0\<rparr>"]
    by (simp add: textframe_insert_def adj Let_def n filled_Nil I_def)
qed

end
