(* ===== verification/Text_Cut.thy ===== *)
theory Text_Cut
  imports Text_Range
begin

text \<open>
  Copying a range, and what the clipboard operations do together: the range operations against
  the text as one sequence of bytes, and cutting a range and pasting it back.
\<close>

section \<open>Extracting a range\<close>

text \<open>The rows of the range from column \<open>sc\<close> of row \<open>sr\<close> up to and including column \<open>ec\<close> of row \<open>er\<close>.\<close>

definition extracted_rows :: "cstring list \<Rightarrow> nat \<Rightarrow> nat \<Rightarrow> nat \<Rightarrow> nat \<Rightarrow> cstring list" where
  "extracted_rows L sr sc er ec =
     (if sr = er then [take (Suc ec - sc) (drop sc (L ! sr))]
      else drop sc (L ! sr) # take (er - Suc sr) (drop (Suc sr) L) @ [take (Suc ec) (L ! er)])"

lemma extract_loop_rows:
  assumes "wf_text t" "er < length (lines t)" "0 \<le> ec" "ec < el" "0 < i" "i \<le> n"
    "er = sr + n" "length A = i"
  shows "extract_loop t sl ec el (int (Suc n)) (int i) (int (sr + i)) 0
      (if i = n then ec + 1 else strlen (lines t ! (sr + i))) (filled (Suc n) A) =
    Some (map Some (A @ take (n - i) (drop (sr + i) (lines t)) @ [take (nat (ec + 1)) (lines t ! er)]))"
  using assms(5-8)
proof (induction "n - i" arbitrary: i A)
  case 0
  then have "i = n" by simp
  have row: "line_at t (int er) = Some (lines t ! er)" "0 \<notin> set (lines t ! er)"
    using assms(1,2) line_at_wf[OF assms(1), of "int er"] lines_nth_no0[OF assms(1), of er] by auto
  have "extract_loop t sl ec el (int (Suc n)) (int n) (int er) 0 (ec + 1) (filled (Suc n) A) =
     extract_loop t sl ec el (int (Suc n)) (int (Suc n)) (int er + 1) 0 (ec + 1)
       (filled (Suc n) (A @ [take (nat (ec + 1)) (lines t ! er)]))"
    using 0 \<open>i = n\<close> row assms(4) filled_wr[of A "Suc n" "take (nat (ec + 1)) (lines t ! er)"]
    by (subst extract_loop.simps) (auto simp: substr_closed add.commute simp del: filled_wr)
  also have "\<dots> = Some (map Some (A @ [take (nat (ec + 1)) (lines t ! er)]))"
    using 0 \<open>i = n\<close> by (subst extract_loop.simps) (simp add: filled_full)
  finally show ?case using 0 \<open>i = n\<close> by (simp add: add.commute)
next
  case (Suc m)
  then have lt: "i < n" "sr + i < length (lines t)" "Suc (sr + i) < length (lines t)" using assms(2) by auto
  have row: "line_at t (int (sr + i)) = Some (lines t ! (sr + i))" "0 \<notin> set (lines t ! (sr + i))"
    "line_at t (int (sr + i) + 1) = Some (lines t ! Suc (sr + i))"
    using lt assms(1) line_at_wf[OF assms(1), of "int (sr + i)"] lines_nth_no0[OF assms(1), of "sr + i"]
      line_at_wf[OF assms(1), of "int (sr + i) + 1"] by (auto simp: nat_add_distrib)
  let ?A = "A @ [lines t ! (sr + i)]"
  have "extract_loop t sl ec el (int (Suc n)) (int i) (int (sr + i)) 0
        (strlen (lines t ! (sr + i))) (filled (Suc n) A) =
     extract_loop t sl ec el (int (Suc n)) (int (Suc i)) (int (sr + Suc i)) 0
        (if Suc i = n then ec + 1 else strlen (lines t ! (sr + Suc i))) (filled (Suc n) ?A)"
    using lt row Suc.prems assms(4) filled_wr[of A "Suc n" "lines t ! (sr + i)"]
    by (subst extract_loop.simps) (auto simp: substr_whole algebra_simps simp del: filled_wr)
  also have "\<dots> = Some (map Some (?A @ take (n - Suc i) (drop (sr + Suc i) (lines t)) @ [take (nat (ec + 1)) (lines t ! er)]))"
    using Suc.hyps(1)[of "Suc i" ?A] Suc.hyps(2) Suc.prems lt by simp
  also have "?A @ take (n - Suc i) (drop (sr + Suc i) (lines t)) @ [take (nat (ec + 1)) (lines t ! er)] =
     A @ take (n - i) (drop (sr + i) (lines t)) @ [take (nat (ec + 1)) (lines t ! er)]"
    using lt by (simp add: Cons_nth_drop_Suc[symmetric] take_Cons' del: length_lines)
  finally show ?case using lt by simp
qed

lemma extract_loop_first:
  assumes "wf_text t" "er < length (lines t)" "0 \<le> ec" "ec < el" "er = sr + n" "sc \<le> length (lines t ! sr)"
    "sl = strlen (lines t ! sr)"
  shows "extract_loop t sl ec el (int (Suc n)) 0 (int sr) (int sc)
      (if sr = er then ec - int sc + 1 else sl - int sc) (filled (Suc n) []) =
    Some (map Some (extracted_rows (lines t) sr sc er (nat ec)))"
proof -
  have sr: "sr < length (lines t)" using assms by simp
  have row: "line_at t (int sr) = Some (lines t ! sr)" "0 \<notin> set (lines t ! sr)"
    using sr assms(1) line_at_wf[OF assms(1), of "int sr"] lines_nth_no0[OF assms(1), of sr] by auto
  let ?f = "if sr = er then take (Suc (nat ec) - sc) (drop sc (lines t ! sr)) else drop sc (lines t ! sr)"
  have sub: "substr (lines t ! sr) (int sc) (if sr = er then ec - int sc + 1 else sl - int sc) = Some ?f"
    using row(2) assms(3,6,7) by (auto simp: substr_closed strlen_def nat_diff_distrib' nat_add_distrib
        intro!: arg_cong2[where f = take])
  have w: "wr (filled (Suc n) []) 0 (Some ?f) = Some (filled (Suc n) [?f])"
    using filled_wr[of "[]" "Suc n" ?f] by simp
  show ?thesis
  proof (cases "n = 0")
    case True
    have "extract_loop t sl ec el (int (Suc n)) 0 (int sr) (int sc)
        (if sr = er then ec - int sc + 1 else sl - int sc) (filled (Suc n) []) =
      extract_loop t sl ec el (int (Suc n)) 1 (int sr + 1) 0 (ec + 1) (filled (Suc n) [?f])"
      by (subst extract_loop.simps) (use True row sub w assms in \<open>simp add: strlen_def\<close>)
    also have "\<dots> = Some (map Some [?f])"
      using True by (subst extract_loop.simps) (simp add: filled_full)
    finally show ?thesis using True assms(5) by (simp add: extracted_rows_def)
  next
    case False
    have row2: "line_at t (int sr + 1) = Some (lines t ! Suc sr)"
      using False assms(1,2,5) line_at_wf[OF assms(1), of "int sr + 1"] by (auto simp: nat_add_distrib)
    have "extract_loop t sl ec el (int (Suc n)) 0 (int sr) (int sc)
        (if sr = er then ec - int sc + 1 else sl - int sc) (filled (Suc n) []) =
      extract_loop t sl ec el (int (Suc n)) (int 1) (int (sr + 1)) 0
        (if 1 = n then ec + 1 else strlen (lines t ! (sr + 1))) (filled (Suc n) [?f])"
      by (subst extract_loop.simps) (use False row row2 sub w assms in \<open>auto simp: strlen_def add.commute\<close>)
    also have "\<dots> = Some (map Some ([?f] @ take (n - 1) (drop (sr + 1) (lines t)) @ [take (nat (ec + 1)) (lines t ! er)]))"
      using extract_loop_rows[OF assms(1-4) _ _ assms(5), of 1 "[?f]" sl] False by simp
    finally show ?thesis
      using False assms(3,5) by (simp add: extracted_rows_def nat_add_distrib)
  qed
qed

lemma textframe_extract_closed:
  fixes sc :: int
  assumes "wf_text t" "0 \<le> sr" "0 \<le> er" "r1 = nat (min sr (maxrow t - 1))" "r2 = nat (min er (maxrow t - 1))"
    "r1 \<le> r2" "snap_end (lines t ! r2) ec < strlen (lines t ! r2)"
  defines "E \<equiv> extracted_rows (lines t) r1 (nat (snap (lines t ! r1) sc (-1))) r2 (nat (snap_end (lines t ! r2) ec))"
  shows "textframe_extract t sr sc er ec = Some
    \<lparr>data = map Some E, row = 0, col = 0, cursor_row = 0, cursor_col = 0,
     maxrow = int (length E), maxrow_capacity = int (length E)\<rparr>"
proof -
  note f = wf_text_fields(1)[OF assms(1)]
  have r: "r2 < length (lines t)" "int r1 = min sr (maxrow t - 1)" "int r2 = min er (maxrow t - 1)"
    using assms(1-5) f by (auto simp: min_def)
  let ?sc = "snap (lines t ! r1) sc (-1)" and ?ec = "snap_end (lines t ! r2) ec"
  have a: "textframe_adjust_r_c t sr sc 0 (-1) = Some (int r1, ?sc)"
    "textframe_adjust_r_c t er ec 1 1 = Some (int r2, ?ec)"
    using adjust_pos(1)[OF assms(1,2) r(2)] adjust_pos(2)[OF assms(1,3) r(3)] by simp_all
  have s: "0 \<le> ?sc" "?sc \<le> strlen (lines t ! r1)" "0 \<le> ?ec"
    by (simp_all add: snap_ok snap_end_range)
  have lt: "int r2 < maxrow t" "int r1 < maxrow t" "\<not> int r2 \<ge> maxrow t" using r f assms(1,6) by auto
  have rows: "line_at t (int r1) = Some (lines t ! r1)" "line_at t (int r2) = Some (lines t ! r2)"
    using line_at_wf[OF assms(1), of "int r1"] line_at_wf[OF assms(1), of "int r2"] lt by auto
  have n: "int r2 - int r1 + 1 = int (Suc (r2 - r1))" using assms(6) by auto
  have len: "length E = Suc (r2 - r1)" using assms(6) r by (auto simp: E_def extracted_rows_def)
  have loop: "extract_loop t (strlen (lines t ! r1)) ?ec (strlen (lines t ! r2)) (int (Suc (r2 - r1))) 0 (int r1) ?sc
      (if int r1 = int r2 then ?ec - ?sc + 1 else strlen (lines t ! r1) - ?sc)
      (replicate (nat (int (Suc (r2 - r1)))) None) = Some (map Some E)"
  proof -
    have sn: "int (nat ?sc) = ?sc" and le: "nat ?sc \<le> length (lines t ! r1)" using s by (auto simp: strlen_def)
    have "r2 = r1 + (r2 - r1)" using assms(6) by simp
    from extract_loop_first[OF assms(1) r(1) s(3) assms(7) this le refl]
    show ?thesis unfolding sn nat_int filled_Nil of_nat_eq_iff E_def .
  qed
  have no: "\<not> ?sc > strlen (lines t ! r1)" "\<not> ?ec \<ge> strlen (lines t ! r2)" "\<not> ?sc < 0" "\<not> int r1 < 0" "\<not> int r2 < 0"
    using s assms(7) by auto
  have pos: "\<not> int (Suc (r2 - r1)) \<le> 0" by simp
  show ?thesis
    unfolding textframe_extract_def
    by (simp only: a Let_def bind.bind_lunit prod.case no lt(3) if_False simp_thms rows n pos loop len)
qed

lemma extracted_no0:
  "\<lbrakk>\<And>l. l \<in> set L \<Longrightarrow> 0 \<notin> set l; sr < length L; er < length L; x \<in> set (extracted_rows L sr sc er ec)\<rbrakk>
   \<Longrightarrow> 0 \<notin> set x"
  by (auto simp: extracted_rows_def dest!: in_set_takeD in_set_dropD split: if_splits)

text \<open>On the sequence of bytes: what lies between the two positions.\<close>

lemma flat_extracted_rows:
  assumes "sr \<le> er" "er < length L" "sr = er \<longrightarrow> sc \<le> Suc ec" "ec < length (L ! er)"
  shows "flat L = before L sr sc @ flat (extracted_rows L sr sc er ec) @ after L er (Suc ec)"
proof (cases "sr = er")
  case True
  have "drop sc (L ! sr) = take (Suc ec - sc) (drop sc (L ! sr)) @ drop (Suc ec) (L ! sr)"
    using True assms(3) by (metis append_take_drop_id drop_drop le_add_diff_inverse2)
  then have "after L sr sc = take (Suc ec - sc) (drop sc (L ! sr)) @ after L sr (Suc ec)"
    unfolding after_def by (metis flat_prefix)
  with True assms flat_before_after[of sr L sc] show ?thesis by (simp add: extracted_rows_def)
next
  case False
  have "drop (Suc sr) L = take (er - Suc sr) (drop (Suc sr) L) @ (take (Suc ec) (L ! er) @ drop (Suc ec) (L ! er)) # drop (Suc er) L"
    using False assms(1,2) id_take_nth_drop[of "er - Suc sr" "drop (Suc sr) L"] by simp
  then have "after L sr sc = flat (extracted_rows L sr sc er ec) @ after L er (Suc ec)"
    using False flat_split[of "drop sc (L ! sr) # take (er - Suc sr) (drop (Suc sr) L)" "take (Suc ec) (L ! er)"
        "drop (Suc ec) (L ! er)" "drop (Suc er) L"]
    by (simp add: after_def extracted_rows_def)
  with assms flat_before_after[of sr L sc] show ?thesis by simp
qed




section \<open>Cut and paste\<close>

lemma lines_record:
  "lines \<lparr>data = map Some L, row = a, col = b, cursor_row = r, cursor_col = c, maxrow = int (length L),
     maxrow_capacity = m\<rparr> = L"
  by (simp add: lines_def comp_def)

lemma snap_end_ge: "0 \<le> c \<Longrightarrow> c \<le> snap_end s c \<or> snap_end s c = strlen s"
  by (auto simp: snap_end_def clampc_def Let_def)

lemma snap_end_bounds:
  assumes "snap_end s c < strlen s"
  shows "0 \<le> snap_end s c" "nat (snap_end s c) < length s"
  using assms snap_end_range[of s c] by (auto simp: strlen_def nat_less_iff)


lemma cut_paste_rows:
  assumes "sr \<le> er" "er < length L" "sr = er \<longrightarrow> sc \<le> Suc ec" "ec < length (L ! er)" "sc \<le> length (L ! sr)"
    "sr = er \<or> length (L ! er) \<le> length (L ! sr)" "\<forall>l\<in>set L. 10 \<notin> set l"
  shows "inserted_rows (deleted_rows L sr sc er (int ec)) (extracted_rows L sr sc er ec) sr sc = L" (is "?I = L")
proof -
  let ?D = "deleted_rows L sr sc er (int ec)" and ?E = "extracted_rows L sr sc er ec"
  have sr: "sr < length ?D" using assms by (auto simp: deleted_rows_def)
  have D: "?D ! sr = take sc (L ! sr) @ drop (Suc ec) (L ! er)" "take sr ?D = take sr L" "drop (Suc sr) ?D = drop (Suc er) L"
    using assms by (auto simp: deleted_rows_def nth_append strlen_def nat_add_distrib)
  have b: "before ?D sr sc = before L sr sc" "after ?D sr sc = after L er (Suc ec)"
    using assms(5) D by (simp_all add: before_def after_def)
  have E: "?E \<noteq> []" by (simp add: extracted_rows_def)
  have "flat ?I = flat L"
    using flat_inserted_rows[OF sr E, of sc] b flat_extracted_rows[OF assms(1-4)] by simp
  moreover have "10 \<notin> set l" if "l \<in> set ?I" for l
  proof -
    have dl: "10 \<notin> set x" if "x \<in> set ?D" for x
      using that assms by (auto simp: deleted_rows_def dest!: in_set_takeD in_set_dropD)
    have el: "10 \<notin> set x" if "x \<in> set ?E" for x
      using that assms by (auto simp: extracted_rows_def dest!: in_set_takeD in_set_dropD split: if_splits)
    have "hd ?E \<in> set ?E" "last ?E \<in> set ?E" "set (butlast (tl ?E)) \<subseteq> set ?E" "?D ! sr \<in> set ?D"
      using E sr by (auto dest: in_set_butlastD list.set_sel(2))
    then show ?thesis using that dl el
      by (auto simp: inserted_rows_def dest!: in_set_takeD in_set_dropD split: if_splits)
  qed
  moreover have "?I \<noteq> []" "L \<noteq> []" using assms(2) by (auto simp: inserted_rows_def)
  ultimately show ?thesis using assms(7) flat_inj by blast
qed

text \<open>
  C2: cutting a range (copy it, then delete it) and pasting it back at the place where it was
  gives the rows of the original text. The rows hold whole characters and no newline; the range starts on a character boundary, ends
  before the end of its last row, and lies in one row or has a last row that is not longer than its first one. Where it ends at the end of its
  last row, or its last row is longer, the code faults or loses bytes, as \<open>extract_last_row_fault\<close> and \<open>delete_loses_tail\<close> show.
\<close>

theorem cut_paste_restores:
  assumes "wf_text t" "list_all gbk (lines t)" "list_all (\<lambda>l. 10 \<notin> set l) (lines t)"
    "0 \<le> sr" "sr \<le> er" "er < maxrow t" "0 \<le> sc" "sc \<le> strlen (lines t ! nat sr)"
    "boundary (lines t ! nat sr) (nat sc)" "sr = er \<longrightarrow> sc \<le> ec" "snap_end (lines t ! nat er) ec < strlen (lines t ! nat er)"
    "sr = er \<or> strlen (lines t ! nat er) \<le> strlen (lines t ! nat sr)"
  shows "\<exists>clip t1 t2. textframe_extract t sr sc er ec = Some clip \<and> textframe_delete t sr sc er ec = Some t1 \<and>
    textframe_insert t1 clip sr sc = Some t2 \<and> lines t2 = lines t"
proof -
  let ?L = "lines t" and ?a = "nat sr" and ?b = "nat er" and ?c = "nat sc"
  let ?e = "snap_end (lines t ! nat er) ec"
  have m: "min sr (maxrow t - 1) = sr" "min er (maxrow t - 1) = er" using assms by auto
  have r: "?a \<le> ?b" "?a < length ?L" "?b < length ?L" using assms by auto
  have sn: "snap (?L ! ?a) sc (-1) = sc" using assms by (intro snap_id) auto
  note e = snap_end_bounds[OF assms(11)]
  let ?E = "extracted_rows ?L ?a ?c ?b (nat ?e)" and ?D = "deleted_rows ?L ?a ?c ?b ?e"
  let ?clip = "\<lparr>data = map Some ?E, row = 0, col = 0, cursor_row = 0, cursor_col = 0,
     maxrow = int (length ?E), maxrow_capacity = int (length ?E)\<rparr>"
  let ?t1 = "fresh_frame (length ?L) ?D"
  have ext: "textframe_extract t sr sc er ec = Some ?clip"
    using textframe_extract_closed[OF assms(1,4) _ refl refl, of er ec sc] assms(4,5,11) sn unfolding m by simp
  have del: "textframe_delete t sr sc er ec = Some ?t1"
    using textframe_delete_closed[OF assms(1,4), of er sc ec] assms(4,5) sn unfolding m by simp
  have "?E \<noteq> []" by (simp add: extracted_rows_def)
  then have clip: "wf_text ?clip" "lines ?clip = ?E"
    using wf_rowsI[of ?clip ?E "[]"] extracted_no0[OF lines_no0[OF assms(1)] r(2,3)] by auto
  have "?D \<noteq> []" by (simp add: deleted_rows_def)
  from fresh_frame_ok[OF this deleted_rows_no0[OF lines_no0[OF assms(1)] r(2,3)]]
  have t1: "wf_text ?t1" "lines ?t1 = ?D" by auto
  have mt1: "nat (min sr (maxrow ?t1 - 1)) = ?a"
    using assms(4) r by (auto simp: fresh_frame_def deleted_rows_def)
  have D: "?D ! ?a = take ?c (?L ! ?a) @ take (nat (strlen (?L ! ?a) - ?e - 1)) (drop (nat (?e + 1)) (?L ! ?b))"
    using r by (simp add: deleted_rows_def nth_append)
  have "gbk (take ?c (?L ! ?a))"
    using assms(2,8,9) r gbk_boundary[of "?L ! ?a" ?c] by (auto simp: list_all_length strlen_def simp del: length_lines)
  then have "boundary (?D ! ?a) ?c"
  proof -
    have "length (take ?c (?L ! ?a)) = ?c" using assms(8) by (simp add: strlen_def)
    with gbk_boundary_append[OF \<open>gbk (take ?c (?L ! ?a))\<close>] show ?thesis unfolding D by metis
  qed
  then have sn1: "snap (?D ! ?a) sc 1 = sc" using assms(7,8) by (intro snap_id) (auto simp: D strlen_def)
  have "textframe_insert ?t1 ?clip sr sc = Some
    \<lparr>data = map Some (inserted_rows ?D ?E ?a ?c), row = 0, col = 0, cursor_row = int (?a + length ?E - 1),
     cursor_col = strlen (last ?E) + (if length ?E = 1 then sc else 0),
     maxrow = int (length (inserted_rows ?D ?E ?a ?c)), maxrow_capacity = 0\<rparr>" (is "_ = Some ?t2")
    using textframe_insert_closed[OF t1(1) clip(1) assms(4) mt1[symmetric], of sc] sn1 assms(7)
    unfolding t1(2) clip(2) by simp
  moreover have "inserted_rows ?D ?E ?a ?c = ?L"
  proof -
    have "?a = ?b \<longrightarrow> ?c \<le> Suc (nat ?e)"
    proof
      assume "?a = ?b"
      then have "sr = er" using assms(4,5) by simp
      with assms(7,8,10) snap_end_ge[of ec "?L ! ?b"] show "?c \<le> Suc (nat ?e)" by auto
    qed
    moreover have "?c \<le> length (?L ! ?a)" "?a = ?b \<or> length (?L ! ?b) \<le> length (?L ! ?a)"
      using assms(8,12) by (auto simp: strlen_def)
    moreover have "\<forall>l\<in>set ?L. 10 \<notin> set l" using assms(3) by (simp add: list_all_iff)
    moreover have "int (nat ?e) = ?e" using e by simp
    ultimately show ?thesis using cut_paste_rows[OF r(1,3) _ e(2)] by metis
  qed
  moreover from this have "lines ?t2 = ?L" by (simp only: lines_record)
  ultimately show ?thesis using ext del by blast
qed

text \<open>Two rows, the second row not longer than the first; the range runs from one into the other.\<close>

definition two_rows :: textframe where
  "two_rows = \<lparr>data = [Some (lit ''hello''), Some (lit ''you'')], row = 0, col = 0, cursor_row = 0,
     cursor_col = 0, maxrow = 2, maxrow_capacity = 2\<rparr>"

theorem cut_paste_restores_witness:
  "\<exists>clip t1 t2. textframe_extract two_rows 0 3 1 1 = Some clip \<and> textframe_delete two_rows 0 3 1 1 = Some t1 \<and>
    textframe_insert t1 clip 0 3 = Some t2 \<and> lines t2 = lines two_rows"
  by (rule cut_paste_restores; code_simp)



text \<open>
  The two limits of the code: with a first row shorter than the last one the rest of the last
  row is lost, and a selection up to the end of the last row reads the row pointer after it.
\<close>

lemma delete_loses_tail:
  "map_option lines (textframe_delete \<lparr>data = [Some (lit ''a''), Some (lit ''bcdef'')], row = 0, col = 0,
     cursor_row = 0, cursor_col = 0, maxrow = 2, maxrow_capacity = 2\<rparr> 0 1 1 0) = Some [lit ''a'']"
  by code_simp

lemma extract_last_row_fault: "textframe_extract (LineEdit_set_str (lit ''abc'')) 0 0 0 3 = None"
  by code_simp

end
