(* ===== verification/Text_File.thy ===== *)
theory Text_File
  imports Text_Range
begin

text \<open>
  Loading and saving: a text is written as its rows separated by newlines, and loading these
  bytes, in whatever blocks the reads return them, gives the rows back.
\<close>

section \<open>Loading\<close>

text \<open>While a file is read the cursor is at the end of the last row.\<close>

definition reading :: "textframe \<Rightarrow> cstring list \<Rightarrow> cstring \<Rightarrow> bool" where
  "reading t L l \<longleftrightarrow> wf_text t \<and> lines t = L @ [l] \<and> cursor_row t = int (length L) \<and> cursor_col t = strlen l"

lemma reading_cursor:
  assumes "reading t L l"
  shows "wf_text t" "cursor_ok t" "maxrow t = int (length L) + 1" "0 \<notin> set l"
    "cursor_row t = int (length L)" "cur_line t = l"
proof -
  show w: "wf_text t" "cursor_row t = int (length L)" "cur_line t = l" using assms by (auto simp: reading_def)
  show "maxrow t = int (length L) + 1" "0 \<notin> set l"
    using assms wf_text_fields(5)[of t] lines_no0[of t l] by (auto simp: reading_def simp del: length_lines)
  then show "cursor_ok t"
    using assms boundary_length[of l] by (simp add: reading_def cursor_ok_def cursor_in_def strlen_def)
qed

lemma reading_char:
  assumes "reading t L l" "c \<noteq> 0" "c \<noteq> 10" "c \<noteq> 13"
  obtains t' where "read_byte t lastc c = Some (t', sint c)" "reading t' L (l @ [c])"
proof -
  note r = reading_cursor[OF assms(1)]
  let ?t = "t\<lparr>data := (data t)[length L := Some (l @ [c])]\<rparr>"
  have col: "cursor_col t = strlen l" "lines t = L @ [l]" using assms(1) by (auto simp: reading_def)
  have p: "putc_to_str t c = Some ?t"
    using putc_to_str_wf[OF r(1) cursor_ok_in[OF r(2)] assms(2)] r(5,6) col by (simp add: strlen_def)
  have w: "wf_text ?t" "lines ?t = L @ [l @ [c]]"
    using wf_update_row[OF r(1), of "length L" "l @ [c]"] r(3,4) assms(2) col by (simp_all add: nat_add_distrib)
  let ?u = "?t\<lparr>cursor_col := strlen l + 1\<rparr>"
  have "adjust_cursor ?u 0 1 = Some ?u"
  proof (rule adjust_cursor_id)
    show "wf_text ?u" using w by simp
    show "cursor_ok ?u"
      using w r(3,5) boundary_length[of "l @ [c]"]
      by (simp add: cursor_ok_def cursor_in_def strlen_def nat_add_distrib)
  qed
  then have "move_to_next_char ?t = Some ?u"
    using r(3,5) w col line_at_wf[OF w(1), of "int (length L)"]
    by (simp add: move_to_next_char_def strlen_def)
  with p assms(2-4) have "read_byte t lastc c = Some (?u, sint c)" by (simp add: read_byte_def)
  moreover have "reading ?u L (l @ [c])" using w r(5) by (simp add: reading_def strlen_def)
  ultimately show thesis by (rule that)
qed

lemma reading_newline:
  assumes "reading t L l" "c = 13 \<or> c = 10 \<and> lastc \<noteq> 13"
  obtains t' where "read_byte t lastc c = Some (t', sint c)" "reading t' (L @ [l]) []"
proof -
  note r = reading_cursor[OF assms(1)]
  have col: "cursor_col t = strlen l" "lines t = L @ [l]" using assms(1) by (auto simp: reading_def)
  obtain t' where t': "new_line_to_editor t = Some t'" "wf_text t'"
    "lines t' = take (length L) (L @ [l]) @ [take (length l) l, drop (length l) l] @ drop (Suc (length L)) (L @ [l])"
    "cursor_row t' = int (length L) + 1" "cursor_col t' = 0"
    using new_line_to_editor_wf[OF r(1,2)] r(5,6) col by (auto simp: strlen_def)
  then have "reading t' (L @ [l]) []" by (simp add: reading_def strlen_def)
  moreover have "read_byte t lastc c = Some (t', sint c)" using t'(1) assms(2) by (auto simp: read_byte_def)
  ultimately show thesis using that by blast
qed

lemma reading_lf_of_crlf: "read_byte t 13 10 = Some (t, 10)"
  by (simp add: read_byte_def)

text \<open>What the loader makes of the bytes: LF, CR and CR LF each end a row.\<close>

fun parse_rows :: "bool \<Rightarrow> cstring \<Rightarrow> byte list \<Rightarrow> cstring list" where
  "parse_rows cr l [] = [l]"
| "parse_rows cr l (c # cs) =
    (if c = 13 then l # parse_rows True [] cs
     else if c = 10 then (if cr then parse_rows False l cs else l # parse_rows False [] cs)
     else parse_rows False (l @ [c]) cs)"

lemma sint_byte_13: "(sint (c :: byte) = 13) = (c = 13)"
proof
  assume "sint c = 13"
  then have "sint c = sint (13 :: byte)" by simp
  then show "c = 13" by (rule signed_word_eqI)
qed simp

lemma read_block_rows:
  "reading t L l \<Longrightarrow> 0 \<notin> set cs \<Longrightarrow>
   \<exists>t' lastc' L' l'. read_block t lastc cs = Some (t', lastc') \<and> reading t' L' l' \<and>
     L' @ [l'] = L @ parse_rows (lastc = 13) l cs"
proof (induction cs arbitrary: t lastc L l)
  case Nil
  then show ?case by auto
next
  case (Cons c cs)
  then have cs: "0 \<notin> set cs" "c \<noteq> 0" by auto
  consider (nl) "c = 13 \<or> c = 10 \<and> lastc \<noteq> 13" | (skip) "c = 10" "lastc = 13" | (ch) "c \<noteq> 10" "c \<noteq> 13" by blast
  then show ?case
  proof cases
    case nl
    obtain t1 where t1: "read_byte t lastc c = Some (t1, sint c)" "reading t1 (L @ [l]) []"
      using reading_newline[OF Cons.prems(1) nl] by blast
    have p: "L @ parse_rows (lastc = 13) l (c # cs) = (L @ [l]) @ parse_rows (sint c = 13) [] cs"
      using nl by (auto simp: sint_byte_13)
    show ?thesis unfolding p using Cons.IH[OF t1(2) cs(1), of "sint c"] t1(1) by simp
  next
    case skip
    then have p: "parse_rows (lastc = 13) l (c # cs) = parse_rows False l cs" by simp
    show ?thesis unfolding p using Cons.IH[OF Cons.prems(1) cs(1), of 10] skip by (simp add: reading_lf_of_crlf)
  next
    case ch
    obtain t1 where t1: "read_byte t lastc c = Some (t1, sint c)" "reading t1 L (l @ [c])"
      using reading_char[OF Cons.prems(1) cs(2) ch] by blast
    have p: "parse_rows (lastc = 13) l (c # cs) = parse_rows (sint c = 13) (l @ [c]) cs"
      using ch by (auto simp: sint_byte_13)
    show ?thesis unfolding p using Cons.IH[OF t1(2) cs(1), of "sint c"] t1(1) by simp
  qed
qed

lemma read_block_append:
  "read_block t lastc (xs @ ys) = (do { (t, lastc) \<leftarrow> read_block t lastc xs; read_block t lastc ys })"
proof (induction xs arbitrary: t lastc)
  case (Cons c xs)
  then show ?case by (cases "read_byte t lastc c") auto
qed simp

lemma read_blocks_concat: "read_blocks t lastc bs = read_block t lastc (concat bs)"
proof (induction bs arbitrary: t lastc)
  case (Cons b bs)
  then show ?case by (cases "read_block t lastc b") (auto simp: read_block_append)
qed simp

lemma loaded_rows:
  assumes "0 \<le> fd" "0 \<notin> set (concat blocks)"
  shows "\<exists>t'. textframe_read t fd blocks = Some (0, t') \<and> wf_text t' \<and>
    lines t' = parse_rows False [] (concat blocks) \<and> cursor_row t' = 0 \<and> cursor_col t' = 0"
proof -
  have "wf_text (LineEdit_set_str [])" "lines (LineEdit_set_str []) = [[]]"
    using wf_rowsI[of "LineEdit_set_str []" "[[]]" "[]"] by (auto simp: LineEdit_set_str_def)
  then have "reading (LineEdit_set_str []) [] []"
    by (simp add: reading_def) (simp add: LineEdit_set_str_def strlen_def)
  from read_block_rows[OF this assms(2), of "-1"]
  obtain t1 lc L l where t1: "read_blocks (LineEdit_set_str []) (-1) blocks = Some (t1, lc)" "reading t1 L l"
    and L: "L @ [l] = parse_rows False [] (concat blocks)" by (auto simp: read_blocks_concat)
  note r = reading_cursor[OF t1(2)]
  have lt: "lines t1 = L @ [l]" using t1(2) by (simp add: reading_def)
  have "snap s 0 1 = 0" for s by (intro snap_id) auto
  then have mv: "move_to_pos t1 0 0 = Some (t1\<lparr>cursor_row := 0, cursor_col := 0\<rparr>)"
    using move_to_pos_wf[OF r(1), of 0 0] r(3) by simp
  let ?t = "t1\<lparr>cursor_row := 0, cursor_col := 0, maxrow_capacity := maxrow t1\<rparr>"
  have "wf_text ?t" "lines ?t = lines t1" using r(1) by (simp_all add: wf_text_def lines_def)
  then show ?thesis
    using assms(1) t1(1) mv r(3) L lt by (simp add: textframe_read_def)
qed

text \<open>
  C3: loading a file gives one row per line of the file, where LF, CR and CR LF end a line,
  whatever the sizes of the blocks the reads return; the cursor is at the start of the text.
\<close>

theorem textframe_read_rows:
  assumes "0 \<le> fd" "0 \<notin> set (concat blocks)"
  shows "\<exists>t'. textframe_read t fd blocks = Some (0, t') \<and> wf_text t' \<and>
    lines t' = parse_rows False [] (concat blocks) \<and> cursor_row t' = 0 \<and> cursor_col t' = 0"
  using assms by (rule loaded_rows)

theorem textframe_read_rows_witness:
  "\<exists>t'. textframe_read (LineEdit_set_str []) 3 [lit ''ab'' @ [13], [10] @ lit ''c''] = Some (0, t') \<and> wf_text t' \<and>
    lines t' = [lit ''ab'', lit ''c''] \<and> cursor_row t' = 0 \<and> cursor_col t' = 0"
proof -
  have "0 \<notin> set (concat [lit ''ab'' @ [13], [10] @ lit ''c''])" "(0 :: int) \<le> 3" by code_simp+
  moreover have "parse_rows False [] (concat [lit ''ab'' @ [13], [10] @ lit ''c'']) = [lit ''ab'', lit ''c'']"
    by code_simp
  ultimately show ?thesis
    using textframe_read_rows[of 3 "[lit ''ab'' @ [13], [10] @ lit ''c'']" "LineEdit_set_str []"] by metis
qed

section \<open>Saving, and loading again\<close>

text \<open>
  The behaviour of \<^verbatim>\<open>write\<close> that saving relies on: it appends all the bytes it is given and returns
  their number.
\<close>

definition appends_all :: "write_call \<Rightarrow> bool" where
  "appends_all sys_write \<longleftrightarrow> (\<forall>f b. sys_write f b = (int (length b), f @ b))"

lemma write_rows_flat:
  assumes "appends_all w" "wf_text t" "i < length (lines t)"
  shows "write_rows w t (int i) f = Some (0, f @ flat (drop i (lines t)))"
  using assms(3)
proof (induction "length (lines t) - i" arbitrary: i f)
  case (Suc n)
  have row: "line_at t (int i) = Some (lines t ! i)" "int i < maxrow t"
    using Suc.prems assms(2) line_at_wf[OF assms(2), of "int i"] by auto
  have m: "maxrow t = int (length (lines t))" by (rule wf_text_fields(5)[OF assms(2)])
  show ?case
  proof (cases "Suc i < length (lines t)")
    case True
    have "write_rows w t (int i) f = write_rows w t (int (Suc i)) ((f @ lines t ! i) @ [10])"
      using row assms(1) True m by (subst write_rows.simps) (simp add: appends_all_def add.commute del: length_lines)
    also have "\<dots> = Some (0, ((f @ lines t ! i) @ [10]) @ flat (drop (Suc i) (lines t)))"
      using Suc.hyps(1)[of "Suc i"] Suc.hyps(2) True by simp
    finally show ?thesis
      using True Suc.prems by (simp add: Cons_nth_drop_Suc[symmetric, of i] flat_Cons del: length_lines)
  next
    case False
    then have "Suc i = length (lines t)" using Suc.prems by simp
    moreover have "drop i (lines t) = [lines t ! i]"
      using calculation by (metis Cons_nth_drop_Suc Suc.prems drop_all order_refl)
    ultimately show ?thesis
      using row assms(1) m write_rows.simps[of w t "int i" f] write_rows.simps[of w t "int i + 1" "f @ lines t ! i"]
      by (simp add: appends_all_def del: length_lines)
  qed
qed simp

lemma parse_line: "10 \<notin> set l \<Longrightarrow> 13 \<notin> set l \<Longrightarrow> parse_rows cr a (l @ cs) =
   (if l = [] then parse_rows cr a cs else parse_rows False (a @ l) cs)"
  by (induction l arbitrary: a cr) auto

lemma parse_flat:
  "L \<noteq> [] \<Longrightarrow> \<forall>l\<in>set L. 10 \<notin> set l \<and> 13 \<notin> set l \<Longrightarrow> parse_rows False [] (flat L) = L"
proof (induction L rule: flat.induct)
  case (2 l)
  then show ?case using parse_line[of l False "[]" "[]"] by (auto split: if_splits)
next
  case (3 l l' ls)
  then show ?case using parse_line[of l False "[]" "10 # flat (l' # ls)"] by (auto split: if_splits)
qed simp

lemma flat_no0: "0 \<in> set (flat L) \<Longrightarrow> \<exists>l\<in>set L. 0 \<in> set l"
  by (induction L rule: flat.induct) auto

text \<open>
  C4: saving a text and loading the file again, in blocks of any sizes, gives the same rows,
  for rows without carriage returns and newlines.
\<close>

theorem save_load_roundtrip:
  assumes "appends_all sys_write" "wf_text t" "list_all (\<lambda>l. 10 \<notin> set l \<and> 13 \<notin> set l) (lines t)" "0 \<le> fd" "0 \<le> fd'"
  shows "\<exists>t1 file. textframe_write sys_write t fd [] = Some (0, t1, file) \<and> lines t1 = lines t \<and>
    (\<forall>blocks. concat blocks = file \<longrightarrow>
      (\<exists>t2. textframe_read t0 fd' blocks = Some (0, t2) \<and> wf_text t2 \<and> lines t2 = lines t))"
proof -
  have ne: "lines t \<noteq> []" by (rule wf_text_fields(4)[OF assms(2)])
  then have "write_rows sys_write t 0 [] = Some (0, flat (lines t))"
    using write_rows_flat[OF assms(1,2), of 0 "[]"] by (simp del: length_lines)
  then have w: "textframe_write sys_write t fd [] = Some (0, t\<lparr>maxrow_capacity := maxrow t\<rparr>, flat (lines t))"
    using assms(4) by (simp add: textframe_write_def)
  have "\<exists>t2. textframe_read t0 fd' blocks = Some (0, t2) \<and> wf_text t2 \<and> lines t2 = lines t"
    if "concat blocks = flat (lines t)" for blocks
  proof -
    have p: "parse_rows False [] (concat blocks) = lines t"
      unfolding that using parse_flat[OF ne] assms(3) by (simp add: list_all_iff)
    have "0 \<notin> set (concat blocks)"
      unfolding that using flat_no0[of "lines t"] lines_no0[OF assms(2)] by blast
    from loaded_rows[OF assms(5) this, of t0] show ?thesis unfolding p by blast
  qed
  moreover have "lines (t\<lparr>maxrow_capacity := maxrow t\<rparr>) = lines t" by (simp add: lines_def)
  ultimately show ?thesis unfolding w by simp
qed

theorem save_load_roundtrip_witness:
  "\<exists>t1 file. textframe_write (\<lambda>f b. (int (length b), f @ b)) (LineEdit_set_str (lit ''hi'')) 3 [] = Some (0, t1, file) \<and>
    lines t1 = lines (LineEdit_set_str (lit ''hi'')) \<and>
    (\<forall>blocks. concat blocks = file \<longrightarrow>
      (\<exists>t2. textframe_read (LineEdit_set_str []) 4 blocks = Some (0, t2) \<and> wf_text t2 \<and>
         lines t2 = lines (LineEdit_set_str (lit ''hi''))))"
proof (rule save_load_roundtrip)
  show "appends_all (\<lambda>f b. (int (length b), f @ b))" by (simp add: appends_all_def)
qed code_simp+

end
