(* ===== verification/Text_Search.thy ===== *)
theory Text_Search
  imports Text_Spec
begin

text \<open>
  The search of the editor against its specification: the first occurrence at or after the
  cursor in text order, else the first occurrence in the text.
\<close>

definition occurs :: "cstring \<Rightarrow> cstring \<Rightarrow> nat \<Rightarrow> bool" where
  "occurs S str j \<longleftrightarrow> take (length str) (drop j S) = str"

text \<open>All positions of a text from row \<open>r\<close>, column \<open>c\<close> on, in text order.\<close>

definition row_positions :: "cstring list \<Rightarrow> nat \<Rightarrow> nat \<Rightarrow> (nat \<times> nat) list" where
  "row_positions L r c = map (Pair r) [c..<length (L ! r)]"

definition positions :: "cstring list \<Rightarrow> nat \<Rightarrow> nat \<Rightarrow> (nat \<times> nat) list" where
  "positions L r c = (if r < length L
     then row_positions L r c @ concat (map (\<lambda>i. row_positions L i 0) [Suc r..<length L]) else [])"

definition found_at :: "cstring list \<Rightarrow> cstring \<Rightarrow> nat \<times> nat \<Rightarrow> bool" where
  "found_at L str = (\<lambda>(i, j). occurs (L ! i) str j)"

section \<open>One column\<close>

lemma match_loop_spec:
  assumes "l < length str" "k \<le> length S"
  shows "\<exists>k' l'. match_loop S str (int k) (int l) = Some (k', l') \<and>
    (if take (length str - l) (drop k S) = drop l str
     then k' = int (k + (length str - l)) \<and> l' = strlen str \<and> S ! nat (k' - 1) = str ! (length str - 1)
     else l' = strlen str \<longrightarrow> 0 < k' \<and> k' \<le> strlen S \<and> S ! nat (k' - 1) \<noteq> str ! (length str - 1))"
  using assms
proof (induction "length str - l" arbitrary: k l)
  case (Suc n)
  show ?case
  proof (cases "k < length S")
    case False
    then have "match_loop S str (int k) (int l) = Some (int k, int l)"
      by (subst match_loop.simps) (simp add: strlen_def)
    moreover have "take (length str - l) (drop k S) \<noteq> drop l str" using False Suc.prems by auto
    ultimately show ?thesis using Suc.prems by (simp add: strlen_def)
  next
    case True
    have spl: "take (length str - l) (drop k S) = S ! k # take (length str - Suc l) (drop (Suc k) S)"
      "drop l str = str ! l # drop (Suc l) str"
      using True Suc.prems by (simp_all add: Cons_nth_drop_Suc[symmetric] take_Cons')
    show ?thesis
    proof (cases "S ! k = str ! l")
      case False
      then have "match_loop S str (int k) (int l) = Some (int k + 1, int l + 1)"
        using True Suc.prems by (subst match_loop.simps) (simp add: strlen_def)
      moreover have "l = length str - 1" if "int l + 1 = strlen str" using that by (auto simp: strlen_def)
      ultimately show ?thesis using False True spl Suc.prems by (auto simp: strlen_def)
    next
      case eq: True
      then have step: "match_loop S str (int k) (int l) = match_loop S str (int (Suc k)) (int (Suc l))"
        using True Suc.prems by (subst match_loop.simps) (simp add: strlen_def add.commute)
      show ?thesis
      proof (cases "Suc l < length str")
        case l: True
        have e: "(S ! k # X = str ! l # Y) = (X = Y)" "k + (length str - l) = Suc k + (length str - Suc l)" for X Y
          using eq l by auto
        show ?thesis unfolding step spl e
          by (rule Suc.hyps(1)) (use Suc.hyps(2) l True in auto)
      next
        case False
        then have l: "Suc l = length str" "l = length str - 1" using Suc.prems by auto
        then have "match_loop S str (int (Suc k)) (int (Suc l)) = Some (int (Suc k), int (Suc l))"
          by (subst match_loop.simps) (simp add: strlen_def)
        then show ?thesis unfolding step spl using eq l by (auto simp: strlen_def)
      qed
    qed
  qed
qed simp

section \<open>Columns, rows, and the whole text\<close>

lemma search_cols_spec:
  assumes "str \<noteq> []"
  shows "search_cols S str (int j) =
    Some (map_option (\<lambda>j. int (j + length str)) (find (occurs S str) [j..<length S]))"
proof (induction "length S - j" arbitrary: j)
  case 0
  then show ?case by (subst search_cols.simps) (simp add: strlen_def)
next
  case (Suc n)
  then have j: "j < length S" by simp
  have str: "0 < length str" using assms by simp
  obtain k l where kl: "match_loop S str (int j) 0 = Some (k, l)"
    "if occurs S str j
     then k = int (j + length str) \<and> l = strlen str \<and> S ! nat (k - 1) = str ! (length str - 1)
     else l = strlen str \<longrightarrow> 0 < k \<and> k \<le> strlen S \<and> S ! nat (k - 1) \<noteq> str ! (length str - 1)"
    using match_loop_spec[OF str less_imp_le[OF j], unfolded int_ops(1) diff_zero drop_0] unfolding occurs_def by blast
  have len: "occurs S str j \<Longrightarrow> j + length str \<le> length S"
    using j by (simp add: occurs_def) (metis length_drop length_take min.cobounded1 le_diff_conv2 less_imp_le add.commute)
  have nl: "nat (int (length str) - 1) = length str - 1" "1 \<le> int (length str)" using str by linarith+
  have "search_cols S str (int j) =
     (if occurs S str j then Some (Some (int (j + length str))) else search_cols S str (int (Suc j)))"
  proof (cases "occurs S str j")
    case True
    with kl have k: "k = int (j + length str)" "l = strlen str" "S ! nat (k - 1) = str ! (length str - 1)" by auto
    have "rd S (k - 1) = Some (S ! nat (k - 1))" "rd str (l - 1) = Some (str ! (length str - 1))"
      using k(1,2) len[OF True] nl assms by (simp_all add: rd_def strlen_def)
    with True k kl(1) j show ?thesis by (subst search_cols.simps) (simp add: strlen_def)
  next
    case False
    show ?thesis
    proof (cases "l = strlen str")
      case l: True
      with False kl(2) have "0 < k" "k \<le> strlen S" "S ! nat (k - 1) \<noteq> str ! (length str - 1)" by auto
      moreover from this have "rd S (k - 1) = Some (S ! nat (k - 1))" "rd str (l - 1) = Some (str ! (length str - 1))"
        using l nl assms by (simp_all add: rd_def strlen_def)
      ultimately show ?thesis using False l kl(1) j by (subst search_cols.simps) (simp add: strlen_def add.commute)
    next
      case l: False
      then show ?thesis using False kl(1) j by (subst search_cols.simps) (simp add: strlen_def add.commute)
    qed
  qed
  also have "\<dots> = Some (map_option (\<lambda>j. int (j + length str)) (find (occurs S str) [j..<length S]))"
    using Suc.hyps(1)[of "Suc j"] Suc.hyps(2) j by (simp add: upt_conv_Cons)
  finally show ?case .
qed

lemma find_append: "find P (xs @ ys) = (case find P xs of Some x \<Rightarrow> Some x | None \<Rightarrow> find P ys)"
  by (induction xs) auto

lemma find_row:
  "find (found_at L str) (row_positions L r c) = map_option (Pair r) (find (occurs (L ! r) str) [c..<length (L ! r)])"
proof -
  have "find (found_at L str) (map (Pair r) xs) = map_option (Pair r) (find (occurs (L ! r) str) xs)" for xs
    by (induction xs) (auto simp: found_at_def)
  then show ?thesis by (simp add: row_positions_def)
qed

lemma positions_step:
  "r < length L \<Longrightarrow> positions L r c = row_positions L r c @ positions L (Suc r) 0"
  by (auto simp: positions_def upt_conv_Cons)

text \<open>The cursor the code sets for an occurrence at \<open>(i, j)\<close>: after it.\<close>

definition after_match :: "textframe \<Rightarrow> cstring \<Rightarrow> nat \<times> nat \<Rightarrow> textframe" where
  "after_match t str = (\<lambda>(i, j). t\<lparr>cursor_row := int i, cursor_col := int (j + length str)\<rparr>)"

lemma search_rows_spec:
  assumes "wf_text t" "str \<noteq> []" "cursor_row t \<le> int i" "0 \<le> cursor_col t"
  shows "search_rows t str (int i) = Some (map_option (after_match t str)
     (find (found_at (lines t) str) (positions (lines t) i (if int i = cursor_row t then nat (cursor_col t) else 0))))"
  using assms(3)
proof (induction "length (lines t) - i" arbitrary: i)
  case 0
  then have "maxrow t \<le> int i" using assms(1) by simp
  with 0 show ?case by (subst search_rows.simps) (simp add: positions_def)
next
  case (Suc n)
  then have i: "i < length (lines t)" by simp
  let ?c = "if int i = cursor_row t then nat (cursor_col t) else 0"
  have row: "line_at t (int i) = Some (lines t ! i)" "int i < maxrow t"
    using i assms(1) line_at_wf[OF assms(1), of "int i"] by auto
  have c: "(if int i = cursor_row t then cursor_col t else 0) = int ?c" using assms(4) by simp
  have ih: "search_rows t str (int i + 1) = Some (map_option (after_match t str)
     (find (found_at (lines t) str) (positions (lines t) (Suc i) 0)))"
    using Suc.hyps(1)[of "Suc i"] Suc.hyps(2) Suc.prems i by (simp add: add.commute)
  show ?case
    unfolding positions_step[OF i] find_append find_row
    by (subst search_rows.simps, unfold c search_cols_spec[OF assms(2)] row(1) ih)
      (simp add: row(2) after_match_def split: option.splits)
qed

text \<open>
  C5: \<open>Search\<close> returns 0 with the cursor after the first occurrence at or after the old cursor,
  else 1 with the cursor after the first occurrence in the text, else \<open>-1\<close> and the cursor as it was.
\<close>

theorem Search_first_occurrence:
  assumes "wf_text t" "cursor_in t" "str \<noteq> []"
  defines "occ \<equiv> \<lambda>r c. find (found_at (lines t) str) (positions (lines t) r c)"
  shows "Search t str = Some (case occ (nat (cursor_row t)) (nat (cursor_col t)) of
      Some p \<Rightarrow> (0, after_match t str p)
    | None \<Rightarrow> (case occ 0 0 of Some p \<Rightarrow> (1, after_match t str p) | None \<Rightarrow> (-1, t)))"
proof -
  note c = cursor_inD[OF assms(1,2)]
  have rows: "search_rows t str (cursor_row t) =
      Some (map_option (after_match t str) (occ (nat (cursor_row t)) (nat (cursor_col t))))"
    using search_rows_spec[OF assms(1,3), of "nat (cursor_row t)"] c(1,4) by (simp add: occ_def)
  let ?t0 = "t\<lparr>cursor_row := 0, cursor_col := 0\<rparr>"
  have "search_rows ?t0 str 0 = Some (map_option (after_match ?t0 str) (occ 0 0))"
    using search_rows_spec[of ?t0 str 0] assms(1,3) by (simp add: occ_def)
  then have t0: "Search ?t0 str = Some (case occ 0 0 of Some p \<Rightarrow> (0, after_match t str p) | None \<Rightarrow> (-1, ?t0))"
    by (subst Search.simps) (auto simp: after_match_def split: option.splits)
  show ?thesis
  proof (cases "cursor_row t = 0 \<and> cursor_col t = 0")
    case True
    then have "?t0 = t" by simp
    with t0 True show ?thesis by (auto split: option.splits)
  next
    case False
    then show ?thesis
      using t0 rows by (subst Search.simps) (auto split: option.splits)
  qed
qed

theorem Search_first_occurrence_witness:
  "Search (LineEdit_set_str (lit ''abcab'')) (lit ''ab'') =
     Some (0, (LineEdit_set_str (lit ''abcab''))\<lparr>cursor_col := 2\<rparr>)"
proof -
  let ?t = "LineEdit_set_str (lit ''abcab'')"
  have "wf_text ?t" "cursor_in ?t" "lit ''ab'' \<noteq> []" by code_simp+
  from Search_first_occurrence[OF this]
  have "Search ?t (lit ''ab'') = Some (case find (found_at (lines ?t) (lit ''ab'')) (positions (lines ?t)
       (nat (cursor_row ?t)) (nat (cursor_col ?t))) of Some p \<Rightarrow> (0, after_match ?t (lit ''ab'') p)
     | None \<Rightarrow> (case find (found_at (lines ?t) (lit ''ab'')) (positions (lines ?t) 0 0) of
         Some p \<Rightarrow> (1, after_match ?t (lit ''ab'') p) | None \<Rightarrow> (-1, ?t)))" .
  moreover have "find (found_at (lines ?t) (lit ''ab'')) (positions (lines ?t)
       (nat (cursor_row ?t)) (nat (cursor_col ?t))) = Some (0, 0)" by code_simp
  moreover have "after_match ?t (lit ''ab'') (0, 0) = ?t\<lparr>cursor_col := 2\<rparr>" by code_simp
  ultimately show ?thesis by simp
qed

text \<open>An empty search string makes the comparison read before the start of both strings.\<close>

lemma search_empty_fault: "Search (LineEdit_set_str (lit ''abc'')) [] = None"
  by code_simp

end
