(* ===== verification/Widgets.thy ===== *)
theory Widgets
  imports Textframe
begin

text \<open>
  The text widgets of the editor (src/src/Gui.c): areas and mouse coordinates, the multi-line
  \<open>TextEdit\<close> with its selection, and the one-line \<open>LineEdit\<close>. A widget is a record with the
  fields of the C struct that the handlers use; pointers to its text are the text itself, since
  every widget owns its text. The clipboard of the buffer manager, which the handlers reach
  through the parents of a widget, is passed and returned.
\<close>

section \<open>Areas\<close>

record area =
  area_x :: int
  area_y :: int
  area_width :: int
  area_height :: int
  offset_x :: int
  offset_y :: int

definition Area :: "int \<Rightarrow> int \<Rightarrow> int \<Rightarrow> int \<Rightarrow> int \<Rightarrow> int \<Rightarrow> area" where
  "Area x y w h ox oy = \<lparr>area_x = x, area_y = y, area_width = w, area_height = h, offset_x = ox, offset_y = oy\<rparr>"

definition mouse_pos_transform :: "area \<Rightarrow> int \<Rightarrow> int \<Rightarrow> int \<times> int" where
  "mouse_pos_transform cur_area x y =
     (x - (area_x cur_area - offset_x cur_area), y - (area_y cur_area - offset_y cur_area))"

definition is_pos_in_area :: "area \<Rightarrow> int \<Rightarrow> int \<Rightarrow> bool" where
  "is_pos_in_area cur_area x y \<longleftrightarrow> x \<ge> area_x cur_area \<and> y \<ge> area_y cur_area \<and>
     x < area_x cur_area + area_width cur_area \<and> y < area_y cur_area + area_height cur_area"

definition calc_current_area :: "area \<Rightarrow> area \<Rightarrow> area" where
  "calc_current_area parent_area area =
     (let px = area_x parent_area + (area_x area - offset_x parent_area);
          py = area_y parent_area + (area_y area - offset_y parent_area);
          w = area_width parent_area - (area_x area - offset_x parent_area);
          h = area_height parent_area - (area_y area - offset_y parent_area);
          w = (if w > area_width area then area_width area else w);
          w = (if area_x area - offset_x parent_area < 0 then 0 else w);
          h = (if area_y area - offset_y parent_area < 0 then 0 else h);
          h = (if h > area_height area then area_height area else h)
      in \<lparr>area_x = px, area_y = py, area_width = w, area_height = h,
          offset_x = offset_x area, offset_y = offset_y area\<rparr>)"

section \<open>TextEdit\<close>

record text_edit =
  te_area :: area
  te_text :: textframe
  has_parent :: bool
  point1_row :: int
  point1_col :: int
  point2_row :: int
  point2_col :: int
  selecting :: int
  highlight_on :: int
  scale :: int

definition TextEdit_adjust_col_row :: "text_edit \<Rightarrow> text_edit" where
  "TextEdit_adjust_col_row e =
     (let r1 = point1_row e; c1 = point1_col e; r2 = point2_row e; c2 = point2_col e
      in if r2 < r1 \<or> (r2 = r1 \<and> c2 < c1)
         then e\<lparr>point1_row := r2, point1_col := c2, point2_row := r1, point2_col := c1\<rparr>
         else e)"

text \<open>\<open>mem\<close> is what \<^verbatim>\<open>malloc\<close> returned: the fields that are not assigned keep its contents.\<close>

definition make_TextEdit :: "text_edit \<Rightarrow> bool \<Rightarrow> text_edit" where
  "make_TextEdit mem parent =
     mem\<lparr>te_area := Area 0 0 100 16 0 0, has_parent := parent, point1_col := -1, point1_row := -1,
         point2_col := -1, point2_row := -1, te_text := LineEdit_set_str []\<rparr>"

text \<open>C division truncates, and traps on a zero divisor.\<close>

definition cdiv :: "int \<Rightarrow> int \<Rightarrow> int option" where
  "cdiv a b = (if b = 0 then None else Some (sgn a * sgn b * (\<bar>a\<bar> div \<bar>b\<bar>)))"

definition font_width :: "text_edit \<Rightarrow> int" where
  "font_width e = (if scale e < 0 then 8 div 2 ^ nat (- scale e) else if scale e > 0 then 8 * 2 ^ nat (scale e) else 8)"

definition font_height :: "text_edit \<Rightarrow> int" where
  "font_height e = (if scale e < 0 then 16 div 2 ^ nat (- scale e) else if scale e > 0 then 16 * 2 ^ nat (scale e) else 16)"

text \<open>Message types, in the order of the enumeration in defs.h and user.h.\<close>

definition KEYBOARD :: int where "KEYBOARD = 0"
definition MOUSE_LEFT_PRESS :: int where "MOUSE_LEFT_PRESS = 1"
definition MOUSE_LEFT_RELEASE :: int where "MOUSE_LEFT_RELEASE = 2"
definition MOUSE_RIGHT_PRESS :: int where "MOUSE_RIGHT_PRESS = 3"
definition MOUSE_RIGHT_RELEASE :: int where "MOUSE_RIGHT_RELEASE = 4"
definition MOUSE_MOVE :: int where "MOUSE_MOVE = 5"

lemmas msg_types = KEYBOARD_def MOUSE_LEFT_PRESS_def MOUSE_LEFT_RELEASE_def MOUSE_RIGHT_PRESS_def
  MOUSE_RIGHT_RELEASE_def MOUSE_MOVE_def

text \<open>
  The second component tells whether the handler took the focus (the assignments to
  \<^verbatim>\<open>cursor_focus\<close> and \<^verbatim>\<open>cursor_focus_type\<close>).
\<close>

definition handle_mouse_TextEdit :: "text_edit \<Rightarrow> int \<Rightarrow> int \<Rightarrow> int \<Rightarrow> (text_edit \<times> bool) option" where
  "handle_mouse_TextEdit e x y mouse_opt = (if mouse_opt = MOUSE_MOVE \<and> selecting e = 0 then Some (e, False) else do {
     let (x, y) = mouse_pos_transform (te_area e) x y;
     r \<leftarrow> cdiv y (font_height e);
     c \<leftarrow> cdiv x (font_width e);
     let focus = (mouse_opt \<noteq> MOUSE_MOVE);
     text \<leftarrow> (if focus then move_to_pos (te_text e) r c else Some (te_text e));
     let e = e\<lparr>te_text := text\<rparr>;
     Some (
       (if mouse_opt = MOUSE_LEFT_PRESS
        then e\<lparr>point1_row := r, point1_col := c, point2_row := -1, point2_col := -1, selecting := 1\<rparr>
        else if mouse_opt = MOUSE_MOVE \<or> mouse_opt = MOUSE_LEFT_RELEASE then
          if selecting e = 0 then e
          else
            let e = (if point1_row e = r \<and> point1_col e = c then e
                     else
                       let e = e\<lparr>point2_row := r, point2_col := c\<rparr>;
                           e = (if point1_row e \<ge> maxrow (te_text e)
                                then e\<lparr>point1_row := maxrow (te_text e) - 1\<rparr> else e);
                           e = (if point2_row e \<ge> maxrow (te_text e)
                                then e\<lparr>point2_row := maxrow (te_text e) - 1\<rparr> else e)
                       in e)
            in if mouse_opt = MOUSE_LEFT_RELEASE then e\<lparr>selecting := 0\<rparr> else e
        else e\<lparr>selecting := 0\<rparr>), focus) })"

subsection \<open>Keys\<close>

definition CTRL_C :: int where "CTRL_C = 3"
definition CTRL_F :: int where "CTRL_F = 6"
definition BACKSPACE :: int where "BACKSPACE = 8"
definition TAB :: int where "TAB = 9"
definition ENTER :: int where "ENTER = 10"
definition CTRL_P :: int where "CTRL_P = 16"
definition CTRL_S :: int where "CTRL_S = 19"
definition CTRL_V :: int where "CTRL_V = 22"
definition CTRL_X :: int where "CTRL_X = 24"
definition UP_ARROW :: int where "UP_ARROW = 226"
definition DOWN_ARROW :: int where "DOWN_ARROW = 227"
definition LEFT_ARROW :: int where "LEFT_ARROW = 228"
definition RIGHT_ARROW :: int where "RIGHT_ARROW = 229"
definition DELETE :: int where "DELETE = 233"

lemmas keys = CTRL_C_def CTRL_F_def BACKSPACE_def TAB_def ENTER_def CTRL_P_def CTRL_S_def CTRL_V_def
  CTRL_X_def UP_ARROW_def DOWN_ARROW_def LEFT_ARROW_def RIGHT_ARROW_def DELETE_def

text \<open>
  The sequence that replaces the text by the text without the selection and puts the cursor at
  its start; \<^verbatim>\<open>text = textframe_delete(...); edit->text = text; move_to_pos(...)\<close>.
\<close>

definition delete_selection :: "text_edit \<Rightarrow> text_edit option" where
  "delete_selection e = do {
     text \<leftarrow> textframe_delete (te_text e) (point1_row e) (point1_col e) (point2_row e) (point2_col e);
     text \<leftarrow> move_to_pos text (point1_row e) (point1_col e);
     Some (e\<lparr>te_text := text\<rparr>) }"

definition no_selection :: "text_edit \<Rightarrow> text_edit" where
  "no_selection e = e\<lparr>point2_col := -1, point2_row := -1\<rparr>"

definition on_text :: "(textframe \<Rightarrow> textframe option) \<Rightarrow> text_edit \<Rightarrow> text_edit option" where
  "on_text f e = do { text \<leftarrow> f (te_text e); Some (e\<lparr>te_text := text\<rparr>) }"

definition key_enter :: "text_edit \<Rightarrow> text_edit option" where
  "key_enter e = do {
     e \<leftarrow> (if point2_col e \<noteq> -1 then map_option no_selection (delete_selection (TextEdit_adjust_col_row e))
           else Some e);
     on_text new_line_to_editor e }"

definition key_left_backspace :: "text_edit \<Rightarrow> int \<Rightarrow> text_edit option" where
  "key_left_backspace e c = do {
     e \<leftarrow> (if point2_col e = -1 \<and> c = LEFT_ARROW then on_text move_to_previous_char e else Some e);
     e \<leftarrow> (if c = BACKSPACE then
             if point2_col e = -1 then
               if cursor_col (te_text e) > 0
               then do { e \<leftarrow> on_text move_to_previous_char e; on_text backspace_to_str e }
               else on_text move_cur_line_to_prev_line e
             else delete_selection (TextEdit_adjust_col_row e)
           else Some e);
     Some (no_selection e) }"

definition key_right :: "text_edit \<Rightarrow> text_edit option" where
  "key_right e = do {
     e \<leftarrow> (if point2_col e \<noteq> -1
           then map_option no_selection (on_text (\<lambda>t. move_to_pos t (point2_row e) (point2_col e)) e)
           else Some e);
     on_text move_to_next_char e }"

definition key_copy :: "text_edit \<Rightarrow> textframe option \<Rightarrow> (text_edit \<times> textframe option) option" where
  "key_copy e clipBoard =
     (if point2_col e \<noteq> -1 \<and> has_parent e then
        let e = TextEdit_adjust_col_row e in do {
          clip \<leftarrow> textframe_extract (te_text e) (point1_row e) (point1_col e) (point2_row e) (point2_col e);
          Some (e, Some clip) }
      else Some (e, clipBoard))"

definition key_paste :: "text_edit \<Rightarrow> textframe option \<Rightarrow> text_edit option" where
  "key_paste e clipBoard =
     (if \<not> has_parent e then Some e
      else case clipBoard of None \<Rightarrow> Some e
      | Some clip \<Rightarrow> do {
          e \<leftarrow> (if point2_col e \<noteq> -1
                then map_option no_selection (delete_selection (TextEdit_adjust_col_row e)) else Some e);
          let start_row = cursor_row (te_text e);
          let start_col = cursor_col (te_text e);
          let e = e\<lparr>point1_row := start_row, point1_col := start_col\<rparr>;
          on_text (\<lambda>t. textframe_insert t clip start_row start_col) e })"

text \<open>Printable characters; the selection is deleted without putting its ends in order first.\<close>

definition key_char :: "text_edit \<Rightarrow> int \<Rightarrow> text_edit option" where
  "key_char e c =
     (if 32 \<le> c \<and> c \<le> 126 then do {
        e \<leftarrow> (if point2_col e \<noteq> -1 then map_option no_selection (delete_selection e) else Some e);
        e \<leftarrow> on_text (\<lambda>t. putc_to_str t (word_of_int c)) e;
        on_text move_to_next_char e }
      else Some e)"

definition handle_keyboard_TextEdit ::
  "text_edit \<Rightarrow> textframe option \<Rightarrow> int \<Rightarrow> (text_edit \<times> textframe option) option" where
  "handle_keyboard_TextEdit e clipBoard c =
     (let keep = map_option (\<lambda>e. (e, clipBoard)) in
      if c = ENTER then keep (key_enter e)
      else if c = LEFT_ARROW \<or> c = BACKSPACE then keep (key_left_backspace e c)
      else if c = RIGHT_ARROW then keep (key_right e)
      else if c = UP_ARROW then keep (on_text move_to_last_line (no_selection e))
      else if c = DOWN_ARROW then keep (on_text move_to_next_line (no_selection e))
      else if c = CTRL_C then key_copy e clipBoard
      else if c = CTRL_V then keep (key_paste e clipBoard)
      else if c = CTRL_X then do {
        (e, clipBoard) \<leftarrow> (if point2_col e \<noteq> -1 then do {
            (e, clipBoard) \<leftarrow> key_copy e clipBoard;
            e \<leftarrow> key_left_backspace e BACKSPACE;
            Some (e, clipBoard) }
          else Some (e, clipBoard));
        map_option (\<lambda>e. (e, clipBoard)) (key_char e c) }
      else keep (key_char e c))"

section \<open>LineEdit\<close>

record line_edit =
  le_area :: area
  le_text :: textframe

definition make_LineEdit :: line_edit where
  "make_LineEdit = \<lparr>le_area = Area 0 0 100 16 0 0, le_text = LineEdit_set_str []\<rparr>"

definition on_line :: "(textframe \<Rightarrow> textframe option) \<Rightarrow> line_edit \<Rightarrow> line_edit option" where
  "on_line f e = do { text \<leftarrow> f (le_text e); Some (e\<lparr>le_text := text\<rparr>) }"

definition handle_mouse_LineEdit :: "line_edit \<Rightarrow> int \<Rightarrow> int \<Rightarrow> int \<Rightarrow> line_edit option" where
  "handle_mouse_LineEdit e x y mouse_opt =
     (let (x, y) = mouse_pos_transform (le_area e) x y
      in do { r \<leftarrow> cdiv y 16; c \<leftarrow> cdiv x 8; on_line (\<lambda>t. move_to_pos t r c) e })"

definition handle_keyboard_LineEdit :: "line_edit \<Rightarrow> int \<Rightarrow> line_edit option" where
  "handle_keyboard_LineEdit e c =
     (if c = LEFT_ARROW \<or> c = BACKSPACE then do {
        e \<leftarrow> on_line move_to_previous_char e;
        if c = BACKSPACE then on_line backspace_to_str e else Some e }
      else if c = RIGHT_ARROW then on_line move_to_next_char e
      else if 32 \<le> c \<and> c \<le> 126 then do {
        e \<leftarrow> on_line (\<lambda>t. putc_to_str t (word_of_int c)) e;
        on_line move_to_next_char e }
      else Some e)"

end
