(* ===== verification/Widget_Spec.thy ===== *)
theory Widget_Spec
  imports Widgets Text_Cut
begin

text \<open>
  What the keyboard and mouse handlers of the text widgets guarantee: no key makes an access out
  of bounds and the cursor stays inside the text, typing inserts what is typed, and the
  erasing keys undo the inserting ones.
\<close>

section \<open>The invariant of an edit\<close>

definition edit_ok :: "text_edit \<Rightarrow> bool" where
  "edit_ok e \<longleftrightarrow> text_ok (te_text e) \<and> -1 \<le> point1_row e \<and> -1 \<le> point2_row e"

definition clip_ok :: "textframe option \<Rightarrow> bool" where
  "clip_ok clip = (case clip of None \<Rightarrow> True | Some c \<Rightarrow> wf_text c)"

definition keeps_edit :: "(text_edit \<Rightarrow> text_edit option) \<Rightarrow> bool" where
  "keeps_edit f \<longleftrightarrow> (\<forall>e. edit_ok e \<longrightarrow> (\<exists>e'. f e = Some e' \<and> edit_ok e'))"

lemma keeps_edit_on_text: "keeps_text f \<Longrightarrow> keeps_edit (on_text f)"
  by (force simp: keeps_edit_def keeps_text_def on_text_def edit_ok_def)

lemma edit_ok_adjust: "edit_ok e \<Longrightarrow> edit_ok (TextEdit_adjust_col_row e)"
  by (simp add: edit_ok_def TextEdit_adjust_col_row_def Let_def)

lemma edit_ok_no_selection: "edit_ok e \<Longrightarrow> edit_ok (no_selection e)"
  by (simp add: edit_ok_def no_selection_def)

lemma delete_selection_ok: "keeps_edit delete_selection"
  unfolding keeps_edit_def
proof (intro allI impI)
  fix e assume e: "edit_ok e"
  then obtain t where t: "textframe_delete (te_text e) (point1_row e) (point1_col e) (point2_row e) (point2_col e) = Some t"
      "wf_text t" "cursor_ok t"
    using textframe_delete_safe by (metis edit_ok_def text_ok_def)
  then have "text_ok t" by (simp add: text_ok_def)
  then obtain t' where "move_to_pos t (point1_row e) (point1_col e) = Some t'" "text_ok t'"
    using keeps_textE[OF keeps_text_moves(5)] e unfolding edit_ok_def by blast
  with t e show "\<exists>e'. delete_selection e = Some e' \<and> edit_ok e'"
    by (simp add: delete_selection_def edit_ok_def)
qed

lemma textframe_insert_ok:
  assumes "wf_text t" "wf_text u" "0 \<le> r"
  shows "\<exists>t'. textframe_insert t u r c = Some t' \<and> text_ok t'"
proof -
  define q where "q = nat (min r (maxrow t - 1))"
  define c' where "c' = nat (snap (lines t ! q) c 1)"
  let ?I = "inserted_rows (lines t) (lines u) q c'"
  have q: "q < length (lines t)" using assms(1,3) wf_text_fields(1)[OF assms(1)] by (auto simp: q_def)
  have c': "c' \<le> length (lines t ! q)" using snap_ok(1,2)[of 1 "lines t ! q" c] by (auto simp: c'_def strlen_def)
  have u: "lines u \<noteq> []" by (rule wf_text_fields(4)[OF assms(2)])
  obtain t' where t': "textframe_insert t u r c = Some t'" "data t' = map Some ?I" "maxrow t' = int (length ?I)"
     "maxrow_capacity t' = 0" "cursor_row t' = int (q + length (lines u) - 1)"
     "cursor_col t' = strlen (last (lines u)) + (if length (lines u) = 1 then int c' else 0)"
    using textframe_insert_closed[OF assms(1,2,3) q_def, of c] by (simp add: c'_def)
  have no0: "0 \<notin> set x" if "x \<in> set ?I" for x
  proof -
    have "hd (lines u) \<in> set (lines u)" "last (lines u) \<in> set (lines u)" "lines t ! q \<in> set (lines t)"
      "set (butlast (tl (lines u))) \<subseteq> set (lines u)"
      using u q by (auto dest: in_set_butlastD list.set_sel(2))
    then show ?thesis
      using that lines_no0[OF assms(1)] lines_no0[OF assms(2)]
      by (auto simp: inserted_rows_def dest!: in_set_takeD in_set_dropD split: if_splits)
  qed
  have ne: "?I \<noteq> []" by (simp add: inserted_rows_def)
  have w: "wf_text t'" "lines t' = ?I"
    using wf_rowsI[of t' ?I "[]"] t' ne no0 by auto
  have len: "length ?I = length (lines t) + length (lines u) - 1" using q u by (rule length_inserted_rows)
  have "cursor_in t'"
  proof (cases "length (lines u) = 1")
    case True
    then have "last (lines u) = hd (lines u)" by (cases "lines u") auto
    with True show ?thesis
      using w t' len q c' inserted_rows_nth(1)[OF q u True] by (simp add: cursor_in_def strlen_def)
  next
    case False
    then have gt: "length (lines u) > 1" using u by (cases "lines u") auto
    then have "nat (cursor_row t') = q + length (lines u) - 1" "cursor_row t' < maxrow t'"
      using t'(3,5) len q by auto
    then show ?thesis
      using w(2) t'(5,6) inserted_rows_nth(4)[OF q u gt, of c'] False by (simp add: cursor_in_def strlen_def)
  qed
  then show ?thesis using t'(1) w(1) by (simp add: text_ok_def)
qed

section \<open>Every key is safe\<close>

lemma keeps_editE:
  assumes "keeps_edit f" "edit_ok e"
  obtains e' where "f e = Some e'" "edit_ok e'"
  using assms by (auto simp: keeps_edit_def)

lemma keeps_edit_bind:
  assumes "keeps_edit f" "keeps_edit g"
  shows "keeps_edit (\<lambda>e. do { e \<leftarrow> f e; g e })"
  using assms by (force simp: keeps_edit_def)

lemma keeps_edit_if: "keeps_edit f \<Longrightarrow> keeps_edit g \<Longrightarrow> keeps_edit (\<lambda>e. if P e then f e else g e)"
  by (simp add: keeps_edit_def)

lemma keeps_edit_cond: "(P \<Longrightarrow> keeps_edit f) \<Longrightarrow> keeps_edit g \<Longrightarrow> keeps_edit (\<lambda>e. if P then f e else g e)"
  by (cases P) simp_all

lemma keeps_edit_Some: "keeps_edit Some"
  by (simp add: keeps_edit_def)

lemma keeps_edit_sorted_delete: "keeps_edit (\<lambda>e. delete_selection (TextEdit_adjust_col_row e))"
  using delete_selection_ok edit_ok_adjust by (simp add: keeps_edit_def)

lemma keeps_edit_no_selection: "keeps_edit f \<Longrightarrow> keeps_edit (\<lambda>e. map_option no_selection (f e))"
  by (force simp: keeps_edit_def intro: edit_ok_no_selection)

lemma keeps_edit_then_no_selection: "keeps_edit f \<Longrightarrow> keeps_edit (\<lambda>e. do { e \<leftarrow> f e; Some (no_selection e) })"
  by (force simp: keeps_edit_def intro: edit_ok_no_selection)

lemma keeps_edit_goto_point2: "keeps_edit (\<lambda>e. on_text (\<lambda>t. move_to_pos t (point2_row e) (point2_col e)) e)"
  unfolding keeps_edit_def
  using keeps_edit_on_text[OF keeps_text_moves(5)] by (metis edit_ok_def keeps_edit_def)

lemmas keeps_edit_rules = keeps_edit_bind keeps_edit_if keeps_edit_Some keeps_edit_sorted_delete
  keeps_edit_no_selection keeps_edit_then_no_selection keeps_edit_goto_point2 delete_selection_ok
  keeps_edit_on_text keeps_text_ops

lemma key_enter_ok: "keeps_edit key_enter"
  unfolding key_enter_def by (intro keeps_edit_rules)

lemma key_left_backspace_ok: "keeps_edit (\<lambda>e. key_left_backspace e c)"
  unfolding key_left_backspace_def by (intro keeps_edit_rules)

lemma key_right_ok: "keeps_edit key_right"
  unfolding key_right_def by (intro keeps_edit_rules)

lemma printable_byte: "32 \<le> c \<Longrightarrow> c \<le> 126 \<Longrightarrow> (word_of_int c :: byte) \<noteq> 0 \<and> (word_of_int c :: byte) < 160"
  by (simp add: word_less_alt uint_word_of_int word_uint_eq_iff take_bit_eq_mod)

lemma key_char_ok: "keeps_edit (\<lambda>e. key_char e c)"
  using printable_byte[of c] unfolding key_char_def
  by (intro keeps_edit_cond keeps_edit_rules) auto

lemma paste_at_cursor_ok:
  "wf_text u \<Longrightarrow> keeps_edit (\<lambda>e. on_text (\<lambda>t. textframe_insert t u (cursor_row (te_text e)) (cursor_col (te_text e)))
     (e\<lparr>point1_row := cursor_row (te_text e), point1_col := cursor_col (te_text e)\<rparr>))"
  unfolding keeps_edit_def
proof (intro allI impI)
  fix e assume u: "wf_text u" and e: "edit_ok e"
  then have t: "wf_text (te_text e)" "0 \<le> cursor_row (te_text e)"
    by (auto simp: edit_ok_def text_ok_def cursor_in_def)
  from textframe_insert_ok[OF t(1) u t(2), of "cursor_col (te_text e)"] t(2) e
  show "\<exists>e'. on_text (\<lambda>t. textframe_insert t u (cursor_row (te_text e)) (cursor_col (te_text e)))
     (e\<lparr>point1_row := cursor_row (te_text e), point1_col := cursor_col (te_text e)\<rparr>) = Some e' \<and> edit_ok e'"
    by (auto simp: on_text_def edit_ok_def)
qed

lemma key_paste_ok: "clip_ok clip \<Longrightarrow> keeps_edit (\<lambda>e. key_paste e clip)"
  unfolding key_paste_def Let_def
  by (cases clip) (auto simp: clip_ok_def intro!: keeps_edit_rules paste_at_cursor_ok)

text \<open>The keys other than copy and cut; these two read the row after a selection that ends the text.\<close>

lemma handle_keyboard_TextEdit_ok:
  assumes "edit_ok e" "clip_ok clip" "c \<noteq> CTRL_C" "c \<noteq> CTRL_X"
  shows "\<exists>e'. handle_keyboard_TextEdit e clip c = Some (e', clip) \<and> edit_ok e'"
proof -
  have "keeps_edit (\<lambda>e. if c = ENTER then key_enter e
      else if c = LEFT_ARROW \<or> c = BACKSPACE then key_left_backspace e c
      else if c = RIGHT_ARROW then key_right e
      else if c = UP_ARROW then on_text move_to_last_line (no_selection e)
      else if c = DOWN_ARROW then on_text move_to_next_line (no_selection e)
      else if c = CTRL_V then key_paste e clip else key_char e c)" (is "keeps_edit ?f")
    using assms(2) keeps_edit_on_text[OF keeps_text_moves(4)] keeps_edit_on_text[OF keeps_text_moves(3)]
    by (intro keeps_edit_if key_enter_ok key_left_backspace_ok key_right_ok key_paste_ok key_char_ok)
      (simp_all add: keeps_edit_def edit_ok_no_selection)
  moreover have "handle_keyboard_TextEdit e clip c = map_option (\<lambda>e. (e, clip)) (?f e)"
    using assms(3,4) by (simp add: handle_keyboard_TextEdit_def)
  ultimately show ?thesis using assms(1) by (force elim: keeps_editE)
qed

fun run_keys :: "text_edit \<Rightarrow> textframe option \<Rightarrow> int list \<Rightarrow> (text_edit \<times> textframe option) option" where
  "run_keys e clip [] = Some (e, clip)"
| "run_keys e clip (c # cs) = do { (e, clip) \<leftarrow> handle_keyboard_TextEdit e clip c; run_keys e clip cs }"

text \<open>
  C6: whatever keys are pressed (copy and cut apart), the handler of the text edit makes no
  access out of bounds, and the text stays well-formed with the cursor inside of it.
\<close>

theorem run_keys_safe:
  assumes "edit_ok e" "clip_ok clip" "CTRL_C \<notin> set ks" "CTRL_X \<notin> set ks"
  shows "\<exists>e'. run_keys e clip ks = Some (e', clip) \<and> edit_ok e'"
  using assms
proof (induction ks arbitrary: e)
  case (Cons c cs)
  then obtain e' where "handle_keyboard_TextEdit e clip c = Some (e', clip)" "edit_ok e'"
    using handle_keyboard_TextEdit_ok[of e clip c] by auto
  with Cons show ?case by auto
qed simp

definition new_edit :: text_edit where
  "new_edit = make_TextEdit \<lparr>te_area = Area 0 0 0 0 0 0, te_text = LineEdit_set_str [], has_parent = True,
     point1_row = 0, point1_col = 0, point2_row = 0, point2_col = 0, selecting = 0, highlight_on = 0, scale = 0\<rparr> True"

theorem run_keys_safe_witness:
  "\<exists>e'. run_keys new_edit (Some two_rows) [104, ENTER, BACKSPACE, UP_ARROW, CTRL_V, LEFT_ARROW, 105, DOWN_ARROW]
     = Some (e', Some two_rows) \<and> edit_ok e'"
  by (rule run_keys_safe; code_simp)

section \<open>Typing\<close>

text \<open>One printable character without a selection.\<close>

definition typed :: "textframe \<Rightarrow> byte \<Rightarrow> textframe" where
  "typed t ch = t\<lparr>data := (data t)[nat (cursor_row t) :=
       Some (take (nat (cursor_col t)) (cur_line t) @ ch # drop (nat (cursor_col t)) (cur_line t))],
     cursor_col := cursor_col t + 1\<rparr>"

lemma typed_ok:
  assumes "frame_ok t" "ch \<noteq> 0" "ch < 160"
  shows "frame_ok (typed t ch)" "cursor_row (typed t ch) = cursor_row t" "cursor_col (typed t ch) = cursor_col t + 1"
    "lines (typed t ch) = (lines t)[nat (cursor_row t) :=
       take (nat (cursor_col t)) (cur_line t) @ ch # drop (nat (cursor_col t)) (cur_line t)]"
    "boundary (lines (typed t ch) ! nat (cursor_row t)) (nat (cursor_col t))"
proof -
  have t: "wf_text t" "cursor_in t" using assms(1) by (auto simp: frame_ok_def)
  note c = cursor_inD[OF t]
  let ?l = "take (nat (cursor_col t)) (cur_line t) @ ch # drop (nat (cursor_col t)) (cur_line t)"
  have no0: "0 \<notin> set ?l" using c(7) assms(2) by (auto dest: in_set_takeD in_set_dropD)
  have w: "wf_text (typed t ch)" "lines (typed t ch) = (lines t)[nat (cursor_row t) := ?l]"
    using wf_update_row[OF t(1) _ no0, of "nat (cursor_row t)"] c by (simp_all add: typed_def)
  have b: "boundary ?l (nat (cursor_col t))" "boundary ?l (Suc (nat (cursor_col t)))"
    using boundary_ascii[of "nat (cursor_col t)" ?l] c(6) assms(3) by (auto simp: nth_append)
  show "lines (typed t ch) = (lines t)[nat (cursor_row t) := ?l]" by (rule w)
  show cur: "cursor_row (typed t ch) = cursor_row t" "cursor_col (typed t ch) = cursor_col t + 1"
    by (simp_all add: typed_def)
  show "boundary (lines (typed t ch) ! nat (cursor_row t)) (nat (cursor_col t))" using w c(3) b by simp
  have "cursor_ok (typed t ch)"
    using w cur b c by (simp add: cursor_ok_def cursor_in_def strlen_def nat_add_distrib) (simp add: typed_def)
  with w show "frame_ok (typed t ch)" by (simp add: frame_ok_def)
qed

lemma type_char:
  assumes "frame_ok t" "ch \<noteq> 0" "ch < 160"
  shows "do { t \<leftarrow> putc_to_str t ch; move_to_next_char t } = Some (typed t ch)"
proof -
  have t: "wf_text t" "cursor_in t" using assms(1) by (auto simp: frame_ok_def)
  note c = cursor_inD[OF t]
  let ?l = "take (nat (cursor_col t)) (cur_line t) @ ch # drop (nat (cursor_col t)) (cur_line t)"
  let ?u = "t\<lparr>data := (data t)[nat (cursor_row t) := Some ?l]\<rparr>"
  have no0: "0 \<notin> set ?l" using c(7) assms(2) by (auto dest: in_set_takeD in_set_dropD)
  have u: "wf_text ?u" "lines ?u = (lines t)[nat (cursor_row t) := ?l]"
    using wf_update_row[OF t(1) _ no0, of "nat (cursor_row t)"] c by simp_all
  have "line_at ?u (cursor_row t) = Some ?l" using line_at_wf[OF u(1), of "cursor_row t"] u(2) c by simp
  moreover have "?u\<lparr>cursor_col := cursor_col t + 1\<rparr> = typed t ch" by (simp add: typed_def)
  moreover have "adjust_cursor (typed t ch) 0 1 = Some (typed t ch)"
    using typed_ok(1)[OF assms] by (intro adjust_cursor_id) auto
  ultimately have "move_to_next_char ?u = Some (typed t ch)"
    using c by (simp add: move_to_next_char_def strlen_def)
  then show ?thesis using putc_to_str_wf[OF t assms(2)] by simp
qed

lemma key_char_typed:
  assumes "frame_ok (te_text e)" "point2_col e = -1" "32 \<le> c" "c \<le> 126"
  shows "handle_keyboard_TextEdit e clip c = Some (e\<lparr>te_text := typed (te_text e) (word_of_int c)\<rparr>, clip)"
proof -
  obtain u where "putc_to_str (te_text e) (word_of_int c) = Some u"
      "move_to_next_char u = Some (typed (te_text e) (word_of_int c))"
    using type_char[OF assms(1)] printable_byte[OF assms(3,4)] by (auto simp: bind_eq_Some_conv)
  then have "key_char e c = Some (e\<lparr>te_text := typed (te_text e) (word_of_int c)\<rparr>)"
    using assms(2-4) by (simp add: key_char_def on_text_def)
  then show ?thesis using assms(3,4) by (simp add: handle_keyboard_TextEdit_def keys)
qed

lemma typed_lines:
  assumes "frame_ok t" "\<forall>ch\<in>set s. ch \<noteq> 0 \<and> ch < 160"
  shows "frame_ok (foldl typed t s)" "cursor_row (foldl typed t s) = cursor_row t"
    "cursor_col (foldl typed t s) = cursor_col t + int (length s)"
    "lines (foldl typed t s) = (lines t)[nat (cursor_row t) :=
       take (nat (cursor_col t)) (cur_line t) @ s @ drop (nat (cursor_col t)) (cur_line t)]"
proof -
  have "frame_ok (foldl typed t s) \<and> cursor_row (foldl typed t s) = cursor_row t \<and>
    cursor_col (foldl typed t s) = cursor_col t + int (length s) \<and>
    lines (foldl typed t s) = (lines t)[nat (cursor_row t) :=
       take (nat (cursor_col t)) (cur_line t) @ s @ drop (nat (cursor_col t)) (cur_line t)]"
    using assms
  proof (induction s arbitrary: t)
    case Nil
    then show ?case by simp
  next
    case (Cons ch s)
    note ty = typed_ok[OF Cons.prems(1), of ch]
    have t: "wf_text t" "cursor_in t" using Cons.prems(1) by (auto simp: frame_ok_def)
    note c = cursor_inD[OF t]
    have l: "lines (typed t ch) ! nat (cursor_row t) = take (nat (cursor_col t)) (cur_line t) @ ch # drop (nat (cursor_col t)) (cur_line t)"
      using ty Cons.prems c by simp
    show ?case
      using Cons.IH[of "typed t ch"] ty Cons.prems c l
      by (simp add: nat_add_distrib)
  qed
  then show "frame_ok (foldl typed t s)" "cursor_row (foldl typed t s) = cursor_row t"
    "cursor_col (foldl typed t s) = cursor_col t + int (length s)"
    "lines (foldl typed t s) = (lines t)[nat (cursor_row t) :=
       take (nat (cursor_col t)) (cur_line t) @ s @ drop (nat (cursor_col t)) (cur_line t)]" by auto
qed

lemma run_keys_append:
  "run_keys e clip (xs @ ys) = (do { (e, clip) \<leftarrow> run_keys e clip xs; run_keys e clip ys })"
proof (induction xs arbitrary: e clip)
  case (Cons c xs)
  then show ?case by (cases "handle_keyboard_TextEdit e clip c") auto
qed simp

definition printable :: "cstring \<Rightarrow> bool" where
  "printable s = list_all (\<lambda>ch. 32 \<le> ch \<and> ch \<le> 126) s"

lemma printable_chars: "printable s \<Longrightarrow> ch \<in> set s \<Longrightarrow> ch \<noteq> 0 \<and> ch < 160 \<and> 32 \<le> uint ch \<and> uint ch \<le> 126"
  by (auto simp: printable_def list_all_iff word_le_def word_less_def)

lemma run_keys_typed:
  "frame_ok (te_text e) \<Longrightarrow> point2_col e = -1 \<Longrightarrow> printable s \<Longrightarrow>
   run_keys e clip (map uint s) = Some (e\<lparr>te_text := foldl typed (te_text e) s\<rparr>, clip)"
proof (induction s arbitrary: e)
  case (Cons ch s)
  then have ch: "ch \<noteq> 0" "ch < 160" "32 \<le> uint ch" "uint ch \<le> 126"
    using printable_chars[of "ch # s" ch] by auto
  have "handle_keyboard_TextEdit e clip (uint ch) = Some (e\<lparr>te_text := typed (te_text e) ch\<rparr>, clip)"
    using key_char_typed[OF Cons.prems(1,2) ch(3,4)] by simp
  with Cons ch typed_ok(1)[OF Cons.prems(1) ch(1,2)] show ?case by (simp add: printable_def)
qed simp

text \<open>
  C7: typing a string of printable characters without a selection inserts it at the cursor and
  leaves the cursor after it; the rest of the text does not change.
\<close>

theorem typing_inserts:
  assumes "frame_ok (te_text e)" "point2_col e = -1" "printable s"
  shows "\<exists>e'. run_keys e clip (map uint s) = Some (e', clip) \<and>
    lines (te_text e') = (lines (te_text e))[nat (cursor_row (te_text e)) :=
       take (nat (cursor_col (te_text e))) (cur_line (te_text e)) @ s @
       drop (nat (cursor_col (te_text e))) (cur_line (te_text e))] \<and>
    cursor_row (te_text e') = cursor_row (te_text e) \<and>
    cursor_col (te_text e') = cursor_col (te_text e) + int (length s)"
  using run_keys_typed[OF assms] typed_lines[OF assms(1), of s] printable_chars[OF assms(3)] by simp

theorem typing_inserts_witness:
  "\<exists>e'. run_keys new_edit None (map uint (lit ''hello'')) = Some (e', None) \<and>
    lines (te_text e') = [lit ''hello''] \<and> cursor_row (te_text e') = 0 \<and> cursor_col (te_text e') = 5"
proof -
  have "frame_ok (te_text new_edit)" "point2_col new_edit = -1" "printable (lit ''hello'')" by code_simp+
  from typing_inserts[OF this, of None] show ?thesis
  proof
    fix e'
    assume *: "run_keys new_edit None (map uint (lit ''hello'')) = Some (e', None) \<and>
      lines (te_text e') = (lines (te_text new_edit))[nat (cursor_row (te_text new_edit)) :=
       take (nat (cursor_col (te_text new_edit))) (cur_line (te_text new_edit)) @ lit ''hello'' @
       drop (nat (cursor_col (te_text new_edit))) (cur_line (te_text new_edit))] \<and>
      cursor_row (te_text e') = cursor_row (te_text new_edit) \<and>
      cursor_col (te_text e') = cursor_col (te_text new_edit) + int (length (lit ''hello''))"
    have "(lines (te_text new_edit))[nat (cursor_row (te_text new_edit)) :=
       take (nat (cursor_col (te_text new_edit))) (cur_line (te_text new_edit)) @ lit ''hello'' @
       drop (nat (cursor_col (te_text new_edit))) (cur_line (te_text new_edit))] = [lit ''hello'']"
      "cursor_row (te_text new_edit) = 0" "cursor_col (te_text new_edit) + int (length (lit ''hello'')) = 5"
      by code_simp+
    with * show ?thesis by metis
  qed
qed

section \<open>Erasing\<close>

lemma erase_typed:
  assumes "frame_ok t" "ch \<noteq> 0" "ch < 160"
  shows "do { u \<leftarrow> move_to_previous_char (typed t ch); backspace_to_str u } = Some t"
proof -
  note ty = typed_ok[OF assms]
  have t: "wf_text t" "cursor_in t" using assms(1) by (auto simp: frame_ok_def)
  note c = cursor_inD[OF t]
  let ?l = "take (nat (cursor_col t)) (cur_line t) @ ch # drop (nat (cursor_col t)) (cur_line t)"
  let ?u = "(typed t ch)\<lparr>cursor_col := cursor_col t\<rparr>"
  have l: "lines (typed t ch) ! nat (cursor_row t) = ?l" using ty(4) c by simp
  have u: "wf_text ?u" "cursor_ok ?u"
    using ty l c by (simp_all add: frame_ok_def cursor_ok_def cursor_in_def strlen_def)
  have "move_to_previous_char (typed t ch) = Some ?u"
    using ty(3) c adjust_cursor_id[OF u, of "-1"] by (simp add: move_to_previous_char_def)
  moreover have "backspace_to_str ?u = Some t"
  proof -
    have "char_len ?l (nat (cursor_col t)) = 1"
      using assms(3) c by (simp add: char_len_def nth_append not_le)
    then have "take (nat (cursor_col t)) ?l @ drop (nat (cursor_col t) + char_len ?l (nat (cursor_col t))) ?l = cur_line t"
      using c by simp
    moreover have "(data t)[nat (cursor_row t) := Some (cur_line t)] = data t"
      using data_line[OF t(1), of "nat (cursor_row t)"] c by (metis list_update_id length_lines t(1))
    moreover have "cur_line ?u = ?l" "cursor_row ?u = cursor_row t" using l by (simp_all add: ty(2))
    ultimately show ?thesis
      using backspace_to_str_wf[OF u] by (simp add: typed_def)
  qed
  ultimately show ?thesis by simp
qed

lemma backspace_typed:
  assumes "frame_ok (te_text e)" "point2_col e = -1" "point2_row e = -1" "ch \<noteq> 0" "ch < 160"
  shows "handle_keyboard_TextEdit (e\<lparr>te_text := typed (te_text e) ch\<rparr>) clip BACKSPACE = Some (e, clip)"
proof -
  obtain u where u: "move_to_previous_char (typed (te_text e) ch) = Some u" "backspace_to_str u = Some (te_text e)"
    using erase_typed[OF assms(1,4,5)] by (auto simp: bind_eq_Some_conv)
  have "cursor_col (typed (te_text e) ch) > 0"
    using assms(1) by (simp add: typed_def frame_ok_def cursor_ok_def cursor_in_def)
  then have "key_left_backspace (e\<lparr>te_text := typed (te_text e) ch\<rparr>) BACKSPACE = Some e"
    using u assms(2,3) by (simp add: key_left_backspace_def on_text_def no_selection_def keys)
  then show ?thesis by (simp add: handle_keyboard_TextEdit_def keys)
qed

text \<open>
  C8: typing a string and pressing Backspace once per character gives back exactly the widget
  that was there before.
\<close>

theorem typing_backspace_undo:
  assumes "frame_ok (te_text e)" "point2_col e = -1" "point2_row e = -1" "printable s"
  shows "run_keys e clip (map uint s @ replicate (length s) BACKSPACE) = Some (e, clip)"
  using assms(4)
proof (induction s rule: rev_induct)
  case (snoc ch s)
  let ?t = "foldl typed (te_text e) s"
  have s: "printable s" and ch: "ch \<noteq> 0" "ch < 160"
    using snoc.prems printable_chars[OF snoc.prems, of ch] by (auto simp: printable_def)
  have t: "frame_ok ?t" using typed_lines(1)[OF assms(1)] printable_chars[OF s] by blast
  have "handle_keyboard_TextEdit (e\<lparr>te_text := typed ?t ch\<rparr>) clip BACKSPACE = Some (e\<lparr>te_text := ?t\<rparr>, clip)"
    using backspace_typed[of "e\<lparr>te_text := ?t\<rparr>" ch clip] t ch assms(2,3) by simp
  then have "run_keys e clip (map uint (s @ [ch]) @ replicate (length (s @ [ch])) BACKSPACE) =
     run_keys (e\<lparr>te_text := ?t\<rparr>) clip (replicate (length s) BACKSPACE)"
    using run_keys_typed[OF assms(1,2) snoc.prems] by (simp only: run_keys_append) simp
  also have "\<dots> = run_keys e clip (map uint s @ replicate (length s) BACKSPACE)"
    using run_keys_typed[OF assms(1,2) s] by (simp add: run_keys_append)
  finally show ?case using snoc.IH s by simp
qed simp

theorem typing_backspace_undo_witness:
  "run_keys new_edit None (map uint (lit ''hi'') @ replicate (length (lit ''hi'')) BACKSPACE) = Some (new_edit, None)"
  by (rule typing_backspace_undo; code_simp)

text \<open>
  C9: Enter splits the row at the cursor; Backspace at the start of the new row joins the two again,
  so that the rows are the original ones.
\<close>

theorem enter_backspace_undo:
  assumes "frame_ok (te_text e)" "point2_col e = -1"
  shows "\<exists>e1 e2. handle_keyboard_TextEdit e clip ENTER = Some (e1, clip) \<and>
    lines (te_text e1) = take (nat (cursor_row (te_text e))) (lines (te_text e)) @
      [take (nat (cursor_col (te_text e))) (cur_line (te_text e)), drop (nat (cursor_col (te_text e))) (cur_line (te_text e))] @
      drop (Suc (nat (cursor_row (te_text e)))) (lines (te_text e)) \<and>
    handle_keyboard_TextEdit e1 clip BACKSPACE = Some (e2, clip) \<and> lines (te_text e2) = lines (te_text e)"
proof -
  let ?t = "te_text e"
  let ?r = "nat (cursor_row ?t)" and ?c = "nat (cursor_col ?t)" and ?L = "lines ?t"
  have t: "wf_text ?t" "cursor_ok ?t" using assms(1) by auto
  note c = cursor_inD[OF t(1) cursor_ok_in[OF t(2)]]
  obtain u where u: "new_line_to_editor ?t = Some u" "wf_text u" "cursor_ok u"
    "lines u = take ?r ?L @ [take ?c (?L ! ?r), drop ?c (?L ! ?r)] @ drop (Suc ?r) ?L"
    "cursor_row u = cursor_row ?t + 1" "cursor_col u = 0"
    using new_line_to_editor_wf[OF t] by blast
  have enter: "handle_keyboard_TextEdit e clip ENTER = Some (e\<lparr>te_text := u\<rparr>, clip)"
    using u(1) assms(2) by (simp add: handle_keyboard_TextEdit_def key_enter_def on_text_def)
  obtain v where v: "move_cur_line_to_prev_line u = Some v"
    "lines v = take (nat (cursor_row u) - 1) (lines u) @ [lines u ! (nat (cursor_row u) - 1) @ lines u ! Suc (nat (cursor_row u) - 1)] @
       drop (Suc (Suc (nat (cursor_row u) - 1))) (lines u)"
    using move_cur_line_to_prev_line_wf[OF u(2) cursor_ok_in[OF u(3)]] u(5) c(1) by auto
  have r: "nat (cursor_row u) - 1 = ?r" using u(5) c(1) by simp
  have "lines v = ?L"
    using c(3) unfolding v(2) r u(4) by (simp add: nth_append id_take_nth_drop[symmetric])
  moreover have "handle_keyboard_TextEdit (e\<lparr>te_text := u\<rparr>) clip BACKSPACE = Some (no_selection (e\<lparr>te_text := v\<rparr>), clip)"
    using v(1) u(6) assms(2) by (simp add: handle_keyboard_TextEdit_def key_left_backspace_def on_text_def keys)
  ultimately show ?thesis using enter u(4) by (auto simp: no_selection_def)
qed

theorem enter_backspace_undo_witness:
  "\<exists>e1 e2. handle_keyboard_TextEdit (new_edit\<lparr>te_text := two_rows\<lparr>cursor_col := 2\<rparr>\<rparr>) None ENTER = Some (e1, None) \<and>
    lines (te_text e1) = [lit ''he'', lit ''llo'', lit ''you''] \<and>
    handle_keyboard_TextEdit e1 None BACKSPACE = Some (e2, None) \<and> lines (te_text e2) = [lit ''hello'', lit ''you'']"
proof -
  let ?e = "new_edit\<lparr>te_text := two_rows\<lparr>cursor_col := 2\<rparr>\<rparr>"
  have "frame_ok (te_text ?e)" "point2_col ?e = -1" by code_simp+
  note * = enter_backspace_undo[OF this, of None]
  have a: "take (nat (cursor_row (te_text ?e))) (lines (te_text ?e)) @
      [take (nat (cursor_col (te_text ?e))) (cur_line (te_text ?e)), drop (nat (cursor_col (te_text ?e))) (cur_line (te_text ?e))] @
      drop (Suc (nat (cursor_row (te_text ?e)))) (lines (te_text ?e)) = [lit ''he'', lit ''llo'', lit ''you'']"
    "lines (te_text ?e) = [lit ''hello'', lit ''you'']"
    by code_simp+
  from * show ?thesis unfolding a(1) unfolding a(2) .
qed

end
