(* ===== verification/Trie.thy ===== *)
theory Trie
  imports Prelude
begin

text \<open>
  The array trie that the syntax highlighter and the pinyin input method share: a counter of the
  nodes in use and the table \<^verbatim>\<open>ch[u][c]\<close>, with 0 both the root and "no child". A key is a list of
  column numbers. The second part is the interface the two clients rely on, as a locale.
\<close>

record trie =
  n_nodes :: nat
  child :: "nat \<Rightarrow> nat \<Rightarrow> nat"

definition empty_trie :: trie where
  "empty_trie = \<lparr>n_nodes = 0, child = (\<lambda>_ _. 0)\<rparr>"

text \<open>
  The loop of \<^verbatim>\<open>insert\<close> from node \<open>u\<close> on. The table has \<open>m\<close> rows; a node outside of it would be
  written out of bounds.
\<close>

fun trie_insert :: "nat \<Rightarrow> trie \<Rightarrow> nat \<Rightarrow> nat list \<Rightarrow> (trie \<times> nat) option" where
  "trie_insert m t u [] = Some (t, u)"
| "trie_insert m t u (c # cs) =
     (if child t u c = 0 then
        let v = n_nodes t + 1 in
        if v < m then trie_insert m (t\<lparr>n_nodes := v, child := (child t)(u := (child t u)(c := v))\<rparr>) v cs
        else None
      else trie_insert m t (child t u c) cs)"

fun walk :: "trie \<Rightarrow> nat \<Rightarrow> nat list \<Rightarrow> nat option" where
  "walk t u [] = Some u"
| "walk t u (c # cs) = (if child t u c = 0 then None else walk t (child t u c) cs)"

section \<open>Tries are trees\<close>

definition trie_ok :: "trie \<Rightarrow> bool" where
  "trie_ok t \<longleftrightarrow>
     (\<forall>u c. child t u c \<noteq> 0 \<longrightarrow> u \<le> n_nodes t \<and> u < child t u c \<and> child t u c \<le> n_nodes t) \<and>
     (\<forall>u c u' c'. child t u c \<noteq> 0 \<longrightarrow> child t u c = child t u' c' \<longrightarrow> u = u' \<and> c = c')"

lemma trie_okD:
  assumes "trie_ok t"
  shows "child t u c \<noteq> 0 \<Longrightarrow> u \<le> n_nodes t" "child t u c \<noteq> 0 \<Longrightarrow> u < child t u c"
    "child t u c \<noteq> 0 \<Longrightarrow> child t u c \<le> n_nodes t"
    "child t u c \<noteq> 0 \<Longrightarrow> child t u c = child t u' c' \<Longrightarrow> u = u' \<and> c = c'"
  using assms unfolding trie_ok_def by blast+

lemma trie_ok_empty: "trie_ok empty_trie"
  by (simp add: trie_ok_def empty_trie_def)

lemma walk_empty: "walk empty_trie 0 k = Some v \<longleftrightarrow> k = [] \<and> v = 0"
  by (cases k) (auto simp: empty_trie_def)

lemma walk_append: "walk t u (xs @ ys) = (case walk t u xs of None \<Rightarrow> None | Some v \<Rightarrow> walk t v ys)"
  by (induction xs arbitrary: u) auto

lemma walk_bound: "trie_ok t \<Longrightarrow> walk t u k = Some v \<Longrightarrow> u \<le> n_nodes t \<Longrightarrow> v \<le> n_nodes t \<and> u \<le> v"
proof (induction k arbitrary: u)
  case (Cons c k)
  then have c: "child t u c \<noteq> 0" "walk t (child t u c) k = Some v" by (auto split: if_splits)
  with Cons trie_okD(2,3)[OF Cons.prems(1) c(1)] show ?case by force
qed simp

lemma walk_inj:
  assumes "trie_ok t" "walk t 0 a = Some v" "walk t 0 b = Some v"
  shows "a = b"
  using assms(2,3)
proof (induction a arbitrary: b v rule: rev_induct)
  case Nil
  show ?case
  proof (cases b rule: rev_cases)
    case (snoc b' d)
    with Nil obtain w where "child t w d \<noteq> 0" "v = child t w d" by (auto simp: walk_append split: option.splits if_splits)
    with Nil show ?thesis by simp
  qed simp
next
  case (snoc c a)
  then obtain w where w: "walk t 0 a = Some w" "child t w c \<noteq> 0" "v = child t w c"
    by (auto simp: walk_append split: option.splits if_splits)
  show ?case
  proof (cases b rule: rev_cases)
    case Nil
    with snoc.prems w show ?thesis by simp
  next
    case (snoc b' d)
    then obtain w' where w': "walk t 0 b' = Some w'" "child t w' d \<noteq> 0" "v = child t w' d"
      using snoc.prems by (auto simp: walk_append split: option.splits if_splits)
    from trie_okD(4)[OF assms(1) w(2), of w' d] w(3) w'(3) have "w = w'" "c = d" by auto
    with snoc.IH[OF w(1)] w'(1) snoc show ?thesis by simp
  qed
qed

section \<open>Insertion\<close>

text \<open>One new node.\<close>

definition grow :: "trie \<Rightarrow> nat \<Rightarrow> nat \<Rightarrow> trie" where
  "grow t u c = t\<lparr>n_nodes := n_nodes t + 1, child := (child t)(u := (child t u)(c := n_nodes t + 1))\<rparr>"

lemma child_grow: "child (grow t u c) a b = (if a = u \<and> b = c then Suc (n_nodes t) else child t a b)"
  by (simp add: grow_def)

lemma n_nodes_grow [simp]: "n_nodes (grow t u c) = Suc (n_nodes t)"
  by (simp add: grow_def)

lemma grow_ok:
  assumes "trie_ok t" "u \<le> n_nodes t" "child t u c = 0"
  shows "trie_ok (grow t u c)"
  unfolding trie_ok_def
proof (intro conjI allI impI)
  have ne: "child t a b \<noteq> Suc (n_nodes t)" for a b
    using trie_okD(3)[OF assms(1), of a b] by (cases "child t a b = 0") auto
  fix a b a' b'
  assume nz: "child (grow t u c) a b \<noteq> 0"
  have old: "a \<le> n_nodes t \<and> a < child t a b \<and> child t a b \<le> n_nodes t" if "\<not> (a = u \<and> b = c)"
    using that nz trie_okD(1,2,3)[OF assms(1), of a b] by (auto simp: child_grow)
  show "a \<le> n_nodes (grow t u c)" "a < child (grow t u c) a b" "child (grow t u c) a b \<le> n_nodes (grow t u c)"
    using old assms(2) by (cases "a = u \<and> b = c"; auto simp: child_grow)+
  assume eq: "child (grow t u c) a b = child (grow t u c) a' b'"
  have "a = a' \<and> b = b'"
  proof (cases "a = u \<and> b = c")
    case True
    with eq ne[of a' b'] show ?thesis by (auto simp: child_grow split: if_splits)
  next
    case False
    with eq ne[of a b] have "\<not> (a' = u \<and> b' = c)" by (auto simp: child_grow split: if_splits)
    with False have "child (grow t u c) a b = child t a b" "child (grow t u c) a' b' = child t a' b'"
      by (auto simp: child_grow)
    with eq nz trie_okD(4)[OF assms(1), of a b a' b'] show ?thesis by simp
  qed
  then show "a = a'" "b = b'" by auto
qed

lemma grow_walk_keep:
  assumes "child t u c = 0"
  shows "walk t v k = Some w \<Longrightarrow> walk (grow t u c) v k = Some w"
proof (induction k arbitrary: v)
  case (Cons d k)
  then have d: "child t v d \<noteq> 0" "walk t (child t v d) k = Some w" by (auto split: if_splits)
  then have "child (grow t u c) v d = child t v d" using assms by (auto simp: child_grow)
  with Cons.IH[OF d(2)] d(1) show ?case by simp
qed simp

text \<open>A walk in the grown trie is a walk in the old one, or it ends with the new edge.\<close>

lemma grow_walk_new:
  assumes "trie_ok t" "child t u c = 0" "u \<le> n_nodes t" "v \<le> n_nodes t"
  shows "walk (grow t u c) v k = Some w \<Longrightarrow>
    walk t v k = Some w \<or> (\<exists>k1. k = k1 @ [c] \<and> walk t v k1 = Some u \<and> w = Suc (n_nodes t))"
  using assms(4)
proof (induction k arbitrary: v)
  case (Cons d k)
  show ?case
  proof (cases "v = u \<and> d = c")
    case True
    then have "walk (grow t u c) (Suc (n_nodes t)) k = Some w" using Cons.prems(1) by (simp add: child_grow)
    moreover have "child (grow t u c) (Suc (n_nodes t)) e = 0" for e
      using trie_okD(1)[OF assms(1), of "Suc (n_nodes t)" e] assms(3) by (auto simp: child_grow)
    ultimately have "k = []" "w = Suc (n_nodes t)" by (cases k; simp)+
    with True show ?thesis by (intro disjI2 exI[of _ "[]"]) simp
  next
    case False
    then have ch: "child (grow t u c) v d = child t v d" by (auto simp: child_grow)
    with Cons.prems(1) have d: "child t v d \<noteq> 0" "walk (grow t u c) (child t v d) k = Some w"
      by (auto split: if_splits)
    from Cons.IH[OF d(2) trie_okD(3)[OF assms(1) d(1)]] show ?thesis
      using d(1) by (metis append_Cons walk.simps(2))
  qed
qed simp

text \<open>
  Inserting a key: the trie stays a tree, the key and all keys that were there lead to nodes, the
  old ones to the same nodes as before, and no other path is added than the prefixes of the key.
\<close>

lemma trie_insert_ok:
  assumes "trie_ok t" "walk t 0 p = Some u" "trie_insert m t u cs = Some (t', v)"
  shows "trie_ok t'" "walk t' 0 (p @ cs) = Some v" "\<And>k w. walk t 0 k = Some w \<Longrightarrow> walk t' 0 k = Some w"
    "\<And>k w. walk t' 0 k = Some w \<Longrightarrow> walk t 0 k = Some w \<or> (\<exists>q. q \<noteq> [] \<and> k = p @ q \<and> take (length q) cs = q)"
proof -
  have "trie_ok t' \<and> walk t' 0 (p @ cs) = Some v \<and> (\<forall>k w. walk t 0 k = Some w \<longrightarrow> walk t' 0 k = Some w) \<and>
    (\<forall>k w. walk t' 0 k = Some w \<longrightarrow> walk t 0 k = Some w \<or> (\<exists>q. q \<noteq> [] \<and> k = p @ q \<and> take (length q) cs = q))"
    using assms
  proof (induction cs arbitrary: t u p)
    case Nil
    then show ?case by simp
  next
    case (Cons c cs)
    have step: "trie_ok t1 \<and> walk t1 0 (p @ [c]) = Some u1 \<and> trie_insert m t1 u1 cs = Some (t', v) \<and>
        (\<forall>k w. walk t 0 k = Some w \<longrightarrow> walk t1 0 k = Some w) \<and>
        (\<forall>k w. walk t1 0 k = Some w \<longrightarrow> walk t 0 k = Some w \<or> k = p @ [c])"
      if "t1 = (if child t u c = 0 then grow t u c else t)" "u1 = (if child t u c = 0 then Suc (n_nodes t) else child t u c)" for t1 u1
    proof (cases "child t u c = 0")
      case True
      have u: "u \<le> n_nodes t" using walk_bound[OF Cons.prems(1,2)] by simp
      have new: "walk t 0 k = Some w \<or> k = p @ [c]" if "walk (grow t u c) 0 k = Some w" for k w
        using grow_walk_new[OF Cons.prems(1) True u _ that] walk_inj[OF Cons.prems(1) _ Cons.prems(2)] by auto
      have "trie_insert m (grow t u c) (Suc (n_nodes t)) cs = Some (t', v)"
        using Cons.prems(3) True by (auto simp: grow_def Let_def split: if_splits)
      moreover have "walk (grow t u c) 0 (p @ [c]) = Some (Suc (n_nodes t))"
        using grow_walk_keep[OF True Cons.prems(2)] by (simp add: walk_append child_grow)
      ultimately show ?thesis
        using True that grow_ok[OF Cons.prems(1) u True] grow_walk_keep[OF True] new by simp
    next
      case False
      with that Cons.prems show ?thesis by (simp add: walk_append)
    qed
    define t1 where "t1 = (if child t u c = 0 then grow t u c else t)"
    define u1 where "u1 = (if child t u c = 0 then Suc (n_nodes t) else child t u c)"
    note s = step[OF t1_def u1_def]
    have ih: "trie_ok t' \<and> walk t' 0 ((p @ [c]) @ cs) = Some v \<and> (\<forall>k w. walk t1 0 k = Some w \<longrightarrow> walk t' 0 k = Some w) \<and>
      (\<forall>k w. walk t' 0 k = Some w \<longrightarrow> walk t1 0 k = Some w \<or> (\<exists>q. q \<noteq> [] \<and> k = (p @ [c]) @ q \<and> take (length q) cs = q))"
      using Cons.IH[of t1 "p @ [c]" u1] s by blast
    have "walk t 0 k = Some w \<or> (\<exists>q. q \<noteq> [] \<and> k = p @ q \<and> take (length q) (c # cs) = q)"
      if k: "walk t' 0 k = Some w" for k w
    proof -
      from ih k consider "walk t1 0 k = Some w" | q where "q \<noteq> []" "k = (p @ [c]) @ q" "take (length q) cs = q" by blast
      then show ?thesis
      proof cases
        case 1
        with s have "walk t 0 k = Some w \<or> k = p @ [c]" by blast
        then show ?thesis by (auto intro: exI[of _ "[c]"])
      next
        case 2
        then show ?thesis by (intro disjI2 exI[of _ "c # q"]) simp
      qed
    qed
    with ih s show ?case by simp
  qed
  then show "trie_ok t'" "walk t' 0 (p @ cs) = Some v" "\<And>k w. walk t 0 k = Some w \<Longrightarrow> walk t' 0 k = Some w"
    "\<And>k w. walk t' 0 k = Some w \<Longrightarrow> walk t 0 k = Some w \<or> (\<exists>q. q \<noteq> [] \<and> k = p @ q \<and> take (length q) cs = q)" by blast+
qed

text \<open>The table is large enough when it has a row for every node that the key may add.\<close>

lemma trie_insert_room:
  "n_nodes t + length cs < m \<Longrightarrow> \<exists>t' v. trie_insert m t u cs = Some (t', v) \<and> n_nodes t' \<le> n_nodes t + length cs"
proof (induction cs arbitrary: t u)
  case (Cons c cs)
  show ?case
  proof (cases "child t u c = 0")
    case True
    have "n_nodes (grow t u c) + length cs < m" using Cons.prems by simp
    from Cons.IH[OF this, of "Suc (n_nodes t)"] True Cons.prems show ?thesis
      by (auto simp: grow_def Let_def)
  next
    case False
    with Cons.IH[of t "child t u c"] Cons.prems show ?thesis by force
  qed
qed auto

section \<open>Dictionaries\<close>

text \<open>
  What a client of the trie relies on: a store of values under keys, where a value that was put
  under a key is the one that is found there, and nothing else changes.
\<close>

fun put_all :: "('s \<Rightarrow> 'k \<Rightarrow> 'v \<Rightarrow> 's option) \<Rightarrow> 's \<Rightarrow> ('k \<times> 'v) list \<Rightarrow> 's option" where
  "put_all put s [] = Some s"
| "put_all put s ((k, v) # kvs) = do { s \<leftarrow> put s k v; put_all put s kvs }"

lemma map_of_rev_distinct: "distinct (map fst kvs) \<Longrightarrow> map_of (rev kvs) = map_of kvs"
  by (metis distinct_map distinct_rev map_of_inject_set map_of_eqI rev_map set_rev set_map)

locale dictionary =
  fixes inv :: "'s \<Rightarrow> bool" and valid :: "'k \<Rightarrow> bool" and empty :: 's
    and put :: "'s \<Rightarrow> 'k \<Rightarrow> 'v \<Rightarrow> 's option" and get :: "'s \<Rightarrow> 'k \<Rightarrow> 'v option"
  assumes inv_empty: "inv empty"
    and get_empty: "valid k \<Longrightarrow> get empty k = None"
    and put_inv: "inv s \<Longrightarrow> put s k v = Some s' \<Longrightarrow> inv s'"
    and get_put: "inv s \<Longrightarrow> valid k \<Longrightarrow> valid k' \<Longrightarrow> put s k v = Some s' \<Longrightarrow>
      get s' k' = (if k' = k then Some v else get s k')"
begin

lemma put_all_inv: "inv s \<Longrightarrow> put_all put s kvs = Some s' \<Longrightarrow> inv s'"
proof (induction kvs arbitrary: s)
  case (Cons kv kvs)
  then show ?case by (cases kv) (auto simp: bind_eq_Some_conv intro: put_inv)
qed simp

text \<open>After a list of entries the last value put under a key is found.\<close>

lemma get_put_all:
  assumes "inv s" "\<forall>(k, v)\<in>set kvs. valid k" "put_all put s kvs = Some s'" "valid k"
  shows "get s' k = (case map_of (rev kvs) k of None \<Rightarrow> get s k | Some v \<Rightarrow> Some v)"
  using assms(1-3)
proof (induction kvs arbitrary: s)
  case (Cons kv kvs)
  obtain k0 v0 where kv: "kv = (k0, v0)" by (cases kv)
  then obtain s1 where s1: "put s k0 v0 = Some s1" "put_all put s1 kvs = Some s'"
    using Cons.prems(3) by (auto simp: bind_eq_Some_conv)
  have "get s' k = (case map_of (rev kvs) k of None \<Rightarrow> get s1 k | Some v \<Rightarrow> Some v)"
    using Cons.IH[OF put_inv[OF Cons.prems(1) s1(1)] _ s1(2)] Cons.prems(2) by auto
  moreover have "get s1 k = (if k = k0 then Some v0 else get s k)"
    using get_put[OF Cons.prems(1) _ assms(4) s1(1)] Cons.prems(2) kv by auto
  ultimately show ?case by (simp add: kv map_add_def split: option.splits)
qed simp

lemma get_table:
  assumes "put_all put empty kvs = Some s" "\<forall>(k, v)\<in>set kvs. valid k" "distinct (map fst kvs)" "valid k"
  shows "get s k = map_of kvs k"
  using get_put_all[OF inv_empty assms(2,1,4)] get_empty[OF assms(4)] map_of_rev_distinct[OF assms(3)]
  by (simp split: option.splits)

end

end
