(* ===== verification/Pinyin.thy ===== *)
theory Pinyin
  imports Trie
begin

text \<open>
  The pinyin dictionary of the input method (src/src/init_ascii_gbk_pinyin.c): the trie over the
  letters a to z, the Chinese characters of each syllable, the loader of pinyin.txt, and the lookup.
\<close>

definition MAXNODE :: nat where "MAXNODE = 5000"

record pinyin =
  py_trie :: trie
  hans :: "nat \<Rightarrow> cstring option"

definition empty_pinyin :: pinyin where
  "empty_pinyin = \<lparr>py_trie = empty_trie, hans = (\<lambda>_. None)\<rparr>"

definition is_letter :: "byte \<Rightarrow> bool" where
  "is_letter b \<longleftrightarrow> 97 \<le> b \<and> b \<le> 122"

text \<open>The column \<^verbatim>\<open>s[i] - 'a'\<close> of a table with 26 columns.\<close>

definition column :: "byte \<Rightarrow> nat" where
  "column b = unat b - 97"

definition pinyin_insert :: "pinyin \<Rightarrow> cstring \<Rightarrow> (trie \<times> nat) option" where
  "pinyin_insert p s =
     (if list_all is_letter s then trie_insert MAXNODE (py_trie p) 0 (map column s) else None)"

definition handle_pinyin_hans :: "pinyin \<Rightarrow> cstring \<Rightarrow> cstring \<Rightarrow> pinyin option" where
  "handle_pinyin_hans p py han = do {
     (t, u) \<leftarrow> pinyin_insert p py;
     Some (p\<lparr>py_trie := t, hans := (hans p)(u := Some han)\<rparr>) }"

section \<open>Lookup\<close>

text \<open>
  \<open>getdeep\<close> returns a node where it stops early and a depth only at the end of the string, as
  the source does.
\<close>

fun getdeep_loop :: "trie \<Rightarrow> nat \<Rightarrow> nat \<Rightarrow> cstring \<Rightarrow> nat" where
  "getdeep_loop t u deep [] = deep"
| "getdeep_loop t u deep (b # s) =
     (if \<not> is_letter b then u
      else if child t u (column b) = 0 then u
      else getdeep_loop t (child t u (column b)) (deep + 1) s)"

definition getdeep :: "pinyin \<Rightarrow> cstring \<Rightarrow> nat" where
  "getdeep p s = getdeep_loop (py_trie p) 0 0 s"

fun getnode_loop :: "trie \<Rightarrow> nat \<Rightarrow> nat \<Rightarrow> cstring \<Rightarrow> nat \<times> nat" where
  "getnode_loop t u deep [] = (u, deep)"
| "getnode_loop t u deep (b # s) =
     (if \<not> is_letter b \<or> child t u (column b) = 0 then (u, deep)
      else getnode_loop t (child t u (column b)) (deep + 1) s)"

text \<open>Result: the return value, the node, the depth.\<close>

definition getnode :: "pinyin \<Rightarrow> cstring \<Rightarrow> int \<times> nat \<times> nat" where
  "getnode p s =
     (let (u, deep) = getnode_loop (py_trie p) 0 0 s
      in (if u > 0 then (if deep = length s then 1 else 0) else -1, u, deep))"

text \<open>
  Result: the return value, the two bytes when it is 0, and the depth; \<open>None\<close> is the read before
  the start of the string for a negative index.
\<close>

definition get_pinyin_ith_han :: "pinyin \<Rightarrow> cstring \<Rightarrow> int \<Rightarrow> (int \<times> (byte \<times> byte) \<times> nat) option" where
  "get_pinyin_ith_han p py i =
     (let (r, u, deep) = getnode p py in
      if r = -1 then Some (-1, (0, 0), deep)
      else case hans p u of
        None \<Rightarrow> Some (-1, (0, 0), deep)
      | Some han \<Rightarrow>
          let len = strlen han; offset = i * 2 in
          if offset + 1 \<ge> len then Some (-1, (0, 0), deep)
          else do { c1 \<leftarrow> rd han offset; c2 \<leftarrow> rd han (offset + 1); Some (0, (c1, c2), deep) })"

section \<open>Loading pinyin.txt\<close>

text \<open>
  \<open>load_pair\<close> is the body of the inner loop on the two bytes of a read; \<open>pinyin_loop\<close> is the two
  nested loops, \<open>inner\<close> telling in which one the next read is. A read of two bytes at the end of
  the file may return one; the other keeps its value \<open>cs1\<close>. The buffers have 100 and 4096 bytes.
\<close>

definition append_pinyin :: "cstring \<Rightarrow> cstring \<Rightarrow> cstring option" where
  "append_pinyin buf s = (if length buf + length s < 100 then Some (buf @ s) else None)"

definition append_han :: "cstring \<Rightarrow> cstring \<Rightarrow> cstring option" where
  "append_han buf s = (if length buf + length s < 4096 then Some (buf @ s) else None)"

type_synonym load_state = "bool \<times> pinyin \<times> cstring \<times> cstring"

definition load_pair :: "pinyin \<Rightarrow> cstring \<Rightarrow> cstring \<Rightarrow> byte \<Rightarrow> byte \<Rightarrow> load_state option" where
  "load_pair p py han c0 c1 =
     (if c0 \<ge> 160 \<and> c1 \<ge> 160 then do { han \<leftarrow> append_han han [c0, c1]; Some (True, p, py, han) }
      else do {
        p \<leftarrow> handle_pinyin_hans p py han;
        py \<leftarrow> (if is_letter c0 then append_pinyin [] (cstr [c0, c1]) else Some []);
        py \<leftarrow> (if is_letter c1 then append_pinyin py (cstr [c1]) else Some py);
        Some (False, p, py, []) })"

definition load_byte :: "pinyin \<Rightarrow> cstring \<Rightarrow> cstring \<Rightarrow> byte \<Rightarrow> load_state option" where
  "load_byte p py han c =
     (if is_letter c then do { py \<leftarrow> append_pinyin py [c]; Some (False, p, py, han) }
      else if c = 58 then Some (True, p, py, han)
      else if c = 13 \<or> c = 10 then Some (False, p, [], han)
      else Some (False, p, py, han))"

function pinyin_loop :: "byte \<Rightarrow> load_state \<Rightarrow> byte list \<Rightarrow> pinyin option" where
  "pinyin_loop cs1 (False, p, py, han) [] = Some p"
| "pinyin_loop cs1 (False, p, py, han) (c # f) = do { st \<leftarrow> load_byte p py han c; pinyin_loop 0 st f }"
| "pinyin_loop cs1 (True, p, py, han) [] = Some p"
| "pinyin_loop cs1 (True, p, py, han) [c0] = do { st \<leftarrow> load_pair p py han c0 cs1; pinyin_loop cs1 st [] }"
| "pinyin_loop cs1 (True, p, py, han) (c0 # c1 # f) = do { st \<leftarrow> load_pair p py han c0 c1; pinyin_loop c1 st f }"
  by pat_completeness auto
termination by (relation "measure (\<lambda>(c, s, f). length f)") auto

definition pinyin_init :: "byte list \<Rightarrow> pinyin option" where
  "pinyin_init file = pinyin_loop 0 (False, empty_pinyin, [], []) file"

section \<open>The dictionary\<close>

definition syllable :: "cstring \<Rightarrow> bool" where
  "syllable s \<longleftrightarrow> s \<noteq> [] \<and> list_all is_letter s"

definition pinyin_ok :: "pinyin \<Rightarrow> bool" where
  "pinyin_ok p \<longleftrightarrow> trie_ok (py_trie p) \<and> (\<forall>u. hans p u \<noteq> None \<longrightarrow> (\<exists>k. walk (py_trie p) 0 k = Some u))"

definition lookup :: "pinyin \<Rightarrow> cstring \<Rightarrow> cstring option" where
  "lookup p s = (case walk (py_trie p) 0 (map column s) of None \<Rightarrow> None | Some u \<Rightarrow> hans p u)"

lemma column_inj:
  assumes "list_all is_letter a" "list_all is_letter b" "map column a = map column b"
  shows "a = b"
proof -
  have "x = y" if "is_letter x" "is_letter y" "column x = column y" for x y
  proof -
    have "unat x \<ge> 97" "unat y \<ge> 97" using that by (auto simp: is_letter_def word_le_nat_alt)
    with that(3) have "unat x = unat y" by (simp add: column_def)
    then show ?thesis by (simp add: word_unat_eq_iff)
  qed
  then have "inj_on column (set a \<union> set b)" using assms(1,2) by (auto simp: inj_on_def list_all_iff)
  with assms(3) show ?thesis by (simp add: inj_on_map_eq_map)
qed

lemma handle_pinyin_hans_lookup:
  assumes "pinyin_ok p" "handle_pinyin_hans p py han = Some p'" "list_all is_letter s"
  shows "lookup p' s = (if s = py then Some han else lookup p s)"
proof -
  let ?k = "map column py"
  obtain t u where ins: "list_all is_letter py" "trie_insert MAXNODE (py_trie p) 0 ?k = Some (t, u)"
    and p': "p' = p\<lparr>py_trie := t, hans := (hans p)(u := Some han)\<rparr>"
    using assms(2) by (auto simp: handle_pinyin_hans_def pinyin_insert_def split: if_splits bind_splits)
  have ok: "trie_ok (py_trie p)" using assms(1) by (simp add: pinyin_ok_def)
  note t = trie_insert_ok[OF ok walk.simps(1) ins(2), unfolded append_Nil]
  show ?thesis
  proof (cases "s = py")
    case True
    with t(2) p' show ?thesis by (simp add: lookup_def)
  next
    case False
    with column_inj[OF assms(3) ins(1)] have k: "map column s \<noteq> ?k" by blast
    show ?thesis
    proof (cases "walk t 0 (map column s)")
      case None
      with t(3)[of "map column s"] have "walk (py_trie p) 0 (map column s) = None" by (cases "walk (py_trie p) 0 (map column s)") auto
      with None False p' show ?thesis by (simp add: lookup_def)
    next
      case (Some w)
      have "w \<noteq> u" using walk_inj[OF t(1) Some] t(2) k by auto
      moreover have "(case walk (py_trie p) 0 (map column s) of None \<Rightarrow> None | Some u \<Rightarrow> hans p u) = hans p w"
      proof (cases "walk (py_trie p) 0 (map column s)")
        case None
        have "walk (py_trie p) 0 k \<noteq> Some w" for k
          using t(3)[of k w] walk_inj[OF t(1) Some] None by (cases "k = map column s") auto
        then have "hans p w = None" using assms(1) by (auto simp: pinyin_ok_def)
        with None show ?thesis by simp
      next
        case (Some w')
        with t(3)[OF this] \<open>walk t 0 (map column s) = Some w\<close> show ?thesis by simp
      qed
      ultimately show ?thesis using Some False p' by (simp add: lookup_def)
    qed
  qed
qed

lemma handle_pinyin_hans_ok:
  assumes "pinyin_ok p" "handle_pinyin_hans p py han = Some p'"
  shows "pinyin_ok p'"
proof -
  obtain t u where ins: "trie_insert MAXNODE (py_trie p) 0 (map column py) = Some (t, u)"
    and p': "p' = p\<lparr>py_trie := t, hans := (hans p)(u := Some han)\<rparr>"
    using assms(2) by (auto simp: handle_pinyin_hans_def pinyin_insert_def split: if_splits bind_splits)
  have ok: "trie_ok (py_trie p)" using assms(1) by (simp add: pinyin_ok_def)
  note t = trie_insert_ok[OF ok walk.simps(1) ins, unfolded append_Nil]
  have "\<exists>k. walk t 0 k = Some w" if "w \<noteq> u" "hans p w \<noteq> None" for w
    using that assms(1) t(3) unfolding pinyin_ok_def by blast
  then show ?thesis using t(1,2) p' by (auto simp: pinyin_ok_def)
qed

interpretation pinyin_dict: dictionary pinyin_ok syllable empty_pinyin handle_pinyin_hans lookup
proof
  show "pinyin_ok empty_pinyin" by (simp add: pinyin_ok_def empty_pinyin_def trie_ok_empty)
  show "lookup empty_pinyin k = None" for k
    by (simp add: lookup_def empty_pinyin_def split: option.splits)
  show "pinyin_ok s'" if "pinyin_ok s" "handle_pinyin_hans s k v = Some s'" for s k v s'
    using that by (rule handle_pinyin_hans_ok)
  show "lookup s' k' = (if k' = k then Some v else lookup s k')"
    if "pinyin_ok s" "syllable k" "syllable k'" "handle_pinyin_hans s k v = Some s'" for s k k' v s'
    using handle_pinyin_hans_lookup[OF that(1,4)] that(3) by (simp add: syllable_def)
qed

section \<open>Loading a table\<close>

text \<open>A line of the file: the syllable, a colon, its characters of two bytes, and a newline.\<close>

definition render :: "cstring \<times> cstring \<Rightarrow> byte list" where
  "render kv = fst kv @ 58 # snd kv @ [10]"

text \<open>
  The characters are pairs of GBK bytes. The loader keeps the pairs up to the first one with a byte below 160, and skips the
  rest of the line; the small letters in the rest go to the buffer of the syllable, which the newline empties.
\<close>

fun gbk_pairs :: "cstring \<Rightarrow> bool" where
  "gbk_pairs (a # b # h) \<longleftrightarrow> 129 \<le> a \<and> 64 \<le> b \<and> gbk_pairs h"
| "gbk_pairs h \<longleftrightarrow> h = []"

fun kept :: "cstring \<Rightarrow> cstring" where
  "kept (a # b # h) = (if 160 \<le> a \<and> 160 \<le> b then a # b # kept h else [])"
| "kept _ = []"

definition skipped :: "cstring \<Rightarrow> cstring" where
  "skipped h = drop (length (kept h)) h"

definition entry_ok :: "cstring \<times> cstring \<Rightarrow> bool" where
  "entry_ok kv \<longleftrightarrow> syllable (fst kv) \<and> length (fst kv) < 100 \<and> gbk_pairs (snd kv) \<and>
     length (kept (snd kv)) < 4096 \<and> length (filter is_letter (skipped (snd kv))) < 100"

definition loaded :: "cstring \<times> cstring \<Rightarrow> cstring \<times> cstring" where
  "loaded kv = (fst kv, kept (snd kv))"

lemma not_letter: "\<not> is_letter 10" "\<not> is_letter 13" "\<not> is_letter 58" "\<not> is_letter 0" "160 \<le> b \<Longrightarrow> \<not> is_letter b"
  by (auto simp: is_letter_def word_le_nat_alt)

lemma load_syllable:
  "list_all is_letter s \<Longrightarrow> length py + length s < 100 \<Longrightarrow>
   pinyin_loop c (False, P, py, han) (s @ 58 # f) = pinyin_loop 0 (True, P, py @ s, han) f"
  by (induction s arbitrary: py c) (auto simp: load_byte_def not_letter append_pinyin_def)

lemma kept_bytes: "list_all (\<lambda>b. b \<ge> 160) (kept h)" "even (length (kept h))"
  by (induction h rule: kept.induct) auto

lemma kept_prefix: "gbk_pairs h \<Longrightarrow> h = kept h @ skipped h"
  unfolding skipped_def by (induction h rule: kept.induct) auto

lemma skipped_pair:
  assumes "gbk_pairs h" "skipped h \<noteq> []"
  shows "\<exists>a b r. skipped h = a # b # r \<and> \<not> (160 \<le> a \<and> 160 \<le> b) \<and> 129 \<le> a \<and> 64 \<le> b \<and> list_all (\<lambda>b. b \<ge> 64) r"
proof -
  have "list_all (\<lambda>b. b \<ge> 64) h" if "gbk_pairs h" for h
    using that by (induction h rule: gbk_pairs.induct) (auto intro: order_trans[of 64 129])
  with assms show ?thesis unfolding skipped_def by (induction h rule: kept.induct) (auto split: if_splits)
qed

lemma load_hans:
  "list_all (\<lambda>b. b \<ge> 160) h \<Longrightarrow> even (length h) \<Longrightarrow> length han + length h < 4096 \<Longrightarrow> c = 0 \<or> 160 \<le> c \<Longrightarrow>
   \<exists>c'. (c' = 0 \<or> 160 \<le> c') \<and>
     pinyin_loop c (True, P, py, han) (h @ f) = pinyin_loop c' (True, P, py, han @ h) f"
proof (induction h arbitrary: han c rule: induct_list012)
  case (3 a b h)
  have "pinyin_loop c (True, P, py, han) ((a # b # h) @ f) = pinyin_loop b (True, P, py, han @ [a, b]) (h @ f)"
    using 3 by (simp add: load_pair_def append_han_def)
  with "3.IH"(1)[of "han @ [a, b]" b] 3 show ?case by simp
qed auto

lemma load_skipped:
  "list_all (\<lambda>b. b \<ge> 64) r \<Longrightarrow> length py + length (filter is_letter r) < 100 \<Longrightarrow>
   pinyin_loop c (False, P, py, han) (r @ 10 # f) = pinyin_loop 0 (False, P, [], han) f"
proof (induction r arbitrary: py c)
  case (Cons b r)
  then have "b \<noteq> 58" "b \<noteq> 13" "b \<noteq> 10" by auto
  with Cons show ?case by (auto simp: load_byte_def append_pinyin_def)
qed (simp add: load_byte_def not_letter)

text \<open>A line after its colon, when it has a pair that is skipped.\<close>

lemma load_broken_line:
  assumes "entry_ok (py, h)" "skipped h \<noteq> []" "c = 0 \<or> 160 \<le> c"
  shows "pinyin_loop c (True, P, py, []) (h @ 10 # f) =
    (do { P \<leftarrow> handle_pinyin_hans P py (kept h); pinyin_loop 0 (False, P, [], []) f })"
proof -
  have e: "gbk_pairs h" "length (kept h) < 4096" "length (filter is_letter (skipped h)) < 100"
    using assms(1) by (simp_all add: entry_ok_def)
  obtain a b r where r: "skipped h = a # b # r" "\<not> (160 \<le> a \<and> 160 \<le> b)" "129 \<le> a" "list_all (\<lambda>b. b \<ge> 64) r"
    using skipped_pair[OF e(1) assms(2)] by blast
  have a: "\<not> is_letter a" using r(3) by (auto simp: is_letter_def word_le_nat_alt)
  have h: "h = kept h @ a # b # r" using kept_prefix[OF e(1)] r(1) by simp
  obtain c' where "pinyin_loop c (True, P, py, []) (kept h @ a # b # r @ 10 # f) = pinyin_loop c' (True, P, py, kept h) (a # b # r @ 10 # f)"
    using load_hans[OF kept_bytes, of "[]" h c P py "a # b # r @ 10 # f"] e(2) assms(3) by auto
  moreover have "pinyin_loop c' (True, P, py, kept h) (a # b # r @ 10 # f) =
      (do { P \<leftarrow> handle_pinyin_hans P py (kept h); pinyin_loop 0 (False, P, [], []) f })"
  proof (cases "is_letter b")
    case True
    then have "cstr [b] = [b]" by (auto simp: cstr_def is_letter_def)
    with True a r(1,2,4) e(3) show ?thesis
      by (auto simp: load_pair_def append_pinyin_def load_skipped split: bind_splits)
  next
    case False
    with a r(1,2,4) e(3) show ?thesis by (auto simp: load_pair_def load_skipped split: bind_splits)
  qed
  ultimately show ?thesis using h by (metis append.assoc append_Cons)
qed

lemma load_table:
  "tbl \<noteq> [] \<Longrightarrow> list_all entry_ok tbl \<Longrightarrow> fst (hd tbl) = py @ s \<Longrightarrow>
   pinyin_loop c (False, P, py, []) (s @ 58 # snd (hd tbl) @ 10 # concat (map render (tl tbl))) =
     put_all handle_pinyin_hans P (map loaded tbl)"
proof (induction tbl arbitrary: c P py s)
  case (Cons kv tbl)
  obtain h where kv: "kv = (py @ s, h)" "entry_ok (py @ s, h)" using Cons.prems by (cases kv) auto
  then have e: "list_all is_letter s" "length py + length s < 100" "gbk_pairs h" "length (kept h) < 4096"
    by (auto simp: entry_ok_def syllable_def)
  let ?rest = "10 # concat (map render tbl)"
  have next_line: "pinyin_loop c' (False, P', y, []) (q @ 58 # snd (hd tbl) @ 10 # concat (map render (tl tbl))) =
      put_all handle_pinyin_hans P' (map loaded tbl)" if "tbl \<noteq> []" "fst (hd tbl) = y @ q" for c' P' y q
    using Cons.IH[of y q] Cons.prems that by simp
  have "pinyin_loop 0 (True, P, py @ s, []) (h @ ?rest) =
      (do { P \<leftarrow> handle_pinyin_hans P (py @ s) (kept h); put_all handle_pinyin_hans P (map loaded tbl) })"
  proof (cases "skipped h = []")
    case False
    have "pinyin_loop 0 (False, P', [], []) (concat (map render tbl)) = put_all handle_pinyin_hans P' (map loaded tbl)" for P'
      using next_line[of "[]" "fst (hd tbl)" 0 P'] by (cases tbl) (auto simp: render_def)
    then show ?thesis using load_broken_line[OF kv(2) False, of 0 P "concat (map render tbl)"] by simp
  next
    case True
    then have h: "kept h = h" using kept_prefix[OF e(3)] by simp
    obtain c' where c': "c' = 0 \<or> 160 \<le> c'"
      "pinyin_loop 0 (True, P, py @ s, []) (h @ ?rest) = pinyin_loop c' (True, P, py @ s, h) ?rest"
      using load_hans[OF kept_bytes, of "[]" h 0 P "py @ s" ?rest] e(4) h by auto
    show ?thesis
    proof (cases tbl)
      case Nil
      then show ?thesis using c' h by (auto simp: load_pair_def not_letter split: bind_splits)
    next
      case (Cons kv2 tbl2)
      then obtain a q where aq: "fst kv2 = a # q" "is_letter a"
        using Cons.prems(2) by (cases "fst kv2") (auto simp: entry_ok_def syllable_def)
      have nz: "a \<noteq> 0" using aq(2) by (auto simp: is_letter_def)
      have "pinyin_loop c' (True, P, py @ s, h) ?rest =
         (do { P \<leftarrow> handle_pinyin_hans P (py @ s) h;
               pinyin_loop a (False, P, [a], []) (q @ 58 # snd kv2 @ 10 # concat (map render tbl2)) })"
        using aq nz by (simp add: Cons render_def load_pair_def not_letter append_pinyin_def cstr_def split: bind_splits)
      with c'(2) h next_line[of "[a]" q a] aq(1) Cons show ?thesis by simp
    qed
  qed
  moreover have "loaded kv = (py @ s, kept h)" using kv(1) by (simp add: loaded_def)
  ultimately show ?case using load_syllable[OF e(1,2)] kv(1) by simp
qed simp

lemma pinyin_init_table:
  "list_all entry_ok tbl \<Longrightarrow> pinyin_init (concat (map render tbl)) = put_all handle_pinyin_hans empty_pinyin (map loaded tbl)"
  using load_table[of tbl "[]" "fst (hd tbl)" 0 empty_pinyin]
  by (cases tbl) (auto simp: pinyin_init_def render_def)

text \<open>The node table has room for the syllables.\<close>

lemma handle_pinyin_hans_room:
  assumes "n_nodes (py_trie p) + length py < MAXNODE" "list_all is_letter py"
  shows "\<exists>p'. handle_pinyin_hans p py han = Some p' \<and> n_nodes (py_trie p') \<le> n_nodes (py_trie p) + length py"
  using trie_insert_room[of "py_trie p" "map column py" MAXNODE 0] assms
  by (auto simp: handle_pinyin_hans_def pinyin_insert_def)

lemma put_all_room:
  "n_nodes (py_trie p) + sum_list (map (length \<circ> fst) tbl) < MAXNODE \<Longrightarrow> list_all entry_ok tbl \<Longrightarrow>
   \<exists>p'. put_all handle_pinyin_hans p (map loaded tbl) = Some p'"
proof (induction tbl arbitrary: p)
  case (Cons kv tbl)
  obtain k h where kv: "kv = (k, h)" by (cases kv)
  have "list_all is_letter k" using Cons.prems kv by (simp add: entry_ok_def syllable_def)
  with handle_pinyin_hans_room[of p k "kept h"] Cons.prems kv
  obtain p1 where p1: "handle_pinyin_hans p k (kept h) = Some p1" "n_nodes (py_trie p1) \<le> n_nodes (py_trie p) + length k"
    by auto
  with Cons.IH[of p1] Cons.prems kv show ?case by (auto simp: loaded_def)
qed simp

lemma getnode_loop_walk:
  "list_all is_letter s \<Longrightarrow> walk t u (map column s) = Some v \<Longrightarrow> getnode_loop t u d s = (v, d + length s)"
  by (induction s arbitrary: u d) (auto split: if_splits)

lemma get_pinyin_ith_han_lookup:
  assumes "pinyin_ok p" "syllable py" "lookup p py = Some h" "0 \<le> i"
  shows "get_pinyin_ith_han p py i =
    Some (if 2 * i + 1 < strlen h then (0, (h ! nat (2 * i), h ! nat (2 * i + 1)), length py) else (-1, (0, 0), length py))"
proof -
  obtain u where u: "walk (py_trie p) 0 (map column py) = Some u" "hans p u = Some h"
    using assms(3) by (auto simp: lookup_def split: option.splits)
  have "u \<noteq> 0"
    using walk_inj[of "py_trie p" "map column py" 0 "[]"] u(1) assms(1,2) by (auto simp: pinyin_ok_def syllable_def)
  then have "getnode p py = (1, u, length py)"
    using getnode_loop_walk[OF _ u(1), of 0] assms(2) by (simp add: getnode_def syllable_def)
  then show ?thesis
    using u(2) assms(4) by (auto simp: get_pinyin_ith_han_def Let_def rd_def strlen_def mult.commute)
qed

lemma fst_loaded: "map (fst \<circ> loaded) tbl = map fst tbl"
  by (induction tbl) (simp_all add: loaded_def)

text \<open>What the loader has made of a file whose lines are distinct syllables and GBK characters.\<close>

lemma pinyin_init_lookup:
  assumes "list_all entry_ok tbl" "distinct (map fst tbl)" "sum_list (map (length \<circ> fst) tbl) < MAXNODE"
  shows "\<exists>p. pinyin_init (concat (map render tbl)) = Some p \<and> pinyin_ok p \<and>
    (\<forall>py. syllable py \<longrightarrow> lookup p py = map_option kept (map_of tbl py))"
proof -
  obtain p where p: "put_all handle_pinyin_hans empty_pinyin (map loaded tbl) = Some p"
    using put_all_room[of empty_pinyin tbl] assms(1,3) by (auto simp: empty_pinyin_def empty_trie_def)
  have v: "\<forall>(k, v)\<in>set (map loaded tbl). syllable k" using assms(1) by (auto simp: list_all_iff entry_ok_def loaded_def)
  have m: "map_of (map loaded tbl) py = map_option kept (map_of tbl py)" for py
    by (induction tbl) (auto simp: loaded_def)
  have "lookup p py = map_option kept (map_of tbl py)" if "syllable py" for py
    using pinyin_dict.get_table[OF p v _ that] assms(2) m by (simp add: fst_loaded)
  moreover have "pinyin_ok p" using pinyin_dict.put_all_inv[OF pinyin_dict.inv_empty p] .
  ultimately show ?thesis using pinyin_init_table[OF assms(1)] p by auto
qed

text \<open>
  C10: After loading a file of distinct syllables, each with its GBK characters, that fits the table, asking for the \<open>i\<close>-th
  character of a syllable of the file gives the \<open>i\<close>-th of the characters that the loader keeps and consumes the
  whole syllable, and fails exactly when there is no such character. The loader keeps the characters before the
  first one with a byte below 160.
\<close>

theorem pinyin_lookup_correct:
  assumes "list_all entry_ok tbl" "distinct (map fst tbl)" "sum_list (map (length \<circ> fst) tbl) < MAXNODE"
    "(py, h) \<in> set tbl" "0 \<le> i"
  shows "\<exists>p. pinyin_init (concat (map render tbl)) = Some p \<and> get_pinyin_ith_han p py i =
    Some (if 2 * i + 1 < strlen (kept h) then (0, (h ! nat (2 * i), h ! nat (2 * i + 1)), length py) else (-1, (0, 0), length py))"
proof -
  obtain p where p: "pinyin_init (concat (map render tbl)) = Some p" "pinyin_ok p"
    "\<forall>py. syllable py \<longrightarrow> lookup p py = map_option kept (map_of tbl py)"
    using pinyin_init_lookup[OF assms(1-3)] by blast
  have py: "syllable py" "gbk_pairs h" using assms(1,4) by (auto simp: list_all_iff entry_ok_def)
  have "lookup p py = Some (kept h)" using p(3) py(1) assms(2,4) by simp
  moreover have "kept h ! n = h ! n" if "n < length (kept h)" for n using kept_prefix[OF py(2)] that by (metis nth_append)
  ultimately show ?thesis
    using get_pinyin_ith_han_lookup[OF p(2) py(1) _ assms(5)] p(1) assms(5) by (auto simp: strlen_def nat_less_iff)
qed

text \<open>The first two lines of pinyin.txt.\<close>

definition first_lines :: "(cstring \<times> cstring) list" where
  "first_lines = [(lit ''a'', [0xB0, 0xA1, 0xB0, 0xA2, 0xBA, 0xC7, 0xDF, 0xB9, 0xE0, 0xC4, 0xEB, 0xE7, 0xEF, 0xB9, 0xE5, 0x48]),
     (lit ''aes'', [0x85, 0x81])]"

theorem pinyin_lookup_correct_witness:
  "\<exists>p. pinyin_init (concat (map render first_lines)) = Some p \<and>
     get_pinyin_ith_han p (lit ''a'') 6 = Some (0, (0xEF, 0xB9), 1)"
proof -
  let ?h = "[0xB0, 0xA1, 0xB0, 0xA2, 0xBA, 0xC7, 0xDF, 0xB9, 0xE0, 0xC4, 0xEB, 0xE7, 0xEF, 0xB9, 0xE5, 0x48] :: cstring"
  have "list_all entry_ok first_lines" "distinct (map fst first_lines)" "sum_list (map (length \<circ> fst) first_lines) < MAXNODE" by code_simp+
  moreover have "(lit ''a'', ?h) \<in> set first_lines" "(0 :: int) \<le> 6" by (simp_all add: first_lines_def)
  ultimately have "\<exists>p. pinyin_init (concat (map render first_lines)) = Some p \<and> get_pinyin_ith_han p (lit ''a'') 6 =
    Some (if 2 * 6 + 1 < strlen (kept ?h) then (0, (?h ! nat (2 * 6), ?h ! nat (2 * 6 + 1)), length (lit ''a''))
      else (-1, (0, 0), length (lit ''a'')))"
    by (rule pinyin_lookup_correct)
  moreover have "(if 2 * 6 + 1 < strlen (kept ?h) then (0, (?h ! nat (2 * 6), ?h ! nat (2 * 6 + 1)), length (lit ''a''))
      else (-1 :: int, (0 :: byte, 0 :: byte), length (lit ''a''))) = (0, (0xEF, 0xB9), 1)" by code_simp
  ultimately show ?thesis by simp
qed

text \<open>
  The loader gives up at the first character with a byte below 160, although GBK has many of them: of three neighbouring characters of the line of
  ``ai'' only the first is found, and neither the second nor the third, whose bytes are both at least 160; a syllable whose
  first character has such a byte has no characters at all.
\<close>

lemma pinyin_init_drops:
  "case pinyin_init (concat (map render ((lit ''ai'', [0xF6, 0xB0, 0x81, 0x56, 0xC4, 0xCB]) # first_lines))) of
     None \<Rightarrow> False
   | Some p \<Rightarrow> map (get_pinyin_ith_han p (lit ''ai'')) [0, 1, 2] =
       [Some (0, (0xF6, 0xB0), 2), Some (- 1, (0, 0), 2), Some (- 1, (0, 0), 2)] \<and>
       get_pinyin_ith_han p (lit ''aes'') 0 = Some (- 1, (0, 0), 3)"
  by code_simp

end
