(* ===== verification/Highlight.thy ===== *)
theory Highlight
  imports Trie
begin

text \<open>
  The syntax highlighter (src/src/highlight.c): a trie of keywords with a colour per word, fed
  with one character at a time.
\<close>

record highlight =
  hl_trie :: trie
  deep :: "nat \<Rightarrow> nat"
  colors :: "nat \<Rightarrow> int"
  include_alls :: "nat \<Rightarrow> int"

definition empty_highlight :: highlight where
  "empty_highlight = \<lparr>hl_trie = empty_trie, deep = (\<lambda>_. 0), colors = (\<lambda>_. 0), include_alls = (\<lambda>_. 0)\<rparr>"

text \<open>Keywords and colours; a colour is packed as 5, 6 and 5 bits.\<close>

definition RGB :: "int \<Rightarrow> int \<Rightarrow> int \<Rightarrow> int" where
  "RGB r g b = (r div 8) * 2048 + (g div 4) * 32 + b div 8"

definition keyword_types :: "cstring list" where
  "keyword_types = map lit [''int'', ''short'', ''char'', ''void'', ''long'', ''float'', ''double'']"

definition reserve :: "cstring list" where
  "reserve = map lit [''if'', ''else'', ''while'', ''continue'', ''break'', ''for'', ''inline'', ''struct'', ''return'']"

definition special :: "cstring list" where
  "special = map lit [''#'', ''//'']"

definition types_color :: int where "types_color = RGB 2 100 255"
definition reserve_color :: int where "reserve_color = RGB 152 1 152"
definition special_color :: int where "special_color = RGB 0 133 30"

text \<open>
  The result of \<open>highlight_update\<close> is the return value, the new status, colour and count; the
  last two keep their values when it returns \<open>-1\<close>.
\<close>

definition is_word_char :: "byte \<Rightarrow> bool" where
  "is_word_char c \<longleftrightarrow> (97 \<le> c \<and> c \<le> 122) \<or> (48 \<le> c \<and> c \<le> 57) \<or> c = 95"

definition highlight_update :: "highlight \<Rightarrow> byte \<Rightarrow> nat \<times> int \<times> int \<Rightarrow> int \<times> nat \<times> int \<times> int" where
  "highlight_update h c st =
     (let (u, color, count) = st;
          nextu = child (hl_trie h) u (unat c)
      in if colors h u \<noteq> 0 \<and> nextu = 0 \<and> \<not> is_word_char c
         then (0, nextu, colors h u, int (deep h u))
         else if colors h u \<noteq> 0 \<and> nextu = u
         then (0, nextu, colors h u, 1)
         else if colors h nextu \<noteq> 0 \<and> include_alls h nextu \<noteq> 0
         then (0, nextu, colors h nextu, int (deep h nextu) - 1)
         else (-1, nextu, color, count))"

fun highlight_run :: "highlight \<Rightarrow> cstring \<Rightarrow> nat \<times> int \<times> int \<Rightarrow> nat \<times> int \<times> int" where
  "highlight_run h [] st = st"
| "highlight_run h (c # s) st = highlight_run h s (snd (highlight_update h c st))"

text \<open>The loop of \<^verbatim>\<open>insert\<close>; the tables have 200 rows.\<close>

fun insert_word :: "highlight \<Rightarrow> nat \<Rightarrow> cstring \<Rightarrow> (highlight \<times> nat) option" where
  "insert_word h u [] = Some (h, u)"
| "insert_word h u (b # s) =
     (let t = hl_trie h; c = unat b in
      if child t u c = 0 then
        let v = n_nodes t + 1 in
        if v < 200 then
          insert_word (h\<lparr>hl_trie := t\<lparr>n_nodes := v, child := (child t)(u := (child t u)(c := v))\<rparr>,
                         deep := (deep h)(v := deep h u + 1)\<rparr>) v s
        else None
      else insert_word h (child t u c) s)"

definition highlight_insert :: "highlight \<Rightarrow> cstring \<Rightarrow> bool \<Rightarrow> (highlight \<times> nat) option" where
  "highlight_insert h s include_any = do {
     (h, u) \<leftarrow> insert_word h 0 s;
     Some (if include_any
           then (h\<lparr>hl_trie := (hl_trie h)\<lparr>child := (child (hl_trie h))(u := (\<lambda>i. if i < 256 then u else child (hl_trie h) u i))\<rparr>,
                   include_alls := (include_alls h)(u := 1)\<rparr>, u)
           else (h, u)) }"

definition color_word :: "bool \<Rightarrow> highlight \<Rightarrow> cstring \<Rightarrow> int \<Rightarrow> highlight option" where
  "color_word include_any h s color = do {
     (h, u) \<leftarrow> highlight_insert h s include_any;
     Some (h\<lparr>colors := (colors h)(u := color)\<rparr>) }"

definition word_table :: "(cstring \<times> int) list" where
  "word_table = map (\<lambda>s. (s, types_color)) keyword_types @ map (\<lambda>s. (s, reserve_color)) reserve"

definition special_table :: "(cstring \<times> int) list" where
  "special_table = map (\<lambda>s. (s, special_color)) special"

definition highlight_init :: "highlight option" where
  "highlight_init = do {
     h \<leftarrow> put_all (color_word False) empty_highlight word_table;
     put_all (color_word True) h special_table }"

section \<open>Words as a dictionary\<close>

definition hl_ok :: "highlight \<Rightarrow> bool" where
  "hl_ok h \<longleftrightarrow> trie_ok (hl_trie h) \<and> deep h 0 = 0 \<and>
     (\<forall>k u. walk (hl_trie h) 0 k = Some u \<longrightarrow> deep h u = length k) \<and>
     (\<forall>u. colors h u \<noteq> 0 \<longrightarrow> (\<exists>k. walk (hl_trie h) 0 k = Some u))"

definition word_color :: "highlight \<Rightarrow> cstring \<Rightarrow> int option" where
  "word_color h s = (case walk (hl_trie h) 0 (map unat s) of None \<Rightarrow> None
     | Some u \<Rightarrow> if colors h u = 0 then None else Some (colors h u))"

text \<open>Colouring a word with a colour, as the initialisation does; colour 0 means none.\<close>

definition put_word :: "highlight \<Rightarrow> cstring \<Rightarrow> int \<Rightarrow> highlight option" where
  "put_word h s color = (if color = 0 then None else color_word False h s color)"

lemma insert_word_trie:
  "insert_word h u s = Some (h', v) \<Longrightarrow> trie_insert 200 (hl_trie h) u (map unat s) = Some (hl_trie h', v) \<and>
     colors h' = colors h \<and> include_alls h' = include_alls h"
proof (induction s arbitrary: h u)
  case (Cons b s)
  let ?t = "hl_trie h"
  show ?case
  proof (cases "child ?t u (unat b) = 0")
    case True
    with Cons.prems have lt: "n_nodes ?t + 1 < 200" and
      ins: "insert_word (h\<lparr>hl_trie := ?t\<lparr>n_nodes := n_nodes ?t + 1, child := (child ?t)(u := (child ?t u)(unat b := n_nodes ?t + 1))\<rparr>,
         deep := (deep h)(n_nodes ?t + 1 := deep h u + 1)\<rparr>) (n_nodes ?t + 1) s = Some (h', v)"
      by (auto simp: Let_def split: if_splits)
    from Cons.IH[OF ins] True lt show ?thesis by (simp add: Let_def)
  next
    case False
    with Cons show ?thesis by (simp add: Let_def)
  qed
qed simp

lemma insert_word_deep:
  assumes "trie_ok (hl_trie h)" "walk (hl_trie h) 0 p = Some u"
    "\<forall>k w. walk (hl_trie h) 0 k = Some w \<longrightarrow> deep h w = length k" "insert_word h u s = Some (h', v)"
  shows "\<forall>k w. walk (hl_trie h') 0 k = Some w \<longrightarrow> deep h' w = length k"
  using assms
proof (induction s arbitrary: h u p)
  case (Cons b s)
  let ?t = "hl_trie h" and ?c = "unat b"
  show ?case
  proof (cases "child ?t u ?c = 0")
    case True
    let ?h = "h\<lparr>hl_trie := grow ?t u ?c, deep := (deep h)(Suc (n_nodes ?t) := deep h u + 1)\<rparr>"
    have u: "u \<le> n_nodes ?t" using walk_bound[OF Cons.prems(1,2)] by simp
    have "insert_word ?h (Suc (n_nodes ?t)) s = Some (h', v)"
      using Cons.prems(4) True by (auto simp: Let_def grow_def split: if_splits)
    moreover have "trie_ok (hl_trie ?h)" using grow_ok[OF Cons.prems(1) u True] by simp
    moreover have "walk (hl_trie ?h) 0 (p @ [?c]) = Some (Suc (n_nodes ?t))"
      using grow_walk_keep[OF True Cons.prems(2)] by (simp add: walk_append child_grow)
    moreover have "deep ?h w = length k" if k: "walk (hl_trie ?h) 0 k = Some w" for k w
    proof -
      from k have "walk (grow ?t u ?c) 0 k = Some w" by simp
      from grow_walk_new[OF Cons.prems(1) True u _ this]
      consider "walk ?t 0 k = Some w" | k1 where "k = k1 @ [?c]" "walk ?t 0 k1 = Some u" "w = Suc (n_nodes ?t)"
        by auto
      then show ?thesis
      proof cases
        case 1
        with walk_bound[OF Cons.prems(1) 1] Cons.prems(3) show ?thesis by auto
      next
        case 2
        with Cons.prems(3) show ?thesis by simp
      qed
    qed
    ultimately show ?thesis using Cons.IH[of ?h "p @ [?c]" "Suc (n_nodes ?t)"] by blast
  next
    case False
    have "walk ?t 0 (p @ [?c]) = Some (child ?t u ?c)" using Cons.prems(2) False by (simp add: walk_append)
    with Cons.IH[of h "p @ [?c]" "child ?t u ?c"] Cons.prems False show ?thesis by simp
  qed
qed simp

lemma unat_inj: "map unat (a :: byte list) = map unat b \<Longrightarrow> a = b"
  by (metis injI list.inj_map_strong map_injective word_unat_eq_iff)

lemma put_word_insert:
  assumes "put_word h s v = Some h'"
  obtains h1 u where "v \<noteq> 0" "insert_word h 0 s = Some (h1, u)" "h' = h1\<lparr>colors := (colors h)(u := v)\<rparr>"
    "trie_insert 200 (hl_trie h) 0 (map unat s) = Some (hl_trie h1, u)"
  using assms insert_word_trie[of h 0 s]
  by (auto simp: put_word_def color_word_def highlight_insert_def split: if_splits bind_splits)

lemma put_word_ok:
  assumes "hl_ok h" "put_word h s v = Some h'"
  shows "hl_ok h'"
proof -
  obtain h1 u where ins: "insert_word h 0 s = Some (h1, u)" "h' = h1\<lparr>colors := (colors h)(u := v)\<rparr>"
    "trie_insert 200 (hl_trie h) 0 (map unat s) = Some (hl_trie h1, u)"
    using assms(2) by (rule put_word_insert)
  have ok: "trie_ok (hl_trie h)" using assms(1) by (simp add: hl_ok_def)
  note t = trie_insert_ok[OF ok walk.simps(1) ins(3), unfolded append_Nil]
  have d: "\<forall>k w. walk (hl_trie h1) 0 k = Some w \<longrightarrow> deep h1 w = length k"
    using insert_word_deep[OF ok walk.simps(1) _ ins(1)] assms(1) by (simp add: hl_ok_def)
  moreover have "deep h1 0 = 0" using d[rule_format, of "[]" 0] by simp
  moreover have "\<exists>k. walk (hl_trie h1) 0 k = Some w" if "colors h' w \<noteq> 0" for w
  proof (cases "w = u")
    case True
    with t(2) show ?thesis by blast
  next
    case False
    with that have "colors h w \<noteq> 0" by (simp add: ins(2))
    with assms(1) t(3) show ?thesis unfolding hl_ok_def by blast
  qed
  ultimately show ?thesis using t(1) by (simp add: hl_ok_def ins(2))
qed

lemma put_word_color:
  assumes "hl_ok h" "put_word h s v = Some h'"
  shows "word_color h' s' = (if s' = s then Some v else word_color h s')"
proof -
  obtain h1 u where ins: "v \<noteq> 0" "h' = h1\<lparr>colors := (colors h)(u := v)\<rparr>"
    "trie_insert 200 (hl_trie h) 0 (map unat s) = Some (hl_trie h1, u)"
    using assms(2) by (rule put_word_insert)
  have ok: "trie_ok (hl_trie h)" using assms(1) by (simp add: hl_ok_def)
  note t = trie_insert_ok[OF ok walk.simps(1) ins(3), unfolded append_Nil]
  show ?thesis
  proof (cases "s' = s")
    case True
    with t(2) ins show ?thesis by (simp add: word_color_def)
  next
    case False
    then have k: "map unat s' \<noteq> map unat s" using unat_inj by blast
    show ?thesis
    proof (cases "walk (hl_trie h1) 0 (map unat s')")
      case None
      with t(3)[of "map unat s'"] have "walk (hl_trie h) 0 (map unat s') = None"
        by (cases "walk (hl_trie h) 0 (map unat s')") auto
      with None False ins(2) show ?thesis by (simp add: word_color_def)
    next
      case (Some w)
      have wu: "w \<noteq> u" using walk_inj[OF t(1) Some, of "map unat s"] t(2) k by blast
      show ?thesis
      proof (cases "walk (hl_trie h) 0 (map unat s')")
        case None
        have "walk (hl_trie h) 0 k \<noteq> Some w" for k
          using t(3)[of k w] walk_inj[OF t(1) Some] None by (cases "k = map unat s'") auto
        then have "colors h w = 0" using assms(1) by (auto simp: hl_ok_def)
        with None Some wu False ins(2) show ?thesis by (simp add: word_color_def)
      next
        case w': (Some w')
        with t(3)[OF w'] Some wu False ins(2) show ?thesis by (simp add: word_color_def)
      qed
    qed
  qed
qed

interpretation word_dict: dictionary hl_ok "\<lambda>s. s \<noteq> []" empty_highlight put_word word_color
proof
  show "hl_ok empty_highlight"
    using walk_empty by (auto simp: hl_ok_def empty_highlight_def trie_ok_empty)
  show "word_color empty_highlight k = None" for k
    by (simp add: word_color_def empty_highlight_def split: option.splits)
  show "hl_ok s'" if "hl_ok s" "put_word s k v = Some s'" for s k v s'
    using that by (rule put_word_ok)
  show "word_color s' k' = (if k' = k then Some v else word_color s k')"
    if "hl_ok s" "k \<noteq> []" "k' \<noteq> []" "put_word s k v = Some s'" for s k k' v s'
    using that by (intro put_word_color)
qed

section \<open>A keyword is coloured\<close>

text \<open>
  What is needed of a word in the table for \<open>highlight_update\<close>: its path, its colour and length,
  and that no word goes on after it with one of the characters \<open>D\<close>.
\<close>

definition has_word :: "nat set \<Rightarrow> highlight \<Rightarrow> cstring \<Rightarrow> int \<Rightarrow> bool" where
  "has_word D h s color \<longleftrightarrow> (\<exists>u. walk (hl_trie h) 0 (map unat s) = Some u \<and> colors h u = color \<and>
     deep h u = length s \<and> (\<forall>d\<in>D. child (hl_trie h) u d = 0))"

lemma highlight_run_status:
  "walk (hl_trie h) u (map unat s) = Some v \<Longrightarrow> \<exists>color' count'. highlight_run h s (u, color, count) = (v, color', count')"
proof (induction s arbitrary: u color count)
  case (Cons b s)
  let ?v = "child (hl_trie h) u (unat b)"
  have v: "walk (hl_trie h) ?v (map unat s) = Some v" using Cons.prems by (simp split: if_splits)
  have "fst (snd (highlight_update h b (u, color, count))) = ?v" by (simp add: highlight_update_def Let_def)
  then obtain r color1 count1 where "highlight_update h b (u, color, count) = (r, ?v, color1, count1)"
    by (cases "highlight_update h b (u, color, count)") auto
  with Cons.IH[OF v, of color1 count1] show ?case by simp
qed simp

lemma highlight_run_append: "highlight_run h (a @ b) st = highlight_run h b (highlight_run h a st)"
  by (induction a arbitrary: st) auto

lemma has_word_colored:
  assumes "has_word D h s color" "color \<noteq> 0" "unat d \<in> D" "\<not> is_word_char d"
  shows "highlight_update h d (highlight_run h s (0, color0, count0)) = (0, 0, color, int (length s))"
proof -
  obtain u where u: "walk (hl_trie h) 0 (map unat s) = Some u" "colors h u = color" "deep h u = length s"
    "child (hl_trie h) u (unat d) = 0"
    using assms(1,3) by (auto simp: has_word_def)
  obtain c n where "highlight_run h s (0, color0, count0) = (u, c, n)"
    using highlight_run_status[OF u(1)] by blast
  with u assms(2,4) show ?thesis by (simp add: highlight_update_def)
qed

text \<open>All paths of the trie are prefixes of words, so no path leaves the letters.\<close>

definition letters :: "nat set" where "letters = {97..122}"

definition letter_paths :: "trie \<Rightarrow> bool" where
  "letter_paths t \<longleftrightarrow> (\<forall>k u. walk t 0 k = Some u \<longrightarrow> set k \<subseteq> letters)"

lemma put_word_letters:
  assumes "hl_ok h" "letter_paths (hl_trie h)" "put_word h s v = Some h'" "unat ` set s \<subseteq> letters"
  shows "letter_paths (hl_trie h')"
proof -
  obtain h1 u where ins: "h' = h1\<lparr>colors := (colors h)(u := v)\<rparr>"
    "trie_insert 200 (hl_trie h) 0 (map unat s) = Some (hl_trie h1, u)"
    using assms(3) by (rule put_word_insert)
  have ok: "trie_ok (hl_trie h)" using assms(1) by (simp add: hl_ok_def)
  have "set k \<subseteq> letters" if "walk (hl_trie h1) 0 k = Some w" for k w
    using trie_insert_ok(4)[OF ok walk.simps(1) ins(2) that] assms(2,4)
    by (auto simp: letter_paths_def) (metis in_set_takeD list.set_map subsetD)
  then show ?thesis by (simp add: letter_paths_def ins(1))
qed

lemma put_all_letters:
  "hl_ok h \<Longrightarrow> letter_paths (hl_trie h) \<Longrightarrow> put_all put_word h kvs = Some h' \<Longrightarrow>
   \<forall>(k, v)\<in>set kvs. unat ` set k \<subseteq> letters \<Longrightarrow> letter_paths (hl_trie h')"
proof (induction kvs arbitrary: h)
  case (Cons kv kvs)
  obtain k v where kv: "kv = (k, v)" by (cases kv)
  then obtain h1 where h1: "put_word h k v = Some h1" "put_all put_word h1 kvs = Some h'"
    using Cons.prems(3) by (auto simp: bind_eq_Some_conv)
  have "letter_paths (hl_trie h1)"
    using put_word_letters[OF Cons.prems(1,2) h1(1)] Cons.prems(4) kv by auto
  with Cons.IH[OF put_word_ok[OF Cons.prems(1) h1(1)] _ h1(2)] Cons.prems(4) show ?case by auto
qed simp

lemma put_all_put_word: "\<forall>(k, v)\<in>set kvs. v \<noteq> 0 \<Longrightarrow> put_all put_word h kvs = put_all (color_word False) h kvs"
proof (induction kvs arbitrary: h)
  case (Cons kv kvs)
  obtain k v where kv: "kv = (k, v)" by (cases kv)
  with Cons show ?case by (cases "color_word False h k v") (auto simp: put_word_def)
qed simp

lemma table_has_word:
  assumes "put_all put_word empty_highlight kvs = Some h" "\<forall>(k, v)\<in>set kvs. k \<noteq> [] \<and> unat ` set k \<subseteq> letters"
    "distinct (map fst kvs)" "(s, color) \<in> set kvs"
  shows "has_word (- letters) h s color"
proof -
  have ok: "hl_ok h" by (rule word_dict.put_all_inv[OF word_dict.inv_empty assms(1)])
  have "letter_paths (hl_trie empty_highlight)"
    using walk_empty by (auto simp: letter_paths_def empty_highlight_def)
  then have lp: "letter_paths (hl_trie h)"
    using put_all_letters[OF word_dict.inv_empty _ assms(1)] assms(2) by fast
  have "word_color h s = Some color"
    using word_dict.get_table[OF assms(1) _ assms(3), of s] assms(2-4) by auto
  then obtain u where u: "walk (hl_trie h) 0 (map unat s) = Some u" "colors h u = color"
    by (auto simp: word_color_def split: option.splits if_splits)
  have "child (hl_trie h) u d = 0" if "d \<notin> letters" for d
  proof (rule ccontr)
    assume "child (hl_trie h) u d \<noteq> 0"
    then have "walk (hl_trie h) 0 (map unat s @ [d]) = Some (child (hl_trie h) u d)" using u(1) by (simp add: walk_append)
    with lp that show False by (auto simp: letter_paths_def)
  qed
  with u ok show ?thesis by (auto simp: has_word_def hl_ok_def)
qed

section \<open>Adding the special strings\<close>

text \<open>
  The strings \<^verbatim>\<open>#\<close> and \<^verbatim>\<open>//\<close> get nodes that lead to themselves, so the trie is no tree any more;
  it keeps that no edge leaves the nodes in use, which is enough for the words to stay as they are.
\<close>

definition closed_trie :: "trie \<Rightarrow> bool" where
  "closed_trie t \<longleftrightarrow> (\<forall>u c. child t u c \<le> n_nodes t) \<and> (\<forall>u c. n_nodes t < u \<longrightarrow> child t u c = 0)"

lemma trie_ok_closed: "trie_ok t \<Longrightarrow> closed_trie t"
  unfolding closed_trie_def by (metis trie_okD(1,3) le_numeral_extra(3) not_less zero_le)

lemma walk_closed: "closed_trie t \<Longrightarrow> u \<le> n_nodes t \<Longrightarrow> walk t u k = Some v \<Longrightarrow> v \<le> n_nodes t"
  by (induction k arbitrary: u) (auto simp: closed_trie_def split: if_splits)

text \<open>Below a new node only new nodes are made.\<close>

lemma insert_word_fresh:
  assumes "insert_word h u s = Some (h', v)" "closed_trie (hl_trie h)" "n < u" "u \<le> n_nodes (hl_trie h)"
    "\<And>w c. n < w \<Longrightarrow> child (hl_trie h) w c = 0 \<or> n < child (hl_trie h) w c"
  shows "closed_trie (hl_trie h') \<and> n < v \<and> v \<le> n_nodes (hl_trie h') \<and> n_nodes (hl_trie h) \<le> n_nodes (hl_trie h') \<and>
    (\<forall>w\<le>n. child (hl_trie h') w = child (hl_trie h) w \<and> deep h' w = deep h w)"
  using assms
proof (induction s arbitrary: h u)
  case (Cons b s)
  let ?t = "hl_trie h" and ?c = "unat b"
  show ?case
  proof (cases "child ?t u ?c = 0")
    case True
    let ?h = "h\<lparr>hl_trie := grow ?t u ?c, deep := (deep h)(Suc (n_nodes ?t) := deep h u + 1)\<rparr>"
    have "insert_word ?h (Suc (n_nodes ?t)) s = Some (h', v)"
      using Cons.prems(1) True by (auto simp: Let_def grow_def split: if_splits)
    moreover have "closed_trie (hl_trie ?h)"
      using Cons.prems(2,4) by (auto simp: closed_trie_def child_grow le_SucI)
    moreover have "child (hl_trie ?h) w c = 0 \<or> n < child (hl_trie ?h) w c" if "n < w" for w c
      using Cons.prems(3,4) Cons.prems(5)[of w c] that by (auto simp: child_grow)
    ultimately have ih: "closed_trie (hl_trie h') \<and> n < v \<and> v \<le> n_nodes (hl_trie h') \<and>
      n_nodes (hl_trie ?h) \<le> n_nodes (hl_trie h') \<and>
      (\<forall>w\<le>n. child (hl_trie h') w = child (hl_trie ?h) w \<and> deep h' w = deep ?h w)"
      using Cons.IH[of ?h "Suc (n_nodes ?t)"] Cons.prems(3,4) by simp
    have "child (hl_trie ?h) w = child ?t w" "deep ?h w = deep h w" if "w \<le> n" for w
      using that Cons.prems(3,4) by (auto simp: fun_eq_iff child_grow)
    with ih show ?thesis by auto
  next
    case False
    then have "n < child ?t u ?c" "child ?t u ?c \<le> n_nodes ?t"
      using Cons.prems(5)[of u ?c] Cons.prems(2,3) by (auto simp: closed_trie_def)
    with Cons.IH[of h "child ?t u ?c"] Cons.prems False show ?thesis by simp
  qed
qed simp

lemma color_special_keeps_word:
  assumes "color_word True h (b # s) color = Some h'" "closed_trie (hl_trie h)" "child (hl_trie h) 0 (unat b) = 0"
    "has_word (- letters) h k v" "unat b \<notin> letters" "k \<noteq> []" "unat ` set k \<subseteq> letters" "deep h 0 = 0"
  shows "has_word (- letters) h' k v \<and> closed_trie (hl_trie h') \<and> deep h' 0 = 0 \<and>
    (\<forall>c. c \<noteq> unat b \<longrightarrow> child (hl_trie h') 0 c = child (hl_trie h) 0 c)"
proof -
  let ?t = "hl_trie h" and ?n = "n_nodes (hl_trie h)"
  let ?h = "h\<lparr>hl_trie := grow ?t 0 (unat b), deep := (deep h)(Suc ?n := deep h 0 + 1)\<rparr>"
  obtain h1 u where ins: "insert_word h 0 (b # s) = Some (h1, u)"
    and h': "h' = h1\<lparr>hl_trie := (hl_trie h1)\<lparr>child := (child (hl_trie h1))(u := (\<lambda>i. if i < 256 then u else child (hl_trie h1) u i))\<rparr>,
       include_alls := (include_alls h1)(u := 1), colors := (colors h1)(u := color)\<rparr>"
    using assms(1) by (auto simp: color_word_def highlight_insert_def split: bind_splits)
  from ins assms(3) have "insert_word ?h (Suc ?n) s = Some (h1, u)"
    by (auto simp: Let_def grow_def split: if_splits)
  moreover have cl: "closed_trie (hl_trie ?h)" using assms(2) by (auto simp: closed_trie_def child_grow le_SucI)
  moreover have "child (hl_trie ?h) w c = 0 \<or> ?n < child (hl_trie ?h) w c" if "?n < w" for w c
    using that assms(2) by (auto simp: closed_trie_def child_grow)
  ultimately have f: "closed_trie (hl_trie h1)" "?n < u" "u \<le> n_nodes (hl_trie h1)"
      "\<And>w. w \<le> ?n \<Longrightarrow> child (hl_trie h1) w = child (hl_trie ?h) w \<and> deep h1 w = deep ?h w"
    using insert_word_fresh[of ?h "Suc ?n" s h1 u ?n] by auto
  have same: "child (hl_trie h') w c = child ?t w c" "deep h' w = deep h w" "colors h' w = colors h w"
    if "w \<le> ?n" "w \<noteq> 0 \<or> c \<noteq> unat b" for w c
    using that f(2,4) h' insert_word_trie[OF ins] by (auto simp: child_grow)
  have wk: "walk (hl_trie h') w ks = walk ?t w ks" if "w \<le> ?n" "set ks \<subseteq> letters" for w ks
    using that
  proof (induction ks arbitrary: w)
    case (Cons c ks)
    then have "child (hl_trie h') w c = child ?t w c" using same(1)[of w c] assms(5) by auto
    with Cons assms(2) show ?case by (simp add: closed_trie_def)
  qed simp
  obtain x where x: "walk ?t 0 (map unat k) = Some x" "colors h x = v" "deep h x = length k" "\<forall>d\<in>- letters. child ?t x d = 0"
    using assms(4) by (auto simp: has_word_def)
  have xn: "x \<le> ?n" using walk_closed[OF assms(2) _ x(1)] by simp
  have x0: "x \<noteq> 0" using x(3) assms(6,8) by (cases "x = 0") auto
  have "walk (hl_trie h') 0 (map unat k) = Some x" using wk[of 0 "map unat k"] x(1) assms(7) by simp
  moreover have "closed_trie (hl_trie h')"
    using f(1,2,3) h' by (auto simp: closed_trie_def)
  ultimately show ?thesis
    using same[of x] same(1)[of 0] same(2)[of 0 "Suc (unat b)"] xn x0 x assms(5,8) by (auto simp: has_word_def)
qed

lemma init_has_word:
  assumes "highlight_init = Some h" "(s, color) \<in> set word_table"
  shows "has_word (- letters) h s color"
proof -
  have tbl: "\<forall>(k, v)\<in>set word_table. k \<noteq> [] \<and> unat ` set k \<subseteq> letters" "distinct (map fst word_table)"
    "\<forall>(k, v)\<in>set word_table. v \<noteq> 0"
    by (simp_all add: letters_def) code_simp+
  obtain h0 h1 where h0: "put_all (color_word False) empty_highlight word_table = Some h0"
    and h1: "color_word True h0 (lit ''#'') special_color = Some h1" "color_word True h1 (lit ''//'') special_color = Some h"
    using assms(1) by (auto simp: highlight_init_def special_table_def special_def bind_eq_Some_conv)
  have p0: "put_all put_word empty_highlight word_table = Some h0"
    using put_all_put_word[OF tbl(3)] h0 by simp
  have ok: "hl_ok h0" by (rule word_dict.put_all_inv[OF word_dict.inv_empty p0])
  have w0: "has_word (- letters) h0 s color" by (rule table_has_word[OF p0 tbl(1,2) assms(2)])
  have "letter_paths (hl_trie empty_highlight)"
    using walk_empty by (auto simp: letter_paths_def empty_highlight_def)
  then have lp: "letter_paths (hl_trie h0)"
    using put_all_letters[OF word_dict.inv_empty _ p0] tbl(1) by fast
  have root: "child (hl_trie h0) 0 c = 0" if "c \<notin> letters" for c
    using lp that walk.simps[of "hl_trie h0"] by (auto simp: letter_paths_def) (metis list.set_intros(1) subsetD walk.simps)
  have k: "s \<noteq> []" "unat ` set s \<subseteq> letters" using bspec[OF tbl(1) assms(2)] by simp_all
  have hash: "lit ''#'' = 35 # []" "lit ''//'' = 47 # [47]" by code_simp+
  have nl: "unat (35 :: byte) \<notin> letters" "unat (47 :: byte) \<notin> letters" "unat (47 :: byte) \<noteq> unat (35 :: byte)"
    by (simp_all add: letters_def)
  have a: "has_word (- letters) h1 s color \<and> closed_trie (hl_trie h1) \<and> deep h1 0 = 0 \<and>
      (\<forall>c. c \<noteq> unat (35 :: byte) \<longrightarrow> child (hl_trie h1) 0 c = child (hl_trie h0) 0 c)"
    using color_special_keeps_word[OF h1(1)[unfolded hash] _ root[OF nl(1)] w0 nl(1) k] ok
    by (simp add: hl_ok_def trie_ok_closed)
  then have "child (hl_trie h1) 0 (unat (47 :: byte)) = 0" using root[OF nl(2)] nl(3) by metis
  with a color_special_keeps_word[OF h1(2)[unfolded hash] _ _ _ nl(2) k] show ?thesis by blast
qed

text \<open>
  C13: after initialisation, reading a keyword from the start state and then a character that
  cannot continue a word reports the keyword's colour and exactly its length, and returns to the
  start state.
\<close>

theorem keyword_highlighted:
  assumes "highlight_init = Some h" "(s, color) \<in> set word_table" "\<not> is_word_char d"
  shows "highlight_update h d (highlight_run h s (0, color0, count0)) = (0, 0, color, int (length s))"
proof (rule has_word_colored[OF init_has_word[OF assms(1,2)] _ _ assms(3)])
  have "\<forall>(k, v)\<in>set word_table. v \<noteq> 0" by code_simp
  with assms(2) show "color \<noteq> 0" by auto
  show "unat d \<in> - letters" using assms(3) by (auto simp: letters_def is_word_char_def word_le_nat_alt)
qed

text \<open>The initialisation does not run out of nodes; \<open>int\<close> before a space is coloured.\<close>

lemma highlight_init_room: "\<exists>h. highlight_init = Some h"
proof -
  have "\<not> Option.is_none highlight_init" by code_simp
  then show ?thesis by (cases highlight_init) (auto simp: Option.is_none_def)
qed

theorem keyword_highlighted_witness:
  "\<exists>h. highlight_init = Some h \<and>
     highlight_update h 32 (highlight_run h (lit ''int'') (0, 0, 0)) = (0, 0, types_color, 3)"
proof -
  obtain h where h: "highlight_init = Some h" using highlight_init_room by blast
  have "(lit ''int'', types_color) \<in> set word_table" "\<not> is_word_char 32" "length (lit ''int'') = 3" by code_simp+
  with keyword_highlighted[OF h, of "lit ''int''" types_color 32 0 0]
  have "highlight_update h 32 (highlight_run h (lit ''int'') (0, 0, 0)) = (0, 0, types_color, 3)" by simp
  with h show ?thesis by blast
qed

text \<open>The automaton also restarts inside of a word: the end of \<^verbatim>\<open>paint\<close> is taken for \<^verbatim>\<open>int\<close>.\<close>

lemma highlight_inside_word:
  "map_option (\<lambda>h. highlight_update h 32 (highlight_run h (lit ''paint'') (0, 0, 0))) highlight_init =
     Some (0, 0, types_color, 3)"
  by code_simp

end
