(* ===== verification/Fifo.thy ===== *)
theory Fifo
  imports Prelude
begin

text \<open>
  The contract of the bounded queues of the system: a state has contents, putting an element
  appends it while there is room, and getting takes the first one. The message queue and the
  pipe provide it.
\<close>

fun put_list :: "('a \<Rightarrow> 's \<Rightarrow> 's) \<Rightarrow> 'a list \<Rightarrow> 's \<Rightarrow> 's" where
  "put_list put [] s = s"
| "put_list put (a # as) s = put_list put as (put a s)"

fun get_list :: "('s \<Rightarrow> 'a \<times> 's) \<Rightarrow> nat \<Rightarrow> 's \<Rightarrow> 'a list \<times> 's" where
  "get_list get 0 s = ([], s)"
| "get_list get (Suc n) s = (let (a, s) = get s; (as, s) = get_list get n s in (a # as, s))"

locale bounded_fifo =
  fixes wf :: "'s \<Rightarrow> bool" and cap :: nat and contents :: "'s \<Rightarrow> 'a list"
    and put :: "'a \<Rightarrow> 's \<Rightarrow> 's" and get :: "'s \<Rightarrow> 'a \<times> 's"
  assumes put_wf: "wf s \<Longrightarrow> length (contents s) < cap \<Longrightarrow> wf (put a s)"
    and put_contents: "wf s \<Longrightarrow> length (contents s) < cap \<Longrightarrow> contents (put a s) = contents s @ [a]"
    and get_wf: "wf s \<Longrightarrow> contents s = a # as \<Longrightarrow> wf (snd (get s))"
    and get_first: "wf s \<Longrightarrow> contents s = a # as \<Longrightarrow> fst (get s) = a"
    and get_contents: "wf s \<Longrightarrow> contents s = a # as \<Longrightarrow> contents (snd (get s)) = as"
begin

lemma put_list_contents:
  "wf s \<Longrightarrow> length (contents s) + length as \<le> cap \<Longrightarrow>
   wf (put_list put as s) \<and> contents (put_list put as s) = contents s @ as"
proof (induction as arbitrary: s)
  case (Cons a as)
  then have "length (contents s) < cap" by simp
  with Cons.IH[of "put a s"] Cons.prems put_wf put_contents show ?case by simp
qed simp

lemma get_list_contents:
  "wf s \<Longrightarrow> n \<le> length (contents s) \<Longrightarrow>
   fst (get_list get n s) = take n (contents s) \<and> wf (snd (get_list get n s)) \<and>
   contents (snd (get_list get n s)) = drop n (contents s)"
proof (induction n arbitrary: s)
  case (Suc n)
  then obtain a as where c: "contents s = a # as" by (cases "contents s") auto
  obtain b s' where g: "get s = (b, s')" by (cases "get s")
  have s': "wf s'" "contents s' = as" "b = a"
    using get_wf[OF Suc.prems(1) c] get_contents[OF Suc.prems(1) c] get_first[OF Suc.prems(1) c] g by auto
  with Suc.IH[of s'] Suc.prems(2) c g show ?case by (simp add: case_prod_beta Let_def)
qed simp

text \<open>What is put comes out in the same order, after what was there.\<close>

lemma put_get:
  assumes "wf s" "length (contents s) + length as \<le> cap"
  shows "fst (get_list get (length (contents s) + length as) (put_list put as s)) = contents s @ as"
proof -
  have p: "wf (put_list put as s)" "contents (put_list put as s) = contents s @ as"
    using put_list_contents[OF assms] by auto
  show ?thesis using get_list_contents[OF p(1)] by (simp add: p(2))
qed

end

end
