(* ===== verification/Messages.thy ===== *)
theory Messages
  imports Fifo Widgets
begin

text \<open>
  The queue of keyboard and mouse messages (src/src/sys_get_msg.c) and the encoding of a message
  in a 32-bit integer, which the main loop of the editor decodes.
\<close>

unbundle bit_operations_syntax

type_synonym msg = "32 word"

definition KBD_C_QUEUE_LENGTH :: int where "KBD_C_QUEUE_LENGTH = 100"

record msg_queue =
  message :: "msg list"
  front :: int
  tail :: int

definition init_queue :: msg_queue where
  "init_queue = \<lparr>message = replicate 100 0, front = 0, tail = 0\<rparr>"

text \<open>A store outside of the array would leave the model; the index is always inside (\<open>queue_ok\<close>).\<close>

definition add_msg :: "msg \<Rightarrow> msg_queue \<Rightarrow> msg_queue" where
  "add_msg m q = q\<lparr>message := (message q)[nat (tail q) := m],
     tail := (if tail q + 1 = KBD_C_QUEUE_LENGTH then 0 else tail q + 1)\<rparr>"

definition add_kbd_msg :: "int \<Rightarrow> msg_queue \<Rightarrow> msg_queue" where
  "add_kbd_msg c q = add_msg (word_of_int c) q"

definition encode_mouse :: "int \<Rightarrow> int \<Rightarrow> int \<Rightarrow> msg" where
  "encode_mouse mouse_opt x y =
     push_bit 24 (word_of_int mouse_opt) OR push_bit 12 (word_of_int x) OR word_of_int y"

definition add_mouse_msg :: "int \<Rightarrow> int \<Rightarrow> int \<Rightarrow> msg_queue \<Rightarrow> msg_queue" where
  "add_mouse_msg mouse_opt x y q = add_msg (encode_mouse mouse_opt x y) q"

definition sys_get_msg :: "msg_queue \<Rightarrow> msg \<times> msg_queue" where
  "sys_get_msg q =
     (if front q = tail q then (0, q)
      else (message q ! nat (front q),
            q\<lparr>front := (if front q + 1 = KBD_C_QUEUE_LENGTH then 0 else front q + 1)\<rparr>))"

text \<open>The decoding in \<^verbatim>\<open>main\<close> of Gui.c; the shifts are on signed integers.\<close>

definition msg_type :: "msg \<Rightarrow> int" where
  "msg_type m = sint (signed_drop_bit 24 m)"

definition msg_x :: "msg \<Rightarrow> int" where
  "msg_x m = uint (signed_drop_bit 12 m AND 0xfff)"

definition msg_y :: "msg \<Rightarrow> int" where
  "msg_y m = uint (m AND 0xfff)"

definition msg_key :: "msg \<Rightarrow> int" where
  "msg_key m = uint (m AND 0xffffff)"

section \<open>The ring is a queue\<close>

definition queue_ok :: "msg_queue \<Rightarrow> bool" where
  "queue_ok q \<longleftrightarrow> length (message q) = 100 \<and> 0 \<le> front q \<and> front q < 100 \<and> 0 \<le> tail q \<and> tail q < 100"

definition queued :: "msg_queue \<Rightarrow> msg list" where
  "queued q = (if front q \<le> tail q then take (nat (tail q - front q)) (drop (nat (front q)) (message q))
     else drop (nat (front q)) (message q) @ take (nat (tail q)) (message q))"

lemma queued_length: "queue_ok q \<Longrightarrow> length (queued q) = nat ((tail q - front q) mod 100)"
proof -
  assume q: "queue_ok q"
  show ?thesis
  proof (cases "front q \<le> tail q")
    case True
    with q have "(tail q - front q) mod 100 = tail q - front q" by (simp add: queue_ok_def)
    with True q show ?thesis by (auto simp: queued_def queue_ok_def)
  next
    case False
    with q have "(tail q - front q) mod 100 = tail q - front q + 100"
      by (intro mod_pos_pos_trivial[of "tail q - front q + 100" 100, simplified]) (auto simp: queue_ok_def)
    with False q show ?thesis by (auto simp: queued_def queue_ok_def)
  qed
qed

lemma add_msg_ok: "queue_ok q \<Longrightarrow> queue_ok (add_msg m q)"
  by (auto simp: queue_ok_def add_msg_def KBD_C_QUEUE_LENGTH_def)

lemma add_msg_queued:
  assumes "queue_ok q" "length (queued q) < 99"
  shows "queued (add_msg m q) = queued q @ [m]"
proof -
  obtain f t where ft: "front q = int f" "tail q = int t" "f < 100" "t < 100"
    using assms(1) by (metis queue_ok_def nonneg_int_cases of_nat_less_iff of_nat_numeral)
  have len: "length (message q) = 100" using assms(1) by (simp add: queue_ok_def)
  let ?a = "message q"
  have app: "take (Suc n) (a[n := m]) = take n a @ [m]" if "n < length a" for a n
    using that by (simp add: take_Suc_conv_app_nth)
  consider (mid) "f \<le> t" "t + 1 < 100" | (wrap) "f \<le> t" "t = 99" "0 < f" | (behind) "t < f" "t + 1 < f"
    using assms(2) queued_length[OF assms(1)] ft by (force simp: queued_def len)
  then show ?thesis
  proof cases
    case mid
    then have "tail (add_msg m q) = int (Suc t)" "front (add_msg m q) = int f" "message (add_msg m q) = ?a[t := m]"
      using ft by (auto simp: add_msg_def KBD_C_QUEUE_LENGTH_def)
    moreover have "t - f < length (drop f ?a)" using mid len by simp
    ultimately show ?thesis
      using mid ft len app[of "t - f" "drop f ?a"]
      by (simp add: queued_def drop_update_swap Suc_diff_le nat_diff_distrib' nat_add_distrib)
  next
    case wrap
    then have "tail (add_msg m q) = 0" "front (add_msg m q) = int f" "message (add_msg m q) = ?a[t := m]"
      using ft by (auto simp: add_msg_def KBD_C_QUEUE_LENGTH_def)
    then show ?thesis
      using wrap ft len app[of "99 - f" "drop f ?a"] by (simp add: queued_def drop_update_swap Suc_diff_le nat_diff_distrib')
  next
    case behind
    then have "tail (add_msg m q) = int (Suc t)" "front (add_msg m q) = int f" "message (add_msg m q) = ?a[t := m]"
      using ft by (auto simp: add_msg_def KBD_C_QUEUE_LENGTH_def)
    then show ?thesis
      using behind ft len app[of t ?a] by (simp add: queued_def nat_add_distrib)
  qed
qed

lemma sys_get_msg_queued:
  assumes "queue_ok q" "queued q = m # ms"
  shows "fst (sys_get_msg q) = m" "queue_ok (snd (sys_get_msg q))" "queued (snd (sys_get_msg q)) = ms"
proof -
  obtain f t where ft: "front q = int f" "tail q = int t" "f < 100" "t < 100"
    using assms(1) by (metis queue_ok_def nonneg_int_cases of_nat_less_iff of_nat_numeral)
  have len: "length (message q) = 100" using assms(1) by (simp add: queue_ok_def)
  let ?a = "message q"
  have d: "drop f ?a = ?a ! f # drop (Suc f) ?a" using ft len by (simp add: Cons_nth_drop_Suc)
  have ne: "f \<noteq> t" using assms(2) ft by (auto simp: queued_def)
  have q': "snd (sys_get_msg q) = q\<lparr>front := (if Suc f = 100 then 0 else int (Suc f))\<rparr>"
    using ft ne by (auto simp: sys_get_msg_def KBD_C_QUEUE_LENGTH_def)
  have "m = ?a ! f \<and> queued (q\<lparr>front := (if Suc f = 100 then 0 else int (Suc f))\<rparr>) = ms"
  proof (cases "f < t")
    case True
    then have "take (t - f) (drop f ?a) = m # ms" using assms(2) ft by (simp add: queued_def nat_diff_distrib')
    then have "m = ?a ! f" "ms = take (t - Suc f) (drop (Suc f) ?a)" using True by (simp_all add: d take_Cons')
    with True ft show ?thesis by (simp add: queued_def nat_diff_distrib' nat_add_distrib)
  next
    case False
    then have "drop f ?a @ take t ?a = m # ms" using assms(2) ft ne by (simp add: queued_def)
    then have "m = ?a ! f" "ms = drop (Suc f) ?a @ take t ?a" by (simp_all add: d)
    with False ne ft len show ?thesis by (auto simp: queued_def nat_add_distrib)
  qed
  then show "fst (sys_get_msg q) = m" "queued (snd (sys_get_msg q)) = ms"
    using ft ne unfolding q' by (auto simp: sys_get_msg_def)
  show "queue_ok (snd (sys_get_msg q))" unfolding q' using assms(1) ft by (auto simp: queue_ok_def)
qed

interpretation msgs: bounded_fifo queue_ok 99 queued add_msg sys_get_msg
  by unfold_locales (auto intro: add_msg_ok add_msg_queued sys_get_msg_queued)

text \<open>
  C14: the message queue delivers up to 99 pending messages in order, after the ones that were
  already there.
\<close>

theorem messages_in_order:
  assumes "queue_ok q" "length (queued q) + length ms \<le> 99"
  shows "fst (get_list sys_get_msg (length (queued q) + length ms) (put_list add_msg ms q)) = queued q @ ms"
  using assms by (rule msgs.put_get)

theorem messages_in_order_witness:
  "fst (get_list sys_get_msg 3 (put_list add_msg [7, 8, 9] init_queue)) = [7, 8, 9]"
proof -
  have "queue_ok init_queue" "length (queued init_queue) + length [7, 8, 9 :: msg] \<le> 99" by code_simp+
  from messages_in_order[OF this] have "fst (get_list sys_get_msg (length (queued init_queue) + length [7, 8, 9 :: msg])
     (put_list add_msg [7, 8, 9] init_queue)) = queued init_queue @ [7, 8, 9]" .
  moreover have "queued init_queue = []" by code_simp
  ultimately show ?thesis by (simp add: numeral_3_eq_3)
qed

text \<open>The queue has no test for being full: the message after 99 unread ones makes it look empty.\<close>

lemma overflow_loses_all:
  assumes "queue_ok q" "length (queued q) = 99"
  shows "queued (add_msg m q) = []"
proof -
  have len: "length (message q) = 100" and r: "0 \<le> front q" "tail q < 100" "0 \<le> tail q" "front q < 100"
    using assms(1) by (auto simp: queue_ok_def)
  have "tail q = 99 \<and> front q = 0 \<or> front q = tail q + 1"
  proof (cases "front q \<le> tail q")
    case True
    with assms(2) len r show ?thesis by (auto simp: queued_def min_def split: if_splits)
  next
    case False
    with assms(2) len r show ?thesis by (auto simp: queued_def)
  qed
  then show ?thesis
    using assms(1) by (auto simp: queued_def add_msg_def KBD_C_QUEUE_LENGTH_def queue_ok_def)
qed

section \<open>Messages survive their encoding\<close>

lemma or_push: 
  assumes "0 \<le> y" "y < 2 ^ n"
  shows "push_bit n x OR y = push_bit n x + (y :: int)"
proof -
  have "\<not> bit (push_bit n x) i \<or> \<not> bit y i" for i
    using assms by (metis bit_push_bit_iff bit_take_bit_iff not_le take_bit_int_eq_self)
  then show ?thesis by (intro disjunctive_add[symmetric])
qed

lemma sint_small: "0 \<le> E \<Longrightarrow> E < 2 ^ 31 \<Longrightarrow> sint (word_of_int E :: msg) = E"
  by (simp add: sint_sbintrunc' signed_take_bit_int_eq_self)

lemma uint_of_sint: "0 \<le> sint w \<Longrightarrow> uint w = sint (w :: msg)"
  using sint_lt[of w] by (simp add: uint_sint take_bit_int_eq_self)

lemma and_mask_int: "(k :: int) AND 0xfff = k mod 4096"
  using take_bit_eq_mask[of 12 k] by (simp add: take_bit_eq_mod mask_eq_exp_minus_1)

lemma encode_mouse_int:
  assumes "0 \<le> opt" "opt < 128" "0 \<le> x" "x < 4096" "0 \<le> y" "y < 4096"
  shows "encode_mouse opt x y = word_of_int (opt * 2 ^ 24 + x * 2 ^ 12 + y)"
proof -
  have "push_bit 12 x OR y = x * 2 ^ 12 + y" using or_push[of y 12 x] assms by (simp add: push_bit_eq_mult)
  moreover have "push_bit 24 opt OR (x * 2 ^ 12 + y) = opt * 2 ^ 24 + (x * 2 ^ 12 + y)"
    using or_push[of "x * 2 ^ 12 + y" 24 opt] assms by (simp add: push_bit_eq_mult)
  ultimately have "push_bit 24 opt OR (push_bit 12 x OR y) = opt * 2 ^ 24 + x * 2 ^ 12 + y" by simp
  moreover have "encode_mouse opt x y = word_of_int (push_bit 24 opt OR (push_bit 12 x OR y))"
    by (simp only: encode_mouse_def of_int_or_eq push_bit_eq_mult of_int_mult of_int_power of_int_numeral)
  ultimately show ?thesis by simp
qed

text \<open>
  The type and the coordinates that the editor decodes from a mouse message are the ones
  the mouse driver encoded, for the coordinates of any screen up to 4096 by 4096.
\<close>

theorem mouse_msg_roundtrip:
  assumes "0 \<le> opt" "opt < 128" "0 \<le> x" "x < 4096" "0 \<le> y" "y < 4096"
  shows "msg_type (encode_mouse opt x y) = opt \<and> msg_x (encode_mouse opt x y) = x \<and> msg_y (encode_mouse opt x y) = y"
proof -
  let ?E = "opt * 2 ^ 24 + x * 2 ^ 12 + y"
  let ?m = "word_of_int ?E :: msg"
  have E: "0 \<le> ?E" "?E < 2 ^ 31" using assms by auto
  have s: "sint ?m = ?E" using sint_small[OF E] .
  then have u: "uint ?m = ?E" using uint_of_sint[of ?m] E by simp
  have "sint (signed_drop_bit 24 ?m) = opt"
    using assms by (simp only: sint_signed_drop_bit_eq s) (simp add: drop_bit_eq_div)
  moreover have "uint (signed_drop_bit 12 ?m AND 0xfff) = x"
  proof -
    have "sint (signed_drop_bit 12 ?m) = opt * 4096 + x"
      using assms by (simp only: sint_signed_drop_bit_eq s) (simp add: drop_bit_eq_div)
    moreover from this have "uint (signed_drop_bit 12 ?m) = opt * 4096 + x"
      using uint_of_sint[of "signed_drop_bit 12 ?m"] assms by simp
    ultimately show ?thesis using assms by (simp add: unsigned_and_eq and_mask_int)
  qed
  moreover have "uint (?m AND 0xfff) = y"
  proof -
    have "?E = y + 4096 * (opt * 4096 + x)" by simp
    then have "?E mod 4096 = y" using assms(5,6) by (simp only: mod_mult_self2) simp
    then show ?thesis by (simp only: unsigned_and_eq u) (simp add: and_mask_int)
  qed
  ultimately show ?thesis
    by (simp only: encode_mouse_int[OF assms] msg_type_def msg_x_def msg_y_def)
qed

theorem mouse_msg_roundtrip_witness:
  "msg_type (encode_mouse MOUSE_MOVE 799 599) = MOUSE_MOVE \<and> msg_x (encode_mouse MOUSE_MOVE 799 599) = 799 \<and>
     msg_y (encode_mouse MOUSE_MOVE 799 599) = 599"
  by (rule mouse_msg_roundtrip) (simp_all add: MOUSE_MOVE_def)

end
