(* ===== verification/Input.thy ===== *)
theory Input
  imports Messages
begin

text \<open>
  The mouse and keyboard interrupt handlers (src/src/mouse.c, kbd.c, kbd.h). The bytes read from
  the controller ports are arguments; the lock of the mouse handler is not modelled, a handler
  runs to its end.
\<close>

section \<open>Mouse\<close>

record mouse =
  packet_count :: int
  x_overflow :: bool
  y_overflow :: bool
  x_sign :: int
  y_sign :: int
  btn_left :: bool
  btn_right :: bool
  btn_mid :: bool
  btn_left_down :: bool
  btn_right_down :: bool
  x_delta :: int
  y_delta :: int
  x_pos :: int
  y_pos :: int

definition init_mouse :: mouse where
  "init_mouse = \<lparr>packet_count = 0, x_overflow = False, y_overflow = False, x_sign = 0, y_sign = 0, btn_left = False,
     btn_right = False, btn_mid = False, btn_left_down = False, btn_right_down = False, x_delta = 0, y_delta = 0,
     x_pos = 400, y_pos = 300\<rparr>"

definition get_mouse_pos :: "mouse \<Rightarrow> int \<times> int" where
  "get_mouse_pos m = (x_pos m, y_pos m)"

definition check_in_range :: "int \<Rightarrow> int \<Rightarrow> int \<Rightarrow> int" where
  "check_in_range v lo hi = (let v = (if v < lo then lo else v) in if v \<ge> hi then hi - 1 else v)"

text \<open>What the handler asks the screen to redraw.\<close>

datatype screen_call = Update_area int int int int | Draw_mouse int int

text \<open>The third byte of a packet: the new position and the message it causes.\<close>

definition mouse_message :: "mouse \<Rightarrow> int" where
  "mouse_message m =
     (if btn_left m \<and> \<not> btn_left_down m then MOUSE_LEFT_PRESS
      else if \<not> btn_left m \<and> btn_left_down m then MOUSE_LEFT_RELEASE
      else if btn_right m \<and> \<not> btn_right_down m then MOUSE_RIGHT_PRESS
      else if \<not> btn_right m \<and> btn_right_down m then MOUSE_RIGHT_RELEASE
      else MOUSE_MOVE)"

definition mouse_packet_end :: "byte \<Rightarrow> mouse \<Rightarrow> mouse \<times> (int \<times> int \<times> int) list \<times> screen_call list" where
  "mouse_packet_end d m =
     (let m = m\<lparr>y_delta := uint d - y_sign m * 256\<rparr> in
      if \<bar>x_delta m\<bar> > 100 \<or> \<bar>y_delta m\<bar> > 100 then (m\<lparr>packet_count := 0\<rparr>, [], [])
      else
        let old = Update_area (x_pos m) (y_pos m) 10 10;
            m = m\<lparr>x_pos := check_in_range (x_pos m + x_delta m) 0 800, y_pos := check_in_range (y_pos m - y_delta m) 0 600\<rparr>
        in (m\<lparr>btn_left_down := btn_left m, btn_right_down := btn_right m, packet_count := 0\<rparr>,
            [(mouse_message m, x_pos m, y_pos m)], [old, Draw_mouse (x_pos m) (y_pos m)]))"

definition mouse_byte :: "byte \<Rightarrow> mouse \<Rightarrow> mouse \<times> (int \<times> int \<times> int) list \<times> screen_call list" where
  "mouse_byte d m =
     (let m = m\<lparr>packet_count := packet_count m + 1\<rparr> in
      if packet_count m = 1 then
        (if d AND 0x08 \<noteq> 0 \<and> d AND 0x04 = 0
         then m\<lparr>btn_left := (d AND 0x01 \<noteq> 0), btn_right := (d AND 0x02 \<noteq> 0), btn_mid := (d AND 0x04 \<noteq> 0),
                x_sign := (if d AND 0x10 \<noteq> 0 then 1 else 0), y_sign := (if d AND 0x20 \<noteq> 0 then 1 else 0),
                x_overflow := (d AND 0x40 \<noteq> 0), y_overflow := (d AND 0x80 \<noteq> 0)\<rparr>
         else m\<lparr>packet_count := 0\<rparr>, [], [])
      else if packet_count m = 2 then (m\<lparr>x_delta := uint d - x_sign m * 256\<rparr>, [], [])
      else if packet_count m = 3 then mouse_packet_end d m
      else (m\<lparr>packet_count := 0\<rparr>, [], []))"

text \<open>The handler: \<open>st\<close> is the status port, \<open>d\<close> the data port.\<close>

definition mouseintr :: "byte \<Rightarrow> byte \<Rightarrow> mouse \<times> msg_queue \<Rightarrow> mouse \<times> msg_queue \<times> screen_call list" where
  "mouseintr st d s =
     (let (m, q) = s in
      if st AND 0x01 = 0 then (m\<lparr>packet_count := 0\<rparr>, q, [])
      else let (m, msgs, scr) = mouse_byte d m
           in (m, fold (\<lambda>(opt, x, y). add_mouse_msg opt x y) msgs q, scr))"

text \<open>The messages of a sequence of interrupts, apart from the queue.\<close>

fun mouse_stream :: "(byte \<times> byte) list \<Rightarrow> mouse \<Rightarrow> (int \<times> int \<times> int) list" where
  "mouse_stream [] m = []"
| "mouse_stream ((st, d) # bs) m =
     (if st AND 0x01 = 0 then mouse_stream bs (m\<lparr>packet_count := 0\<rparr>)
      else let (m', msgs, scr) = mouse_byte d m in msgs @ mouse_stream bs m')"

definition mouse_ok :: "mouse \<Rightarrow> bool" where
  "mouse_ok m \<longleftrightarrow> 0 \<le> x_pos m \<and> x_pos m < 800 \<and> 0 \<le> y_pos m \<and> y_pos m < 600"

lemma check_in_range_ok: "lo < hi \<Longrightarrow> lo \<le> check_in_range v lo hi \<and> check_in_range v lo hi < hi"
  by (auto simp: check_in_range_def Let_def)

text \<open>Left presses and releases alternate; \<open>down\<close> is the state of the button before.\<close>

fun alternates :: "bool \<Rightarrow> (int \<times> int \<times> int) list \<Rightarrow> bool" where
  "alternates down [] = True"
| "alternates down ((opt, x, y) # ms) =
     (if opt = MOUSE_LEFT_PRESS then \<not> down \<and> alternates True ms
      else if opt = MOUSE_LEFT_RELEASE then down \<and> alternates False ms
      else alternates down ms)"

lemma mouse_packet_end_cases:
  assumes "mouse_packet_end d m = (m', msgs, scr)"
  shows "mouse_ok m \<Longrightarrow> mouse_ok m' \<and> list_all (\<lambda>(opt, x, y). 0 \<le> x \<and> x < 800 \<and> 0 \<le> y \<and> y < 600) msgs"
    and "alternates (btn_left_down m') ms \<Longrightarrow> alternates (btn_left_down m) (msgs @ ms)"
proof -
  note check_in_range_ok[of 0 800, simplified, simp] check_in_range_ok[of 0 600, simplified, simp]
  show "mouse_ok m \<Longrightarrow> mouse_ok m' \<and> list_all (\<lambda>(opt, x, y). 0 \<le> x \<and> x < 800 \<and> 0 \<le> y \<and> y < 600) msgs"
    using assms by (auto simp: mouse_packet_end_def Let_def mouse_ok_def split: if_split_asm)
  show "alternates (btn_left_down m') ms \<Longrightarrow> alternates (btn_left_down m) (msgs @ ms)"
    using assms by (auto simp: mouse_packet_end_def mouse_message_def Let_def msg_types split: if_split_asm)
qed

lemma mouse_byte_cases:
  assumes "mouse_byte d m = (m', msgs, scr)"
  shows "mouse_ok m \<Longrightarrow> mouse_ok m' \<and> list_all (\<lambda>(opt, x, y). 0 \<le> x \<and> x < 800 \<and> 0 \<le> y \<and> y < 600) msgs"
    and "alternates (btn_left_down m') ms \<Longrightarrow> alternates (btn_left_down m) (msgs @ ms)"
proof -
  consider (last) "mouse_packet_end d (m\<lparr>packet_count := 3\<rparr>) = (m', msgs, scr)"
    | (other) "msgs = []" "x_pos m' = x_pos m" "y_pos m' = y_pos m" "btn_left_down m' = btn_left_down m"
    using assms unfolding mouse_byte_def Let_def by (auto split: if_split_asm)
  note cases = this
  from cases show "mouse_ok m \<Longrightarrow> mouse_ok m' \<and> list_all (\<lambda>(opt, x, y). 0 \<le> x \<and> x < 800 \<and> 0 \<le> y \<and> y < 600) msgs"
    by cases (use mouse_packet_end_cases(1) in \<open>force simp: mouse_ok_def\<close>, simp add: mouse_ok_def)
  from cases show "alternates (btn_left_down m') ms \<Longrightarrow> alternates (btn_left_down m) (msgs @ ms)"
    by cases (use mouse_packet_end_cases(2) in force, simp)
qed

text \<open>
  C15: whatever bytes the mouse sends, every message has coordinates on the 800 by 600 screen, and
  left presses and releases alternate, starting with a press when the button is up.
\<close>

theorem mouse_stream_ok:
  assumes "mouse_ok m"
  shows "list_all (\<lambda>(opt, x, y). 0 \<le> x \<and> x < 800 \<and> 0 \<le> y \<and> y < 600) (mouse_stream bs m) \<and>
    alternates (btn_left_down m) (mouse_stream bs m)"
  using assms
proof (induction bs arbitrary: m)
  case (Cons b bs)
  obtain st d where b: "b = (st, d)" by (cases b)
  show ?case
  proof (cases "st AND 0x01 = 0")
    case True
    with Cons.IH[of "m\<lparr>packet_count := 0\<rparr>"] Cons.prems b show ?thesis by (simp add: mouse_ok_def)
  next
    case False
    obtain m' msgs scr where mb: "mouse_byte d m = (m', msgs, scr)" by (cases "mouse_byte d m")
    from mouse_byte_cases[OF mb] Cons.IH[of m'] Cons.prems False b mb show ?thesis by simp
  qed
qed simp

theorem mouse_stream_ok_witness:
  "list_all (\<lambda>(opt, x, y). 0 \<le> x \<and> x < 800 \<and> 0 \<le> y \<and> y < 600) (mouse_stream [(1, 9), (1, 5), (1, 3), (1, 8), (1, 0), (1, 0)] init_mouse) \<and>
    alternates False (mouse_stream [(1, 9), (1, 5), (1, 3), (1, 8), (1, 0), (1, 0)] init_mouse)"
proof -
  have "mouse_ok init_mouse" by code_simp
  from mouse_stream_ok[OF this, of "[(1, 9), (1, 5), (1, 3), (1, 8), (1, 0), (1, 0)]"] show ?thesis
    by (simp only: init_mouse_def mouse.simps)
qed

section \<open>Keyboard\<close>

text \<open>A table of 256 entries with designated initialisers after the positional ones.\<close>

definition table :: "byte list \<Rightarrow> (nat \<times> byte) list \<Rightarrow> byte list" where
  "table base assigns = fold (\<lambda>(i, v) t. t[i := v]) assigns (base @ replicate (256 - length base) 0)"

definition SHIFT :: "32 word" where "SHIFT = 1"
definition CTL :: "32 word" where "CTL = 2"
definition ALT :: "32 word" where "ALT = 4"
definition CAPSLOCK :: "32 word" where "CAPSLOCK = 8"
definition NUMLOCK :: "32 word" where "NUMLOCK = 16"
definition SCROLLLOCK :: "32 word" where "SCROLLLOCK = 32"
definition E0ESC :: "32 word" where "E0ESC = 64"

lemmas kbd_flags = SHIFT_def CTL_def ALT_def CAPSLOCK_def NUMLOCK_def SCROLLLOCK_def E0ESC_def

definition shiftcode :: "byte list" where
  "shiftcode = table [] [(0x1D, ucast CTL), (0x2A, ucast SHIFT), (0x36, ucast SHIFT), (0x38, ucast ALT),
     (0x9D, ucast CTL), (0xB8, ucast ALT)]"

definition togglecode :: "byte list" where
  "togglecode = table [] [(0x3A, ucast CAPSLOCK), (0x45, ucast NUMLOCK), (0x46, ucast SCROLLLOCK)]"

definition arrow_keys :: "(nat \<times> byte) list" where
  "arrow_keys = [(0xC8, 0xE2), (0xD0, 0xE3), (0xC9, 0xE6), (0xD1, 0xE7), (0xCB, 0xE4), (0xCD, 0xE5), (0x97, 0xE0),
     (0xCF, 0xE1), (0xD2, 0xE8), (0xD3, 0xE9)]"

definition normalmap :: "byte list" where
  "normalmap = table
     ([0, 0x1B] @ lit ''1234567890-='' @ [8, 9] @ lit ''qwertyuiop[]'' @ [10, 0] @ lit ''asdfghjkl;'' @ [39, 96, 0, 92] @
      lit ''zxcvbnm,./'' @ [0, 42, 0, 32] @ replicate 13 0 @ lit ''789-456+1230.'' @ [0, 0, 0, 0])
     ([(0x9C, 10), (0xB5, 47)] @ arrow_keys)"

definition shiftmap :: "byte list" where
  "shiftmap = table
     ([0, 0x1B] @ lit ''!@#$%^&*()_+'' @ [8, 9] @ lit ''QWERTYUIOP{}'' @ [10, 0] @ lit ''ASDFGHJKL:'' @ [34, 126, 0, 124] @
      lit ''ZXCVBNM<>?'' @ [0, 42, 0, 32] @ replicate 13 0 @ lit ''789-456+1230.'' @ [0, 0, 0, 0])
     ([(0x9C, 10), (0xB5, 47)] @ arrow_keys)"

text \<open>The macro \<^verbatim>\<open>C\<close> of kbd.h: control characters, as bytes.\<close>

definition ctl :: "string \<Rightarrow> byte list" where
  "ctl s = map (\<lambda>b. b - 64) (lit s)"

definition ctlmap :: "byte list" where
  "ctlmap = table
     (replicate 16 0 @ ctl ''QWERTYUIOP'' @ [0, 0, 13, 0] @ ctl ''ASDFGHJKL'' @ [0, 0, 0, 0, 28] @ ctl ''ZXCVBNM'' @
      [0, 0] @ ctl ''/'' @ [0, 0])
     ([(0x9C, 13), (0xB5, 239)] @ arrow_keys)"

definition charcode :: "byte list list" where
  "charcode = [normalmap, shiftmap, ctlmap, ctlmap]"

definition swap_case :: "byte \<Rightarrow> byte" where
  "swap_case c = (if 97 \<le> c \<and> c \<le> 122 then c - 32 else if 65 \<le> c \<and> c \<le> 90 then c + 32 else c)"

text \<open>
  The static variable \<open>shift\<close> is the state; the result pairs it with the value returned. None would
  be an index outside of a table.
\<close>

definition kbd_press :: "byte \<Rightarrow> 32 word \<Rightarrow> (32 word \<times> int) option" where
  "kbd_press d shift = do {
     s \<leftarrow> rd shiftcode (uint d);
     t \<leftarrow> rd togglecode (uint d);
     let shift = (shift OR ucast s) XOR ucast t;
     tab \<leftarrow> rd charcode (uint (shift AND (CTL OR SHIFT)));
     c \<leftarrow> rd tab (uint d);
     Some (shift, uint (if shift AND CAPSLOCK \<noteq> 0 then swap_case c else c))
   }"

definition kbdgetc :: "byte \<Rightarrow> byte \<Rightarrow> 32 word \<Rightarrow> (32 word \<times> int) option" where
  "kbdgetc st d shift =
     (if st AND 0x01 = 0 then Some (shift, -1)
      else if d = 0xE0 then Some (shift OR E0ESC, 0)
      else if d AND 0x80 \<noteq> 0 then do {
        let d = (if shift AND E0ESC \<noteq> 0 then d else d AND 0x7F);
        s \<leftarrow> rd shiftcode (uint d);
        Some (shift AND NOT (ucast s OR E0ESC), 0)
      }
      else if shift AND E0ESC \<noteq> 0 then kbd_press (d OR 0x80) (shift AND NOT E0ESC)
      else kbd_press d shift)"

definition kbdintr :: "byte \<Rightarrow> byte \<Rightarrow> 32 word \<times> msg_queue \<Rightarrow> (32 word \<times> msg_queue) option" where
  "kbdintr st d s = (let (shift, q) = s in do {
     (shift, c) \<leftarrow> kbdgetc st d shift;
     Some (shift, add_kbd_msg c q)
   })"

text \<open>The characters of a sequence of scan codes, with the zeros of releases and prefixes.\<close>

fun kbd_run :: "byte list \<Rightarrow> 32 word \<Rightarrow> (32 word \<times> int list) option" where
  "kbd_run [] shift = Some (shift, [])"
| "kbd_run (d # ds) shift = do {
     (shift, c) \<leftarrow> kbdgetc 1 d shift;
     (shift, cs) \<leftarrow> kbd_run ds shift;
     Some (shift, c # cs)
   }"

text \<open>The key of a character: without a modifier, or with the left shift key (scan code 0x2A) held.\<close>

fun position_of :: "byte \<Rightarrow> byte list \<Rightarrow> nat option" where
  "position_of c [] = None"
| "position_of c (b # bs) = (if b = c then Some 0 else map_option Suc (position_of c bs))"

definition keystrokes :: "byte \<Rightarrow> byte list" where
  "keystrokes c = (case position_of c (take 128 normalmap) of
       Some i \<Rightarrow> [of_nat i, of_nat i OR 0x80]
     | None \<Rightarrow> (case position_of c (take 128 shiftmap) of
           Some i \<Rightarrow> [0x2A, of_nat i, of_nat i OR 0x80, 0xAA] | None \<Rightarrow> []))"

definition types_char :: "byte \<Rightarrow> bool" where
  "types_char c = (case kbd_run (keystrokes c) 0 of
     None \<Rightarrow> False | Some (shift, cs) \<Rightarrow> shift = 0 \<and> filter (\<lambda>x. x \<noteq> 0) cs = [uint c])"

lemma table_lengths [simp]:
  "length shiftcode = 256" "length togglecode = 256" "length normalmap = 256" "length shiftmap = 256" "length ctlmap = 256"
  by code_simp+

lemma byte_in_table: "length t = 256 \<Longrightarrow> \<exists>v. rd t (uint (d :: byte)) = Some v"
  using uint_lt2p[of d] by (simp add: rd_def nat_less_iff)

lemma modifiers_lt_4: "uint ((w :: 32 word) AND (CTL OR SHIFT)) < 4"
proof -
  have "CTL OR SHIFT = mask 2" by (simp add: kbd_flags mask_eq_exp_minus_1)
  then have "w AND (CTL OR SHIFT) = take_bit 2 w" by (simp add: take_bit_eq_mask)
  then have "uint (w AND (CTL OR SHIFT)) = take_bit 2 (uint w)" by (simp only: unsigned_take_bit_eq)
  then show ?thesis by (simp add: take_bit_eq_mod)
qed

lemma charcode_row: "\<exists>t. rd charcode (uint ((w :: 32 word) AND (CTL OR SHIFT))) = Some t \<and> length t = 256"
proof -
  let ?i = "nat (uint (w AND (CTL OR SHIFT)))"
  have i: "?i < 4" using modifiers_lt_4[of w] by linarith
  then have "length (charcode ! ?i) = 256"
    by (auto simp: charcode_def nth_Cons split: nat.splits)
  with i modifiers_lt_4[of w] show ?thesis by (auto simp: rd_def charcode_def)
qed

lemma kbd_press_total: "\<exists>shift' c. kbd_press d shift = Some (shift', c) \<and> 0 \<le> c \<and> c < 256"
proof -
  obtain s t where "rd shiftcode (uint d) = Some s" "rd togglecode (uint d) = Some t"
    using byte_in_table[of shiftcode d] byte_in_table[of togglecode d] by auto
  moreover obtain tab where "rd charcode (uint (((shift OR ucast s) XOR ucast t) AND (CTL OR SHIFT))) = Some tab" "length tab = 256"
    using charcode_row by blast
  moreover obtain c where "rd tab (uint d) = Some c" using byte_in_table calculation(4) by blast
  ultimately show ?thesis
    using uint_lt2p[of c] uint_lt2p[of "swap_case c"] by (auto simp: kbd_press_def Let_def)
qed

lemma kbdgetc_total: "\<exists>shift' c. kbdgetc st d shift = Some (shift', c) \<and> - 1 \<le> c \<and> c < 256"
proof -
  obtain v where v: "rd shiftcode (uint (if shift AND E0ESC \<noteq> 0 then d else d AND 0x7F)) = Some v"
    using byte_in_table[of shiftcode] by fastforce
  obtain s1 c1 where 1: "kbd_press (d OR 0x80) (shift AND NOT E0ESC) = Some (s1, c1)" "0 \<le> c1" "c1 < 256"
    using kbd_press_total by blast
  obtain s2 c2 where 2: "kbd_press d shift = Some (s2, c2)" "0 \<le> c2" "c2 < 256"
    using kbd_press_total by blast
  show ?thesis using 1(2,3) 2(2,3) unfolding kbdgetc_def Let_def 1(1) 2(1) v by auto
qed

lemma position_of_Some: "position_of c bs = Some i \<Longrightarrow> i < length bs \<and> bs ! i = c"
  by (induction bs arbitrary: i) (auto split: if_splits)

lemma position_of_None: "position_of c bs = None \<longleftrightarrow> c \<notin> set bs"
  by (induction bs) auto

text \<open>A key with a character is no modifier, and its release code is not the prefix 0xE0.\<close>

definition plain_key :: "nat \<Rightarrow> bool" where
  "plain_key i \<longleftrightarrow> shiftcode ! i = 0 \<and> togglecode ! i = 0 \<and> i \<noteq> 0x60"

lemma plain_keys:
  assumes "i < 128" "normalmap ! i \<noteq> 0 \<or> shiftmap ! i \<noteq> 0"
  shows "plain_key i"
proof -
  have "list_all (\<lambda>(a, b, s, t, i). a \<noteq> 0 \<or> b \<noteq> 0 \<longrightarrow> s = 0 \<and> t = 0 \<and> i \<noteq> 0x60)
    (zip (take 128 normalmap) (zip (take 128 shiftmap) (zip (take 128 shiftcode) (zip (take 128 togglecode) [0..<128]))))"
    by code_simp
  with assms show ?thesis by (auto simp: list_all_length plain_key_def)
qed

lemma scan_code_words:
  assumes "i < 128"
  shows "(of_nat i :: byte) AND 0x80 = 0" "(of_nat i :: byte) \<noteq> 0xE0" "(of_nat i OR 0x80 :: byte) AND 0x80 \<noteq> 0"
    "i \<noteq> 0x60 \<Longrightarrow> (of_nat i OR 0x80 :: byte) \<noteq> 0xE0" "(of_nat i OR 0x80 :: byte) AND 0x7F = of_nat i"
    "uint (of_nat i :: byte) = int i"
proof -
  have "list_all (\<lambda>i. (of_nat i :: byte) AND 0x80 = 0 \<and> (of_nat i :: byte) \<noteq> 0xE0 \<and> (of_nat i OR 0x80 :: byte) AND 0x80 \<noteq> 0 \<and>
    (i \<noteq> 0x60 \<longrightarrow> (of_nat i OR 0x80 :: byte) \<noteq> 0xE0) \<and> (of_nat i OR 0x80 :: byte) AND 0x7F = of_nat i \<and>
    uint (of_nat i :: byte) = int i) [0..<128]"
    by code_simp
  with assms show "(of_nat i :: byte) AND 0x80 = 0" "(of_nat i :: byte) \<noteq> 0xE0" "(of_nat i OR 0x80 :: byte) AND 0x80 \<noteq> 0"
    "i \<noteq> 0x60 \<Longrightarrow> (of_nat i OR 0x80 :: byte) \<noteq> 0xE0" "(of_nat i OR 0x80 :: byte) AND 0x7F = of_nat i"
    "uint (of_nat i :: byte) = int i"
    by (auto simp: list_all_iff)
qed

lemma kbd_press_plain:
  assumes "i < 128" "plain_key i"
  shows "kbdgetc 1 (of_nat i) 0 = Some (0, uint (normalmap ! i))"
    and "kbdgetc 1 (of_nat i) SHIFT = Some (SHIFT, uint (shiftmap ! i))"
    and "kbdgetc 1 (of_nat i OR 0x80) 0 = Some (0, 0)"
    and "kbdgetc 1 (of_nat i OR 0x80) SHIFT = Some (SHIFT, 0)"
  using assms scan_code_words[OF assms(1)]
  by (simp_all add: kbdgetc_def kbd_press_def plain_key_def kbd_flags charcode_def rd_def Let_def)

lemma shift_key: "kbdgetc 1 0x2A 0 = Some (SHIFT, 0)" "kbdgetc 1 0xAA SHIFT = Some (0, 0)"
  by code_simp+

lemma types_charI:
  assumes "c \<in> set (take 128 normalmap) \<union> set (take 128 shiftmap)" "c \<noteq> 0"
  shows "types_char c"
proof (cases "position_of c (take 128 normalmap)")
  case (Some i)
  from position_of_Some[OF this] have i: "i < 128" "normalmap ! i = c" by auto
  with assms(2) plain_keys have "plain_key i" by blast
  with Some i assms(2) show ?thesis
    by (simp add: types_char_def keystrokes_def kbd_press_plain uint_0_iff)
next
  case None
  with assms(1) obtain i where S: "position_of c (take 128 shiftmap) = Some i"
    using position_of_None by fastforce
  from position_of_Some[OF this] have i: "i < 128" "shiftmap ! i = c" by auto
  with assms(2) plain_keys have "plain_key i" by blast
  with None S i assms(2) show ?thesis
    by (simp add: types_char_def keystrokes_def kbd_press_plain shift_key uint_0_iff)
qed

lemma key_codes:
  "map uint (take 58 normalmap) = [0, 27, 49, 50, 51, 52, 53, 54, 55, 56, 57, 48, 45, 61, 8, 9, 113, 119, 101, 114, 116, 121, 117, 105, 111,
    112, 91, 93, 10, 0, 97, 115, 100, 102, 103, 104, 106, 107, 108, 59, 39, 96, 0, 92, 122, 120, 99, 118, 98, 110,
    109, 44, 46, 47, 0, 42, 0, 32]"
  "map uint (take 58 shiftmap) = [0, 27, 33, 64, 35, 36, 37, 94, 38, 42, 40, 41, 95, 43, 8, 9, 81, 87, 69, 82, 84, 89, 85, 73, 79, 80, 123,
    125, 10, 0, 65, 83, 68, 70, 71, 72, 74, 75, 76, 58, 34, 126, 0, 124, 90, 88, 67, 86, 66, 78, 77, 60, 62, 63,
    0, 42, 0, 32]"
  by code_simp+

lemma printable_on_keys: "list_all (\<lambda>c. c \<in> set (map uint (take 58 normalmap)) \<union> set (map uint (take 58 shiftmap))) [32..126]"
  unfolding key_codes by code_simp

lemma types_printable:
  assumes "32 \<le> c" "c < 127"
  shows "types_char c"
proof -
  have "32 \<le> uint c" "uint c \<le> 126" using assms by (auto simp: word_le_def word_less_def)
  then have "uint c \<in> set [32..126]" unfolding set_upto atLeastAtMost_iff by blast
  with printable_on_keys have "uint c \<in> uint ` (set (take 58 normalmap) \<union> set (take 58 shiftmap))"
    unfolding list_all_iff by (metis (no_types, lifting) image_Un set_map)
  then have "c \<in> set (take 58 normalmap) \<union> set (take 58 shiftmap)" by (auto simp: word_uint_eq_iff[symmetric])
  moreover have "set (take 58 xs) \<subseteq> set (take 128 xs)" for xs :: "byte list" by (rule set_take_subset_set_take) simp
  ultimately have "c \<in> set (take 128 normalmap) \<union> set (take 128 shiftmap)" by blast
  then show ?thesis using assms by (intro types_charI) auto
qed

text \<open>
  C16: the keyboard handler never reads outside of its tables, whatever the modifier state and the
  scan codes, and the modifier keys lose nothing: for every printable ASCII character there are
  keystrokes (a key press and its release, inside a press and release of the left shift key when
  needed) that produce exactly that character and leave no modifier held.
\<close>

theorem keyboard_types_ascii:
  "(\<exists>shift' c. kbdgetc st d shift = Some (shift', c) \<and> - 1 \<le> c \<and> c < 256) \<and>
    list_all types_char (map of_nat [32..<127])"
proof -
  have "32 \<le> (of_nat n :: byte) \<and> of_nat n < (127 :: byte)" if "n \<in> set [32..<127]" for n
    using that unfolding set_upt atLeastLessThan_iff
    by (simp add: word_le_nat_alt word_less_nat_alt unat_of_nat)
  then have "list_all types_char (map of_nat [32..<127])"
    unfolding list_all_iff set_map by (blast intro: types_printable)
  with kbdgetc_total show ?thesis by blast
qed

end
