(* ===== verification/CString.thy ===== *)
theory CString
  imports Prelude
begin

text \<open>
  The memory and string routines of the kernel (src/src/string.c) and of the user library
  (src/src/ulib.c). Memory is one array of bytes and a pointer is an index into it, so ranges may
  overlap; an access outside of the array is \<^const>\<open>None\<close>. The kernel and the user version of a
  routine that differ carry the prefix \<open>k_\<close> or \<open>u_\<close>.
\<close>

unbundle bit_operations_syntax

type_synonym memory = "byte list"

section \<open>Operations on ranges\<close>

text \<open>The string instructions of x86.h that \<^verbatim>\<open>memset\<close> uses.\<close>

fun stosb :: "memory \<Rightarrow> nat \<Rightarrow> byte \<Rightarrow> nat \<Rightarrow> memory option" where
  "stosb mem p c 0 = Some mem"
| "stosb mem p c (Suc n) = do { mem \<leftarrow> wr mem (int p) c; stosb mem (p + 1) c n }"

definition store32 :: "memory \<Rightarrow> nat \<Rightarrow> 32 word \<Rightarrow> memory option" where
  "store32 mem p w = do {
     mem \<leftarrow> wr mem (int p) (ucast w);
     mem \<leftarrow> wr mem (int (p + 1)) (ucast (drop_bit 8 w));
     mem \<leftarrow> wr mem (int (p + 2)) (ucast (drop_bit 16 w));
     wr mem (int (p + 3)) (ucast (drop_bit 24 w))
   }"

fun stosl :: "memory \<Rightarrow> nat \<Rightarrow> 32 word \<Rightarrow> nat \<Rightarrow> memory option" where
  "stosl mem p w 0 = Some mem"
| "stosl mem p w (Suc n) = do { mem \<leftarrow> store32 mem p w; stosl mem (p + 4) w n }"

definition k_memset :: "memory \<Rightarrow> nat \<Rightarrow> 32 word \<Rightarrow> nat \<Rightarrow> memory option" where
  "k_memset mem dst c n =
     (if dst mod 4 = 0 \<and> n mod 4 = 0
      then let c = c AND 0xFF in stosl mem dst (push_bit 24 c OR push_bit 16 c OR push_bit 8 c OR c) (n div 4)
      else stosb mem dst (ucast c) n)"

definition u_memset :: "memory \<Rightarrow> nat \<Rightarrow> 32 word \<Rightarrow> nat \<Rightarrow> memory option" where
  "u_memset mem dst c n = stosb mem dst (ucast c) n"

fun memcmp :: "memory \<Rightarrow> nat \<Rightarrow> nat \<Rightarrow> nat \<Rightarrow> int option" where
  "memcmp mem s1 s2 0 = Some 0"
| "memcmp mem s1 s2 (Suc n) = do {
     a \<leftarrow> rd mem (int s1);
     b \<leftarrow> rd mem (int s2);
     if a \<noteq> b then Some (uint a - uint b) else memcmp mem (s1 + 1) (s2 + 1) n
   }"

text \<open>The two loops of \<^verbatim>\<open>memmove\<close>: from the end when the destination starts inside of the source.\<close>

fun move_down :: "memory \<Rightarrow> nat \<Rightarrow> nat \<Rightarrow> nat \<Rightarrow> memory option" where
  "move_down mem d s 0 = Some mem"
| "move_down mem d s (Suc n) = do { v \<leftarrow> rd mem (int (s + n)); mem \<leftarrow> wr mem (int (d + n)) v; move_down mem d s n }"

fun move_up :: "memory \<Rightarrow> nat \<Rightarrow> nat \<Rightarrow> nat \<Rightarrow> memory option" where
  "move_up mem d s 0 = Some mem"
| "move_up mem d s (Suc n) = do { v \<leftarrow> rd mem (int s); mem \<leftarrow> wr mem (int d) v; move_up mem (d + 1) (s + 1) n }"

definition k_memmove :: "memory \<Rightarrow> nat \<Rightarrow> nat \<Rightarrow> nat \<Rightarrow> memory option" where
  "k_memmove mem dst src n = (if src < dst \<and> src + n > dst then move_down mem dst src n else move_up mem dst src n)"

definition memcpy :: "memory \<Rightarrow> nat \<Rightarrow> nat \<Rightarrow> nat \<Rightarrow> memory option" where
  "memcpy mem dst src n = k_memmove mem dst src n"

definition u_memmove :: "memory \<Rightarrow> nat \<Rightarrow> nat \<Rightarrow> int \<Rightarrow> memory option" where
  "u_memmove mem dst src n = move_up mem dst src (nat n)"

section \<open>Operations on strings\<close>

fun strncmp :: "memory \<Rightarrow> nat \<Rightarrow> nat \<Rightarrow> nat \<Rightarrow> int option" where
  "strncmp mem p q 0 = Some 0"
| "strncmp mem p q (Suc n) = do {
     a \<leftarrow> rd mem (int p);
     b \<leftarrow> rd mem (int q);
     if a \<noteq> 0 \<and> a = b then strncmp mem (p + 1) (q + 1) n else Some (uint a - uint b)
   }"

fun strncpy :: "memory \<Rightarrow> nat \<Rightarrow> nat \<Rightarrow> nat \<Rightarrow> memory option" where
  "strncpy mem s t 0 = Some mem"
| "strncpy mem s t (Suc n) = do {
     v \<leftarrow> rd mem (int t);
     mem \<leftarrow> wr mem (int s) v;
     if v \<noteq> 0 then strncpy mem (s + 1) (t + 1) n else stosb mem (s + 1) 0 n
   }"

text \<open>The loop copies at most \<open>n\<close> bytes and gives the place of the terminator.\<close>

fun safestrcpy_loop :: "memory \<Rightarrow> nat \<Rightarrow> nat \<Rightarrow> nat \<Rightarrow> (memory \<times> nat) option" where
  "safestrcpy_loop mem s t 0 = Some (mem, s)"
| "safestrcpy_loop mem s t (Suc n) = do {
     v \<leftarrow> rd mem (int t);
     mem \<leftarrow> wr mem (int s) v;
     if v \<noteq> 0 then safestrcpy_loop mem (s + 1) (t + 1) n else Some (mem, s + 1)
   }"

definition safestrcpy :: "memory \<Rightarrow> nat \<Rightarrow> nat \<Rightarrow> int \<Rightarrow> memory option" where
  "safestrcpy mem s t n =
     (if n \<le> 0 then Some mem
      else do { (mem, s) \<leftarrow> safestrcpy_loop mem s t (nat (n - 1)); wr mem (int s) 0 })"

function strlen_loop :: "memory \<Rightarrow> nat \<Rightarrow> nat \<Rightarrow> nat option" where
  "strlen_loop mem s n = (case rd mem (int (s + n)) of None \<Rightarrow> None
     | Some v \<Rightarrow> if v \<noteq> 0 then strlen_loop mem s (n + 1) else Some n)"
  by pat_completeness auto
termination by (relation "measure (\<lambda>(mem, s, n). length mem - (s + n))") (auto simp: rd_def split: if_splits)

definition c_strlen :: "memory \<Rightarrow> nat \<Rightarrow> nat option" where
  "c_strlen mem s = strlen_loop mem s 0"

function strcpy :: "memory \<Rightarrow> nat \<Rightarrow> nat \<Rightarrow> memory option" where
  "strcpy mem s t = (case rd mem (int t) of None \<Rightarrow> None
     | Some v \<Rightarrow> (case wr mem (int s) v of None \<Rightarrow> None
         | Some mem' \<Rightarrow> if v \<noteq> 0 then strcpy mem' (s + 1) (t + 1) else Some mem'))"
  by pat_completeness auto
termination
  by (relation "measure (\<lambda>(mem, s, t). length mem - t)") (auto simp: rd_def wr_def split: if_splits)

function strcmp :: "memory \<Rightarrow> nat \<Rightarrow> nat \<Rightarrow> int option" where
  "strcmp mem p q = (case rd mem (int p) of None \<Rightarrow> None
     | Some a \<Rightarrow> (case rd mem (int q) of None \<Rightarrow> None
         | Some b \<Rightarrow> if a \<noteq> 0 \<and> a = b then strcmp mem (p + 1) (q + 1) else Some (uint a - uint b)))"
  by pat_completeness auto
termination by (relation "measure (\<lambda>(mem, p, q). length mem - p)") (auto simp: rd_def split: if_splits)

text \<open>\<open>Some None\<close> is the null pointer, for a character that does not occur.\<close>

function strchr :: "memory \<Rightarrow> nat \<Rightarrow> byte \<Rightarrow> nat option option" where
  "strchr mem s c = (case rd mem (int s) of None \<Rightarrow> None
     | Some v \<Rightarrow> if v \<noteq> 0 then (if v = c then Some (Some s) else strchr mem (s + 1) c) else Some None)"
  by pat_completeness auto
termination by (relation "measure (\<lambda>(mem, s, c). length mem - s)") (auto simp: rd_def split: if_splits)

text \<open>The bytes that \<^verbatim>\<open>read(0, &c, 1)\<close> will give are an argument; the empty list is the end of the input.\<close>

function gets_loop :: "memory \<Rightarrow> nat \<Rightarrow> int \<Rightarrow> int \<Rightarrow> byte list \<Rightarrow> (memory \<times> int \<times> byte list) option" where
  "gets_loop mem buf i mx input =
     (if i + 1 < mx then (case input of [] \<Rightarrow> Some (mem, i, [])
        | c # input' \<Rightarrow> (case wr mem (int buf + i) c of None \<Rightarrow> None
            | Some mem' \<Rightarrow> if c = 10 \<or> c = 13 then Some (mem', i + 1, input') else gets_loop mem' buf (i + 1) mx input'))
      else Some (mem, i, input))"
  by pat_completeness auto
termination by (relation "measure (\<lambda>(mem, buf, i, mx, input). length input)") auto

definition gets :: "memory \<Rightarrow> nat \<Rightarrow> int \<Rightarrow> byte list \<Rightarrow> (memory \<times> byte list) option" where
  "gets mem buf mx input = do {
     (mem, i, input) \<leftarrow> gets_loop mem buf 0 mx input;
     mem \<leftarrow> wr mem (int buf + i) 0;
     Some (mem, input)
   }"

text \<open>\<^verbatim>\<open>atoi\<close> on the bytes of its string; the arithmetic is on 32-bit integers.\<close>

fun atoi_loop :: "32 word \<Rightarrow> byte list \<Rightarrow> 32 word" where
  "atoi_loop n [] = n"
| "atoi_loop n (c # s) = (if 48 \<le> c \<and> c \<le> 57 then atoi_loop (n * 10 + ucast c - 48) s else n)"

definition atoi :: "cstring \<Rightarrow> int" where
  "atoi s = sint (atoi_loop 0 s)"

declare strlen_loop.simps [simp del] strcpy.simps [simp del] strcmp.simps [simp del] strchr.simps [simp del]
  gets_loop.simps [simp del]

section \<open>Ranges\<close>

text \<open>The memory in which the range at \<open>d\<close> holds the bytes \<open>bs\<close>.\<close>

definition blit :: "'a list \<Rightarrow> nat \<Rightarrow> 'a list \<Rightarrow> 'a list" where
  "blit mem d bs = take d mem @ bs @ drop (d + length bs) mem"

definition range_of :: "'a list \<Rightarrow> nat \<Rightarrow> nat \<Rightarrow> 'a list" where
  "range_of mem s n = take n (drop s mem)"

lemma blit_Nil [simp]: "blit mem d [] = mem"
  by (simp add: blit_def)

lemma length_blit [simp]: "d + length bs \<le> length mem \<Longrightarrow> length (blit mem d bs) = length mem"
  by (simp add: blit_def)

lemma length_range_of [simp]: "s + n \<le> length mem \<Longrightarrow> length (range_of mem s n) = n"
  by (simp add: range_of_def)

lemma range_of_0 [simp]: "range_of mem s 0 = []"
  by (simp add: range_of_def)

lemma range_of_Suc: "s < length mem \<Longrightarrow> range_of mem s (Suc n) = mem ! s # range_of mem (Suc s) n"
  by (simp add: range_of_def Cons_nth_drop_Suc[symmetric])

lemma range_of_snoc: "s + n < length mem \<Longrightarrow> range_of mem s (Suc n) = range_of mem s n @ [mem ! (s + n)]"
  by (simp add: range_of_def take_Suc_conv_app_nth)

lemma range_of_update: "d < s \<or> s + n \<le> d \<Longrightarrow> range_of (mem[d := v]) s n = range_of mem s n"
  by (auto simp: range_of_def drop_update_swap not_less)

lemma blit_update_first:
  "d + length bs < length mem \<Longrightarrow> blit (mem[d := v]) (Suc d) bs = blit mem d (v # bs)"
  by (simp add: blit_def take_Suc_conv_app_nth)

lemma blit_update_last:
  "d + length bs < length mem \<Longrightarrow> blit (mem[d + length bs := v]) d bs = blit mem d (bs @ [v])"
  by (simp add: blit_def drop_update_swap Cons_nth_drop_Suc[symmetric])

lemma blit_set_next:
  "d + length bs < length mem \<Longrightarrow> (blit mem d bs)[d + length bs := v] = blit mem d (bs @ [v])"
  by (simp add: blit_def list_update_append Cons_nth_drop_Suc[symmetric])

lemma drop_blit: "d + length bs \<le> e \<Longrightarrow> e \<le> length mem \<Longrightarrow> drop e (blit mem d bs) = drop e mem"
  by (simp add: blit_def)

lemma take_blit: "e \<le> d \<Longrightarrow> d \<le> length mem \<Longrightarrow> take e (blit mem d bs) = take e mem"
  by (simp add: blit_def)

lemma range_of_blit [simp]: "d + length bs \<le> length mem \<Longrightarrow> range_of (blit mem d bs) d (length bs) = bs"
  by (simp add: blit_def range_of_def)

lemma stosb_blit: "p + n \<le> length mem \<Longrightarrow> stosb mem p c n = Some (blit mem p (replicate n c))"
proof (induction n arbitrary: mem p)
  case (Suc n)
  then show ?case using blit_update_first[of p "replicate n c" mem c] by simp
qed simp

lemma store32_same:
  assumes "p + 4 \<le> length mem" "\<And>k. k \<in> {0, 8, 16, 24} \<Longrightarrow> ucast (drop_bit k w) = b"
  shows "store32 mem p w = stosb mem p b 4"
  using assms(1) assms(2)[of 0] assms(2)[of 8] assms(2)[of 16] assms(2)[of 24]
  by (simp add: store32_def numeral_eq_Suc)

lemma stosl_same:
  assumes "\<And>k. k \<in> {0, 8, 16, 24} \<Longrightarrow> ucast (drop_bit k w) = b"
  shows "p + 4 * n \<le> length mem \<Longrightarrow> stosl mem p w n = Some (blit mem p (replicate (4 * n) b))"
proof (induction n arbitrary: mem p)
  case (Suc n)
  have 1: "store32 mem p w = Some (blit mem p (replicate 4 b))"
    using Suc.prems store32_same[of p mem w b] stosb_blit[of p 4 mem b] assms by simp
  have "blit (blit mem p (replicate 4 b)) (p + 4) (replicate (4 * n) b) = blit mem p (replicate 4 b @ replicate (4 * n) b)"
    using Suc.prems by (simp add: blit_def ac_simps)
  moreover have "replicate 4 b @ replicate (4 * n) b = replicate (4 * Suc n) b"
    by (simp flip: replicate_add)
  ultimately show ?case
    using 1 Suc.IH[of "p + 4" "blit mem p (replicate 4 b)"] Suc.prems by simp
qed simp

lemma splat_bytes:
  fixes c :: "32 word"
  assumes "k \<in> {0, 8, 16, 24}"
  defines "d \<equiv> c AND 0xFF"
  shows "(ucast (drop_bit k (push_bit 24 d OR push_bit 16 d OR push_bit 8 d OR d)) :: byte) = ucast c"
proof -
  have m: "(0xFF :: 32 word) = mask 8" by (simp add: mask_eq_exp_minus_1)
  show ?thesis
  proof (rule bit_word_eqI)
    fix n assume "n < LENGTH(8)"
    then show "bit (ucast (drop_bit k (push_bit 24 d OR push_bit 16 d OR push_bit 8 d OR d)) :: byte) n = bit (ucast c :: byte) n"
      using assms(1) by (elim insertE emptyE; simp add: d_def m bit_simps)
  qed
qed

lemma k_memset_blit:
  assumes "dst + n \<le> length mem"
  shows "k_memset mem dst c n = Some (blit mem dst (replicate n (ucast c)))"
proof (cases "dst mod 4 = 0 \<and> n mod 4 = 0")
  case True
  then have "4 * (n div 4) = n" by presburger
  moreover note stosl_same[where b = "ucast c", OF splat_bytes[of _ c], of dst "n div 4" mem]
  ultimately show ?thesis using True assms by (simp add: k_memset_def Let_def)
qed (use assms in \<open>auto simp: k_memset_def stosb_blit\<close>)

section \<open>Claims\<close>

text \<open>
  the word-at-a-time path of the kernel's memset writes the same bytes as the byte-wise one:
  for every alignment and length, exactly the range becomes the low byte of the argument.
\<close>

lemma memset_fills:
  assumes "dst + n \<le> length mem"
  shows "k_memset mem dst c n = u_memset mem dst c n \<and> k_memset mem dst c n = Some (blit mem dst (replicate n (ucast c)))"
  using assms by (simp add: k_memset_blit u_memset_def stosb_blit)

lemma memset_fills_witness:
  "k_memset [1, 2, 3, 4, 5] 0 0x107 4 = u_memset [1, 2, 3, 4, 5] 0 0x107 4 \<and>
   k_memset [1, 2, 3, 4, 5] 0 0x107 4 = Some (blit [1, 2, 3, 4, 5] 0 (replicate 4 (ucast (0x107 :: 32 word))))"
  by (rule memset_fills) simp

lemma move_up_blit:
  "\<not> (s < d \<and> d < s + n) \<Longrightarrow> s + n \<le> length mem \<Longrightarrow> d + n \<le> length mem \<Longrightarrow>
   move_up mem d s n = Some (blit mem d (range_of mem s n))"
proof (induction n arbitrary: mem d s)
  case (Suc n)
  let ?mem = "mem[d := mem ! s]"
  have "move_up ?mem (Suc d) (Suc s) n = Some (blit ?mem (Suc d) (range_of ?mem (Suc s) n))"
    using Suc.prems by (intro Suc.IH) auto
  moreover have "range_of ?mem (Suc s) n = range_of mem (Suc s) n"
    using Suc.prems by (intro range_of_update) auto
  moreover have "blit ?mem (Suc d) (range_of mem (Suc s) n) = blit mem d (range_of mem s (Suc n))"
    using Suc.prems by (simp add: range_of_Suc blit_update_first)
  ultimately show ?case using Suc.prems by simp
qed simp

lemma move_down_blit:
  "s \<le> d \<Longrightarrow> s + n \<le> length mem \<Longrightarrow> d + n \<le> length mem \<Longrightarrow>
   move_down mem d s n = Some (blit mem d (range_of mem s n))"
proof (induction n arbitrary: mem)
  case (Suc n)
  let ?mem = "mem[d + n := mem ! (s + n)]"
  have "move_down ?mem d s n = Some (blit ?mem d (range_of ?mem s n))"
    using Suc.prems by (intro Suc.IH) auto
  moreover have "range_of ?mem s n = range_of mem s n"
    using Suc.prems by (intro range_of_update) auto
  moreover have "blit ?mem d (range_of mem s n) = blit mem d (range_of mem s (Suc n))"
    using Suc.prems blit_update_last[of d "range_of mem s n" mem "mem ! (s + n)"] by (simp add: range_of_snoc)
  ultimately show ?case using Suc.prems by (simp del: of_nat_add)
qed simp

text \<open>
  The kernel's memmove copies the source range as it was before the call, however the two
  ranges overlap, and changes nothing else.
\<close>

theorem memmove_copies:
  assumes "src + n \<le> length mem" "dst + n \<le> length mem"
  shows "k_memmove mem dst src n = Some (blit mem dst (range_of mem src n))"
  using assms by (auto simp: k_memmove_def move_up_blit move_down_blit)

theorem memmove_copies_witness:
  "k_memmove [1, 2, 3, 4, 5] 1 0 4 = Some (blit [1, 2, 3, 4, 5] 1 (range_of [1, 2, 3, 4, 5] 0 4))"
  by (rule memmove_copies) simp_all

text \<open>The user library's version copies upwards only, and loses bytes when it overlaps its source.\<close>

lemma u_memmove_overlap: "u_memmove [1, 2, 3, 4, 5] 1 0 4 = Some [1, 1, 1, 1, 1]"
  by code_simp

section \<open>Strings\<close>

definition string_at :: "memory \<Rightarrow> nat \<Rightarrow> cstring \<Rightarrow> bool" where
  "string_at mem p s \<longleftrightarrow> p + length s < length mem \<and> range_of mem p (length s) = s \<and> mem ! (p + length s) = 0 \<and> 0 \<notin> set s"

lemma string_at_Nil [simp]: "string_at mem p [] \<longleftrightarrow> p < length mem \<and> mem ! p = 0"
  by (auto simp: string_at_def)

lemma string_at_Cons [simp]:
  "string_at mem p (c # s) \<longleftrightarrow> p < length mem \<and> mem ! p = c \<and> c \<noteq> 0 \<and> string_at mem (Suc p) s"
  by (auto simp: string_at_def range_of_Suc)

lemma cstr_string: "string_at mem p s \<Longrightarrow> cstr (drop p mem) = s"
proof (induction s arbitrary: p)
  case Nil
  then show ?case by (simp add: cstr_def Cons_nth_drop_Suc[symmetric])
next
  case (Cons t s)
  then show ?case by (simp add: cstr_def Cons_nth_drop_Suc[symmetric])
qed

lemma string_at_update: "d < p \<or> p + length s < d \<Longrightarrow> string_at (mem[d := v]) p s = string_at mem p s"
proof -
  assume d: "d < p \<or> p + length s < d"
  then have "range_of (mem[d := v]) p (length s) = range_of mem p (length s)" by (intro range_of_update) auto
  with d show ?thesis unfolding string_at_def by auto
qed

text \<open>A field of \<open>n\<close> bytes that holds a string, filled with zeros when the string is shorter.\<close>

definition padded :: "nat \<Rightarrow> cstring \<Rightarrow> byte list" where
  "padded n s = take n (s @ replicate n 0)"

lemma length_padded [simp]: "length (padded n s) = n"
  by (simp add: padded_def)

lemma padded_Nil [simp]: "padded n [] = replicate n 0"
  by (simp add: padded_def)

lemma padded_Suc [simp]: "padded (Suc n) (c # s) = c # padded n s"
  by (simp add: padded_def del: replicate_Suc flip: replicate_Suc)

lemma padded_0 [simp]: "padded 0 s = []"
  by (simp add: padded_def)

lemma strncpy_padded:
  "string_at mem t str \<Longrightarrow> s + n \<le> length mem \<Longrightarrow> s + n \<le> t \<or> t + length str < s \<Longrightarrow>
   strncpy mem s t n = Some (blit mem s (padded n str))"
proof (induction n arbitrary: mem s t str)
  case (Suc n)
  show ?case
  proof (cases str)
    case Nil
    with Suc.prems have "strncpy mem s t (Suc n) = stosb (mem[s := 0]) (s + 1) 0 n" by auto
    with Suc.prems Nil show ?thesis
      using stosb_blit[of "Suc s" n "mem[s := 0]" 0] blit_update_first[of s "replicate n 0" mem 0] by simp
  next
    case (Cons c cs)
    with Suc.prems have "strncpy (mem[s := c]) (Suc s) (Suc t) n = Some (blit (mem[s := c]) (Suc s) (padded n cs))"
      by (intro Suc.IH) (auto simp: string_at_update)
    with Suc.prems Cons show ?thesis
      using blit_update_first[of s "padded n cs" mem c] by auto
  qed
qed simp

text \<open>What a comparison of at most \<open>n\<close> bytes sees of the bytes at a pointer.\<close>

definition cstr_n :: "nat \<Rightarrow> byte list \<Rightarrow> cstring" where
  "cstr_n n bs = cstr (take n bs)"

definition ends_within :: "nat \<Rightarrow> byte list \<Rightarrow> bool" where
  "ends_within n bs \<longleftrightarrow> n \<le> length bs \<or> 0 \<in> set bs"

lemma cstr_n_Suc: "cstr_n (Suc n) (b # bs) = (if b = 0 then [] else b # cstr_n n bs)"
  by (simp add: cstr_n_def cstr_def)

lemma drop_nonempty: "ends_within (Suc n) (drop p mem) \<Longrightarrow> p < length mem \<and> drop p mem = mem ! p # drop (Suc p) mem"
  by (cases "p < length mem") (auto simp: ends_within_def Cons_nth_drop_Suc)

lemma strncmp_zero:
  "ends_within n (drop p mem) \<Longrightarrow> ends_within n (drop q mem) \<Longrightarrow>
   \<exists>d. strncmp mem p q n = Some d \<and> (d = 0 \<longleftrightarrow> cstr_n n (drop p mem) = cstr_n n (drop q mem))"
proof (induction n arbitrary: p q)
  case 0
  then show ?case by (simp add: cstr_n_def)
next
  case (Suc n)
  note P = drop_nonempty[OF Suc.prems(1)] and Q = drop_nonempty[OF Suc.prems(2)]
  show ?case
  proof (cases "mem ! p \<noteq> 0 \<and> mem ! p = mem ! q")
    case True
    with Suc.prems P Q have "ends_within n (drop (Suc p) mem)" "ends_within n (drop (Suc q) mem)"
      by (auto simp: ends_within_def)
    from Suc.IH[OF this] True P Q show ?thesis by (auto simp: cstr_n_Suc)
  next
    case False
    then have "(uint (mem ! p) - uint (mem ! q) = 0) = (mem ! p = mem ! q)" by (simp add: word_uint_eq_iff)
    with False P Q show ?thesis by (auto simp: cstr_n_Suc)
  qed
qed

lemma string_at_drop: "string_at mem p s \<Longrightarrow> \<exists>rest. drop p mem = s @ 0 # rest \<and> 0 \<notin> set s"
proof (induction s arbitrary: p)
  case Nil
  then show ?case by (auto simp flip: Cons_nth_drop_Suc)
next
  case (Cons c s)
  then obtain rest where "drop (Suc p) mem = s @ 0 # rest" "0 \<notin> set s" by auto
  with Cons.prems show ?case by (auto simp flip: Cons_nth_drop_Suc)
qed

lemma cstr_n_string: "0 \<notin> set s \<Longrightarrow> cstr_n n (s @ 0 # rest) = take n s"
  by (induction s arbitrary: n) (auto simp: cstr_n_def cstr_def take_Cons split: nat.splits)

lemma cstr_n_padded: "0 \<notin> set s \<Longrightarrow> cstr_n n (padded n s @ rest) = take n s"
proof (induction n arbitrary: s)
  case (Suc n)
  then show ?case by (cases s) (auto simp: cstr_n_Suc)
qed (simp add: cstr_n_def cstr_def)

lemma string_at_blit:
  assumes "string_at mem u s" "f + length bs \<le> length mem" "f + length bs \<le> u \<or> u + length s < f"
  shows "string_at (blit mem f bs) u s"
proof -
  have "drop u (blit mem f bs) = drop u mem" if "f + length bs \<le> u"
    using assms(2) that by (simp add: blit_def)
  moreover have "take (Suc (length s)) (drop u (blit mem f bs)) = take (Suc (length s)) (drop u mem)" if "u + length s < f"
    using assms(2) that by (simp add: blit_def take_drop min_def)
  ultimately have *: "take (Suc (length s)) (drop u (blit mem f bs)) = take (Suc (length s)) (drop u mem)"
    using assms(3) by auto
  then have "take (length s) (drop u (blit mem f bs)) = take (length s) (drop u mem)"
  proof -
    have "take (length s) X = take (length s) (take (Suc (length s)) X)" for X :: memory by simp
    from this[of "drop u (blit mem f bs)"] this[of "drop u mem"] show ?thesis by (simp only: *)
  qed
  moreover have "blit mem f bs ! (u + length s) = mem ! (u + length s)"
    using arg_cong[OF *, of "\<lambda>xs. xs ! length s"] assms(1,2) by (simp add: string_at_def)
  ultimately show ?thesis using assms(1,2) by (simp add: string_at_def range_of_def)
qed

text \<open>
  A directory entry's name field written by strncpy compares equal, by strncmp over the size
  of the field, to exactly the strings that agree with the written one in their first \<open>n\<close> bytes.
\<close>

lemma strncpy_strncmp:
  assumes "string_at mem t s" "string_at mem u s2" "f + n \<le> length mem"
    and "f + n \<le> t \<or> t + length s < f" "f + n \<le> u \<or> u + length s2 < f"
  shows "\<exists>mem' d. strncpy mem f t n = Some mem' \<and> strncmp mem' u f n = Some d \<and> (d = 0 \<longleftrightarrow> take n s2 = take n s)"
proof -
  let ?m = "blit mem f (padded n s)"
  have cpy: "strncpy mem f t n = Some ?m" using assms by (intro strncpy_padded) auto
  have "string_at ?m u s2" using assms by (intro string_at_blit) auto
  then obtain rest where u: "drop u ?m = s2 @ 0 # rest" "0 \<notin> set s2" using string_at_drop by blast
  have f: "drop f ?m = padded n s @ drop (f + n) mem" using assms(3) by (simp add: blit_def)
  have "0 \<notin> set s" using assms(1) by (simp add: string_at_def)
  then show ?thesis
    using strncmp_zero[of n u ?m f] cpy u f by (auto simp: ends_within_def cstr_n_string cstr_n_padded)
qed

lemma strncpy_strncmp_witness:
  "\<exists>mem' d. strncpy [97, 98, 99, 0, 97, 98, 0, 7, 7] 7 0 2 = Some mem' \<and> strncmp mem' 4 7 2 = Some d \<and>
     (d = 0 \<longleftrightarrow> take 2 [97, 98] = take 2 [97, 98, 99 :: byte])"
  by (rule strncpy_strncmp) simp_all

lemma safestrcpy_loop_blit:
  "string_at mem t str \<Longrightarrow> s + n \<le> length mem \<Longrightarrow> s + n \<le> t \<or> t + length str < s \<Longrightarrow>
   safestrcpy_loop mem s t n = Some (blit mem s (take n (str @ [0])), s + length (take n (str @ [0])))"
proof (induction n arbitrary: mem s t str)
  case (Suc n)
  show ?case
  proof (cases str)
    case Nil
    with Suc.prems show ?thesis using blit_update_first[of s "[]" mem 0] by auto
  next
    case (Cons c cs)
    with Suc.prems have "safestrcpy_loop (mem[s := c]) (Suc s) (Suc t) n =
        Some (blit (mem[s := c]) (Suc s) (take n (cs @ [0])), Suc s + length (take n (cs @ [0])))"
      by (intro Suc.IH) (auto simp: string_at_update)
    with Suc.prems Cons show ?thesis using blit_update_first[of s "take n (cs @ [0])" mem c] by auto
  qed
qed simp

lemma string_at_written:
  assumes "s + length bs < length mem" "0 \<notin> set bs"
  shows "string_at (blit mem s (bs @ 0 # rest)) s bs"
  using assms by (simp add: string_at_def blit_def range_of_def nth_append)

text \<open>
  safestrcpy always leaves a terminated string inside of its \<open>n\<close> bytes: the first \<open>n - 1\<close>
  bytes of the source string.
\<close>

lemma safestrcpy_terminates:
  assumes "string_at mem t str" "0 < n" "s + nat n \<le> length mem" "s + nat n \<le> t \<or> t + length str < s"
  shows "\<exists>mem'. safestrcpy mem s t n = Some mem' \<and> string_at mem' s (take (nat n - 1) str) \<and>
    take s mem' = take s mem \<and> drop (s + nat n) mem' = drop (s + nat n) mem"
proof -
  obtain k where k: "nat n = Suc k" "nat (n - 1) = k" using assms(2) by (cases "nat n") auto
  have loop: "safestrcpy_loop mem s t k = Some (blit mem s (take k (str @ [0])), s + length (take k (str @ [0])))"
    using assms k by (intro safestrcpy_loop_blit) auto
  have no0: "0 \<notin> set (take k str)" using assms(1) by (auto simp: string_at_def dest: in_set_takeD)
  let ?w = "take k (str @ [0])"
  have len: "length ?w \<le> k" by simp
  have "safestrcpy mem s t n = wr (blit mem s ?w) (int (s + length ?w)) 0"
    using assms(2) loop k(2) by (simp add: safestrcpy_def)
  also have "\<dots> = Some ((blit mem s ?w)[s + length ?w := 0])"
    using len k(1) assms(3) by (intro wr_nat) simp
  also have "(blit mem s ?w)[s + length ?w := 0] = blit mem s (?w @ [0])"
    using len k(1) assms(3) by (intro blit_set_next) simp
  finally have res: "safestrcpy mem s t n = Some (blit mem s (?w @ [0]))" .
  have "?w @ [0] = take k str @ 0 # (if k \<le> length str then [] else [0])" by (auto simp: not_le)
  then have "string_at (blit mem s (?w @ [0])) s (take k str)"
    using string_at_written[of s "take k str" mem "if k \<le> length str then [] else [0]"] assms(3) k(1) no0
    by auto
  moreover have "drop (s + nat n) (blit mem s (?w @ [0])) = drop (s + nat n) mem"
    using len k(1) assms(3) by (intro drop_blit) auto
  moreover have "take s (blit mem s (?w @ [0])) = take s mem" using assms(3) by (intro take_blit) auto
  ultimately show ?thesis using res k(1) by auto
qed

lemma safestrcpy_terminates_witness:
  "\<exists>mem'. safestrcpy [97, 98, 99, 0, 7, 7, 7, 7] 4 0 3 = Some mem' \<and> string_at mem' 4 (take (nat 3 - 1) [97, 98, 99]) \<and>
    take 4 mem' = take 4 [97, 98, 99, 0, 7, 7, 7, 7] \<and> drop (4 + nat 3) mem' = drop (4 + nat 3) [97, 98, 99, 0, 7, 7, 7, 7]"
  by (rule safestrcpy_terminates) simp_all

lemma strlen_loop_string: "string_at mem (s + n) str \<Longrightarrow> strlen_loop mem s n = Some (n + length str)"
proof (induction str arbitrary: n)
  case Nil
  then show ?case by (subst strlen_loop.simps) (simp del: of_nat_add)
next
  case (Cons c cs)
  then have "strlen_loop mem s (Suc n) = Some (Suc n + length cs)" by (intro Cons.IH) simp
  with Cons.prems show ?case by (subst strlen_loop.simps) (simp del: of_nat_add)
qed

lemma c_strlen_string: "string_at mem s str \<Longrightarrow> c_strlen mem s = Some (length str)"
  using strlen_loop_string[of mem s 0 str] by (simp add: c_strlen_def)

lemma strcpy_blit:
  "string_at mem t str \<Longrightarrow> s + length str < length mem \<Longrightarrow> s + length str < t \<or> t + length str < s \<Longrightarrow>
   strcpy mem s t = Some (blit mem s (str @ [0]))"
proof (induction str arbitrary: mem s t)
  case Nil
  then show ?case using blit_update_first[of s "[]" mem 0] by (subst strcpy.simps) simp
next
  case (Cons c cs)
  then have "strcpy (mem[s := c]) (Suc s) (Suc t) = Some (blit (mem[s := c]) (Suc s) (cs @ [0]))"
    by (intro Cons.IH) (auto simp: string_at_update)
  with Cons.prems show ?case
    using blit_update_first[of s "cs @ [0]" mem c] by (subst strcpy.simps) auto
qed

lemma uint_pos_iff: "0 < uint x \<longleftrightarrow> x \<noteq> 0" for x :: "'a :: len word"
  by (simp add: order_less_le uint_0_iff)

lemma strcmp_strings:
  "string_at mem p a \<Longrightarrow> string_at mem q b \<Longrightarrow>
   \<exists>d. strcmp mem p q = Some d \<and> (d = 0 \<longleftrightarrow> a = b) \<and> (d < 0 \<longleftrightarrow> (a, b) \<in> lexord {(x, y). x < y})"
proof (induction a arbitrary: b p q)
  case Nil
  then show ?case by (cases b; subst strcmp.simps) (auto simp: word_less_def uint_0_iff uint_pos_iff)
next
  case (Cons x a)
  show ?case
  proof (cases b)
    case Nil
    with Cons.prems show ?thesis by (subst strcmp.simps) (auto simp: uint_0_iff)
  next
    case (Cons y b')
    with Cons.prems Cons.IH[of "Suc p" "Suc q" b'] show ?thesis
      by (subst strcmp.simps) (auto simp flip: word_less_def word_uint_eq_iff)
  qed
qed

end
