(* ===== verification/Ring.thy ===== *)
theory Ring
  imports Prelude
begin

text \<open>
  Rings indexed by free-running 32-bit counters, as the pipe and the console input buffer use
  them: a cell is found by the counter modulo the size, and the counters wrap around. Everything
  is for sizes that divide the range of the counters.
\<close>

definition ring_get :: "'a list \<Rightarrow> 32 word \<Rightarrow> 'a" where
  "ring_get buf i = buf ! (unat i mod length buf)"

definition ring_put :: "'a list \<Rightarrow> 32 word \<Rightarrow> 'a \<Rightarrow> 'a list" where
  "ring_put buf i v = buf[unat i mod length buf := v]"

text \<open>The elements between two counters.\<close>

definition ring_contents :: "'a list \<Rightarrow> 32 word \<Rightarrow> 32 word \<Rightarrow> 'a list" where
  "ring_contents buf r w = map (\<lambda>k. ring_get buf (r + of_nat k)) [0..<unat (w - r)]"

definition ring_size :: "'a list \<Rightarrow> bool" where
  "ring_size buf \<longleftrightarrow> 0 < length buf \<and> length buf dvd 2 ^ 32"

lemma ring_size_put [simp]: "ring_size (ring_put buf i v) = ring_size buf"
  by (simp add: ring_size_def ring_put_def)

lemma length_ring_put [simp]: "length (ring_put buf i v) = length buf"
  by (simp add: ring_put_def)

lemma length_ring_contents [simp]: "length (ring_contents buf r w) = unat (w - r)"
  by (simp add: ring_contents_def)

lemma ring_contents_empty [simp]: "ring_contents buf r r = []"
  by (simp add: ring_contents_def)

lemma unat_plus_mod:
  assumes "N dvd 2 ^ 32"
  shows "unat (r + of_nat k :: 32 word) mod N = (unat r + k) mod N"
proof -
  have "unat (r + of_nat k) = (unat r + k) mod 2 ^ 32"
    by (simp add: unat_word_ariths unat_of_nat mod_simps)
  then show ?thesis using assms by (simp add: mod_mod_cancel)
qed

lemma mod_neq:
  fixes a k n N :: nat
  assumes "k < n" "n - k < N"
  shows "(a + k) mod N \<noteq> (a + n) mod N"
proof
  assume "(a + k) mod N = (a + n) mod N"
  then have "N dvd (a + n) - (a + k)" using assms(1) by (metis mod_eq_dvd_iff_nat add_le_cancel_left less_imp_le)
  then show False using assms by (auto dest: dvd_imp_le)
qed

lemma ring_get_put_same: "ring_size buf \<Longrightarrow> ring_get (ring_put buf i v) i = v"
  by (simp add: ring_get_def ring_put_def ring_size_def)

lemma ring_get_put_other:
  assumes "ring_size buf" "k < n" "n - k < length buf"
  shows "ring_get (ring_put buf (r + of_nat n) v) (r + of_nat k) = ring_get buf (r + of_nat k)"
  using assms mod_neq[of k n "length buf" "unat r"]
  by (simp add: ring_get_def ring_put_def unat_plus_mod ring_size_def)

lemma word_split: "(w :: 32 word) = r + of_nat (unat (w - r))"
  by simp

lemma unat_Suc_diff: "unat ((w + 1) - r) = Suc (unat (w - r))" if "unat (w - r) < 2 ^ 32 - 1" for w r :: "32 word"
proof -
  have "w + 1 - r = (w - r) + 1" by simp
  then have "unat (w + 1 - r) = unat ((w - r) + 1)" by (simp only:)
  also have "\<dots> = Suc (unat (w - r))"
    using that by (simp add: unat_word_ariths)
  finally show ?thesis .
qed

lemma ring_length_le: "ring_size buf \<Longrightarrow> length buf \<le> 2 ^ 32"
  by (simp add: ring_size_def dvd_imp_le)

lemma ring_contents_put:
  assumes "ring_size buf" "unat (w - r) < length buf" "unat (w - r) < 2 ^ 32 - 1"
  shows "ring_contents (ring_put buf w v) r (w + 1) = ring_contents buf r w @ [v]"
proof -
  let ?n = "unat (w - r)"
  have "ring_get (ring_put buf w v) (r + of_nat k) = ring_get buf (r + of_nat k)" if "k < ?n" for k
    using ring_get_put_other[OF assms(1) that, of r v] assms(2) by simp
  moreover have "ring_get (ring_put buf w v) (r + of_nat ?n) = v" using ring_get_put_same[OF assms(1)] by simp
  ultimately show ?thesis using unat_Suc_diff[OF assms(3)] by (simp add: ring_contents_def)
qed

lemma ring_contents_get:
  assumes "r \<noteq> w"
  shows "ring_contents buf r w = ring_get buf r # ring_contents buf (r + 1) w"
proof -
  have "0 < unat (w - r)" using assms by (simp add: unat_gt_0)
  then obtain n where n: "unat (w - r) = Suc n" by (cases "unat (w - r)") auto
  have "w - r = of_nat (unat (w - r))" by simp
  then have "w - r = of_nat (Suc n)" by (simp only: n)
  then have e: "w - (r + 1) = of_nat n" by (simp add: algebra_simps)
  have "unat (w - r) < 2 ^ 32" using unsigned_less[of "w - r"] by (simp only: len_bit0 len_num1 mult_1_right) simp
  then have "n < 2 ^ 32" by (simp only: n)
  then have "unat (w - (r + 1)) = n" by (simp add: e unat_of_nat)
  then show ?thesis
    by (simp add: ring_contents_def n upt_conv_Cons map_Suc_upt[symmetric] add.assoc del: upt_Suc)
qed

lemma ring_contents_split:
  assumes "unat (w - r) \<le> unat (e - r)"
  shows "ring_contents buf r e = ring_contents buf r w @ ring_contents buf w e"
proof -
  let ?a = "unat (w - r)" and ?b = "unat (e - w)"
  have "e - w = (e - r) - (w - r)" by simp
  then have "?b = unat ((e - r) - (w - r))" by (rule arg_cong)
  also have "\<dots> = unat (e - r) - ?a" using assms by (intro unat_sub) (simp add: word_le_nat_alt)
  finally have "?b = unat (e - r) - ?a" .
  then have n: "unat (e - r) = ?a + ?b" using assms by simp
  have "ring_get buf (r + of_nat (?a + k)) = ring_get buf (w + of_nat k)" for k by simp
  then have "map (\<lambda>k. ring_get buf (r + of_nat k)) [?a..<?a + ?b] = map (\<lambda>k. ring_get buf (w + of_nat k)) [0..<?b]"
    by (intro nth_equalityI) simp_all
  then show ?thesis
    by (simp add: ring_contents_def n upt_add_eq_append[of 0 ?a ?b, simplified])
qed

lemma unat_diff_pred: "e \<noteq> r \<Longrightarrow> unat ((e - 1) - r) = unat (e - r) - 1" for e r :: "32 word"
proof -
  assume "e \<noteq> r"
  then have "1 \<le> e - r" by (simp add: word_le_nat_alt unat_gt_0 Suc_le_eq)
  then have "unat ((e - r) - 1) = unat (e - r) - 1" by (simp add: unat_sub)
  moreover have "(e - 1) - r = (e - r) - 1" by simp
  ultimately show ?thesis by (simp only:)
qed

lemma ring_contents_pred: "e \<noteq> r \<Longrightarrow> ring_contents buf r (e - 1) = butlast (ring_contents buf r e)"
proof -
  assume "e \<noteq> r"
  then have "0 < unat (e - r)" by (simp add: unat_gt_0)
  then obtain n where n: "unat (e - r) = Suc n" by (cases "unat (e - r)") auto
  then show ?thesis
    using unat_diff_pred[OF \<open>e \<noteq> r\<close>] by (simp only: ring_contents_def) simp
qed

lemma ring_contents_last: "e \<noteq> r \<Longrightarrow> last (ring_contents buf r e) = ring_get buf (e - 1)"
proof -
  assume "e \<noteq> r"
  then have n: "0 < unat (e - r)" by (simp add: unat_gt_0)
  then have "(of_nat (unat (e - r) - 1) :: 32 word) = e - r - 1" by (simp add: of_nat_diff)
  with n show ?thesis by (simp add: ring_contents_def last_map)
qed

end
