(* ===== verification/Pipe.thy ===== *)
theory Pipe
  imports Ring Fifo
begin

text \<open>
  Pipes (src/src/pipe.c). Each routine holds the pipe's lock from its start to its end or to the
  place where it sleeps, so a routine is a function that runs up to there; its result says whether
  it returned or sleeps with work left, and which wakeup it made. The two ends of a pipe in two
  processes are then a step relation.
\<close>

definition PIPESIZE :: nat where "PIPESIZE = 512"

record pipe =
  pdata :: "byte list"
  nread :: "32 word"
  nwrite :: "32 word"
  readopen :: bool
  writeopen :: bool

text \<open>The fields that \<^verbatim>\<open>pipealloc\<close> sets; the data of the new page is arbitrary.\<close>

definition new_pipe :: "byte list \<Rightarrow> pipe" where
  "new_pipe page = \<lparr>pdata = page, nread = 0, nwrite = 0, readopen = True, writeopen = True\<rparr>"

definition pipe_full :: "pipe \<Rightarrow> bool" where
  "pipe_full p \<longleftrightarrow> nwrite p = nread p + of_nat PIPESIZE"

definition pipe_put :: "byte \<Rightarrow> pipe \<Rightarrow> pipe" where
  "pipe_put b p = p\<lparr>pdata := (pdata p)[unat (nwrite p) mod PIPESIZE := b], nwrite := nwrite p + 1\<rparr>"

definition pipe_get :: "pipe \<Rightarrow> byte \<times> pipe" where
  "pipe_get p = (pdata p ! (unat (nread p) mod PIPESIZE), p\<lparr>nread := nread p + 1\<rparr>)"

datatype write_result = W_ret int | W_sleep "byte list"

text \<open>
  \<open>pipewrite_loop killed n bs p\<close>: the loop with the bytes \<open>bs\<close> still to write. The last component
  says whether \<^verbatim>\<open>wakeup(&p->nread)\<close> was called. A process that is woken repeats the test of the
  inner loop, which is the same function on the bytes left.
\<close>

fun pipewrite_loop :: "bool \<Rightarrow> int \<Rightarrow> byte list \<Rightarrow> pipe \<Rightarrow> pipe \<times> write_result \<times> bool" where
  "pipewrite_loop killed n [] p = (p, W_ret n, True)"
| "pipewrite_loop killed n (b # bs) p =
     (if pipe_full p then
        (if \<not> readopen p \<or> killed then (p, W_ret (- 1), False) else (p, W_sleep (b # bs), True))
      else pipewrite_loop killed n bs (pipe_put b p))"

definition pipewrite :: "bool \<Rightarrow> byte list \<Rightarrow> pipe \<Rightarrow> pipe \<times> write_result \<times> bool" where
  "pipewrite killed addr p = pipewrite_loop killed (int (length addr)) addr p"

datatype read_result = R_ret int "byte list" | R_sleep

fun piperead_copy :: "nat \<Rightarrow> pipe \<Rightarrow> byte list \<times> pipe" where
  "piperead_copy 0 p = ([], p)"
| "piperead_copy (Suc n) p =
     (if nread p = nwrite p then ([], p)
      else let (b, p) = pipe_get p; (bs, p) = piperead_copy n p in (b # bs, p))"

text \<open>The last component says whether \<^verbatim>\<open>wakeup(&p->nwrite)\<close> was called.\<close>

definition piperead :: "bool \<Rightarrow> nat \<Rightarrow> pipe \<Rightarrow> pipe \<times> read_result \<times> bool" where
  "piperead killed n p =
     (if nread p = nwrite p \<and> writeopen p then
        (if killed then (p, R_ret (- 1) [], False) else (p, R_sleep, False))
      else let (bs, p) = piperead_copy n p in (p, R_ret (int (length bs)) bs, True))"

text \<open>The flags: whether the page is freed, whether a reader is woken, whether a writer is woken.\<close>

definition pipeclose :: "bool \<Rightarrow> pipe \<Rightarrow> pipe \<times> bool \<times> bool \<times> bool" where
  "pipeclose writable p =
     (let p = (if writable then p\<lparr>writeopen := False\<rparr> else p\<lparr>readopen := False\<rparr>)
      in (p, \<not> readopen p \<and> \<not> writeopen p, writable, \<not> writable))"

section \<open>The buffer is a queue\<close>

definition pipe_ok :: "pipe \<Rightarrow> bool" where
  "pipe_ok p \<longleftrightarrow> length (pdata p) = PIPESIZE \<and> unat (nwrite p - nread p) \<le> PIPESIZE"

definition pipe_contents :: "pipe \<Rightarrow> byte list" where
  "pipe_contents p = ring_contents (pdata p) (nread p) (nwrite p)"

lemma pipe_ring: "pipe_ok p \<Longrightarrow> ring_size (pdata p)"
  by (simp add: pipe_ok_def ring_size_def PIPESIZE_def)

lemma pipe_full_iff: "pipe_ok p \<Longrightarrow> pipe_full p \<longleftrightarrow> length (pipe_contents p) = PIPESIZE"
proof -
  have "pipe_full p \<longleftrightarrow> nwrite p - nread p = of_nat PIPESIZE" by (auto simp: pipe_full_def algebra_simps)
  also have "\<dots> \<longleftrightarrow> unat (nwrite p - nread p) = PIPESIZE"
    by (auto simp: word_unat_eq_iff unat_of_nat PIPESIZE_def)
  finally show ?thesis by (simp add: pipe_contents_def)
qed

lemma pipe_empty_iff: "nread p = nwrite p \<longleftrightarrow> pipe_contents p = []"
proof -
  have "pipe_contents p = [] \<longleftrightarrow> unat (nwrite p - nread p) = 0"
    by (metis length_0_conv length_ring_contents pipe_contents_def)
  then show ?thesis by (auto simp: unat_eq_zero)
qed

lemma pipe_not_full_less: "pipe_ok p \<Longrightarrow> \<not> pipe_full p \<longleftrightarrow> length (pipe_contents p) < PIPESIZE"
  using pipe_full_iff[of p] by (auto simp: pipe_ok_def pipe_contents_def)

lemma pipe_put_contents:
  assumes "pipe_ok p" "length (pipe_contents p) < PIPESIZE"
  shows "pipe_ok (pipe_put b p)" "pipe_contents (pipe_put b p) = pipe_contents p @ [b]"
proof -
  have lt: "unat (nwrite p - nread p) < PIPESIZE" using assms(2) by (simp add: pipe_contents_def)
  then have s: "unat (nwrite p - nread p) < 2 ^ 32 - 1" by (simp add: PIPESIZE_def)
  have put: "pdata (pipe_put b p) = ring_put (pdata p) (nwrite p) b"
    using assms(1) by (simp add: pipe_put_def ring_put_def pipe_ok_def)
  show "pipe_ok (pipe_put b p)"
    using assms(1) lt unat_Suc_diff[OF s] by (simp add: pipe_ok_def pipe_put_def)
  show "pipe_contents (pipe_put b p) = pipe_contents p @ [b]"
    using ring_contents_put[OF pipe_ring[OF assms(1)] _ s] assms(1) lt put
    by (simp add: pipe_contents_def pipe_put_def pipe_ok_def)
qed

lemma pipe_get_contents:
  assumes "pipe_ok p" "pipe_contents p = a # as"
  shows "pipe_ok (snd (pipe_get p))" "fst (pipe_get p) = a" "pipe_contents (snd (pipe_get p)) = as"
proof -
  have ne: "nread p \<noteq> nwrite p" using assms(2) pipe_empty_iff by auto
  then have c: "a # as = ring_get (pdata p) (nread p) # ring_contents (pdata p) (nread p + 1) (nwrite p)"
    using ring_contents_get[of "nread p" "nwrite p" "pdata p"] assms(2) by (simp add: pipe_contents_def)
  have "length as = unat (nwrite p - (nread p + 1))" using c by (metis length_ring_contents list.sel(3))
  moreover have "Suc (length as) \<le> PIPESIZE"
    using assms by (metis length_Cons length_ring_contents pipe_contents_def pipe_ok_def)
  ultimately show "pipe_ok (snd (pipe_get p))" using assms(1) by (simp add: pipe_ok_def pipe_get_def)
  show "fst (pipe_get p) = a" using c assms(1) by (simp add: pipe_get_def ring_get_def pipe_ok_def)
  show "pipe_contents (snd (pipe_get p)) = as" using c by (simp add: pipe_get_def pipe_contents_def)
qed

interpretation pipe_q: bounded_fifo pipe_ok PIPESIZE pipe_contents pipe_put pipe_get
  using pipe_put_contents pipe_get_contents by unfold_locales auto

lemma pipewrite_loop_cases:
  assumes "pipewrite_loop killed n bs p = (p', res, woke)" "pipe_ok p"
  shows "\<exists>acc rest. bs = acc @ rest \<and> pipe_ok p' \<and> pipe_contents p' = pipe_contents p @ acc \<and>
    readopen p' = readopen p \<and> writeopen p' = writeopen p \<and>
    (res = W_ret n \<and> rest = [] \<and> woke \<or> res = W_sleep rest \<and> rest \<noteq> [] \<and> pipe_full p' \<and> readopen p' \<and> woke \<or>
     res = W_ret (- 1) \<and> (readopen p' \<longrightarrow> killed))"
  using assms
proof (induction bs arbitrary: p)
  case (Cons b bs)
  show ?case
  proof (cases "pipe_full p")
    case True
    with Cons.prems show ?thesis by - (rule exI[of _ "[]"], rule exI[of _ "b # bs"], auto split: if_splits)
  next
    case False
    then have lt: "length (pipe_contents p) < PIPESIZE" using Cons.prems(2) pipe_not_full_less by blast
    note put = pipe_put_contents[OF Cons.prems(2) lt, of b]
    from False Cons.prems(1) have "pipewrite_loop killed n bs (pipe_put b p) = (p', res, woke)" by simp
    from Cons.IH[OF this put(1)] obtain acc rest where IH: "bs = acc @ rest" "pipe_ok p'"
      "pipe_contents p' = pipe_contents (pipe_put b p) @ acc" "readopen p' = readopen (pipe_put b p)"
      "writeopen p' = writeopen (pipe_put b p)"
      "res = W_ret n \<and> rest = [] \<and> woke \<or> res = W_sleep rest \<and> rest \<noteq> [] \<and> pipe_full p' \<and> readopen p' \<and> woke \<or>
       res = W_ret (- 1) \<and> (readopen p' \<longrightarrow> killed)"
      by blast
    moreover have "readopen (pipe_put b p) = readopen p" "writeopen (pipe_put b p) = writeopen p"
      by (simp_all add: pipe_put_def)
    ultimately show ?thesis
      by - (rule exI[of _ "b # acc"], rule exI[of _ rest], simp add: put)
  qed
qed simp

lemma piperead_copy_contents:
  assumes "pipe_ok p" "piperead_copy n p = (bs, p')"
  shows "bs = take n (pipe_contents p) \<and> pipe_contents p' = drop n (pipe_contents p) \<and> pipe_ok p' \<and>
    readopen p' = readopen p \<and> writeopen p' = writeopen p"
  using assms
proof (induction n arbitrary: p bs)
  case (Suc n)
  show ?case
  proof (cases "pipe_contents p")
    case Nil
    with Suc.prems show ?thesis using pipe_empty_iff by auto
  next
    case (Cons a as)
    note g = pipe_get_contents[OF Suc.prems(1) this]
    obtain q where q: "pipe_get p = (a, q)" using g(2) by (cases "pipe_get p") simp
    obtain cs where cs: "piperead_copy n q = (cs, p')" "bs = a # cs"
      using Suc.prems(2) Cons q pipe_empty_iff by (auto split: prod.splits)
    have "cs = take n (pipe_contents q) \<and> pipe_contents p' = drop n (pipe_contents q) \<and> pipe_ok p' \<and>
      readopen p' = readopen q \<and> writeopen p' = writeopen q"
      using Suc.IH[of q cs] cs(1) g(1) q by simp
    moreover have "readopen q = readopen p" "writeopen q = writeopen p" using q by (auto simp: pipe_get_def)
    ultimately show ?thesis using g(3) q cs(2) Cons by simp
  qed
qed simp

section \<open>A writer and a reader\<close>

text \<open>
  The state of a pipe with one process at each end: what is left of the writer's call, which of
  them sleeps, and all bytes passed to \<^verbatim>\<open>pipewrite\<close> and returned by \<^verbatim>\<open>piperead\<close>. No process
  is killed.
\<close>

record pipe_sys =
  the_pipe :: pipe
  todo :: "byte list"
  w_asleep :: bool
  r_asleep :: bool
  sent :: "byte list"
  got :: "byte list"

definition after_write :: "pipe \<times> write_result \<times> bool \<Rightarrow> pipe_sys \<Rightarrow> pipe_sys" where
  "after_write out s = (let (p, res, woke) = out in
     s\<lparr>the_pipe := p, todo := (case res of W_sleep bs \<Rightarrow> bs | W_ret _ \<Rightarrow> []),
       w_asleep := (case res of W_sleep _ \<Rightarrow> True | W_ret _ \<Rightarrow> False), r_asleep := (r_asleep s \<and> \<not> woke)\<rparr>)"

definition after_read :: "pipe \<times> read_result \<times> bool \<Rightarrow> pipe_sys \<Rightarrow> pipe_sys" where
  "after_read out s = (let (p, res, woke) = out in
     s\<lparr>the_pipe := p, r_asleep := (res = R_sleep), got := got s @ (case res of R_ret _ bs \<Rightarrow> bs | R_sleep \<Rightarrow> []),
       w_asleep := (w_asleep s \<and> \<not> woke)\<rparr>)"

definition after_close :: "pipe \<times> bool \<times> bool \<times> bool \<Rightarrow> pipe_sys \<Rightarrow> pipe_sys" where
  "after_close out s = (let (p, freed, to_r, to_w) = out in
     s\<lparr>the_pipe := p, r_asleep := (r_asleep s \<and> \<not> to_r), w_asleep := (w_asleep s \<and> \<not> to_w)\<rparr>)"

inductive pipe_step :: "pipe_sys \<Rightarrow> pipe_sys \<Rightarrow> bool" where
  write_call: "\<not> w_asleep s \<Longrightarrow> todo s = [] \<Longrightarrow> writeopen (the_pipe s) \<Longrightarrow>
    pipe_step s (after_write (pipewrite False bs (the_pipe s)) (s\<lparr>sent := sent s @ bs\<rparr>))"
| resume: "\<not> w_asleep s \<Longrightarrow> todo s \<noteq> [] \<Longrightarrow> pipe_step s (after_write (pipewrite_loop False n (todo s) (the_pipe s)) s)"
| read_call: "\<not> r_asleep s \<Longrightarrow> readopen (the_pipe s) \<Longrightarrow> pipe_step s (after_read (piperead False n (the_pipe s)) s)"
| close_write: "\<not> w_asleep s \<Longrightarrow> todo s = [] \<Longrightarrow> writeopen (the_pipe s) \<Longrightarrow>
    pipe_step s (after_close (pipeclose True (the_pipe s)) s)"
| close_read: "\<not> r_asleep s \<Longrightarrow> readopen (the_pipe s) \<Longrightarrow> pipe_step s (after_close (pipeclose False (the_pipe s)) s)"

definition pipe_start :: "byte list \<Rightarrow> pipe_sys" where
  "pipe_start page = \<lparr>the_pipe = new_pipe page, todo = [], w_asleep = False, r_asleep = False, sent = [], got = []\<rparr>"

inductive pipe_reach :: "pipe_sys \<Rightarrow> bool" where
  start: "length page = PIPESIZE \<Longrightarrow> pipe_reach (pipe_start page)"
| step: "pipe_reach s \<Longrightarrow> pipe_step s t \<Longrightarrow> pipe_reach t"

definition pipe_inv :: "pipe_sys \<Rightarrow> bool" where
  "pipe_inv s \<longleftrightarrow> pipe_ok (the_pipe s) \<and>
     (readopen (the_pipe s) \<longrightarrow> sent s = got s @ pipe_contents (the_pipe s) @ todo s) \<and>
     (w_asleep s \<longrightarrow> pipe_full (the_pipe s) \<and> readopen (the_pipe s)) \<and>
     (r_asleep s \<longrightarrow> pipe_contents (the_pipe s) = [] \<and> writeopen (the_pipe s) \<and> readopen (the_pipe s))"

lemma after_write_inv:
  assumes inv: "pipe_inv s" and out: "pipewrite_loop False n bs (the_pipe s) = out"
    and sent: "readopen (the_pipe s) \<Longrightarrow> snt = got s @ pipe_contents (the_pipe s) @ bs" and ws: "\<not> w_asleep s"
  shows "pipe_inv (after_write out (s\<lparr>sent := snt\<rparr>))"
proof -
  obtain p' res woke where o: "out = (p', res, woke)" by (cases out)
  have ok: "pipe_ok (the_pipe s)" using inv by (simp add: pipe_inv_def)
  from pipewrite_loop_cases[OF out[unfolded o] ok] obtain acc rest where c: "bs = acc @ rest" "pipe_ok p'"
    "pipe_contents p' = pipe_contents (the_pipe s) @ acc" "readopen p' = readopen (the_pipe s)"
    "writeopen p' = writeopen (the_pipe s)"
    "res = W_ret n \<and> rest = [] \<and> woke \<or> res = W_sleep rest \<and> rest \<noteq> [] \<and> pipe_full p' \<and> readopen p' \<and> woke \<or>
     res = W_ret (- 1) \<and> (readopen p' \<longrightarrow> False)"
    by blast
  from c(6) show ?thesis using c(1-5) inv sent by (auto simp: o after_write_def pipe_inv_def)
qed

lemma after_read_inv:
  assumes inv: "pipe_inv s" and r: "readopen (the_pipe s)"
  shows "pipe_inv (after_read (piperead False n (the_pipe s)) s)"
proof (cases "nread (the_pipe s) = nwrite (the_pipe s) \<and> writeopen (the_pipe s)")
  case True
  then have out: "piperead False n (the_pipe s) = (the_pipe s, R_sleep, False)" by (simp add: piperead_def)
  from True have "pipe_contents (the_pipe s) = []" using pipe_empty_iff by blast
  then show ?thesis unfolding out using inv True r by (simp add: pipe_inv_def after_read_def)
next
  case False
  obtain bs p' where c: "piperead_copy n (the_pipe s) = (bs, p')" by (cases "piperead_copy n (the_pipe s)")
  have ok: "pipe_ok (the_pipe s)" using inv by (simp add: pipe_inv_def)
  have out: "piperead False n (the_pipe s) = (p', R_ret (int (length bs)) bs, True)"
    unfolding piperead_def if_not_P[OF False] c by simp
  show ?thesis unfolding out using piperead_copy_contents[OF ok c] inv by (auto simp: pipe_inv_def after_read_def)
qed

lemma pipe_step_inv:
  assumes "pipe_step s t" "pipe_inv s"
  shows "pipe_inv t"
  using assms
proof cases
  case (write_call bs)
  then show ?thesis
    using after_write_inv[OF assms(2), of "int (length bs)" bs _ "sent s @ bs"] assms(2)
    by (simp add: pipewrite_def pipe_inv_def)
next
  case (resume n)
  then show ?thesis
    using after_write_inv[OF assms(2), of n "todo s" _ "sent s"] assms(2) by (simp add: pipe_inv_def)
next
  case (read_call n)
  then show ?thesis using after_read_inv[OF assms(2)] by simp
qed (use assms(2) in \<open>auto simp: pipeclose_def after_close_def pipe_inv_def pipe_ok_def pipe_contents_def pipe_full_def Let_def\<close>)

lemma pipe_reach_inv: "pipe_reach s \<Longrightarrow> pipe_inv s"
proof (induction rule: pipe_reach.induct)
  case (start page)
  then show ?case by (simp add: pipe_start_def new_pipe_def pipe_inv_def pipe_ok_def pipe_contents_def)
next
  case (step s t)
  then show ?case using pipe_step_inv by blast
qed

text \<open>
  C20: however the writer and the reader interleave, and although the counters wrap around, no byte
  of a pipe is lost, repeated or reordered: what was sent is what the reader got, then what is in
  the buffer, then what the writer still holds.
\<close>

theorem pipe_stream:
  assumes "pipe_reach s" "readopen (the_pipe s)"
  shows "sent s = got s @ pipe_contents (the_pipe s) @ todo s"
  using pipe_reach_inv[OF assms(1)] assms(2) by (simp add: pipe_inv_def)

text \<open>An example run: one write to a fresh pipe.\<close>

definition one_write :: "byte list \<Rightarrow> pipe_sys" where
  "one_write bs = after_write (pipewrite False bs (new_pipe (replicate 512 0))) (pipe_start (replicate 512 0)\<lparr>sent := bs\<rparr>)"

lemma one_write_reach: "pipe_reach (one_write bs)"
proof -
  let ?s = "pipe_start (replicate 512 0)"
  have "pipe_reach ?s" by (rule pipe_reach.start) (simp add: PIPESIZE_def)
  moreover have "pipe_step ?s (after_write (pipewrite False bs (the_pipe ?s)) (?s\<lparr>sent := sent ?s @ bs\<rparr>))"
    by (rule pipe_step.write_call) (simp_all add: pipe_start_def new_pipe_def)
  ultimately have "pipe_reach (after_write (pipewrite False bs (the_pipe ?s)) (?s\<lparr>sent := sent ?s @ bs\<rparr>))"
    by (rule pipe_reach.step)
  then show ?thesis by (simp add: one_write_def pipe_start_def)
qed

lemma one_write_sleeps:
  assumes "PIPESIZE < length bs"
  shows "w_asleep (one_write bs)"
proof -
  let ?p = "new_pipe (replicate 512 0)"
  have ok: "pipe_ok ?p" "pipe_contents ?p = []" "readopen ?p"
    by (simp_all add: pipe_ok_def new_pipe_def pipe_contents_def PIPESIZE_def)
  obtain p' res woke where out: "pipewrite_loop False (int (length bs)) bs ?p = (p', res, woke)"
    by (cases "pipewrite_loop False (int (length bs)) bs ?p")
  from pipewrite_loop_cases[OF out ok(1)] obtain acc rest where c: "bs = acc @ rest" "pipe_ok p'" "pipe_contents p' = acc"
    "res = W_ret (int (length bs)) \<and> rest = [] \<or> res = W_sleep rest"
    using ok by auto
  have "length acc \<le> PIPESIZE" using c(2,3) by (metis length_ring_contents pipe_contents_def pipe_ok_def)
  with c assms have "res = W_sleep rest" by auto
  with out show ?thesis by (simp add: one_write_def after_write_def pipewrite_def)
qed

theorem pipe_stream_witness:
  "sent (one_write [1, 2, 3]) = got (one_write [1, 2, 3]) @ pipe_contents (the_pipe (one_write [1, 2, 3])) @ todo (one_write [1, 2, 3])"
proof -
  have "readopen (the_pipe (one_write [1, 2, 3]))" by code_simp
  from pipe_stream[OF one_write_reach this] show ?thesis .
qed

text \<open>
  C21: the two ends never sleep at the same time, and a sleeping end is always released by the
  other one: a read of at least one byte returns data and wakes a sleeping writer, and a write of
  at least one byte wakes a sleeping reader.
\<close>

theorem pipe_no_deadlock:
  assumes "pipe_reach s"
  shows "\<not> (w_asleep s \<and> r_asleep s) \<and>
    (w_asleep s \<longrightarrow> 0 < n \<longrightarrow> (\<exists>p b bs. piperead False n (the_pipe s) = (p, R_ret (int (length (b # bs))) (b # bs), True))) \<and>
    (r_asleep s \<longrightarrow> (\<exists>p res. pipewrite False cs (the_pipe s) = (p, res, True)))"
proof -
  have inv: "pipe_inv s" using assms by (rule pipe_reach_inv)
  then have ok: "pipe_ok (the_pipe s)" by (simp add: pipe_inv_def)
  have full: "pipe_full (the_pipe s) \<Longrightarrow> pipe_contents (the_pipe s) \<noteq> []"
    using pipe_full_iff[OF ok] by (auto simp: PIPESIZE_def)
  have 1: "\<not> (w_asleep s \<and> r_asleep s)" using inv full by (auto simp: pipe_inv_def)
  have 2: "\<exists>p b bs. piperead False n (the_pipe s) = (p, R_ret (int (length (b # bs))) (b # bs), True)"
    if "w_asleep s" "0 < n"
  proof -
    obtain bs p' where c: "piperead_copy n (the_pipe s) = (bs, p')" by (cases "piperead_copy n (the_pipe s)")
    have ne: "pipe_contents (the_pipe s) \<noteq> []" using inv full that(1) by (simp add: pipe_inv_def)
    then have "bs \<noteq> []" using piperead_copy_contents[OF ok c] that(2) by simp
    then obtain b cs where "bs = b # cs" by (cases bs) auto
    with c ne show ?thesis by (auto simp: piperead_def pipe_empty_iff)
  qed
  have 3: "\<exists>p res. pipewrite False cs (the_pipe s) = (p, res, True)" if "r_asleep s"
  proof -
    obtain p' res woke where out: "pipewrite_loop False (int (length cs)) cs (the_pipe s) = (p', res, woke)"
      by (cases "pipewrite_loop False (int (length cs)) cs (the_pipe s)")
    moreover have "readopen (the_pipe s)" using inv that by (simp add: pipe_inv_def)
    ultimately have woke using pipewrite_loop_cases[OF out ok] by auto
    with out show ?thesis by (simp add: pipewrite_def)
  qed
  from 1 2 3 show ?thesis by blast
qed

theorem pipe_no_deadlock_witness:
  "w_asleep (one_write (replicate 513 1)) \<and>
   (\<exists>p b bs. piperead False 2 (the_pipe (one_write (replicate 513 1))) = (p, R_ret (int (length (b # bs))) (b # bs), True))"
proof -
  have "w_asleep (one_write (replicate 513 1))" by (rule one_write_sleeps) (simp add: PIPESIZE_def)
  then show ?thesis using pipe_no_deadlock[OF one_write_reach[of "replicate 513 1"], of 2] by simp
qed

end
