(* ===== verification/Printf.thy ===== *)
theory Printf
  imports CString Textframe
begin

text \<open>
  Formatted output of user programs (src/src/printf.c). Output is the sequence of bytes written
  per file descriptor; when the editor runs a command, standard output and error also go to the
  text frame \<^verbatim>\<open>command_textframe\<close>.
\<close>

record out_state =
  written :: "(int \<times> byte) list"
  command_textframe :: "textframe option"

definition putc :: "int \<Rightarrow> byte \<Rightarrow> out_state \<Rightarrow> out_state option" where
  "putc fd c s =
     (let s = s\<lparr>written := written s @ [(fd, c)]\<rparr>
      in case command_textframe s of
           Some t \<Rightarrow>
             if fd = 1 \<or> fd = 2 then do {
               t \<leftarrow> (if c = 10 then do { t \<leftarrow> new_line_to_editor t; move_to_next_line t }
                    else do { t \<leftarrow> putc_to_str t c; move_to_next_char t });
               Some (s\<lparr>command_textframe := Some t\<rparr>)
             } else Some s
         | None \<Rightarrow> Some s)"

fun puts :: "int \<Rightarrow> cstring \<Rightarrow> out_state \<Rightarrow> out_state option" where
  "puts fd [] s = Some s"
| "puts fd (c # cs) s = do { s \<leftarrow> putc fd c s; puts fd cs s }"

section \<open>Numbers\<close>

text \<open>
  The conversion loop shared by the user's and the kernel's \<^verbatim>\<open>printint\<close>: digits go to a buffer of
  16 bytes, the least significant first. None is a write outside of the buffer or a division by 0.
\<close>

function printint_loop :: "byte list \<Rightarrow> byte list \<Rightarrow> nat \<Rightarrow> nat \<Rightarrow> nat \<Rightarrow> (byte list \<times> nat) option" where
  "printint_loop digits buf i x base =
     (if base = 0 then None
      else case rd digits (int (x mod base)) of None \<Rightarrow> None
      | Some d \<Rightarrow> (case wr buf (int i) d of None \<Rightarrow> None
          | Some buf' \<Rightarrow> if x div base \<noteq> 0 then printint_loop digits buf' (i + 1) (x div base) base else Some (buf', i + 1)))"
  by pat_completeness auto
termination
  by (relation "measure (\<lambda>(digits, buf, i, x, base). length buf - i)") (auto simp: wr_def split: if_splits)

declare printint_loop.simps [simp del]

text \<open>The bytes printed: the buffer backwards, after a minus sign was put at its end.\<close>

definition int_text :: "byte list \<Rightarrow> 32 word \<Rightarrow> nat \<Rightarrow> bool \<Rightarrow> cstring option" where
  "int_text digits xx base sg =
     (let neg = (sg \<and> sint xx < 0); x = (if neg then - xx else xx)
      in do {
        (buf, i) \<leftarrow> printint_loop digits (replicate 16 0) 0 (unat x) base;
        (buf, i) \<leftarrow> (if neg then do { buf \<leftarrow> wr buf (int i) 45; Some (buf, i + 1) } else Some (buf, i));
        Some (rev (take i buf))
      })"

definition upper_digits :: "byte list" where
  "upper_digits = lit ''0123456789ABCDEF''"

definition printint :: "int \<Rightarrow> 32 word \<Rightarrow> nat \<Rightarrow> bool \<Rightarrow> out_state \<Rightarrow> out_state option" where
  "printint fd xx base sg s = do { text \<leftarrow> int_text upper_digits xx base sg; puts fd text s }"

section \<open>Formats\<close>

text \<open>An argument is a number or a string pointer; a format that asks for the other kind is None.\<close>

datatype arg = Num "32 word" | Str "cstring option"

fun num_arg :: "arg list \<Rightarrow> (32 word \<times> arg list) option" where
  "num_arg (Num w # as) = Some (w, as)"
| "num_arg _ = None"

fun str_arg :: "arg list \<Rightarrow> (cstring \<times> arg list) option" where
  "str_arg (Str s # as) = Some (case s of Some s \<Rightarrow> s | None \<Rightarrow> lit ''(null)'', as)"
| "str_arg _ = None"

definition printf_directive :: "int \<Rightarrow> byte \<Rightarrow> arg list \<Rightarrow> out_state \<Rightarrow> (arg list \<times> out_state) option" where
  "printf_directive fd c as s =
     (if c = of_char CHR ''d'' then do { (w, as) \<leftarrow> num_arg as; s \<leftarrow> printint fd w 10 True s; Some (as, s) }
      else if c = of_char CHR ''x'' \<or> c = of_char CHR ''p'' then do { (w, as) \<leftarrow> num_arg as; s \<leftarrow> printint fd w 16 False s; Some (as, s) }
      else if c = of_char CHR ''s'' then do { (t, as) \<leftarrow> str_arg as; s \<leftarrow> puts fd t s; Some (as, s) }
      else if c = of_char CHR ''c'' then do { (w, as) \<leftarrow> num_arg as; s \<leftarrow> putc fd (ucast w) s; Some (as, s) }
      else if c = 37 then do { s \<leftarrow> putc fd c s; Some (as, s) }
      else do { s \<leftarrow> putc fd 37 s; s \<leftarrow> putc fd c s; Some (as, s) })"

fun printf_loop :: "int \<Rightarrow> bool \<Rightarrow> cstring \<Rightarrow> arg list \<Rightarrow> out_state \<Rightarrow> out_state option" where
  "printf_loop fd percent [] as s = Some s"
| "printf_loop fd False (c # fmt) as s =
     (if c = 37 then printf_loop fd True fmt as s
      else do { s \<leftarrow> putc fd c s; printf_loop fd False fmt as s })"
| "printf_loop fd True (c # fmt) as s = do { (as, s) \<leftarrow> printf_directive fd c as s; printf_loop fd False fmt as s }"

definition printf :: "int \<Rightarrow> cstring \<Rightarrow> arg list \<Rightarrow> out_state \<Rightarrow> out_state option" where
  "printf fd fmt as s = printf_loop fd False fmt as s"

section \<open>Printed numbers\<close>

text \<open>The digits of a number, the most significant first.\<close>

function numerals :: "nat \<Rightarrow> nat \<Rightarrow> nat list" where
  "numerals base x = (if base \<le> 1 \<or> x < base then [x] else numerals base (x div base) @ [x mod base])"
  by pat_completeness auto
termination by (relation "measure snd") auto

declare numerals.simps [simp del]

lemma numerals_length: "1 < base \<Longrightarrow> x < base ^ Suc k \<Longrightarrow> length (numerals base x) \<le> Suc k"
proof (induction k arbitrary: x)
  case (Suc k)
  then have "x div base < base ^ Suc k" by (simp add: div_less_iff_less_mult mult.commute)
  with Suc show ?case by (subst numerals.simps) auto
qed (simp add: numerals.simps)

lemma numerals_less: "1 < base \<Longrightarrow> list_all (\<lambda>d. d < base) (numerals base x)"
proof (induction base x rule: numerals.induct)
  case (1 base x)
  then show ?case by (subst numerals.simps) auto
qed

lemma numerals_value: "1 < base \<Longrightarrow> foldl (\<lambda>n d. n * base + d) 0 (numerals base x) = x"
proof (induction base x rule: numerals.induct)
  case (1 base x)
  then show ?case by (subst numerals.simps) auto
qed

lemma printint_loop_numerals:
  assumes "1 < base" "base \<le> length digits"
  shows "i + length (numerals base x) \<le> length buf \<Longrightarrow>
    \<exists>buf'. printint_loop digits buf i x base = Some (buf', i + length (numerals base x)) \<and> length buf' = length buf \<and>
      rev (take (i + length (numerals base x)) buf') = map ((!) digits) (numerals base x) @ rev (take i buf)"
proof (induction x arbitrary: i buf rule: less_induct)
  case (less x)
  note b = assms
  let ?d = "digits ! (x mod base)" and ?buf = "buf[i := digits ! (x mod base)]"
  have d: "rd digits (int (x mod base)) = Some ?d"
    using b by (intro rd_nat) (meson mod_less_divisor less_le_trans zero_less_one less_trans)
  have "0 < length (numerals base x)" by (subst numerals.simps) simp
  then have i: "i < length buf" using less.prems by linarith
  have step: "printint_loop digits buf i x base =
      (if x div base \<noteq> 0 then printint_loop digits ?buf (i + 1) (x div base) base else Some (?buf, i + 1))"
    using b d i by (subst printint_loop.simps) simp
  show ?case
  proof (cases "x < base")
    case True
    then show ?thesis using step i b by (subst (1 2 3) numerals.simps) (simp add: take_Suc_conv_app_nth)
  next
    case False
    then have n: "numerals base x = numerals base (x div base) @ [x mod base]"
      using b by (subst numerals.simps) simp
    have n2: "x div base \<noteq> 0" using b False by (simp add: div_eq_0_iff)
    have "\<exists>buf'. printint_loop digits ?buf (i + 1) (x div base) base = Some (buf', i + 1 + length (numerals base (x div base))) \<and>
        length buf' = length ?buf \<and> rev (take (i + 1 + length (numerals base (x div base))) buf') =
        map ((!) digits) (numerals base (x div base)) @ rev (take (i + 1) ?buf)"
      using False b less.prems n by (intro less.IH) auto
    then show ?thesis using step n n2 i by (auto simp: take_Suc_conv_app_nth)
  qed
qed

lemma buffer_enough:
  assumes "base = 10 \<or> base = 16" "x < 2 ^ 32"
  shows "length (numerals base x) \<le> 10"
  using assms numerals_length[of 10 x 9] numerals_length[of 16 x 7] by auto

lemma upper_digits_length [simp]: "length upper_digits = 16"
  by code_simp

lemma unat_word32_less: "unat (w :: 32 word) < 2 ^ 32"
  using unsigned_less[of w] by (simp only: len_bit0 len_num1 mult_1_right) simp

lemma int_text_numerals:
  fixes xx :: "32 word" and sg :: bool
  assumes "base = 10 \<or> base = 16" "length digits = 16"
  defines "neg \<equiv> sg \<and> sint xx < 0"
  defines "ds \<equiv> map ((!) digits) (numerals base (unat (if neg then - xx else xx)))"
  shows "int_text digits xx base sg = Some (if neg then 45 # ds else ds)"
proof -
  let ?x = "unat (if neg then - xx else xx)"
  have len: "length (numerals base ?x) \<le> 10" using buffer_enough[OF assms(1) unat_word32_less] .
  have "1 < base" "base \<le> length digits" using assms(1,2) by auto
  from printint_loop_numerals[OF this, of 0 ?x "replicate 16 0"] len obtain buf where
    buf: "printint_loop digits (replicate 16 0) 0 ?x base = Some (buf, length (numerals base ?x))"
      "length buf = 16" "rev (take (length (numerals base ?x)) buf) = ds"
    by (auto simp: ds_def)
  show ?thesis
  proof (cases neg)
    case True
    with buf len show ?thesis
      unfolding int_text_def Let_def neg_def[symmetric] by (simp add: take_Suc_conv_app_nth)
  next
    case False
    with buf show ?thesis unfolding int_text_def Let_def neg_def[symmetric] by simp
  qed
qed

lemma atoi_loop_numerals:
  "list_all (\<lambda>d. d < 10) ds \<Longrightarrow>
   atoi_loop (of_nat n) (map ((!) upper_digits) ds) = of_nat (foldl (\<lambda>n d. n * 10 + d) n ds)"
proof (induction ds arbitrary: n)
  case (Cons d ds)
  have "list_all (\<lambda>d. 48 \<le> upper_digits ! d \<and> upper_digits ! d \<le> 57 \<and> ucast (upper_digits ! d) = (of_nat d + 48 :: 32 word)) [0..<10]"
    by code_simp
  then have "48 \<le> upper_digits ! d" "upper_digits ! d \<le> 57" "ucast (upper_digits ! d) = (of_nat d + 48 :: 32 word)"
    using Cons.prems by (auto simp: list_all_iff)
  with Cons.IH[of "n * 10 + d"] Cons.prems show ?case by (simp add: algebra_simps)
qed simp

text \<open>
  C27: Printing never leaves its 16-byte buffer, and atoi reads back what printf's \<^verbatim>\<open>%d\<close> prints for every number that is
  not negative. The text of a negative number is a minus sign and digits that atoi reads as its absolute value; atoi
  itself knows no sign and gives 0 for such a text. The least integer is excluded: its negation overflows in C.
\<close>

theorem printint_atoi:
  assumes "sint xx \<noteq> - (2 ^ 31)"
  shows "\<exists>text. int_text upper_digits xx 10 True = Some text \<and>
    (if sint xx < 0 then hd text = 45 \<and> atoi (tl text) = - sint xx \<and> atoi text = 0 else atoi text = sint xx)"
proof -
  let ?y = "if sint xx < 0 then - xx else xx"
  have "sint ?y = \<bar>sint xx\<bar>"
  proof (cases "sint xx < 0")
    case True
    have "sint xx \<ge> - (2 ^ 31)" using sint_ge[of xx] by simp
    with True assms have "- (2 ^ 31) \<le> - sint xx" "- sint xx < 2 ^ 31" by auto
    then have "sint (- xx) = - sint xx"
      by (simp add: sint_word_ariths signed_take_bit_int_eq_self)
    with True show ?thesis by simp
  qed simp
  moreover have "atoi (map ((!) upper_digits) (numerals 10 (unat ?y))) = sint ?y"
    using atoi_loop_numerals[OF numerals_less[of 10 "unat ?y", simplified], of 0] numerals_value[of 10 "unat ?y"]
    by (simp add: atoi_def)
  moreover have "atoi (45 # ds) = 0" for ds by (simp add: atoi_def)
  ultimately show ?thesis
    using int_text_numerals[of 10 upper_digits xx True] by (auto split: if_splits)
qed

theorem printint_atoi_witness:
  "\<exists>text. int_text upper_digits (- 42) 10 True = Some text \<and> hd text = 45 \<and> atoi (tl text) = 42 \<and> atoi text = 0"
  using printint_atoi[of "- 42"] by simp

end
