(* ===== verification/Console.thy ===== *)
theory Console
  imports Ring Printf
begin

text \<open>
  The console (src/src/console.c): formatted kernel output, the text screen with scrolling, and
  the input buffer with line editing. The character ports of the serial line are a list of the
  characters sent; the cursor position kept by the display controller is part of the state. Locks
  are not modelled: each routine runs to its end or to the place where it sleeps.
\<close>

unbundle bit_operations_syntax

section \<open>Formatted output\<close>

definition lower_digits :: "byte list" where
  "lower_digits = lit ''0123456789abcdef''"

text \<open>The characters that \<^verbatim>\<open>cprintf\<close> sends; \<^verbatim>\<open>%c\<close> increments its argument and does not advance.\<close>

definition cprintf_directive :: "byte \<Rightarrow> arg list \<Rightarrow> (cstring \<times> arg list) option" where
  "cprintf_directive c as =
     (if c = of_char CHR ''d'' then do { (w, as) \<leftarrow> num_arg as; t \<leftarrow> int_text lower_digits w 10 True; Some (t, as) }
      else if c = of_char CHR ''x'' \<or> c = of_char CHR ''p''
      then do { (w, as) \<leftarrow> num_arg as; t \<leftarrow> int_text lower_digits w 16 False; Some (t, as) }
      else if c = of_char CHR ''s'' then str_arg as
      else if c = of_char CHR ''c'' then do { (w, as) \<leftarrow> num_arg as; Some ([ucast w], Num (w + 1) # as) }
      else if c = 37 then Some ([37], as)
      else Some ([37, c], as))"

fun cprintf_loop :: "cstring \<Rightarrow> arg list \<Rightarrow> cstring option" where
  "cprintf_loop [] as = Some []"
| "cprintf_loop (c # fmt) as =
     (if c \<noteq> 37 then do { t \<leftarrow> cprintf_loop fmt as; Some (c # t) }
      else case fmt of [] \<Rightarrow> Some []
        | d # fmt' \<Rightarrow> do { (t, as) \<leftarrow> cprintf_directive d as; u \<leftarrow> cprintf_loop fmt' as; Some (t @ u) })"

section \<open>Screen\<close>

definition CONS_BACKSPACE :: int where "CONS_BACKSPACE = 0x100"

record cga =
  crt :: "16 word list"
  cursor :: int

definition cell :: "int \<Rightarrow> 16 word" where
  "cell c = (word_of_int c AND 0xff) OR 0x0700"

definition scroll :: "16 word list \<Rightarrow> int \<Rightarrow> (16 word list \<times> int) option" where
  "scroll screen pos = do {
     screen \<leftarrow> copy_loop screen 0 screen 80 0 (23 * 80);
     let pos = pos - 80;
     screen \<leftarrow> copy_loop screen pos (replicate (nat (24 * 80 - pos)) 0) 0 0 (24 * 80 - pos);
     Some (screen, pos)
   }"

definition cgaputc :: "int \<Rightarrow> cga \<Rightarrow> cga option" where
  "cgaputc c s = (let pos = cursor s in do {
     (screen, pos) \<leftarrow>
       (if c = 10 then Some (crt s, pos + (80 - pos mod 80))
        else if c = CONS_BACKSPACE then Some (crt s, if pos > 0 then pos - 1 else pos)
        else do { screen \<leftarrow> wr (crt s) pos (cell c); Some (screen, pos + 1) });
     (screen, pos) \<leftarrow> (if pos div 80 \<ge> 24 then scroll screen pos else Some (screen, pos));
     screen \<leftarrow> wr screen pos (cell 32);
     Some \<lparr>crt = screen, cursor = pos\<rparr>
   })"

text \<open>After a panic on another processor \<^verbatim>\<open>consputc\<close> does not return, which is None here.\<close>

record console =
  panicked :: bool
  serial :: "int list"
  display :: cga

definition consputc :: "int \<Rightarrow> console \<Rightarrow> console option" where
  "consputc c s =
     (if panicked s then None
      else do {
        d \<leftarrow> cgaputc c (display s);
        Some (s\<lparr>serial := serial s @ (if c = CONS_BACKSPACE then [8, 32, 8] else [c]), display := d\<rparr>)
      })"

fun consputs :: "int list \<Rightarrow> console \<Rightarrow> console option" where
  "consputs [] s = Some s"
| "consputs (c # cs) s = do { s \<leftarrow> consputc c s; consputs cs s }"

definition cprintf :: "cstring \<Rightarrow> arg list \<Rightarrow> console \<Rightarrow> console option" where
  "cprintf fmt as s = do { t \<leftarrow> cprintf_loop fmt as; consputs (map uint t) s }"

definition consolewrite :: "byte list \<Rightarrow> console \<Rightarrow> (int \<times> console) option" where
  "consolewrite buf s = do { s \<leftarrow> consputs (map uint buf) s; Some (int (length buf), s) }"

section \<open>Input\<close>

definition INPUT_BUF :: nat where "INPUT_BUF = 128"

record input =
  ibuf :: "byte list"
  rpos :: "32 word"
  wpos :: "32 word"
  epos :: "32 word"

text \<open>The inner loop of Control-U: the state and the number of characters erased.\<close>

function kill_line :: "input \<Rightarrow> nat \<Rightarrow> input \<times> nat" where
  "kill_line s k =
     (if epos s \<noteq> wpos s \<and> ibuf s ! (unat (epos s - 1) mod INPUT_BUF) \<noteq> 10
      then kill_line (s\<lparr>epos := epos s - 1\<rparr>) (k + 1) else (s, k))"
  by pat_completeness auto
termination
proof (relation "measure (\<lambda>(s, k). unat (epos s - wpos s))", simp_all, elim conjE)
  fix s :: input
  assume "epos s \<noteq> wpos s"
  then show "unat (epos s - 1 - wpos s) < unat (epos s - wpos s)"
    by (simp add: unat_diff_pred unat_gt_0)
qed

declare kill_line.simps [simp del]

text \<open>
  One round of the loop of \<^verbatim>\<open>consoleintr\<close> for the character \<open>c\<close>: the new state, the characters
  echoed by \<^verbatim>\<open>consputc\<close> and whether readers are woken. The process listing of Control-P only
  prints.
\<close>

definition intr_char :: "int \<Rightarrow> input \<Rightarrow> input \<times> int list \<times> bool" where
  "intr_char c s =
     (if c = 16 then (s, [], False)
      else if c = 21 then let (s, k) = kill_line s 0 in (s, replicate k CONS_BACKSPACE, False)
      else if c = 8 \<or> c = 127 then
        (if epos s \<noteq> wpos s then (s\<lparr>epos := epos s - 1\<rparr>, [CONS_BACKSPACE], False) else (s, [], False))
      else if c \<noteq> 0 \<and> epos s - rpos s < of_nat INPUT_BUF then
        let c = (if c = 13 then 10 else c);
            s = s\<lparr>ibuf := (ibuf s)[unat (epos s) mod INPUT_BUF := word_of_int c], epos := epos s + 1\<rparr>
        in if c = 10 \<or> c = 4 \<or> epos s = rpos s + of_nat INPUT_BUF then (s\<lparr>wpos := epos s\<rparr>, [c], True)
           else (s, [c], False)
      else (s, [], False))"

text \<open>The values of \<^verbatim>\<open>getc\<close> up to the first negative one.\<close>

fun consoleintr :: "int list \<Rightarrow> input \<Rightarrow> input \<times> int list \<times> bool" where
  "consoleintr [] s = (s, [], False)"
| "consoleintr (c # cs) s =
     (if c < 0 then (s, [], False)
      else let (s, echo, woke) = intr_char c s; (s, echo', woke') = consoleintr cs s
           in (s, echo @ echo', woke \<or> woke'))"

datatype read_end = Done | Asleep | Killed

text \<open>
  \<open>consoleread_loop killed target n s\<close>: the loop with \<open>n\<close> bytes left. The bytes stored, how the
  loop ended (it sleeps when nothing is left to read), and the state.
\<close>

fun consoleread_loop :: "bool \<Rightarrow> nat \<Rightarrow> nat \<Rightarrow> input \<Rightarrow> byte list \<times> read_end \<times> input" where
  "consoleread_loop killed target 0 s = ([], Done, s)"
| "consoleread_loop killed target (Suc n) s =
     (if rpos s = wpos s then ([], if killed then Killed else Asleep, s)
      else let c = ibuf s ! (unat (rpos s) mod INPUT_BUF); s' = s\<lparr>rpos := rpos s + 1\<rparr>
           in if c = 4 then ([], Done, if Suc n < target then s'\<lparr>rpos := rpos s' - 1\<rparr> else s')
              else if c = 10 then ([c], Done, s')
              else let (bs, fin, s'') = consoleread_loop killed target n s' in (c # bs, fin, s''))"

text \<open>The value returned is None while the call sleeps.\<close>

definition consoleread :: "bool \<Rightarrow> nat \<Rightarrow> input \<Rightarrow> int option \<times> byte list \<times> input" where
  "consoleread killed n s = (let (bs, fin, s) = consoleread_loop killed n n s
     in (case fin of Done \<Rightarrow> Some (int (length bs)) | Asleep \<Rightarrow> None | Killed \<Rightarrow> Some (- 1), bs, s))"

section \<open>The screen\<close>

definition cga_ok :: "cga \<Rightarrow> bool" where
  "cga_ok s \<longleftrightarrow> length (crt s) = 25 * 80 \<and> 0 \<le> cursor s \<and> cursor s < 24 * 80"

lemma scroll_closed:
  assumes "length screen = 2000" "1920 \<le> p" "p \<le> 2000"
  shows "scroll screen (int p) =
    Some (take (p - 80) (take 1840 (drop 80 screen) @ drop 1840 screen) @ replicate (2000 - p) 0 @ drop 1920 screen, int p - 80)"
proof -
  let ?up = "take 1840 (drop 80 screen) @ drop 1840 screen"
  have 1: "copy_loop screen 0 screen 80 0 1840 = Some ?up"
    using copy_loop_nat[of 0 1840 0 screen 80 screen] assms(1) by simp
  have n: "int p - 80 = int (p - 80)" "24 * 80 - int (p - 80) = int (2000 - p)" "nat (int (2000 - p)) = 2000 - p"
    "23 * 80 = (1840 :: int)" using assms(2,3) by auto
  have "copy_loop ?up (int (p - 80)) (replicate (2000 - p) 0) (int 0) (int 0) (int (2000 - p)) =
      Some (take (p - 80) ?up @ replicate (2000 - p) 0 @ drop (p - 80 + (2000 - p)) ?up)"
    using assms by (subst copy_loop_nat) auto
  moreover have "p - 80 + (2000 - p) = 1920" using assms(2,3) by auto
  moreover have "drop 1920 ?up = drop 1920 screen" using assms(1) by simp
  ultimately have 2: "copy_loop ?up (int (p - 80)) (replicate (2000 - p) 0) 0 0 (int (2000 - p)) =
      Some (take (p - 80) ?up @ replicate (2000 - p) 0 @ drop 1920 screen)"
    by (simp only: semiring_1_class.of_nat_0)
  show ?thesis by (simp only: scroll_def n Let_def 1 2 bind.bind_lunit)
qed

text \<open>The first part of \<^verbatim>\<open>cgaputc\<close>, before the test for scrolling.\<close>

definition cga_advance :: "int \<Rightarrow> cga \<Rightarrow> (16 word list \<times> int) option" where
  "cga_advance c s =
     (if c = 10 then Some (crt s, cursor s + (80 - cursor s mod 80))
      else if c = CONS_BACKSPACE then Some (crt s, if cursor s > 0 then cursor s - 1 else cursor s)
      else do { screen \<leftarrow> wr (crt s) (cursor s) (cell c); Some (screen, cursor s + 1) })"

lemma cgaputc_parts:
  "cgaputc c s = do {
     (screen, pos) \<leftarrow> cga_advance c s;
     (screen, pos) \<leftarrow> (if pos div 80 \<ge> 24 then scroll screen pos else Some (screen, pos));
     screen \<leftarrow> wr screen pos (cell 32);
     Some \<lparr>crt = screen, cursor = pos\<rparr>
   }"
  by (simp add: cgaputc_def cga_advance_def Let_def)

lemma next_row: "int p + (80 - int p mod 80) = int (80 * (p div 80 + 1))"
proof -
  have "int p = int (80 * (p div 80)) + int (p mod 80)" by (metis mult_div_mod_eq of_nat_add)
  moreover have "int p mod 80 = int (p mod 80)" by (simp add: zmod_int)
  ultimately show ?thesis by simp
qed

lemma cga_advance_ok:
  assumes "cga_ok s"
  shows "\<exists>screen q. cga_advance c s = Some (screen, int q) \<and> length screen = 2000 \<and> q \<le> 1920"
proof -
  obtain p where p: "cursor s = int p" "p < 1920" and len: "length (crt s) = 2000"
    using assms by (auto simp: cga_ok_def elim: nonneg_int_cases)
  have "p div 80 < 24" using p(2) by (simp add: div_less_iff_less_mult)
  then have nl: "80 * (p div 80 + 1) \<le> 1920" by simp
  consider "c = 10" | "c = CONS_BACKSPACE" "c \<noteq> 10" | "c \<noteq> 10" "c \<noteq> CONS_BACKSPACE" by blast
  then show ?thesis
  proof cases
    case 1
    then have "cga_advance c s = Some (crt s, int (80 * (p div 80 + 1)))"
      unfolding cga_advance_def p(1) next_row by simp
    with nl len show ?thesis by blast
  next
    case 2
    then have "cga_advance c s = Some (crt s, int (p - 1))" by (auto simp: cga_advance_def p(1) of_nat_diff)
    with len p(2) show ?thesis by (intro exI[of _ "crt s"] exI[of _ "p - 1"]) simp
  next
    case 3
    then have "cga_advance c s = Some ((crt s)[p := cell c], int (Suc p))"
      using p len by (simp add: cga_advance_def)
    with p(2) len show ?thesis by (metis Suc_leI length_list_update)
  qed
qed

lemma cgaputc_ok:
  assumes "cga_ok s"
  shows "\<exists>s'. cgaputc c s = Some s' \<and> cga_ok s'"
proof -
  obtain screen q where adv: "cga_advance c s = Some (screen, int q)" "length screen = 2000" "q \<le> 1920"
    using cga_advance_ok[OF assms] by blast
  have "\<exists>screen' q'. (if int q div 80 \<ge> 24 then scroll screen (int q) else Some (screen, int q)) = Some (screen', int q') \<and>
    length screen' = 2000 \<and> q' < 1920"
  proof (cases "q = 1920")
    case True
    have "int 1920 - 80 = int 1840" by simp
    with True show ?thesis using scroll_closed[OF adv(2), of 1920] adv(2) by (auto intro!: exI[of _ 1840])
  next
    case False
    then have "\<not> int q div 80 \<ge> 24" using adv(3) by (simp add: not_le zdiv_int[symmetric] div_less_iff_less_mult)
    with False adv show ?thesis by auto
  qed
  then obtain screen' q' where s': "(if int q div 80 \<ge> 24 then scroll screen (int q) else Some (screen, int q)) = Some (screen', int q')"
    "length screen' = 2000" "q' < 1920" by blast
  have "cgaputc c s = Some \<lparr>crt = screen'[q' := cell 32], cursor = int q'\<rparr>"
    unfolding cgaputc_parts adv(1) using s' by simp
  with s'(2,3) show ?thesis by (simp add: cga_ok_def)
qed

text \<open>A newline in the last row moves the other rows up and leaves a blank last row with the cursor.\<close>

lemma newline_scrolls:
  assumes "cga_ok s" "cursor s div 80 = 23"
  shows "\<exists>s'. cgaputc 10 s = Some s' \<and> cursor s' = 23 * 80 \<and> take (23 * 80) (crt s') = take (23 * 80) (drop 80 (crt s)) \<and>
    take 80 (drop (23 * 80) (crt s')) = cell 32 # replicate 79 0"
proof -
  obtain p where p: "cursor s = int p" "p div 80 = 23" and len: "length (crt s) = 2000"
    using assms by (auto simp: cga_ok_def zdiv_int[symmetric] elim!: nonneg_int_cases)
  have adv: "cga_advance 10 s = Some (crt s, int 1920)"
    unfolding cga_advance_def p(1) next_row p(2) by simp
  have sc: "scroll (crt s) (int 1920) = Some (take 1840 (drop 80 (crt s)) @ replicate 80 0 @ drop 1920 (crt s), int 1840)"
    using scroll_closed[OF len, of 1920] len by simp
  let ?A = "take 1840 (drop 80 (crt s))" and ?B = "drop 1920 (crt s)"
  have w: "wr L (int 1840) v = Some (L[1840 := v])" if "length L = 2000" for L and v :: "16 word"
    using that by (intro wr_nat) simp
  have "replicate 80 (0 :: 16 word) = 0 # replicate 79 0" by (simp flip: replicate_Suc)
  then have L: "(?A @ replicate 80 0 @ ?B)[1840 := cell 32] = ?A @ (cell 32 # replicate 79 0) @ ?B"
    using len by (simp add: list_update_append)
  have 24: "int 1920 div 80 \<ge> 24" by simp
  have "cgaputc 10 s = Some \<lparr>crt = ?A @ (cell 32 # replicate 79 0) @ ?B, cursor = int 1840\<rparr>"
    unfolding cgaputc_parts adv bind.bind_lunit prod.case if_P[OF 24] sc using w[of "?A @ replicate 80 0 @ ?B"] len L by simp
  then show ?thesis using len by simp
qed

text \<open>
  C26: console output never leaves the screen memory: from a cursor on the first 24 rows every
  sequence of characters, newlines and backspaces is printed, and the cursor is on these rows again.
\<close>

theorem console_output_safe:
  assumes "cga_ok (display s)" "\<not> panicked s"
  shows "\<exists>s'. consputs cs s = Some s' \<and> cga_ok (display s')"
  using assms
proof (induction cs arbitrary: s)
  case (Cons c cs)
  obtain d where "cgaputc c (display s) = Some d" "cga_ok d" using cgaputc_ok[OF Cons.prems(1)] by blast
  with Cons.prems(2) Cons.IH show ?case by (simp add: consputc_def)
qed simp

theorem console_output_safe_witness:
  "\<exists>s'. consputs [72, 10, 256] \<lparr>panicked = False, serial = [], display = \<lparr>crt = replicate 2000 0, cursor = 1900\<rparr>\<rparr> = Some s' \<and>
     cga_ok (display s')"
  by (rule console_output_safe) (simp_all add: cga_ok_def)

section \<open>The input buffer\<close>

definition committed :: "input \<Rightarrow> byte list" where
  "committed s = ring_contents (ibuf s) (rpos s) (wpos s)"

definition editing :: "input \<Rightarrow> byte list" where
  "editing s = ring_contents (ibuf s) (wpos s) (epos s)"

definition input_ok :: "input \<Rightarrow> bool" where
  "input_ok s \<longleftrightarrow> length (ibuf s) = INPUT_BUF \<and> unat (wpos s - rpos s) \<le> unat (epos s - rpos s) \<and>
     unat (epos s - rpos s) \<le> INPUT_BUF \<and> 10 \<notin> set (editing s)"

text \<open>The line discipline: the lines ready to be read and the line being edited.\<close>

definition edit_line :: "int \<Rightarrow> byte list \<times> byte list \<Rightarrow> byte list \<times> byte list" where
  "edit_line c s = (let (ready, line) = s in
     if c = 16 then (ready, line)
     else if c = 21 then (ready, [])
     else if c = 8 \<or> c = 127 then (ready, butlast line)
     else if c \<noteq> 0 \<and> length ready + length line < INPUT_BUF then
       let b = word_of_int (if c = 13 then 10 else c); line = line @ [b]
       in if b = 10 \<or> b = 4 \<or> length ready + length line = INPUT_BUF then (ready @ line, []) else (ready, line)
     else (ready, line))"

lemma input_contents:
  assumes "input_ok s"
  shows "ring_contents (ibuf s) (rpos s) (epos s) = committed s @ editing s"
  using assms ring_contents_split by (auto simp: input_ok_def committed_def editing_def)

lemma input_lengths:
  assumes "input_ok s"
  shows "unat (epos s - rpos s) = length (committed s) + length (editing s)" "length (committed s) + length (editing s) \<le> INPUT_BUF"
  using arg_cong[OF input_contents[OF assms], of length] assms by (simp_all add: input_ok_def)

lemma input_erase:
  assumes "input_ok s" "epos s \<noteq> wpos s"
  shows "input_ok (s\<lparr>epos := epos s - 1\<rparr>)" "editing (s\<lparr>epos := epos s - 1\<rparr>) = butlast (editing s)"
    "committed (s\<lparr>epos := epos s - 1\<rparr>) = committed s" "editing s \<noteq> []"
proof -
  show c: "editing (s\<lparr>epos := epos s - 1\<rparr>) = butlast (editing s)"
    using assms(2) by (simp add: editing_def ring_contents_pred)
  show "committed (s\<lparr>epos := epos s - 1\<rparr>) = committed s" by (simp add: committed_def)
  have ne: "unat (epos s - wpos s) \<noteq> 0" using assms(2) by (simp add: unat_eq_zero)
  then show "editing s \<noteq> []" unfolding editing_def by (metis length_ring_contents list.size(3))
  then have "unat (wpos s - rpos s) < unat (epos s - rpos s)"
    using input_lengths(1)[OF assms(1)] by (simp add: committed_def)
  then have "epos s \<noteq> rpos s" by auto
  then have "unat (epos s - 1 - rpos s) = unat (epos s - rpos s) - 1" by (rule unat_diff_pred)
  with \<open>unat (wpos s - rpos s) < unat (epos s - rpos s)\<close> assms(1) show "input_ok (s\<lparr>epos := epos s - 1\<rparr>)"
    by (auto simp: input_ok_def c dest: in_set_butlastD)
qed

lemma kill_line_all:
  "input_ok s \<Longrightarrow> \<exists>s' k'. kill_line s k = (s', k') \<and> input_ok s' \<and> committed s' = committed s \<and> editing s' = [] \<and> rpos s' = rpos s"
proof (induction s k rule: kill_line.induct)
  case (1 s k)
  show ?case
  proof (cases "epos s = wpos s")
    case True
    then show ?thesis using 1(2) by (subst kill_line.simps) (simp add: editing_def)
  next
    case False
    note er = input_erase[OF 1(2) False]
    have len: "length (ibuf s) = INPUT_BUF" using 1(2) by (simp add: input_ok_def)
    have "last (editing s) = ibuf s ! (unat (epos s - 1) mod INPUT_BUF)"
      using ring_contents_last[OF False, of "ibuf s"] len by (simp add: editing_def ring_get_def)
    moreover have "last (editing s) \<in> set (editing s)" using er(4) by simp
    ultimately have cond: "epos s \<noteq> wpos s \<and> ibuf s ! (unat (epos s - 1) mod INPUT_BUF) \<noteq> 10"
      using 1(2) False by (auto simp: input_ok_def)
    from 1(1)[OF cond er(1)] er(3) cond show ?thesis by (subst kill_line.simps) auto
  qed
qed

lemma input_store:
  fixes b :: byte
  assumes "input_ok s" "unat (epos s - rpos s) < INPUT_BUF"
  defines "t \<equiv> s\<lparr>ibuf := (ibuf s)[unat (epos s) mod INPUT_BUF := b], epos := epos s + 1\<rparr>"
  shows "committed t = committed s" "editing t = editing s @ [b]" "unat (epos t - rpos t) = Suc (unat (epos s - rpos s))"
proof -
  have len: "length (ibuf s) = INPUT_BUF" using assms(1) by (simp add: input_ok_def)
  then have ring: "ring_size (ibuf s)" by (simp add: ring_size_def INPUT_BUF_def)
  have t: "ibuf t = ring_put (ibuf s) (epos s) b" by (simp add: t_def ring_put_def len)
  have small: "unat (epos s - rpos s) < 2 ^ 32 - 1" using assms(2) by (simp add: INPUT_BUF_def)
  have ed: "unat (epos s - wpos s) \<le> unat (epos s - rpos s)"
    using input_lengths(1)[OF assms(1)] by (simp add: editing_def)
  show "unat (epos t - rpos t) = Suc (unat (epos s - rpos s))" using unat_Suc_diff[OF small] by (simp add: t_def)
  show e: "editing t = editing s @ [b]"
    using ring_contents_put[OF ring, of "epos s" "wpos s" b] ed assms(2) small t len by (simp add: editing_def t_def)
  have "ring_contents (ibuf t) (rpos t) (epos t) = committed s @ editing s @ [b]"
    using ring_contents_put[OF ring, of "epos s" "rpos s" b] assms(2) small t len input_contents[OF assms(1)]
    by (simp add: t_def)
  moreover have "ring_contents (ibuf t) (rpos t) (epos t) = committed t @ editing t"
    unfolding committed_def editing_def
    using assms(1) unat_Suc_diff[OF small] by (intro ring_contents_split) (simp add: t_def input_ok_def)
  moreover have "length (committed t) = length (committed s)" by (simp add: committed_def t_def)
  ultimately show "committed t = committed s" using e by simp
qed

lemma input_commit:
  assumes "length (ibuf t) = INPUT_BUF" "unat (epos t - rpos t) \<le> INPUT_BUF" "unat (wpos t - rpos t) \<le> unat (epos t - rpos t)"
  shows "input_ok (t\<lparr>wpos := epos t\<rparr>)" "committed (t\<lparr>wpos := epos t\<rparr>) = committed t @ editing t"
    "editing (t\<lparr>wpos := epos t\<rparr>) = []"
  using assms ring_contents_split[OF assms(3)] by (simp_all add: input_ok_def committed_def editing_def)

lemma full_iff: "epos t = rpos t + of_nat INPUT_BUF \<longleftrightarrow> unat (epos t - rpos t) = INPUT_BUF"
proof -
  have "epos t = rpos t + of_nat INPUT_BUF \<longleftrightarrow> epos t - rpos t = of_nat INPUT_BUF" by (auto simp: algebra_simps)
  also have "\<dots> \<longleftrightarrow> unat (epos t - rpos t) = INPUT_BUF" by (auto simp: word_unat_eq_iff unat_of_nat INPUT_BUF_def)
  finally show ?thesis .
qed

lemma byte_of_char: "0 \<le> c \<Longrightarrow> c < 256 \<Longrightarrow> 0 \<le> d \<Longrightarrow> d < 256 \<Longrightarrow> (word_of_int c :: byte) = word_of_int d \<longleftrightarrow> c = d"
  by (simp add: word_of_int_eq_iff take_bit_int_eq_self)

lemma intr_store:
  assumes ok: "input_ok s" and room: "unat (epos s - rpos s) < INPUT_BUF" and c: "0 \<le> c" "c < 256"
  defines "t \<equiv> s\<lparr>ibuf := (ibuf s)[unat (epos s) mod INPUT_BUF := word_of_int c], epos := epos s + 1\<rparr>"
  defines "u \<equiv> (if c = 10 \<or> c = 4 \<or> epos t = rpos t + of_nat INPUT_BUF then t\<lparr>wpos := epos t\<rparr> else t)"
  shows "input_ok u \<and> (committed u, editing u) =
    (let line = editing s @ [word_of_int c] in
     if (word_of_int c :: byte) = 10 \<or> (word_of_int c :: byte) = 4 \<or> length (committed s) + length line = INPUT_BUF
     then (committed s @ line, []) else (committed s, line))"
proof -
  note st = input_store[OF ok room, of "word_of_int c", folded t_def]
  have b: "(word_of_int c :: byte) = 10 \<longleftrightarrow> c = 10" "(word_of_int c :: byte) = 4 \<longleftrightarrow> c = 4"
    using byte_of_char[OF c, of 10] byte_of_char[OF c, of 4] by simp_all
  have full: "epos t = rpos t + of_nat INPUT_BUF \<longleftrightarrow> length (committed s) + length (editing s @ [word_of_int c]) = INPUT_BUF"
    using full_iff[of t] st(3) input_lengths(1)[OF ok] by simp
  have len: "length (ibuf t) = INPUT_BUF" "unat (wpos t - rpos t) \<le> unat (epos t - rpos t)" "unat (epos t - rpos t) \<le> INPUT_BUF"
    using ok room st(3) by (simp_all add: t_def input_ok_def)
  show ?thesis
  proof (cases "c = 10 \<or> c = 4 \<or> epos t = rpos t + of_nat INPUT_BUF")
    case True
    then have u: "u = t\<lparr>wpos := epos t\<rparr>" by (simp add: u_def)
    show ?thesis unfolding u using input_commit[OF len(1,3,2)] True b full st by (auto simp: Let_def)
  next
    case False
    then have u: "u = t" by (simp add: u_def)
    have "10 \<notin> set (editing t)" using st(2) ok b(1) False by (auto simp: input_ok_def)
    with len have "input_ok t" by (simp add: input_ok_def)
    with u False b full st show ?thesis by (auto simp: Let_def)
  qed
qed

text \<open>
  C24: the interrupt side of the console implements the line discipline \<open>edit_line\<close>: for every
  character, and although the three indices wrap around, the ring holds the ready bytes and the
  line being edited, Backspace and Control-U act on the edited line only, and a newline, an end of
  file or a full buffer makes the line ready.
\<close>

theorem consoleintr_refines:
  assumes "input_ok s" "0 \<le> c" "c < 256"
  shows "let (s', echo, woke) = intr_char c s in
    input_ok s' \<and> (committed s', editing s') = edit_line c (committed s, editing s)"
proof -
  have cmp: "epos s - rpos s < of_nat INPUT_BUF \<longleftrightarrow> unat (epos s - rpos s) < INPUT_BUF"
    by (simp add: word_less_nat_alt unat_of_nat INPUT_BUF_def)
  consider "c = 16" | "c = 21" | "c = 8 \<or> c = 127" | "c = 0"
    | "c \<notin> {16, 21, 8, 127, 0}" "\<not> unat (epos s - rpos s) < INPUT_BUF"
    | "c \<notin> {16, 21, 8, 127, 0}" "unat (epos s - rpos s) < INPUT_BUF" by blast
  then show ?thesis
  proof cases
    case 2
    obtain s' k' where "kill_line s 0 = (s', k')" "input_ok s'" "committed s' = committed s" "editing s' = []"
      using kill_line_all[OF assms(1)] by blast
    with 2 show ?thesis by (simp add: intr_char_def edit_line_def)
  next
    case 3
    show ?thesis
    proof (cases "epos s = wpos s")
      case True
      then have "editing s = []" by (simp add: editing_def)
      with 3 True assms(1) show ?thesis by (auto simp: intr_char_def edit_line_def)
    next
      case False
      with 3 input_erase[OF assms(1) False] show ?thesis by (auto simp: intr_char_def edit_line_def)
    qed
  next
    case 6
    let ?c = "if c = 13 then 10 else c"
    have c: "0 \<le> ?c" "?c < 256" using assms(2,3) by auto
    note st = intr_store[OF assms(1) 6(2) c]
    let ?t = "s\<lparr>ibuf := (ibuf s)[unat (epos s) mod INPUT_BUF := word_of_int ?c], epos := epos s + 1\<rparr>"
    let ?P = "?c = 10 \<or> ?c = 4 \<or> epos ?t = rpos ?t + of_nat INPUT_BUF"
    have "intr_char c s = (if ?P then (?t\<lparr>wpos := epos ?t\<rparr>, [?c], True) else (?t, [?c], False))"
      unfolding intr_char_def cmp Let_def using 6 by simp
    then have i: "intr_char c s = (if ?P then ?t\<lparr>wpos := epos ?t\<rparr> else ?t, [?c], ?P)"
      by (cases ?P) (simp_all only: if_True if_False simp_thms)
    have e: "edit_line c (committed s, editing s) = (let line = editing s @ [word_of_int ?c] in
       if (word_of_int ?c :: byte) = 10 \<or> (word_of_int ?c :: byte) = 4 \<or> length (committed s) + length line = INPUT_BUF
       then (committed s @ line, []) else (committed s, line))"
      unfolding edit_line_def Let_def prod.case using 6 input_lengths(1)[OF assms(1)] by simp
    show ?thesis unfolding i e Let_def prod.case using st unfolding Let_def .
  qed (use assms(1) cmp input_lengths[OF assms(1)] in \<open>auto simp: intr_char_def edit_line_def\<close>)
qed

theorem consoleintr_refines_witness:
  "let (s', echo, woke) = intr_char 65 \<lparr>ibuf = replicate 128 0, rpos = - 1, wpos = - 1, epos = - 1\<rparr> in
    input_ok s' \<and> (committed s', editing s') =
      edit_line 65 (committed \<lparr>ibuf = replicate 128 0, rpos = - 1, wpos = - 1, epos = - 1\<rparr>,
        editing \<lparr>ibuf = replicate 128 0, rpos = - 1, wpos = - 1, epos = - 1\<rparr>)"
  by (rule consoleintr_refines) (simp_all add: input_ok_def editing_def INPUT_BUF_def)

text \<open>
  What a read promises: \<open>read_ready killed n ready\<close> takes \<open>n\<close> bytes of the line, or the line with its newline, and stops
  before an end-of-file mark, which is used up only by a read that finds it first. The value is None when the
  call sleeps for more input, with the bytes it has copied so far.
\<close>

definition read_ready :: "bool \<Rightarrow> nat \<Rightarrow> byte list \<Rightarrow> int option \<times> byte list \<times> byte list" where
  "read_ready killed n ready = (let line = takeWhile (\<lambda>c. c \<noteq> 10 \<and> c \<noteq> 4) ready
     in if n \<le> length line then (Some (int n), take n line, drop n ready)
        else case drop (length line) ready of
          [] \<Rightarrow> (if killed then Some (- 1) else None, line, [])
        | c # rest \<Rightarrow>
            if c = 10 then (Some (int (length line) + 1), line @ [10], rest)
            else (Some (int (length line)), line, if line = [] then rest else c # rest))"

fun read_loop_spec :: "bool \<Rightarrow> nat \<Rightarrow> nat \<Rightarrow> byte list \<Rightarrow> byte list \<times> read_end \<times> byte list" where
  "read_loop_spec killed target 0 ready = ([], Done, ready)"
| "read_loop_spec killed target (Suc n) [] = ([], if killed then Killed else Asleep, [])"
| "read_loop_spec killed target (Suc n) (c # ready) =
     (if c = 4 then ([], Done, if Suc n < target then c # ready else ready)
      else if c = 10 then ([c], Done, ready)
      else let (bs, fin, rest) = read_loop_spec killed target n ready in (c # bs, fin, rest))"

lemma input_take:
  assumes "input_ok s" "rpos s \<noteq> wpos s"
  shows "input_ok (s\<lparr>rpos := rpos s + 1\<rparr>)" "editing (s\<lparr>rpos := rpos s + 1\<rparr>) = editing s"
    "committed s = ibuf s ! (unat (rpos s) mod INPUT_BUF) # committed (s\<lparr>rpos := rpos s + 1\<rparr>)"
proof -
  show e: "editing (s\<lparr>rpos := rpos s + 1\<rparr>) = editing s" by (simp add: editing_def)
  have "unat (wpos s - (rpos s + 1)) = unat (wpos s - rpos s) - 1" if "rpos s \<noteq> wpos s" for s
    using that unat_minus_one[of "wpos s - rpos s"] by (simp add: diff_diff_eq)
  note w = this[OF assms(2)] and e' = this[of "s\<lparr>wpos := epos s\<rparr>"]
  have "wpos s - rpos s \<noteq> 0" using assms(2) by simp
  then have "0 < unat (wpos s - rpos s)" using unat_eq_0 by (metis gr0I)
  moreover from this have "rpos s \<noteq> epos s" using assms(1) by (auto simp: input_ok_def)
  ultimately show "input_ok (s\<lparr>rpos := rpos s + 1\<rparr>)" using assms(1) w e' e by (auto simp: input_ok_def)
  show "committed s = ibuf s ! (unat (rpos s) mod INPUT_BUF) # committed (s\<lparr>rpos := rpos s + 1\<rparr>)"
    using ring_contents_get[OF assms(2), of "ibuf s"] assms(1) by (auto simp: committed_def ring_get_def input_ok_def)
qed

lemma consoleread_loop_spec:
  "input_ok s \<Longrightarrow> \<exists>bs fin s'. consoleread_loop killed target n s = (bs, fin, s') \<and> input_ok s' \<and> editing s' = editing s \<and>
     read_loop_spec killed target n (committed s) = (bs, fin, committed s')"
proof (induction n arbitrary: s)
  case (Suc n)
  show ?case
  proof (cases "rpos s = wpos s")
    case True
    then have "committed s = []" by (simp add: committed_def)
    with True Suc.prems show ?thesis by simp
  next
    case False
    note t = input_take[OF Suc.prems False]
    let ?s = "s\<lparr>rpos := rpos s + 1\<rparr>"
    have undo: "?s\<lparr>rpos := rpos ?s - 1\<rparr> = s" by simp
    from Suc.IH[OF t(1)] obtain bs fin s' where r: "consoleread_loop killed target n ?s = (bs, fin, s')" "input_ok s'"
      "editing s' = editing s" "read_loop_spec killed target n (committed ?s) = (bs, fin, committed s')"
      unfolding t(2) by blast
    have eof: "4 # committed ?s = committed s" if "ibuf s ! (unat (rpos s) mod INPUT_BUF) = 4" using t(3) that by simp
    show ?thesis unfolding t(3) consoleread_loop.simps read_loop_spec.simps Let_def undo
      using False r t(1,2) Suc.prems eof by auto
  qed
qed simp

lemma read_loop_spec_line:
  "read_loop_spec killed target n ready = (let line = takeWhile (\<lambda>c. c \<noteq> 10 \<and> c \<noteq> 4) ready
     in if n \<le> length line then (take n line, Done, drop n ready)
        else case drop (length line) ready of
          [] \<Rightarrow> (line, if killed then Killed else Asleep, [])
        | c # rest \<Rightarrow>
            if c = 10 then (line @ [10], Done, rest)
            else (line, Done, if n - length line < target then c # rest else rest))"
  by (induction killed target n ready rule: read_loop_spec.induct) (auto simp: Let_def split: list.splits)

text \<open>
  C25: A read of the console gives what its specification promises, for any ready input and any number of bytes asked for: the
  next line with its newline, a part of a longer line, the bytes before an end-of-file mark, no bytes when
  the mark is next, or it sleeps (or fails, when the process is killed) when the input ends before. The input that is left stays
  ready, and the line that is being edited is not touched.
\<close>

theorem consoleread_line:
  assumes "input_ok s"
  shows "let (r, bs, s') = consoleread killed n s in
    input_ok s' \<and> (r, bs, committed s') = read_ready killed n (committed s) \<and> editing s' = editing s"
proof -
  obtain bs fin s' where r: "consoleread_loop killed n n s = (bs, fin, s')" "input_ok s'" "editing s' = editing s"
    "read_loop_spec killed n n (committed s) = (bs, fin, committed s')"
    using consoleread_loop_spec[OF assms] by blast
  have "n \<noteq> 0" if "\<not> n \<le> length (takeWhile (\<lambda>c. c \<noteq> 10 \<and> c \<noteq> 4) (committed s))" using that by auto
  with r(4) have "(case fin of Done \<Rightarrow> Some (int (length bs)) | Asleep \<Rightarrow> None | Killed \<Rightarrow> Some (- 1), bs, committed s') =
      read_ready killed n (committed s)"
    unfolding read_loop_spec_line read_ready_def Let_def by (auto split: if_splits list.splits)
  with r(1-3) show ?thesis by (simp add: consoleread_def)
qed

theorem consoleread_line_witness:
  "let s = \<lparr>ibuf = [72, 10, 65, 4, 66] @ replicate 123 0, rpos = 0, wpos = 5, epos = 5\<rparr>;
       (r, bs, s') = consoleread False 5 s;
       (r2, bs2, s2) = consoleread False 5 s'
   in (r, bs, committed s') = (Some 2, [72, 10], [65, 4, 66]) \<and> (r2, bs2, committed s2) = (Some 1, [65], [4, 66])"
proof -
  let ?s = "\<lparr>ibuf = [72, 10, 65, 4, 66] @ replicate 123 0, rpos = 0, wpos = 5, epos = 5\<rparr>"
  have ok: "input_ok ?s" by (simp add: input_ok_def editing_def INPUT_BUF_def)
  obtain r bs s' where 1: "consoleread False 5 ?s = (r, bs, s')" by (cases "consoleread False 5 ?s")
  have "committed ?s = [72, 10, 65, 4, 66]" by code_simp
  moreover have "read_ready False 5 [72, 10, 65, 4, 66] = (Some 2, [72, 10], [65, 4, 66])" by code_simp
  ultimately have s1: "input_ok s'" "(r, bs, committed s') = (Some 2, [72, 10], [65, 4, 66])"
    using consoleread_line[OF ok, of False 5] unfolding 1 by simp_all
  obtain r2 bs2 s2 where 2: "consoleread False 5 s' = (r2, bs2, s2)" by (cases "consoleread False 5 s'")
  have "read_ready False 5 [65, 4, 66] = (Some 1, [65], [4, 66])" by code_simp
  then have "(r2, bs2, committed s2) = (Some 1, [65], [4, 66])"
    using consoleread_line[OF s1(1), of False 5] s1(2) unfolding 2 by simp
  with 1 2 s1 show ?thesis by (simp add: Let_def)
qed

end
