(* ===== verification/Spinlock.thy ===== *)
theory Spinlock
  imports Prelude
begin

text \<open>
  Spin locks and nested interrupt disabling (src/src/spinlock.c). The routines are functions of
  the lock and of the state of the processor that runs them; None is a panic. The atomic accesses
  of several processors to one lock are interleaved by a step relation.
\<close>

unbundle bit_operations_syntax

text \<open>What spinlock.c uses of \<^verbatim>\<open>struct cpu\<close>: the nesting depth, the saved flag and the interrupt flag.\<close>

record cpu =
  ncli :: int
  intena :: bool
  if_flag :: bool

text \<open>The call stack kept for debugging is left out of the lock; a processor is a number.\<close>

record spinlock =
  locked :: bool
  lcpu :: "nat option"

definition initlock :: spinlock where
  "initlock = \<lparr>locked = False, lcpu = None\<rparr>"

definition holding :: "spinlock \<Rightarrow> nat \<Rightarrow> bool" where
  "holding lk me \<longleftrightarrow> locked lk \<and> lcpu lk = Some me"

definition pushcli :: "cpu \<Rightarrow> cpu" where
  "pushcli c =
     (let eflags = if_flag c; c = c\<lparr>if_flag := False\<rparr>; c' = c\<lparr>ncli := ncli c + 1\<rparr>
      in if ncli c = 0 then c'\<lparr>intena := eflags\<rparr> else c')"

definition popcli :: "cpu \<Rightarrow> cpu option" where
  "popcli c =
     (if if_flag c then None
      else let c = c\<lparr>ncli := ncli c - 1\<rparr>
           in if ncli c < 0 then None
              else if ncli c = 0 \<and> intena c then Some (c\<lparr>if_flag := True\<rparr>) else Some c)"

text \<open>The atomic exchange: the old value and the lock with the new one.\<close>

definition xchg_locked :: "bool \<Rightarrow> spinlock \<Rightarrow> bool \<times> spinlock" where
  "xchg_locked v lk = (locked lk, lk\<lparr>locked := v\<rparr>)"

text \<open>\<^verbatim>\<open>acquire\<close> in three parts: before the loop, one round of the loop, after the loop.\<close>

definition acquire_enter :: "nat \<Rightarrow> spinlock \<Rightarrow> cpu \<Rightarrow> cpu option" where
  "acquire_enter me lk c = (let c = pushcli c in if holding lk me then None else Some c)"

definition acquire_try :: "spinlock \<Rightarrow> bool \<times> spinlock" where
  "acquire_try lk = (let (old, lk) = xchg_locked True lk in (\<not> old, lk))"

definition acquire_record :: "nat \<Rightarrow> spinlock \<Rightarrow> spinlock" where
  "acquire_record me lk = lk\<lparr>lcpu := Some me\<rparr>"

text \<open>\<^verbatim>\<open>release\<close> in two parts: up to the exchange, and the exchange with what follows.\<close>

definition release_enter :: "nat \<Rightarrow> spinlock \<Rightarrow> spinlock option" where
  "release_enter me lk = (if \<not> holding lk me then None else Some (lk\<lparr>lcpu := None\<rparr>))"

definition release_exit :: "spinlock \<Rightarrow> cpu \<Rightarrow> (spinlock \<times> cpu) option" where
  "release_exit lk c = (let (_, lk) = xchg_locked False lk in do { c \<leftarrow> popcli c; Some (lk, c) })"

text \<open>Return addresses found by following the frame pointers; \<open>mem\<close> is the word at an address.\<close>

fun callerpcs_loop :: "(32 word \<Rightarrow> 32 word) \<Rightarrow> 32 word \<Rightarrow> nat \<Rightarrow> 32 word list" where
  "callerpcs_loop mem ebp 0 = []"
| "callerpcs_loop mem ebp (Suc n) =
     (if ebp = 0 \<or> ebp < 0x80000000 \<or> ebp = 0xffffffff then replicate (Suc n) 0
      else mem (ebp + 4) # callerpcs_loop mem (mem ebp) n)"

definition getcallerpcs :: "(32 word \<Rightarrow> 32 word) \<Rightarrow> 32 word \<Rightarrow> 32 word list" where
  "getcallerpcs mem v = callerpcs_loop mem (v - 8) 10"

lemma getcallerpcs_length: "length (getcallerpcs mem v) = 10"
proof -
  have "length (callerpcs_loop mem ebp n) = n" for ebp n
    by (induction mem ebp n rule: callerpcs_loop.induct) auto
  then show ?thesis by (simp add: getcallerpcs_def)
qed

section \<open>Nesting\<close>

fun popclis :: "nat \<Rightarrow> cpu \<Rightarrow> cpu option" where
  "popclis 0 c = Some c"
| "popclis (Suc n) c = do { c \<leftarrow> popcli c; popclis n c }"

lemma pushcli_nested: "0 < ncli c \<Longrightarrow> \<not> if_flag c \<Longrightarrow> pushcli c = c\<lparr>ncli := ncli c + 1\<rparr>"
  by (simp add: pushcli_def Let_def)

lemma pushclis_nested: "0 < ncli c \<Longrightarrow> \<not> if_flag c \<Longrightarrow> (pushcli ^^ n) c = c\<lparr>ncli := ncli c + int n\<rparr>"
  by (induction n) (simp_all add: pushcli_nested)

lemma popclis_nested: "0 < k \<Longrightarrow> \<not> if_flag c \<Longrightarrow> ncli c = k + int n \<Longrightarrow> popclis n c = Some (c\<lparr>ncli := k\<rparr>)"
proof (induction n arbitrary: c)
  case (Suc n)
  then show ?case by (simp add: popcli_def Let_def)
qed simp

text \<open>
  nested pushcli calls disable interrupts, exactly as many popcli calls undo them without a
  panic, and the interrupt flag is then what it was before the first call.
\<close>

lemma cli_nesting:
  assumes "ncli c = 0"
  shows "\<not> if_flag ((pushcli ^^ Suc n) c) \<and>
    (\<exists>c'. popclis (Suc n) ((pushcli ^^ Suc n) c) = Some c' \<and> if_flag c' = if_flag c \<and> ncli c' = 0) \<and>
    (\<forall>k. k < n \<longrightarrow> (\<exists>c'. popclis (Suc k) ((pushcli ^^ Suc n) c) = Some c' \<and> \<not> if_flag c'))"
proof -
  let ?c = "c\<lparr>if_flag := False, ncli := 1, intena := if_flag c\<rparr>"
  have push: "(pushcli ^^ Suc n) c = ?c\<lparr>ncli := 1 + int n\<rparr>"
    using pushclis_nested[of ?c n] assms by (simp add: pushcli_def Let_def funpow_swap1)
  have app: "popclis (a + b) d = do { e \<leftarrow> popclis a d; popclis b e }" for a b d
  proof (induction a arbitrary: d)
    case (Suc a)
    then show ?case by (cases "popcli d") simp_all
  qed simp
  have down: "popclis k (?c\<lparr>ncli := 1 + int n\<rparr>) = Some (?c\<lparr>ncli := 1 + int n - int k\<rparr>)" if "k \<le> n" for k
    using popclis_nested[of "1 + int n - int k" "?c\<lparr>ncli := 1 + int n\<rparr>" k] that by simp
  have "popclis (Suc n) (?c\<lparr>ncli := 1 + int n\<rparr>) = popcli (?c\<lparr>ncli := 1\<rparr>)"
    using app[of n 1] down[of n] by (cases "popcli (?c\<lparr>ncli := 1\<rparr>)") simp_all
  then have all: "\<exists>c'. popclis (Suc n) (?c\<lparr>ncli := 1 + int n\<rparr>) = Some c' \<and> if_flag c' = if_flag c \<and> ncli c' = 0"
    by (simp add: popcli_def Let_def)
  have "\<exists>c'. popclis (Suc k) (?c\<lparr>ncli := 1 + int n\<rparr>) = Some c' \<and> \<not> if_flag c'" if "k < n" for k
    using down[of "Suc k"] that by simp
  with all show ?thesis unfolding push by simp
qed

lemma cli_nesting_witness:
  "let c = \<lparr>ncli = 0, intena = False, if_flag = True\<rparr> in \<not> if_flag ((pushcli ^^ Suc 1) c) \<and>
    (\<exists>c'. popclis (Suc 1) ((pushcli ^^ Suc 1) c) = Some c' \<and> if_flag c' = if_flag c \<and> ncli c' = 0) \<and>
    (\<forall>k. k < 1 \<longrightarrow> (\<exists>c'. popclis (Suc k) ((pushcli ^^ Suc 1) c) = Some c' \<and> \<not> if_flag c'))"
  using cli_nesting[of "\<lparr>ncli = 0, intena = False, if_flag = True\<rparr>" 1] unfolding Let_def by simp

section \<open>Mutual exclusion\<close>

text \<open>
  Processors that take and release one lock. A processor is outside, spins, has exchanged, holds
  the lock, or is about to give it up; \<open>failed\<close> records a panic.
\<close>

datatype place = Outside | Spinning | Taken | Critical | Leaving

record lock_sys =
  the_lock :: spinlock
  cpus :: "nat \<Rightarrow> cpu"
  places :: "nat \<Rightarrow> place"
  failed :: bool

inductive lock_step :: "lock_sys \<Rightarrow> lock_sys \<Rightarrow> bool" where
  enter: "places s i = Outside \<Longrightarrow> acquire_enter i (the_lock s) (cpus s i) = Some c \<Longrightarrow>
    lock_step s (s\<lparr>cpus := (cpus s)(i := c), places := (places s)(i := Spinning)\<rparr>)"
| enter_panic: "places s i = Outside \<Longrightarrow> acquire_enter i (the_lock s) (cpus s i) = None \<Longrightarrow> lock_step s (s\<lparr>failed := True\<rparr>)"
| spin: "places s i = Spinning \<Longrightarrow> acquire_try (the_lock s) = (got, lk) \<Longrightarrow>
    lock_step s (s\<lparr>the_lock := lk, places := (places s)(i := if got then Taken else Spinning)\<rparr>)"
| note_owner: "places s i = Taken \<Longrightarrow>
    lock_step s (s\<lparr>the_lock := acquire_record i (the_lock s), places := (places s)(i := Critical)\<rparr>)"
| leave: "places s i = Critical \<Longrightarrow> release_enter i (the_lock s) = Some lk \<Longrightarrow>
    lock_step s (s\<lparr>the_lock := lk, places := (places s)(i := Leaving)\<rparr>)"
| leave_panic: "places s i = Critical \<Longrightarrow> release_enter i (the_lock s) = None \<Longrightarrow> lock_step s (s\<lparr>failed := True\<rparr>)"
| free: "places s i = Leaving \<Longrightarrow> release_exit (the_lock s) (cpus s i) = Some (lk, c) \<Longrightarrow>
    lock_step s (s\<lparr>the_lock := lk, cpus := (cpus s)(i := c), places := (places s)(i := Outside)\<rparr>)"
| free_panic: "places s i = Leaving \<Longrightarrow> release_exit (the_lock s) (cpus s i) = None \<Longrightarrow> lock_step s (s\<lparr>failed := True\<rparr>)"

definition lock_start :: lock_sys where
  "lock_start = \<lparr>the_lock = initlock, cpus = (\<lambda>_. \<lparr>ncli = 0, intena = False, if_flag = True\<rparr>), places = (\<lambda>_. Outside), failed = False\<rparr>"

inductive lock_reach :: "lock_sys \<Rightarrow> bool" where
  start: "lock_reach lock_start"
| step: "lock_reach s \<Longrightarrow> lock_step s t \<Longrightarrow> lock_reach t"

fun holds :: "place \<Rightarrow> bool" where
  "holds Outside = False"
| "holds Spinning = False"
| "holds Taken = True"
| "holds Critical = True"
| "holds Leaving = True"

definition cpu_inv :: "place \<Rightarrow> cpu \<Rightarrow> bool" where
  "cpu_inv p c \<longleftrightarrow> (if p = Outside then ncli c = 0 \<and> if_flag c else ncli c = 1 \<and> \<not> if_flag c \<and> intena c)"

text \<open>The invariant with the processor \<open>own\<close> that has the lock.\<close>

definition lock_inv :: "lock_sys \<Rightarrow> nat option \<Rightarrow> bool" where
  "lock_inv s own \<longleftrightarrow> \<not> failed s \<and> (\<forall>i. cpu_inv (places s i) (cpus s i)) \<and>
     (\<forall>i. holds (places s i) \<longleftrightarrow> own = Some i) \<and> locked (the_lock s) = (own \<noteq> None) \<and>
     (\<forall>i. lcpu (the_lock s) = Some i \<longleftrightarrow> places s i = Critical)"

lemmas lock_ops = acquire_enter_def acquire_try_def acquire_record_def release_enter_def release_exit_def
  xchg_locked_def holding_def pushcli_def popcli_def Let_def

lemma lock_invD:
  assumes "lock_inv s own"
  shows "\<not> failed s" "cpu_inv (places s i) (cpus s i)" "holds (places s i) \<longleftrightarrow> own = Some i"
    "locked (the_lock s) = (own \<noteq> None)" "lcpu (the_lock s) = Some i \<longleftrightarrow> places s i = Critical"
  using assms by (auto simp: lock_inv_def)

lemma holds_iff_own: "lock_inv s own \<Longrightarrow> places s i = p \<Longrightarrow> holds p \<longleftrightarrow> own = Some i"
  using lock_invD(3) by blast

lemma lock_step_inv: "lock_step s t \<Longrightarrow> lock_inv s own \<Longrightarrow> \<exists>own'. lock_inv t own'"
proof (induction rule: lock_step.induct)
  case (enter s i c)
  from enter(2) lock_invD(2)[OF enter(3), of i] enter(1) have c: "cpu_inv Spinning c"
    by (auto simp: lock_ops cpu_inv_def split: if_splits)
  have "own \<noteq> Some i" using holds_iff_own[OF enter(3,1)] by simp
  with c enter(1,3) have "lock_inv (s\<lparr>cpus := (cpus s)(i := c), places := (places s)(i := Spinning)\<rparr>) own"
    by (auto simp: lock_inv_def)
  then show ?case ..
next
  case (enter_panic s i)
  then show ?case using lock_invD(5)[OF enter_panic(3), of i] by (auto simp: lock_ops split: if_splits)
next
  case (spin s i got lk)
  have ni: "own \<noteq> Some i" using holds_iff_own[OF spin(3,1)] by simp
  show ?case
  proof (cases own)
    case None
    with spin(2) lock_invD(4)[OF spin(3)] have l: "got" "lk = (the_lock s)\<lparr>locked := True\<rparr>" by (auto simp: lock_ops)
    have "lock_inv (s\<lparr>the_lock := lk, places := (places s)(i := Taken)\<rparr>) (Some i)"
      using spin(1,3) None by (auto simp: lock_inv_def l(2) cpu_inv_def)
    then show ?thesis using l(1) by auto
  next
    case (Some k)
    with spin(2) lock_invD(4)[OF spin(3)] have l: "\<not> got" "lk = (the_lock s)\<lparr>locked := True\<rparr>" by (auto simp: lock_ops)
    have "lock_inv (s\<lparr>the_lock := lk, places := (places s)(i := Spinning)\<rparr>) own"
      using spin(1,3) Some ni lock_invD(2)[OF spin(3), of i] by (auto simp: lock_inv_def l(2))
    then show ?thesis using l(1) by auto
  qed
next
  case (note_owner s i)
  have o: "own = Some i" using holds_iff_own[OF note_owner(2,1)] by simp
  then have "places s j \<noteq> Critical" if "j \<noteq> i" for j using lock_invD(3)[OF note_owner(2), of j] that by auto
  then have "lock_inv (s\<lparr>the_lock := acquire_record i (the_lock s), places := (places s)(i := Critical)\<rparr>) own"
    using note_owner o by (auto simp: lock_inv_def acquire_record_def cpu_inv_def)
  then show ?case ..
next
  case (leave s i lk)
  have o: "own = Some i" using holds_iff_own[OF leave(3,1)] by simp
  from leave(2) have lk: "lk = (the_lock s)\<lparr>lcpu := None\<rparr>" by (auto simp: lock_ops split: if_splits)
  have "places s j \<noteq> Critical" if "j \<noteq> i" for j using lock_invD(3)[OF leave(3), of j] o that by auto
  then have "lock_inv (s\<lparr>the_lock := lk, places := (places s)(i := Leaving)\<rparr>) own"
    using leave(1,3) o by (auto simp: lock_inv_def lk cpu_inv_def)
  then show ?case ..
next
  case (leave_panic s i)
  have "own = Some i" using holds_iff_own[OF leave_panic(3,1)] by simp
  then show ?case using lock_invD(4,5)[OF leave_panic(3)] leave_panic(1,2) by (auto simp: lock_ops split: if_splits)
next
  case (free s i lk c)
  have o: "own = Some i" using holds_iff_own[OF free(3,1)] by simp
  from free(2) lock_invD(2)[OF free(3), of i] free(1) have c: "cpu_inv Outside c" "lk = (the_lock s)\<lparr>locked := False\<rparr>"
    by (auto simp: lock_ops cpu_inv_def split: if_splits)
  have "lock_inv (s\<lparr>the_lock := lk, cpus := (cpus s)(i := c), places := (places s)(i := Outside)\<rparr>) None"
    using free(1,3) o c by (auto simp: lock_inv_def)
  then show ?case ..
next
  case (free_panic s i)
  then show ?case using lock_invD(2)[OF free_panic(3), of i] by (auto simp: lock_ops cpu_inv_def split: if_splits)
qed

lemma lock_reach_inv: "lock_reach s \<Longrightarrow> \<exists>own. lock_inv s own"
proof (induction rule: lock_reach.induct)
  case start
  have "lock_inv lock_start None" by (simp add: lock_inv_def lock_start_def cpu_inv_def initlock_def)
  then show ?case ..
next
  case (step s t)
  then show ?case using lock_step_inv by blast
qed

text \<open>
  C22: at most one processor is in the critical section of a spin lock, whatever the interleaving
  of their atomic steps; interrupts are off there, and neither acquire nor release panics.
\<close>

theorem spinlock_mutex:
  assumes "lock_reach s"
  shows "\<not> failed s \<and> (places s i = Critical \<longrightarrow> places s j = Critical \<longrightarrow> i = j) \<and>
    (places s i = Critical \<longrightarrow> \<not> if_flag (cpus s i))"
proof -
  obtain own where inv: "lock_inv s own" using lock_reach_inv[OF assms] by blast
  have "places s k = Critical \<Longrightarrow> own = Some k" for k using lock_invD(3)[OF inv, of k] by simp
  then show ?thesis using lock_invD(1,2)[OF inv] by (auto simp: cpu_inv_def)
qed

text \<open>A run in which processor 1 takes the lock.\<close>

definition taken_by_1 :: lock_sys where
  "taken_by_1 = \<lparr>the_lock = \<lparr>locked = True, lcpu = Some 1\<rparr>,
     cpus = (cpus lock_start)(1 := \<lparr>ncli = 1, intena = True, if_flag = False\<rparr>), places = (\<lambda>_. Outside)(1 := Critical), failed = False\<rparr>"

lemma taken_by_1_reach: "lock_reach taken_by_1"
proof -
  let ?c = "\<lparr>ncli = 1, intena = True, if_flag = False\<rparr>"
  let ?s1 = "lock_start\<lparr>cpus := (cpus lock_start)(1 := ?c), places := (places lock_start)(1 := Spinning)\<rparr>"
  have 1: "lock_step lock_start ?s1"
    by (rule lock_step.enter) (simp_all add: lock_start_def lock_ops initlock_def)
  let ?s2 = "?s1\<lparr>the_lock := \<lparr>locked = True, lcpu = None\<rparr>, places := (places ?s1)(1 := if True then Taken else Spinning)\<rparr>"
  have 2: "lock_step ?s1 ?s2"
    by (rule lock_step.spin) (simp_all add: lock_start_def lock_ops initlock_def)
  have 3: "lock_step ?s2 (?s2\<lparr>the_lock := acquire_record 1 (the_lock ?s2), places := (places ?s2)(1 := Critical)\<rparr>)"
    by (rule lock_step.note_owner) simp
  from lock_reach.step[OF lock_reach.step[OF lock_reach.step[OF lock_reach.start 1] 2] 3] show ?thesis
    by (simp add: taken_by_1_def lock_start_def acquire_record_def)
qed

theorem spinlock_mutex_witness:
  "places taken_by_1 1 = Critical \<and> \<not> failed taken_by_1 \<and> places taken_by_1 2 \<noteq> Critical \<and> \<not> if_flag (cpus taken_by_1 1)"
proof -
  have "places taken_by_1 1 = Critical" by (simp add: taken_by_1_def)
  with spinlock_mutex[OF taken_by_1_reach, of 1 2] show ?thesis by auto
qed

end
