(* ===== verification/Kalloc.thy ===== *)
theory Kalloc
  imports Prelude
begin

text \<open>
  The page allocator (src/src/kalloc.c). A page is named by its address; free pages are linked
  through the word at their start, the only word of a page that is modelled. The address \<open>kend\<close> of
  the end of the kernel image is a linker symbol, an argument here. None is a panic. The lock is
  not modelled: each routine is one critical section.
\<close>

definition PGSIZE :: nat where "PGSIZE = 4096"
definition KERNBASE :: nat where "KERNBASE = 0x80000000"
definition PHYSTOP :: nat where "PHYSTOP = 0xE000000"

definition v2p :: "nat \<Rightarrow> nat" where
  "v2p a = (a + 2 ^ 32 - KERNBASE) mod 2 ^ 32"

definition PGROUNDUP :: "nat \<Rightarrow> nat" where
  "PGROUNDUP sz = (sz + PGSIZE - 1) mod 2 ^ 32 div PGSIZE * PGSIZE"

record kmem =
  use_lock :: bool
  freelist :: nat
  first_word :: "nat \<Rightarrow> nat"

definition kfree :: "nat \<Rightarrow> nat \<Rightarrow> kmem \<Rightarrow> kmem option" where
  "kfree kend v s =
     (if v mod PGSIZE \<noteq> 0 \<or> v < kend \<or> v2p v \<ge> PHYSTOP then None
      else let s = s\<lparr>first_word := (first_word s)(v := 0x01010101)\<rparr>;
               s = s\<lparr>first_word := (first_word s)(v := freelist s)\<rparr>
           in Some (s\<lparr>freelist := v\<rparr>))"

text \<open>The address 0 is the null pointer: no page is left.\<close>

definition kalloc :: "kmem \<Rightarrow> nat \<times> kmem" where
  "kalloc s = (let r = freelist s in (r, if r \<noteq> 0 then s\<lparr>freelist := first_word s r\<rparr> else s))"

function freerange_loop :: "nat \<Rightarrow> nat \<Rightarrow> nat \<Rightarrow> kmem \<Rightarrow> kmem option" where
  "freerange_loop kend p vend s =
     (if p + PGSIZE \<le> vend then (case kfree kend p s of None \<Rightarrow> None | Some s' \<Rightarrow> freerange_loop kend (p + PGSIZE) vend s')
      else Some s)"
  by pat_completeness auto
termination by (relation "measure (\<lambda>(kend, p, vend, s). vend - p)") (auto simp: PGSIZE_def)

declare freerange_loop.simps [simp del]

definition freerange :: "nat \<Rightarrow> nat \<Rightarrow> nat \<Rightarrow> kmem \<Rightarrow> kmem option" where
  "freerange kend vstart vend s = freerange_loop kend (PGROUNDUP vstart) vend s"

definition kinit1 :: "nat \<Rightarrow> nat \<Rightarrow> nat \<Rightarrow> kmem \<Rightarrow> kmem option" where
  "kinit1 kend vstart vend s = freerange kend vstart vend (s\<lparr>use_lock := False\<rparr>)"

definition kinit2 :: "nat \<Rightarrow> nat \<Rightarrow> nat \<Rightarrow> kmem \<Rightarrow> kmem option" where
  "kinit2 kend vstart vend s = do { s \<leftarrow> freerange kend vstart vend s; Some (s\<lparr>use_lock := True\<rparr>) }"

text \<open>The two calls of \<^verbatim>\<open>main\<close> in main.c, on the zeroed state of the loaded kernel.\<close>

definition boot_kmem :: "nat \<Rightarrow> kmem option" where
  "boot_kmem kend = do {
     s \<leftarrow> kinit1 kend kend (KERNBASE + 4 * 1024 * 1024) \<lparr>use_lock = False, freelist = 0, first_word = (\<lambda>_. 0)\<rparr>;
     kinit2 kend (KERNBASE + 4 * 1024 * 1024) (KERNBASE + PHYSTOP) s
   }"

section \<open>The free list\<close>

fun linked :: "(nat \<Rightarrow> nat) \<Rightarrow> nat \<Rightarrow> nat list \<Rightarrow> bool" where
  "linked f p [] \<longleftrightarrow> p = 0"
| "linked f p (v # vs) \<longleftrightarrow> p = v \<and> v \<noteq> 0 \<and> linked f (f v) vs"

lemma linked_upd: "v \<notin> set vs \<Longrightarrow> linked (f(v := w)) p vs = linked f p vs"
  by (induction vs arbitrary: p) auto

definition free_pages :: "kmem \<Rightarrow> nat list \<Rightarrow> bool" where
  "free_pages s vs \<longleftrightarrow> linked (first_word s) (freelist s) vs \<and> distinct vs"

definition page_ok :: "nat \<Rightarrow> nat \<Rightarrow> bool" where
  "page_ok kend v \<longleftrightarrow> v mod PGSIZE = 0 \<and> kend \<le> v \<and> v2p v < PHYSTOP"

lemma kfree_Some: "page_ok kend v \<Longrightarrow> kfree kend v s = Some (s\<lparr>first_word := (first_word s)(v := freelist s), freelist := v\<rparr>)"
  by (simp add: kfree_def page_ok_def Let_def)

lemma kfree_pages:
  assumes "free_pages s vs" "v \<notin> set vs" "v \<noteq> 0" "kfree kend v s = Some s'"
  shows "free_pages s' (v # vs)"
  using assms by (auto simp: kfree_def free_pages_def Let_def linked_upd split: if_splits)

lemma kalloc_pages:
  assumes "free_pages s vs" "kalloc s = (r, s')"
  shows "vs = [] \<and> r = 0 \<and> s' = s \<or> (\<exists>rest. vs = r # rest \<and> r \<noteq> 0 \<and> r \<notin> set rest \<and> free_pages s' rest)"
  using assms by (cases vs) (auto simp: kalloc_def free_pages_def Let_def)

text \<open>The pages between two addresses.\<close>

definition pages_in :: "nat \<Rightarrow> nat \<Rightarrow> nat set" where
  "pages_in a b = {p. p mod PGSIZE = 0 \<and> PGROUNDUP a \<le> p \<and> p + PGSIZE \<le> b}"

lemma next_page:
  assumes "p mod PGSIZE = 0" "q mod PGSIZE = 0" "p < q"
  shows "p + PGSIZE \<le> q"
proof -
  have pq: "p = PGSIZE * (p div PGSIZE)" "q = PGSIZE * (q div PGSIZE)"
    using assms(1,2) by (metis add.right_neutral mult_div_mod_eq)+
  then have "p div PGSIZE < q div PGSIZE" using assms(3) by (metis linorder_not_less mult_le_mono2)
  then have "PGSIZE * Suc (p div PGSIZE) \<le> PGSIZE * (q div PGSIZE)" by (intro mult_le_mono2) simp
  with pq show ?thesis by simp
qed

lemma freerange_loop_pages:
  assumes "p mod PGSIZE = 0" "p \<noteq> 0" "free_pages s vs" "\<And>v. v \<in> set vs \<Longrightarrow> v < p"
    and "\<And>q. q mod PGSIZE = 0 \<Longrightarrow> p \<le> q \<Longrightarrow> q + PGSIZE \<le> vend \<Longrightarrow> page_ok kend q"
  shows "\<exists>s' ws. freerange_loop kend p vend s = Some s' \<and> free_pages s' ws \<and>
    set ws = set vs \<union> {q. q mod PGSIZE = 0 \<and> p \<le> q \<and> q + PGSIZE \<le> vend}"
  using assms
proof (induction kend p vend s arbitrary: vs rule: freerange_loop.induct)
  case (1 kend p vend s)
  show ?case
  proof (cases "p + PGSIZE \<le> vend")
    case True
    then have ok: "page_ok kend p" using 1(6)[of p] 1(2) by simp
    let ?s = "s\<lparr>first_word := (first_word s)(p := freelist s), freelist := p\<rparr>"
    have k: "kfree kend p s = Some ?s" using ok by (rule kfree_Some)
    have np: "p \<notin> set vs" using 1(5)[of p] by auto
    have fp: "free_pages ?s (p # vs)" using kfree_pages[OF 1(4) np 1(3) k] .
    have "\<exists>s' ws. freerange_loop kend (p + PGSIZE) vend ?s = Some s' \<and> free_pages s' ws \<and>
      set ws = set (p # vs) \<union> {q. q mod PGSIZE = 0 \<and> p + PGSIZE \<le> q \<and> q + PGSIZE \<le> vend}"
    proof (rule 1(1)[OF True k _ _ fp])
      show "(p + PGSIZE) mod PGSIZE = 0" using 1(2) by simp
      show "p + PGSIZE \<noteq> 0" by (simp add: PGSIZE_def)
      show "v < p + PGSIZE" if "v \<in> set (p # vs)" for v using that 1(5)[of v] by (auto simp: PGSIZE_def)
      show "page_ok kend q" if "q mod PGSIZE = 0" "p + PGSIZE \<le> q" "q + PGSIZE \<le> vend" for q
        using 1(6)[of q] that by simp
    qed
    moreover have "{q. q mod PGSIZE = 0 \<and> p \<le> q \<and> q + PGSIZE \<le> vend} =
        insert p {q. q mod PGSIZE = 0 \<and> p + PGSIZE \<le> q \<and> q + PGSIZE \<le> vend}" (is "?L = ?R")
    proof -
      have "p + PGSIZE \<le> q" if "q mod PGSIZE = 0" "p \<le> q" "q \<noteq> p" for q
        using that 1(2) next_page[of p q] by simp
      then show ?thesis using True 1(2) by auto
    qed
    ultimately show ?thesis using True k by (subst freerange_loop.simps) auto
  next
    case False
    then have "{q. q mod PGSIZE = 0 \<and> p \<le> q \<and> q + PGSIZE \<le> vend} = {}" by auto
    with False 1(4) show ?thesis by (subst freerange_loop.simps) auto
  qed
qed

lemma freerange_pages:
  assumes "free_pages s vs" "\<And>v. v \<in> set vs \<Longrightarrow> v < PGROUNDUP a" "PGROUNDUP a \<noteq> 0"
    and "\<And>q. q \<in> pages_in a b \<Longrightarrow> page_ok kend q"
  shows "\<exists>s' ws. freerange kend a b s = Some s' \<and> free_pages s' ws \<and> set ws = set vs \<union> pages_in a b"
proof -
  have "PGROUNDUP a mod PGSIZE = 0" by (simp add: PGROUNDUP_def)
  from freerange_loop_pages[OF this assms(3,1,2)] assms(4) show ?thesis
    by (simp add: freerange_def pages_in_def)
qed

text \<open>The pages the kernel manages: from its end to the end of physical memory.\<close>

definition all_pages :: "nat \<Rightarrow> nat set" where
  "all_pages kend = pages_in kend (KERNBASE + 4 * 1024 * 1024) \<union> pages_in (KERNBASE + 4 * 1024 * 1024) (KERNBASE + PHYSTOP)"

lemma PGROUNDUP_ge: "a < 2 ^ 32 - PGSIZE \<Longrightarrow> a \<le> PGROUNDUP a"
proof -
  assume "a < 2 ^ 32 - PGSIZE"
  then have "PGROUNDUP a = (a + PGSIZE - 1) div PGSIZE * PGSIZE" by (simp add: PGROUNDUP_def PGSIZE_def)
  then show ?thesis by (simp add: PGSIZE_def)
qed

lemma all_pages_ok:
  assumes "KERNBASE \<le> kend" "kend \<le> KERNBASE + 4 * 1024 * 1024" "v \<in> all_pages kend"
  shows "page_ok kend v" "v \<noteq> 0"
proof -
  have "kend \<le> PGROUNDUP kend" "KERNBASE + 4 * 1024 * 1024 \<le> PGROUNDUP (KERNBASE + 4 * 1024 * 1024)"
    using assms(2) by (intro PGROUNDUP_ge; simp add: KERNBASE_def PGSIZE_def)+
  then have v: "kend \<le> v" "v + PGSIZE \<le> KERNBASE + PHYSTOP" "v mod PGSIZE = 0"
    using assms(2,3) by (auto simp: all_pages_def pages_in_def PHYSTOP_def)
  moreover have "v + 2 ^ 32 - KERNBASE = v - KERNBASE + 2 ^ 32" using v(1) assms(1) by simp
  ultimately have "v2p v = v - KERNBASE"
    using v(2) by (simp only: v2p_def mod_add_self2) (simp add: KERNBASE_def PHYSTOP_def PGSIZE_def)
  with v assms(1) show "page_ok kend v" by (simp add: page_ok_def PGSIZE_def KERNBASE_def)
  show "v \<noteq> 0" using v(1) assms(1) by (simp add: KERNBASE_def)
qed

lemma boot_kmem_pages:
  assumes "KERNBASE \<le> kend" "kend \<le> KERNBASE + 4 * 1024 * 1024"
  shows "\<exists>s vs. boot_kmem kend = Some s \<and> free_pages s vs \<and> set vs = all_pages kend"
proof -
  let ?m = "KERNBASE + 4 * 1024 * 1024" and ?s0 = "\<lparr>use_lock = False, freelist = 0, first_word = (\<lambda>_. 0)\<rparr>"
  have m: "PGROUNDUP ?m = ?m" by (simp add: PGROUNDUP_def KERNBASE_def PGSIZE_def)
  have "kend \<le> PGROUNDUP kend" using assms by (intro PGROUNDUP_ge) (simp add: KERNBASE_def PGSIZE_def)
  then have k0: "PGROUNDUP kend \<noteq> 0" using assms(1) by (simp add: KERNBASE_def)
  have "free_pages ?s0 []" by (simp add: free_pages_def)
  from freerange_pages[OF this _ k0, of ?m kend] obtain s1 vs1 where
    1: "kinit1 kend kend ?m ?s0 = Some s1" "free_pages s1 vs1" "set vs1 = pages_in kend ?m"
    using all_pages_ok(1)[OF assms] by (auto simp: kinit1_def all_pages_def)
  have "v < PGROUNDUP ?m" if "v \<in> set vs1" for v
    using that unfolding m 1(3) by (simp add: pages_in_def PGSIZE_def)
  from freerange_pages[OF 1(2) this, of "KERNBASE + PHYSTOP" kend] obtain s2 vs2 where
    2: "freerange kend ?m (KERNBASE + PHYSTOP) s1 = Some s2" "free_pages s2 vs2" "set vs2 = set vs1 \<union> pages_in ?m (KERNBASE + PHYSTOP)"
    using all_pages_ok(1)[OF assms] unfolding m by (auto simp: all_pages_def KERNBASE_def)
  have "free_pages (s2\<lparr>use_lock := True\<rparr>) vs2" using 2(2) by (simp add: free_pages_def)
  with 1 2 show ?thesis by (auto simp: boot_kmem_def kinit2_def all_pages_def)
qed

section \<open>Clients\<close>

text \<open>
  The allocator and the pages in use. Clients allocate, free pages they use, and write to them.
\<close>

record page_sys =
  alloc :: kmem
  used :: "nat set"

inductive page_step :: "nat \<Rightarrow> page_sys \<Rightarrow> page_sys \<Rightarrow> bool" for kend where
  take_page: "kalloc (alloc s) = (r, k) \<Longrightarrow> r \<noteq> 0 \<Longrightarrow> page_step kend s (s\<lparr>alloc := k, used := insert r (used s)\<rparr>)"
| no_page: "kalloc (alloc s) = (0, k) \<Longrightarrow> page_step kend s (s\<lparr>alloc := k\<rparr>)"
| free_page: "v \<in> used s \<Longrightarrow> kfree kend v (alloc s) = Some k \<Longrightarrow> page_step kend s (s\<lparr>alloc := k, used := used s - {v}\<rparr>)"
| write_page: "v \<in> used s \<Longrightarrow>
    page_step kend s (s\<lparr>alloc := (alloc s)\<lparr>first_word := (first_word (alloc s))(v := w)\<rparr>\<rparr>)"

inductive page_reach :: "nat \<Rightarrow> page_sys \<Rightarrow> bool" for kend where
  boot: "boot_kmem kend = Some k \<Longrightarrow> page_reach kend \<lparr>alloc = k, used = {}\<rparr>"
| step: "page_reach kend s \<Longrightarrow> page_step kend s t \<Longrightarrow> page_reach kend t"

definition page_inv :: "nat \<Rightarrow> page_sys \<Rightarrow> bool" where
  "page_inv kend s \<longleftrightarrow> (\<exists>vs. free_pages (alloc s) vs \<and> set vs \<inter> used s = {} \<and> set vs \<union> used s = all_pages kend)"

lemma page_step_inv:
  assumes "page_step kend s t" "page_inv kend s" "KERNBASE \<le> kend" "kend \<le> KERNBASE + 4 * 1024 * 1024"
  shows "page_inv kend t"
proof -
  obtain vs where vs: "free_pages (alloc s) vs" "set vs \<inter> used s = {}" "set vs \<union> used s = all_pages kend"
    using assms(2) by (auto simp: page_inv_def)
  from assms(1) show ?thesis
  proof cases
    case (take_page r k)
    with kalloc_pages[OF vs(1)] obtain rest where "vs = r # rest" "r \<notin> set rest" "free_pages k rest" by blast
    with vs take_page(1) show ?thesis unfolding page_inv_def by (intro exI[of _ rest]) auto
  next
    case (no_page k)
    with kalloc_pages[OF vs(1) no_page(2)] vs show ?thesis by (auto simp: page_inv_def)
  next
    case (free_page v k)
    have "v \<notin> set vs" "v \<noteq> 0" using free_page(2) vs all_pages_ok(2)[OF assms(3,4)] by auto
    from kfree_pages[OF vs(1) this free_page(3)] have "free_pages k (v # vs)" .
    with vs free_page(1,2) show ?thesis unfolding page_inv_def by (intro exI[of _ "v # vs"]) auto
  next
    case (write_page v w)
    then have "v \<notin> set vs" using vs(2) by auto
    then have "free_pages ((alloc s)\<lparr>first_word := (first_word (alloc s))(v := w)\<rparr>) vs"
      using vs(1) by (simp add: free_pages_def linked_upd)
    with vs write_page(1) show ?thesis unfolding page_inv_def by (intro exI[of _ vs]) auto
  qed
qed

lemma page_reach_inv:
  assumes "page_reach kend s" "KERNBASE \<le> kend" "kend \<le> KERNBASE + 4 * 1024 * 1024"
  shows "page_inv kend s"
  using assms
proof (induction rule: page_reach.induct)
  case (boot k)
  with boot_kmem_pages[of kend] show ?case by (auto simp: page_inv_def)
next
  case (step s t)
  then show ?case using page_step_inv by blast
qed

text \<open>
  C23: the allocator never hands out a page that is in use: after any sequence of allocations,
  frees of pages in use and writes to pages in use, kalloc returns an aligned page of physical
  memory above the kernel that nobody uses, or 0 when all pages are in use.
\<close>

theorem kalloc_fresh:
  assumes "page_reach kend s" "KERNBASE \<le> kend" "kend \<le> KERNBASE + 4 * 1024 * 1024"
  shows "let r = fst (kalloc (alloc s)) in
    if r = 0 then used s = all_pages kend else r \<in> all_pages kend \<and> r \<notin> used s \<and> page_ok kend r"
proof -
  obtain vs where vs: "free_pages (alloc s) vs" "set vs \<inter> used s = {}" "set vs \<union> used s = all_pages kend"
    using page_reach_inv[OF assms] by (auto simp: page_inv_def)
  obtain r k where k: "kalloc (alloc s) = (r, k)" by (cases "kalloc (alloc s)")
  from kalloc_pages[OF vs(1) k] vs have "r = 0 \<and> used s = all_pages kend \<or> r \<noteq> 0 \<and> r \<in> all_pages kend \<and> r \<notin> used s"
    by auto
  with all_pages_ok(1)[OF assms(2,3), of r] show ?thesis by (auto simp: k)
qed

theorem kalloc_fresh_witness:
  "\<exists>k. boot_kmem 0x80110000 = Some k \<and> (let r = fst (kalloc k) in
    if r = 0 then {} = all_pages 0x80110000 else r \<in> all_pages 0x80110000 \<and> r \<notin> {} \<and> page_ok 0x80110000 r)"
proof -
  have b: "KERNBASE \<le> 0x80110000" "0x80110000 \<le> KERNBASE + 4 * 1024 * 1024" by (simp_all add: KERNBASE_def)
  obtain k where k: "boot_kmem 0x80110000 = Some k" using boot_kmem_pages[OF b] by blast
  from kalloc_fresh[OF page_reach.boot[OF k] b] have "let r = fst (kalloc k) in
    if r = 0 then {} = all_pages 0x80110000 else r \<in> all_pages 0x80110000 \<and> r \<notin> {} \<and> page_ok 0x80110000 r"
    by (simp only: page_sys.select_convs)
  with k show ?thesis by blast
qed

end
