(* ===== verification/Blocks.thy ===== *)
theory Blocks
  imports CString
begin

text \<open>
  Disk blocks as arrays of bytes and the little-endian fields in them. Loading and storing a field
  outside of the block is \<^const>\<open>None\<close>.
\<close>

type_synonym block = "byte list"
type_synonym sector = "32 word"
type_synonym disk = "sector \<Rightarrow> block"

definition BSIZE :: nat where "BSIZE = 512"

definition le32 :: "32 word \<Rightarrow> byte list" where
  "le32 w = [ucast w, ucast (drop_bit 8 w), ucast (drop_bit 16 w), ucast (drop_bit 24 w)]"

definition load32 :: "byte list \<Rightarrow> nat \<Rightarrow> 32 word option" where
  "load32 b p = do {
     b0 \<leftarrow> rd b (int p);
     b1 \<leftarrow> rd b (int (p + 1));
     b2 \<leftarrow> rd b (int (p + 2));
     b3 \<leftarrow> rd b (int (p + 3));
     Some (ucast b0 OR push_bit 8 (ucast b1) OR push_bit 16 (ucast b2) OR push_bit 24 (ucast b3))
   }"

definition le16 :: "16 word \<Rightarrow> byte list" where
  "le16 w = [ucast w, ucast (drop_bit 8 w)]"

definition load16 :: "byte list \<Rightarrow> nat \<Rightarrow> 16 word option" where
  "load16 b p = do {
     b0 \<leftarrow> rd b (int p);
     b1 \<leftarrow> rd b (int (p + 1));
     Some (ucast b0 OR push_bit 8 (ucast b1))
   }"

definition store16 :: "byte list \<Rightarrow> nat \<Rightarrow> 16 word \<Rightarrow> byte list option" where
  "store16 b p w = do { b \<leftarrow> wr b (int p) (ucast w); wr b (int (p + 1)) (ucast (drop_bit 8 w)) }"

lemma length_le32 [simp]: "length (le32 w) = 4"
  by (simp add: le32_def)

lemma length_le16 [simp]: "length (le16 w) = 2"
  by (simp add: le16_def)

lemma store32_blit: "p + 4 \<le> length b \<Longrightarrow> store32 b p w = Some (blit b p (le32 w))"
proof -
  assume p: "p + 4 \<le> length b"
  let ?w = "\<lambda>k. ucast (drop_bit k w) :: byte"
  have "store32 b p w = Some (b[p := ?w 0, p + 1 := ?w 8, p + 2 := ?w 16, p + 3 := ?w 24])"
  proof -
    from p have "p < length b" "p + 1 < length b" "p + 2 < length b" "p + 3 < length b" by auto
    then have "store32 b p w = Some (b[p := ucast w, p + 1 := ?w 8, p + 2 := ?w 16, p + 3 := ?w 24])"
      by (simp only: store32_def bind.bind_lunit wr_nat length_list_update)
    then show ?thesis by simp
  qed
  also have "b[p := ?w 0, p + 1 := ?w 8, p + 2 := ?w 16, p + 3 := ?w 24] = blit b p (le32 w)"
    using p by (simp add: le32_def blit_update_first[symmetric] numeral_3_eq_3)
  finally show ?thesis .
qed

lemma store16_blit: "p + 2 \<le> length b \<Longrightarrow> store16 b p w = Some (blit b p (le16 w))"
proof -
  assume p: "p + 2 \<le> length b"
  have "store16 b p w = Some (b[p := ucast w, p + 1 := ucast (drop_bit 8 w)])"
  proof -
    from p have "p < length b" "p + 1 < length b" by auto
    then show ?thesis by (simp only: store16_def bind.bind_lunit wr_nat length_list_update)
  qed
  also have "b[p := ucast w, p + 1 := ucast (drop_bit 8 w)] = blit b p (le16 w)"
    using p by (simp add: le16_def blit_update_first[symmetric])
  finally show ?thesis .
qed

lemma split_bytes32:
  "(ucast (ucast w :: byte) :: 32 word) OR push_bit 8 (ucast (ucast (drop_bit 8 w) :: byte)) OR
   push_bit 16 (ucast (ucast (drop_bit 16 w) :: byte)) OR push_bit 24 (ucast (ucast (drop_bit 24 w) :: byte)) = w" (is "?l = w")
proof (rule bit_word_eqI)
  fix n assume "n < LENGTH(32)"
  then consider "n < 8" | "8 \<le> n" "n < 16" | "16 \<le> n" "n < 24" | "24 \<le> n" "n < 32" by fastforce
  then show "bit ?l n = bit w n" by cases (auto simp: bit_simps)
qed

lemma split_bytes16:
  "(ucast (ucast w :: byte) :: 16 word) OR push_bit 8 (ucast (ucast (drop_bit 8 w) :: byte)) = w" (is "?l = w")
proof (rule bit_word_eqI)
  fix n assume "n < LENGTH(16)"
  then consider "n < 8" | "8 \<le> n" "n < 16" by fastforce
  then show "bit ?l n = bit w n" by cases (auto simp: bit_simps)
qed

lemma load32_range: "p + 4 \<le> length b \<Longrightarrow> range_of b p 4 = le32 w \<Longrightarrow> load32 b p = Some w"
proof -
  assume p: "p + 4 \<le> length b" and r: "range_of b p 4 = le32 w"
  have "rd b (int (p + i)) = Some (le32 w ! i)" if "i < 4" for i
    using arg_cong[OF r, of "\<lambda>xs. xs ! i"] p that by (simp add: range_of_def del: of_nat_add)
  from this[of 0] this[of 1] this[of 2] this[of 3] have
    "rd b (int p) = Some (ucast w)" "rd b (int (p + 1)) = Some (ucast (drop_bit 8 w))"
    "rd b (int (p + 2)) = Some (ucast (drop_bit 16 w))" "rd b (int (p + 3)) = Some (ucast (drop_bit 24 w))"
    by (simp_all add: le32_def)
  then show ?thesis by (simp only: load32_def bind.bind_lunit split_bytes32)
qed

lemma load16_range: "p + 2 \<le> length b \<Longrightarrow> range_of b p 2 = le16 w \<Longrightarrow> load16 b p = Some w"
proof -
  assume p: "p + 2 \<le> length b" and r: "range_of b p 2 = le16 w"
  have "rd b (int (p + i)) = Some (le16 w ! i)" if "i < 2" for i
    using arg_cong[OF r, of "\<lambda>xs. xs ! i"] p that by (simp add: range_of_def del: of_nat_add)
  from this[of 0] this[of 1] have "rd b (int p) = Some (ucast w)" "rd b (int (p + 1)) = Some (ucast (drop_bit 8 w))"
    by (simp_all add: le16_def)
  then show ?thesis by (simp only: load16_def bind.bind_lunit split_bytes16)
qed

lemma load32_blit_same: "p + 4 \<le> length b \<Longrightarrow> load32 (blit b p (le32 w)) p = Some w"
  using range_of_blit[of p "le32 w" b] by (intro load32_range) simp_all

lemma load16_blit_same: "p + 2 \<le> length b \<Longrightarrow> load16 (blit b p (le16 w)) p = Some w"
  using range_of_blit[of p "le16 w" b] by (intro load16_range) simp_all

lemma nth_blit_other: "d + length bs \<le> length b \<Longrightarrow> i < d \<or> d + length bs \<le> i \<Longrightarrow> i < length b \<Longrightarrow> blit b d bs ! i = b ! i"
  by (auto simp: blit_def nth_append)

lemma rd_blit_other:
  "d + length bs \<le> length b \<Longrightarrow> i < d \<or> d + length bs \<le> i \<Longrightarrow> rd (blit b d bs) (int i) = rd b (int i)"
  by (simp add: rd_def nth_blit_other)

lemma load32_blit_other:
  assumes "d + length bs \<le> length b" "p + 4 \<le> d \<or> d + length bs \<le> p"
  shows "load32 (blit b d bs) p = load32 b p"
proof -
  have "rd (blit b d bs) (int (p + i)) = rd b (int (p + i))" if "i < 4" for i
    using assms that by (intro rd_blit_other) auto
  from this[of 0] this[of 1] this[of 2] this[of 3] have "rd (blit b d bs) (int p) = rd b (int p)"
    "rd (blit b d bs) (int (p + 1)) = rd b (int (p + 1))" "rd (blit b d bs) (int (p + 2)) = rd b (int (p + 2))"
    "rd (blit b d bs) (int (p + 3)) = rd b (int (p + 3))" by simp_all
  then show ?thesis by (simp only: load32_def)
qed

lemma load16_blit_other:
  assumes "d + length bs \<le> length b" "p + 2 \<le> d \<or> d + length bs \<le> p"
  shows "load16 (blit b d bs) p = load16 b p"
proof -
  have "rd (blit b d bs) (int (p + i)) = rd b (int (p + i))" if "i < 2" for i
    using assms that by (intro rd_blit_other) auto
  from this[of 0] this[of 1] have "rd (blit b d bs) (int p) = rd b (int p)"
    "rd (blit b d bs) (int (p + 1)) = rd b (int (p + 1))" by simp_all
  then show ?thesis by (simp only: load16_def)
qed

end
