(* ===== verification/Bio.thy ===== *)
theory Bio
  imports Blocks
begin

text \<open>
  The buffer cache (src/src/bio.c) over the memory disk (src/src/memide.c), whose requests are
  synchronous. A buffer is named by its index; the list of the buffers is in the order of use, the
  most recently used first. A routine panics, sleeps until another process releases a buffer, or
  returns.
\<close>

datatype 'a outcome = Panic | Sleeps | Ret 'a

fun and_then :: "'a outcome \<Rightarrow> ('a \<Rightarrow> 'b outcome) \<Rightarrow> 'b outcome" where
  "and_then Panic f = Panic"
| "and_then Sleeps f = Sleeps"
| "and_then (Ret a) f = f a"

definition NBUF :: nat where "NBUF = 10"

record buf =
  bid :: nat
  busy :: bool
  valid :: bool
  dirty :: bool
  bdev :: "32 word"
  bsector :: sector
  bdata :: block

record bstore =
  bufs :: "buf list"
  memdisk :: disk
  disksize :: nat

text \<open>Each buffer is put at the front, so the last one is first.\<close>

definition new_buf :: "nat \<Rightarrow> buf" where
  "new_buf i = \<lparr>bid = i, busy = False, valid = False, dirty = False, bdev = - 1, bsector = 0, bdata = replicate BSIZE 0\<rparr>"

definition binit :: "disk \<Rightarrow> nat \<Rightarrow> bstore" where
  "binit dk n = \<lparr>bufs = map new_buf (rev [0..<NBUF]), memdisk = dk, disksize = n\<rparr>"

definition set_buf :: "nat \<Rightarrow> (buf \<Rightarrow> buf) \<Rightarrow> bstore \<Rightarrow> bstore" where
  "set_buf i f st = st\<lparr>bufs := map (\<lambda>b. if bid b = i then f b else b) (bufs st)\<rparr>"

definition get_buf :: "nat \<Rightarrow> bstore \<Rightarrow> buf option" where
  "get_buf i st = find (\<lambda>b. bid b = i) (bufs st)"

definition bget :: "32 word \<Rightarrow> sector \<Rightarrow> bstore \<Rightarrow> (nat \<times> bstore) outcome" where
  "bget dv s st =
     (case find (\<lambda>b. bdev b = dv \<and> bsector b = s) (bufs st) of
        Some b \<Rightarrow> if \<not> busy b then Ret (bid b, set_buf (bid b) (busy_update (\<lambda>_. True)) st) else Sleeps
      | None \<Rightarrow>
          (case find (\<lambda>b. \<not> busy b \<and> \<not> dirty b) (rev (bufs st)) of
             Some b \<Rightarrow> Ret (bid b, set_buf (bid b) (\<lambda>b. b\<lparr>bdev := dv, bsector := s, busy := True, valid := False, dirty := False\<rparr>) st)
           | None \<Rightarrow> Panic))"

definition iderw :: "nat \<Rightarrow> bstore \<Rightarrow> bstore outcome" where
  "iderw i st =
     (case get_buf i st of
        None \<Rightarrow> Panic
      | Some b \<Rightarrow>
          if \<not> busy b then Panic
          else if valid b \<and> \<not> dirty b then Panic
          else if bdev b \<noteq> 1 then Panic
          else if unat (bsector b) \<ge> disksize st then Panic
          else if dirty b
          then Ret (set_buf i (\<lambda>b. b\<lparr>dirty := False, valid := True\<rparr>) (st\<lparr>memdisk := (memdisk st)(bsector b := bdata b)\<rparr>))
          else Ret (set_buf i (\<lambda>c. c\<lparr>bdata := memdisk st (bsector b), valid := True\<rparr>) st))"

definition bread :: "32 word \<Rightarrow> sector \<Rightarrow> bstore \<Rightarrow> (nat \<times> bstore) outcome" where
  "bread dv s st = and_then (bget dv s st) (\<lambda>(i, st).
     case get_buf i st of
       None \<Rightarrow> Panic
     | Some b \<Rightarrow> if \<not> valid b then and_then (iderw i st) (\<lambda>st. Ret (i, st)) else Ret (i, st))"

definition bwrite :: "nat \<Rightarrow> bstore \<Rightarrow> bstore outcome" where
  "bwrite i st =
     (case get_buf i st of
        None \<Rightarrow> Panic
      | Some b \<Rightarrow> if \<not> busy b then Panic else iderw i (set_buf i (dirty_update (\<lambda>_. True)) st))"

definition brelse :: "nat \<Rightarrow> bstore \<Rightarrow> bstore outcome" where
  "brelse i st =
     (case get_buf i st of
        None \<Rightarrow> Panic
      | Some b \<Rightarrow> if \<not> busy b then Panic
          else Ret (st\<lparr>bufs := b\<lparr>busy := False\<rparr> # filter (\<lambda>c. bid c \<noteq> i) (bufs st)\<rparr>))"

section \<open>The cache agrees with the disk\<close>

text \<open>
  \<open>v\<close> is what the clients last put in each block of device 1. A block whose contents differ from the
  disk is in a buffer that is in use or pinned.
\<close>

definition cache_inv :: "bstore \<Rightarrow> disk \<Rightarrow> bool" where
  "cache_inv st v \<longleftrightarrow> distinct (map bid (bufs st)) \<and>
     (\<forall>b \<in> set (bufs st). \<forall>c \<in> set (bufs st). bdev b = 1 \<longrightarrow> bdev c = 1 \<longrightarrow> bsector b = bsector c \<longrightarrow> b = c) \<and>
     (\<forall>b \<in> set (bufs st). bdev b = 1 \<longrightarrow> valid b \<longrightarrow> bdata b = v (bsector b)) \<and>
     (\<forall>b \<in> set (bufs st). bdev b = 1 \<longrightarrow> \<not> busy b \<longrightarrow> valid b) \<and>
     (\<forall>s. memdisk st s = v s \<or> (\<exists>b \<in> set (bufs st). bdev b = 1 \<and> bsector b = s \<and> valid b \<and> (dirty b \<or> busy b)))"

lemma find_SomeD: "find P xs = Some x \<Longrightarrow> x \<in> set xs \<and> P x"
  by (induction xs) (auto split: if_splits)

lemma find_NoneD: "find P xs = None \<Longrightarrow> x \<in> set xs \<Longrightarrow> \<not> P x"
  by (auto simp: find_None_iff)

lemma get_buf_eq:
  assumes "distinct (map bid (bufs st))" "b \<in> set (bufs st)"
  shows "get_buf (bid b) st = Some b"
proof -
  have "get_buf (bid b) st \<noteq> None" using assms(2) by (auto simp: get_buf_def find_None_iff)
  then obtain c where c: "get_buf (bid b) st = Some c" by blast
  then have "c \<in> set (bufs st)" "bid c = bid b" using find_SomeD by (fastforce simp: get_buf_def)+
  then have "c = b" using assms by (metis distinct_map inj_onD)
  with c show ?thesis by simp
qed

lemma get_bufD: "get_buf i st = Some b \<Longrightarrow> b \<in> set (bufs st) \<and> bid b = i"
  using find_SomeD by (fastforce simp: get_buf_def)

lemma set_buf_members:
  assumes "distinct (map bid (bufs st))" "b \<in> set (bufs st)"
  shows "set (bufs (set_buf (bid b) f st)) = insert (f b) (set (bufs st) - {b})"
proof -
  have eq: "bid c = bid b \<longleftrightarrow> c = b" if "c \<in> set (bufs st)" for c using assms that by (metis distinct_map inj_onD)
  have "set (bufs (set_buf (bid b) f st)) = (\<lambda>c. if bid c = bid b then f c else c) ` set (bufs st)"
    by (simp add: set_buf_def)
  also have "\<dots> = (\<lambda>c. if c = b then f c else c) ` set (bufs st)" using eq by (intro image_cong) auto
  also have "\<dots> = insert (f b) (set (bufs st) - {b})" using assms(2) by auto
  finally show ?thesis .
qed

lemma set_buf_ids:
  assumes "\<And>b. bid (f b) = bid b"
  shows "map bid (bufs (set_buf i f st)) = map bid (bufs st)"
  using assms by (simp add: set_buf_def comp_def cong: if_cong)

text \<open>Replacing one buffer keeps the invariant when the new buffer fits the blocks' contents.\<close>

lemma cache_inv_set:
  assumes inv: "cache_inv st v" and b: "b \<in> set (bufs st)" and id: "\<And>c. bid (f c) = bid c"
    and key: "\<And>c. bdev (f b) = 1 \<Longrightarrow> c \<in> set (bufs st) \<Longrightarrow> bdev c = 1 \<Longrightarrow> bsector c = bsector (f b) \<Longrightarrow> c = b"
    and val: "bdev (f b) = 1 \<Longrightarrow> valid (f b) \<Longrightarrow> bdata (f b) = v' (bsector (f b))"
    and rel: "bdev (f b) = 1 \<Longrightarrow> \<not> busy (f b) \<Longrightarrow> valid (f b)"
    and other: "\<And>c. c \<in> set (bufs st) \<Longrightarrow> c \<noteq> b \<Longrightarrow> bdev c = 1 \<Longrightarrow> v' (bsector c) = v (bsector c)"
    and dsk: "\<And>s. dk s = v' s \<or> bdev (f b) = 1 \<and> bsector (f b) = s \<and> valid (f b) \<and> (dirty (f b) \<or> busy (f b)) \<or>
       (\<exists>c \<in> set (bufs st). c \<noteq> b \<and> bdev c = 1 \<and> bsector c = s \<and> valid c \<and> (dirty c \<or> busy c))"
  shows "cache_inv (set_buf (bid b) f (st\<lparr>memdisk := dk\<rparr>)) v'"
proof -
  note i = inv[unfolded cache_inv_def]
  have mem: "set (bufs (set_buf (bid b) f (st\<lparr>memdisk := dk\<rparr>))) = insert (f b) (set (bufs st) - {b})"
    using set_buf_members[of "st\<lparr>memdisk := dk\<rparr>" b f] i b by simp
  have ids: "distinct (map bid (bufs (set_buf (bid b) f (st\<lparr>memdisk := dk\<rparr>))))"
    using i by (simp add: set_buf_ids id)
  have md: "memdisk (set_buf (bid b) f (st\<lparr>memdisk := dk\<rparr>)) = dk" by (simp add: set_buf_def)
  have uniq: "\<forall>x \<in> insert (f b) (set (bufs st) - {b}). \<forall>y \<in> insert (f b) (set (bufs st) - {b}).
      bdev x = 1 \<longrightarrow> bdev y = 1 \<longrightarrow> bsector x = bsector y \<longrightarrow> x = y"
  proof (intro ballI impI)
    fix x y assume "x \<in> insert (f b) (set (bufs st) - {b})" "y \<in> insert (f b) (set (bufs st) - {b})"
      and *: "bdev x = 1" "bdev y = 1" "bsector x = bsector y"
    then consider "x = f b" "y = f b" | "x = f b" "y \<in> set (bufs st)" "y \<noteq> b" | "y = f b" "x \<in> set (bufs st)" "x \<noteq> b"
      | "x \<in> set (bufs st)" "y \<in> set (bufs st)" by blast
    then show "x = y" using * i key[of x] key[of y] by cases metis+
  qed
  have vals: "bdata c = v' (bsector c)" if "c \<in> insert (f b) (set (bufs st) - {b})" "bdev c = 1" "valid c" for c
    using that i val other[of c] by (cases "c = f b") auto
  have rels: "valid c" if "c \<in> insert (f b) (set (bufs st) - {b})" "bdev c = 1" "\<not> busy c" for c
    using that i rel by (cases "c = f b") auto
  have dsks: "dk s = v' s \<or> (\<exists>c \<in> insert (f b) (set (bufs st) - {b}). bdev c = 1 \<and> bsector c = s \<and> valid c \<and> (dirty c \<or> busy c))" for s
    using dsk[of s] by blast
  show ?thesis
    unfolding cache_inv_def mem md using ids uniq vals rels dsks by simp
qed

text \<open>What the clients do with the buffers: read a block into one, change its contents, write it
  through, pin it for a transaction (\<open>log_write\<close> marks it dirty), and release it once it is pinned or
  on the disk.\<close>

inductive bio_step :: "bstore \<times> disk \<Rightarrow> bstore \<times> disk \<Rightarrow> bool" where
  b_read: "bread 1 s st = Ret (i, st') \<Longrightarrow> bio_step (st, v) (st', v)"
| b_change: "get_buf i st = Some b \<Longrightarrow> busy b \<Longrightarrow> valid b \<Longrightarrow> bdev b = 1 \<Longrightarrow>
    bio_step (st, v) (set_buf i (bdata_update (\<lambda>_. x)) st, v(bsector b := x))"
| b_write: "bwrite i st = Ret st' \<Longrightarrow> get_buf i st = Some b \<Longrightarrow> valid b \<Longrightarrow> bio_step (st, v) (st', v)"
| b_pin: "get_buf i st = Some b \<Longrightarrow> busy b \<Longrightarrow> valid b \<Longrightarrow> bio_step (st, v) (set_buf i (dirty_update (\<lambda>_. True)) st, v)"
| b_release: "brelse i st = Ret st' \<Longrightarrow> get_buf i st = Some b \<Longrightarrow> valid b \<Longrightarrow> dirty b \<or> bdata b = memdisk st (bsector b) \<Longrightarrow>
    bio_step (st, v) (st', v)"

inductive bio_reach :: "bstore \<times> disk \<Rightarrow> bool" where
  boot: "bio_reach (binit dk n, dk)"
| step: "bio_reach x \<Longrightarrow> bio_step x y \<Longrightarrow> bio_reach y"

lemma cache_inv_get:
  assumes "cache_inv st v" "get_buf i st = Some b"
  shows "b \<in> set (bufs st)" "bid b = i"
    and "c \<in> set (bufs st) \<Longrightarrow> bdev b = 1 \<Longrightarrow> bdev c = 1 \<Longrightarrow> bsector c = bsector b \<Longrightarrow> c = b"
    and "bdev b = 1 \<Longrightarrow> valid b \<Longrightarrow> bdata b = v (bsector b)"
  using assms get_bufD[OF assms(2)] unfolding cache_inv_def by blast+

lemma cache_inv_disk:
  assumes "cache_inv st v"
  obtains "memdisk st s = v s" | c where "c \<in> set (bufs st)" "bdev c = 1" "bsector c = s" "valid c" "dirty c \<or> busy c"
  using assms unfolding cache_inv_def by blast

lemma cache_inv_disk_cases:
  "cache_inv st v \<Longrightarrow> memdisk st s = v s \<or> (\<exists>c \<in> set (bufs st). bdev c = 1 \<and> bsector c = s \<and> valid c \<and> (dirty c \<or> busy c))"
  unfolding cache_inv_def by blast

text \<open>A buffer that keeps its key and its contents and stays in use.\<close>

lemma cache_inv_keep:
  assumes inv: "cache_inv st v" and b: "b \<in> set (bufs st)" and id: "\<And>c. bid (f c) = bid c"
    and same: "bdev (f b) = bdev b" "bsector (f b) = bsector b" "bdata (f b) = bdata b" "valid (f b) = valid b"
    and use: "busy (f b) \<or> valid b" "busy b \<or> dirty b \<Longrightarrow> busy (f b) \<or> dirty (f b)"
  shows "cache_inv (set_buf (bid b) f st) v"
proof -
  have "cache_inv (set_buf (bid b) f (st\<lparr>memdisk := memdisk st\<rparr>)) v"
  proof (rule cache_inv_set[OF inv b id])
    fix s show "memdisk st s = v s \<or> bdev (f b) = 1 \<and> bsector (f b) = s \<and> valid (f b) \<and> (dirty (f b) \<or> busy (f b)) \<or>
       (\<exists>c \<in> set (bufs st). c \<noteq> b \<and> bdev c = 1 \<and> bsector c = s \<and> valid c \<and> (dirty c \<or> busy c))"
      using cache_inv_disk[OF inv, of s] same use by metis
  qed (use inv b same use in \<open>auto simp: cache_inv_def\<close>)
  then show ?thesis by simp
qed

lemma set_buf_set: "set_buf i f (set_buf i g st) = set_buf i (\<lambda>b. if bid (g b) = i then f (g b) else g b) st"
  by (simp add: set_buf_def comp_def)

text \<open>The branches of \<open>bread\<close>, with the buffer it returns.\<close>

lemma bread_hit:
  assumes inv: "cache_inv st v" and c: "find (\<lambda>b. bdev b = 1 \<and> bsector b = s) (bufs st) = Some b" and nb: "\<not> busy b"
  shows "bread 1 s st = Ret (bid b, set_buf (bid b) (busy_update (\<lambda>_. True)) st)"
    and "get_buf (bid b) (set_buf (bid b) (busy_update (\<lambda>_. True)) st) = Some (b\<lparr>busy := True\<rparr>)" and "valid b"
proof -
  have b: "b \<in> set (bufs st)" "bdev b = 1" "bsector b = s" using find_SomeD[OF c] by auto
  with nb inv show v: "valid b" by (simp add: cache_inv_def)
  have d: "distinct (map bid (bufs st))" using inv by (simp add: cache_inv_def)
  have "b\<lparr>busy := True\<rparr> \<in> set (bufs (set_buf (bid b) (busy_update (\<lambda>_. True)) st))"
    using set_buf_members[OF d b(1)] by simp
  then show g: "get_buf (bid b) (set_buf (bid b) (busy_update (\<lambda>_. True)) st) = Some (b\<lparr>busy := True\<rparr>)"
    using get_buf_eq[of "set_buf (bid b) (busy_update (\<lambda>_. True)) st" "b\<lparr>busy := True\<rparr>"] d by (simp add: set_buf_ids)
  show "bread 1 s st = Ret (bid b, set_buf (bid b) (busy_update (\<lambda>_. True)) st)"
    using c nb g v by (simp add: bread_def bget_def)
qed

definition recycled :: "disk \<Rightarrow> sector \<Rightarrow> buf \<Rightarrow> buf" where
  "recycled dk s b = b\<lparr>bdev := 1, bsector := s, busy := True, valid := True, dirty := False, bdata := dk s\<rparr>"

lemma bread_miss:
  assumes inv: "cache_inv st v" and c: "find (\<lambda>b. bdev b = 1 \<and> bsector b = s) (bufs st) = None"
    and f: "find (\<lambda>b. \<not> busy b \<and> \<not> dirty b) (rev (bufs st)) = Some b"
  shows "bread 1 s st = (if unat s < disksize st then Ret (bid b, set_buf (bid b) (recycled (memdisk st) s) st) else Panic)"
    and "get_buf (bid b) (set_buf (bid b) (recycled (memdisk st) s) st) = Some (recycled (memdisk st) s b)"
proof -
  let ?g = "\<lambda>b :: buf. b\<lparr>bdev := 1, bsector := s, busy := True, valid := False, dirty := False\<rparr>"
  have b: "b \<in> set (bufs st)" using find_SomeD[OF f] by auto
  have d: "distinct (map bid (bufs st))" using inv by (simp add: cache_inv_def)
  have "?g b \<in> set (bufs (set_buf (bid b) ?g st))" using set_buf_members[OF d b] by simp
  then have g: "get_buf (bid b) (set_buf (bid b) ?g st) = Some (?g b)"
    using get_buf_eq[of "set_buf (bid b) ?g st" "?g b"] d by (simp add: set_buf_ids)
  show "bread 1 s st = (if unat s < disksize st then Ret (bid b, set_buf (bid b) (recycled (memdisk st) s) st) else Panic)"
    using c f g by (simp add: bread_def bget_def iderw_def set_buf_def comp_def recycled_def if_distrib cong: if_cong)
  have "recycled (memdisk st) s b \<in> set (bufs (set_buf (bid b) (recycled (memdisk st) s) st))"
    using set_buf_members[OF d b] by simp
  then show "get_buf (bid b) (set_buf (bid b) (recycled (memdisk st) s) st) = Some (recycled (memdisk st) s b)"
    using get_buf_eq[of "set_buf (bid b) (recycled (memdisk st) s) st" "recycled (memdisk st) s b"] d
    by (simp add: set_buf_ids recycled_def)
qed

lemma bread_keeps:
  assumes inv: "cache_inv st v" and r: "bread 1 s st = Ret (i, st')"
  shows "cache_inv st' v \<and> (\<exists>b. get_buf i st' = Some b \<and> busy b \<and> valid b \<and> bdev b = 1 \<and> bsector b = s \<and> bdata b = v s)"
proof (cases "find (\<lambda>b. bdev b = 1 \<and> bsector b = s) (bufs st)")
  case (Some b)
  have nb: "\<not> busy b" using r Some by (auto simp: bread_def bget_def split: if_splits)
  have b: "b \<in> set (bufs st)" "bdev b = 1" "bsector b = s" using find_SomeD[OF Some] by auto
  note h = bread_hit[OF inv Some nb]
  have "cache_inv (set_buf (bid b) (busy_update (\<lambda>_. True)) st) v" by (rule cache_inv_keep[OF inv b(1)]) auto
  moreover have "bdata b = v s" using inv b h(3) by (auto simp: cache_inv_def)
  ultimately show ?thesis using r h b by auto
next
  case None
  then obtain b where f: "find (\<lambda>b. \<not> busy b \<and> \<not> dirty b) (rev (bufs st)) = Some b"
    using r by (auto simp: bread_def bget_def split: option.splits)
  have b: "b \<in> set (bufs st)" "\<not> busy b" "\<not> dirty b" using find_SomeD[OF f] by auto
  note m = bread_miss[OF inv None f]
  have no: "\<not> (bdev c = 1 \<and> bsector c = s)" if "c \<in> set (bufs st)" for c using find_NoneD[OF None that] .
  have vs: "memdisk st s = v s" using cache_inv_disk[OF inv, of s] no by metis
  have "cache_inv (set_buf (bid b) (recycled (memdisk st) s) (st\<lparr>memdisk := memdisk st\<rparr>)) v"
  proof (rule cache_inv_set[OF inv b(1)])
    fix t show "memdisk st t = v t \<or> bdev (recycled (memdisk st) s b) = 1 \<and> bsector (recycled (memdisk st) s b) = t \<and>
        valid (recycled (memdisk st) s b) \<and> (dirty (recycled (memdisk st) s b) \<or> busy (recycled (memdisk st) s b)) \<or>
       (\<exists>c \<in> set (bufs st). c \<noteq> b \<and> bdev c = 1 \<and> bsector c = t \<and> valid c \<and> (dirty c \<or> busy c))"
      using cache_inv_disk[OF inv, of t] b by metis
  qed (use no vs in \<open>auto simp: recycled_def\<close>)
  then show ?thesis using r m vs by (auto simp: recycled_def split: if_splits)
qed

lemma get_set_buf:
  assumes "distinct (map bid (bufs st))" "get_buf i st = Some b" "\<And>c. bid (f c) = bid c"
  shows "get_buf i (set_buf i f st) = Some (f b)"
proof -
  have b: "b \<in> set (bufs st)" "bid b = i" using get_bufD[OF assms(2)] by auto
  have "f b \<in> set (bufs (set_buf i f st))" using set_buf_members[OF assms(1) b(1), of f] b(2) by simp
  then show ?thesis using get_buf_eq[of "set_buf i f st" "f b"] assms(1,3) b(2) by (simp add: set_buf_ids)
qed

lemma bwrite_ret:
  assumes inv: "cache_inv st v" and b: "get_buf i st = Some b" and r: "bwrite i st = Ret st'"
  shows "busy b" "bdev b = 1"
    "st' = set_buf i (\<lambda>b. b\<lparr>dirty := False, valid := True\<rparr>) (st\<lparr>memdisk := (memdisk st)(bsector b := bdata b)\<rparr>)"
proof -
  have d: "distinct (map bid (bufs st))" using inv by (simp add: cache_inv_def)
  note g = get_set_buf[OF d b, of "dirty_update (\<lambda>_. True)"]
  show "busy b" "bdev b = 1" using r b g by (auto simp: bwrite_def iderw_def split: if_splits)
  show "st' = set_buf i (\<lambda>b. b\<lparr>dirty := False, valid := True\<rparr>) (st\<lparr>memdisk := (memdisk st)(bsector b := bdata b)\<rparr>)"
    using r b g by (auto simp: bwrite_def iderw_def set_buf_def comp_def split: if_splits)
qed

lemma bwrite_keeps:
  assumes inv: "cache_inv st v" and b: "get_buf i st = Some b" "valid b" and r: "bwrite i st = Ret st'"
  shows "cache_inv st' v"
proof -
  note w = bwrite_ret[OF inv b(1) r] and g = cache_inv_get[OF inv b(1)]
  have "cache_inv (set_buf (bid b) (\<lambda>b. b\<lparr>dirty := False, valid := True\<rparr>) (st\<lparr>memdisk := (memdisk st)(bsector b := bdata b)\<rparr>)) v"
  proof (rule cache_inv_set[OF inv g(1)])
    fix t show "((memdisk st)(bsector b := bdata b)) t = v t \<or>
        bdev (b\<lparr>dirty := False, valid := True\<rparr>) = 1 \<and> bsector (b\<lparr>dirty := False, valid := True\<rparr>) = t \<and>
        valid (b\<lparr>dirty := False, valid := True\<rparr>) \<and> (dirty (b\<lparr>dirty := False, valid := True\<rparr>) \<or> busy (b\<lparr>dirty := False, valid := True\<rparr>)) \<or>
       (\<exists>c \<in> set (bufs st). c \<noteq> b \<and> bdev c = 1 \<and> bsector c = t \<and> valid c \<and> (dirty c \<or> busy c))"
      using cache_inv_disk_cases[OF inv, of t] w(2) g(4) b(2) by (cases "t = bsector b") auto
  qed (use g b w in auto)
  then show ?thesis using w g(2) by simp
qed

lemma change_keeps:
  assumes inv: "cache_inv st v" and b: "get_buf i st = Some b" "busy b" "valid b" "bdev b = 1"
  shows "cache_inv (set_buf i (bdata_update (\<lambda>_. x)) st) (v(bsector b := x))"
proof -
  note g = cache_inv_get[OF inv b(1)]
  have "cache_inv (set_buf (bid b) (bdata_update (\<lambda>_. x)) (st\<lparr>memdisk := memdisk st\<rparr>)) (v(bsector b := x))"
  proof (rule cache_inv_set[OF inv g(1)])
    fix t
    show "memdisk st t = (v(bsector b := x)) t \<or>
        bdev (b\<lparr>bdata := x\<rparr>) = 1 \<and> bsector (b\<lparr>bdata := x\<rparr>) = t \<and> valid (b\<lparr>bdata := x\<rparr>) \<and> (dirty (b\<lparr>bdata := x\<rparr>) \<or> busy (b\<lparr>bdata := x\<rparr>)) \<or>
       (\<exists>c \<in> set (bufs st). c \<noteq> b \<and> bdev c = 1 \<and> bsector c = t \<and> valid c \<and> (dirty c \<or> busy c))"
      using cache_inv_disk_cases[OF inv, of t] b(2,3,4) by (cases "t = bsector b") auto
  qed (use g b in auto)
  then show ?thesis using g(2) by simp
qed

lemma pin_keeps:
  assumes inv: "cache_inv st v" and b: "get_buf i st = Some b" "busy b" "valid b"
  shows "cache_inv (set_buf i (dirty_update (\<lambda>_. True)) st) v"
  using cache_inv_keep[OF inv cache_inv_get(1)[OF inv b(1)], of "dirty_update (\<lambda>_. True)"] b cache_inv_get(2)[OF inv b(1)] by simp

lemma brelse_ret:
  assumes "get_buf i st = Some b" "brelse i st = Ret st'"
  shows "busy b" "st' = st\<lparr>bufs := b\<lparr>busy := False\<rparr> # filter (\<lambda>c. bid c \<noteq> i) (bufs st)\<rparr>"
  using assms by (auto simp: brelse_def split: if_splits)

text \<open>The order of the list does not matter to the invariant.\<close>

lemma cache_inv_order:
  assumes "set (bufs st') = set (bufs st)" "distinct (map bid (bufs st'))" "memdisk st' = memdisk st" "cache_inv st v"
  shows "cache_inv st' v"
  using assms unfolding cache_inv_def by simp

lemma brelse_keeps:
  assumes inv: "cache_inv st v" and b: "get_buf i st = Some b" "valid b" "dirty b \<or> bdata b = memdisk st (bsector b)"
    and r: "brelse i st = Ret st'"
  shows "cache_inv st' v"
proof -
  note w = brelse_ret[OF b(1) r] and g = cache_inv_get[OF inv b(1)]
  let ?f = "busy_update (\<lambda>_. False)"
  have d: "distinct (map bid (bufs st))" using inv by (simp add: cache_inv_def)
  have i: "cache_inv (set_buf (bid b) ?f (st\<lparr>memdisk := memdisk st\<rparr>)) v"
  proof (rule cache_inv_set[OF inv g(1)])
    fix t
    show "memdisk st t = v t \<or> bdev (?f b) = 1 \<and> bsector (?f b) = t \<and> valid (?f b) \<and> (dirty (?f b) \<or> busy (?f b)) \<or>
       (\<exists>c \<in> set (bufs st). c \<noteq> b \<and> bdev c = 1 \<and> bsector c = t \<and> valid c \<and> (dirty c \<or> busy c))"
      using cache_inv_disk_cases[OF inv, of t] b(2,3) g(4) by (cases "bdev b = 1 \<and> bsector b = t") auto
  qed (use inv g b in \<open>auto simp: cache_inv_def\<close>)
  have "bid c \<noteq> bid b \<longleftrightarrow> c \<noteq> b" if "c \<in> set (bufs st)" for c using d that g(1) by (metis distinct_map inj_onD)
  then have "set (filter (\<lambda>c. bid c \<noteq> bid b) (bufs st)) = set (bufs st) - {b}" by auto
  then have mem: "set (bufs st') = set (bufs (set_buf (bid b) ?f st))"
    using set_buf_members[OF d g(1), of ?f] w(2) g(2) by simp
  have dist: "distinct (map bid (bufs st'))"
    using d w(2) g(2) distinct_filter[of "map bid (bufs st)" "\<lambda>j. j \<noteq> i"] by (auto simp: filter_map comp_def)
  show ?thesis
    by (rule cache_inv_order[OF mem dist _ i[simplified]]) (simp add: w(2) set_buf_def)
qed

lemma bio_step_inv: "bio_step x y \<Longrightarrow> cache_inv (fst x) (snd x) \<Longrightarrow> cache_inv (fst y) (snd y)"
proof (induction rule: bio_step.induct)
  case (b_read s st i st' v)
  then show ?case using bread_keeps[of st v s i st'] by simp
next
  case (b_change i st b v x)
  then show ?case using change_keeps[of st v i b x] by (simp only: fst_conv snd_conv)
next
  case (b_write i st st' b v)
  then show ?case using bwrite_keeps[of st v i b st'] by simp
next
  case (b_pin i st b v)
  then show ?case using pin_keeps[of st v i b] by simp
next
  case (b_release i st st' b v)
  then show ?case using brelse_keeps[of st v i b st'] by simp
qed

lemma binit_inv: "cache_inv (binit dk n) dk"
  by (auto simp: cache_inv_def binit_def new_buf_def comp_def rev_map[symmetric])

lemma bio_reach_inv: "bio_reach x \<Longrightarrow> cache_inv (fst x) (snd x)"
  by (induction rule: bio_reach.induct) (simp add: binit_inv, blast intro: bio_step_inv)

text \<open>C19: the buffer cache is coherent. In every state the clients reach by reading, changing, writing,
  pinning and releasing buffers, \<open>bread\<close> of a block returns a locked buffer that holds what was last
  put in that block, whether it comes from the cache, from a recycled buffer or from the disk; no
  buffer that the cache recycled for it lost a change; and the block has no second buffer.\<close>

theorem bread_coherent:
  assumes "bio_reach (st, v)" "bread 1 s st = Ret (i, st')"
  shows "(\<exists>b. get_buf i st' = Some b \<and> busy b \<and> valid b \<and> bsector b = s \<and> bdata b = v s)
    \<and> bio_reach (st', v)
    \<and> (\<forall>t. memdisk st' t = v t \<or> (\<exists>b \<in> set (bufs st'). bdev b = 1 \<and> bsector b = t \<and> bdata b = v t))
    \<and> (\<forall>b \<in> set (bufs st'). \<forall>c \<in> set (bufs st'). bdev b = 1 \<longrightarrow> bdev c = 1 \<longrightarrow> bsector b = bsector c \<longrightarrow> b = c)"
proof -
  note k = bread_keeps[OF bio_reach_inv[OF assms(1), simplified] assms(2)]
  have "bio_reach (st', v)" using assms by (blast intro: bio_reach.step bio_step.b_read)
  moreover have "memdisk st' t = v t \<or> (\<exists>b \<in> set (bufs st'). bdev b = 1 \<and> bsector b = t \<and> bdata b = v t)" for t
    using cache_inv_disk_cases[OF conjunct1[OF k], of t] conjunct1[OF k] unfolding cache_inv_def by blast
  moreover have "\<forall>b \<in> set (bufs st'). \<forall>c \<in> set (bufs st'). bdev b = 1 \<longrightarrow> bdev c = 1 \<longrightarrow> bsector b = bsector c \<longrightarrow> b = c"
    using conjunct1[OF k] unfolding cache_inv_def by blast
  ultimately show ?thesis using k by blast
qed

theorem bread_coherent_witness:
  fixes dk :: disk
  defines "dk \<equiv> \<lambda>s. [ucast s]"
  shows "\<exists>i st' b. bread 1 5 (binit dk 100) = Ret (i, st') \<and> get_buf i st' = Some b \<and> bdata b = [5] \<and> bio_reach (st', dk)"
proof -
  have "(case bread 1 5 (binit dk 100) of Ret (i, st') \<Rightarrow> i = 0 | _ \<Rightarrow> False)"
    by (simp add: bread_def bget_def binit_def NBUF_def new_buf_def upt_rec iderw_def set_buf_def get_buf_def)
  then obtain i st' where r: "bread 1 5 (binit dk 100) = Ret (i, st')" by (auto split: outcome.splits)
  show ?thesis using bread_coherent[OF bio_reach.boot r] r by (auto simp: dk_def)
qed

end
