(* ===== verification/Log.thy ===== *)
theory Log
  imports Bio
begin

text \<open>
  The write-ahead log of the file system (src/src/log.c). The buffer cache is seen through its
  contract, which \<open>bread_refines\<close> and \<open>bwrite_refines\<close> show of the model of bio.c: \<open>bread_data\<close> gives
  the current contents of a block, \<open>bwrite_data\<close> puts a block on the disk, and blocks changed by a transaction stay in the cache until they are installed. The trace of the
  blocks put on the disk is what a crash can cut short. None is a panic or an access outside of an
  array. Waiting for the log to become free is not modelled: \<open>begin_trans\<close> is a step that is
  possible when no transaction is active.
\<close>

record dev =
  disk :: disk
  cache :: "sector \<rightharpoonup> block"
  trace :: "(sector \<times> block) list"

definition bread_data :: "sector \<Rightarrow> dev \<Rightarrow> block" where
  "bread_data s d = (case cache d s of Some b \<Rightarrow> b | None \<Rightarrow> disk d s)"

definition bwrite_data :: "sector \<Rightarrow> block \<Rightarrow> dev \<Rightarrow> dev" where
  "bwrite_data s b d = d\<lparr>disk := (disk d)(s := b), cache := (cache d)(s := None), trace := trace d @ [(s, b)]\<rparr>"

text \<open>The buffer cache implements the contract, for the contents \<open>v\<close> of the blocks.\<close>

definition dev_of :: "bstore \<Rightarrow> disk \<Rightarrow> (sector \<times> block) list \<Rightarrow> dev" where
  "dev_of st v tr = \<lparr>disk = memdisk st, cache = (\<lambda>s. if memdisk st s = v s then None else Some (v s)), trace = tr\<rparr>"

lemma bread_refines:
  assumes "cache_inv st v" "bread 1 s st = Ret (i, st')" "get_buf i st' = Some b"
  shows "bread_data s (dev_of st v tr) = bdata b" and "cache_inv st' v"
  using bread_keeps[OF assms(1,2)] assms(3) by (auto simp: bread_data_def dev_of_def)

lemma bwrite_refines:
  assumes "cache_inv st v" "get_buf i st = Some b" "valid b" "bwrite i st = Ret st'"
  shows "dev_of st' v (tr @ [(bsector b, bdata b)]) = bwrite_data (bsector b) (bdata b) (dev_of st v tr)"
    and "cache_inv st' v"
proof -
  note w = bwrite_ret[OF assms(1,2,4)] and g = cache_inv_get[OF assms(1,2)]
  show "dev_of st' v (tr @ [(bsector b, bdata b)]) = bwrite_data (bsector b) (bdata b) (dev_of st v tr)"
    using w g(4) assms(3) by (auto simp: dev_of_def bwrite_data_def set_buf_def fun_eq_iff)
  show "cache_inv st' v" by (rule bwrite_keeps[OF assms(1-4)])
qed

definition LOGSIZE :: int where "LOGSIZE = 10"

record log =
  lstart :: sector
  lsize :: int
  lbusy :: bool
  lhn :: int
  lsec :: "sector list"

definition install_block :: "log \<Rightarrow> int \<Rightarrow> dev \<Rightarrow> dev option" where
  "install_block m tail d = do {
     let lbuf = bread_data (lstart m + word_of_int tail + 1) d;
     s \<leftarrow> rd (lsec m) tail;
     Some (bwrite_data s lbuf d)
   }"

function install_loop :: "log \<Rightarrow> int \<Rightarrow> dev \<Rightarrow> dev option" where
  "install_loop m tail d =
     (if tail < lhn m then (case install_block m tail d of None \<Rightarrow> None | Some d' \<Rightarrow> install_loop m (tail + 1) d') else Some d)"
  by pat_completeness auto
termination by (relation "measure (\<lambda>(m, tail, d). nat (lhn m - tail))") auto

definition install_trans :: "log \<Rightarrow> dev \<Rightarrow> dev option" where
  "install_trans m d = install_loop m 0 d"

function read_sectors :: "block \<Rightarrow> int \<Rightarrow> int \<Rightarrow> sector list \<Rightarrow> sector list option" where
  "read_sectors b i n secs =
     (if i < n then (case load32 b (nat (4 + 4 * i)) of None \<Rightarrow> None
        | Some s \<Rightarrow> (case wr secs i s of None \<Rightarrow> None | Some secs' \<Rightarrow> read_sectors b (i + 1) n secs')) else Some secs)"
  by pat_completeness auto
termination by (relation "measure (\<lambda>(b, i, n, secs). nat (n - i))") auto

definition read_head :: "log \<Rightarrow> dev \<Rightarrow> log option" where
  "read_head m d = do {
     let buf = bread_data (lstart m) d;
     n \<leftarrow> load32 buf 0;
     secs \<leftarrow> read_sectors buf 0 (sint n) (lsec m);
     Some (m\<lparr>lhn := sint n, lsec := secs\<rparr>)
   }"

function write_sectors :: "block \<Rightarrow> int \<Rightarrow> int \<Rightarrow> sector list \<Rightarrow> block option" where
  "write_sectors b i n secs =
     (if i < n then (case rd secs i of None \<Rightarrow> None
        | Some s \<Rightarrow> (case store32 b (nat (4 + 4 * i)) s of None \<Rightarrow> None | Some b' \<Rightarrow> write_sectors b' (i + 1) n secs)) else Some b)"
  by pat_completeness auto
termination by (relation "measure (\<lambda>(b, i, n, secs). nat (n - i))") auto

definition write_head :: "log \<Rightarrow> dev \<Rightarrow> dev option" where
  "write_head m d = do {
     let buf = bread_data (lstart m) d;
     buf \<leftarrow> store32 buf 0 (word_of_int (lhn m));
     buf \<leftarrow> write_sectors buf 0 (lhn m) (lsec m);
     Some (bwrite_data (lstart m) buf d)
   }"

definition recover_from_log :: "log \<Rightarrow> dev \<Rightarrow> (log \<times> dev) option" where
  "recover_from_log m d = do {
     m \<leftarrow> read_head m d;
     d \<leftarrow> install_trans m d;
     let m = m\<lparr>lhn := 0\<rparr>;
     d \<leftarrow> write_head m d;
     Some (m, d)
   }"

text \<open>The fields of the super block that \<^verbatim>\<open>initlog\<close> reads; \<open>m\<close> is the zeroed static variable.\<close>

definition initlog :: "log \<Rightarrow> dev \<Rightarrow> (log \<times> dev) option" where
  "initlog m d = do {
     let sb = bread_data 1 d;
     total \<leftarrow> load32 sb 0;
     nlog \<leftarrow> load32 sb 12;
     recover_from_log (m\<lparr>lstart := total - nlog, lsize := sint nlog\<rparr>) d
   }"

definition begin_trans :: "log \<Rightarrow> log option" where
  "begin_trans m = (if lbusy m then None else Some (m\<lparr>lbusy := True\<rparr>))"

definition commit_trans :: "log \<Rightarrow> dev \<Rightarrow> (log \<times> dev) option" where
  "commit_trans m d = do {
     (m, d) \<leftarrow> (if lhn m > 0 then do {
         d \<leftarrow> write_head m d;
         d \<leftarrow> install_trans m d;
         let m = m\<lparr>lhn := 0\<rparr>;
         d \<leftarrow> write_head m d;
         Some (m, d)
       } else Some (m, d));
     Some (m\<lparr>lbusy := False\<rparr>, d)
   }"

text \<open>The search of \<^verbatim>\<open>log_write\<close> for a slot of the same sector.\<close>

function find_slot :: "log \<Rightarrow> sector \<Rightarrow> int \<Rightarrow> int option" where
  "find_slot m s i =
     (if i < lhn m then (case rd (lsec m) i of None \<Rightarrow> None | Some x \<Rightarrow> if x = s then Some i else find_slot m s (i + 1)) else Some i)"
  by pat_completeness auto
termination by (relation "measure (\<lambda>(m, s, i). nat (lhn m - i))") auto

definition log_write :: "sector \<Rightarrow> block \<Rightarrow> log \<Rightarrow> dev \<Rightarrow> (log \<times> dev) option" where
  "log_write s b m d =
     (if lhn m \<ge> LOGSIZE \<or> lhn m \<ge> lsize m - 1 then None
      else if \<not> lbusy m then None
      else do {
        i \<leftarrow> find_slot m s 0;
        secs \<leftarrow> wr (lsec m) i s;
        let m = m\<lparr>lsec := secs\<rparr>;
        let d = bwrite_data (lstart m + word_of_int i + 1) b d;
        let m = (if i = lhn m then m\<lparr>lhn := lhn m + 1\<rparr> else m);
        Some (m, d\<lparr>cache := (cache d)(s \<mapsto> b)\<rparr>)
      })"

declare install_loop.simps [simp del] read_sectors.simps [simp del] write_sectors.simps [simp del] find_slot.simps [simp del]

text \<open>A transaction that writes the blocks \<open>us\<close> in order.\<close>

fun log_writes :: "(sector \<times> block) list \<Rightarrow> log \<Rightarrow> dev \<Rightarrow> (log \<times> dev) option" where
  "log_writes [] m d = Some (m, d)"
| "log_writes ((s, b) # us) m d = do { (m, d) \<leftarrow> log_write s b m d; log_writes us m d }"

definition transaction :: "(sector \<times> block) list \<Rightarrow> log \<Rightarrow> dev \<Rightarrow> (log \<times> dev) option" where
  "transaction us m d = do { m \<leftarrow> begin_trans m; (m, d) \<leftarrow> log_writes us m d; commit_trans m d }"

section \<open>The header block\<close>

text \<open>The block is a log header that lists the sectors \<open>ss\<close>.\<close>

definition header_is :: "block \<Rightarrow> sector list \<Rightarrow> bool" where
  "header_is b ss \<longleftrightarrow> length b = BSIZE \<and> length ss \<le> 10 \<and> load32 b 0 = Some (of_nat (length ss)) \<and>
     (\<forall>i < length ss. load32 b (4 + 4 * i) = Some (ss ! i))"

lemma write_sectors_entries:
  assumes "n \<le> 10" "n \<le> length secs"
  shows "i \<le> n \<Longrightarrow> length b = BSIZE \<Longrightarrow> \<exists>b'. write_sectors b (int i) (int n) secs = Some b' \<and> length b' = BSIZE \<and>
    (\<forall>p < 4 + 4 * i. b' ! p = b ! p) \<and> (\<forall>j. i \<le> j \<longrightarrow> j < n \<longrightarrow> load32 b' (4 + 4 * j) = Some (secs ! j))"
proof (induction "n - i" arbitrary: i b)
  case 0
  then show ?case by (simp add: write_sectors.simps)
next
  case (Suc k)
  let ?b = "blit b (4 + 4 * i) (le32 (secs ! i))"
  have i: "i < n" and k: "k = n - Suc i" using Suc.hyps(2) by auto
  then have fit: "4 + 4 * i + 4 \<le> length b" using Suc.prems assms by (simp add: BSIZE_def)
  have "nat (4 + 4 * int i) = 4 + 4 * i" by simp
  then have step: "write_sectors b (int i) (int n) secs = write_sectors ?b (int (Suc i)) (int n) secs"
    using i assms fit by (subst write_sectors.simps) (simp add: store32_blit add.commute)
  have len: "length ?b = BSIZE" using fit Suc.prems(2) by simp
  from Suc.hyps(1)[OF k _ len] i obtain b' where b': "write_sectors ?b (int (Suc i)) (int n) secs = Some b'" "length b' = BSIZE"
    "\<forall>p < 4 + 4 * Suc i. b' ! p = ?b ! p" "\<forall>j. Suc i \<le> j \<longrightarrow> j < n \<longrightarrow> load32 b' (4 + 4 * j) = Some (secs ! j)"
    by auto
  have "load32 b' (4 + 4 * i) = load32 ?b (4 + 4 * i)"
    using b'(2,3) len fit Suc.prems(2) by (simp add: load32_def rd_def nat_add_distrib nat_mult_distrib)
  also have "\<dots> = Some (secs ! i)" using fit by (rule load32_blit_same)
  finally have "load32 b' (4 + 4 * i) = Some (secs ! i)" .
  with b'(4) have "\<forall>j. i \<le> j \<longrightarrow> j < n \<longrightarrow> load32 b' (4 + 4 * j) = Some (secs ! j)"
    by (metis Suc_leI le_neq_implies_less)
  moreover have "\<forall>p < 4 + 4 * i. b' ! p = b ! p"
    using b'(3) fit by (simp add: nth_blit_other)
  ultimately show ?case using step b'(1,2) by auto
qed

lemma write_head_entries:
  assumes "length (bread_data (lstart m) d) = BSIZE" "lhn m = int n" "n \<le> 10" "n \<le> length (lsec m)"
  shows "\<exists>b. write_head m d = Some (bwrite_data (lstart m) b d) \<and> header_is b (take n (lsec m))"
proof -
  let ?h = "bread_data (lstart m) d"
  let ?b = "blit ?h 0 (le32 (of_nat n))"
  have fit: "0 + 4 \<le> length ?h" using assms(1) by (simp add: BSIZE_def)
  have st: "store32 ?h 0 (word_of_int (lhn m)) = Some ?b" using store32_blit[OF fit] assms(2) by simp
  have len: "length ?b = BSIZE" using fit assms(1) by simp
  from write_sectors_entries[OF assms(3,4) le0 len] obtain b' where b': "write_sectors ?b 0 (int n) (lsec m) = Some b'"
    "length b' = BSIZE" "\<forall>p < 4. b' ! p = ?b ! p" "\<forall>j < n. load32 b' (4 + 4 * j) = Some (lsec m ! j)"
    by auto
  have "load32 b' 0 = load32 ?b 0" using b'(2,3) len by (simp add: load32_def rd_def BSIZE_def)
  also have "\<dots> = Some (of_nat n)" using fit by (rule load32_blit_same)
  finally have "header_is b' (take n (lsec m))" using b' assms(3,4) by (simp add: header_is_def)
  with st b'(1) assms(2) show ?thesis by (auto simp: write_head_def)
qed

lemma read_sectors_entries:
  assumes "\<And>j. j < n \<Longrightarrow> load32 b (4 + 4 * j) = Some (ss ! j)" "n \<le> 10"
  shows "i \<le> n \<Longrightarrow> length secs = 10 \<Longrightarrow> take i secs = take i ss \<Longrightarrow> length ss = n \<Longrightarrow>
    \<exists>secs'. read_sectors b (int i) (int n) secs = Some secs' \<and> length secs' = 10 \<and> take n secs' = ss"
proof (induction "n - i" arbitrary: i secs)
  case 0
  then show ?case by (simp add: read_sectors.simps)
next
  case (Suc k)
  have i: "i < n" and k: "k = n - Suc i" using Suc.hyps(2) by auto
  have "nat (4 + 4 * int i) = 4 + 4 * i" by simp
  then have step: "read_sectors b (int i) (int n) secs = read_sectors b (int (Suc i)) (int n) (secs[i := ss ! i])"
    using i assms Suc.prems by (subst read_sectors.simps) (simp add: add.commute)
  have "take (Suc i) (secs[i := ss ! i]) = take (Suc i) ss"
    using i Suc.prems assms(2) by (simp add: take_Suc_conv_app_nth)
  with Suc.hyps(1)[OF k, of "secs[i := ss ! i]"] i Suc.prems step show ?case by simp
qed

lemma read_head_entries:
  assumes "header_is (bread_data (lstart m) d) ss" "length (lsec m) = 10"
  shows "\<exists>secs. read_head m d = Some (m\<lparr>lhn := int (length ss), lsec := secs\<rparr>) \<and> length secs = 10 \<and> take (length ss) secs = ss"
proof -
  have "sint (of_nat (length ss) :: 32 word) = int (length ss)"
    using assms(1) sint_sbintrunc'[of "int (length ss)", where 'a = 32]
    by (simp add: header_is_def signed_take_bit_int_eq_self)
  with read_sectors_entries[of "length ss" "bread_data (lstart m) d" ss 0 "lsec m"] assms show ?thesis
    by (auto simp: read_head_def header_is_def)
qed

section \<open>Disks that recover to given contents\<close>

text \<open>The log area: the header and up to ten log blocks.\<close>

definition slot :: "sector \<Rightarrow> nat \<Rightarrow> sector" where
  "slot st i = st + of_nat i + 1"

definition log_area :: "sector \<Rightarrow> sector set" where
  "log_area st = insert st (slot st ` {0..<10})"

lemma slot_inj: "i < 10 \<Longrightarrow> j < 10 \<Longrightarrow> slot st i = slot st j \<longleftrightarrow> i = j"
  by (simp add: slot_def word_of_nat_eq_iff take_bit_nat_eq_self)

lemma slot_not_start [simp]: "i < 10 \<Longrightarrow> slot st i \<noteq> st"
proof -
  assume "i < 10"
  then have "unat (of_nat (Suc i) :: 32 word) = Suc i" by (simp only: unat_of_nat) simp
  then have "(of_nat (Suc i) :: 32 word) \<noteq> 0" by auto
  then show ?thesis by (simp add: slot_def add.assoc add.commute)
qed

lemma slot_in_area [simp]: "i < 10 \<Longrightarrow> slot st i \<in> log_area st"
  by (simp add: log_area_def)

definition home_sectors :: "sector \<Rightarrow> sector list \<Rightarrow> bool" where
  "home_sectors st ss \<longleftrightarrow> distinct ss \<and> length ss \<le> 10 \<and> set ss \<inter> log_area st = {}"

text \<open>The contents of a home block after recovery.\<close>

definition view :: "sector \<Rightarrow> disk \<Rightarrow> sector list \<Rightarrow> disk" where
  "view st d ss s = (case map_of (zip ss (map (\<lambda>i. d (slot st i)) [0..<length ss])) s of Some b \<Rightarrow> b | None \<Rightarrow> d s)"

lemma view_entry:
  assumes "distinct ss" "i < length ss"
  shows "view st d ss (ss ! i) = d (slot st i)"
proof -
  have "map_of (zip ss (map (\<lambda>i. d (slot st i)) [0..<length ss])) (ss ! i) = Some (d (slot st i))"
    using assms by (subst map_of_zip_nth) auto
  then show ?thesis by (simp add: view_def)
qed

lemma view_other: "s \<notin> set ss \<Longrightarrow> view st d ss s = d s"
proof -
  assume "s \<notin> set ss"
  then have "map_of (zip ss (map (\<lambda>i. d (slot st i)) [0..<length ss])) s = None" by (subst map_of_zip_is_None) simp_all
  then show ?thesis by (simp only: view_def option.case)
qed

definition recovers :: "sector \<Rightarrow> disk \<Rightarrow> disk \<Rightarrow> bool" where
  "recovers st d v \<longleftrightarrow> (\<exists>ss. header_is (d st) ss \<and> home_sectors st ss \<and> (\<forall>s. s \<notin> log_area st \<longrightarrow> view st d ss s = v s))"

text \<open>Every disk on the way through the writes \<open>ws\<close> recovers to \<open>v\<close>.\<close>

definition put1 :: "sector \<times> block \<Rightarrow> disk \<Rightarrow> disk" where
  "put1 w d = d(fst w := snd w)"

fun all_recover :: "sector \<Rightarrow> disk \<Rightarrow> (sector \<times> block) list \<Rightarrow> disk \<Rightarrow> bool" where
  "all_recover st d [] v = recovers st d v"
| "all_recover st d (w # ws) v \<longleftrightarrow> recovers st d v \<and> all_recover st (put1 w d) ws v"

lemma all_recover_first: "all_recover st d ws v \<Longrightarrow> recovers st d v"
  by (cases ws) auto

lemma all_recover_append:
  "all_recover st d (ws @ ws') v \<longleftrightarrow> all_recover st d ws v \<and> all_recover st (fold put1 ws d) ws' v"
  by (induction ws arbitrary: d) (auto dest: all_recover_first)

lemma all_recover_prefix: "all_recover st d ws v \<Longrightarrow> recovers st (fold put1 (take k ws) d) v"
proof (induction ws arbitrary: d k)
  case (Cons w ws)
  then show ?case by (cases k) auto
qed simp

lemma installed_view:
  assumes "distinct ss" "\<And>j. j < length ss \<Longrightarrow> d (ss ! j) = d (slot st j)"
  shows "view st d ss s = d s"
proof (cases "s \<in> set ss")
  case True
  then obtain j where "j < length ss" "s = ss ! j" by (metis in_set_conv_nth)
  then show ?thesis using assms(2)[of j] view_entry[OF assms(1), of j st d] by simp
qed (rule view_other)

text \<open>Installing one entry changes neither the log area nor what recovery gives.\<close>

lemma install_one:
  fixes d :: dev
  assumes "home_sectors st ss" "i < length ss"
  defines "d' \<equiv> bwrite_data (ss ! i) (disk d (slot st i)) d"
  shows "s \<in> log_area st \<Longrightarrow> disk d' s = disk d s" "view st (disk d') ss s = view st (disk d) ss s"
proof -
  have dist: "distinct ss" and len: "length ss \<le> 10" and out: "set ss \<inter> log_area st = {}"
    using assms(1) by (auto simp: home_sectors_def)
  have "ss ! i \<notin> log_area st" using out assms(2) by (auto dest: nth_mem)
  then have same: "disk d' x = disk d x" if "x \<in> log_area st" for x using that by (auto simp: d'_def bwrite_data_def)
  then show "s \<in> log_area st \<Longrightarrow> disk d' s = disk d s" .
  show "view st (disk d') ss s = view st (disk d) ss s"
  proof (cases "s \<in> set ss")
    case True
    then obtain j where j: "j < length ss" "s = ss ! j" by (metis in_set_conv_nth)
    then show ?thesis using view_entry[OF dist, of j st] same[of "slot st j"] len by simp
  next
    case False
    then show ?thesis using view_other[OF False, of st] assms(2) by (auto simp: d'_def bwrite_data_def)
  qed
qed

lemma install_block_step:
  assumes "lstart m = st" "lhn m = int (length ss)" "take (length ss) (lsec m) = ss" "i < length ss" "cache d (slot st i) = None"
  shows "install_loop m (int i) d = install_loop m (int (Suc i)) (bwrite_data (ss ! i) (disk d (slot st i)) d)"
proof -
  have "lsec m ! i = ss ! i" "i < length (lsec m)"
    using arg_cong[OF assms(3), of "\<lambda>xs. xs ! i"] arg_cong[OF assms(3), of length] assms(4) by auto
  then have "install_block m (int i) d = Some (bwrite_data (ss ! i) (disk d (slot st i)) d)"
    using assms(1,5) by (simp add: install_block_def bread_data_def slot_def)
  then show ?thesis using assms(2,4) by (subst install_loop.simps) (simp add: add.commute)
qed

lemma install_loop_recovers:
  assumes m: "lstart m = st" "lhn m = int (length ss)" "take (length ss) (lsec m) = ss" and home: "home_sectors st ss"
  shows "i \<le> length ss \<Longrightarrow> header_is (disk d st) ss \<Longrightarrow> (\<And>s. s \<in> log_area st \<Longrightarrow> cache d s = None) \<Longrightarrow>
    (\<And>j. j < i \<Longrightarrow> disk d (ss ! j) = disk d (slot st j)) \<Longrightarrow> (\<And>s. s \<notin> log_area st \<Longrightarrow> view st (disk d) ss s = v s) \<Longrightarrow>
    \<exists>d' ws. install_loop m (int i) d = Some d' \<and> trace d' = trace d @ ws \<and> disk d' = fold put1 ws (disk d) \<and>
      all_recover st (disk d) ws v \<and> (\<forall>s. s \<notin> log_area st \<longrightarrow> disk d' s = v s) \<and> (\<forall>s \<in> log_area st. disk d' s = disk d s) \<and>
      cache d' = (\<lambda>s. if s \<in> set (drop i ss) then None else cache d s)"
proof (induction "length ss - i" arbitrary: i d)
  case 0
  then have i: "i = length ss" by simp
  have "disk d s = v s" if "s \<notin> log_area st" for s
    using installed_view[of ss "disk d" st s] 0(5) 0(6)[OF that] i home by (simp add: home_sectors_def)
  moreover have "recovers st (disk d) v" unfolding recovers_def using 0 home by blast
  moreover have "install_loop m (int i) d = Some d" using i m(2) by (subst install_loop.simps) simp
  ultimately show ?case using i by - (rule exI[of _ d], rule exI[of _ "[]"], simp)
next
  case (Suc k)
  have i: "i < length ss" and k: "k = length ss - Suc i" using Suc.hyps(2) by auto
  have dist: "distinct ss" and len: "length ss \<le> 10" using home by (auto simp: home_sectors_def)
  let ?w = "(ss ! i, disk d (slot st i))"
  let ?d = "bwrite_data (ss ! i) (disk d (slot st i)) d"
  note one = install_one[where d = d, OF home i]
  have step: "install_loop m (int i) d = install_loop m (int (Suc i)) ?d"
    using Suc.prems(3) i len by (intro install_block_step[OF m i]) simp
  have hdr: "header_is (disk ?d st) ss" using Suc.prems(2) one(1)[of st] by (simp add: log_area_def)
  have inst: "disk ?d (ss ! j) = disk ?d (slot st j)" if "j < Suc i" for j
  proof (cases "j = i")
    case False
    then have "ss ! j \<noteq> ss ! i" using dist i that by (simp add: nth_eq_iff_index_eq)
    then show ?thesis using Suc.prems(4)[of j] False that one(1)[of "slot st j"] i len by (simp add: bwrite_data_def)
  qed (use one(1)[of "slot st i"] i len in \<open>simp add: bwrite_data_def\<close>)
  have none: "cache ?d s = None" if "s \<in> log_area st" for s using Suc.prems(3)[OF that] by (simp add: bwrite_data_def)
  have view: "view st (disk ?d) ss s = v s" if "s \<notin> log_area st" for s using Suc.prems(5)[OF that] one(2) by simp
  from Suc.hyps(1)[OF k _ hdr none inst view] i obtain d' ws where
    d': "install_loop m (int (Suc i)) ?d = Some d'" "trace d' = trace ?d @ ws" "disk d' = fold put1 ws (disk ?d)"
    "all_recover st (disk ?d) ws v" "\<forall>s. s \<notin> log_area st \<longrightarrow> disk d' s = v s" "\<forall>s \<in> log_area st. disk d' s = disk ?d s"
    "cache d' = (\<lambda>s. if s \<in> set (drop (Suc i) ss) then None else cache ?d s)" by (auto simp del: of_nat_Suc)
  have put: "disk ?d = put1 ?w (disk d)" by (simp add: bwrite_data_def put1_def)
  have "recovers st (disk d) v" unfolding recovers_def using Suc.prems home by blast
  moreover have "cache d' = (\<lambda>s. if s \<in> set (drop i ss) then None else cache d s)"
    using d'(7) i by (auto simp: bwrite_data_def Cons_nth_drop_Suc[symmetric] fun_eq_iff)
  moreover have "trace d' = trace d @ ?w # ws" using d'(2) by (simp add: bwrite_data_def)
  ultimately show ?case using step d'(1,3,4,5,6) one(1) put by - (rule exI[of _ d'], rule exI[of _ "?w # ws"], simp)
qed

section \<open>Recovery\<close>

lemma install_clear:
  assumes m: "lstart m = st" "lhn m = int (length ss)" "take (length ss) (lsec m) = ss" "length (lsec m) = 10"
    and home: "home_sectors st ss" and hdr: "header_is (disk d st) ss"
    and c: "\<And>s. s \<in> log_area st \<Longrightarrow> cache d s = None" and v: "\<And>s. s \<notin> log_area st \<Longrightarrow> view st (disk d) ss s = v s"
  shows "\<exists>d1 d2 ws. install_trans m d = Some d1 \<and> write_head (m\<lparr>lhn := 0\<rparr>) d1 = Some d2 \<and> trace d2 = trace d @ ws \<and>
    disk d2 = fold put1 ws (disk d) \<and> all_recover st (disk d) ws v \<and> (\<forall>s. s \<notin> log_area st \<longrightarrow> disk d2 s = v s) \<and>
    header_is (disk d2 st) [] \<and> cache d2 = (\<lambda>s. if s \<in> set ss then None else cache d s)"
proof -
  from install_loop_recovers[OF m(1-3) home, of 0 d v] hdr c v obtain d1 ws where
    d1: "install_loop m 0 d = Some d1" "trace d1 = trace d @ ws" "disk d1 = fold put1 ws (disk d)" "all_recover st (disk d) ws v"
      "\<forall>s. s \<notin> log_area st \<longrightarrow> disk d1 s = v s" "\<forall>s \<in> log_area st. disk d1 s = disk d s"
      "cache d1 = (\<lambda>s. if s \<in> set ss then None else cache d s)" by auto
  have st: "st \<in> log_area st" by (simp add: log_area_def)
  then have "cache d1 st = None" "disk d1 st = disk d st" using c d1(6,7) by auto
  then have "length (bread_data st d1) = BSIZE" using hdr by (simp add: bread_data_def header_is_def)
  with write_head_entries[of "m\<lparr>lhn := 0\<rparr>" d1 0] m(1) obtain b where
    b: "write_head (m\<lparr>lhn := 0\<rparr>) d1 = Some (bwrite_data st b d1)" "header_is b []" by auto
  let ?d2 = "bwrite_data st b d1"
  have "recovers st (disk ?d2) v"
    unfolding recovers_def using b(2) d1(5) st
    by (intro exI[of _ "[]"]) (auto simp: bwrite_data_def home_sectors_def view_other)
  then have "all_recover st (disk d) (ws @ [(st, b)]) v"
    using d1(3,4) all_recover_prefix[OF d1(4), of "length ws"] by (simp add: all_recover_append bwrite_data_def put1_def)
  moreover have "trace ?d2 = trace d @ ws @ [(st, b)]" "disk ?d2 = fold put1 (ws @ [(st, b)]) (disk d)"
    using d1(2,3) by (simp_all add: bwrite_data_def put1_def)
  moreover have "cache ?d2 = (\<lambda>s. if s \<in> set ss then None else cache d s)"
    using d1(7) c[OF st] by (auto simp: bwrite_data_def fun_eq_iff)
  moreover have "header_is (disk ?d2 st) []" "\<forall>s. s \<notin> log_area st \<longrightarrow> disk ?d2 s = v s"
    using b(2) d1(5) st by (auto simp: bwrite_data_def)
  ultimately show ?thesis using d1(1) b(1) unfolding install_trans_def by blast
qed

text \<open>No transaction is active and nothing is left in the log.\<close>

definition log_clean :: "sector \<Rightarrow> log \<Rightarrow> dev \<Rightarrow> bool" where
  "log_clean st m d \<longleftrightarrow> lstart m = st \<and> \<not> lbusy m \<and> lhn m = 0 \<and> length (lsec m) = 10 \<and> cache d = Map.empty \<and>
     header_is (disk d st) []"

text \<open>After a crash: the disk is left, the cache and the memory are lost.\<close>

definition crashed :: "disk \<Rightarrow> dev" where
  "crashed dk = \<lparr>disk = dk, cache = Map.empty, trace = []\<rparr>"

definition boot_log :: "sector \<Rightarrow> int \<Rightarrow> log" where
  "boot_log st sz = \<lparr>lstart = st, lsize = sz, lbusy = False, lhn = 0, lsec = replicate 10 0\<rparr>"

lemma recover_crashed:
  assumes "recovers st dk v"
  shows "\<exists>m d. recover_from_log (boot_log st sz) (crashed dk) = Some (m, d) \<and> log_clean st m d \<and>
    (\<forall>s. s \<notin> log_area st \<longrightarrow> disk d s = v s) \<and> disk d = fold put1 (trace d) dk \<and> all_recover st dk (trace d) v"
proof -
  obtain ss where ss: "header_is (dk st) ss" "home_sectors st ss" "\<And>s. s \<notin> log_area st \<Longrightarrow> view st dk ss s = v s"
    using assms by (auto simp: recovers_def)
  let ?m = "boot_log st sz" and ?d = "crashed dk"
  have "header_is (bread_data (lstart ?m) ?d) ss" "length (lsec ?m) = 10"
    using ss(1) by (simp_all add: bread_data_def boot_log_def crashed_def)
  from read_head_entries[OF this] obtain secs where r: "read_head ?m ?d = Some (?m\<lparr>lhn := int (length ss), lsec := secs\<rparr>)"
    "length secs = 10" "take (length ss) secs = ss" by blast
  let ?m1 = "?m\<lparr>lhn := int (length ss), lsec := secs\<rparr>"
  from install_clear[of ?m1 st ss ?d v] ss r(2,3) obtain d1 d2 ws where
    d: "install_trans ?m1 ?d = Some d1" "write_head (?m1\<lparr>lhn := 0\<rparr>) d1 = Some d2" "trace d2 = trace ?d @ ws"
      "disk d2 = fold put1 ws (disk ?d)" "all_recover st (disk ?d) ws v" "\<forall>s. s \<notin> log_area st \<longrightarrow> disk d2 s = v s"
      "header_is (disk d2 st) []" "cache d2 = (\<lambda>s. if s \<in> set ss then None else cache ?d s)"
    by (auto simp: boot_log_def crashed_def)
  have "recover_from_log ?m ?d = Some (?m1\<lparr>lhn := 0\<rparr>, d2)" by (simp only: recover_from_log_def r(1) bind.bind_lunit Let_def d(1,2))
  moreover have "log_clean st (?m1\<lparr>lhn := 0\<rparr>) d2"
    using r(2) d(7,8) by (simp add: log_clean_def boot_log_def crashed_def fun_eq_iff)
  moreover have "disk d2 = fold put1 (trace d2) dk" "all_recover st dk (trace d2) v"
    using d(3,4,5) by (simp_all add: crashed_def)
  ultimately show ?thesis using d(6) by blast
qed

section \<open>Transactions\<close>

text \<open>
  Inside of a transaction that has logged the sectors \<open>ss\<close>: the log blocks and the cache hold the
  new contents, the home blocks and the header are as before.
\<close>

definition in_trans :: "sector \<Rightarrow> disk \<Rightarrow> log \<Rightarrow> dev \<Rightarrow> sector list \<Rightarrow> bool" where
  "in_trans st d0 m d ss \<longleftrightarrow> lstart m = st \<and> lbusy m \<and> lhn m = int (length ss) \<and> length (lsec m) = 10 \<and>
     take (length ss) (lsec m) = ss \<and> home_sectors st ss \<and> header_is (disk d st) [] \<and>
     (\<forall>s. s \<notin> log_area st \<longrightarrow> disk d s = d0 s) \<and> dom (cache d) = set ss \<and>
     (\<forall>j < length ss. cache d (ss ! j) = Some (disk d (slot st j)))"

lemma find_slot_found:
  assumes "lhn m = int (length ss)" "take (length ss) (lsec m) = ss" "distinct ss"
  shows "i \<le> length ss \<Longrightarrow> s \<notin> set (take i ss) \<Longrightarrow>
    \<exists>j. find_slot m s (int i) = Some (int j) \<and> (j < length ss \<and> ss ! j = s \<or> j = length ss \<and> s \<notin> set ss)"
proof (induction "length ss - i" arbitrary: i)
  case 0
  then show ?case using assms(1) by (intro exI[of _ i]) (simp add: find_slot.simps)
next
  case (Suc k)
  have i: "i < length ss" and k: "k = length ss - Suc i" using Suc.hyps(2) by auto
  have l: "lsec m ! i = ss ! i" "i < length (lsec m)"
    using arg_cong[OF assms(2), of "\<lambda>xs. xs ! i"] arg_cong[OF assms(2), of length] i by auto
  show ?case
  proof (cases "ss ! i = s")
    case True
    then show ?thesis using l i assms(1) by (intro exI[of _ i]) (simp add: find_slot.simps)
  next
    case False
    have "find_slot m s (int i) = find_slot m s (int (Suc i))"
      using l i assms(1) False by (subst find_slot.simps) (simp add: add.commute)
    moreover have "s \<notin> set (take (Suc i) ss)" using False Suc.prems(2) i by (simp add: take_Suc_conv_app_nth)
    ultimately show ?thesis using Suc.hyps(1)[OF k] i by simp
  qed
qed

lemma log_write_in_trans:
  assumes t: "in_trans st d0 m d ss" and room: "length ss < 10" "int (length ss) < lsize m - 1" and s: "s \<notin> log_area st"
  shows "\<exists>m' d' ss' w. log_write s b m d = Some (m', d') \<and> in_trans st d0 m' d' ss' \<and> set ss' = insert s (set ss) \<and>
    lsize m' = lsize m \<and> trace d' = trace d @ [w] \<and> disk d' = put1 w (disk d) \<and> cache d' = (cache d)(s \<mapsto> b)"
proof -
  have m: "lstart m = st" "lbusy m" "lhn m = int (length ss)" "length (lsec m) = 10" "take (length ss) (lsec m) = ss"
    and home: "home_sectors st ss" and hdr: "header_is (disk d st) []" and old: "\<And>s. s \<notin> log_area st \<Longrightarrow> disk d s = d0 s"
    and dom: "dom (cache d) = set ss" and cached: "\<And>j. j < length ss \<Longrightarrow> cache d (ss ! j) = Some (disk d (slot st j))"
    using t by (auto simp: in_trans_def)
  have dist: "distinct ss" and out: "set ss \<inter> log_area st = {}" using home by (auto simp: home_sectors_def)
  obtain j where j: "find_slot m s 0 = Some (int j)" "j < length ss \<and> ss ! j = s \<or> j = length ss \<and> s \<notin> set ss"
    using find_slot_found[OF m(3,5) dist, of 0 s] by auto
  have j10: "j < 10" using j(2) room(1) by auto
  define ss' where "ss' = (if j = length ss then ss @ [s] else ss)"
  define d' where "d' = (bwrite_data (slot st j) b d)\<lparr>cache := (cache (bwrite_data (slot st j) b d))(s \<mapsto> b)\<rparr>"
  define m' where "m' = m\<lparr>lsec := (lsec m)[j := s], lhn := int (length ss')\<rparr>"
  have lw: "log_write s b m d = Some (m', d')"
    using m room j j10 by (auto simp: log_write_def LOGSIZE_def m'_def d'_def ss'_def slot_def Let_def)
  have c0: "cache d (slot st j) = None" using dom out j10 slot_in_area[of j st] by (metis disjoint_iff domIff)
  then have cache: "cache d' = (cache d)(s \<mapsto> b)" by (auto simp: d'_def bwrite_data_def fun_eq_iff)
  have same: "disk d' x = (if x = slot st j then b else disk d x)" for x by (simp add: d'_def bwrite_data_def)
  have set': "set ss' = insert s (set ss)" using j(2) by (auto simp: ss'_def)
  have tk: "take (length ss') ((lsec m)[j := s]) = ss'"
  proof (cases "j = length ss")
    case True
    then show ?thesis using m(4,5) room(1) by (simp add: ss'_def take_Suc_conv_app_nth)
  next
    case False
    then have "(take (length ss) (lsec m))[j := s] = ss" using j(2) m(5) by (metis list_update_id)
    then show ?thesis using False by (simp add: ss'_def take_update_swap)
  qed
  have home': "home_sectors st ss'" using home j(2) room(1) s by (auto simp: home_sectors_def ss'_def)
  have "cache d' (ss' ! i) = Some (disk d' (slot st i))" if i: "i < length ss'" for i
  proof (cases "i = j")
    case True
    moreover have "ss' ! j = s" using j(2) by (auto simp: ss'_def)
    ultimately show ?thesis using cache same by simp
  next
    case False
    then have i': "i < length ss" "ss' ! i = ss ! i" using i j(2) by (auto simp: ss'_def nth_append split: if_splits)
    have "ss ! i \<noteq> s" using j(2) i'(1) False dist by (auto simp: nth_eq_iff_index_eq)
    moreover have "slot st i \<noteq> slot st j" using False slot_inj[of i j] j10 i'(1) room(1) by simp
    ultimately show ?thesis using cached[OF i'(1)] i'(2) cache same by simp
  qed
  moreover have "header_is (disk d' st) []" using hdr same[of st] slot_not_start[OF j10, of st] by simp
  moreover have "\<forall>s. s \<notin> log_area st \<longrightarrow> disk d' s = d0 s" using old same slot_in_area[OF j10, of st] by auto
  moreover have "dom (cache d') = set ss'" using dom cache set' by simp
  ultimately have "in_trans st d0 m' d' ss'"
    using m home' tk by (simp add: in_trans_def m'_def)
  moreover have "trace d' = trace d @ [(slot st j, b)]" "disk d' = put1 (slot st j, b) (disk d)"
    by (simp_all add: d'_def bwrite_data_def put1_def)
  moreover have "lsize m' = lsize m" by (simp add: m'_def)
  ultimately show ?thesis using lw cache set' by blast
qed

lemma in_trans_recovers: "in_trans st d0 m d ss \<Longrightarrow> recovers st (disk d) d0"
  unfolding recovers_def by (intro exI[of _ "[]"]) (auto simp: in_trans_def home_sectors_def view_other)

text \<open>What \<^verbatim>\<open>log_write\<close> demands: the log never has more than its capacity of sectors.\<close>

definition log_fits :: "int \<Rightarrow> sector set \<Rightarrow> (sector \<times> block) list \<Rightarrow> bool" where
  "log_fits sz S us \<longleftrightarrow> (\<forall>k < length us. card (S \<union> fst ` set (take k us)) < 10 \<and> int (card (S \<union> fst ` set (take k us))) < sz - 1)"

lemma log_fits_Cons:
  assumes "log_fits sz S (u # us)"
  shows "card S < 10" "int (card S) < sz - 1" "log_fits sz (insert (fst u) S) us"
proof -
  show "card S < 10" "int (card S) < sz - 1" using assms by (auto simp: log_fits_def dest: spec[of _ 0])
  show "log_fits sz (insert (fst u) S) us"
    unfolding log_fits_def
  proof (intro allI impI)
    fix k assume "k < length us"
    then have "Suc k < length (u # us)" by simp
    moreover have "S \<union> fst ` set (take (Suc k) (u # us)) = insert (fst u) S \<union> fst ` set (take k us)" by auto
    ultimately show "card (insert (fst u) S \<union> fst ` set (take k us)) < 10 \<and> int (card (insert (fst u) S \<union> fst ` set (take k us))) < sz - 1"
      using assms unfolding log_fits_def by metis
  qed
qed

fun cache_puts :: "(sector \<times> block) list \<Rightarrow> (sector \<rightharpoonup> block) \<Rightarrow> sector \<rightharpoonup> block" where
  "cache_puts [] c = c"
| "cache_puts ((s, b) # us) c = cache_puts us (c(s \<mapsto> b))"

lemma log_writes_in_trans:
  assumes "in_trans st d0 m d ss" "log_fits (lsize m) (set ss) us" "fst ` set us \<inter> log_area st = {}"
  shows "\<exists>m' d' ss' ws. log_writes us m d = Some (m', d') \<and> in_trans st d0 m' d' ss' \<and> trace d' = trace d @ ws \<and>
    disk d' = fold put1 ws (disk d) \<and> all_recover st (disk d) ws d0 \<and> cache d' = cache_puts us (cache d) \<and>
    lsize m' = lsize m"
  using assms
proof (induction us arbitrary: m d ss)
  case Nil
  then show ?case using in_trans_recovers by (intro exI[of _ m], intro exI[of _ d], intro exI[of _ ss], intro exI[of _ "[]"]) simp
next
  case (Cons u us)
  obtain s b where u: "u = (s, b)" by (cases u)
  have dist: "distinct ss" using Cons.prems(1) by (simp add: in_trans_def home_sectors_def)
  then have "card (set ss) = length ss" by (rule distinct_card)
  with log_fits_Cons[OF Cons.prems(2)] have room: "length ss < 10" "int (length ss) < lsize m - 1"
    and fits: "log_fits (lsize m) (insert s (set ss)) us" using u by auto
  have s: "s \<notin> log_area st" using Cons.prems(3) u by auto
  from log_write_in_trans[OF Cons.prems(1) room s] obtain m1 d1 ss1 w where
    1: "log_write s b m d = Some (m1, d1)" "in_trans st d0 m1 d1 ss1" "set ss1 = insert s (set ss)" "lsize m1 = lsize m"
      "trace d1 = trace d @ [w]" "disk d1 = put1 w (disk d)" "cache d1 = (cache d)(s \<mapsto> b)" by blast
  have f1: "log_fits (lsize m1) (set ss1) us" using fits by (simp only: 1(3,4))
  have h1: "fst ` set us \<inter> log_area st = {}" using Cons.prems(3) by auto
  from Cons.IH[OF 1(2) f1 h1] obtain m2 d2 ss2 ws where
    2: "log_writes us m1 d1 = Some (m2, d2)" "in_trans st d0 m2 d2 ss2" "trace d2 = trace d1 @ ws" "disk d2 = fold put1 ws (disk d1)"
      "all_recover st (disk d1) ws d0" "cache d2 = cache_puts us (cache d1)" "lsize m2 = lsize m1" by blast
  have "all_recover st (disk d) (w # ws) d0" using in_trans_recovers[OF Cons.prems(1)] 2(5) 1(6) by simp
  then show ?case using 1 2 u
    by - (rule exI[of _ m2], rule exI[of _ d2], rule exI[of _ ss2], rule exI[of _ "w # ws"], simp)
qed

lemma cached_view:
  "(case cache_puts us c x of Some b \<Rightarrow> b | None \<Rightarrow> d x) = fold put1 us (\<lambda>s. case c s of Some b \<Rightarrow> b | None \<Rightarrow> d s) x"
proof (induction us arbitrary: c)
  case (Cons u us)
  obtain y b where u: "u = (y, b)" by (cases u)
  have p: "put1 (y, b) (\<lambda>s. case c s of Some b \<Rightarrow> b | None \<Rightarrow> d s) = (\<lambda>s. case (c(y \<mapsto> b)) s of Some b \<Rightarrow> b | None \<Rightarrow> d s)"
    by (auto simp: put1_def fun_eq_iff)
  show ?case unfolding u cache_puts.simps fold.simps comp_apply p by (rule Cons.IH)
qed simp

lemma commit_in_trans:
  assumes t: "in_trans st d0 m d ss" and ss: "ss \<noteq> []"
  defines "v \<equiv> \<lambda>s. case cache d s of Some b \<Rightarrow> b | None \<Rightarrow> d0 s"
  shows "\<exists>m' d' w ws. commit_trans m d = Some (m', d') \<and> log_clean st m' d' \<and> trace d' = trace d @ w # ws \<and>
    disk d' = fold put1 (w # ws) (disk d) \<and> all_recover st (put1 w (disk d)) ws v \<and> (\<forall>s. s \<notin> log_area st \<longrightarrow> disk d' s = v s)"
proof -
  have m: "lstart m = st" "lhn m = int (length ss)" "length (lsec m) = 10" "take (length ss) (lsec m) = ss"
    and home: "home_sectors st ss" and hdr: "header_is (disk d st) []" and old: "\<And>s. s \<notin> log_area st \<Longrightarrow> disk d s = d0 s"
    and dom: "dom (cache d) = set ss" and cached: "\<And>j. j < length ss \<Longrightarrow> cache d (ss ! j) = Some (disk d (slot st j))"
    using t by (auto simp: in_trans_def)
  have dist: "distinct ss" and out: "set ss \<inter> log_area st = {}" and len: "length ss \<le> 10"
    using home by (auto simp: home_sectors_def)
  have none: "cache d s = None" if "s \<in> log_area st" for s using dom out that by (metis disjoint_iff domIff)
  have st: "st \<in> log_area st" by (simp add: log_area_def)
  have "length (bread_data st d) = BSIZE" using none[OF st] hdr by (simp add: bread_data_def header_is_def)
  from write_head_entries[of m d "length ss"] this m len obtain b where
    b: "write_head m d = Some (bwrite_data st b d)" "header_is b ss" by auto
  let ?d = "bwrite_data st b d"
  have view: "view st (disk ?d) ss s = v s" if "s \<notin> log_area st" for s
  proof (cases "s \<in> set ss")
    case True
    then obtain j where j: "j < length ss" "s = ss ! j" by (metis in_set_conv_nth)
    then show ?thesis using view_entry[OF dist, of j st "disk ?d"] cached[of j] len by (simp add: v_def bwrite_data_def)
  next
    case False
    then have "cache d s = None" using dom by auto
    then show ?thesis using view_other[OF False, of st "disk ?d"] old[OF that] that st by (auto simp: v_def bwrite_data_def)
  qed
  have hdr': "header_is (disk ?d st) ss" using b(2) by (simp add: bwrite_data_def)
  have none': "cache ?d s = None" if "s \<in> log_area st" for s using none[OF that] by (simp add: bwrite_data_def)
  from install_clear[OF m(1,2,4,3) home hdr' none' view] obtain d1 d2 ws where
    d: "install_trans m ?d = Some d1" "write_head (m\<lparr>lhn := 0\<rparr>) d1 = Some d2" "trace d2 = trace ?d @ ws" "disk d2 = fold put1 ws (disk ?d)"
      "all_recover st (disk ?d) ws v" "\<forall>s. s \<notin> log_area st \<longrightarrow> disk d2 s = v s" "header_is (disk d2 st) []"
      "cache d2 = (\<lambda>s. if s \<in> set ss then None else cache ?d s)" by blast
  have "commit_trans m d = Some (m\<lparr>lhn := 0, lbusy := False\<rparr>, d2)"
    using ss m(2) b(1) d(1,2) by (simp add: commit_trans_def Let_def)
  moreover have "cache d2 = Map.empty" using d(8) dom st by (auto simp: bwrite_data_def fun_eq_iff)
  then have "log_clean st (m\<lparr>lhn := 0, lbusy := False\<rparr>) d2" using m d(7) by (simp add: log_clean_def)
  moreover have put: "disk ?d = put1 (st, b) (disk d)" by (simp add: bwrite_data_def put1_def)
  moreover have "trace d2 = trace d @ (st, b) # ws" using d(3) by (simp add: bwrite_data_def)
  ultimately show ?thesis using d(4,5,6)
    by - (rule exI[of _ "m\<lparr>lhn := 0, lbusy := False\<rparr>"], rule exI[of _ d2], rule exI[of _ "(st, b)"], rule exI[of _ ws], simp)
qed

section \<open>Crashes\<close>

lemma begin_in_trans:
  assumes "log_clean st m d"
  shows "begin_trans m = Some (m\<lparr>lbusy := True\<rparr>)" "in_trans st (disk d) (m\<lparr>lbusy := True\<rparr>) d []"
  using assms by (auto simp: begin_trans_def log_clean_def in_trans_def home_sectors_def)

lemma transaction_recovers:
  assumes clean: "log_clean st m d" and fits: "log_fits (lsize m) {} us" and home: "fst ` set us \<inter> log_area st = {}"
  shows "\<exists>m' d' ws. transaction us m d = Some (m', d') \<and> log_clean st m' d' \<and> trace d' = trace d @ ws \<and>
    (\<forall>s. s \<notin> log_area st \<longrightarrow> disk d' s = fold put1 us (disk d) s) \<and>
    (\<forall>k. recovers st (fold put1 (take k ws) (disk d)) (disk d) \<or> recovers st (fold put1 (take k ws) (disk d)) (fold put1 us (disk d)))"
proof -
  have e: "cache d = Map.empty" using clean by (simp add: log_clean_def)
  have "log_fits (lsize (m\<lparr>lbusy := True\<rparr>)) (set []) us" using fits by simp
  from log_writes_in_trans[OF begin_in_trans(2)[OF clean] this home] obtain m1 d1 ss ws1 where
    1: "log_writes us (m\<lparr>lbusy := True\<rparr>) d = Some (m1, d1)" "in_trans st (disk d) m1 d1 ss" "trace d1 = trace d @ ws1"
      "disk d1 = fold put1 ws1 (disk d)" "all_recover st (disk d) ws1 (disk d)"
      "cache d1 = cache_puts us (cache d)" by blast
  have v: "(case cache d1 s of Some b \<Rightarrow> b | None \<Rightarrow> disk d s) = fold put1 us (disk d) s" for s
    using cached_view[where us = us and c = "cache d" and x = s and d = "disk d"] 1(6) e by simp
  have tr: "transaction us m d = commit_trans m1 d1"
    using begin_in_trans(1)[OF clean] 1(1) by (simp add: transaction_def)
  show ?thesis
  proof (cases "ss = []")
    case True
    then have n: "lhn m1 = 0" "dom (cache d1) = {}" using 1(2) by (auto simp: in_trans_def)
    then have "commit_trans m1 d1 = Some (m1\<lparr>lbusy := False\<rparr>, d1)" by (simp add: commit_trans_def)
    moreover have "log_clean st (m1\<lparr>lbusy := False\<rparr>) d1" using 1(2) n True by (simp add: in_trans_def log_clean_def)
    moreover have "disk d1 s = fold put1 us (disk d) s" if "s \<notin> log_area st" for s
      using v[of s] n(2) 1(2) that by (simp add: in_trans_def)
    ultimately show ?thesis using tr 1(3) all_recover_prefix[OF 1(5)]
      by - (rule exI[of _ "m1\<lparr>lbusy := False\<rparr>"], rule exI[of _ d1], rule exI[of _ ws1], simp)
  next
    case False
    from commit_in_trans[OF 1(2) False] obtain m2 d2 w ws2 where
      2: "commit_trans m1 d1 = Some (m2, d2)" "log_clean st m2 d2" "trace d2 = trace d1 @ w # ws2"
        "all_recover st (put1 w (disk d1)) ws2 (fold put1 us (disk d))"
        "\<forall>s. s \<notin> log_area st \<longrightarrow> disk d2 s = fold put1 us (disk d) s"
      unfolding v by blast
    have "recovers st (fold put1 (take k (ws1 @ w # ws2)) (disk d)) (disk d) \<or>
        recovers st (fold put1 (take k (ws1 @ w # ws2)) (disk d)) (fold put1 us (disk d))" for k
    proof (cases "k \<le> length ws1")
      case True
      then show ?thesis using all_recover_prefix[OF 1(5), of k] by simp
    next
      case False
      then obtain j where "k = length ws1 + Suc j" by (metis add_Suc_right less_iff_Suc_add not_le)
      then show ?thesis using all_recover_prefix[OF 2(4), of j] 1(4) by simp
    qed
    then show ?thesis using tr 2 1(3) by - (rule exI[of _ m2], rule exI[of _ d2], rule exI[of _ "ws1 @ w # ws2"], simp)
  qed
qed

text \<open>
  C17: transactions are atomic with respect to crashes: a transaction that fits in the log puts all
  its blocks in place, and if the machine stops after any number of the block writes it makes, then
  recovery from the disk that is left gives either all the old or all the new contents outside of
  the log, with an empty log.
\<close>

theorem transaction_crash_atomic:
  assumes "log_clean st m d" "trace d = []" "log_fits (lsize m) {} us" "fst ` set us \<inter> log_area st = {}"
  shows "\<exists>m' d'. transaction us m d = Some (m', d') \<and> log_clean st m' d' \<and>
    (\<forall>s. s \<notin> log_area st \<longrightarrow> disk d' s = fold put1 us (disk d) s) \<and>
    (\<forall>k. \<exists>m2 d2. recover_from_log (boot_log st sz) (crashed (fold put1 (take k (trace d')) (disk d))) = Some (m2, d2) \<and> log_clean st m2 d2 \<and>
      ((\<forall>s. s \<notin> log_area st \<longrightarrow> disk d2 s = disk d s) \<or> (\<forall>s. s \<notin> log_area st \<longrightarrow> disk d2 s = fold put1 us (disk d) s)))"
proof -
  from transaction_recovers[OF assms(1,3,4)] assms(2) obtain m' d' where
    t: "transaction us m d = Some (m', d')" "log_clean st m' d'" "\<forall>s. s \<notin> log_area st \<longrightarrow> disk d' s = fold put1 us (disk d) s"
      "\<And>k. recovers st (fold put1 (take k (trace d')) (disk d)) (disk d) \<or> recovers st (fold put1 (take k (trace d')) (disk d)) (fold put1 us (disk d))"
    by auto
  have "\<exists>m2 d2. recover_from_log (boot_log st sz) (crashed (fold put1 (take k (trace d')) (disk d))) = Some (m2, d2) \<and> log_clean st m2 d2 \<and>
      ((\<forall>s. s \<notin> log_area st \<longrightarrow> disk d2 s = disk d s) \<or> (\<forall>s. s \<notin> log_area st \<longrightarrow> disk d2 s = fold put1 us (disk d) s))" for k
    using t(4)[of k] recover_crashed by blast
  with t show ?thesis by blast
qed

text \<open>A zeroed disk with a log at sector 100.\<close>

definition zero_disk :: disk where
  "zero_disk = (\<lambda>_. replicate 512 0)"

lemma zero_header: "header_is (zero_disk st) []"
proof -
  have "load32 (replicate 512 0) 0 = Some 0" by code_simp
  then show ?thesis by (simp add: header_is_def zero_disk_def BSIZE_def)
qed

lemma log_area_100: "5 \<notin> log_area 100" "6 \<notin> log_area 100"
proof -
  have "list_all (\<lambda>i. slot 100 i \<noteq> 5 \<and> slot 100 i \<noteq> 6) [0..<10]" by code_simp
  then show "5 \<notin> log_area 100" "6 \<notin> log_area 100" by (auto simp: log_area_def list_all_iff)
qed

theorem transaction_crash_atomic_witness:
  "\<exists>m' d'. transaction [(5, [1]), (6, [2]), (5, [3])] (boot_log 100 20) (crashed zero_disk) = Some (m', d') \<and> log_clean 100 m' d' \<and>
    (\<forall>s. s \<notin> log_area 100 \<longrightarrow> disk d' s = fold put1 [(5, [1]), (6, [2]), (5, [3])] (disk (crashed zero_disk)) s) \<and>
    (\<forall>k. \<exists>m2 d2. recover_from_log (boot_log 100 20) (crashed (fold put1 (take k (trace d')) (disk (crashed zero_disk)))) = Some (m2, d2) \<and>
      log_clean 100 m2 d2 \<and> ((\<forall>s. s \<notin> log_area 100 \<longrightarrow> disk d2 s = disk (crashed zero_disk) s) \<or>
        (\<forall>s. s \<notin> log_area 100 \<longrightarrow> disk d2 s = fold put1 [(5, [1]), (6, [2]), (5, [3])] (disk (crashed zero_disk)) s)))"
proof (rule transaction_crash_atomic)
  show "log_clean 100 (boot_log 100 20) (crashed zero_disk)"
    by (simp add: log_clean_def boot_log_def crashed_def zero_header)
  show "trace (crashed zero_disk) = []" by (simp add: crashed_def)
  show "log_fits (lsize (boot_log 100 20)) {} [(5, [1]), (6, [2]), (5, [3])]"
    by (auto simp: log_fits_def boot_log_def less_Suc_eq card_insert_if)
  show "fst ` set [(5, [1]), (6, [2]), (5, [3])] \<inter> log_area 100 = {}" using log_area_100 by auto
qed

text \<open>
  C18: recovery may itself be interrupted: if the machine stops after any number of the block writes
  of a recovery and recovers again, the contents outside of the log are those the first recovery
  would have given.
\<close>

theorem recovery_idempotent:
  assumes "header_is (dk st) ss" "home_sectors st ss"
  shows "\<exists>m1 d1. recover_from_log (boot_log st sz) (crashed dk) = Some (m1, d1) \<and>
    (\<forall>k. \<exists>m2 d2. recover_from_log (boot_log st sz) (crashed (fold put1 (take k (trace d1)) dk)) = Some (m2, d2) \<and> log_clean st m2 d2 \<and>
      (\<forall>s. s \<notin> log_area st \<longrightarrow> disk d2 s = disk d1 s))"
proof -
  have "recovers st dk (view st dk ss)" using assms by (auto simp: recovers_def)
  from recover_crashed[OF this] obtain m1 d1 where
    1: "recover_from_log (boot_log st sz) (crashed dk) = Some (m1, d1)" "\<forall>s. s \<notin> log_area st \<longrightarrow> disk d1 s = view st dk ss s"
      "all_recover st dk (trace d1) (view st dk ss)" by blast
  have "\<exists>m2 d2. recover_from_log (boot_log st sz) (crashed (fold put1 (take k (trace d1)) dk)) = Some (m2, d2) \<and> log_clean st m2 d2 \<and>
      (\<forall>s. s \<notin> log_area st \<longrightarrow> disk d2 s = disk d1 s)" for k
    using recover_crashed[OF all_recover_prefix[OF 1(3), of k], of sz] 1(2) by metis
  with 1(1) show ?thesis by blast
qed

text \<open>A disk with one committed block, for sector 5, in its log.\<close>

definition committed_disk :: disk where
  "committed_disk = zero_disk(100 := [1, 0, 0, 0, 5, 0, 0, 0] @ replicate 504 0, 101 := [7])"

theorem recovery_idempotent_witness:
  "\<exists>m1 d1. recover_from_log (boot_log 100 20) (crashed committed_disk) = Some (m1, d1) \<and>
    (\<forall>k. \<exists>m2 d2. recover_from_log (boot_log 100 20) (crashed (fold put1 (take k (trace d1)) committed_disk)) = Some (m2, d2) \<and>
      log_clean 100 m2 d2 \<and> (\<forall>s. s \<notin> log_area 100 \<longrightarrow> disk d2 s = disk d1 s))"
proof (rule recovery_idempotent)
  have "load32 ([1, 0, 0, 0, 5, 0, 0, 0] @ replicate 504 0) 0 = Some 1" "load32 ([1, 0, 0, 0, 5, 0, 0, 0] @ replicate 504 0) 4 = Some 5"
    by code_simp+
  then show "header_is (committed_disk 100) [5]" by (simp add: header_is_def committed_disk_def BSIZE_def)
  show "home_sectors 100 [5]" using log_area_100 by (simp add: home_sectors_def)
qed

end
