(* ===== verification/Bitmap.thy ===== *)
theory Bitmap
  imports Log
begin

text \<open>
  The blocks layer of the file system (src/src/fs.c): the super block, and the bitmap from which
  blocks are allocated and to which they are freed. The disk is device 1, the only one the disk
  driver accepts, inside of a transaction: the state is the log and the blocks behind it. Block
  numbers of the loops are natural numbers; the sizes of the super block are below \<open>2\<^sup>3\<^sup>1\<close> in
  \<open>fs_ok\<close>, so that no index of the source overflows. None is a panic. The disk that
  src/src/mkfs.c makes is shown to be well-formed.
\<close>

type_synonym store = "log \<times> dev"

definition blk :: "sector \<Rightarrow> store \<Rightarrow> block" where
  "blk s st = bread_data s (snd st)"

definition put_blk :: "sector \<Rightarrow> block \<Rightarrow> store \<Rightarrow> store option" where
  "put_blk s b st = log_write s b (fst st) (snd st)"

record superblock =
  sb_size :: "32 word"
  sb_nblocks :: "32 word"
  sb_ninodes :: "32 word"
  sb_nlog :: "32 word"

definition readsb :: "store \<Rightarrow> superblock option" where
  "readsb st = do {
     let b = blk 1 st;
     s \<leftarrow> load32 b 0;
     nb \<leftarrow> load32 b 4;
     ni \<leftarrow> load32 b 8;
     nl \<leftarrow> load32 b 12;
     Some \<lparr>sb_size = s, sb_nblocks = nb, sb_ninodes = ni, sb_nlog = nl\<rparr>
   }"

definition bzero :: "sector \<Rightarrow> store \<Rightarrow> store option" where
  "bzero bno st = do { b \<leftarrow> k_memset (blk bno st) 0 0 BSIZE; put_blk bno b st }"

text \<open>An inode fills a block.\<close>

definition IPB :: nat where "IPB = BSIZE div 512"
definition BPB :: nat where "BPB = BSIZE * 8"

definition IBLOCK :: "nat \<Rightarrow> sector" where
  "IBLOCK i = of_nat (i div IPB + 2)"

definition BBLOCK :: "nat \<Rightarrow> 32 word \<Rightarrow> sector" where
  "BBLOCK b ninodes = of_nat (b div BPB + unat ninodes div IPB + 3)"

definition bit_mask :: "nat \<Rightarrow> byte" where
  "bit_mask bi = push_bit (bi mod 8) 1"

function find_bit :: "block \<Rightarrow> nat \<Rightarrow> nat \<Rightarrow> nat \<Rightarrow> nat option option" where
  "find_bit data b n bi =
     (if bi < BPB \<and> b + bi < n
      then (case rd data (int (bi div 8)) of None \<Rightarrow> None
        | Some v \<Rightarrow> if v AND bit_mask bi = 0 then Some (Some bi) else find_bit data b n (bi + 1))
      else Some None)"
  by pat_completeness auto
termination by (relation "measure (\<lambda>(d, b, t, bi). BPB - bi)") auto

definition set_bit_in :: "block \<Rightarrow> nat \<Rightarrow> block option" where
  "set_bit_in data bi = do { v \<leftarrow> rd data (int (bi div 8)); wr data (int (bi div 8)) (v OR bit_mask bi) }"

function balloc_loop :: "superblock \<Rightarrow> nat \<Rightarrow> store \<Rightarrow> (32 word \<times> store) option" where
  "balloc_loop sb b st =
     (if b < unat (sb_size sb)
      then (let s = BBLOCK b (sb_ninodes sb); data = blk s st in
        (case find_bit data b (unat (sb_size sb)) 0 of
           None \<Rightarrow> None
         | Some (Some bi) \<Rightarrow> do {
             data \<leftarrow> set_bit_in data bi;
             st \<leftarrow> put_blk s data st;
             st \<leftarrow> bzero (of_nat (b + bi)) st;
             Some (of_nat (b + bi), st)
           }
         | Some None \<Rightarrow> balloc_loop sb (b + BPB) st))
      else None)"
  by pat_completeness auto
termination by (relation "measure (\<lambda>(sb, b, st). unat (sb_size sb) - b)") (auto simp: BPB_def BSIZE_def)

declare find_bit.simps [simp del] balloc_loop.simps [simp del]

definition balloc :: "store \<Rightarrow> (32 word \<times> store) option" where
  "balloc st = do { sb \<leftarrow> readsb st; balloc_loop sb 0 st }"

definition bfree :: "32 word \<Rightarrow> store \<Rightarrow> store option" where
  "bfree b st = do {
     sb \<leftarrow> readsb st;
     let s = BBLOCK (unat b) (sb_ninodes sb);
     let data = blk s st;
     let bi = unat b mod BPB;
     v \<leftarrow> rd data (int (bi div 8));
     if v AND bit_mask bi = 0 then None
     else do { data \<leftarrow> wr data (int (bi div 8)) (v AND NOT (bit_mask bi)); put_blk s data st }
   }"

section \<open>Writing a block\<close>

text \<open>What a write changes outside of the log.\<close>

lemma find_slot_bound: "find_slot m s i = Some j \<Longrightarrow> 0 \<le> i \<Longrightarrow> i \<le> lhn m \<Longrightarrow> 0 \<le> j \<and> j \<le> lhn m"
  by (induction m s i rule: find_slot.induct) (subst (asm) (2) find_slot.simps, auto split: if_splits option.splits)

lemma put_blk_frame:
  assumes "put_blk s b st = Some st'" "0 \<le> lhn (fst st)"
  shows "lstart (fst st') = lstart (fst st)" "0 \<le> lhn (fst st')"
    and "blk s st' = b"
    and "t \<noteq> s \<Longrightarrow> t \<notin> log_area (lstart (fst st)) \<Longrightarrow> blk t st' = blk t st"
proof -
  obtain m d where st: "st = (m, d)" by fastforce
  from assms(1) obtain i where i: "find_slot m s 0 = Some i" and len: "0 \<le> i" "i < int (length (lsec m))"
    and lim: "lhn m < LOGSIZE"
    and st': "st' = (let m1 = m\<lparr>lsec := (lsec m)[nat i := s]\<rparr>; d1 = bwrite_data (lstart m1 + word_of_int i + 1) b d;
        m2 = (if i = lhn m1 then m1\<lparr>lhn := lhn m1 + 1\<rparr> else m1) in (m2, d1\<lparr>cache := (cache d1)(s \<mapsto> b)\<rparr>))"
    by (auto simp: put_blk_def log_write_def st wr_eq_Some_iff Let_def split: if_splits Option.bind_splits)
  from find_slot_bound[OF i] assms(2) st have b: "0 \<le> i" "i \<le> lhn m" by auto
  have slot: "lstart m + word_of_int i + 1 = slot (lstart m) (nat i)" using b by (simp add: slot_def)
  have "slot (lstart m) (nat i) \<in> log_area (lstart m)" using b lim by (intro slot_in_area) (simp add: LOGSIZE_def)
  then show "lstart (fst st') = lstart (fst st)" "0 \<le> lhn (fst st')" "blk s st' = b"
    and "t \<noteq> s \<Longrightarrow> t \<notin> log_area (lstart (fst st)) \<Longrightarrow> blk t st' = blk t st"
    using assms(2) unfolding st' slot[symmetric] by (auto simp: st Let_def blk_def bread_data_def bwrite_data_def split: option.splits)
qed

text \<open>There is room for \<open>n\<close> more blocks in the transaction.\<close>

definition log_room :: "nat \<Rightarrow> store \<Rightarrow> bool" where
  "log_room n st \<longleftrightarrow> lbusy (fst st) \<and> 0 \<le> lhn (fst st) \<and> lhn (fst st) + int n \<le> LOGSIZE \<and> lhn (fst st) + int n \<le> lsize (fst st) - 1 \<and>
     length (lsec (fst st)) = 10"

lemma find_slot_total:
  "0 \<le> i \<Longrightarrow> lhn m \<le> int (length (lsec m)) \<Longrightarrow> \<exists>j. find_slot m s i = Some j"
  by (induction m s i rule: find_slot.induct) (subst find_slot.simps, auto simp: rd_def)

lemma put_blk_room:
  assumes "log_room (Suc n) st"
  shows "\<exists>st'. put_blk s b st = Some st' \<and> log_room n st'"
proof -
  obtain m d where st: "st = (m, d)" by fastforce
  note r = assms[unfolded log_room_def st LOGSIZE_def, simplified]
  obtain i where i: "find_slot m s 0 = Some i" using find_slot_total[of 0 m s] r by auto
  from find_slot_bound[OF i] r have b: "0 \<le> i" "i \<le> lhn m" by auto
  with r i show ?thesis
    by (auto simp: put_blk_def st log_write_def LOGSIZE_def log_room_def wr_def Let_def)
qed

section \<open>The bitmap\<close>

text \<open>Block \<open>b\<close> is marked as in use.\<close>

definition in_use :: "superblock \<Rightarrow> store \<Rightarrow> nat \<Rightarrow> bool" where
  "in_use sb st b \<longleftrightarrow> bit (blk (BBLOCK b (sb_ninodes sb)) st ! (b mod BPB div 8)) (b mod 8)"

text \<open>The first data block: after the boot block, the super block, the inodes and the bitmap.\<close>

definition data_start :: "superblock \<Rightarrow> nat" where
  "data_start sb = unat (sb_size sb) div BPB + unat (sb_ninodes sb) + 4"

definition data_block :: "superblock \<Rightarrow> store \<Rightarrow> sector \<Rightarrow> bool" where
  "data_block sb st a \<longleftrightarrow> data_start sb \<le> unat a \<and> a < sb_size sb \<and> a \<notin> log_area (lstart (fst st))"

text \<open>
  A disk as mkfs lays it out: the log reaches from its start to the end of the disk, behind the data blocks, and the metadata before
  the data blocks is marked as in use. The blocks of the log are not: mkfs leaves their bits clear.
\<close>

definition fs_ok :: "superblock \<Rightarrow> store \<Rightarrow> bool" where
  "fs_ok sb st \<longleftrightarrow> readsb st = Some sb \<and> (\<forall>s. length (blk s st) = BSIZE) \<and> unat (sb_size sb) < 2 ^ 31 \<and>
     data_start sb \<le> unat (lstart (fst st)) \<and> unat (lstart (fst st)) \<le> unat (sb_size sb) \<and>
     (\<forall>s \<in> log_area (lstart (fst st)). lstart (fst st) \<le> s) \<and>
     (\<forall>b < unat (sb_size sb). unat (lstart (fst st)) \<le> b \<longrightarrow> of_nat b \<in> log_area (lstart (fst st))) \<and> 0 \<le> lhn (fst st) \<and>
     (\<forall>b < data_start sb. in_use sb st b)"

lemma fs_okD:
  assumes "fs_ok sb st"
  shows "data_start sb \<le> unat (sb_size sb)" "s \<in> log_area (lstart (fst st)) \<Longrightarrow> data_start sb \<le> unat s"
  using assms by (auto simp: fs_ok_def word_le_nat_alt)

text \<open>The free data blocks.\<close>

definition spare :: "superblock \<Rightarrow> store \<Rightarrow> nat" where
  "spare sb st = length (filter (\<lambda>b. data_block sb st (of_nat b) \<and> \<not> in_use sb st b) [0..<unat (sb_size sb)])"

lemma BBLOCK_nat:
  assumes "fs_ok sb st" "b < unat (sb_size sb)"
  shows "unat (BBLOCK b (sb_ninodes sb)) = b div BPB + unat (sb_ninodes sb) + 3"
    and "unat (BBLOCK b (sb_ninodes sb)) < data_start sb"
proof -
  have d: "b div BPB \<le> unat (sb_size sb) div BPB" using assms(2) by (intro div_le_mono) simp
  then have "b div BPB + unat (sb_ninodes sb) + 3 < data_start sb" by (simp add: data_start_def)
  moreover have "data_start sb < 2 ^ 32" using assms(1) fs_okD(1)[OF assms(1)] by (simp add: fs_ok_def)
  moreover have "unat (BBLOCK b (sb_ninodes sb)) = (b div BPB + unat (sb_ninodes sb) + 3) mod 2 ^ 32"
    by (simp only: BBLOCK_def IPB_def BSIZE_def unat_of_nat) simp
  ultimately show "unat (BBLOCK b (sb_ninodes sb)) = b div BPB + unat (sb_ninodes sb) + 3" by simp
  with d show "unat (BBLOCK b (sb_ninodes sb)) < data_start sb" by (simp add: data_start_def)
qed

lemma BBLOCK_eq:
  assumes "fs_ok sb st" "b < unat (sb_size sb)" "c < unat (sb_size sb)"
  shows "BBLOCK b (sb_ninodes sb) = BBLOCK c (sb_ninodes sb) \<longleftrightarrow> b div BPB = c div BPB"
  using BBLOCK_nat(1)[OF assms(1,2)] BBLOCK_nat(1)[OF assms(1,3)] by (simp add: word_unat_eq_iff)

lemma BBLOCK_not_log: "fs_ok sb st \<Longrightarrow> b < unat (sb_size sb) \<Longrightarrow> BBLOCK b (sb_ninodes sb) \<notin> log_area (lstart (fst st))"
  using BBLOCK_nat(2)[of sb st b] fs_okD(2)[of sb st "BBLOCK b (sb_ninodes sb)"] by fastforce

lemma BBLOCK_not_1: "fs_ok sb st \<Longrightarrow> b < unat (sb_size sb) \<Longrightarrow> BBLOCK b (sb_ninodes sb) \<noteq> 1"
  using BBLOCK_nat(1)[of sb st b] by (auto simp: word_unat_eq_iff)

lemma data_block_not_meta:
  "fs_ok sb st \<Longrightarrow> data_block sb st a \<Longrightarrow> b < unat (sb_size sb) \<Longrightarrow> a \<noteq> BBLOCK b (sb_ninodes sb)"
  using BBLOCK_nat(2)[of sb st b] by (auto simp: data_block_def)

lemma sb_not_log: "fs_ok sb st \<Longrightarrow> 1 \<notin> log_area (lstart (fst st))"
  using fs_okD(2)[of sb st 1] by (fastforce simp: data_start_def)

lemma readsb_cong: "blk 1 st' = blk 1 st \<Longrightarrow> readsb st' = readsb st"
  by (simp add: readsb_def)

text \<open>Log blocks too keep their size.\<close>

lemma put_blk_sizes:
  assumes "put_blk s b st = Some st'" "length b = BSIZE" "\<And>t. length (blk t st) = BSIZE"
  shows "length (blk t st') = BSIZE"
proof -
  obtain m d where st: "st = (m, d)" by fastforce
  obtain i where "snd st' = (let d1 = bwrite_data (lstart m + word_of_int i + 1) b d in d1\<lparr>cache := (cache d1)(s \<mapsto> b)\<rparr>)"
    using assms(1) by (auto simp: put_blk_def log_write_def st Let_def split: if_splits Option.bind_splits)
  then show ?thesis using assms(2) assms(3)[of t] by (auto simp: st blk_def bread_data_def bwrite_data_def Let_def split: option.splits)
qed

lemma put_blk_ok:
  assumes "fs_ok sb st" "put_blk s b st = Some st'" "length b = BSIZE" "s \<noteq> 1"
    and "\<And>c. c < data_start sb \<Longrightarrow> in_use sb st' c"
  shows "fs_ok sb st'" and "data_block sb st' = data_block sb st"
proof -
  note w = put_blk_frame[OF assms(2)]
  have n: "0 \<le> lhn (fst st)" using assms(1) by (simp add: fs_ok_def)
  show d: "data_block sb st' = data_block sb st" using w(1)[OF n] by (simp add: fun_eq_iff data_block_def)
  have "blk 1 st' = blk 1 st" using w(4)[OF n] assms(4) sb_not_log[OF assms(1)] by metis
  then show "fs_ok sb st'"
    using assms put_blk_sizes[OF assms(2,3)] w(1,2)[OF n] readsb_cong[of st' st] d by (simp add: fs_ok_def)
qed

text \<open>Writing a block outside of the bitmap.\<close>

lemma put_other_ok:
  assumes "fs_ok sb st" "put_blk a b st = Some st'" "length b = BSIZE" "a \<noteq> 1"
    and other: "\<And>c. c < unat (sb_size sb) \<Longrightarrow> a \<noteq> BBLOCK c (sb_ninodes sb)"
  shows "fs_ok sb st'" and "data_block sb st' = data_block sb st"
    and "c < unat (sb_size sb) \<Longrightarrow> in_use sb st' c = in_use sb st c"
    and "blk a st' = b" and "t \<noteq> a \<Longrightarrow> t \<notin> log_area (lstart (fst st)) \<Longrightarrow> blk t st' = blk t st"
proof -
  note w = put_blk_frame[OF assms(2)]
  have n: "0 \<le> lhn (fst st)" using assms(1) by (simp add: fs_ok_def)
  have use: "in_use sb st' c = in_use sb st c" if "c < unat (sb_size sb)" for c
  proof -
    have "blk (BBLOCK c (sb_ninodes sb)) st' = blk (BBLOCK c (sb_ninodes sb)) st"
      using w(4)[OF n] other[OF that] BBLOCK_not_log[OF assms(1) that] by metis
    then show ?thesis by (simp add: in_use_def)
  qed
  have "in_use sb st' c" if "c < data_start sb" for c
    using use[of c] that fs_okD(1)[OF assms(1)] assms(1) by (simp add: fs_ok_def)
  from put_blk_ok[OF assms(1-4) this] show "fs_ok sb st'" "data_block sb st' = data_block sb st" by auto
  show "c < unat (sb_size sb) \<Longrightarrow> in_use sb st' c = in_use sb st c" by (rule use)
  show "blk a st' = b" "t \<noteq> a \<Longrightarrow> t \<notin> log_area (lstart (fst st)) \<Longrightarrow> blk t st' = blk t st" using w(3,4)[OF n] by auto
qed

lemma behind_other:
  assumes "fs_ok sb st" "data_start sb \<le> unat a"
  shows "a \<noteq> 1" "c < unat (sb_size sb) \<Longrightarrow> a \<noteq> BBLOCK c (sb_ninodes sb)"
  using assms BBLOCK_nat(2)[OF assms(1), of c] by (auto simp: data_start_def)

lemma data_block_other:
  assumes "fs_ok sb st" "data_block sb st a"
  shows "a \<noteq> 1" "c < unat (sb_size sb) \<Longrightarrow> a \<noteq> BBLOCK c (sb_ninodes sb)"
  using behind_other[OF assms(1)] assms(2) by (auto simp: data_block_def)

lemma put_data_ok:
  assumes "fs_ok sb st" "put_blk a b st = Some st'" "length b = BSIZE" "data_block sb st a"
  shows "fs_ok sb st'" and "data_block sb st' = data_block sb st"
    and "c < unat (sb_size sb) \<Longrightarrow> in_use sb st' c = in_use sb st c"
    and "blk a st' = b" and "t \<noteq> a \<Longrightarrow> t \<notin> log_area (lstart (fst st)) \<Longrightarrow> blk t st' = blk t st"
  using put_other_ok[OF assms(1-3) data_block_other(1)[OF assms(1,4)] data_block_other(2)[OF assms(1,4)]] by auto

lemma test_bit_mask: "(v AND bit_mask bi = 0) = (\<not> bit v (bi mod 8))"
proof -
  have "bit (v AND bit_mask bi) n = (n = bi mod 8 \<and> bit v n)" for n
    by (auto simp: bit_mask_def bit_simps bit_1_iff dest: bit_imp_le_length)
  then show ?thesis by (metis bit_0_eq bot_fun_def bot_bool_def bit_eqI)
qed

lemma bit_or_mask: "bit (v OR bit_mask bi) n = (bit v n \<or> n = bi mod 8)"
proof -
  have "bi mod 8 < 8" by simp
  then show ?thesis by (auto simp: bit_mask_def bit_simps bit_1_iff)
qed

lemma bit_clear_mask: "bit (v AND NOT (bit_mask bi)) n = (bit v n \<and> n \<noteq> bi mod 8)"
  by (auto simp: bit_mask_def bit_simps bit_1_iff dest: bit_imp_le_length)

text \<open>The search of a bitmap block finds its first clear bit.\<close>

lemma find_bit_correct:
  assumes "length data = BSIZE"
  shows "\<exists>r. find_bit data b n bi = Some r \<and>
    (case r of Some k \<Rightarrow> bi \<le> k \<and> k < BPB \<and> b + k < n \<and> \<not> bit (data ! (k div 8)) (k mod 8) \<and> (\<forall>j. bi \<le> j \<and> j < k \<longrightarrow> bit (data ! (j div 8)) (j mod 8))
     | None \<Rightarrow> \<forall>j. bi \<le> j \<and> j < BPB \<and> b + j < n \<longrightarrow> bit (data ! (j div 8)) (j mod 8))"
proof (induction "BPB - bi" arbitrary: bi)
  case 0
  then show ?case by (subst find_bit.simps) auto
next
  case (Suc m)
  show ?case
  proof (cases "b + bi < n")
    case True
    have lt: "bi < BPB" using Suc(2) by linarith
    then have r: "rd data (int (bi div 8)) = Some (data ! (bi div 8))" using assms by (intro rd_nat) (auto simp: BPB_def)
    show ?thesis
    proof (cases "bit (data ! (bi div 8)) (bi mod 8)")
      case bset: True
      have "find_bit data b n bi = find_bit data b n (bi + 1)"
        using r True bset lt by (subst find_bit.simps) (simp add: test_bit_mask)
      moreover have "m = BPB - (bi + 1)" using Suc(2) by simp
      note Suc(1)[OF this]
      moreover have "bi \<le> j \<longleftrightarrow> j = bi \<or> bi + 1 \<le> j" for j by auto
      ultimately show ?thesis using bset by (elim exE) (rename_tac r, case_tac r, auto)
    next
      case False
      then have "find_bit data b n bi = Some (Some bi)"
        using r True lt by (subst find_bit.simps) (simp add: test_bit_mask)
      then show ?thesis using False True lt by auto
    qed
  next
    case False
    then show ?thesis by (subst find_bit.simps) auto
  qed
qed

lemma in_use_at: "k < BPB \<Longrightarrow> BPB dvd b \<Longrightarrow> BBLOCK (b + k) ni = BBLOCK b ni \<and> (b + k) mod BPB = k \<and> (b + k) mod 8 = k mod 8"
proof -
  assume k: "k < BPB" and "BPB dvd b"
  then obtain c where b: "b = BPB * c" by (elim dvdE)
  have p: "BPB > 0" "BPB = 8 * 512" by (auto simp: BPB_def BSIZE_def)
  then have "(b + k) div BPB = b div BPB" "(b + k) mod BPB = k" using k by (auto simp: b)
  moreover have "(b + k) mod 8 = k mod 8" unfolding b p(2) by (simp add: mod_add_left_eq[symmetric])
  ultimately show ?thesis by (simp add: BBLOCK_def)
qed

lemma mod_BPB_8: "c mod BPB mod 8 = c mod 8" "c mod BPB div 8 < BSIZE"
proof -
  have "8 dvd BPB" by (simp add: BPB_def)
  then show "c mod BPB mod 8 = c mod 8" by (rule mod_mod_cancel)
  have "c mod BPB < BPB" by (simp add: BPB_def BSIZE_def)
  then show "c mod BPB div 8 < BSIZE" by (simp add: BPB_def less_mult_imp_div_less)
qed

lemma same_bit: "c div BPB = e div BPB \<Longrightarrow> c mod BPB div 8 = e mod BPB div 8 \<Longrightarrow> c mod 8 = e mod 8 \<Longrightarrow> c = e"
  by (metis mod_BPB_8(1) mult_div_mod_eq)

text \<open>Changing one bit of the bitmap.\<close>

lemma bitmap_update:
  assumes ok: "fs_ok sb st" and c: "c < unat (sb_size sb)"
    and v: "v = blk (BBLOCK c (sb_ninodes sb)) st ! (c mod BPB div 8)" "\<And>n. bit v' n = (if n = c mod 8 then x else bit v n)"
    and x: "x \<or> data_start sb \<le> c"
    and w: "put_blk (BBLOCK c (sb_ninodes sb)) ((blk (BBLOCK c (sb_ninodes sb)) st)[c mod BPB div 8 := v']) st = Some st'"
  shows "fs_ok sb st'" and "data_block sb st' = data_block sb st"
    and "e < unat (sb_size sb) \<Longrightarrow> in_use sb st' e = (if e = c then x else in_use sb st e)"
    and "data_block sb st a \<Longrightarrow> blk a st' = blk a st"
proof -
  have n: "0 \<le> lhn (fst st)" and sz: "\<And>s. length (blk s st) = BSIZE" using ok by (auto simp: fs_ok_def)
  note f = put_blk_frame[OF w n]
  have use: "in_use sb st' e = (if e = c then x else in_use sb st e)" if e: "e < unat (sb_size sb)" for e
  proof (cases "e div BPB = c div BPB")
    case True
    then have "BBLOCK e (sb_ninodes sb) = BBLOCK c (sb_ninodes sb)" by (simp add: BBLOCK_def)
    with f(3) v sz mod_BPB_8(2)[of c] same_bit[of e c] True show ?thesis
      by (auto simp: in_use_def nth_list_update)
  next
    case False
    then have "BBLOCK e (sb_ninodes sb) \<noteq> BBLOCK c (sb_ninodes sb)" using BBLOCK_eq[OF ok e c] by simp
    with f(4) BBLOCK_not_log[OF ok e] have "blk (BBLOCK e (sb_ninodes sb)) st' = blk (BBLOCK e (sb_ninodes sb)) st" by metis
    with False show ?thesis by (auto simp: in_use_def)
  qed
  then show "e < unat (sb_size sb) \<Longrightarrow> in_use sb st' e = (if e = c then x else in_use sb st e)" by blast
  have "in_use sb st' e" if "e < data_start sb" for e
    using use[of e] x that ok fs_okD(1)[OF ok] by (auto simp: fs_ok_def)
  from put_blk_ok[OF ok w _ BBLOCK_not_1[OF ok c] this] sz
  show "fs_ok sb st'" "data_block sb st' = data_block sb st" by auto
  show "data_block sb st a \<Longrightarrow> blk a st' = blk a st"
    using f(4) data_block_not_meta[OF ok _ c] by (auto simp: data_block_def)
qed

text \<open>What an allocation does. The block is behind the metadata; it can be one of the log.\<close>

definition allocated :: "superblock \<Rightarrow> store \<Rightarrow> 32 word \<Rightarrow> store \<Rightarrow> bool" where
  "allocated sb st a st' \<longleftrightarrow> data_start sb \<le> unat a \<and> a < sb_size sb \<and> \<not> in_use sb st (unat a) \<and> (\<forall>b < unat a. in_use sb st b) \<and>
     fs_ok sb st' \<and> data_block sb st' = data_block sb st \<and> blk a st' = replicate BSIZE 0 \<and>
     (\<forall>c < unat (sb_size sb). in_use sb st' c \<longleftrightarrow> c = unat a \<or> in_use sb st c) \<and>
     (\<forall>s. data_block sb st s \<longrightarrow> s \<noteq> a \<longrightarrow> blk s st' = blk s st)"

lemma bzero_put: "fs_ok sb st \<Longrightarrow> bzero a st = put_blk a (replicate BSIZE 0) st"
proof -
  assume "fs_ok sb st"
  then have l: "length (blk a st) = BSIZE" by (simp add: fs_ok_def)
  then have "k_memset (blk a st) 0 0 BSIZE = Some (blit (blk a st) 0 (replicate BSIZE 0))"
    by (simp add: k_memset_blit)
  with l show ?thesis by (simp add: bzero_def blit_def)
qed

lemma in_use_block:
  assumes "k < BPB" "BPB dvd b"
  shows "in_use sb st (b + k) \<longleftrightarrow> bit (blk (BBLOCK b (sb_ninodes sb)) st ! (k div 8)) (k mod 8)"
  using in_use_at[OF assms, of "sb_ninodes sb"] by (simp add: in_use_def)

lemma set_bit_in_eq:
  "length data = BSIZE \<Longrightarrow> k < BPB \<Longrightarrow> set_bit_in data k = Some (data[k div 8 := data ! (k div 8) OR bit_mask k])"
  by (simp add: set_bit_in_def rd_def wr_def BPB_def)

text \<open>Taking a free block.\<close>

lemma take_block:
  assumes ok: "fs_ok sb st" and b: "BPB dvd b" "k < BPB" "b + k < unat (sb_size sb)"
    and free: "\<not> in_use sb st (b + k)" "\<forall>c < b + k. in_use sb st c"
    and put: "set_bit_in (blk (BBLOCK b (sb_ninodes sb)) st) k = Some data" "put_blk (BBLOCK b (sb_ninodes sb)) data st = Some st1"
    and zero: "bzero (of_nat (b + k)) st1 = Some st2"
  shows "allocated sb st (of_nat (b + k)) st2"
proof -
  let ?c = "b + k" and ?a = "of_nat (b + k) :: 32 word"
  have sz: "length (blk s st) = BSIZE" for s using ok by (simp add: fs_ok_def)
  have ua: "unat ?a = ?c"
    using b(3) ok by (simp only: unat_of_nat) (simp add: fs_ok_def)
  have da: "data_start sb \<le> unat ?a" "?a < sb_size sb"
    using ok b(3) free(1) ua by (auto simp: fs_ok_def word_less_nat_alt not_less[symmetric] simp del: of_nat_add)
  note at = in_use_at[OF b(2,1), of "sb_ninodes sb"]
  have dat: "data = (blk (BBLOCK ?c (sb_ninodes sb)) st)[?c mod BPB div 8 := blk (BBLOCK ?c (sb_ninodes sb)) st ! (?c mod BPB div 8) OR bit_mask k]"
    using put(1) set_bit_in_eq[OF sz b(2)] at by simp
  have bits: "bit (blk (BBLOCK ?c (sb_ninodes sb)) st ! (?c mod BPB div 8) OR bit_mask k) n =
      (if n = ?c mod 8 then True else bit (blk (BBLOCK ?c (sb_ninodes sb)) st ! (?c mod BPB div 8)) n)" for n
    using at by (simp add: bit_or_mask)
  have w: "put_blk (BBLOCK ?c (sb_ninodes sb)) ((blk (BBLOCK ?c (sb_ninodes sb)) st)
      [?c mod BPB div 8 := blk (BBLOCK ?c (sb_ninodes sb)) st ! (?c mod BPB div 8) OR bit_mask k]) st = Some st1"
    using put(2) dat at by simp
  note u = bitmap_update[OF ok b(3) refl bits disjI1[OF TrueI] w]
  have z: "put_blk ?a (replicate BSIZE 0) st1 = Some st2" using zero bzero_put[OF u(1)] by simp
  note p = put_other_ok[OF u(1) z _ behind_other[OF u(1) da(1)]]
  have "blk s st2 = blk s st" if "data_block sb st s" "s \<noteq> ?a" for s
  proof -
    have "data_block sb st1 s" using that u(2) by simp
    then have "blk s st2 = blk s st1" using p(5) that(2) by (simp add: data_block_def)
    then show ?thesis using u(4)[OF that(1)] by simp
  qed
  then show ?thesis
    unfolding allocated_def ua using da[unfolded ua] da(2) free p(1-4) u(2,3) by simp
qed

definition take_at :: "superblock \<Rightarrow> nat \<Rightarrow> nat \<Rightarrow> store \<Rightarrow> (32 word \<times> store) option" where
  "take_at sb b k st = do {
     data \<leftarrow> set_bit_in (blk (BBLOCK b (sb_ninodes sb)) st) k;
     st \<leftarrow> put_blk (BBLOCK b (sb_ninodes sb)) data st;
     st \<leftarrow> bzero (of_nat (b + k)) st;
     Some (of_nat (b + k), st)
   }"

lemma take_at_ok:
  assumes "fs_ok sb st" "BPB dvd b" "k < BPB" "b + k < unat (sb_size sb)" "\<not> in_use sb st (b + k)" "\<forall>c < b + k. in_use sb st c"
    and "take_at sb b k st = Some (a, st')"
  shows "allocated sb st a st'"
  using assms(7) take_block[OF assms(1-6)] by (auto simp: take_at_def simp del: of_nat_add split: Option.bind_splits)

lemma take_at_total:
  assumes ok: "fs_ok sb st" and k: "k < BPB" and room: "log_room (n + 2) st"
  shows "\<exists>a st'. take_at sb b k st = Some (a, st') \<and> log_room n st'"
proof -
  let ?d = "blk (BBLOCK b (sb_ninodes sb)) st"
  have sz: "length ?d = BSIZE" using ok by (simp add: fs_ok_def)
  obtain data where d: "set_bit_in ?d k = Some data" "length data = BSIZE" using set_bit_in_eq[OF sz k] sz by auto
  obtain st1 where 1: "put_blk (BBLOCK b (sb_ninodes sb)) data st = Some st1" "log_room (Suc n) st1"
    using put_blk_room[of "Suc n" st "BBLOCK b (sb_ninodes sb)" data] room by auto
  have "length (blk (of_nat (b + k)) st1) = BSIZE" using put_blk_sizes[OF 1(1) d(2)] ok by (simp add: fs_ok_def)
  then obtain b1 where "k_memset (blk (of_nat (b + k)) st1) 0 0 BSIZE = Some b1" by (simp add: k_memset_blit)
  moreover obtain st2 where "put_blk (of_nat (b + k)) b1 st1 = Some st2" "log_room n st2"
    using put_blk_room[of n st1 "of_nat (b + k)" b1] 1(2) by auto
  ultimately show ?thesis using d 1 by (simp add: take_at_def bzero_def)
qed

lemma balloc_loop_ok:
  assumes ok: "fs_ok sb st"
  shows "BPB dvd b \<Longrightarrow> \<forall>c < b. c < unat (sb_size sb) \<longrightarrow> in_use sb st c \<Longrightarrow>
    (case balloc_loop sb b st of Some (a, st') \<Rightarrow> allocated sb st a st' \<and> (\<forall>n. log_room (n + 2) st \<longrightarrow> log_room n st')
     | None \<Rightarrow> log_room 2 st \<longrightarrow> (\<forall>c < unat (sb_size sb). in_use sb st c))"
proof (induction "unat (sb_size sb) - b" arbitrary: b rule: less_induct)
  case less
  show ?case
  proof (cases "b < unat (sb_size sb)")
    case False
    with less.prems show ?thesis by (subst balloc_loop.simps) auto
  next
    case True
    let ?d = "blk (BBLOCK b (sb_ninodes sb)) st"
    have sz: "length ?d = BSIZE" using ok by (simp add: fs_ok_def)
    obtain r where r: "find_bit ?d b (unat (sb_size sb)) 0 = Some r" and
      fb: "case r of Some k \<Rightarrow> k < BPB \<and> b + k < unat (sb_size sb) \<and> \<not> bit (?d ! (k div 8)) (k mod 8) \<and> (\<forall>j < k. bit (?d ! (j div 8)) (j mod 8))
       | None \<Rightarrow> \<forall>j. j < BPB \<and> b + j < unat (sb_size sb) \<longrightarrow> bit (?d ! (j div 8)) (j mod 8)"
      using find_bit_correct[OF sz, of b "unat (sb_size sb)" 0] by (auto split: option.splits)
    show ?thesis
    proof (cases r)
      case None
      have "in_use sb st c" if "c < b + BPB" "c < unat (sb_size sb)" for c
      proof (cases "c < b")
        case False
        with that fb None in_use_block[of "c - b" b sb st] less.prems(1) show ?thesis by simp
      qed (use less.prems that in auto)
      moreover have "BPB dvd b + BPB" "unat (sb_size sb) - (b + BPB) < unat (sb_size sb) - b"
        using less.prems(1) True by (auto simp: BPB_def BSIZE_def)
      ultimately show ?thesis
        using less.hyps[of "b + BPB"] True r None by (subst balloc_loop.simps) simp
    next
      case (Some k)
      with fb have k: "k < BPB" "b + k < unat (sb_size sb)" "\<not> bit (?d ! (k div 8)) (k mod 8)" "\<And>j. j < k \<Longrightarrow> bit (?d ! (j div 8)) (j mod 8)" by auto
      have low: "in_use sb st c" if "c < b + k" for c
      proof (cases "c < b")
        case False
        with that k in_use_block[of "c - b" b sb st] less.prems(1) show ?thesis by simp
      qed (use less.prems(2) True in auto)
      have free: "\<not> in_use sb st (b + k)" using in_use_block[OF k(1) less.prems(1), of sb st] k(3) by simp
      have e: "balloc_loop sb b st = take_at sb b k st"
        using True r Some by (subst balloc_loop.simps) (simp add: Let_def take_at_def)
      show ?thesis
      proof (cases "take_at sb b k st")
        case None
        then have "\<not> log_room 2 st" using take_at_total[OF ok k(1), of 0 b] by (auto simp: numeral_2_eq_2)
        then show ?thesis by (simp add: e None)
      next
        case (Some p)
        then show ?thesis using take_at_ok[OF ok less.prems(1) k(1,2) free] low take_at_total[OF ok k(1), of _ b] by (force simp: e)
      qed
    qed
  qed
qed

lemma balloc_ok:
  assumes "fs_ok sb st"
  shows "balloc st = Some (a, st') \<Longrightarrow> allocated sb st a st'"
    and "balloc st = Some (a, st') \<Longrightarrow> log_room (n + 2) st \<Longrightarrow> log_room n st'"
    and "balloc st = None \<Longrightarrow> log_room 2 st \<Longrightarrow> c < unat (sb_size sb) \<Longrightarrow> in_use sb st c"
proof -
  have "balloc st = balloc_loop sb 0 st" using assms by (simp add: balloc_def fs_ok_def)
  with balloc_loop_ok[OF assms, of 0]
  show "balloc st = Some (a, st') \<Longrightarrow> allocated sb st a st'"
    and "balloc st = Some (a, st') \<Longrightarrow> log_room (n + 2) st \<Longrightarrow> log_room n st'"
    and "balloc st = None \<Longrightarrow> log_room 2 st \<Longrightarrow> c < unat (sb_size sb) \<Longrightarrow> in_use sb st c" by auto
qed

lemma bfree_step:
  assumes ok: "fs_ok sb st" and a: "data_start sb \<le> unat a" "a < sb_size sb" and free: "bfree a st = Some st'"
  shows "in_use sb st (unat a)" "fs_ok sb st'" "data_block sb st' = data_block sb st"
    and "c < unat (sb_size sb) \<Longrightarrow> in_use sb st' c \<longleftrightarrow> c \<noteq> unat a \<and> in_use sb st c"
    and "data_block sb st s \<Longrightarrow> blk s st' = blk s st"
proof -
  let ?c = "unat a" and ?s = "BBLOCK (unat a) (sb_ninodes sb)"
  let ?v = "blk ?s st ! (?c mod BPB div 8)"
  have c: "?c < unat (sb_size sb)" using a by (simp add: word_less_nat_alt)
  have sz: "length (blk s st) = BSIZE" for s using ok by (simp add: fs_ok_def)
  have r: "readsb st = Some sb" using ok by (simp add: fs_ok_def)
  have rd: "rd (blk ?s st) (int (?c mod BPB div 8)) = Some ?v" using sz mod_BPB_8(2)[of ?c] by (intro rd_nat) simp
  have bitv: "bit ?v (?c mod 8)" and w: "put_blk ?s ((blk ?s st)[?c mod BPB div 8 := ?v AND NOT (bit_mask (?c mod BPB))]) st = Some st'"
    using free r rd sz mod_BPB_8[of ?c] by (auto simp: bfree_def Let_def test_bit_mask wr_def split: if_splits)
  then show "in_use sb st ?c" by (simp add: in_use_def)
  have bits: "bit (?v AND NOT (bit_mask (?c mod BPB))) n = (if n = ?c mod 8 then False else bit ?v n)" for n
    by (auto simp: bit_clear_mask mod_BPB_8(1))
  note u = bitmap_update[OF ok c refl bits _ w]
  then show "fs_ok sb st'" "data_block sb st' = data_block sb st"
    and "c < unat (sb_size sb) \<Longrightarrow> in_use sb st' c \<longleftrightarrow> c \<noteq> unat a \<and> in_use sb st c"
    and "data_block sb st s \<Longrightarrow> blk s st' = blk s st" using a by auto
qed

lemma bfree_total:
  assumes ok: "fs_ok sb st" and a: "in_use sb st (unat a)" and room: "log_room (Suc n) st"
  shows "\<exists>st'. bfree a st = Some st' \<and> log_room n st'"
proof -
  let ?c = "unat a" and ?s = "BBLOCK (unat a) (sb_ninodes sb)"
  have sz: "length (blk s st) = BSIZE" for s using ok by (simp add: fs_ok_def)
  have "rd (blk ?s st) (int (?c mod BPB div 8)) = Some (blk ?s st ! (?c mod BPB div 8))"
    using sz mod_BPB_8(2)[of ?c] by (intro rd_nat) simp
  moreover have "wr (blk ?s st) (int (?c mod BPB div 8)) v = Some ((blk ?s st)[?c mod BPB div 8 := v])" for v
    using sz mod_BPB_8(2)[of ?c] by (intro wr_nat) simp
  moreover have "readsb st = Some sb" using ok by (simp add: fs_ok_def)
  ultimately show ?thesis
    using a put_blk_room[OF room] by (simp add: bfree_def Let_def test_bit_mask mod_BPB_8(1) in_use_def)
qed

text \<open>The allocator and the data blocks: as long as one is free, the block is a data block.\<close>

lemma before_log: "fs_ok sb st \<Longrightarrow> data_block sb st a \<Longrightarrow> a < lstart (fst st)"
proof -
  assume ok: "fs_ok sb st" and d: "data_block sb st a"
  have "of_nat (unat a) \<notin> log_area (lstart (fst st))" using d by (simp add: data_block_def)
  then have "\<not> unat (lstart (fst st)) \<le> unat a" using ok d by (auto simp: fs_ok_def data_block_def word_less_nat_alt)
  then show ?thesis by (simp add: word_less_nat_alt)
qed

lemma spare_card: "spare sb st = card {b. b < unat (sb_size sb) \<and> data_block sb st (of_nat b) \<and> \<not> in_use sb st b}"
proof -
  have "spare sb st = card (set (filter (\<lambda>b. data_block sb st (of_nat b) \<and> \<not> in_use sb st b) [0..<unat (sb_size sb)]))"
    unfolding spare_def by (rule distinct_card[symmetric]) simp
  also have "set (filter (\<lambda>b. data_block sb st (of_nat b) \<and> \<not> in_use sb st b) [0..<unat (sb_size sb)]) =
      {b. b < unat (sb_size sb) \<and> data_block sb st (of_nat b) \<and> \<not> in_use sb st b}" by auto
  finally show ?thesis .
qed

lemma spare_cong:
  "data_block sb st' = data_block sb st \<Longrightarrow> (\<And>c. c < unat (sb_size sb) \<Longrightarrow> in_use sb st' c = in_use sb st c) \<Longrightarrow> spare sb st' = spare sb st"
  unfolding spare_card by (auto intro!: arg_cong[of _ _ card])

lemma spare_pos: "0 < spare sb st \<longleftrightarrow> (\<exists>b < unat (sb_size sb). data_block sb st (of_nat b) \<and> \<not> in_use sb st b)"
  by (auto simp: spare_card card_gt_0_iff)

lemma allocated_data:
  assumes ok: "fs_ok sb st" and al: "allocated sb st a st'" and sp: "0 < spare sb st"
  shows "data_block sb st a" "spare sb st = Suc (spare sb st')"
proof -
  note A = al[unfolded allocated_def]
  obtain b where b: "b < unat (sb_size sb)" "data_block sb st (of_nat b)" "\<not> in_use sb st b" using sp by (auto simp: spare_pos)
  have ub: "unat (of_nat b :: 32 word) = b" using b(1) ok by (simp add: unat_of_nat fs_ok_def)
  have "unat a \<le> b" using A b(3) not_less by blast
  moreover have "b < unat (lstart (fst st))" using before_log[OF ok b(2)] ub by (simp add: word_less_nat_alt)
  ultimately have "a \<notin> log_area (lstart (fst st))" using ok by (auto simp: fs_ok_def word_le_nat_alt)
  then show d: "data_block sb st a" using A by (simp add: data_block_def)
  let ?F = "\<lambda>st. {b. b < unat (sb_size sb) \<and> data_block sb st (of_nat b) \<and> \<not> in_use sb st b}"
  have "?F st = insert (unat a) (?F st')" "unat a \<notin> ?F st'" using A d by (auto simp: word_less_nat_alt)
  then show "spare sb st = Suc (spare sb st')" unfolding spare_card by (simp add: card_insert_if)
qed

lemma balloc_data:
  assumes "fs_ok sb st" "balloc st = Some (a, st')" "0 < spare sb st"
  shows "allocated sb st a st'" "data_block sb st a" "spare sb st = Suc (spare sb st')"
  using balloc_ok(1)[OF assms(1,2)] allocated_data[OF assms(1) _ assms(3)] by auto

text \<open>When the last data block is taken, the next one that is handed out is the header of the log.\<close>

lemma balloc_log_block:
  assumes ok: "fs_ok sb st" and "spare sb st = 0" "log_room 2 st" "lstart (fst st) < sb_size sb" "\<not> in_use sb st (unat (lstart (fst st)))"
  shows "\<exists>st'. balloc st = Some (lstart (fst st), st')"
proof -
  let ?l = "lstart (fst st)"
  have low: "in_use sb st b" if "b < unat ?l" for b
  proof (cases "b < data_start sb")
    case False
    have b: "b < unat (sb_size sb)" using that ok by (simp add: fs_ok_def)
    then have ub: "unat (of_nat b :: 32 word) = b" using ok by (simp add: unat_of_nat fs_ok_def)
    then have "of_nat b \<notin> log_area ?l" using ok that by (auto simp: fs_ok_def word_le_nat_alt)
    then have "data_block sb st (of_nat b)" using b ub False by (simp add: data_block_def word_less_nat_alt)
    then show ?thesis using assms(2) b spare_pos[of sb st] by auto
  qed (use ok in \<open>simp add: fs_ok_def\<close>)
  obtain a st' where b: "balloc st = Some (a, st')"
    using balloc_ok(3)[OF ok _ assms(3), of "unat ?l"] assms(4,5) by (cases "balloc st") (auto simp: word_less_nat_alt)
  note A = balloc_ok(1)[OF ok b, unfolded allocated_def]
  have "unat a = unat ?l" using A low[of "unat a"] assms(5) by (metis linorder_neqE_nat)
  then show ?thesis using b by (simp add: word_unat_eq_iff)
qed

section \<open>The disk that mkfs makes\<close>

text \<open>The super block and the bitmap of the image (src/src/mkfs.c): the first blocks are marked, and neither the free ones nor the log.\<close>

definition mkfs_super :: block where
  "mkfs_super = le32 4272 @ le32 (985 + 1024 + 2048) @ le32 200 @ le32 10 @ replicate (BSIZE - 16) 0"

definition mkfs_balloc :: "nat \<Rightarrow> block option" where
  "mkfs_balloc used = (if used < BSIZE * 8
     then fold (\<lambda>i buf. buf \<bind> (\<lambda>b. set_bit_in b i)) [0..<used] (Some (replicate BSIZE 0)) else None)"

definition mkfs_sb :: superblock where
  "mkfs_sb = \<lparr>sb_size = 4272, sb_nblocks = 4057, sb_ninodes = 200, sb_nlog = 10\<rparr>"

lemma mkfs_bits:
  "n \<le> BPB \<Longrightarrow> \<exists>b. fold (\<lambda>i buf. buf \<bind> (\<lambda>b. set_bit_in b i)) [0..<n] (Some (replicate BSIZE 0)) = Some b \<and> length b = BSIZE \<and>
    (\<forall>j < BPB. bit (b ! (j div 8)) (j mod 8) \<longleftrightarrow> j < n)"
proof (induction n)
  case 0
  then show ?case by (auto simp: BPB_def less_mult_imp_div_less)
next
  case (Suc n)
  then obtain b where b: "fold (\<lambda>i buf. buf \<bind> (\<lambda>b. set_bit_in b i)) [0..<n] (Some (replicate BSIZE 0)) = Some b"
    "length b = BSIZE" "\<And>j. j < BPB \<Longrightarrow> bit (b ! (j div 8)) (j mod 8) \<longleftrightarrow> j < n" by auto
  have n: "n < BPB" "n div 8 < BSIZE" using Suc.prems by (auto simp: BPB_def less_mult_imp_div_less)
  let ?b = "b[n div 8 := b ! (n div 8) OR bit_mask n]"
  have "bit (?b ! (j div 8)) (j mod 8) \<longleftrightarrow> j < Suc n" if "j < BPB" for j
  proof (cases "j div 8 = n div 8")
    case True
    then have "j mod 8 = n mod 8 \<longleftrightarrow> j = n" by (metis mult_div_mod_eq)
    with True b(2) b(3)[of j] that n show ?thesis by (auto simp: bit_or_mask)
  next
    case False
    then have "j \<noteq> n" by auto
    with False b(3)[OF that] show ?thesis by auto
  qed
  then show ?case using b(1,2) set_bit_in_eq[OF b(2) n(1)] by simp
qed

text \<open>Every image of mkfs is well-formed, whatever the files in it, when the kernel has found its log.\<close>

lemma log_area_mkfs: "log_area 4262 = {4262, 4263, 4264, 4265, 4266, 4267, 4268, 4269, 4270, 4271, 4272}"
proof -
  have "{0..<10} = {0, 1, 2, 3, 4, 5, 6, 7, 8, 9 :: nat}" by auto
  then show ?thesis by (simp add: log_area_def slot_def)
qed

lemma mkfs_ok:
  assumes b: "blk 1 st = mkfs_super" "mkfs_balloc used = Some (blk 203 st)" "blk 204 st = replicate BSIZE 0" "\<And>s. length (blk s st) = BSIZE"
    and l: "lstart (fst st) = 4262" "0 \<le> lhn (fst st)" and u: "205 \<le> used"
  shows "fs_ok mkfs_sb st" "b < 4272 \<Longrightarrow> in_use mkfs_sb st b \<longleftrightarrow> b < used"
proof -
  have sb: "sb_ninodes mkfs_sb = 200" "sb_size mkfs_sb = 4272" by (simp_all add: mkfs_sb_def)
  have used: "used < BPB" and bits: "\<And>j. j < BPB \<Longrightarrow> bit (blk 203 st ! (j div 8)) (j mod 8) \<longleftrightarrow> j < used"
    using b(2) mkfs_bits[of used] by (auto simp: mkfs_balloc_def BPB_def split: if_splits)
  have use: "in_use mkfs_sb st b \<longleftrightarrow> b < used" if "b < 4272" for b
  proof (cases "b < BPB")
    case True
    then have "BBLOCK b 200 = 203" "b mod BPB = b" by (simp_all add: BBLOCK_def IPB_def BSIZE_def)
    then show ?thesis using bits[OF True] by (simp add: in_use_def sb)
  next
    case False
    then have "b div BPB = 1" "b mod BPB div 8 < BSIZE" using that mod_BPB_8(2)[of b] by (simp_all add: BPB_def BSIZE_def div_eq_dividend_iff)
    then have "BBLOCK b 200 = 204" "\<not> bit (replicate BSIZE (0 :: byte) ! (b mod BPB div 8)) (b mod 8)" by (simp_all add: BBLOCK_def IPB_def BSIZE_def)
    then show ?thesis using b(3) False used by (simp add: in_use_def sb)
  qed
  then show "b < 4272 \<Longrightarrow> in_use mkfs_sb st b \<longleftrightarrow> b < used" .
  have d: "data_start mkfs_sb = 205" by code_simp
  have "readsb st = Some mkfs_sb" unfolding readsb_def b(1) by code_simp
  moreover have "of_nat b \<in> log_area 4262" if "b < 4272" "4262 \<le> b" for b
  proof -
    have "b = 4262 \<or> b = 4263 \<or> b = 4264 \<or> b = 4265 \<or> b = 4266 \<or> b = 4267 \<or> b = 4268 \<or> b = 4269 \<or> b = 4270 \<or> b = 4271"
      using that by presburger
    then show ?thesis unfolding log_area_mkfs by auto
  qed
  moreover have "s \<ge> 4262" if "s \<in> log_area 4262" for s using that unfolding log_area_mkfs by auto
  ultimately show "fs_ok mkfs_sb st" unfolding fs_ok_def d l(1) using use u b(4) l(2) by (auto simp: sb)
qed

lemma mkfs_data_block:
  assumes "lstart (fst st) = 4262" "205 \<le> b" "b < 4262"
  shows "data_block mkfs_sb st (of_nat b)"
proof -
  have u: "unat (of_nat b :: 32 word) = b" using assms(3) by (simp add: unat_of_nat)
  have "data_start mkfs_sb = 205" by code_simp
  moreover have "of_nat b \<notin> log_area 4262"
  proof
    assume "of_nat b \<in> log_area 4262"
    then have "4262 \<le> unat (of_nat b :: 32 word)" unfolding log_area_mkfs by auto
    then show False using u assms(3) by simp
  qed
  ultimately show ?thesis using assms u by (simp add: data_block_def word_less_nat_alt mkfs_sb_def)
qed

text \<open>An image without files, in a transaction.\<close>

definition demo_disk :: disk where
  "demo_disk = (\<lambda>s. if s = 1 then mkfs_super
     else if s = 203 then (case mkfs_balloc 205 of Some b \<Rightarrow> b | None \<Rightarrow> []) else replicate BSIZE 0)"

definition demo_store :: store where
  "demo_store = ((boot_log 4262 10)\<lparr>lbusy := True\<rparr>, crashed demo_disk)"

lemma demo_blk: "blk s demo_store = demo_disk s"
  by (simp add: blk_def demo_store_def bread_data_def crashed_def)

lemma demo_start: "lstart (fst demo_store) = 4262" "0 \<le> lhn (fst demo_store)"
  by (simp_all add: demo_store_def boot_log_def)

lemma demo_bitmap: "mkfs_balloc 205 = Some (blk 203 demo_store)" "length (blk 203 demo_store) = BSIZE"
  using mkfs_bits[of 205] by (auto simp: mkfs_balloc_def demo_blk demo_disk_def BSIZE_def BPB_def)

lemma demo_size: "length (blk s demo_store) = BSIZE"
proof (cases "s = 203")
  case False
  have "length mkfs_super = BSIZE" by code_simp
  with False show ?thesis by (simp add: demo_blk demo_disk_def)
qed (use demo_bitmap in simp)

lemma demo_image: "blk 1 demo_store = mkfs_super" "blk 204 demo_store = replicate BSIZE 0"
  by (simp_all add: demo_blk demo_disk_def)

lemmas demo_ok = mkfs_ok(1)[OF demo_image(1) demo_bitmap(1) demo_image(2) demo_size demo_start order_refl]
lemmas demo_in_use = mkfs_ok(2)[OF demo_image(1) demo_bitmap(1) demo_image(2) demo_size demo_start order_refl]

lemma demo_spare: "2 \<le> spare mkfs_sb demo_store"
proof -
  let ?F = "{b. b < unat (sb_size mkfs_sb) \<and> data_block mkfs_sb demo_store (of_nat b) \<and> \<not> in_use mkfs_sb demo_store b}"
  have "{205, 206} \<subseteq> ?F" using mkfs_data_block[OF demo_start(1), of 205] mkfs_data_block[OF demo_start(1), of 206]
    demo_in_use[of 205] demo_in_use[of 206] by (auto simp: mkfs_sb_def)
  then have "card {205, 206 :: nat} \<le> card ?F" by (intro card_mono) auto
  then show ?thesis by (simp add: spare_card)
qed

lemma demo_room: "log_room 9 demo_store"
  by (simp add: log_room_def demo_store_def boot_log_def LOGSIZE_def)

text \<open>
  C28: \<open>balloc\<close> takes the first block that the bitmap marks as free, marks it, zeroes it and changes
  no other data block or bit; it panics only when every block is in use. The block is a data block as long as one is free, and
  never one of the metadata. Freeing the block restores the bitmap.
\<close>

theorem balloc_first_free:
  assumes "fs_ok sb st" "log_room 3 st"
  shows "case balloc st of
      None \<Rightarrow> \<forall>b < unat (sb_size sb). in_use sb st b
    | Some (a, st') \<Rightarrow> data_start sb \<le> unat a \<and> a < sb_size sb \<and> \<not> in_use sb st (unat a) \<and> (\<forall>b < unat a. in_use sb st b) \<and>
        (0 < spare sb st \<longrightarrow> data_block sb st a \<and> spare sb st = Suc (spare sb st')) \<and>
        blk a st' = replicate BSIZE 0 \<and> (\<forall>s. data_block sb st s \<longrightarrow> s \<noteq> a \<longrightarrow> blk s st' = blk s st) \<and>
        (\<forall>b < unat (sb_size sb). in_use sb st' b \<longleftrightarrow> b = unat a \<or> in_use sb st b) \<and> fs_ok sb st' \<and>
        (\<exists>st''. bfree a st' = Some st'' \<and> fs_ok sb st'' \<and> (\<forall>b < unat (sb_size sb). in_use sb st'' b \<longleftrightarrow> in_use sb st b))"
proof (cases "balloc st")
  case None
  moreover have "log_room 2 st" using assms(2) by (simp add: log_room_def)
  ultimately show ?thesis using balloc_ok(3)[OF assms(1)] by auto
next
  case (Some p)
  then obtain a st' where b: "balloc st = Some (a, st')" by (cases p) auto
  note al = balloc_ok(1)[OF assms(1) b, unfolded allocated_def]
  have room: "log_room (Suc 0) st'" using balloc_ok(2)[OF assms(1) b, of 1] assms(2) by (simp add: numeral_3_eq_3 numeral_2_eq_2)
  have "unat a < unat (sb_size sb)" using al by (auto simp: word_less_nat_alt)
  with al have a': "fs_ok sb st'" "in_use sb st' (unat a)" "data_start sb \<le> unat a" "a < sb_size sb" by auto
  obtain st'' where f: "bfree a st' = Some st''" using bfree_total[OF a'(1,2) room] by blast
  note fr = bfree_step[OF a'(1,3,4) f]
  have "in_use sb st'' c \<longleftrightarrow> in_use sb st c" if "c < unat (sb_size sb)" for c using fr(4)[OF that] al that by auto
  with f fr(2) have "\<exists>st''. bfree a st' = Some st'' \<and> fs_ok sb st'' \<and> (\<forall>b < unat (sb_size sb). in_use sb st'' b \<longleftrightarrow> in_use sb st b)" by blast
  with al balloc_data(2,3)[OF assms(1) b] show ?thesis unfolding b by simp
qed

theorem balloc_first_free_witness:
  "\<exists>st'. balloc demo_store = Some (205, st') \<and> fs_ok mkfs_sb st' \<and> blk 205 st' = replicate BSIZE 0 \<and> in_use mkfs_sb st' 205"
proof -
  have room: "log_room 3 demo_store" using demo_room by (simp add: log_room_def)
  have free: "\<not> in_use mkfs_sb demo_store 205" using demo_in_use by auto
  note t = balloc_first_free[OF demo_ok room]
  obtain a st' where b: "balloc demo_store = Some (a, st')"
    using t free by (auto simp: mkfs_sb_def split: option.splits)
  with t have a: "\<not> in_use mkfs_sb demo_store (unat a)" "\<forall>b < unat a. in_use mkfs_sb demo_store b" "a < sb_size mkfs_sb" by auto
  have "unat a < 4272" using a(3) by (simp add: mkfs_sb_def word_less_nat_alt)
  then have "205 \<le> unat a" using a(1) demo_in_use[of "unat a"] by auto
  moreover have "\<not> 205 < unat a" using a(2) free by blast
  ultimately have "unat a = 205" by simp
  then have "a = 205" by (simp add: word_unat_eq_iff)
  with t b show ?thesis by (simp add: mkfs_sb_def)
qed

end
