(* ===== verification/Inode.thy ===== *)
theory Inode
  imports Bitmap
begin

text \<open>
  The inodes of src/src/fs.c: their copy on the disk, the map from the blocks of a file to disk
  blocks, and reading, writing and truncating a file. The routines that receive a pointer to an
  inode take the inode and return it changed. A device inode is read and written by the driver of
  its major number, which is named in the result. None is a panic.
\<close>

definition NDIRECT :: nat where "NDIRECT = 124"
definition NINDIRECT :: nat where "NINDIRECT = BSIZE div 4"
definition MAXFILE :: nat where "MAXFILE = NDIRECT + NINDIRECT"
definition T_DIR :: "16 word" where "T_DIR = 1"
definition T_FILE :: "16 word" where "T_FILE = 2"
definition T_DEV :: "16 word" where "T_DEV = 3"
definition NDEV :: int where "NDEV = 10"

record inode =
  idev :: "32 word"
  inum :: "32 word"
  iref :: int
  ibusy :: bool
  ivalid :: bool
  itype :: "16 word"
  major :: "16 word"
  minor :: "16 word"
  nlink :: "16 word"
  isize :: "32 word"
  addrs :: "32 word list"

section \<open>The copy on the disk\<close>

fun store32s :: "block \<Rightarrow> nat \<Rightarrow> 32 word list \<Rightarrow> block option" where
  "store32s b p [] = Some b"
| "store32s b p (w # ws) = do { b \<leftarrow> store32 b p w; store32s b (p + 4) ws }"

fun load32s :: "block \<Rightarrow> nat \<Rightarrow> nat \<Rightarrow> 32 word list option" where
  "load32s b p 0 = Some []"
| "load32s b p (Suc n) = do { w \<leftarrow> load32 b p; ws \<leftarrow> load32s b (p + 4) n; Some (w # ws) }"

text \<open>The offset of an inode in its block.\<close>

definition dinode_at :: "32 word \<Rightarrow> nat" where
  "dinode_at i = unat i mod IPB * 512"

definition store_dinode :: "inode \<Rightarrow> block \<Rightarrow> nat \<Rightarrow> block option" where
  "store_dinode ip b p = do {
     b \<leftarrow> store16 b p (itype ip);
     b \<leftarrow> store16 b (p + 2) (major ip);
     b \<leftarrow> store16 b (p + 4) (minor ip);
     b \<leftarrow> store16 b (p + 6) (nlink ip);
     b \<leftarrow> store32 b (p + 8) (isize ip);
     store32s b (p + 12) (addrs ip)
   }"

definition load_dinode :: "inode \<Rightarrow> block \<Rightarrow> nat \<Rightarrow> inode option" where
  "load_dinode ip b p = do {
     t \<leftarrow> load16 b p;
     ma \<leftarrow> load16 b (p + 2);
     mi \<leftarrow> load16 b (p + 4);
     nl \<leftarrow> load16 b (p + 6);
     sz \<leftarrow> load32 b (p + 8);
     as \<leftarrow> load32s b (p + 12) (NDIRECT + 1);
     Some (ip\<lparr>itype := t, major := ma, minor := mi, nlink := nl, isize := sz, addrs := as\<rparr>)
   }"

definition iupdate :: "inode \<Rightarrow> store \<Rightarrow> store option" where
  "iupdate ip st = do {
     let s = IBLOCK (unat (inum ip));
     b \<leftarrow> store_dinode ip (blk s st) (dinode_at (inum ip));
     put_blk s b st
   }"

text \<open>The search of \<^verbatim>\<open>ialloc\<close> for a free inode, which it zeroes and gives a type; it returns the number.\<close>

function ialloc_loop :: "16 word \<Rightarrow> nat \<Rightarrow> nat \<Rightarrow> store \<Rightarrow> (32 word \<times> store) option" where
  "ialloc_loop ty i n st =
     (if i < n
      then (let s = IBLOCK i; p = i mod IPB * 512 in
        (case load16 (blk s st) p of
           None \<Rightarrow> None
         | Some t \<Rightarrow>
             if t = 0
             then do {
               b \<leftarrow> k_memset (blk s st) p 0 512;
               b \<leftarrow> store16 b p ty;
               st \<leftarrow> put_blk s b st;
               Some (of_nat i, st)
             }
             else ialloc_loop ty (i + 1) n st))
      else None)"
  by pat_completeness auto
termination by (relation "measure (\<lambda>(ty, i, n, st). n - i)") auto

declare ialloc_loop.simps [simp del]

section \<open>The blocks of a file\<close>

text \<open>Load the address of the indirect block, allocating it if necessary.\<close>

definition bmap_indirect :: "inode \<Rightarrow> store \<Rightarrow> (32 word \<times> inode \<times> store) option" where
  "bmap_indirect ip st = do {
     addr \<leftarrow> rd (addrs ip) (int NDIRECT);
     if addr = 0 then do {
       (addr, st) \<leftarrow> balloc st;
       as \<leftarrow> wr (addrs ip) (int NDIRECT) addr;
       Some (addr, ip\<lparr>addrs := as\<rparr>, st)
     } else Some (addr, ip, st)
   }"

definition bmap :: "inode \<Rightarrow> nat \<Rightarrow> store \<Rightarrow> (32 word \<times> inode \<times> store) option" where
  "bmap ip bn st =
     (if bn < NDIRECT then do {
        addr \<leftarrow> rd (addrs ip) (int bn);
        if addr = 0 then do {
          (addr, st) \<leftarrow> balloc st;
          as \<leftarrow> wr (addrs ip) (int bn) addr;
          Some (addr, ip\<lparr>addrs := as\<rparr>, st)
        } else Some (addr, ip, st)
      }
      else let bn = bn - NDIRECT in
      if bn < NINDIRECT then do {
        (addr, ip, st) \<leftarrow> bmap_indirect ip st;
        let a = blk addr st;
        x \<leftarrow> load32 a (4 * bn);
        if x = 0 then do {
          (x, st) \<leftarrow> balloc st;
          a \<leftarrow> store32 a (4 * bn) x;
          st \<leftarrow> put_blk addr a st;
          Some (x, ip, st)
        } else Some (x, ip, st)
      }
      else None)"

fun trunc_direct :: "nat \<Rightarrow> inode \<Rightarrow> nat \<Rightarrow> store \<Rightarrow> (inode \<times> store) option" where
  "trunc_direct 0 ip i st = Some (ip, st)"
| "trunc_direct (Suc n) ip i st = do {
     a \<leftarrow> rd (addrs ip) (int i);
     (ip, st) \<leftarrow> (if a \<noteq> 0 then do {
         st \<leftarrow> bfree a st;
         as \<leftarrow> wr (addrs ip) (int i) 0;
         Some (ip\<lparr>addrs := as\<rparr>, st)
       } else Some (ip, st));
     trunc_direct n ip (i + 1) st
   }"

fun trunc_indirect :: "nat \<Rightarrow> block \<Rightarrow> nat \<Rightarrow> store \<Rightarrow> store option" where
  "trunc_indirect 0 a j st = Some st"
| "trunc_indirect (Suc n) a j st = do {
     x \<leftarrow> load32 a (4 * j);
     st \<leftarrow> (if x \<noteq> 0 then bfree x st else Some st);
     trunc_indirect n a (j + 1) st
   }"

definition itrunc :: "inode \<Rightarrow> store \<Rightarrow> (inode \<times> store) option" where
  "itrunc ip st = do {
     (ip, st) \<leftarrow> trunc_direct NDIRECT ip 0 st;
     ind \<leftarrow> rd (addrs ip) (int NDIRECT);
     (ip, st) \<leftarrow> (if ind \<noteq> 0 then do {
         st \<leftarrow> trunc_indirect NINDIRECT (blk ind st) 0 st;
         st \<leftarrow> bfree ind st;
         as \<leftarrow> wr (addrs ip) (int NDIRECT) 0;
         Some (ip\<lparr>addrs := as\<rparr>, st)
       } else Some (ip, st));
     let ip = ip\<lparr>isize := 0\<rparr>;
     st \<leftarrow> iupdate ip st;
     Some (ip, st)
   }"

record stat_rec =
  st_type :: "16 word"
  st_dev :: "32 word"
  st_ino :: "32 word"
  st_nlink :: "16 word"
  st_size :: "32 word"

definition stati :: "inode \<Rightarrow> stat_rec" where
  "stati ip = \<lparr>st_type = itype ip, st_dev = idev ip, st_ino = inum ip, st_nlink = nlink ip, st_size = isize ip\<rparr>"

text \<open>The result of a read or write: an error, a call of the driver, or the bytes.\<close>

datatype 'a io = Io_err | Io_device int | Io_ok 'a

definition take_bytes :: "block \<Rightarrow> nat \<Rightarrow> nat \<Rightarrow> byte list option" where
  "take_bytes b p n = (if p + n \<le> length b then Some (range_of b p n) else None)"

definition put_bytes :: "block \<Rightarrow> nat \<Rightarrow> byte list \<Rightarrow> block option" where
  "put_bytes b p bs = (if p + length bs \<le> length b then Some (blit b p bs) else None)"

lemma chunk_pos: "tot < n \<Longrightarrow> 0 < min (n - tot) (BSIZE - off mod BSIZE)"
  by (simp add: BSIZE_def)

function readi_loop :: "inode \<Rightarrow> nat \<Rightarrow> nat \<Rightarrow> nat \<Rightarrow> store \<Rightarrow> byte list \<Rightarrow> (byte list \<times> inode \<times> store) option" where
  "readi_loop ip tot n off st dst =
     (if tot < n
      then (let m = min (n - tot) (BSIZE - off mod BSIZE) in
        (case bmap ip (off div BSIZE) st of
           None \<Rightarrow> None
         | Some (addr, ip', st') \<Rightarrow>
             (case take_bytes (blk addr st') (off mod BSIZE) m of
                None \<Rightarrow> None
              | Some bs \<Rightarrow> readi_loop ip' (tot + m) n (off + m) st' (dst @ bs))))
      else Some (dst, ip, st))"
  by pat_completeness auto
termination by (relation "measure (\<lambda>(ip, tot, n, off, st, dst). n - tot)") (use chunk_pos in \<open>auto simp: BSIZE_def\<close>)

definition readi :: "(int \<Rightarrow> bool) \<Rightarrow> inode \<Rightarrow> 32 word \<Rightarrow> 32 word \<Rightarrow> store \<Rightarrow> (byte list io \<times> inode \<times> store) option" where
  "readi has_read ip off n st =
     (if itype ip = T_DEV
      then Some (if sint (major ip) < 0 \<or> sint (major ip) \<ge> NDEV \<or> \<not> has_read (sint (major ip)) then Io_err else Io_device (sint (major ip)), ip, st)
      else if off > isize ip \<or> off + n < off then Some (Io_err, ip, st)
      else do {
        let n = (if off + n > isize ip then isize ip - off else n);
        (dst, ip, st) \<leftarrow> readi_loop ip 0 (unat n) (unat off) st [];
        Some (Io_ok dst, ip, st)
      })"

function writei_loop :: "inode \<Rightarrow> byte list \<Rightarrow> nat \<Rightarrow> nat \<Rightarrow> nat \<Rightarrow> store \<Rightarrow> (inode \<times> store) option" where
  "writei_loop ip src tot n off st =
     (if tot < n
      then (let m = min (n - tot) (BSIZE - off mod BSIZE) in
        (case bmap ip (off div BSIZE) st of
           None \<Rightarrow> None
         | Some (addr, ip', st') \<Rightarrow>
             (case put_bytes (blk addr st') (off mod BSIZE) (range_of src tot m) of
                None \<Rightarrow> None
              | Some b \<Rightarrow>
                  (case put_blk addr b st' of
                     None \<Rightarrow> None
                   | Some st'' \<Rightarrow> writei_loop ip' src (tot + m) n (off + m) st''))))
      else Some (ip, st))"
  by pat_completeness auto
termination by (relation "measure (\<lambda>(ip, src, tot, n, off, st). n - tot)") (use chunk_pos in \<open>auto simp: BSIZE_def\<close>)

declare readi_loop.simps [simp del] writei_loop.simps [simp del]

text \<open>The bytes to write are the array \<open>src\<close> of \<open>n\<close> bytes.\<close>

definition writei :: "(int \<Rightarrow> bool) \<Rightarrow> inode \<Rightarrow> byte list \<Rightarrow> 32 word \<Rightarrow> store \<Rightarrow> (32 word io \<times> inode \<times> store) option" where
  "writei has_write ip src off st = (let n = of_nat (length src) in
     (if itype ip = T_DEV
      then Some (if sint (major ip) < 0 \<or> sint (major ip) \<ge> NDEV \<or> \<not> has_write (sint (major ip)) then Io_err else Io_device (sint (major ip)), ip, st)
      else if off > isize ip \<or> off + n < off then Some (Io_err, ip, st)
      else if unat (off + n) > MAXFILE * BSIZE then Some (Io_err, ip, st)
      else do {
        (ip, st) \<leftarrow> writei_loop ip src 0 (unat n) (unat off) st;
        let off = off + n;
        (ip, st) \<leftarrow> (if n > 0 \<and> off > isize ip then do {
            let ip = ip\<lparr>isize := off\<rparr>;
            st \<leftarrow> iupdate ip st;
            Some (ip, st)
          } else Some (ip, st));
        Some (Io_ok n, ip, st)
      }))"

section \<open>The map of a file\<close>

text \<open>The disk block of block \<open>bn\<close> of a file, zero when there is none.\<close>

definition entry :: "block \<Rightarrow> nat \<Rightarrow> 32 word" where
  "entry b j = (case load32 b (4 * j) of Some w \<Rightarrow> w | None \<Rightarrow> 0)"

definition amap :: "inode \<Rightarrow> store \<Rightarrow> nat \<Rightarrow> 32 word" where
  "amap ip st bn =
     (if bn < NDIRECT then addrs ip ! bn
      else if addrs ip ! NDIRECT = 0 then 0 else entry (blk (addrs ip ! NDIRECT) st) (bn - NDIRECT))"

definition inode_ok :: "superblock \<Rightarrow> store \<Rightarrow> inode \<Rightarrow> bool" where
  "inode_ok sb st ip \<longleftrightarrow> length (addrs ip) = NDIRECT + 1 \<and>
     (addrs ip ! NDIRECT \<noteq> 0 \<longrightarrow> data_block sb st (addrs ip ! NDIRECT) \<and> in_use sb st (unat (addrs ip ! NDIRECT))) \<and>
     (\<forall>k < MAXFILE. amap ip st k \<noteq> 0 \<longrightarrow> data_block sb st (amap ip st k) \<and> in_use sb st (unat (amap ip st k)) \<and> amap ip st k \<noteq> addrs ip ! NDIRECT) \<and>
     (\<forall>j < MAXFILE. \<forall>k < MAXFILE. amap ip st j = amap ip st k \<longrightarrow> amap ip st j \<noteq> 0 \<longrightarrow> j = k)"

text \<open>A block that the allocator just gave, which the file does not have yet.\<close>

definition fresh :: "superblock \<Rightarrow> store \<Rightarrow> inode \<Rightarrow> 32 word \<Rightarrow> bool" where
  "fresh sb st ip a \<longleftrightarrow> a \<noteq> 0 \<and> data_block sb st a \<and> in_use sb st (unat a) \<and> a \<noteq> addrs ip ! NDIRECT \<and> (\<forall>k < MAXFILE. amap ip st k \<noteq> a)"

lemma data_block_bound: "data_block sb st a \<Longrightarrow> unat a < unat (sb_size sb)" "data_block sb st a \<Longrightarrow> a \<noteq> 0"
  by (auto simp: data_block_def word_less_nat_alt data_start_def)

lemma amap_cong:
  "(addrs ip ! NDIRECT \<noteq> 0 \<Longrightarrow> blk (addrs ip ! NDIRECT) st' = blk (addrs ip ! NDIRECT) st) \<Longrightarrow> amap ip st' = amap ip st"
  by (auto simp: amap_def fun_eq_iff)

lemma inode_ok_cong:
  assumes ok: "inode_ok sb st ip" and d: "data_block sb st' = data_block sb st"
    and u: "\<And>c. c < unat (sb_size sb) \<Longrightarrow> in_use sb st c \<Longrightarrow> in_use sb st' c"
    and b: "addrs ip ! NDIRECT \<noteq> 0 \<Longrightarrow> blk (addrs ip ! NDIRECT) st' = blk (addrs ip ! NDIRECT) st"
  shows "inode_ok sb st' ip"
proof -
  have "in_use sb st' (unat a)" if "data_block sb st a" "in_use sb st (unat a)" for a
    using u that data_block_bound(1) by blast
  moreover have "amap ip st' = amap ip st" using b by (rule amap_cong)
  ultimately show ?thesis using ok d unfolding inode_ok_def by simp
qed

lemma alloc_fresh:
  assumes "inode_ok sb st ip" and al: "allocated sb st a st'" and d: "data_block sb st a"
  shows "inode_ok sb st' ip" "fresh sb st' ip a" "amap ip st' = amap ip st"
    and "data_block sb st s \<Longrightarrow> in_use sb st (unat s) \<Longrightarrow> blk s st' = blk s st"
proof -
  note A = al[unfolded allocated_def] and I = assms(1)[unfolded inode_ok_def]
  show fr: "blk s st' = blk s st" if "data_block sb st s" "in_use sb st (unat s)" for s using A that by blast
  have b: "addrs ip ! NDIRECT \<noteq> 0 \<Longrightarrow> blk (addrs ip ! NDIRECT) st' = blk (addrs ip ! NDIRECT) st" using I fr by blast
  then show am: "amap ip st' = amap ip st" by (rule amap_cong)
  show "inode_ok sb st' ip" by (rule inode_ok_cong[OF assms(1)]) (use A b in auto)
  have "a \<noteq> 0" using d data_block_bound(2) by blast
  moreover have "a \<noteq> addrs ip ! NDIRECT" using A I \<open>a \<noteq> 0\<close> by metis
  moreover have "amap ip st k \<noteq> a" if "k < MAXFILE" for k using A I \<open>a \<noteq> 0\<close> that by metis
  moreover have "in_use sb st' (unat a)" using A data_block_bound(1)[OF d] by blast
  ultimately show "fresh sb st' ip a" using A d am by (simp add: fresh_def)
qed

text \<open>Entering the block in the map: a direct slot, the indirect block, a slot of the indirect block.\<close>

lemma inode_ok_update:
  assumes ok: "inode_ok sb st ip" and fr: "fresh sb st ip a" and bn: "bn < MAXFILE"
    and len: "length (addrs ip') = NDIRECT + 1" and ind: "addrs ip' ! NDIRECT = addrs ip ! NDIRECT"
    and am: "\<And>k. k < MAXFILE \<Longrightarrow> amap ip' st' k = (if k = bn then a else amap ip st k)"
    and d: "data_block sb st' = data_block sb st"
    and u: "\<And>c. c < unat (sb_size sb) \<Longrightarrow> in_use sb st c \<Longrightarrow> in_use sb st' c"
  shows "inode_ok sb st' ip'"
proof -
  have use: "in_use sb st' (unat b)" if "data_block sb st b" "in_use sb st (unat b)" for b
    using u that data_block_bound(1) by blast
  note I = ok[unfolded inode_ok_def] and F = fr[unfolded fresh_def]
  have inj: "j = k" if "j < MAXFILE" "k < MAXFILE" "amap ip' st' j = amap ip' st' k" "amap ip' st' j \<noteq> 0" for j k
    using I F am[OF that(1)] am[OF that(2)] that by (cases "j = bn"; cases "k = bn") auto
  have "data_block sb st (amap ip' st' k) \<and> in_use sb st' (unat (amap ip' st' k)) \<and> amap ip' st' k \<noteq> addrs ip ! NDIRECT"
    if "k < MAXFILE" "amap ip' st' k \<noteq> 0" for k
    using I F am[OF that(1)] that use by (cases "k = bn") auto
  then show ?thesis using I inj use len ind d unfolding inode_ok_def by simp
qed

lemma set_direct:
  assumes ok: "inode_ok sb st ip" and fr: "fresh sb st ip a" and bn: "bn < NDIRECT"
  defines "ip' \<equiv> ip\<lparr>addrs := (addrs ip)[bn := a]\<rparr>"
  shows "inode_ok sb st ip'" "amap ip' st k = (if k = bn then a else amap ip st k)"
proof -
  have len: "length (addrs ip) = NDIRECT + 1" using ok by (simp add: inode_ok_def)
  show am: "amap ip' st k = (if k = bn then a else amap ip st k)" for k
    using bn len by (auto simp: amap_def ip'_def)
  show "inode_ok sb st ip'"
    by (rule inode_ok_update[OF ok fr, of bn]) (use bn len am in \<open>auto simp: ip'_def MAXFILE_def\<close>)
qed

lemma entry_zero: "entry (replicate BSIZE 0) j = 0"
  by (auto simp: entry_def load32_def rd_def split: Option.bind_splits option.splits)

lemma set_indirect:
  assumes ok: "inode_ok sb st ip" and fr: "fresh sb st ip a" and no: "addrs ip ! NDIRECT = 0" and z: "blk a st = replicate BSIZE 0"
  defines "ip' \<equiv> ip\<lparr>addrs := (addrs ip)[NDIRECT := a]\<rparr>"
  shows "inode_ok sb st ip'" "amap ip' st k = amap ip st k" "addrs ip' ! NDIRECT = a"
proof -
  have len: "length (addrs ip) = NDIRECT + 1" using ok by (simp add: inode_ok_def)
  then show a: "addrs ip' ! NDIRECT = a" by (simp add: ip'_def)
  show am: "amap ip' st k = amap ip st k" for k
    using len no z by (auto simp: amap_def ip'_def entry_zero)
  show "inode_ok sb st ip'"
    using ok fr len unfolding inode_ok_def fresh_def am a by (auto simp: ip'_def)
qed

lemma entry_blit:
  assumes "length b = BSIZE" "j < NINDIRECT" "i < NINDIRECT"
  shows "entry (blit b (4 * j) (le32 x)) i = (if i = j then x else entry b i)"
proof (cases "i = j")
  case True
  then show ?thesis using assms load32_blit_same[of "4 * j" b x] by (simp add: entry_def NINDIRECT_def BSIZE_def)
next
  case False
  then have "load32 (blit b (4 * j) (le32 x)) (4 * i) = load32 b (4 * i)"
    using assms by (intro load32_blit_other) (auto simp: NINDIRECT_def BSIZE_def)
  with False show ?thesis by (simp add: entry_def)
qed

lemma set_entry:
  assumes fs: "fs_ok sb st" and ok: "inode_ok sb st ip" and fr: "fresh sb st ip a" and ind: "addrs ip ! NDIRECT \<noteq> 0" and bn: "bn < NINDIRECT"
    and w: "put_blk (addrs ip ! NDIRECT) (blit (blk (addrs ip ! NDIRECT) st) (4 * bn) (le32 a)) st = Some st'"
  shows "fs_ok sb st'" "data_block sb st' = data_block sb st" "inode_ok sb st' ip"
    and "k < MAXFILE \<Longrightarrow> amap ip st' k = (if k = NDIRECT + bn then a else amap ip st k)"
    and "data_block sb st s \<Longrightarrow> s \<noteq> addrs ip ! NDIRECT \<Longrightarrow> blk s st' = blk s st"
    and "c < unat (sb_size sb) \<Longrightarrow> in_use sb st' c = in_use sb st c"
proof -
  let ?i = "addrs ip ! NDIRECT"
  have di: "data_block sb st ?i" using ok ind by (simp add: inode_ok_def)
  have sz: "length (blk ?i st) = BSIZE" using fs by (simp add: fs_ok_def)
  then have l: "length (blit (blk ?i st) (4 * bn) (le32 a)) = BSIZE" using bn by (simp add: NINDIRECT_def BSIZE_def)
  note p = put_data_ok[OF fs w l di]
  show "fs_ok sb st'" "data_block sb st' = data_block sb st" using p(1,2) by auto
  show "data_block sb st s \<Longrightarrow> s \<noteq> ?i \<Longrightarrow> blk s st' = blk s st" using p(5)[of s] by (simp add: data_block_def)
  show u: "c < unat (sb_size sb) \<Longrightarrow> in_use sb st' c = in_use sb st c" for c using p(3)[of c] .
  show am: "amap ip st' k = (if k = NDIRECT + bn then a else amap ip st k)" if "k < MAXFILE" for k
    using that ind p(4) entry_blit[OF sz bn, of "k - NDIRECT" a] by (auto simp: amap_def MAXFILE_def)
  show "inode_ok sb st' ip"
    by (rule inode_ok_update[OF ok fr, of "NDIRECT + bn"]) (use bn am ok p(2) u in \<open>auto simp: MAXFILE_def inode_ok_def\<close>)
qed

text \<open>How many blocks \<open>bmap\<close> allocates, and what it does: the file gets a block there if it had none, and neither the rest of its map
  nor the contents of any block in use other than its indirect block change.\<close>

definition bmap_cost :: "inode \<Rightarrow> store \<Rightarrow> nat \<Rightarrow> nat" where
  "bmap_cost ip st bn = (if amap ip st bn \<noteq> 0 then 0 else if NDIRECT \<le> bn \<and> addrs ip ! NDIRECT = 0 then 2 else 1)"

definition mapped :: "superblock \<Rightarrow> inode \<Rightarrow> store \<Rightarrow> nat \<Rightarrow> 32 word \<Rightarrow> inode \<Rightarrow> store \<Rightarrow> bool" where
  "mapped sb ip st bn a ip' st' \<longleftrightarrow> fs_ok sb st' \<and> inode_ok sb st' ip' \<and> data_block sb st' = data_block sb st \<and>
     ip' = ip\<lparr>addrs := addrs ip'\<rparr> \<and> a \<noteq> 0 \<and>
     (\<forall>k < MAXFILE. amap ip' st' k = (if k = bn then a else amap ip st k)) \<and>
     (if amap ip st bn = 0 then blk a st' = replicate BSIZE 0 \<and> \<not> in_use sb st (unat a) else a = amap ip st bn) \<and>
     (addrs ip' ! NDIRECT = addrs ip ! NDIRECT \<or> NDIRECT \<le> bn \<and> \<not> in_use sb st (unat (addrs ip' ! NDIRECT))) \<and>
     spare sb st = spare sb st' + bmap_cost ip st bn \<and>
     (\<forall>s. data_block sb st s \<longrightarrow> in_use sb st (unat s) \<longrightarrow> s \<noteq> addrs ip ! NDIRECT \<longrightarrow> blk s st' = blk s st) \<and>
     (\<forall>c < unat (sb_size sb). in_use sb st c \<longrightarrow> in_use sb st' c)"

lemma bmap_direct:
  assumes fs: "fs_ok sb st" and ok: "inode_ok sb st ip" and bn: "bn < NDIRECT" and b: "bmap ip bn st = Some (a, ip', st')"
    and sp: "bmap_cost ip st bn \<le> spare sb st"
  shows "mapped sb ip st bn a ip' st'"
proof (cases "addrs ip ! bn = 0")
  case False
  then have "a = addrs ip ! bn" "ip' = ip" "st' = st" using b bn ok by (auto simp: bmap_def inode_ok_def)
  with False fs ok bn show ?thesis by (auto simp: mapped_def amap_def bmap_cost_def)
next
  case True
  obtain st1 where al: "balloc st = Some (a, st1)" and r: "ip' = ip\<lparr>addrs := (addrs ip)[bn := a]\<rparr>" "st' = st1"
    using b bn ok True by (auto simp: bmap_def inode_ok_def split: Option.bind_splits)
  have z: "amap ip st bn = 0" using True bn by (simp add: amap_def)
  then have c: "bmap_cost ip st bn = 1" using bn by (simp add: bmap_cost_def)
  then have "0 < spare sb st" using sp by simp
  note A = balloc_data[OF fs al this]
  note F = alloc_fresh[OF ok A(1,2)] and B = A(1)[unfolded allocated_def]
  note S = set_direct[OF F(1,2) bn]
  have "a \<noteq> 0" using F(2) by (simp add: fresh_def)
  moreover have "addrs (ip\<lparr>addrs := (addrs ip)[bn := a]\<rparr>) ! NDIRECT = addrs ip ! NDIRECT" using bn by simp
  ultimately show ?thesis unfolding mapped_def r using S F(3,4) B z c A(3) by auto
qed

definition indirect_ready :: "superblock \<Rightarrow> inode \<Rightarrow> store \<Rightarrow> 32 word \<Rightarrow> inode \<Rightarrow> store \<Rightarrow> bool" where
  "indirect_ready sb ip st i ip' st' \<longleftrightarrow> fs_ok sb st' \<and> inode_ok sb st' ip' \<and> data_block sb st' = data_block sb st \<and>
     ip' = ip\<lparr>addrs := addrs ip'\<rparr> \<and> addrs ip' ! NDIRECT = i \<and> i \<noteq> 0 \<and> amap ip' st' = amap ip st \<and>
     (addrs ip ! NDIRECT = i \<or> \<not> in_use sb st (unat i)) \<and> spare sb st = spare sb st' + (if addrs ip ! NDIRECT = 0 then 1 else 0) \<and>
     (\<forall>s. data_block sb st s \<longrightarrow> in_use sb st (unat s) \<longrightarrow> blk s st' = blk s st) \<and>
     (\<forall>c < unat (sb_size sb). in_use sb st c \<longrightarrow> in_use sb st' c)"

lemma bmap_indirect_ok:
  assumes fs: "fs_ok sb st" and ok: "inode_ok sb st ip" and b: "bmap_indirect ip st = Some (i, ip', st')"
    and sp: "addrs ip ! NDIRECT = 0 \<longrightarrow> 0 < spare sb st"
  shows "indirect_ready sb ip st i ip' st'"
proof (cases "addrs ip ! NDIRECT = 0")
  case False
  then have "i = addrs ip ! NDIRECT" "ip' = ip" "st' = st" using b ok by (auto simp: bmap_indirect_def inode_ok_def)
  with False fs ok show ?thesis by (auto simp: indirect_ready_def)
next
  case True
  obtain st1 where al: "balloc st = Some (i, st1)" and r: "ip' = ip\<lparr>addrs := (addrs ip)[NDIRECT := i]\<rparr>" "st' = st1"
    using b ok True by (auto simp: bmap_indirect_def inode_ok_def split: Option.bind_splits)
  have "0 < spare sb st" using sp True by simp
  note A = balloc_data[OF fs al this]
  note F = alloc_fresh[OF ok A(1,2)] and B = A(1)[unfolded allocated_def]
  have z: "blk i st1 = replicate BSIZE 0" using B by blast
  note S = set_indirect[OF F(1,2) True z]
  have "i \<noteq> 0" using F(2) by (simp add: fresh_def)
  moreover have "amap (ip\<lparr>addrs := (addrs ip)[NDIRECT := i]\<rparr>) st1 = amap ip st" using S(2) F(3) by (simp add: fun_eq_iff)
  ultimately show ?thesis unfolding indirect_ready_def r using S(1,3) F(4) B A(3) True by auto
qed

lemma bmap_entry:
  assumes bn: "NDIRECT \<le> bn" and b: "bmap ip bn st = Some (a, ip', st')" and fs: "fs_ok sb st" and ok: "inode_ok sb st ip"
    and sp: "addrs ip ! NDIRECT = 0 \<longrightarrow> 0 < spare sb st"
  obtains i st1 where "bn - NDIRECT < NINDIRECT" "bmap_indirect ip st = Some (i, ip', st1)"
    "amap ip' st1 bn \<noteq> 0 \<Longrightarrow> a = amap ip' st1 bn \<and> st' = st1"
    "amap ip' st1 bn = 0 \<Longrightarrow> \<exists>st2. balloc st1 = Some (a, st2) \<and>
      put_blk i (blit (blk i st1) (4 * (bn - NDIRECT)) (le32 a)) st2 = Some st'"
proof -
  obtain i ip1 st1 x where 1: "bn - NDIRECT < NINDIRECT" "bmap_indirect ip st = Some (i, ip1, st1)" "load32 (blk i st1) (4 * (bn - NDIRECT)) = Some x"
    and 2: "if x = 0 then (\<exists>st2 blk'. balloc st1 = Some (a, st2) \<and> store32 (blk i st1) (4 * (bn - NDIRECT)) a = Some blk' \<and> put_blk i blk' st2 = Some st' \<and> ip' = ip1)
      else a = x \<and> ip' = ip1 \<and> st' = st1"
    using b bn by (auto simp: bmap_def Let_def split: if_splits Option.bind_splits)
  note R = bmap_indirect_ok[OF fs ok 1(2) sp, unfolded indirect_ready_def]
  have ip: "ip' = ip1" using 2 by (auto split: if_splits)
  have "addrs ip1 ! NDIRECT = i" "i \<noteq> 0" using R by blast+
  then have x: "amap ip1 st1 bn = x" using 1(3) bn by (simp add: amap_def entry_def)
  have "length (blk i st1) = BSIZE" using R by (simp add: fs_ok_def)
  then have "store32 (blk i st1) (4 * (bn - NDIRECT)) a = Some (blit (blk i st1) (4 * (bn - NDIRECT)) (le32 a))"
    using 1(1) by (intro store32_blit) (simp add: NINDIRECT_def BSIZE_def)
  then have new: "\<exists>st2. balloc st1 = Some (a, st2) \<and> put_blk i (blit (blk i st1) (4 * (bn - NDIRECT)) (le32 a)) st2 = Some st'"
    if "x = 0" using that 2 by (simp del: split_paired_Ex) blast
  have old: "a = x \<and> st' = st1" if "x \<noteq> 0" using that 2 by simp
  from old new have "amap ip' st1 bn \<noteq> 0 \<Longrightarrow> a = amap ip' st1 bn \<and> st' = st1"
    and "amap ip' st1 bn = 0 \<Longrightarrow> \<exists>st2. balloc st1 = Some (a, st2) \<and> put_blk i (blit (blk i st1) (4 * (bn - NDIRECT)) (le32 a)) st2 = Some st'"
    unfolding ip x by blast+
  with that[OF 1(1)] 1(2) ip show thesis by blast
qed

lemma bmap_ok:
  assumes fs: "fs_ok sb st" and ok: "inode_ok sb st ip" and b: "bmap ip bn st = Some (a, ip', st')" and sp: "bmap_cost ip st bn \<le> spare sb st"
  shows "mapped sb ip st bn a ip' st' \<and> bn < MAXFILE"
proof (cases "bn < NDIRECT")
  case True
  then show ?thesis using bmap_direct[OF fs ok True b sp] by (simp add: MAXFILE_def)
next
  case False
  then have le: "NDIRECT \<le> bn" by simp
  have ind0: "addrs ip ! NDIRECT = 0 \<longrightarrow> amap ip st bn = 0" using le by (simp add: amap_def)
  then have sp0: "addrs ip ! NDIRECT = 0 \<longrightarrow> 0 < spare sb st" using sp le by (auto simp: bmap_cost_def)
  obtain i st1 where 1: "bn - NDIRECT < NINDIRECT" "bmap_indirect ip st = Some (i, ip', st1)"
    and old: "amap ip' st1 bn \<noteq> 0 \<Longrightarrow> a = amap ip' st1 bn \<and> st' = st1"
    and new: "amap ip' st1 bn = 0 \<Longrightarrow> \<exists>st2. balloc st1 = Some (a, st2) \<and> put_blk i (blit (blk i st1) (4 * (bn - NDIRECT)) (le32 a)) st2 = Some st'"
    using bmap_entry[OF le b fs ok sp0] by blast
  have R: "fs_ok sb st1" "inode_ok sb st1 ip'" "data_block sb st1 = data_block sb st" "ip' = ip\<lparr>addrs := addrs ip'\<rparr>"
    "addrs ip' ! NDIRECT = i" "i \<noteq> 0" "amap ip' st1 = amap ip st" "addrs ip ! NDIRECT = i \<or> \<not> in_use sb st (unat i)"
    "\<And>s. data_block sb st s \<Longrightarrow> in_use sb st (unat s) \<Longrightarrow> blk s st1 = blk s st" "\<And>c. c < unat (sb_size sb) \<Longrightarrow> in_use sb st c \<Longrightarrow> in_use sb st1 c"
    "spare sb st = spare sb st1 + (if addrs ip ! NDIRECT = 0 then 1 else 0)"
    using bmap_indirect_ok[OF fs ok 1(2) sp0] unfolding indirect_ready_def by blast+
  have bn: "bn < MAXFILE" using 1(1) by (simp add: MAXFILE_def)
  show ?thesis
  proof (cases "amap ip st bn = 0")
    case False
    with old R(7) have "a = amap ip st bn" "st' = st1" by auto
    with R False bn le ind0 show ?thesis by (auto simp: mapped_def bmap_cost_def)
  next
    case True
    then obtain st2 where al: "balloc st1 = Some (a, st2)" and w: "put_blk i (blit (blk i st1) (4 * (bn - NDIRECT)) (le32 a)) st2 = Some st'"
      using new R(7) by auto
    have c: "bmap_cost ip st bn = (if addrs ip ! NDIRECT = 0 then 2 else 1)" using True le by (simp add: bmap_cost_def)
    then have "0 < spare sb st1" using sp R(11) by (auto split: if_splits)
    note A = balloc_data[OF R(1) al this]
    note F = alloc_fresh[OF R(2) A(1,2)] and B = A(1)[unfolded allocated_def]
    have i: "data_block sb st1 i" "in_use sb st1 (unat i)" using R(2,5,6) by (auto simp: inode_ok_def)
    have "blk i st2 = blk i st1" using F(4)[OF i] .
    with w have w': "put_blk (addrs ip' ! NDIRECT) (blit (blk (addrs ip' ! NDIRECT) st2) (4 * (bn - NDIRECT)) (le32 a)) st2 = Some st'" using R(5) by simp
    have fs2: "fs_ok sb st2" and ind: "addrs ip' ! NDIRECT \<noteq> 0" using B R(5,6) by auto
    note S = set_entry[OF fs2 F(1,2) ind 1(1) w']
    have a: "a \<noteq> 0" "a \<noteq> i" "data_block sb st2 a" using F(2) R(5) by (auto simp: fresh_def)
    have "blk s st' = blk s st" if "data_block sb st s" "in_use sb st (unat s)" "s \<noteq> addrs ip ! NDIRECT" for s
    proof -
      have "data_block sb st1 s" "in_use sb st1 (unat s)" using that R(3,10) data_block_bound(1) by auto
      moreover have "s \<noteq> i" using that R(8) by auto
      ultimately show ?thesis using S(5)[of s] F(4)[of s] R(5) R(9)[of s] that B by auto
    qed
    moreover have "\<not> in_use sb st (unat a)" using B R(10) data_block_bound(1)[OF A(2)] by blast
    moreover have "spare sb st = spare sb st' + bmap_cost ip st bn"
      using R(11) A(3) c spare_cong[of sb st' st2] S(2,6) by auto
    moreover have "amap ip' st' k = (if k = bn then a else amap ip st k)" if "k < MAXFILE" for k
      using S(4)[OF that] F(3) R(7) le by auto
    moreover have "blk a st' = replicate BSIZE 0" using S(5)[OF a(3)] a(2) R(5) B by auto
    moreover have "in_use sb st' c" if "c < unat (sb_size sb)" "in_use sb st c" for c using S(6)[OF that(1)] B R(10)[OF that] that by blast
    ultimately show ?thesis unfolding mapped_def using S(1,2,3) R(3,4,5,8) B a(1) True bn le by auto
  qed
qed

section \<open>The contents of a file\<close>

text \<open>The file has a block for byte \<open>i\<close>, and the byte.\<close>

definition has :: "inode \<Rightarrow> store \<Rightarrow> nat \<Rightarrow> bool" where
  "has ip st i \<longleftrightarrow> i div BSIZE < MAXFILE \<and> amap ip st (i div BSIZE) \<noteq> 0"

definition file_byte :: "inode \<Rightarrow> store \<Rightarrow> nat \<Rightarrow> byte" where
  "file_byte ip st i = blk (amap ip st (i div BSIZE)) st ! (i mod BSIZE)"

text \<open>The blocks that belong to the file.\<close>

definition own :: "inode \<Rightarrow> store \<Rightarrow> 32 word set" where
  "own ip st = insert (addrs ip ! NDIRECT) (amap ip st ` {..<MAXFILE})"

text \<open>The file changed only in that \<open>bs\<close> is now at \<open>off\<close>, and no block in use of another file changed.\<close>

definition wrote :: "superblock \<Rightarrow> inode \<Rightarrow> store \<Rightarrow> nat \<Rightarrow> byte list \<Rightarrow> inode \<Rightarrow> store \<Rightarrow> bool" where
  "wrote sb ip st off bs ip' st' \<longleftrightarrow> fs_ok sb st' \<and> inode_ok sb st' ip' \<and> data_block sb st' = data_block sb st \<and>
     ip' = ip\<lparr>addrs := addrs ip'\<rparr> \<and>
     (\<forall>k < MAXFILE. amap ip st k \<noteq> 0 \<longrightarrow> amap ip' st' k = amap ip st k) \<and>
     (\<forall>i < length bs. has ip' st' (off + i) \<and> file_byte ip' st' (off + i) = bs ! i) \<and>
     (\<forall>i. has ip st i \<longrightarrow> i < off \<or> off + length bs \<le> i \<longrightarrow> file_byte ip' st' i = file_byte ip st i) \<and>
     (\<forall>s. data_block sb st s \<longrightarrow> in_use sb st (unat s) \<longrightarrow> s \<notin> own ip st \<longrightarrow> blk s st' = blk s st \<and> s \<notin> own ip' st') \<and>
     (\<forall>c < unat (sb_size sb). in_use sb st c \<longrightarrow> in_use sb st' c)"

lemma wrote_nothing: "fs_ok sb st \<Longrightarrow> inode_ok sb st ip \<Longrightarrow> wrote sb ip st off [] ip st"
  by (simp add: wrote_def)

lemma wrote_append:
  assumes 1: "wrote sb ip st off b1 ip1 st1" and 2: "wrote sb ip1 st1 (off + length b1) b2 ip2 st2"
  shows "wrote sb ip st off (b1 @ b2) ip2 st2"
proof -
  note W1 = 1[unfolded wrote_def] and W2 = 2[unfolded wrote_def]
  have keep: "has ip1 st1 i" if "has ip st i" for i using W1 that by (auto simp: has_def)
  have keep2: "has ip2 st2 i" if "has ip1 st1 i" for i using W2 that by (auto simp: has_def)
  have bytes: "has ip2 st2 (off + i) \<and> file_byte ip2 st2 (off + i) = (b1 @ b2) ! i" if i: "i < length (b1 @ b2)" for i
  proof (cases "i < length b1")
    case True
    then have h: "has ip1 st1 (off + i)" "file_byte ip1 st1 (off + i) = b1 ! i" using W1 by auto
    moreover have "file_byte ip2 st2 (off + i) = file_byte ip1 st1 (off + i)" using W2 h(1) True by auto
    ultimately show ?thesis using keep2 True by (simp add: nth_append)
  next
    case False
    then have "i - length b1 < length b2" "off + i = off + length b1 + (i - length b1)" using i by auto
    then show ?thesis using W2 False by (metis nth_append)
  qed
  have other: "file_byte ip2 st2 i = file_byte ip st i" if "has ip st i" "i < off \<or> off + length (b1 @ b2) \<le> i" for i
  proof -
    have "i < off + length b1 \<or> off + length b1 + length b2 \<le> i" "i < off \<or> off + length b1 \<le> i" using that(2) by auto
    then show ?thesis using W1 W2 keep[OF that(1)] that(1) by metis
  qed
  have fr: "blk s st2 = blk s st \<and> s \<notin> own ip2 st2" if "data_block sb st s" "in_use sb st (unat s)" "s \<notin> own ip st" for s
  proof -
    have a: "blk s st1 = blk s st" "s \<notin> own ip1 st1" "data_block sb st1 s" "in_use sb st1 (unat s)"
      using W1 that data_block_bound(1)[OF that(1)] by auto
    then show ?thesis using W2 by metis
  qed
  have am: "\<forall>k < MAXFILE. amap ip st k \<noteq> 0 \<longrightarrow> amap ip2 st2 k = amap ip st k" using W1 W2 by metis
  have ip: "ip2 = ip\<lparr>addrs := addrs ip2\<rparr>"
  proof -
    have "ip2 = ip1\<lparr>addrs := addrs ip2\<rparr>" "ip1 = ip\<lparr>addrs := addrs ip1\<rparr>" using W1 W2 by blast+
    then show ?thesis by (metis inode.update_convs(11) inode.surjective)
  qed
  show ?thesis unfolding wrote_def using W1 W2 bytes other fr am ip by auto
qed

text \<open>One turn of the loop of \<open>writei\<close>.\<close>

lemma blit_nth: "p + length bs \<le> length b \<Longrightarrow> i < length b \<Longrightarrow> blit b p bs ! i = (if p \<le> i \<and> i < p + length bs then bs ! (i - p) else b ! i)"
  by (auto simp: blit_def nth_append min_def)

lemma mapped_own:
  assumes m: "mapped sb ip st bn a ip' st'" and s: "data_block sb st s" "in_use sb st (unat s)" "s \<notin> own ip st"
  shows "s \<notin> own ip' st'"
proof -
  note M = m[unfolded mapped_def]
  have "s \<noteq> amap ip' st' k" if "k < MAXFILE" for k
    using M that s by (cases "k = bn"; cases "amap ip st bn = 0") (auto simp: own_def)
  moreover have "s \<noteq> addrs ip' ! NDIRECT" using M s by (auto simp: own_def)
  ultimately show ?thesis by (auto simp: own_def)
qed

lemma chunk_index:
  assumes "i < m" "m \<le> BSIZE - off mod BSIZE"
  shows "(off + i) div BSIZE = off div BSIZE" "(off + i) mod BSIZE = off mod BSIZE + i"
proof -
  have l: "off mod BSIZE + i < BSIZE" using assms by simp
  have e: "off + i = BSIZE * (off div BSIZE) + (off mod BSIZE + i)" by (metis add.assoc mult_div_mod_eq)
  have *: "(BSIZE * q + r) div BSIZE = q \<and> (BSIZE * q + r) mod BSIZE = r" if "r < BSIZE" for q r using that by (simp add: BSIZE_def)
  show "(off + i) div BSIZE = off div BSIZE" "(off + i) mod BSIZE = off mod BSIZE + i" using *[OF l, of "off div BSIZE"] e by metis+
qed

lemma chunk_outside:
  assumes "i div BSIZE = off div BSIZE" "i < off \<or> off + m \<le> i"
  shows "\<not> (off mod BSIZE \<le> i mod BSIZE \<and> i mod BSIZE < off mod BSIZE + m)"
proof -
  have "i = BSIZE * (off div BSIZE) + i mod BSIZE" "off = BSIZE * (off div BSIZE) + off mod BSIZE"
    using assms(1) by (metis mult_div_mod_eq)+
  then show ?thesis using assms(2) by linarith
qed

lemma write_chunk:
  assumes fs: "fs_ok sb st" and ok: "inode_ok sb st ip" and b: "bmap ip (off div BSIZE) st = Some (a, ip1, st1)"
    and sp: "bmap_cost ip st (off div BSIZE) \<le> spare sb st"
    and bs: "length bs \<le> BSIZE - off mod BSIZE" and w: "put_blk a (blit (blk a st1) (off mod BSIZE) bs) st1 = Some st2"
  shows "wrote sb ip st off bs ip1 st2" "spare sb st = spare sb st2 + bmap_cost ip st (off div BSIZE)"
    and "k < MAXFILE \<Longrightarrow> amap ip1 st2 k = (if k = off div BSIZE then a else amap ip st k)" "a \<noteq> 0" "off div BSIZE < MAXFILE"
    and "addrs ip1 ! NDIRECT = addrs ip ! NDIRECT \<or> NDIRECT \<le> off div BSIZE"
proof -
  let ?bn = "off div BSIZE"
  from bmap_ok[OF fs ok b sp] have m: "mapped sb ip st ?bn a ip1 st1" and bn: "?bn < MAXFILE" by auto
  note M = m[unfolded mapped_def]
  have fs1: "fs_ok sb st1" and ok1: "inode_ok sb st1 ip1" and a: "amap ip1 st1 ?bn = a" "a \<noteq> 0" using M bn by auto
  note I1 = ok1[unfolded inode_ok_def] and I = ok[unfolded inode_ok_def]
  have da: "data_block sb st1 a" "a \<noteq> addrs ip1 ! NDIRECT" using I1 bn a by auto
  have sz: "length (blk a st1) = BSIZE" using fs1 by (simp add: fs_ok_def)
  have bl: "off mod BSIZE + length bs \<le> BSIZE" using bs by (simp add: BSIZE_def)
  have "length (blit (blk a st1) (off mod BSIZE) bs) = BSIZE" using sz bl by simp
  note p = put_data_ok[OF fs1 w this da(1)]
  have ind: "blk (addrs ip1 ! NDIRECT) st2 = blk (addrs ip1 ! NDIRECT) st1" if "addrs ip1 ! NDIRECT \<noteq> 0"
  proof -
    have "data_block sb st1 (addrs ip1 ! NDIRECT)" using I1 that by blast
    then show ?thesis using p(5) da(2) by (simp add: data_block_def)
  qed
  then have am2: "amap ip1 st2 = amap ip1 st1" by (rule amap_cong)
  have am: "amap ip1 st2 k = (if k = ?bn then a else amap ip st k)" if "k < MAXFILE" for k using M am2 that by auto
  then show "k < MAXFILE \<Longrightarrow> amap ip1 st2 k = (if k = ?bn then a else amap ip st k)" .
  show "a \<noteq> 0" "?bn < MAXFILE" "addrs ip1 ! NDIRECT = addrs ip ! NDIRECT \<or> NDIRECT \<le> ?bn" using a(2) bn M by auto
  show "spare sb st = spare sb st2 + bmap_cost ip st ?bn" using M spare_cong[of sb st2 st1] p(2,3) by simp
  have ok2: "inode_ok sb st2 ip1" by (rule inode_ok_cong[OF ok1]) (use p ind in auto)
  have bytes: "has ip1 st2 (off + i) \<and> file_byte ip1 st2 (off + i) = bs ! i" if "i < length bs" for i
    using chunk_index[OF that bs] am[OF bn] bn a(2) p(4) bl that sz by (simp add: has_def file_byte_def blit_nth)
  have old: "blk (amap ip st k) st1 = blk (amap ip st k) st" if "k < MAXFILE" "amap ip st k \<noteq> 0" for k
    using M I that by blast
  have other: "file_byte ip1 st2 i = file_byte ip st i" if h: "has ip st i" and o: "i < off \<or> off + length bs \<le> i" for i
  proof (cases "i div BSIZE = ?bn")
    case True
    then have aa: "amap ip st ?bn = a" using M h by (auto simp: has_def split: if_splits)
    have "i mod BSIZE < BSIZE" by (simp add: BSIZE_def)
    then have "file_byte ip1 st2 i = blk a st1 ! (i mod BSIZE)"
      using True am[OF bn] p(4) chunk_outside[OF True o] bl sz by (auto simp: file_byte_def blit_nth)
    moreover have "blk a st1 = blk a st" using old[OF bn] aa a(2) by simp
    ultimately show ?thesis by (simp add: file_byte_def True aa)
  next
    case False
    let ?k = "i div BSIZE"
    have k: "?k < MAXFILE" "amap ip st ?k \<noteq> 0" using h by (auto simp: has_def)
    have e: "amap ip1 st1 ?k = amap ip st ?k" using M k False by auto
    then have "amap ip st ?k \<noteq> a" using I1 k bn a False by fastforce
    moreover have "data_block sb st1 (amap ip st ?k)" using I1 k e by fastforce
    ultimately have "blk (amap ip st ?k) st2 = blk (amap ip st ?k) st1" using p(5) by (simp add: data_block_def)
    then show ?thesis using am[OF k(1)] old[OF k] False by (simp add: file_byte_def)
  qed
  have fr: "blk s st2 = blk s st \<and> s \<notin> own ip1 st2" if s: "data_block sb st s" "in_use sb st (unat s)" "s \<notin> own ip st" for s
  proof -
    have n: "s \<notin> own ip1 st1" by (rule mapped_own[OF m s])
    then have "s \<noteq> a" using a bn by (auto simp: own_def)
    moreover have "data_block sb st1 s" using M s(1) by simp
    ultimately have "blk s st2 = blk s st1" using p(5) by (simp add: data_block_def)
    moreover have "blk s st1 = blk s st" using M s by (simp add: own_def)
    ultimately show ?thesis using n am2 by (simp add: own_def)
  qed
  have "\<forall>k < MAXFILE. amap ip st k \<noteq> 0 \<longrightarrow> amap ip1 st2 k = amap ip st k" using am M by (auto split: if_splits)
  moreover have "ip1 = ip\<lparr>addrs := addrs ip1\<rparr>" "data_block sb st2 = data_block sb st" using M p(2) by simp_all
  moreover have "in_use sb st2 c" if "c < unat (sb_size sb)" "in_use sb st c" for c using M p(3) that by simp
  ultimately show "wrote sb ip st off bs ip1 st2" unfolding wrote_def using p(1) ok2 bytes other fr by blast
qed

lemma range_of_add: "range_of xs s (m + k) = range_of xs s m @ range_of xs (s + m) k"
  unfolding range_of_def by (metis add.commute drop_drop take_add)

text \<open>How many blocks the bytes at \<open>off\<close> add to the file: their blocks, and the indirect block.\<close>

definition holes :: "inode \<Rightarrow> store \<Rightarrow> nat \<Rightarrow> nat \<Rightarrow> nat set" where
  "holes ip st off n = {k \<in> (\<lambda>i. (off + i) div BSIZE) ` {..<n}. k < MAXFILE \<and> amap ip st k = 0}"

definition new_blocks :: "inode \<Rightarrow> store \<Rightarrow> nat \<Rightarrow> nat \<Rightarrow> nat" where
  "new_blocks ip st off n = card (holes ip st off n) + (if addrs ip ! NDIRECT = 0 \<and> (\<exists>k \<in> holes ip st off n. NDIRECT \<le> k) then 1 else 0)"

lemma chunk_blocks:
  assumes m: "0 < m" "m \<le> n" "m \<le> BSIZE - off mod BSIZE" "m < n \<longrightarrow> m = BSIZE - off mod BSIZE"
  shows "(\<lambda>i. (off + i) div BSIZE) ` {..<n} = insert (off div BSIZE) ((\<lambda>i. (off + m + i) div BSIZE) ` {..<n - m})"
    and "k \<in> (\<lambda>i. (off + m + i) div BSIZE) ` {..<n - m} \<Longrightarrow> off div BSIZE < k"
proof -
  have "{..<n} = {..<m} \<union> (+) m ` {..<n - m}"
  proof (intro set_eqI iffI)
    fix i assume "i \<in> {..<n}"
    then show "i \<in> {..<m} \<union> (+) m ` {..<n - m}" by (cases "i < m") (auto intro!: image_eqI[of _ _ "i - m"])
  qed (use m in auto)
  moreover have "(\<lambda>i. (off + i) div BSIZE) ` {..<m} = {off div BSIZE}"
    using chunk_index(1)[OF _ m(3)] m(1) by (auto simp: image_iff intro!: exI[of _ 0])
  ultimately show "(\<lambda>i. (off + i) div BSIZE) ` {..<n} = insert (off div BSIZE) ((\<lambda>i. (off + m + i) div BSIZE) ` {..<n - m})"
    by (simp add: image_Un image_image add.assoc)
  assume "k \<in> (\<lambda>i. (off + m + i) div BSIZE) ` {..<n - m}"
  then obtain i where i: "k = (off + m + i) div BSIZE" "i < n - m" by auto
  then have "m = BSIZE - off mod BSIZE" using m by simp
  moreover have "off = BSIZE * (off div BSIZE) + off mod BSIZE" "off mod BSIZE < BSIZE" by (simp_all add: BSIZE_def)
  ultimately have e: "off + m + i = BSIZE * (off div BSIZE + 1) + i" by (simp only: distrib_left mult_1_right)
  have "(BSIZE * q + i) div BSIZE \<ge> q" for q by (simp add: BSIZE_def)
  then show "off div BSIZE < k" unfolding i(1) e by (metis Suc_eq_plus1 Suc_le_lessD)
qed

lemma new_blocks_chunk:
  assumes m: "0 < m" "m \<le> n" "m \<le> BSIZE - off mod BSIZE" "m < n \<longrightarrow> m = BSIZE - off mod BSIZE"
    and am: "\<And>k. k < MAXFILE \<Longrightarrow> amap ip1 st2 k = (if k = off div BSIZE then a else amap ip st k)" "a \<noteq> 0" "off div BSIZE < MAXFILE"
    and ind: "addrs ip1 ! NDIRECT = addrs ip ! NDIRECT \<or> NDIRECT \<le> off div BSIZE"
  shows "new_blocks ip st off n = bmap_cost ip st (off div BSIZE) + new_blocks ip1 st2 (off + m) (n - m)"
proof -
  let ?k = "off div BSIZE" and ?R = "holes ip1 st2 (off + m) (n - m)"
  note c = chunk_blocks[OF m]
  have fin: "finite ?R" by (simp add: holes_def)
  have R: "?k < k" if "k \<in> ?R" for k using that c(2) by (simp add: holes_def)
  then have nR: "?k \<notin> ?R" by blast
  have rest: "k \<in> ?R \<longleftrightarrow> k \<in> (\<lambda>i. (off + m + i) div BSIZE) ` {..<n - m} \<and> k < MAXFILE \<and> amap ip st k = 0" for k
    using am(1)[of k] c(2)[of k] by (auto simp: holes_def)
  have H: "holes ip st off n = (if amap ip st ?k = 0 then insert ?k ?R else ?R)"
    unfolding holes_def[of ip st] c(1) using rest am(3) by auto
  have filled: "addrs ip1 ! NDIRECT \<noteq> 0" if "NDIRECT \<le> ?k" using am(1)[OF am(3)] am(2) that by (auto simp: amap_def)
  have none: "amap ip st ?k = 0" if "NDIRECT \<le> ?k" "addrs ip ! NDIRECT = 0" using that by (simp add: amap_def)
  show ?thesis
  proof (cases "NDIRECT \<le> ?k")
    case True
    then show ?thesis using H nR fin filled none by (auto simp: new_blocks_def bmap_cost_def)
  next
    case False
    then have "addrs ip1 ! NDIRECT = addrs ip ! NDIRECT" using ind by simp
    then show ?thesis using H nR fin False by (auto simp: new_blocks_def bmap_cost_def)
  qed
qed

text \<open>Bytes within one block add at most two blocks.\<close>

lemma new_blocks_within:
  assumes "n \<le> BSIZE - off mod BSIZE"
  shows "new_blocks ip st off n \<le> 2"
proof -
  have "holes ip st off n \<subseteq> {off div BSIZE}" using chunk_index(1)[OF _ assms] by (auto simp: holes_def)
  then have "card (holes ip st off n) \<le> 1" using card_mono[of "{off div BSIZE}"] by simp
  then show ?thesis by (simp add: new_blocks_def)
qed

lemma bmap_cost_le:
  assumes "0 < n" "off div BSIZE < MAXFILE"
  shows "bmap_cost ip st (off div BSIZE) \<le> new_blocks ip st off n"
proof (cases "amap ip st (off div BSIZE) = 0")
  case True
  have "off div BSIZE \<in> (\<lambda>i. (off + i) div BSIZE) ` {..<n}" using assms(1) by (intro image_eqI[of _ _ 0]) auto
  then have k: "off div BSIZE \<in> holes ip st off n" using True assms(2) by (simp add: holes_def)
  moreover have "finite (holes ip st off n)" by (simp add: holes_def)
  ultimately have "0 < card (holes ip st off n)" by (auto simp: card_gt_0_iff)
  then show ?thesis using k by (auto simp: bmap_cost_def new_blocks_def)
qed (simp add: bmap_cost_def)

lemma writei_loop_ok:
  "writei_loop ip src tot n off st = Some (ip', st') \<Longrightarrow> fs_ok sb st \<Longrightarrow> inode_ok sb st ip \<Longrightarrow> tot \<le> n \<Longrightarrow> n \<le> length src \<Longrightarrow>
   off + (n - tot) \<le> MAXFILE * BSIZE \<Longrightarrow> new_blocks ip st off (n - tot) \<le> spare sb st \<Longrightarrow>
   wrote sb ip st off (range_of src tot (n - tot)) ip' st'"
proof (induction "n - tot" arbitrary: ip tot off st rule: less_induct)
  case less
  show ?case
  proof (cases "tot < n")
    case False
    with less.prems have "ip' = ip" "st' = st" by (simp_all add: writei_loop.simps)
    then show ?thesis using wrote_nothing less.prems False by simp
  next
    case True
    define m where "m = min (n - tot) (BSIZE - off mod BSIZE)"
    have m: "0 < m" "tot + m \<le> n" "m \<le> BSIZE - off mod BSIZE" using chunk_pos[OF True, of off] True by (auto simp: m_def)
    obtain a ip1 st1 st2 where b: "bmap ip (off div BSIZE) st = Some (a, ip1, st1)"
      and w: "put_blk a (blit (blk a st1) (off mod BSIZE) (range_of src tot m)) st1 = Some st2"
      and r: "writei_loop ip1 src (tot + m) n (off + m) st2 = Some (ip', st')"
      using less.prems(1) True
      by (subst (asm) writei_loop.simps) (auto simp: Let_def put_bytes_def m_def[symmetric] split: option.splits if_splits)
    have len: "length (range_of src tot m) = m" using m less.prems(5) by (intro length_range_of) linarith
    have first: "off div BSIZE < MAXFILE" using less.prems(6) True by (intro less_mult_imp_div_less) linarith
    have sp: "bmap_cost ip st (off div BSIZE) \<le> spare sb st"
      using bmap_cost_le[OF _ first, of "n - tot" ip st] True less.prems(7) by simp
    note W = write_chunk[OF less.prems(2,3) b sp _ w, unfolded len, OF m(3)]
    have ok2: "fs_ok sb st2" "inode_ok sb st2 ip1" using W(1) by (auto simp: wrote_def)
    have n: "n - tot - m = n - (tot + m)" by simp
    have "new_blocks ip st off (n - tot) = bmap_cost ip st (off div BSIZE) + new_blocks ip1 st2 (off + m) (n - (tot + m))"
      unfolding n[symmetric] by (rule new_blocks_chunk[where a = a]) (use m W(3-6) in \<open>auto simp: m_def\<close>)
    then have "new_blocks ip1 st2 (off + m) (n - (tot + m)) \<le> spare sb st2" using W(2) less.prems(7) by simp
    with less.hyps[OF _ r ok2] m less.prems(5,6) True
    have 2: "wrote sb ip1 st2 (off + m) (range_of src (tot + m) (n - (tot + m))) ip' st'" by simp
    have "range_of src tot (n - tot) = range_of src tot m @ range_of src (tot + m) (n - (tot + m))"
      using range_of_add[of src tot m "n - (tot + m)"] m by simp
    then show ?thesis using wrote_append[OF W(1)] 2 len by simp
  qed
qed

text \<open>Reading blocks the file has changes nothing.\<close>

lemma bmap_mapped:
  assumes "fs_ok sb st" "inode_ok sb st ip" "bn < MAXFILE" "amap ip st bn \<noteq> 0"
  shows "bmap ip bn st = Some (amap ip st bn, ip, st)"
proof (cases "bn < NDIRECT")
  case True
  then show ?thesis using assms by (simp add: bmap_def amap_def inode_ok_def)
next
  case False
  let ?i = "addrs ip ! NDIRECT"
  have i: "?i \<noteq> 0" using assms(4) False by (auto simp: amap_def)
  have "bmap_indirect ip st = Some (?i, ip, st)" using assms(2) i by (simp add: bmap_indirect_def inode_ok_def)
  moreover obtain x where "load32 (blk ?i st) (4 * (bn - NDIRECT)) = Some x" "x = amap ip st bn"
    using assms(4) False i by (auto simp: amap_def entry_def split: option.splits)
  ultimately show ?thesis using assms(3,4) False by (simp add: bmap_def Let_def MAXFILE_def)
qed

lemma readi_loop_ok:
  "fs_ok sb st \<Longrightarrow> inode_ok sb st ip \<Longrightarrow> tot \<le> n \<Longrightarrow> (\<And>i. i < n - tot \<Longrightarrow> has ip st (off + i)) \<Longrightarrow>
   readi_loop ip tot n off st dst = Some (dst @ map (\<lambda>i. file_byte ip st (off + i)) [0..<n - tot], ip, st)"
proof (induction "n - tot" arbitrary: tot off dst rule: less_induct)
  case less
  show ?case
  proof (cases "tot < n")
    case False
    with less.prems show ?thesis by (simp add: readi_loop.simps)
  next
    case True
    let ?bn = "off div BSIZE"
    define m where "m = min (n - tot) (BSIZE - off mod BSIZE)"
    have m: "0 < m" "tot + m \<le> n" "m \<le> BSIZE - off mod BSIZE" using chunk_pos[OF True, of off] True by (auto simp: m_def)
    have h: "?bn < MAXFILE" "amap ip st ?bn \<noteq> 0" using less.prems(4)[of 0] True by (auto simp: has_def)
    have sz: "length (blk (amap ip st ?bn) st) = BSIZE" using less.prems(1) by (simp add: fs_ok_def)
    have bl: "off mod BSIZE + m \<le> BSIZE" using m(3) mod_less_divisor[of BSIZE off] by (simp add: BSIZE_def)
    have "range_of (blk (amap ip st ?bn) st) (off mod BSIZE) m = map (\<lambda>i. file_byte ip st (off + i)) [0..<m]"
    proof (rule nth_equalityI)
      fix i assume "i < length (range_of (blk (amap ip st ?bn) st) (off mod BSIZE) m)"
      then have i: "i < m" using sz bl by simp
      then have "file_byte ip st (off + i) = blk (amap ip st ?bn) st ! (off mod BSIZE + i)"
        using chunk_index[OF i m(3)] by (simp add: file_byte_def)
      with i sz bl show "range_of (blk (amap ip st ?bn) st) (off mod BSIZE) m ! i = map (\<lambda>i. file_byte ip st (off + i)) [0..<m] ! i"
        by (simp add: range_of_def)
    qed (use sz bl in simp)
    then have e: "readi_loop ip tot n off st dst =
        readi_loop ip (tot + m) n (off + m) st (dst @ map (\<lambda>i. file_byte ip st (off + i)) [0..<m])"
      using True bmap_mapped[OF less.prems(1,2) h] sz bl
      by (subst readi_loop.simps) (simp add: Let_def take_bytes_def m_def[symmetric])
    have "has ip st (off + m + i)" if "i < n - (tot + m)" for i using less.prems(4)[of "m + i"] that by (simp add: add.assoc)
    with less.hyps[OF _ less.prems(1,2), of "tot + m" "off + m"] m True
    have r: "readi_loop ip (tot + m) n (off + m) st d =
        Some (d @ map (\<lambda>i. file_byte ip st (off + m + i)) [0..<n - (tot + m)], ip, st)" for d by simp
    have s: "map f [0..<n - tot] = map f [0..<m] @ map (\<lambda>i. f (m + i)) [0..<n - (tot + m)]" for f :: "nat \<Rightarrow> byte"
      by (rule nth_equalityI) (use m in \<open>auto simp: nth_append\<close>)
    show ?thesis unfolding e r s by (simp add: add.assoc)
  qed
qed

section \<open>The inode on the disk\<close>

lemma store_length:
  "store16 b p w = Some b' \<Longrightarrow> length b' = length b"
  "store32 b p w' = Some b' \<Longrightarrow> length b' = length b"
  by (auto simp: store16_def store32_def wr_eq_Some_iff split: Option.bind_splits)

lemma store32s_length: "store32s b p ws = Some b' \<Longrightarrow> length b' = length b"
  by (induction ws arbitrary: b p) (auto simp: store_length split: Option.bind_splits)

lemma store_dinode_length: "store_dinode ip b p = Some b' \<Longrightarrow> length b' = length b"
  by (auto simp: store_dinode_def store_length store32s_length split: Option.bind_splits)

lemma IBLOCK_nat:
  assumes "fs_ok sb st" "i < unat (sb_ninodes sb)"
  shows "unat (IBLOCK i) = i + 2"
proof -
  have "i + 2 < 2 ^ 32" using assms by (simp add: fs_ok_def data_start_def)
  then show ?thesis by (simp only: IBLOCK_def unat_of_nat IPB_def BSIZE_def) simp
qed

text \<open>Updating an inode changes no data block and no bit of the bitmap.\<close>

lemma iupdate_frame:
  assumes fs: "fs_ok sb st" and i: "inum ip < sb_ninodes sb" and u: "iupdate ip st = Some st'"
  shows "fs_ok sb st'" "data_block sb st' = data_block sb st"
    and "c < unat (sb_size sb) \<Longrightarrow> in_use sb st' c = in_use sb st c"
    and "data_block sb st s \<Longrightarrow> blk s st' = blk s st"
proof -
  let ?s = "IBLOCK (unat (inum ip))"
  have i': "unat (inum ip) < unat (sb_ninodes sb)" using i by (simp add: word_less_nat_alt)
  note n = IBLOCK_nat[OF fs i']
  obtain b where b: "store_dinode ip (blk ?s st) (dinode_at (inum ip)) = Some b" and w: "put_blk ?s b st = Some st'"
    using u by (auto simp: iupdate_def Let_def split: Option.bind_splits)
  have len: "length b = BSIZE" using store_dinode_length[OF b] fs by (simp add: fs_ok_def)
  have "?s \<noteq> 1" using n by (auto simp: word_unat_eq_iff)
  moreover have "?s \<noteq> BBLOCK c (sb_ninodes sb)" if "c < unat (sb_size sb)" for c
    using n BBLOCK_nat(1)[OF fs that] i' by (auto simp: word_unat_eq_iff)
  ultimately have p: "fs_ok sb st'" "data_block sb st' = data_block sb st"
    "\<And>c. c < unat (sb_size sb) \<Longrightarrow> in_use sb st' c = in_use sb st c"
    "\<And>t. t \<noteq> ?s \<Longrightarrow> t \<notin> log_area (lstart (fst st)) \<Longrightarrow> blk t st' = blk t st"
    using put_other_ok[OF fs w len] by blast+
  then show "fs_ok sb st'" "data_block sb st' = data_block sb st"
    and "c < unat (sb_size sb) \<Longrightarrow> in_use sb st' c = in_use sb st c" by auto
  show "data_block sb st s \<Longrightarrow> blk s st' = blk s st"
  proof -
    assume d: "data_block sb st s"
    then have "s \<noteq> ?s" using n i' by (auto simp: data_block_def data_start_def)
    with d p(4) show ?thesis by (simp add: data_block_def)
  qed
qed

text \<open>A change that leaves the data blocks alone leaves the files alone.\<close>

lemma same_blocks:
  assumes ok: "inode_ok sb st ip" and b: "\<And>s. data_block sb st s \<Longrightarrow> in_use sb st (unat s) \<Longrightarrow> s \<in> own ip st \<Longrightarrow> blk s st' = blk s st"
  shows "amap ip st' = amap ip st" and "has ip st i \<Longrightarrow> file_byte ip st' i = file_byte ip st i"
proof -
  show am: "amap ip st' = amap ip st" by (rule amap_cong) (use ok b in \<open>auto simp: inode_ok_def own_def\<close>)
  show "has ip st i \<Longrightarrow> file_byte ip st' i = file_byte ip st i"
    using ok b[of "amap ip st (i div BSIZE)"] by (auto simp: has_def file_byte_def am inode_ok_def own_def)
qed

lemma wrote_iupdate:
  assumes w: "wrote sb ip st off bs ip1 st1" and i: "inum ip < sb_ninodes sb" and u: "iupdate (ip1\<lparr>isize := z\<rparr>) st1 = Some st2"
  shows "wrote sb (ip\<lparr>isize := z\<rparr>) st off bs (ip1\<lparr>isize := z\<rparr>) st2"
proof -
  note W = w[unfolded wrote_def]
  have "ip1 = ip\<lparr>addrs := addrs ip1\<rparr>" using W by blast
  from arg_cong[OF this, of inum] have "inum ip1 = inum ip" by simp
  then have i1: "inum (ip1\<lparr>isize := z\<rparr>) < sb_ninodes sb" using i by simp
  have fs1: "fs_ok sb st1" and ok1: "inode_ok sb st1 ip1" using W by auto
  note f = iupdate_frame[OF fs1 i1 u]
  have s: "amap (ip\<lparr>isize := z\<rparr>) = amap ip" "has (ip\<lparr>isize := z\<rparr>) = has ip" "file_byte (ip\<lparr>isize := z\<rparr>) = file_byte ip" "own (ip\<lparr>isize := z\<rparr>) = own ip" for ip
    by (auto simp: fun_eq_iff amap_def has_def file_byte_def own_def)
  have o: "inode_ok sb st2 (ip1\<lparr>isize := z\<rparr>) = inode_ok sb st2 ip1" by (simp add: inode_ok_def s)
  have ok2: "inode_ok sb st2 ip1" by (rule inode_ok_cong[OF ok1]) (use f ok1 in \<open>auto simp: inode_ok_def\<close>)
  have same: "amap ip1 st2 = amap ip1 st1" "\<And>i. has ip1 st1 i \<Longrightarrow> file_byte ip1 st2 i = file_byte ip1 st1 i"
    by (rule same_blocks[OF ok1], erule f(4), assumption?)+
  have h: "has ip1 st2 = has ip1 st1" "own ip1 st2 = own ip1 st1" by (auto simp: has_def own_def same(1) fun_eq_iff)
  have keep: "has ip1 st1 i" if "has ip st i" for i using W that by (auto simp: has_def)
  have e: "ip1\<lparr>isize := z\<rparr> = ip\<lparr>isize := z, addrs := addrs ip1\<rparr>"
  proof -
    obtain as where "ip1 = ip\<lparr>addrs := as\<rparr>" using W by blast
    then show ?thesis by simp
  qed
  have fb: "file_byte ip1 st2 i = bs ! j" if "i = off + j" "j < length bs" for i j using W same(2) that by simp
  have other: "file_byte ip1 st2 i = file_byte ip st i" if "has ip st i" "i < off \<or> off + length bs \<le> i" for i
    using W same(2)[OF keep[OF that(1)]] that by metis
  have fr: "blk s st2 = blk s st \<and> s \<notin> own ip1 st1" if "data_block sb st s" "in_use sb st (unat s)" "s \<notin> own ip st" for s
    using W f(4)[of s] that by simp
  have use: "in_use sb st2 c" if "c < unat (sb_size sb)" "in_use sb st c" for c using W f(3) that by simp
  show ?thesis
    unfolding wrote_def s o h same(1) using W f(1,2) ok2 fb other fr use e by simp
qed

lemma writei_wrote:
  assumes fs: "fs_ok sb st" and ok: "inode_ok sb st ip" and i: "inum ip < sb_ninodes sb" and ty: "itype ip \<noteq> T_DEV"
    and len: "length src < 2 ^ 32" and sp: "new_blocks ip st (unat off) (length src) \<le> spare sb st"
    and w: "writei hw ip src off st = Some (Io_ok n, ip', st')"
  shows "n = of_nat (length src)" "off \<le> isize ip" "unat (off + n) = unat off + length src"
    and "wrote sb (ip\<lparr>isize := max (isize ip) (off + n)\<rparr>) st (unat off) src ip' st'"
proof -
  let ?n = "of_nat (length src) :: 32 word"
  have un: "unat ?n = length src" using len by (simp add: unat_of_nat)
  obtain ip1 st1 where l: "writei_loop ip src 0 (length src) (unat off) st = Some (ip1, st1)"
    and n: "n = ?n" and c: "\<not> (off > isize ip \<or> off + ?n < off)" "\<not> unat (off + ?n) > MAXFILE * BSIZE"
    and r: "if ?n > 0 \<and> off + ?n > isize ip1 then ip' = ip1\<lparr>isize := off + ?n\<rparr> \<and> iupdate (ip1\<lparr>isize := off + ?n\<rparr>) st1 = Some st'
      else ip' = ip1 \<and> st' = st1"
    using w ty by (auto simp: writei_def Let_def un split: if_splits Option.bind_splits)
  show "n = ?n" by (rule n)
  show "off \<le> isize ip" using c by auto
  show sum: "unat (off + n) = unat off + length src"
    using c(1) un unat_plus_simple[of off ?n] unfolding n by (simp add: not_less)
  have w1: "wrote sb ip st (unat off) src ip1 st1"
    using writei_loop_ok[OF l fs ok] sum c(2) sp unfolding n by (simp add: range_of_def not_less)
  then obtain as where as: "ip1 = ip\<lparr>addrs := as\<rparr>" by (auto simp: wrote_def)
  then have sz: "isize ip1 = isize ip" by simp
  show "wrote sb (ip\<lparr>isize := max (isize ip) (off + n)\<rparr>) st (unat off) src ip' st'"
  proof (cases "?n > 0 \<and> off + ?n > isize ip1")
    case True
    then have "max (isize ip) (off + n) = off + n" using sz n by (intro max_absorb2 less_imp_le) simp
    then show ?thesis using True r wrote_iupdate[OF w1 i] n by simp
  next
    case False
    then have "max (isize ip) (off + n) = isize ip"
      using sz n c by (intro max_absorb1) (auto simp: not_less word_gt_0)
    then show ?thesis using False r w1 by simp
  qed
qed

text \<open>Files that share no block.\<close>

definition apart :: "inode \<Rightarrow> inode \<Rightarrow> store \<Rightarrow> bool" where
  "apart jp ip st \<longleftrightarrow> own jp st \<inter> own ip st \<subseteq> {0}"

lemma wrote_apart:
  assumes w: "wrote sb ip st off bs ip' st'" and ok: "inode_ok sb st jp" and ap: "apart jp ip st" and h: "has jp st i"
  shows "file_byte jp st' i = file_byte jp st i"
proof (rule same_blocks(2)[OF ok _ h])
  fix s assume s: "data_block sb st s" "in_use sb st (unat s)" "s \<in> own jp st"
  then have "s \<notin> own ip st" using ap data_block_bound(2)[OF s(1)] by (auto simp: apart_def)
  with w s show "blk s st' = blk s st" unfolding wrote_def by blast
qed

text \<open>
  C29: What is written to a file is read back. When \<open>writei\<close> returns, allocating blocks as it goes, the
  same number of bytes read from the same offset are the bytes written, and reading changes
  nothing; the size grows to cover them; the other bytes of the file, and all bytes of files that
  share no block with it, are unchanged; and the file system stays well-formed. The disk has as many free data blocks as the write adds
  to the file; without them the allocator gives out blocks of the log.
\<close>

theorem writei_readi:
  assumes "fs_ok sb st" "inode_ok sb st ip" "inum ip < sb_ninodes sb" "itype ip \<noteq> T_DEV" "length src < 2 ^ 32"
    and "new_blocks ip st (unat off) (length src) \<le> spare sb st"
    and "writei hw ip src off st = Some (Io_ok n, ip', st')"
  shows "readi hr ip' off n st' = Some (Io_ok src, ip', st') \<and> isize ip' = max (isize ip) (off + n) \<and>
    (\<forall>i. has ip st i \<longrightarrow> i < unat off \<or> unat off + length src \<le> i \<longrightarrow> file_byte ip' st' i = file_byte ip st i) \<and>
    (\<forall>jp i. inode_ok sb st jp \<longrightarrow> apart jp ip st \<longrightarrow> has jp st i \<longrightarrow> file_byte jp st' i = file_byte jp st i) \<and>
    fs_ok sb st' \<and> inode_ok sb st' ip'"
proof -
  note W = writei_wrote[OF assms]
  let ?ip = "ip\<lparr>isize := max (isize ip) (off + n)\<rparr>"
  have s: "has ?ip = has ip" "file_byte ?ip = file_byte ip" "own ?ip = own ip"
    by (auto simp: fun_eq_iff amap_def has_def file_byte_def own_def)
  note w = W(4)[unfolded wrote_def s]
  obtain as where ip': "ip' = ?ip\<lparr>addrs := as\<rparr>" using w by blast
  have fs: "fs_ok sb st'" "inode_ok sb st' ip'" using w by blast+
  have un: "unat n = length src" using W(1) assms(5) by (simp add: unat_of_nat)
  have "readi_loop ip' 0 (unat n) (unat off) st' [] = Some ([] @ map (\<lambda>i. file_byte ip' st' (unat off + i)) [0..<unat n - 0], ip', st')"
    by (rule readi_loop_ok[OF fs]) (use w un in auto)
  moreover have "map (\<lambda>i. file_byte ip' st' (unat off + i)) [0..<length src] = src"
    by (rule nth_equalityI) (use w in auto)
  moreover have "\<not> off + n < off" using W(3) by (simp add: word_less_nat_alt)
  moreover have "off \<le> isize ip'" "\<not> isize ip' < off + n" using W(2) by (auto simp: ip' le_max_iff_disj not_less)
  ultimately have "readi hr ip' off n st' = Some (Io_ok src, ip', st')"
    using assms(4) un by (simp add: readi_def ip' Let_def not_less)
  moreover have "file_byte jp st' i = file_byte jp st i" if "inode_ok sb st jp" "apart jp ip st" "has jp st i" for jp i
    using wrote_apart[OF W(4) that(1) _ that(3)] that(2) by (simp add: apart_def s)
  ultimately show ?thesis using w fs by (simp add: ip')
qed

definition demo_inode :: inode where
  "demo_inode = \<lparr>idev = 1, inum = 1, iref = 1, ibusy = True, ivalid = True, itype = T_FILE, major = 0, minor = 0, nlink = 1, isize = 0,
     addrs = replicate 125 0\<rparr>"

lemma demo_inode_ok: "inode_ok mkfs_sb demo_store demo_inode"
  by (auto simp: inode_ok_def demo_inode_def amap_def NDIRECT_def)

text \<open>A write inside of one direct block does not panic when a block is free and the log has room.\<close>

lemma store_total:
  "p + 2 \<le> length b \<Longrightarrow> \<exists>b'. store16 b p w = Some b' \<and> length b' = length b"
  "p + 4 \<le> length b \<Longrightarrow> \<exists>b'. store32 b p w' = Some b' \<and> length b' = length b"
  by (simp_all add: store16_blit store32_blit)

lemma store32s_total: "p + 4 * length ws \<le> length b \<Longrightarrow> \<exists>b'. store32s b p ws = Some b'"
proof (induction ws arbitrary: b p)
  case (Cons w ws)
  obtain b1 where "store32 b p w = Some b1" "length b1 = length b" using store_total(2)[of p b w] Cons.prems by auto
  with Cons.IH[of "p + 4" b1] Cons.prems show ?case by simp
qed simp

lemma store_dinode_total:
  assumes "length b = BSIZE" "length (addrs ip) = NDIRECT + 1"
  shows "\<exists>b'. store_dinode ip b (dinode_at i) = Some b' \<and> length b' = BSIZE"
proof -
  have at: "dinode_at i = 0" by (simp add: dinode_at_def IPB_def BSIZE_def)
  obtain b1 where 1: "store16 b 0 (itype ip) = Some b1" "length b1 = BSIZE" using store_total(1)[of 0 b "itype ip"] assms by (auto simp: BSIZE_def)
  obtain b2 where 2: "store16 b1 2 (major ip) = Some b2" "length b2 = BSIZE" using store_total(1)[of 2 b1 "major ip"] 1 by (auto simp: BSIZE_def)
  obtain b3 where 3: "store16 b2 4 (minor ip) = Some b3" "length b3 = BSIZE" using store_total(1)[of 4 b2 "minor ip"] 2 by (auto simp: BSIZE_def)
  obtain b4 where 4: "store16 b3 6 (nlink ip) = Some b4" "length b4 = BSIZE" using store_total(1)[of 6 b3 "nlink ip"] 3 by (auto simp: BSIZE_def)
  obtain b5 where 5: "store32 b4 8 (isize ip) = Some b5" "length b5 = BSIZE" using store_total(2)[of 8 b4 "isize ip"] 4 by (auto simp: BSIZE_def)
  obtain b6 where 6: "store32s b5 12 (addrs ip) = Some b6" using store32s_total[of 12 "addrs ip" b5] 5 assms by (auto simp: BSIZE_def NDIRECT_def)
  have "store_dinode ip b 0 = Some b6"
    by (simp only: store_dinode_def add_0 1 2 3 4 5 6 bind.bind_lunit)
  then show ?thesis using store32s_length[OF 6] 5 by (simp add: at)
qed

lemma iupdate_total:
  assumes "fs_ok sb st" "length (addrs ip) = NDIRECT + 1" "log_room (Suc n) st"
  shows "\<exists>st'. iupdate ip st = Some st' \<and> log_room n st'"
proof -
  obtain b where "store_dinode ip (blk (IBLOCK (unat (inum ip))) st) (dinode_at (inum ip)) = Some b"
    using store_dinode_total[of "blk (IBLOCK (unat (inum ip))) st" ip "inum ip"] assms(1,2) by (auto simp: fs_ok_def)
  then show ?thesis using put_blk_room[OF assms(3), of "IBLOCK (unat (inum ip))" b] by (simp add: iupdate_def Let_def)
qed

lemma bmap_direct_total:
  assumes fs: "fs_ok sb st" and ok: "inode_ok sb st ip" and bn: "bn < NDIRECT" and free: "0 < spare sb st"
    and room: "log_room (n + 2) st"
  shows "\<exists>a ip' st'. bmap ip bn st = Some (a, ip', st') \<and> log_room n st'"
proof (cases "addrs ip ! bn = 0")
  case False
  then have "bmap ip bn st = Some (addrs ip ! bn, ip, st)" using bn ok by (simp add: bmap_def inode_ok_def)
  then show ?thesis using room by (auto simp: log_room_def)
next
  case True
  have "log_room 2 st" using room by (simp add: log_room_def)
  then obtain a st1 where al: "balloc st = Some (a, st1)" using balloc_ok(3)[OF fs] free by (cases "balloc st") (auto simp: spare_pos)
  then have "bmap ip bn st = Some (a, ip\<lparr>addrs := (addrs ip)[bn := a]\<rparr>, st1)" using bn ok True by (simp add: bmap_def inode_ok_def)
  then show ?thesis using balloc_ok(2)[OF fs al room] by blast
qed

lemma writei_direct_total:
  assumes fs: "fs_ok sb st" and ok: "inode_ok sb st ip" and ty: "itype ip \<noteq> T_DEV" and i: "inum ip < sb_ninodes sb"
    and off: "off \<le> isize ip" and src: "0 < length src" "unat off mod BSIZE + length src \<le> BSIZE" "unat off div BSIZE < NDIRECT"
    and free: "0 < spare sb st" and room: "log_room 4 st"
  shows "\<exists>ip' st'. writei hw ip src off st = Some (Io_ok (of_nat (length src)), ip', st')"
proof -
  let ?n = "of_nat (length src) :: 32 word" and ?bn = "unat off div BSIZE" and ?p = "unat off mod BSIZE"
  have un: "unat ?n = length src" using src(2) by (simp add: unat_of_nat BSIZE_def)
  have o: "unat off = BSIZE * ?bn + ?p" by simp
  have b: "BSIZE * ?bn \<le> BSIZE * 123" using src(3) by (intro mult_le_mono2) (simp add: NDIRECT_def)
  then have "unat off + length src \<le> BSIZE * 123 + BSIZE" using o src(2) by linarith
  then have lim: "unat off + length src \<le> BSIZE * 124" by (simp add: BSIZE_def)
  then have sum: "unat (off + ?n) = unat off + length src" using un by (simp add: unat_word_ariths BSIZE_def)
  obtain a ip1 st1 where bm: "bmap ip ?bn st = Some (a, ip1, st1)" and r1: "log_room 2 st1"
    using bmap_direct_total[OF fs ok src(3) free, of 2] room by auto
  have cost: "bmap_cost ip st ?bn \<le> spare sb st" using free src(3) by (simp add: bmap_cost_def)
  from bmap_ok[OF fs ok bm cost] have ok1: "fs_ok sb st1" "inode_ok sb st1 ip1" and as: "ip1 = ip\<lparr>addrs := addrs ip1\<rparr>" by (auto simp: mapped_def)
  have sz: "length (blk a st1) = BSIZE" using ok1 by (simp add: fs_ok_def)
  obtain st2 where w: "put_blk a (blit (blk a st1) ?p src) st1 = Some st2" and r2: "log_room (Suc 0) st2"
    using put_blk_room[of 1 st1 a "blit (blk a st1) ?p src"] r1 by (auto simp: numeral_2_eq_2)
  have m: "min (length src - 0) (BSIZE - ?p) = length src" using src(2) by simp
  have "put_bytes (blk a st1) ?p (range_of src 0 (length src)) = Some (blit (blk a st1) ?p src)"
    using sz src(2) by (simp add: put_bytes_def range_of_def)
  then have l: "writei_loop ip src 0 (length src) (unat off) st = Some (ip1, st2)"
    using src(1) bm w m by (subst writei_loop.simps) (simp add: Let_def writei_loop.simps)
  have fs2: "fs_ok sb st2" using write_chunk(1)[OF fs ok bm cost _ w] src(2) by (simp add: wrote_def)
  obtain st3 where u: "iupdate (ip1\<lparr>isize := off + ?n\<rparr>) st2 = Some st3"
    using iupdate_total[OF fs2, of "ip1\<lparr>isize := off + ?n\<rparr>" 0] ok1(2) r2 by (auto simp: inode_ok_def)
  have "\<not> off + ?n < off" "\<not> MAXFILE * BSIZE < unat (off + ?n)"
    using sum lim by (simp_all add: word_less_nat_alt MAXFILE_def NDIRECT_def NINDIRECT_def BSIZE_def)
  then show ?thesis using ty off l u un by (simp add: writei_def Let_def not_less)
qed

theorem writei_readi_witness:
  "\<exists>ip' st'. writei (\<lambda>_. False) demo_inode [65, 66] 0 demo_store = Some (Io_ok 2, ip', st') \<and>
     readi (\<lambda>_. False) ip' 0 2 st' = Some (Io_ok [65, 66], ip', st') \<and> isize ip' = 2"
proof -
  have i: "inum demo_inode < sb_ninodes mkfs_sb" "itype demo_inode \<noteq> T_DEV" by (simp_all add: demo_inode_def mkfs_sb_def T_FILE_def T_DEV_def)
  have n: "new_blocks demo_inode demo_store (unat (0 :: 32 word)) (length [65, 66 :: byte]) \<le> spare mkfs_sb demo_store"
    using new_blocks_within[of 2 0 demo_inode demo_store] demo_spare by (simp add: BSIZE_def flip: numeral_2_eq_2)
  have "0 < spare mkfs_sb demo_store" using demo_spare by simp
  moreover have "log_room 4 demo_store" using demo_room by (simp add: log_room_def)
  ultimately obtain ip' st' where "writei (\<lambda>_. False) demo_inode [65, 66] 0 demo_store = Some (Io_ok (of_nat (length [65, 66 :: byte])), ip', st')"
    using writei_direct_total[OF demo_ok demo_inode_ok i(2,1), of 0 "[65, 66]" "\<lambda>_. False"] by (auto simp: BSIZE_def NDIRECT_def)
  then have w: "writei (\<lambda>_. False) demo_inode [65, 66] 0 demo_store = Some (Io_ok 2, ip', st')" by simp
  from writei_readi[OF demo_ok demo_inode_ok i _ n w, of "\<lambda>_. False"] w show ?thesis by (simp add: demo_inode_def)
qed

end
