(* ===== verification/Icache.thy ===== *)
theory Icache
  imports Inode
begin

text \<open>
  The table of the inodes in memory (src/src/fs.c): references, locks, and the inodes that are
  freed with their last reference. A pointer to an inode is its index in the table. An operation
  panics, sleeps until another process unlocks the inode, or returns.
\<close>

definition NINODE :: nat where "NINODE = 50"

record fs =
  fstore :: store
  icache :: "inode list"

definition free_inode :: inode where
  "free_inode = \<lparr>idev = 0, inum = 0, iref = 0, ibusy = False, ivalid = False, itype = 0, major = 0, minor = 0, nlink = 0, isize = 0,
     addrs = replicate (NDIRECT + 1) 0\<rparr>"

definition iinit :: "store \<Rightarrow> fs" where
  "iinit st = \<lparr>fstore = st, icache = replicate NINODE free_inode\<rparr>"

fun or_panic :: "'a option \<Rightarrow> 'a outcome" where
  "or_panic None = Panic"
| "or_panic (Some a) = Ret a"

definition set_inode :: "nat \<Rightarrow> inode \<Rightarrow> fs \<Rightarrow> fs" where
  "set_inode k ip f = f\<lparr>icache := (icache f)[k := ip]\<rparr>"

definition get_inode :: "nat \<Rightarrow> fs \<Rightarrow> inode outcome" where
  "get_inode k f = or_panic (rd (icache f) (int k))"

text \<open>The scan for the inode and for the first empty slot.\<close>

fun iget_loop :: "32 word \<Rightarrow> 32 word \<Rightarrow> inode list \<Rightarrow> nat \<Rightarrow> nat option \<Rightarrow> nat option \<times> nat option" where
  "iget_loop dv i [] k e = (None, e)"
| "iget_loop dv i (ip # ips) k e =
     (if iref ip > 0 \<and> idev ip = dv \<and> inum ip = i then (Some k, e)
      else iget_loop dv i ips (k + 1) (if e = None \<and> iref ip = 0 then Some k else e))"

definition iget :: "32 word \<Rightarrow> 32 word \<Rightarrow> fs \<Rightarrow> (nat \<times> fs) outcome" where
  "iget dv i f =
     (case iget_loop dv i (icache f) 0 None of
        (Some k, _) \<Rightarrow> and_then (get_inode k f) (\<lambda>ip. Ret (k, set_inode k (ip\<lparr>iref := iref ip + 1\<rparr>) f))
      | (None, Some k) \<Rightarrow> and_then (get_inode k f) (\<lambda>ip.
          Ret (k, set_inode k (ip\<lparr>idev := dv, inum := i, iref := 1, ibusy := False, ivalid := False\<rparr>) f))
      | (None, None) \<Rightarrow> Panic)"

definition idup :: "nat \<Rightarrow> fs \<Rightarrow> fs outcome" where
  "idup k f = and_then (get_inode k f) (\<lambda>ip. Ret (set_inode k (ip\<lparr>iref := iref ip + 1\<rparr>) f))"

definition ialloc :: "16 word \<Rightarrow> fs \<Rightarrow> (nat \<times> fs) outcome" where
  "ialloc ty f = and_then (or_panic (readsb (fstore f))) (\<lambda>sb.
     and_then (or_panic (ialloc_loop ty 1 (unat (sb_ninodes sb)) (fstore f))) (\<lambda>(i, st). iget 1 i (f\<lparr>fstore := st\<rparr>)))"

definition ilock :: "nat \<Rightarrow> fs \<Rightarrow> fs outcome" where
  "ilock k f = and_then (get_inode k f) (\<lambda>ip.
     if iref ip < 1 then Panic
     else if ibusy ip then Sleeps
     else let ip = ip\<lparr>ibusy := True\<rparr> in
       if \<not> ivalid ip
       then and_then (or_panic (load_dinode ip (blk (IBLOCK (unat (inum ip))) (fstore f)) (dinode_at (inum ip)))) (\<lambda>ip.
         let ip = ip\<lparr>ivalid := True\<rparr> in if itype ip = 0 then Panic else Ret (set_inode k ip f))
       else Ret (set_inode k ip f))"

definition iunlock :: "nat \<Rightarrow> fs \<Rightarrow> fs outcome" where
  "iunlock k f = and_then (get_inode k f) (\<lambda>ip.
     if \<not> ibusy ip \<or> iref ip < 1 then Panic else Ret (set_inode k (ip\<lparr>ibusy := False\<rparr>) f))"

definition iput :: "nat \<Rightarrow> fs \<Rightarrow> fs outcome" where
  "iput k f = and_then (get_inode k f) (\<lambda>ip.
     if iref ip = 1 \<and> ivalid ip \<and> nlink ip = 0
     then if ibusy ip then Panic
       else and_then (or_panic (itrunc (ip\<lparr>ibusy := True\<rparr>) (fstore f))) (\<lambda>(ip, st).
         let ip = ip\<lparr>itype := 0\<rparr> in
         and_then (or_panic (iupdate ip st)) (\<lambda>st.
           Ret (set_inode k (ip\<lparr>ibusy := False, ivalid := False, iref := iref ip - 1\<rparr>) (f\<lparr>fstore := st\<rparr>))))
     else Ret (set_inode k (ip\<lparr>iref := iref ip - 1\<rparr>) f))"

definition iunlockput :: "nat \<Rightarrow> fs \<Rightarrow> fs outcome" where
  "iunlockput k f = and_then (iunlock k f) (\<lambda>f. iput k f)"

section \<open>Reference counts\<close>

lemma and_then_Ret [simp]: "and_then x f = Ret b \<longleftrightarrow> (\<exists>a. x = Ret a \<and> f a = Ret b)"
  by (cases x) auto

lemma or_panic_Ret [simp]: "or_panic x = Ret a \<longleftrightarrow> x = Some a"
  by (cases x) auto

lemma get_inode_Ret [simp]: "get_inode k f = Ret ip \<longleftrightarrow> k < length (icache f) \<and> ip = icache f ! k"
  by (auto simp: get_inode_def rd_eq_Some_iff)

text \<open>The inode a slot in use stands for.\<close>

definition key :: "inode \<Rightarrow> 32 word \<times> 32 word" where
  "key ip = (idev ip, inum ip)"

definition icache_ok :: "fs \<Rightarrow> bool" where
  "icache_ok f \<longleftrightarrow> (\<forall>k < length (icache f). 0 \<le> iref (icache f ! k)) \<and>
     (\<forall>j < length (icache f). \<forall>k < length (icache f). iref (icache f ! j) > 0 \<longrightarrow> iref (icache f ! k) > 0 \<longrightarrow>
        key (icache f ! j) = key (icache f ! k) \<longrightarrow> j = k)"

text \<open>The number of references to an inode.\<close>

definition refs :: "fs \<Rightarrow> 32 word \<times> 32 word \<Rightarrow> int" where
  "refs f q = sum_list (map (\<lambda>ip. if iref ip > 0 \<and> key ip = q then iref ip else 0) (icache f))"

definition weight :: "inode \<Rightarrow> 32 word \<times> 32 word \<Rightarrow> int" where
  "weight ip q = (if iref ip > 0 \<and> key ip = q then iref ip else 0)"

lemma sum_list_replace: "k < length xs \<Longrightarrow> sum_list (map g (xs[k := y])) = sum_list (map g xs) - g (xs ! k) + (g y :: int)"
  by (induction xs arbitrary: k) (auto split: nat.splits)

lemma refs_set: "k < length (icache f) \<Longrightarrow> refs (set_inode k ip f) q = refs f q - weight (icache f ! k) q + weight ip q"
  using sum_list_replace[of k "icache f" "\<lambda>ip. weight ip q" ip] by (simp add: refs_def set_inode_def weight_def)

lemma refs_store [simp]: "refs (f\<lparr>fstore := st\<rparr>) = refs f" "icache_ok (f\<lparr>fstore := st\<rparr>) = icache_ok f"
  by (auto simp: refs_def icache_ok_def fun_eq_iff)

lemma set_inode_simps [simp]:
  "length (icache (set_inode k ip f)) = length (icache f)" "fstore (set_inode k ip f) = fstore f"
  "k < length (icache f) \<Longrightarrow> icache (set_inode k ip f) ! k = ip"
  "j \<noteq> k \<Longrightarrow> icache (set_inode k ip f) ! j = icache f ! j"
  by (simp_all add: set_inode_def)

lemma icache_ok_set:
  assumes "icache_ok f" "k < length (icache f)" "0 \<le> iref ip"
    and "\<And>j. iref ip > 0 \<Longrightarrow> j < length (icache f) \<Longrightarrow> j \<noteq> k \<Longrightarrow> iref (icache f ! j) > 0 \<Longrightarrow> key (icache f ! j) \<noteq> key ip"
  shows "icache_ok (set_inode k ip f)"
proof -
  have "i = j" if i: "i < length (icache f)" "j < length (icache f)" and r: "iref (icache (set_inode k ip f) ! i) > 0"
    "iref (icache (set_inode k ip f) ! j) > 0" and q: "key (icache (set_inode k ip f) ! i) = key (icache (set_inode k ip f) ! j)" for i j
  proof (cases "i = k \<or> j = k")
    case True
    then show ?thesis using assms(2) assms(4)[of i] assms(4)[of j] i r q by (cases "i = k"; cases "j = k") auto
  next
    case False
    then show ?thesis using assms(1) i r q by (simp add: icache_ok_def)
  qed
  moreover have "0 \<le> iref (icache (set_inode k ip f) ! i)" if "i < length (icache f)" for i
    using that assms by (cases "i = k") (auto simp: icache_ok_def)
  ultimately show ?thesis by (simp add: icache_ok_def)
qed

text \<open>A slot that keeps its inode and its count.\<close>

lemma same_slot:
  assumes "k < length (icache f)" "iref ip = iref (icache f ! k)" "key ip = key (icache f ! k)"
  shows "refs (set_inode k ip f) = refs f" and "icache_ok f \<Longrightarrow> icache_ok (set_inode k ip f)"
proof -
  show "refs (set_inode k ip f) = refs f" using assms by (simp add: fun_eq_iff refs_set weight_def)
  show "icache_ok f \<Longrightarrow> icache_ok (set_inode k ip f)"
    by (rule icache_ok_set) (use assms in \<open>auto simp: icache_ok_def\<close>)
qed

text \<open>A slot in use whose count changes.\<close>

lemma count_slot:
  assumes "icache_ok f" "k < length (icache f)" "iref (icache f ! k) > 0" "key ip = key (icache f ! k)" "0 \<le> iref ip"
  shows "icache_ok (set_inode k ip f)" "refs (set_inode k ip f) q = refs f q + (if q = key (icache f ! k) then iref ip - iref (icache f ! k) else 0)"
proof -
  show "icache_ok (set_inode k ip f)" by (rule icache_ok_set) (use assms in \<open>auto simp: icache_ok_def\<close>)
  show "refs (set_inode k ip f) q = refs f q + (if q = key (icache f ! k) then iref ip - iref (icache f ! k) else 0)"
    using assms by (auto simp: refs_set weight_def)
qed

lemma iget_loop_spec:
  "iget_loop dv i ips k e = (h, e') \<Longrightarrow>
   (case h of Some j \<Rightarrow> k \<le> j \<and> j - k < length ips \<and> iref (ips ! (j - k)) > 0 \<and> key (ips ! (j - k)) = (dv, i)
    | None \<Rightarrow> (\<forall>ip \<in> set ips. \<not> (iref ip > 0 \<and> key ip = (dv, i))) \<and>
        (\<forall>j. e' = Some j \<longrightarrow> e = Some j \<or> k \<le> j \<and> j - k < length ips \<and> iref (ips ! (j - k)) = 0))"
proof (induction ips arbitrary: k e)
  case (Cons ip ips)
  show ?case
  proof (cases "iref ip > 0 \<and> idev ip = dv \<and> inum ip = i")
    case True
    then show ?thesis using Cons.prems by (auto simp: key_def)
  next
    case False
    then have "iget_loop dv i ips (k + 1) (if e = None \<and> iref ip = 0 then Some k else e) = (h, e')" using Cons.prems by (simp only: iget_loop.simps if_False)
    from Cons.IH[OF this] False show ?thesis
      by (auto simp: key_def nth_Cons' split: option.splits if_splits; fastforce simp: Suc_le_eq less_diff_conv2)
  qed
qed simp

definition got :: "fs \<Rightarrow> 32 word \<times> 32 word \<Rightarrow> nat \<Rightarrow> fs \<Rightarrow> bool" where
  "got f q k f' \<longleftrightarrow> icache_ok f' \<and> length (icache f') = length (icache f) \<and> k < length (icache f) \<and>
     iref (icache f' ! k) > 0 \<and> key (icache f' ! k) = q \<and> (\<forall>p. refs f' p = refs f p + (if p = q then 1 else 0)) \<and>
     (\<forall>j < length (icache f). iref (icache f ! j) > 0 \<longrightarrow> key (icache f' ! j) = key (icache f ! j) \<and>
        iref (icache f' ! j) = iref (icache f ! j) + (if j = k then 1 else 0))"

lemma iget_got:
  assumes ok: "icache_ok f" and g: "iget dv i f = Ret (k, f')"
  shows "got f (dv, i) k f'"
proof -
  obtain h e where l: "iget_loop dv i (icache f) 0 None = (h, e)" by fastforce
  note sp = iget_loop_spec[OF l]
  show ?thesis
  proof (cases h)
    case (Some j)
    with sp have j: "j < length (icache f)" "iref (icache f ! j) > 0" "key (icache f ! j) = (dv, i)" by auto
    then have "k = j" "f' = set_inode j ((icache f ! j)\<lparr>iref := iref (icache f ! j) + 1\<rparr>) f" using g l Some by (auto simp: iget_def)
    with count_slot[OF ok j(1,2), of "(icache f ! j)\<lparr>iref := iref (icache f ! j) + 1\<rparr>"] j show ?thesis
      by (auto simp: got_def key_def set_inode_def nth_list_update)
  next
    case None
    then obtain j where e: "e = Some j" using g l by (cases e) (auto simp: iget_def)
    with sp None have j: "j < length (icache f)" "iref (icache f ! j) = 0" and no: "\<forall>ip \<in> set (icache f). \<not> (iref ip > 0 \<and> key ip = (dv, i))"
      by auto
    let ?ip = "(icache f ! j)\<lparr>idev := dv, inum := i, iref := 1, ibusy := False, ivalid := False\<rparr>"
    have f': "k = j" "f' = set_inode j ?ip f" using g l None e j by (auto simp: iget_def)
    have "icache_ok (set_inode j ?ip f)" by (rule icache_ok_set[OF ok j(1)]) (use no in \<open>auto simp: key_def\<close>)
    with f' j show ?thesis by (auto simp: got_def refs_set weight_def key_def)
  qed
qed

text \<open>The operations that touch neither counts nor keys.\<close>

definition kept :: "fs \<Rightarrow> fs \<Rightarrow> bool" where
  "kept f f' \<longleftrightarrow> icache_ok f' \<and> length (icache f') = length (icache f) \<and> refs f' = refs f \<and>
     (\<forall>k < length (icache f). iref (icache f' ! k) = iref (icache f ! k) \<and> key (icache f' ! k) = key (icache f ! k))"

lemma kept_refl: "icache_ok f \<Longrightarrow> kept f f"
  by (simp add: kept_def)

lemma kept_trans: "kept f g \<Longrightarrow> kept g h \<Longrightarrow> kept f h"
  by (auto simp: kept_def)

lemma kept_set:
  assumes "icache_ok f" "k < length (icache f)" "iref ip = iref (icache f ! k)" "key ip = key (icache f ! k)"
  shows "kept f (set_inode k ip f)"
proof -
  have "iref (icache (set_inode k ip f) ! j) = iref (icache f ! j) \<and> key (icache (set_inode k ip f) ! j) = key (icache f ! j)" for j
    using assms by (cases "j = k") auto
  then show ?thesis using same_slot[OF assms(2-4)] assms(1) by (simp add: kept_def)
qed

lemma kept_store: "icache_ok f \<Longrightarrow> kept f (f\<lparr>fstore := st\<rparr>)"
  by (simp add: kept_def)

lemma load_dinode_same: "load_dinode ip b p = Some ip' \<Longrightarrow> iref ip' = iref ip \<and> key ip' = key ip"
  by (auto simp: load_dinode_def key_def split: Option.bind_splits)

lemma ilock_kept: "icache_ok f \<Longrightarrow> ilock k f = Ret f' \<Longrightarrow> kept f f' \<and> k < length (icache f) \<and> iref (icache f ! k) > 0"
  by (auto simp: ilock_def Let_def key_def intro!: kept_set dest!: load_dinode_same split: if_splits)

lemma iunlock_kept: "icache_ok f \<Longrightarrow> iunlock k f = Ret f' \<Longrightarrow> kept f f' \<and> k < length (icache f) \<and> iref (icache f ! k) > 0"
  by (auto simp: iunlock_def key_def intro!: kept_set split: if_splits)

lemma idup_got:
  assumes "icache_ok f" "idup k f = Ret f'" "iref (icache f ! k) > 0"
  shows "got f (key (icache f ! k)) k f'"
proof -
  from assms(2) have k: "k < length (icache f)" and f': "f' = set_inode k ((icache f ! k)\<lparr>iref := iref (icache f ! k) + 1\<rparr>) f"
    by (auto simp: idup_def)
  with count_slot[OF assms(1) k assms(3), of "(icache f ! k)\<lparr>iref := iref (icache f ! k) + 1\<rparr>"] assms(3)
  show ?thesis by (auto simp: got_def key_def set_inode_def nth_list_update)
qed

text \<open>Mapping and truncating change only the addresses and the size.\<close>

lemma bmap_indirect_same: "bmap_indirect ip st = Some (a, ip', st') \<Longrightarrow> ip' = ip\<lparr>addrs := addrs ip'\<rparr>"
  by (auto simp: bmap_indirect_def split: if_splits Option.bind_splits)

lemma bmap_same: "bmap ip bn st = Some (a, ip', st') \<Longrightarrow> ip' = ip\<lparr>addrs := addrs ip'\<rparr>"
  by (auto simp: bmap_def Let_def split: if_splits Option.bind_splits) (erule bmap_indirect_same)+

lemma trunc_direct_same: "trunc_direct n ip i st = Some (ip', st') \<Longrightarrow> iref ip' = iref ip \<and> key ip' = key ip"
  by (induction n arbitrary: ip i st) (fastforce simp: key_def split: if_splits Option.bind_splits)+

lemma itrunc_same: "itrunc ip st = Some (ip', st') \<Longrightarrow> iref ip' = iref ip \<and> key ip' = key ip"
  by (auto simp: itrunc_def Let_def key_def dest!: trunc_direct_same split: if_splits Option.bind_splits)

definition dropped :: "fs \<Rightarrow> nat \<Rightarrow> fs \<Rightarrow> bool" where
  "dropped f k f' \<longleftrightarrow> icache_ok f' \<and> length (icache f') = length (icache f) \<and>
     (\<forall>p. refs f' p = refs f p - (if p = key (icache f ! k) then 1 else 0)) \<and>
     (\<forall>j < length (icache f). key (icache f' ! j) = key (icache f ! j) \<and> iref (icache f' ! j) = iref (icache f ! j) - (if j = k then 1 else 0))"

lemma iput_dropped:
  assumes ok: "icache_ok f" and p: "iput k f = Ret f'" and r: "iref (icache f ! k) > 0"
  shows "dropped f k f'"
proof -
  from p have k: "k < length (icache f)" by (auto simp: iput_def)
  obtain ip st where f': "f' = set_inode k ip (f\<lparr>fstore := st\<rparr>)" and ip: "iref ip = iref (icache f ! k) - 1" "key ip = key (icache f ! k)"
  proof (cases "iref (icache f ! k) = 1 \<and> ivalid (icache f ! k) \<and> nlink (icache f ! k) = 0")
    case True
    with p k obtain ip1 st1 st2 where "itrunc ((icache f ! k)\<lparr>ibusy := True\<rparr>) (fstore f) = Some (ip1, st1)"
      and "f' = set_inode k (ip1\<lparr>itype := 0, ibusy := False, ivalid := False, iref := iref ip1 - 1\<rparr>) (f\<lparr>fstore := st2\<rparr>)"
      by (auto simp: iput_def Let_def split: if_splits)
    then show thesis using itrunc_same by (fastforce simp: key_def intro!: that)
  next
    case False
    with p k have "f' = set_inode k ((icache f ! k)\<lparr>iref := iref (icache f ! k) - 1\<rparr>) (f\<lparr>fstore := fstore f\<rparr>)"
      by (auto simp: iput_def)
    then show thesis by (rule that) (simp_all add: key_def)
  qed
  have "icache_ok (f\<lparr>fstore := st\<rparr>)" "k < length (icache (f\<lparr>fstore := st\<rparr>))" "iref (icache (f\<lparr>fstore := st\<rparr>) ! k) > 0"
    using ok k r by simp_all
  from count_slot[OF this, of ip] ip r k show ?thesis unfolding dropped_def f' by (auto simp: set_inode_def nth_list_update)
qed

lemma iunlockput_dropped:
  assumes "icache_ok f" "iunlockput k f = Ret f'"
  shows "dropped f k f' \<and> k < length (icache f) \<and> iref (icache f ! k) > 0"
proof -
  obtain g where g: "iunlock k f = Ret g" "iput k g = Ret f'" using assms(2) by (auto simp: iunlockput_def)
  have K: "kept f g" "k < length (icache f)" "iref (icache f ! k) > 0" using iunlock_kept[OF assms(1) g(1)] by auto
  then have "icache_ok g" "iref (icache g ! k) > 0" "key (icache g ! k) = key (icache f ! k)" by (auto simp: kept_def)
  with iput_dropped[OF _ g(2)] K show ?thesis by (auto simp: dropped_def kept_def)
qed

end
