(* ===== verification/Dir.thy ===== *)
theory Dir
  imports Icache
begin

text \<open>
  Directories and path names (src/src/fs.c). A directory is a file of 16-byte entries, an inode
  number and a name of 14 bytes. Offsets in a directory are natural numbers: the size of a file is
  at most \<^const>\<open>MAXFILE\<close> blocks. \<open>hr\<close> and \<open>hw\<close> tell which device drivers can read and write.
\<close>

definition DIRSIZ :: nat where "DIRSIZ = 14"
definition ROOTDEV :: "32 word" where "ROOTDEV = 1"
definition ROOTINO :: "32 word" where "ROOTINO = 1"

text \<open>The name looked for is a string, the other one a field of \<^const>\<open>DIRSIZ\<close> bytes.\<close>

definition namecmp :: "cstring \<Rightarrow> byte list \<Rightarrow> int option" where
  "namecmp s t = strncmp (s @ [0] @ t) 0 (length s + 1) DIRSIZ"

lemma readi_loop_same: "readi_loop ip tot n off st dst = Some (d, ip', st') \<Longrightarrow> \<exists>as. ip' = ip\<lparr>addrs := as\<rparr>"
proof (induction "n - tot" arbitrary: ip tot off st dst rule: less_induct)
  case less
  show ?case
  proof (cases "tot < n")
    case False
    then have "ip' = ip" using less.prems by (simp add: readi_loop.simps)
    then show ?thesis by (intro exI[of _ "addrs ip"]) simp
  next
    case True
    let ?m = "min (n - tot) (BSIZE - off mod BSIZE)"
    obtain a ip1 st1 bs where "bmap ip (off div BSIZE) st = Some (a, ip1, st1)"
      and r: "readi_loop ip1 (tot + ?m) n (off + ?m) st1 (dst @ bs) = Some (d, ip', st')"
      using less.prems True by (subst (asm) readi_loop.simps) (auto simp: Let_def split: option.splits)
    then obtain as where "ip1 = ip\<lparr>addrs := as\<rparr>" using bmap_same by blast
    moreover have "n - (tot + ?m) < n - tot" using True chunk_pos[OF True, of off] by linarith
    then obtain bs where "ip' = ip1\<lparr>addrs := bs\<rparr>" using less.hyps[OF _ r] by blast
    ultimately show ?thesis by auto
  qed
qed

lemma readi_same: "readi hr ip off n st = Some (r, ip', st') \<Longrightarrow> \<exists>as. ip' = ip\<lparr>addrs := as\<rparr>"
  by (auto simp: readi_def Let_def dest: readi_loop_same intro: exI[of _ "addrs ip"] split: if_splits Option.bind_splits)

text \<open>Reading one entry; anything but a whole entry is a panic.\<close>

definition read_dirent :: "(int \<Rightarrow> bool) \<Rightarrow> inode \<Rightarrow> nat \<Rightarrow> store \<Rightarrow> (16 word \<times> byte list \<times> inode \<times> store) option" where
  "read_dirent hr ip off st = do {
     (r, ip, st) \<leftarrow> readi hr ip (of_nat off) 16 st;
     (case r of Io_ok de \<Rightarrow> if length de \<noteq> 16 then None else do { i \<leftarrow> load16 de 0; Some (i, drop 2 de, ip, st) } | _ \<Rightarrow> None)
   }"

lemma read_dirent_same: "read_dirent hr ip off st = Some (i, nm, ip', st') \<Longrightarrow> \<exists>as. ip' = ip\<lparr>addrs := as\<rparr>"
  by (auto simp: read_dirent_def dest: readi_same split: Option.bind_splits io.splits if_splits)

function dirlookup_loop :: "(int \<Rightarrow> bool) \<Rightarrow> inode \<Rightarrow> cstring \<Rightarrow> nat \<Rightarrow> store \<Rightarrow> ((nat \<times> 16 word) option \<times> inode \<times> store) option" where
  "dirlookup_loop hr ip name off st =
     (if off < unat (isize ip)
      then (case read_dirent hr ip off st of
         None \<Rightarrow> None
       | Some (i, nm, ip', st') \<Rightarrow>
           if i = 0 then dirlookup_loop hr ip' name (off + 16) st'
           else (case namecmp name nm of
              None \<Rightarrow> None
            | Some d \<Rightarrow> if d = 0 then Some (Some (off, i), ip', st') else dirlookup_loop hr ip' name (off + 16) st'))
      else Some (None, ip, st))"
  by pat_completeness auto
termination by (relation "measure (\<lambda>(hr, ip, name, off, st). unat (isize ip) - off)") (auto dest!: read_dirent_same)

definition dirlookup :: "(int \<Rightarrow> bool) \<Rightarrow> nat \<Rightarrow> cstring \<Rightarrow> fs \<Rightarrow> ((nat \<times> nat) option \<times> fs) outcome" where
  "dirlookup hr k name f = and_then (get_inode k f) (\<lambda>ip.
     if itype ip \<noteq> T_DIR then Panic
     else and_then (or_panic (dirlookup_loop hr ip name 0 (fstore f))) (\<lambda>(r, ip, st).
       let f = set_inode k ip (f\<lparr>fstore := st\<rparr>) in
       case r of
         None \<Rightarrow> Ret (None, f)
       | Some (off, i) \<Rightarrow> and_then (iget (idev ip) (ucast i) f) (\<lambda>(j, f). Ret (Some (j, off), f))))"

text \<open>The first unused entry, or the end of the directory.\<close>

function dirlink_loop :: "(int \<Rightarrow> bool) \<Rightarrow> inode \<Rightarrow> nat \<Rightarrow> store \<Rightarrow> (nat \<times> inode \<times> store) option" where
  "dirlink_loop hr ip off st =
     (if off < unat (isize ip)
      then (case read_dirent hr ip off st of
         None \<Rightarrow> None
       | Some (i, nm, ip', st') \<Rightarrow> if i = 0 then Some (off, ip', st') else dirlink_loop hr ip' (off + 16) st')
      else Some (off, ip, st))"
  by pat_completeness auto
termination by (relation "measure (\<lambda>(hr, ip, off, st). unat (isize ip) - off)") (auto dest!: read_dirent_same)

declare dirlookup_loop.simps [simp del] dirlink_loop.simps [simp del]

text \<open>Every byte of the entry is written, so what the local variable held before does not matter.\<close>

definition make_dirent :: "cstring \<Rightarrow> 32 word \<Rightarrow> byte list option" where
  "make_dirent name i = do {
     mem \<leftarrow> strncpy (replicate 16 0 @ name @ [0]) 2 16 DIRSIZ;
     mem \<leftarrow> store16 mem 0 (ucast i);
     Some (take 16 mem)
   }"

definition dirlink_write :: "(int \<Rightarrow> bool) \<Rightarrow> (int \<Rightarrow> bool) \<Rightarrow> inode \<Rightarrow> cstring \<Rightarrow> 32 word \<Rightarrow> store \<Rightarrow> (inode \<times> store) option" where
  "dirlink_write hr hw ip name i st = do {
     (off, ip, st) \<leftarrow> dirlink_loop hr ip 0 st;
     de \<leftarrow> make_dirent name i;
     (r, ip, st) \<leftarrow> writei hw ip de (of_nat off) st;
     if r = Io_ok 16 then Some (ip, st) else None
   }"

definition dirlink :: "(int \<Rightarrow> bool) \<Rightarrow> (int \<Rightarrow> bool) \<Rightarrow> nat \<Rightarrow> cstring \<Rightarrow> 32 word \<Rightarrow> fs \<Rightarrow> (int \<times> fs) outcome" where
  "dirlink hr hw k name i f = and_then (dirlookup hr k name f) (\<lambda>(r, f).
     case r of
       Some (j, off) \<Rightarrow> and_then (iput j f) (\<lambda>f. Ret (- 1, f))
     | None \<Rightarrow> and_then (get_inode k f) (\<lambda>ip.
         and_then (or_panic (dirlink_write hr hw ip name i (fstore f))) (\<lambda>(ip, st).
           Ret (0, set_inode k ip (f\<lparr>fstore := st\<rparr>)))))"

section \<open>Paths\<close>

definition slash :: byte where "slash = 47"

definition skipelem :: "cstring \<Rightarrow> (cstring \<times> cstring) option" where
  "skipelem path =
     (let p = dropWhile (\<lambda>c. c = slash) path in
      if p = [] then None
      else let s = takeWhile (\<lambda>c. c \<noteq> slash) p; p = dropWhile (\<lambda>c. c \<noteq> slash) p in
        Some (if length s \<ge> DIRSIZ then take DIRSIZ s else s, dropWhile (\<lambda>c. c = slash) p))"

lemma skipelem_shorter: "skipelem path = Some (name, rest) \<Longrightarrow> length rest < length path"
proof -
  assume s: "skipelem path = Some (name, rest)"
  let ?p = "dropWhile (\<lambda>c. c = slash) path"
  have p: "?p \<noteq> []" and r: "rest = dropWhile (\<lambda>c. c = slash) (dropWhile (\<lambda>c. c \<noteq> slash) ?p)"
    using s by (auto simp: skipelem_def Let_def split: if_splits)
  obtain c cs where cs: "?p = c # cs" "c \<noteq> slash" using p hd_dropWhile[OF p] by (cases ?p) auto
  have "length rest \<le> length (dropWhile (\<lambda>c. c \<noteq> slash) ?p)" unfolding r by (rule length_dropWhile_le)
  also have "\<dots> \<le> length cs" using cs by (simp add: length_dropWhile_le)
  also have "\<dots> < length ?p" using cs by simp
  also have "\<dots> \<le> length path" by (rule length_dropWhile_le)
  finally show ?thesis .
qed

lemma and_then_cong [fundef_cong]: "x = y \<Longrightarrow> (\<And>a. y = Ret a \<Longrightarrow> f a = g a) \<Longrightarrow> and_then x f = and_then y g"
  by (cases y) auto

function namex_loop :: "(int \<Rightarrow> bool) \<Rightarrow> cstring \<Rightarrow> bool \<Rightarrow> nat \<Rightarrow> fs \<Rightarrow> ((nat \<times> cstring) option \<times> fs) outcome" where
  "namex_loop hr path par k f =
     (case skipelem path of
        None \<Rightarrow> if par then and_then (iput k f) (\<lambda>f. Ret (None, f)) else Ret (Some (k, []), f)
      | Some (name, rest) \<Rightarrow>
          and_then (ilock k f) (\<lambda>f.
          and_then (get_inode k f) (\<lambda>ip.
            if itype ip \<noteq> T_DIR then and_then (iunlockput k f) (\<lambda>f. Ret (None, f))
            else if par \<and> rest = [] then and_then (iunlock k f) (\<lambda>f. Ret (Some (k, name), f))
            else and_then (dirlookup hr k name f) (\<lambda>r.
              case r of
                (None, f) \<Rightarrow> and_then (iunlockput k f) (\<lambda>f. Ret (None, f))
              | (Some (nxt, off), f) \<Rightarrow> and_then (iunlockput k f) (\<lambda>f. namex_loop hr rest par nxt f)))))"
  by pat_completeness auto
termination by (relation "measure (\<lambda>(hr, path, par, k, f). length path)") (auto dest: skipelem_shorter)

declare namex_loop.simps [simp del]

definition namex :: "(int \<Rightarrow> bool) \<Rightarrow> cstring \<Rightarrow> bool \<Rightarrow> nat \<Rightarrow> fs \<Rightarrow> ((nat \<times> cstring) option \<times> fs) outcome" where
  "namex hr path par cwd f =
     (if path \<noteq> [] \<and> hd path = slash then and_then (iget ROOTDEV ROOTINO f) (\<lambda>(k, f). namex_loop hr path par k f)
      else and_then (idup cwd f) (\<lambda>f. namex_loop hr path par cwd f))"

definition namei :: "(int \<Rightarrow> bool) \<Rightarrow> cstring \<Rightarrow> nat \<Rightarrow> fs \<Rightarrow> (nat option \<times> fs) outcome" where
  "namei hr path cwd f = and_then (namex hr path False cwd f) (\<lambda>(r, f). Ret (map_option fst r, f))"

definition nameiparent :: "(int \<Rightarrow> bool) \<Rightarrow> cstring \<Rightarrow> nat \<Rightarrow> fs \<Rightarrow> ((nat \<times> cstring) option \<times> fs) outcome" where
  "nameiparent hr path cwd f = namex hr path True cwd f"

section \<open>References along a path\<close>

lemma dirlookup_loop_step:
  assumes "off < unat (isize ip)" "read_dirent hr ip off st = Some (i, nm, ip1, st1)"
  shows "dirlookup_loop hr ip name off st =
    (if i = 0 then dirlookup_loop hr ip1 name (off + 16) st1
     else (case namecmp name nm of None \<Rightarrow> None
       | Some d \<Rightarrow> if d = 0 then Some (Some (off, i), ip1, st1) else dirlookup_loop hr ip1 name (off + 16) st1))"
  using assms by (subst dirlookup_loop.simps) simp

lemma dirlookup_loop_same:
  "dirlookup_loop hr ip name off st = Some (r, ip', st') \<Longrightarrow> \<exists>as. ip' = ip\<lparr>addrs := as\<rparr>"
proof (induction hr ip name off st rule: dirlookup_loop.induct)
  case (1 hr ip name off st)
  show ?case
  proof (cases "off < unat (isize ip)")
    case False
    then show ?thesis using "1.prems" by (subst (asm) dirlookup_loop.simps) (auto intro: exI[of _ "addrs ip"])
  next
    case True
    then obtain i nm ip1 st1 where r: "read_dirent hr ip off st = Some (i, nm, ip1, st1)"
      using "1.prems" by (subst (asm) dirlookup_loop.simps) (auto split: option.splits)
    obtain as where as: "ip1 = ip\<lparr>addrs := as\<rparr>" using read_dirent_same[OF r] by blast
    consider "ip' = ip1" | "i = 0" "dirlookup_loop hr ip1 name (off + 16) st1 = Some (r, ip', st')"
      | d where "i \<noteq> 0" "namecmp name nm = Some d" "d \<noteq> 0" "dirlookup_loop hr ip1 name (off + 16) st1 = Some (r, ip', st')"
      using "1.prems" unfolding dirlookup_loop_step[OF True r] by (auto split: option.splits if_splits)
    then show ?thesis
    proof cases
      case 1
      then show ?thesis using as by blast
    next
      case 2
      from "1.IH"(1)[OF True r refl refl refl 2(1) 2(2)] as show ?thesis by auto
    next
      case 3
      from "1.IH"(2)[OF True r refl refl refl 3(1) 3(2) 3(3) 3(4)] as show ?thesis by auto
    qed
  qed
qed

lemma dirlookup_refs:
  assumes ok: "icache_ok f" and d: "dirlookup hr k name f = Ret (r, f')"
  shows "case r of None \<Rightarrow> kept f f' | Some (j, off) \<Rightarrow> \<exists>g q. kept f g \<and> got g q j f'"
proof -
  obtain ip' st' r' where k: "k < length (icache f)" and l: "dirlookup_loop hr (icache f ! k) name 0 (fstore f) = Some (r', ip', st')"
    and r: "case r' of None \<Rightarrow> r = None \<and> f' = set_inode k ip' (f\<lparr>fstore := st'\<rparr>)
      | Some (off, i) \<Rightarrow> \<exists>j. r = Some (j, off) \<and> iget (idev ip') (ucast i) (set_inode k ip' (f\<lparr>fstore := st'\<rparr>)) = Ret (j, f')"
    using d by (auto simp: dirlookup_def Let_def split: if_splits option.splits)
  obtain as where "ip' = (icache f ! k)\<lparr>addrs := as\<rparr>" using dirlookup_loop_same[OF l] by blast
  then have K: "kept f (set_inode k ip' (f\<lparr>fstore := st'\<rparr>))"
    using kept_trans[OF kept_store[OF ok, of st'] kept_set[of "f\<lparr>fstore := st'\<rparr>" k ip']] ok k by (simp add: key_def)
  then have "icache_ok (set_inode k ip' (f\<lparr>fstore := st'\<rparr>))" by (simp add: kept_def)
  from iget_got[OF this] r K show ?thesis by (auto split: option.splits) blast
qed

lemma got_refs: "got f q k f' \<Longrightarrow> refs f' p = refs f p + (if p = q then 1 else 0)"
  unfolding got_def by blast

declare split_paired_All [simp del]

definition holds_ref :: "fs \<Rightarrow> nat \<Rightarrow> bool" where
  "holds_ref f k \<longleftrightarrow> k < length (icache f) \<and> iref (icache f ! k) > 0"

lemma namex_loop_refs:
  "namex_loop hr path par k f = Ret (r, f') \<Longrightarrow> icache_ok f \<Longrightarrow> holds_ref f k \<Longrightarrow>
   icache_ok f' \<and> (case r of None \<Rightarrow> True | Some (j, nm) \<Rightarrow> holds_ref f' j) \<and>
   (\<forall>q. refs f' q + (if q = key (icache f ! k) then 1 else 0) = refs f q + (case r of None \<Rightarrow> 0 | Some (j, nm) \<Rightarrow> if q = key (icache f' ! j) then 1 else 0))"
proof (induction hr path par k f rule: namex_loop.induct)
  case (1 hr path par k f)
  note ok = "1.prems"(2) and hk = "1.prems"(3)[unfolded holds_ref_def]
  show ?case
  proof (cases "skipelem path")
    case None
    then show ?thesis using "1.prems" iput_dropped[OF ok _ conjunct2[OF hk]]
      by (subst (asm) namex_loop.simps) (auto simp: dropped_def holds_ref_def split: if_splits)
  next
    case (Some p)
    obtain name rest where sk: "skipelem path = Some (name, rest)" using Some by (cases p) auto
    from "1.prems"(1) sk obtain g where l: "ilock k f = Ret g"
      by (subst (asm) namex_loop.simps) auto
    have K: "kept f g" using ilock_kept[OF ok l] by blast
    then have g: "icache_ok g" "length (icache g) = length (icache f)" "key (icache g ! k) = key (icache f ! k)" "iref (icache g ! k) > 0" "refs g = refs f"
      using hk by (auto simp: kept_def)
    let ?ip = "icache g ! k"
    have gi: "get_inode k g = Ret ?ip" using hk g(2) by simp
    have drop: "icache_ok f' \<and> (\<forall>q. refs f' q + (if q = key (icache f ! k) then 1 else 0) = refs f q)"
      if "kept g g'" "iunlockput k g' = Ret f'" for g' f'
      using iunlockput_dropped[of g' k f'] that g hk by (auto simp: dropped_def kept_def)
    have e: "namex_loop hr path par k f =
       (if itype ?ip \<noteq> T_DIR then and_then (iunlockput k g) (\<lambda>f. Ret (None, f))
        else if par \<and> rest = [] then and_then (iunlock k g) (\<lambda>f. Ret (Some (k, name), f))
        else and_then (dirlookup hr k name g) (\<lambda>r.
          case r of
            (None, f) \<Rightarrow> and_then (iunlockput k f) (\<lambda>f. Ret (None, f))
          | (Some (nxt, off), f) \<Rightarrow> and_then (iunlockput k f) (\<lambda>f. namex_loop hr rest par nxt f)))"
      by (subst namex_loop.simps) (simp only: sk l gi and_then.simps option.case prod.case)
    consider "r = None" "iunlockput k g = Ret f'" | "r = Some (k, name)" "iunlock k g = Ret f'"
      | g' where "dirlookup hr k name g = Ret (None, g')" "r = None" "iunlockput k g' = Ret f'"
      | nxt off g1 g2 where "itype ?ip = T_DIR" "\<not> (par \<and> rest = [])" "dirlookup hr k name g = Ret (Some (nxt, off), g1)" "iunlockput k g1 = Ret g2"
          "namex_loop hr rest par nxt g2 = Ret (r, f')"
    proof (cases "itype ?ip = T_DIR \<and> \<not> (par \<and> rest = [])")
      case True
      then obtain a g1 where a: "dirlookup hr k name g = Ret (a, g1)" using "1.prems"(1) unfolding e by (auto split: if_splits)
      with True "1.prems"(1) that(3,4) show thesis unfolding e by (cases a) (auto split: if_splits)
    next
      case False
      with "1.prems"(1) that(1,2) show thesis unfolding e by (auto split: if_splits)
    qed
    then show ?thesis
    proof cases
      case 1
      then show ?thesis using drop[OF kept_refl[OF g(1)]] by auto
    next
      case 2
      then show ?thesis using iunlock_kept[OF g(1)] g hk by (auto simp: kept_def holds_ref_def)
    next
      case 3
      have "kept g g'" using dirlookup_refs[OF g(1) 3(1)] by simp
      then show ?thesis using drop[OF _ 3(3)] 3(2) by auto
    next
      case 4
      obtain g0 q where k0: "kept g g0" and got: "got g0 q nxt g1" using dirlookup_refs[OF g(1) 4(3)] by auto
      have s1: "icache_ok g1" "length (icache g1) = length (icache g)" "key (icache g1 ! k) = key (icache g ! k)" "nxt < length (icache g1)"
        "iref (icache g1 ! nxt) > 0" "key (icache g1 ! nxt) = q"
        "iref (icache g1 ! k) = iref (icache g ! k) + (if k = nxt then 1 else 0)"
        using k0 got g(2,4) hk by (auto simp: kept_def got_def)
      have r1: "refs g1 p = refs g p + (if p = q then 1 else 0)" for p using got_refs[OF got, of p] k0 by (simp add: kept_def)
      have D: "dropped g1 k g2" using iunlockput_dropped[OF s1(1) 4(4)] by blast
      then have s2: "icache_ok g2" "holds_ref g2 nxt" "key (icache g2 ! nxt) = q" "\<And>p. refs g2 p = refs g1 p - (if p = key (icache g ! k) then 1 else 0)"
        using s1 g(2,4) hk by (auto simp: dropped_def holds_ref_def)
      have IH: "icache_ok f' \<and> (case r of None \<Rightarrow> True | Some (j, nm) \<Rightarrow> holds_ref f' j) \<and>
          (\<forall>q. refs f' q + (if q = key (icache g2 ! nxt) then 1 else 0) = refs g2 q + (case r of None \<Rightarrow> 0 | Some (j, nm) \<Rightarrow> if q = key (icache f' ! j) then 1 else 0))"
        by (rule "1.IH"[OF sk refl l gi _ 4(2) 4(3) refl refl refl 4(4) 4(5) s2(1,2)]) (simp add: 4(1))
      then show ?thesis using s2(3,4) r1 g(3,5) by (auto split: option.splits)
    qed
  qed
qed

text \<open>
  C31: looking up a path balances its references. Whatever the path and wherever the look-up ends
  (a missing name, a component that is not a directory, a path without a last element), a failed
  look-up leaves the number of references to every inode as it was, and a successful one adds
  exactly one, to the inode returned; every inode stays in at most one slot of the table.
\<close>

theorem namex_refs:
  assumes "icache_ok f" "holds_ref f cwd" "namex hr path par cwd f = Ret (r, f')"
  shows "icache_ok f' \<and> (case r of None \<Rightarrow> \<forall>q. refs f' q = refs f q
    | Some (k, name) \<Rightarrow> holds_ref f' k \<and> (\<forall>q. refs f' q = refs f q + (if q = key (icache f' ! k) then 1 else 0)))"
proof -
  obtain k g q where g: "got f q k g" and l: "namex_loop hr path par k g = Ret (r, f')"
  proof (cases "path \<noteq> [] \<and> hd path = slash")
    case True
    with assms(3) obtain k g where "iget ROOTDEV ROOTINO f = Ret (k, g)" "namex_loop hr path par k g = Ret (r, f')"
      by (auto simp: namex_def)
    with iget_got[OF assms(1)] that show thesis by blast
  next
    case False
    with assms(3) obtain g where "idup cwd f = Ret g" "namex_loop hr path par cwd g = Ret (r, f')"
      by (auto simp: namex_def split: if_splits)
    with idup_got[OF assms(1), of cwd g] assms(2) that[of "key (icache f ! cwd)" cwd g] show thesis by (simp add: holds_ref_def)
  qed
  from namex_loop_refs[OF l] g have "icache_ok f' \<and> (case r of None \<Rightarrow> True | Some (j, nm) \<Rightarrow> holds_ref f' j) \<and>
     (\<forall>p. refs f' p + (if p = q then 1 else 0) = refs g p + (case r of None \<Rightarrow> 0 | Some (j, nm) \<Rightarrow> if p = key (icache f' ! j) then 1 else 0))"
    by (auto simp: got_def holds_ref_def)
  moreover have "refs g p = refs f p + (if p = q then 1 else 0)" for p using g by (rule got_refs)
  ultimately show ?thesis by (auto split: option.splits)
qed

text \<open>A table with the current directory, which is in fact a plain file, in slot 0.\<close>

definition demo_fs :: fs where
  "demo_fs = set_inode 0 (demo_inode\<lparr>ibusy := False\<rparr>) (iinit demo_store)"

lemma demo_icache: "icache demo_fs = demo_inode\<lparr>ibusy := False\<rparr> # replicate 49 free_inode"
  by (simp add: demo_fs_def set_inode_def iinit_def NINODE_def numeral_eq_Suc)

lemma demo_fs_ok: "icache_ok demo_fs" "holds_ref demo_fs 0"
  by (auto simp: icache_ok_def holds_ref_def demo_icache nth_Cons' demo_inode_def free_inode_def split: if_splits)

theorem namex_refs_witness:
  "\<exists>f'. namex (\<lambda>_. False) (lit ''a/b'') False 0 demo_fs = Ret (None, f') \<and> icache_ok f' \<and> (\<forall>q. refs f' q = refs demo_fs q)"
proof -
  have "(case namex (\<lambda>_. False) (lit ''a/b'') False 0 demo_fs of Ret (None, f') \<Rightarrow> True | _ \<Rightarrow> False)" by code_simp
  then obtain f' where n: "namex (\<lambda>_. False) (lit ''a/b'') False 0 demo_fs = Ret (None, f')"
    by (auto split: outcome.splits option.splits)
  from namex_refs[OF demo_fs_ok n] n show ?thesis by auto
qed

section \<open>The elements of a path\<close>

text \<open>The names that a look-up of the path asks for, one after the other.\<close>

function path_elems :: "cstring \<Rightarrow> cstring list" where
  "path_elems path = (case skipelem path of None \<Rightarrow> [] | Some (name, rest) \<Rightarrow> name # path_elems rest)"
  by pat_completeness auto
termination by (relation "measure length") (auto dest: skipelem_shorter)

declare path_elems.simps [simp del]

text \<open>The pieces of a path between slashes.\<close>

fun pieces :: "cstring \<Rightarrow> cstring list" where
  "pieces [] = [[]]"
| "pieces (c # cs) = (if c = slash then [] # pieces cs else (c # hd (pieces cs)) # tl (pieces cs))"

lemma pieces_nonempty [simp]: "pieces p \<noteq> []"
  by (cases p) auto

lemma pieces_skip: "filter (\<lambda>e. e \<noteq> []) (pieces (dropWhile (\<lambda>c. c = slash) p)) = filter (\<lambda>e. e \<noteq> []) (pieces p)"
  by (induction p) auto

lemma pieces_hd: "hd (pieces p) = takeWhile (\<lambda>c. c \<noteq> slash) p"
  by (induction p) auto

lemma pieces_tl: "filter (\<lambda>e. e \<noteq> []) (tl (pieces p)) = filter (\<lambda>e. e \<noteq> []) (pieces (dropWhile (\<lambda>c. c \<noteq> slash) p))"
  by (induction p) auto

text \<open>
  Walking a path asks for its components: the non-empty pieces between slashes, each cut to the
  length of a directory entry's name, in order, however many slashes there are.
\<close>

lemma path_elems_pieces: "path_elems path = map (take DIRSIZ) (filter (\<lambda>e. e \<noteq> []) (pieces path))"
proof (induction path rule: path_elems.induct)
  case (1 path)
  let ?p = "dropWhile (\<lambda>c. c = slash) path"
  show ?case
  proof (cases "?p = []")
    case True
    then have "path_elems path = []" by (subst path_elems.simps) (simp add: skipelem_def)
    then show ?thesis using pieces_skip[of path] True by simp
  next
    case False
    let ?s = "takeWhile (\<lambda>c. c \<noteq> slash) ?p" and ?r = "dropWhile (\<lambda>c. c = slash) (dropWhile (\<lambda>c. c \<noteq> slash) ?p)"
    have s: "?s \<noteq> []" using hd_dropWhile[OF False] False by (cases ?p) auto
    have sk: "skipelem path = Some (take DIRSIZ ?s, ?r)" using False by (simp add: skipelem_def Let_def)
    have "pieces ?p = ?s # tl (pieces ?p)" using pieces_hd[of ?p] by (metis list.collapse pieces_nonempty)
    then have "filter (\<lambda>e. e \<noteq> []) (pieces path) = ?s # filter (\<lambda>e. e \<noteq> []) (tl (pieces ?p))"
      using pieces_skip[of path] s by (metis (mono_tags, lifting) filter.simps(2))
    also have "filter (\<lambda>e. e \<noteq> []) (tl (pieces ?p)) = filter (\<lambda>e. e \<noteq> []) (pieces ?r)"
      by (simp only: pieces_tl pieces_skip)
    finally show ?thesis using "1.IH"[OF sk refl] by (subst path_elems.simps) (simp add: sk)
  qed
qed

end
