(* ===== verification/Dir_Spec.thy ===== *)
theory Dir_Spec
  imports Dir
begin

text \<open>
  Directories as lists of entries: looking up a name scans the list, and linking a name puts an
  entry in its first unused place or at its end.
\<close>

type_synonym dirent = "16 word \<times> byte list"

definition de_inum :: "byte list \<Rightarrow> 16 word" where
  "de_inum de = (case load16 de 0 of Some w \<Rightarrow> w | None \<Rightarrow> 0)"

definition dirent_at :: "inode \<Rightarrow> store \<Rightarrow> nat \<Rightarrow> byte list" where
  "dirent_at ip st off = map (\<lambda>i. file_byte ip st (off + i)) [0..<16]"

definition to_entry :: "byte list \<Rightarrow> dirent" where
  "to_entry de = (de_inum de, drop 2 de)"

definition dir_entries :: "inode \<Rightarrow> store \<Rightarrow> dirent list" where
  "dir_entries ip st = map (\<lambda>j. to_entry (dirent_at ip st (16 * j))) [0..<unat (isize ip) div 16]"

definition dir_ok :: "superblock \<Rightarrow> store \<Rightarrow> inode \<Rightarrow> bool" where
  "dir_ok sb st ip \<longleftrightarrow> fs_ok sb st \<and> inode_ok sb st ip \<and> itype ip = T_DIR \<and> 16 dvd unat (isize ip) \<and> (\<forall>i < unat (isize ip). has ip st i)"

fun scan_entries :: "cstring \<Rightarrow> nat \<Rightarrow> dirent list \<Rightarrow> (nat \<times> 16 word) option" where
  "scan_entries name off [] = None"
| "scan_entries name off (e # es) =
     (if fst e \<noteq> 0 \<and> take DIRSIZ name = cstr (snd e) then Some (off, fst e) else scan_entries name (off + 16) es)"

fun free_entry :: "nat \<Rightarrow> dirent list \<Rightarrow> nat" where
  "free_entry off [] = off"
| "free_entry off (e # es) = (if fst e = 0 then off else free_entry (off + 16) es)"

lemma length_dirent_at [simp]: "length (dirent_at ip st off) = 16"
  by (simp add: dirent_at_def)

lemma load16_total: "p + 2 \<le> length b \<Longrightarrow> \<exists>w. load16 b p = Some w"
  by (simp add: load16_def rd_def)

lemma read_dirent_ok:
  assumes d: "dir_ok sb st ip" and off: "off + 16 \<le> unat (isize ip)"
  shows "read_dirent hr ip off st = Some (de_inum (dirent_at ip st off), drop 2 (dirent_at ip st off), ip, st)"
proof -
  note D = d[unfolded dir_ok_def]
  let ?o = "of_nat off :: 32 word"
  have "unat (isize ip) < 2 ^ LENGTH(32)" by (rule unsigned_less)
  with off have lim: "off + 16 < 2 ^ 32" by simp
  then have uo: "unat ?o = off" by (simp add: unat_of_nat)
  then have us: "unat (?o + 16) = off + 16" using lim by (simp add: unat_word_ariths)
  have c: "\<not> isize ip < ?o" "\<not> ?o + 16 < ?o" "\<not> isize ip < ?o + 16" using uo us off by (auto simp: word_less_nat_alt)
  have "readi_loop ip 0 16 off st [] = Some ([] @ map (\<lambda>i. file_byte ip st (off + i)) [0..<16 - 0], ip, st)"
    by (rule readi_loop_ok[of sb]) (use D off in auto)
  then have r: "readi hr ip ?o 16 st = Some (Io_ok (dirent_at ip st off), ip, st)"
    using D c uo by (simp add: readi_def Let_def dirent_at_def T_DIR_def T_DEV_def)
  obtain w where "load16 (dirent_at ip st off) 0 = Some w" using load16_total[of 0 "dirent_at ip st off"] by auto
  with r show ?thesis by (simp add: read_dirent_def de_inum_def)
qed

lemma namecmp_ok:
  assumes "0 \<notin> set name" "length nm = DIRSIZ"
  shows "\<exists>d. namecmp name nm = Some d \<and> (d = 0 \<longleftrightarrow> take DIRSIZ name = cstr nm)"
proof -
  let ?mem = "name @ [0] @ nm"
  have "ends_within DIRSIZ (drop 0 ?mem)" "ends_within DIRSIZ (drop (length name + 1) ?mem)"
    using assms(2) by (auto simp: ends_within_def)
  from strncmp_zero[OF this] obtain d where "namecmp name nm = Some d"
    "d = 0 \<longleftrightarrow> cstr_n DIRSIZ ?mem = cstr_n DIRSIZ nm" by (auto simp: namecmp_def)
  moreover have "cstr_n DIRSIZ ?mem = take DIRSIZ name" using cstr_n_string[OF assms(1)] by simp
  moreover have "cstr_n DIRSIZ nm = cstr nm" using assms(2) by (simp add: cstr_n_def)
  ultimately show ?thesis by auto
qed

lemma dir_entries_drop:
  assumes "j < unat (isize ip) div 16"
  shows "drop j (dir_entries ip st) = to_entry (dirent_at ip st (16 * j)) # drop (Suc j) (dir_entries ip st)"
  using assms by (subst Cons_nth_drop_Suc[symmetric]) (auto simp: dir_entries_def)

lemma dirlookup_loop_scan:
  assumes d: "dir_ok sb st ip" and name: "0 \<notin> set name"
  shows "j \<le> unat (isize ip) div 16 \<Longrightarrow>
    dirlookup_loop hr ip name (16 * j) st = Some (scan_entries name (16 * j) (drop j (dir_entries ip st)), ip, st)"
proof (induction "unat (isize ip) div 16 - j" arbitrary: j)
  case 0
  then have "j = unat (isize ip) div 16" by simp
  moreover have "16 dvd unat (isize ip)" using d by (simp add: dir_ok_def)
  ultimately show ?case by (subst dirlookup_loop.simps) (simp add: dir_entries_def)
next
  case (Suc m)
  then have j: "j < unat (isize ip) div 16" by simp
  moreover have "16 dvd unat (isize ip)" using d by (simp add: dir_ok_def)
  ultimately have off: "16 * j + 16 \<le> unat (isize ip)" by (auto elim!: dvdE)
  then have lt: "16 * j < unat (isize ip)" by simp
  note r = read_dirent_ok[OF d off, of hr]
  obtain c where c: "namecmp name (drop 2 (dirent_at ip st (16 * j))) = Some c"
    "c = 0 \<longleftrightarrow> take DIRSIZ name = cstr (drop 2 (dirent_at ip st (16 * j)))"
    using namecmp_ok[OF name, of "drop 2 (dirent_at ip st (16 * j))"] by (auto simp: DIRSIZ_def)
  have IH: "dirlookup_loop hr ip name (16 * j + 16) st = Some (scan_entries name (16 * j + 16) (drop (Suc j) (dir_entries ip st)), ip, st)"
    using Suc(1)[of "Suc j"] Suc(2,3) j by (simp add: add.commute)
  show ?case
    unfolding dirlookup_loop_step[OF lt r] dir_entries_drop[OF j] using c IH by (simp add: to_entry_def)
qed

lemma dirlink_loop_free:
  assumes d: "dir_ok sb st ip"
  shows "j \<le> unat (isize ip) div 16 \<Longrightarrow> dirlink_loop hr ip (16 * j) st = Some (free_entry (16 * j) (drop j (dir_entries ip st)), ip, st)"
proof (induction "unat (isize ip) div 16 - j" arbitrary: j)
  case 0
  then have "j = unat (isize ip) div 16" by simp
  moreover have "16 dvd unat (isize ip)" using d by (simp add: dir_ok_def)
  ultimately show ?case by (subst dirlink_loop.simps) (simp add: dir_entries_def)
next
  case (Suc m)
  then have j: "j < unat (isize ip) div 16" by simp
  moreover have "16 dvd unat (isize ip)" using d by (simp add: dir_ok_def)
  ultimately have off: "16 * j + 16 \<le> unat (isize ip)" by (auto elim!: dvdE)
  have IH: "dirlink_loop hr ip (16 * j + 16) st = Some (free_entry (16 * j + 16) (drop (Suc j) (dir_entries ip st)), ip, st)"
    using Suc(1)[of "Suc j"] Suc(2,3) j by (simp add: add.commute)
  show ?case
    unfolding dir_entries_drop[OF j] using read_dirent_ok[OF d off, of hr] off IH
    by (subst dirlink_loop.simps) (simp add: to_entry_def)
qed

lemma make_dirent_ok:
  assumes "0 \<notin> set name"
  shows "make_dirent name i = Some (le16 (ucast i) @ padded DIRSIZ name)"
proof -
  let ?m = "replicate 16 0 @ name @ [0]"
  have s: "string_at ?m 16 name" using assms by (simp add: string_at_def range_of_def nth_append)
  have 1: "strncpy ?m 2 16 DIRSIZ = Some (blit ?m 2 (padded DIRSIZ name))" by (rule strncpy_padded[OF s]) (simp_all add: DIRSIZ_def)
  have b: "blit ?m 2 (padded DIRSIZ name) = [0, 0] @ padded DIRSIZ name @ name @ [0]"
    by (simp add: blit_def DIRSIZ_def numeral_eq_Suc)
  have 2: "store16 (blit ?m 2 (padded DIRSIZ name)) 0 (ucast i) = Some (blit (blit ?m 2 (padded DIRSIZ name)) 0 (le16 (ucast i)))"
    by (rule store16_blit) (simp add: DIRSIZ_def)
  have "blit (blit ?m 2 (padded DIRSIZ name)) 0 (le16 (ucast i)) = le16 (ucast i) @ padded DIRSIZ name @ name @ [0]"
    unfolding b by (simp add: blit_def)
  moreover have "take 16 (le16 (ucast i) @ padded DIRSIZ name @ name @ [0]) = le16 (ucast i) @ padded DIRSIZ name"
    by (simp add: DIRSIZ_def)
  ultimately show ?thesis by (simp add: make_dirent_def 1 2)
qed

lemma to_entry_made: "0 \<notin> set name \<Longrightarrow> to_entry (le16 w @ padded DIRSIZ name) = (w, padded DIRSIZ name)"
  using load16_range[of 0 "le16 w @ padded DIRSIZ name" w] by (simp add: to_entry_def de_inum_def range_of_def)

lemma cstr_padded: "0 \<notin> set name \<Longrightarrow> cstr (padded DIRSIZ name) = take DIRSIZ name"
  using cstr_n_padded[of name DIRSIZ "[]"] by (simp add: cstr_n_def)

section \<open>Linking a name\<close>

text \<open>What the new entry does to a scan.\<close>

lemma free_entry_spec:
  "\<exists>k \<le> length es. free_entry off es = off + 16 * k \<and> (k < length es \<longrightarrow> fst (es ! k) = 0)"
proof (induction es arbitrary: off)
  case (Cons e es)
  show ?case
  proof (cases "fst e = 0")
    case True
    then show ?thesis by (intro exI[of _ 0]) simp
  next
    case False
    obtain k where "k \<le> length es" "free_entry (off + 16) es = off + 16 + 16 * k" "k < length es \<longrightarrow> fst (es ! k) = 0" using Cons[of "off + 16"] by blast
    with False show ?thesis by (intro exI[of _ "Suc k"]) simp
  qed
qed simp

lemma scan_update:
  assumes "k < length es" "fst (es ! k) = 0" "i \<noteq> 0" "cstr nm = take DIRSIZ name" "scan_entries name off es = None"
  shows "scan_entries n off (es[k := (i, nm)]) = (if take DIRSIZ n = take DIRSIZ name then Some (off + 16 * k, i) else scan_entries n off es)"
  using assms
proof (induction es arbitrary: k off)
  case (Cons e es)
  then show ?case
  proof (cases k)
    case 0
    then show ?thesis using Cons.prems by auto
  next
    case (Suc k')
    have ne: "\<not> (fst e \<noteq> 0 \<and> take DIRSIZ name = cstr (snd e))" "scan_entries name (off + 16) es = None"
      using Cons.prems(5) by (auto split: if_splits)
    have "scan_entries n (off + 16) (es[k' := (i, nm)]) = (if take DIRSIZ n = take DIRSIZ name then Some (off + 16 + 16 * k', i) else scan_entries n (off + 16) es)"
      using Cons.prems Suc ne by (intro Cons.IH) auto
    then show ?thesis using Suc ne by auto
  qed
qed simp

lemma scan_append:
  assumes "i \<noteq> 0" "cstr nm = take DIRSIZ name" "scan_entries name off es = None"
  shows "scan_entries n off (es @ [(i, nm)]) = (if take DIRSIZ n = take DIRSIZ name then Some (off + 16 * length es, i) else scan_entries n off es)"
  using assms
proof (induction es arbitrary: off)
  case (Cons e es)
  have ne: "\<not> (fst e \<noteq> 0 \<and> take DIRSIZ name = cstr (snd e))" "scan_entries name (off + 16) es = None"
    using Cons.prems(3) by (auto split: if_splits)
  from Cons.IH[OF Cons.prems(1,2) ne(2)] ne show ?case by auto
qed auto

text \<open>The directory after the entry was written.\<close>

lemma dirlink_write_entries:
  assumes d: "dir_ok sb st ip" and i: "inum ip < sb_ninodes sb" and name: "0 \<notin> set name"
    and sp: "new_blocks ip st (free_entry 0 (dir_entries ip st)) 16 \<le> spare sb st"
    and w: "dirlink_write hr hw ip name x st = Some (ip', st')"
  obtains k where "k \<le> length (dir_entries ip st)" "k < length (dir_entries ip st) \<longrightarrow> fst (dir_entries ip st ! k) = 0"
    "dir_ok sb st' ip'"
    "dir_entries ip' st' = (if k < length (dir_entries ip st) then (dir_entries ip st)[k := (ucast x, padded DIRSIZ name)]
       else dir_entries ip st @ [(ucast x, padded DIRSIZ name)])"
proof -
  note D = d[unfolded dir_ok_def]
  let ?es = "dir_entries ip st" and ?de = "le16 (ucast x) @ padded DIRSIZ name"
  have len: "length ?es = unat (isize ip) div 16" "16 * length ?es = unat (isize ip)" using D by (auto simp: dir_entries_def)
  obtain k where k: "k \<le> length ?es" "free_entry 0 ?es = 16 * k" "k < length ?es \<longrightarrow> fst (?es ! k) = 0" using free_entry_spec[of ?es 0] by auto
  have l: "dirlink_loop hr ip 0 st = Some (16 * k, ip, st)" using dirlink_loop_free[OF d, of 0 hr] k by simp
  have "unat (isize ip) < 2 ^ LENGTH(32)" by (rule unsigned_less)
  then have uk: "unat (of_nat (16 * k) :: 32 word) = 16 * k" using k(1) len(2) by (simp only: unat_of_nat) simp
  have dl: "length ?de = 16" by (simp add: DIRSIZ_def)
  have wr: "writei hw ip ?de (of_nat (16 * k)) st = Some (Io_ok 16, ip', st')"
    using w l make_dirent_ok[OF name] by (auto simp: dirlink_write_def simp del: of_nat_mult split: Option.bind_splits if_splits)
  have ty: "itype ip \<noteq> T_DEV" using D by (simp add: T_DIR_def T_DEV_def)
  have dl32: "length ?de < 2 ^ 32" using dl by simp
  have sp': "new_blocks ip st (unat (of_nat (16 * k) :: 32 word)) (length ?de) \<le> spare sb st" using sp k(2) unfolding uk dl by simp
  note W = writei_wrote[OF conjunct1[OF D] conjunct1[OF conjunct2[OF D]] i ty dl32 sp' wr]
  let ?z = "max (isize ip) (of_nat (16 * k) + 16)"
  have s: "has (ip\<lparr>isize := ?z\<rparr>) = has ip" "file_byte (ip\<lparr>isize := ?z\<rparr>) = file_byte ip" "amap (ip\<lparr>isize := ?z\<rparr>) = amap ip"
    by (auto simp: fun_eq_iff amap_def has_def file_byte_def)
  note w' = W(4)[unfolded wrote_def s uk dl]
  obtain as where ip': "ip' = ip\<lparr>isize := ?z, addrs := as\<rparr>" using w' by auto
  have sz: "unat (isize ip') = max (unat (isize ip)) (16 * k + 16)" using W(3) dl uk by (simp add: ip' max_def word_le_nat_alt)
  have keep: "has ip' st' n" if "has ip st n" for n using w' that by (auto simp: has_def)
  have new: "has ip' st' (16 * k + n)" "file_byte ip' st' (16 * k + n) = ?de ! n" if "n < 16" for n using w' that by blast+
  have hs: "has ip' st' n" if n: "n < unat (isize ip')" for n
  proof (cases "n < unat (isize ip)")
    case False
    then have "16 * k \<le> n" "n - 16 * k < 16" using n sz k(1) len(2) by auto
    then show ?thesis using new(1)[of "n - 16 * k"] by simp
  next
    case True
    then have "has ip st n" using D by blast
    then show ?thesis by (rule keep)
  qed
  have at: "dirent_at ip' st' (16 * j) = (if j = k then ?de else dirent_at ip st (16 * j))" if "j = k \<or> j < length ?es" for j
  proof (cases "j = k")
    case True
    then show ?thesis using new(2) dl by (simp add: dirent_at_def list_eq_iff_nth_eq)
  next
    case False
    have "file_byte ip' st' (16 * j + n) = file_byte ip st (16 * j + n)" if "n < 16" for n
    proof -
      have "16 * j + n < unat (isize ip)" using that len(2) False \<open>j = k \<or> j < length ?es\<close> by linarith
      then have "has ip st (16 * j + n)" using D by blast
      moreover have "16 * j + n < 16 * k \<or> 16 * k + 16 \<le> 16 * j + n" using False that by linarith
      ultimately show ?thesis using w' by blast
    qed
    then show ?thesis using False by (simp add: dirent_at_def)
  qed
  have "16 dvd unat (isize ip')" using D unfolding sz by (auto simp: max_def)
  then have d': "dir_ok sb st' ip'" using w' hs D unfolding dir_ok_def by (simp add: ip')
  have n': "unat (isize ip') div 16 = (if k < length ?es then length ?es else Suc (length ?es))"
    using sz len k(1) by (auto simp: max_def)
  have "dir_entries ip' st' = (if k < length ?es then ?es[k := (ucast x, padded DIRSIZ name)] else ?es @ [(ucast x, padded DIRSIZ name)])"
  proof (rule nth_equalityI)
    fix j assume "j < length (dir_entries ip' st')"
    then have j: "j < unat (isize ip') div 16" by (simp add: dir_entries_def)
    then have "j = k \<or> j < length ?es" using n' k(1) by (auto split: if_splits)
    then show "dir_entries ip' st' ! j = (if k < length ?es then ?es[k := (ucast x, padded DIRSIZ name)] else ?es @ [(ucast x, padded DIRSIZ name)]) ! j"
      using j at[of j] to_entry_made[OF name, of "ucast x"] k(1) len(1) by (auto simp: dir_entries_def nth_list_update nth_append)
  qed (use n' in \<open>simp add: dir_entries_def[of ip' st']\<close>)
  then show thesis using that[OF k(1,3) d'] by blast
qed

lemma dirlink_ret:
  assumes d: "dir_ok sb (fstore f) (icache f ! k)" and name: "0 \<notin> set name" and r: "dirlink hr hw k name x f = Ret (0, f')"
  shows "k < length (icache f) \<and> scan_entries name 0 (dir_entries (icache f ! k) (fstore f)) = None \<and>
    (\<exists>ip' st'. dirlink_write hr hw (icache f ! k) name x (fstore f) = Some (ip', st') \<and> f' = set_inode k ip' (f\<lparr>fstore := st'\<rparr>))"
proof -
  let ?ip = "icache f ! k" and ?st = "fstore f"
  have l: "dirlookup_loop hr ?ip name 0 ?st = Some (scan_entries name 0 (dir_entries ?ip ?st), ?ip, ?st)"
    using dirlookup_loop_scan[OF d name, of 0 hr] by simp
  have k: "k < length (icache f)" using r by (auto simp: dirlink_def dirlookup_def)
  then have f: "set_inode k ?ip (f\<lparr>fstore := ?st\<rparr>) = f" by (simp add: set_inode_def)
  show ?thesis
  proof (cases "scan_entries name 0 (dir_entries ?ip ?st)")
    case None
    then have "dirlookup hr k name f = Ret (None, f)" using l k f d by (simp add: dirlookup_def get_inode_def Let_def dir_ok_def)
    then show ?thesis using r k None by (auto simp: dirlink_def)
  next
    case (Some p)
    obtain off i where p: "p = (off, i)" by fastforce
    have "dirlookup hr k name f = and_then (iget (idev ?ip) (ucast i) f) (\<lambda>(j, f). Ret (Some (j, off), f))"
      using l k f d Some by (simp add: p dirlookup_def get_inode_def Let_def dir_ok_def)
    then show ?thesis using r by (auto simp: dirlink_def)
  qed
qed

text \<open>
  C30: Linking a name in a directory. When \<open>dirlink\<close> returns 0, the directory is still well-formed,
  looking up the name finds the inode number it was linked to, and looking up any other name (that
  differs in the first 14 bytes) gives what it gave before. The disk has as many free data blocks as the place of the entry
  adds to the directory.
\<close>

theorem dirlink_dirlookup:
  assumes "dir_ok sb (fstore f) (icache f ! k)" "inum (icache f ! k) < sb_ninodes sb" "0 \<notin> set name" "ucast x \<noteq> (0 :: 16 word)"
    and "new_blocks (icache f ! k) (fstore f) (free_entry 0 (dir_entries (icache f ! k) (fstore f))) 16 \<le> spare sb (fstore f)"
    and "dirlink hr hw k name x f = Ret (0, f')"
  shows "dir_ok sb (fstore f') (icache f' ! k) \<and> (\<exists>off. \<forall>nm. 0 \<notin> set nm \<longrightarrow>
    (\<exists>r. dirlookup_loop hr (icache f ! k) nm 0 (fstore f) = Some (r, icache f ! k, fstore f) \<and>
      dirlookup_loop hr (icache f' ! k) nm 0 (fstore f') =
        Some (if take DIRSIZ nm = take DIRSIZ name then Some (off, ucast x) else r, icache f' ! k, fstore f')))"
proof -
  let ?ip = "icache f ! k" and ?st = "fstore f"
  note look = dirlookup_loop_scan[OF assms(1), of _ 0, simplified]
  have k: "k < length (icache f)" and none: "scan_entries name 0 (dir_entries ?ip ?st) = None"
    and "\<exists>ip' st'. dirlink_write hr hw ?ip name x ?st = Some (ip', st') \<and> f' = set_inode k ip' (f\<lparr>fstore := st'\<rparr>)"
    using assms(6) dirlink_ret[OF assms(1,3)] by blast+
  then obtain ip' st' where w: "dirlink_write hr hw ?ip name x ?st = Some (ip', st')" and f': "f' = set_inode k ip' (f\<lparr>fstore := st'\<rparr>)" by blast
  have s: "icache f' ! k = ip'" "fstore f' = st'" using f' k by simp_all
  obtain j where j: "j \<le> length (dir_entries ?ip ?st)" "j < length (dir_entries ?ip ?st) \<longrightarrow> fst (dir_entries ?ip ?st ! j) = 0"
    and d': "dir_ok sb st' ip'" and e: "dir_entries ip' st' = (if j < length (dir_entries ?ip ?st) then (dir_entries ?ip ?st)[j := (ucast x, padded DIRSIZ name)]
       else dir_entries ?ip ?st @ [(ucast x, padded DIRSIZ name)])"
    by (rule dirlink_write_entries[OF assms(1,2,3,5) w])
  note look' = dirlookup_loop_scan[OF d', of _ 0, simplified]
  have "scan_entries nm 0 (dir_entries ip' st') = (if take DIRSIZ nm = take DIRSIZ name then Some (16 * j, ucast x) else scan_entries nm 0 (dir_entries ?ip ?st))" for nm
    using j assms(4) none cstr_padded[OF assms(3)] scan_update[of j "dir_entries ?ip ?st"] scan_append[of "ucast x"] by (auto simp: e)
  then show ?thesis unfolding s using d' look look' by (intro conjI exI[of _ "16 * j"]) auto
qed

definition demo_dir_fs :: fs where
  "demo_dir_fs = set_inode 0 (demo_inode\<lparr>itype := T_DIR\<rparr>) (iinit demo_store)"

lemma demo_dir: "icache demo_dir_fs ! 0 = demo_inode\<lparr>itype := T_DIR\<rparr>" "fstore demo_dir_fs = demo_store" "0 < length (icache demo_dir_fs)"
  by (simp_all add: demo_dir_fs_def iinit_def NINODE_def)

lemma demo_dir_ok: "dir_ok mkfs_sb demo_store (demo_inode\<lparr>itype := T_DIR\<rparr>)"
  using demo_ok demo_inode_ok by (simp add: dir_ok_def inode_ok_def amap_def demo_inode_def)

lemma demo_dirlink: "\<exists>f'. dirlink (\<lambda>_. False) (\<lambda>_. False) 0 (lit ''ab'') 1 demo_dir_fs = Ret (0, f')"
proof -
  let ?ip = "demo_inode\<lparr>itype := T_DIR\<rparr>" and ?de = "le16 (ucast (1 :: 32 word)) @ padded DIRSIZ (lit ''ab'')"
  have z: "isize ?ip = 0" by (simp add: demo_inode_def)
  have l: "dirlookup_loop (\<lambda>_. False) ?ip (lit ''ab'') 0 demo_store = Some (None, ?ip, demo_store)"
    "dirlink_loop (\<lambda>_. False) ?ip 0 demo_store = Some (0, ?ip, demo_store)"
    using z by (simp_all add: dirlookup_loop.simps dirlink_loop.simps)
  have de: "make_dirent (lit ''ab'') 1 = Some ?de" by (rule make_dirent_ok) (simp add: lit_def)
  have "0 < spare mkfs_sb demo_store" using demo_spare by simp
  moreover have "log_room 4 demo_store" using demo_room by (simp add: log_room_def)
  moreover have "inode_ok mkfs_sb demo_store ?ip" using demo_dir_ok by (simp add: dir_ok_def)
  ultimately have "\<exists>ip' st'. writei (\<lambda>_. False) ?ip ?de 0 demo_store = Some (Io_ok (of_nat (length ?de)), ip', st')"
    by (intro writei_direct_total[OF demo_ok]) (simp_all add: demo_inode_def mkfs_sb_def T_DIR_def T_DEV_def DIRSIZ_def BSIZE_def NDIRECT_def)
  then obtain ip' st' where "writei (\<lambda>_. False) ?ip ?de 0 demo_store = Some (Io_ok 16, ip', st')" by (auto simp: DIRSIZ_def)
  then have w: "dirlink_write (\<lambda>_. False) (\<lambda>_. False) ?ip (lit ''ab'') 1 demo_store = Some (ip', st')"
    using l(2) de by (simp add: dirlink_write_def)
  have "set_inode 0 ?ip (demo_dir_fs\<lparr>fstore := demo_store\<rparr>) = demo_dir_fs" using demo_dir by (simp add: demo_dir_fs_def set_inode_def iinit_def)
  then have "dirlookup (\<lambda>_. False) 0 (lit ''ab'') demo_dir_fs = Ret (None, demo_dir_fs)"
    using l(1) demo_dir by (simp add: dirlookup_def get_inode_def rd_def Let_def)
  then show ?thesis using w demo_dir by (simp add: dirlink_def get_inode_def rd_def)
qed

theorem dirlink_dirlookup_witness:
  "\<exists>f' off. dirlink (\<lambda>_. False) (\<lambda>_. False) 0 (lit ''ab'') 1 demo_dir_fs = Ret (0, f') \<and>
     dirlookup_loop (\<lambda>_. False) (icache f' ! 0) (lit ''ab'') 0 (fstore f') = Some (Some (off, 1), icache f' ! 0, fstore f')"
proof -
  obtain f' where l: "dirlink (\<lambda>_. False) (\<lambda>_. False) 0 (lit ''ab'') 1 demo_dir_fs = Ret (0, f')" using demo_dirlink by blast
  have n: "0 \<notin> set (lit ''ab'')" by (simp add: lit_def)
  have d: "dir_ok mkfs_sb (fstore demo_dir_fs) (icache demo_dir_fs ! 0)" using demo_dir_ok demo_dir by simp
  have i: "inum (icache demo_dir_fs ! 0) < sb_ninodes mkfs_sb" using demo_dir by (simp add: demo_inode_def mkfs_sb_def)
  have "dir_entries (icache demo_dir_fs ! 0) (fstore demo_dir_fs) = []" using demo_dir by (simp add: dir_entries_def demo_inode_def)
  then have "new_blocks (icache demo_dir_fs ! 0) (fstore demo_dir_fs) (free_entry 0 (dir_entries (icache demo_dir_fs ! 0) (fstore demo_dir_fs))) 16
      \<le> spare mkfs_sb (fstore demo_dir_fs)"
    using new_blocks_within[of 16 0 "icache demo_dir_fs ! 0" "fstore demo_dir_fs"] demo_spare demo_dir by (simp add: BSIZE_def)
  from dirlink_dirlookup[OF d i n _ this l] n l show ?thesis by fastforce
qed

end
