(* ===== verification/Syscall.thy ===== *)
theory Syscall
  imports Blocks
begin

text \<open>
  How a system call fetches its arguments (src/src/syscall.c). The memory of the process is the list
  of the bytes below its size; None is an access outside of it, which the checks of the source are
  there to prevent. A result is Inl for the error return -1.
\<close>

record user_proc =
  usz :: "32 word"
  umem :: memory
  uesp :: "32 word"

definition user_ok :: "user_proc \<Rightarrow> bool" where
  "user_ok u \<longleftrightarrow> length (umem u) = unat (usz u)"

datatype sys_error = Minus1

definition fetchint :: "32 word \<Rightarrow> user_proc \<Rightarrow> (sys_error + 32 word) option" where
  "fetchint addr u =
     (if addr \<ge> usz u \<or> addr + 4 > usz u then Some (Inl Minus1)
      else do { w \<leftarrow> load32 (umem u) (unat addr); Some (Inr w) })"

text \<open>The loop over the string; the result is its length.\<close>

function fetchstr_loop :: "nat \<Rightarrow> nat \<Rightarrow> user_proc \<Rightarrow> (sys_error + nat) option" where
  "fetchstr_loop p s u =
     (if s < unat (usz u)
      then (case rd (umem u) (int s) of None \<Rightarrow> None | Some b \<Rightarrow> if b = 0 then Some (Inr (s - p)) else fetchstr_loop p (s + 1) u)
      else Some (Inl Minus1))"
  by pat_completeness auto
termination by (relation "measure (\<lambda>(p, s, u). unat (usz u) - s)") auto

declare fetchstr_loop.simps [simp del]

definition fetchstr :: "32 word \<Rightarrow> user_proc \<Rightarrow> (sys_error + 32 word \<times> nat) option" where
  "fetchstr addr u =
     (if addr \<ge> usz u then Some (Inl Minus1)
      else do {
        r \<leftarrow> fetchstr_loop (unat addr) (unat addr) u;
        Some (case r of Inl e \<Rightarrow> Inl e | Inr n \<Rightarrow> Inr (addr, n))
      })"

definition argint :: "nat \<Rightarrow> user_proc \<Rightarrow> (sys_error + 32 word) option" where
  "argint n u = fetchint (uesp u + 4 + 4 * of_nat n) u"

definition argptr :: "nat \<Rightarrow> 32 word \<Rightarrow> user_proc \<Rightarrow> (sys_error + 32 word) option" where
  "argptr n sz u = do {
     r \<leftarrow> argint n u;
     Some (case r of Inl e \<Rightarrow> Inl e | Inr i \<Rightarrow> if i \<ge> usz u \<or> i + sz > usz u then Inl Minus1 else Inr i)
   }"

definition argstr :: "nat \<Rightarrow> user_proc \<Rightarrow> (sys_error + 32 word \<times> nat) option" where
  "argstr n u = do {
     r \<leftarrow> argint n u;
     (case r of Inl e \<Rightarrow> Some (Inl e) | Inr addr \<Rightarrow> fetchstr addr u)
   }"

section \<open>What the checks give\<close>

lemma load32_total: "p + 4 \<le> length b \<Longrightarrow> \<exists>w. load32 b p = Some w"
  by (simp add: load32_def rd_def)

lemma word_range_ok:
  fixes a n z :: "32 word"
  assumes "a < z" "\<not> a + n > z" "unat a + unat n < 2 ^ 32"
  shows "unat a + unat n \<le> unat z"
proof -
  have "unat (a + n) = unat a + unat n" using assms(3) by (simp add: unat_word_ariths)
  then show ?thesis using assms(2) by (simp add: word_less_nat_alt)
qed

text \<open>Below the top of the address space an integer argument is read inside of the process.\<close>

lemma fetchint_ok:
  assumes "user_ok u" "usz u < - 4"
  shows "\<exists>r. fetchint addr u = Some r"
proof (cases "addr \<ge> usz u \<or> addr + 4 > usz u")
  case False
  then have a: "addr < usz u" "\<not> addr + 4 > usz u" by auto
  have "unat addr + unat (4 :: 32 word) < 2 ^ 32"
    using a(1) assms(2) by (simp add: word_less_nat_alt)
  from word_range_ok[OF a this] assms(1) have "unat addr + 4 \<le> length (umem u)" by (simp add: user_ok_def)
  then have "\<exists>w. load32 (umem u) (unat addr) = Some w" by (rule load32_total)
  then show ?thesis using False by (auto simp: fetchint_def)
qed (simp add: fetchint_def)

lemma argptr_range:
  assumes "argptr n sz u = Some (Inr p)" "unat p + unat sz < 2 ^ 32"
  shows "unat p + unat sz \<le> unat (usz u)"
proof -
  from assms(1) have "p < usz u" "\<not> p + sz > usz u"
    by (auto simp: argptr_def split: sum.splits if_splits Option.bind_splits)
  then show ?thesis using word_range_ok assms(2) by blast
qed

lemma fetchstr_loop_spec:
  assumes "user_ok u" "p \<le> s"
  shows "\<exists>r. fetchstr_loop p s u = Some r \<and>
    (case r of Inr n \<Rightarrow> s \<le> p + n \<and> p + n < unat (usz u) \<and> umem u ! (p + n) = 0 \<and> (\<forall>i. s \<le> i \<and> i < p + n \<longrightarrow> umem u ! i \<noteq> 0)
     | Inl e \<Rightarrow> \<forall>i. s \<le> i \<and> i < unat (usz u) \<longrightarrow> umem u ! i \<noteq> 0)"
  using assms(2)
proof (induction "unat (usz u) - s" arbitrary: s)
  case 0
  then show ?case by (subst fetchstr_loop.simps) auto
next
  case (Suc m)
  then have s: "s < unat (usz u)" by simp
  then have r: "rd (umem u) (int s) = Some (umem u ! s)" using assms(1) by (simp add: user_ok_def)
  show ?case
  proof (cases "umem u ! s = 0")
    case True
    then have "fetchstr_loop p s u = Some (Inr (s - p))" using s r by (subst fetchstr_loop.simps) simp
    then show ?thesis using True s Suc.prems by auto
  next
    case False
    then have e: "fetchstr_loop p s u = fetchstr_loop p (s + 1) u" using s r by (subst fetchstr_loop.simps) simp
    have le: "s \<le> i \<longleftrightarrow> i = s \<or> s + 1 \<le> i" for i by auto
    have "m = unat (usz u) - (s + 1)" "p \<le> s + 1" using Suc.hyps(2) Suc.prems by auto
    from Suc.hyps(1)[OF this] obtain r where "fetchstr_loop p (s + 1) u = Some r"
      "case r of Inr n \<Rightarrow> s + 1 \<le> p + n \<and> p + n < unat (usz u) \<and> umem u ! (p + n) = 0 \<and> (\<forall>i. s + 1 \<le> i \<and> i < p + n \<longrightarrow> umem u ! i \<noteq> 0)
       | Inl e \<Rightarrow> \<forall>i. s + 1 \<le> i \<and> i < unat (usz u) \<longrightarrow> umem u ! i \<noteq> 0" by blast
    then show ?thesis using False e by (intro exI[of _ r]) (cases r; auto simp: le)
  qed
qed

text \<open>A string argument is terminated inside of the process.\<close>

lemma fetchstr_string:
  assumes "user_ok u" "fetchstr addr u = Some (Inr (p, n))"
  shows "p = addr \<and> string_at (umem u) (unat p) (range_of (umem u) (unat p) n) \<and> length (range_of (umem u) (unat p) n) = n"
proof -
  have a: "addr < usz u" "p = addr" and l: "fetchstr_loop (unat addr) (unat addr) u = Some (Inr n)"
    using assms(2) by (auto simp: fetchstr_def split: if_splits Option.bind_splits sum.splits)
  from fetchstr_loop_spec[OF assms(1), of "unat addr" "unat addr"] l
  have n: "unat addr + n < length (umem u)" "umem u ! (unat addr + n) = 0" "\<forall>i. unat addr \<le> i \<and> i < unat addr + n \<longrightarrow> umem u ! i \<noteq> 0"
    using assms(1) by (auto simp: user_ok_def)
  then have "0 \<notin> set (range_of (umem u) (unat addr) n)" by (auto simp: range_of_def in_set_conv_nth)
  with n a(2) show ?thesis by (simp add: string_at_def)
qed

text \<open>
  The check of a pointer argument adds its size modulo \<open>2\<^sup>3\<^sup>2\<close>: a negative size makes it accept any
  pointer into the process, here one byte below the end for a read of four gigabytes less one.
\<close>

lemma argptr_wraps:
  "\<exists>u p. user_ok u \<and> argptr 0 0xFFFFFFFF u = Some (Inr p) \<and> unat p + unat (0xFFFFFFFF :: 32 word) > unat (usz u)"
proof -
  let ?u = "\<lparr>usz = 12, umem = replicate 4 0 @ [11, 0, 0, 0] @ replicate 4 0, uesp = 0\<rparr>"
  have "argptr 0 0xFFFFFFFF ?u = Some (Inr 11)" by code_simp
  moreover have "user_ok ?u" by (simp add: user_ok_def)
  ultimately show ?thesis by (intro exI[of _ ?u] exI[of _ 11]) simp
qed

end
