(* ===== verification/Draw.thy ===== *)
theory Draw
  imports Syscall Input
begin

text \<open>
  Drawing into the off-screen copy of the screen and onto the screen (src/src/sysdraw.c). The pixels
  are 16-bit cells; an access outside of an array is None. The dimensions that the BIOS reports are
  part of the state. A sum or product of coordinates that overflows an \<^verbatim>\<open>int\<close> is None as well.
  The system calls fetch their arguments with the operations of \<^verbatim>\<open>Syscall\<close>. The last section gives,
  for every drawing routine, the pixels that it leaves.
\<close>

definition SCREEN_WIDTH_EXPECT :: int where "SCREEN_WIDTH_EXPECT = 800"
definition SCREEN_HEIGHT_EXPECT :: int where "SCREEN_HEIGHT_EXPECT = 600"

record screen =
  vtemp :: "16 word list"
  vesa :: "16 word list"
  sw :: int
  sh :: int

text \<open>\<^verbatim>\<open>for (i = a; i < b; ++i) ...\<close>\<close>

function for_int :: "int \<Rightarrow> int \<Rightarrow> (int \<Rightarrow> 's \<Rightarrow> 's option) \<Rightarrow> 's \<Rightarrow> 's option" where
  "for_int i n f s = (if i < n then (case f i s of None \<Rightarrow> None | Some s' \<Rightarrow> for_int (i + 1) n f s') else Some s)"
  by pat_completeness auto
termination by (relation "measure (\<lambda>(i, n, f, s). nat (n - i))") auto

declare for_int.simps [simp del]

text \<open>Arithmetic on \<^verbatim>\<open>int\<close>.\<close>

definition c_int :: "int \<Rightarrow> int option" where
  "c_int z = (if - (2 ^ 31) \<le> z \<and> z < 2 ^ 31 then Some z else None)"

text \<open>The two nested loops over a rectangle that the routines share.\<close>

definition for_area :: "int \<Rightarrow> int \<Rightarrow> int \<Rightarrow> int \<Rightarrow> (int \<Rightarrow> int \<Rightarrow> 's \<Rightarrow> 's option) \<Rightarrow> 's \<Rightarrow> 's option" where
  "for_area xl yl width height f s = do {
     y_end \<leftarrow> c_int (yl + height);
     for_int yl y_end (\<lambda>y s. do { x_end \<leftarrow> c_int (xl + width); for_int xl x_end (\<lambda>x s. f x y s) s }) s
   }"

definition bad_color :: "int \<Rightarrow> int \<Rightarrow> int \<Rightarrow> screen \<Rightarrow> bool" where
  "bad_color x y color s \<longleftrightarrow> x \<ge> sw s \<or> y \<ge> sh s \<or> color \<ge> 65536 \<or> color < 0"

definition set_color :: "int \<Rightarrow> int \<Rightarrow> int \<Rightarrow> screen \<Rightarrow> (int \<times> screen) option" where
  "set_color x y color s =
     (if bad_color x y color s then Some (- 1, s)
      else do { t \<leftarrow> wr (vtemp s) (x + y * sw s) (word_of_int color); Some (0, s\<lparr>vtemp := t\<rparr>) })"

definition set_color_force :: "int \<Rightarrow> int \<Rightarrow> int \<Rightarrow> screen \<Rightarrow> (int \<times> screen) option" where
  "set_color_force x y color s =
     (if bad_color x y color s then Some (- 1, s)
      else do { t \<leftarrow> wr (vesa s) (x + y * sw s) (word_of_int color); Some (0, s\<lparr>vesa := t\<rparr>) })"

text \<open>The callers ignore the result.\<close>

definition plot :: "int \<Rightarrow> int \<Rightarrow> int \<Rightarrow> screen \<Rightarrow> screen option" where
  "plot x y color s = map_option snd (set_color x y color s)"

definition plot_force :: "int \<Rightarrow> int \<Rightarrow> int \<Rightarrow> screen \<Rightarrow> screen option" where
  "plot_force x y color s = map_option snd (set_color_force x y color s)"

definition drawarea_force :: "int \<Rightarrow> int \<Rightarrow> int \<Rightarrow> int \<Rightarrow> int list \<Rightarrow> screen \<Rightarrow> screen option" where
  "drawarea_force xl yl width height colors s =
     for_area xl yl width height (\<lambda>x y s. do { c \<leftarrow> rd colors (x - xl + (y - yl) * width); plot_force x y c s }) s"

definition mouse_image :: "int list" where
  "mouse_image = [
     2145, 25388, 44373, 63390, 65535, 65535, 65535, 63422, 63422, 63422,
     25388, 0, 0, 0, 4258, 29582, 54938, 65535, 65535, 63422,
     44405, 0, 0, 0, 0, 0, 0, 0, 16936, 63422,
     63422, 0, 0, 0, 0, 0, 0, 0, 38034, 65535,
     65535, 6339, 0, 0, 0, 0, 0, 44405, 65535, 63422,
     65535, 29582, 0, 0, 0, 0, 0, 0, 38066, 65535,
     65503, 54938, 0, 0, 0, 0, 0, 0, 0, 42260,
     63422, 65535, 0, 0, 44405, 0, 0, 0, 0, 0,
     63422, 65535, 16936, 38034, 65535, 38066, 0, 0, 0, 65535,
     63390, 65503, 63422, 65535, 63422, 65535, 42260, 0, 65535, 65535]"

definition draw_mouse :: "int \<Rightarrow> int \<Rightarrow> screen \<Rightarrow> screen option" where
  "draw_mouse x y s = drawarea_force x y 10 10 mouse_image s"

text \<open>Copying cells between the two arrays; the source copies a square of the expected width.\<close>

definition copy_cells :: "'a list \<Rightarrow> 'a list \<Rightarrow> nat \<Rightarrow> 'a list option" where
  "copy_cells dst src n = (if n \<le> length src \<and> n \<le> length dst then Some (take n src @ drop n dst) else None)"

definition update :: "mouse \<Rightarrow> screen \<Rightarrow> screen option" where
  "update m s = do {
     v \<leftarrow> copy_cells (vesa s) (vtemp s) (nat (SCREEN_WIDTH_EXPECT * SCREEN_WIDTH_EXPECT));
     let (mouse_x, mouse_y) = get_mouse_pos m;
     draw_mouse mouse_x mouse_y (s\<lparr>vesa := v\<rparr>)
   }"

definition update_area :: "int \<Rightarrow> int \<Rightarrow> int \<Rightarrow> int \<Rightarrow> screen \<Rightarrow> screen option" where
  "update_area xl yl width height s =
     for_area xl yl width height (\<lambda>x y s. do {
       c \<leftarrow> rd (vtemp s) (x + y * sw s);
       v \<leftarrow> wr (vesa s) (x + y * sw s) c;
       Some (s\<lparr>vesa := v\<rparr>)
     }) s"

definition reverse_update :: "screen \<Rightarrow> screen option" where
  "reverse_update s = do {
     t \<leftarrow> copy_cells (vtemp s) (vesa s) (nat (SCREEN_WIDTH_EXPECT * SCREEN_WIDTH_EXPECT));
     Some (s\<lparr>vtemp := t\<rparr>)
   }"

definition drawrect_force :: "int \<Rightarrow> int \<Rightarrow> int \<Rightarrow> int \<Rightarrow> int \<Rightarrow> screen \<Rightarrow> screen option" where
  "drawrect_force xl yl width height color s = for_area xl yl width height (\<lambda>x y s. plot_force x y color s) s"

text \<open>The whole screen in white is filled byte by byte.\<close>

definition drawrect :: "int \<Rightarrow> int \<Rightarrow> int \<Rightarrow> int \<Rightarrow> int \<Rightarrow> screen \<Rightarrow> (int \<times> screen) option" where
  "drawrect xl yl width height color s =
     (if color \<ge> 65536 \<or> color < 0 then Some (- 1, s)
      else if xl = 0 \<and> yl = 0 \<and> width = 800 \<and> height = 600 \<and> color = 65535
      then do {
        t \<leftarrow> copy_cells (vtemp s) (replicate (nat (sw s * sh s)) 0xFFFF) (nat (sw s * sh s));
        Some (0, s\<lparr>vtemp := t\<rparr>)
      }
      else do { s \<leftarrow> for_area xl yl width height (\<lambda>x y s. plot x y color s) s; Some (0, s) })"

definition drawarea :: "int \<Rightarrow> int \<Rightarrow> int \<Rightarrow> int \<Rightarrow> int list \<Rightarrow> screen \<Rightarrow> screen option" where
  "drawarea xl yl width height colors s =
     for_area xl yl width height (\<lambda>x y s. do { c \<leftarrow> rd colors (x - xl + (y - yl) * width); plot x y c s }) s"

text \<open>A glyph of 8 by 16 cells stretched to the rectangle; -1 is transparent.\<close>

definition drawarea_color :: "int \<Rightarrow> int \<Rightarrow> int \<Rightarrow> int \<Rightarrow> int \<Rightarrow> int list \<Rightarrow> screen \<Rightarrow> screen option" where
  "drawarea_color xl yl width height color colors s =
     for_area xl yl width height (\<lambda>x y s. do {
       j \<leftarrow> c_int ((x - xl) * 8);
       i \<leftarrow> c_int ((y - yl) * 16);
       c \<leftarrow> rd colors (j div width + i div height * 8);
       if c \<noteq> - 1 then plot x y color s else Some s
     }) s"

text \<open>
  The bits of a Chinese glyph of 16 by 16, row by row from the most significant one. The entry
  \<open>j + i * 16\<close> of the table stands for \<^verbatim>\<open>colors[j][i]\<close>.
\<close>

definition gbk_bit :: "byte list \<Rightarrow> int \<Rightarrow> bool option" where
  "gbk_bit gbk n = do { b \<leftarrow> rd gbk (n div 8); Some (b AND drop_bit (nat (n mod 8)) 0x80 \<noteq> 0) }"

function gbk_colors :: "int \<Rightarrow> byte list \<Rightarrow> int \<Rightarrow> int list option" where
  "gbk_colors color gbk n =
     (if n < 256
      then (case gbk_bit gbk n of None \<Rightarrow> None
            | Some on \<Rightarrow> map_option ((#) (if on then color else - 1)) (gbk_colors color gbk (n + 1)))
      else Some [])"
  by pat_completeness auto
termination by (relation "measure (\<lambda>(color, gbk, n). nat (256 - n))") auto

declare gbk_colors.simps [simp del]

definition drawgbk_color :: "int \<Rightarrow> int \<Rightarrow> int \<Rightarrow> int \<Rightarrow> int \<Rightarrow> byte list \<Rightarrow> screen \<Rightarrow> screen option" where
  "drawgbk_color xl yl width height color gbk s = do {
     colors \<leftarrow> gbk_colors color gbk 0;
     for_area xl yl width height (\<lambda>x y s. do {
       j \<leftarrow> c_int ((x - xl) * 16);
       i \<leftarrow> c_int ((y - yl) * 16);
       c \<leftarrow> rd colors (j div width + i div height * 16);
       if c \<noteq> - 1 then plot x y c s else Some s
     }) s
   }"

text \<open>The division of C rounds towards zero and traps on zero.\<close>

definition drawgbk :: "int \<Rightarrow> int \<Rightarrow> int \<Rightarrow> int \<Rightarrow> byte list \<Rightarrow> screen \<Rightarrow> screen option" where
  "drawgbk xl yl width height gbk s =
     for_int 0 256 (\<lambda>n s. do {
       on \<leftarrow> gbk_bit gbk n;
       if on
       then if width = 0 then None
            else do {
              x \<leftarrow> c_int (xl + n mod \<bar>width\<bar>);
              y \<leftarrow> c_int (yl + sgn width * (n div \<bar>width\<bar>));
              plot x y 0 s
            }
       else Some s
     }) s"

definition drawarea_short :: "int \<Rightarrow> int \<Rightarrow> int \<Rightarrow> int \<Rightarrow> 16 word list \<Rightarrow> screen \<Rightarrow> screen option" where
  "drawarea_short xl yl width height colors s =
     (if xl = 0 \<and> yl = 0 \<and> width = 800 \<and> height = 600
      then do { t \<leftarrow> copy_cells (vtemp s) colors (nat (width * height)); Some (s\<lparr>vtemp := t\<rparr>) }
      else for_area xl yl width height (\<lambda>x y s. do { c \<leftarrow> rd colors (x - xl + (y - yl) * width); plot x y (uint c) s }) s)"

section \<open>The system calls\<close>

definition with_arg :: "(sys_error + 'a) option \<Rightarrow> screen \<Rightarrow> ('a \<Rightarrow> (int \<times> screen) option) \<Rightarrow> (int \<times> screen) option" where
  "with_arg r s k = do { a \<leftarrow> r; (case a of Inl e \<Rightarrow> Some (- 1, s) | Inr v \<Rightarrow> k v) }"

text \<open>The four arguments of a rectangle come first.\<close>

definition with_rect :: "user_proc \<Rightarrow> screen \<Rightarrow> (32 word \<Rightarrow> 32 word \<Rightarrow> 32 word \<Rightarrow> 32 word \<Rightarrow> (int \<times> screen) option) \<Rightarrow> (int \<times> screen) option" where
  "with_rect u s k =
     with_arg (argint 0 u) s (\<lambda>xl. with_arg (argint 1 u) s (\<lambda>yl.
     with_arg (argint 2 u) s (\<lambda>width. with_arg (argint 3 u) s (\<lambda>height. k xl yl width height))))"

text \<open>An array in the memory of the process, up to the end of that memory.\<close>

fun ushorts_of :: "byte list \<Rightarrow> 16 word list" where
  "ushorts_of (a # b # m) = (ucast a OR push_bit 8 (ucast b)) # ushorts_of m"
| "ushorts_of _ = []"

fun ints_of :: "byte list \<Rightarrow> int list" where
  "ints_of (a # b # c # d # m) =
     sint (ucast a OR push_bit 8 (ucast b) OR push_bit 16 (ucast c) OR push_bit 24 (ucast d) :: 32 word) # ints_of m"
| "ints_of _ = []"

definition user_bytes :: "user_proc \<Rightarrow> 32 word \<Rightarrow> byte list" where
  "user_bytes u p = drop (unat p) (umem u)"

definition done0 :: "screen option \<Rightarrow> (int \<times> screen) option" where
  "done0 r = map_option (Pair 0) r"

definition sys_drawrect :: "user_proc \<Rightarrow> screen \<Rightarrow> (int \<times> screen) option" where
  "sys_drawrect u s = with_rect u s (\<lambda>xl yl width height. with_arg (argint 4 u) s (\<lambda>color.
     done0 (map_option snd (drawrect (sint xl) (sint yl) (sint width) (sint height) (sint color) s))))"

definition sys_drawarea_short :: "user_proc \<Rightarrow> screen \<Rightarrow> (int \<times> screen) option" where
  "sys_drawarea_short u s = with_rect u s (\<lambda>xl yl width height. with_arg (argptr 4 (2 * width * height) u) s (\<lambda>p.
     done0 (drawarea_short (sint xl) (sint yl) (sint width) (sint height) (ushorts_of (user_bytes u p)) s)))"

definition sys_drawgbk :: "user_proc \<Rightarrow> screen \<Rightarrow> (int \<times> screen) option" where
  "sys_drawgbk u s = with_rect u s (\<lambda>xl yl width height. with_arg (argptr 4 32 u) s (\<lambda>p.
     done0 (drawgbk (sint xl) (sint yl) (sint width) (sint height) (user_bytes u p) s)))"

definition sys_drawarea :: "user_proc \<Rightarrow> screen \<Rightarrow> (int \<times> screen) option" where
  "sys_drawarea u s = with_rect u s (\<lambda>xl yl width height. with_arg (argptr 4 (4 * width * height) u) s (\<lambda>p.
     done0 (drawarea (sint xl) (sint yl) (sint width) (sint height) (ints_of (user_bytes u p)) s)))"

definition sys_drawgbk_color :: "user_proc \<Rightarrow> screen \<Rightarrow> (int \<times> screen) option" where
  "sys_drawgbk_color u s = with_rect u s (\<lambda>xl yl width height. with_arg (argint 4 u) s (\<lambda>color. with_arg (argptr 5 32 u) s (\<lambda>p.
     done0 (drawgbk_color (sint xl) (sint yl) (sint width) (sint height) (sint color) (user_bytes u p) s))))"

definition sys_drawarea_color :: "user_proc \<Rightarrow> screen \<Rightarrow> (int \<times> screen) option" where
  "sys_drawarea_color u s = with_rect u s (\<lambda>xl yl width height. with_arg (argint 4 u) s (\<lambda>color. with_arg (argptr 5 (4 * width * height) u) s (\<lambda>p.
     done0 (drawarea_color (sint xl) (sint yl) (sint width) (sint height) (sint color) (ints_of (user_bytes u p)) s))))"

definition sys_update :: "mouse \<Rightarrow> screen \<Rightarrow> (int \<times> screen) option" where
  "sys_update m s = done0 (update m s)"

section \<open>Loops over a rectangle\<close>

lemma for_int_inv:
  assumes step: "\<And>i s. a \<le> i \<Longrightarrow> i < b \<Longrightarrow> P i s \<Longrightarrow> \<exists>s'. f i s = Some s' \<and> P (i + 1) s'"
  shows "a \<le> i \<Longrightarrow> i \<le> b \<Longrightarrow> P i s \<Longrightarrow> \<exists>s'. for_int i b f s = Some s' \<and> P b s'"
proof (induction "nat (b - i)" arbitrary: i s)
  case 0
  then show ?case by (subst for_int.simps) auto
next
  case (Suc m)
  then have "i < b" by auto
  with step[OF Suc.prems(1) this Suc.prems(3)] obtain s' where s': "f i s = Some s'" "P (i + 1) s'" by auto
  from Suc.hyps(1)[of "i + 1" s'] Suc.hyps(2) Suc.prems s' \<open>i < b\<close> show ?case by (subst for_int.simps) auto
qed

lemma for_int_empty: "b \<le> a \<Longrightarrow> for_int a b f s = Some s"
  by (subst for_int.simps) simp

text \<open>
  The effect of a routine is a partial picture: where it has a colour the pixel gets it, elsewhere
  the pixel stays as it was.
\<close>

definition screen_ok :: "screen \<Rightarrow> bool" where
  "screen_ok s \<longleftrightarrow> 0 < sw s \<and> 0 < sh s \<and> length (vtemp s) = nat (sw s * sh s) \<and> length (vesa s) = nat (sw s * sh s)"

definition pixel :: "screen \<Rightarrow> int \<Rightarrow> int \<Rightarrow> 16 word" where
  "pixel s x y = vtemp s ! nat (x + y * sw s)"

definition on_screen :: "screen \<Rightarrow> int \<Rightarrow> int \<Rightarrow> bool" where
  "on_screen s x y \<longleftrightarrow> 0 \<le> x \<and> x < sw s \<and> 0 \<le> y \<and> y < sh s"

definition painted :: "screen \<Rightarrow> (int \<Rightarrow> int \<Rightarrow> 16 word option) \<Rightarrow> screen \<Rightarrow> bool" where
  "painted s pic t \<longleftrightarrow> screen_ok t \<and> t = s\<lparr>vtemp := vtemp t\<rparr> \<and>
     (\<forall>x y. on_screen s x y \<longrightarrow> pixel t x y = (case pic x y of None \<Rightarrow> pixel s x y | Some c \<Rightarrow> c))"

definition in_rect :: "int \<Rightarrow> int \<Rightarrow> int \<Rightarrow> int \<Rightarrow> int \<Rightarrow> int \<Rightarrow> bool" where
  "in_rect xl yl width height x y \<longleftrightarrow> xl \<le> x \<and> x < xl + width \<and> yl \<le> y \<and> y < yl + height"

definition within :: "(int \<Rightarrow> int \<Rightarrow> bool) \<Rightarrow> (int \<Rightarrow> int \<Rightarrow> 'a option) \<Rightarrow> int \<Rightarrow> int \<Rightarrow> 'a option" where
  "within A pic x y = (if A x y then pic x y else None)"

lemma painted_refl: "screen_ok s \<Longrightarrow> (\<And>x y. pic x y = None) \<Longrightarrow> painted s pic s"
  by (simp add: painted_def)

lemma painted_dims: "painted s pic t \<Longrightarrow> screen_ok t \<and> sw t = sw s \<and> sh t = sh s \<and> vesa t = vesa s \<and> on_screen t = on_screen s"
  by (auto simp: painted_def on_screen_def fun_eq_iff dest: arg_cong[of t _ sw] arg_cong[of t _ sh] arg_cong[of t _ vesa])

lemma painted_trans:
  assumes "painted s p t" "painted t q w"
    and "\<And>x y. r x y = (case q x y of None \<Rightarrow> p x y | Some c \<Rightarrow> Some c)"
  shows "painted s r w"
  unfolding painted_def
proof (intro conjI allI impI)
  show "screen_ok w" using assms(2) by (simp add: painted_def)
  have t: "t = s\<lparr>vtemp := vtemp t\<rparr>" and w: "w = t\<lparr>vtemp := vtemp w\<rparr>" using assms by (simp_all add: painted_def)
  from t obtain a where "t = s\<lparr>vtemp := a\<rparr>" ..
  moreover from w obtain b where "w = t\<lparr>vtemp := b\<rparr>" ..
  ultimately show "w = s\<lparr>vtemp := vtemp w\<rparr>" by simp
next
  fix x y assume "on_screen s x y"
  then show "pixel w x y = (case r x y of None \<Rightarrow> pixel s x y | Some c \<Rightarrow> c)"
    using assms painted_dims[OF assms(1)] by (auto simp: painted_def split: option.splits)
qed

lemma painted_cong: "painted s p t \<Longrightarrow> (\<And>x y. on_screen s x y \<Longrightarrow> q x y = p x y) \<Longrightarrow> painted s q t"
  by (simp add: painted_def)

lemma index_inj:
  fixes x y u v w :: int
  assumes "0 \<le> x" "x < w" "0 \<le> u" "u < w" "x + y * w = u + v * w"
  shows "x = u \<and> y = v"
proof -
  have "(x + y * w) mod w = x" "(u + v * w) mod w = u" using assms(1-4) by simp_all
  then have "x = u" using assms(5) by metis
  then show ?thesis using assms by simp
qed

lemma index_range:
  assumes "on_screen s x y"
  shows "0 \<le> x + y * sw s" "x + y * sw s < sw s * sh s"
proof -
  show "0 \<le> x + y * sw s" using assms by (simp add: on_screen_def)
  have "x + y * sw s < (y + 1) * sw s" using assms by (simp add: on_screen_def algebra_simps)
  also have "\<dots> \<le> sh s * sw s" using assms by (intro mult_right_mono) (auto simp: on_screen_def)
  finally show "x + y * sw s < sw s * sh s" by (simp add: mult.commute)
qed

lemma index_eq_iff:
  assumes "on_screen s x y" "on_screen s u v"
  shows "nat (x + y * sw s) = nat (u + v * sw s) \<longleftrightarrow> x = u \<and> y = v"
  using eq_nat_nat_iff[OF index_range(1)[OF assms(1)] index_range(1)[OF assms(2)]] index_inj[of x "sw s" u y v] assms
  by (auto simp: on_screen_def)

text \<open>One pixel: clipped on the right and at the bottom.\<close>

lemma plot_painted:
  assumes "screen_ok s" "0 \<le> x" "0 \<le> y" "0 \<le> c" "c < 65536"
  shows "\<exists>t. plot x y c s = Some t \<and> painted s (within (\<lambda>u v. u = x \<and> v = y) (\<lambda>u v. Some (word_of_int c))) t"
proof (cases "on_screen s x y")
  case True
  note r = index_range[OF True]
  let ?t = "s\<lparr>vtemp := (vtemp s)[nat (x + y * sw s) := word_of_int c]\<rparr>"
  have l: "x + y * sw s < int (length (vtemp s))" using r assms(1) by (simp add: screen_ok_def)
  have "plot x y c s = Some ?t"
    using True r(1) l assms by (simp add: plot_def set_color_def bad_color_def on_screen_def wr_def)
  moreover have "pixel ?t u v = (if u = x \<and> v = y then word_of_int c else pixel s u v)" if "on_screen s u v" for u v
    using index_eq_iff[OF True that] r(1) l index_range[OF that] by (auto simp: pixel_def nth_list_update)
  ultimately show ?thesis using assms(1) by (auto simp: painted_def within_def screen_ok_def)
next
  case False
  then have "plot x y c s = Some s" using assms by (auto simp: plot_def set_color_def bad_color_def on_screen_def)
  moreover have "painted s (within (\<lambda>u v. u = x \<and> v = y) (\<lambda>u v. Some (word_of_int c))) s"
    by (rule painted_cong[OF painted_refl[OF assms(1), of "\<lambda>u v. None"]]) (use False in \<open>auto simp: within_def\<close>)
  ultimately show ?thesis by blast
qed

definition like :: "screen \<Rightarrow> screen \<Rightarrow> bool" where
  "like s t \<longleftrightarrow> screen_ok t \<and> sw t = sw s \<and> sh t = sh s"

lemma painted_like: "painted s p t \<Longrightarrow> like s t"
  using painted_dims by (simp add: like_def)

lemma for_row_painted:
  assumes "screen_ok s"
    and step: "\<And>x t. a \<le> x \<Longrightarrow> x < b \<Longrightarrow> like s t \<Longrightarrow> \<exists>t'. f x t = Some t' \<and> painted t (within (\<lambda>u v. u = x \<and> v = y) pic) t'"
  shows "\<exists>t. for_int a b f s = Some t \<and> painted s (within (\<lambda>u v. a \<le> u \<and> u < b \<and> v = y) pic) t"
proof (cases "a \<le> b")
  case True
  let ?P = "\<lambda>i t. painted s (within (\<lambda>u v. a \<le> u \<and> u < i \<and> v = y) pic) t"
  have "?P a s" using assms(1) by (auto intro!: painted_refl simp: within_def)
  moreover have "\<exists>t'. f i t = Some t' \<and> ?P (i + 1) t'" if i: "a \<le> i" "i < b" and P: "?P i t" for i t
  proof -
    obtain t' where t': "f i t = Some t'" "painted t (within (\<lambda>u v. u = i \<and> v = y) pic) t'"
      using step[OF i painted_like[OF P]] by blast
    have "?P (i + 1) t'"
      by (rule painted_trans[OF P t'(2)]) (use i in \<open>auto simp: within_def split: option.splits\<close>)
    with t' show ?thesis by blast
  qed
  ultimately show ?thesis using for_int_inv[of a b ?P f a s] True by blast
qed (use assms(1) in \<open>auto simp: for_int_empty within_def intro!: painted_refl\<close>)

lemma for_area_painted:
  assumes "screen_ok s" "c_int (xl + width) = Some (xl + width)" "c_int (yl + height) = Some (yl + height)"
    and step: "\<And>x y t. in_rect xl yl width height x y \<Longrightarrow> like s t \<Longrightarrow>
      \<exists>t'. f x y t = Some t' \<and> painted t (within (\<lambda>u v. u = x \<and> v = y) pic) t'"
  shows "\<exists>t. for_area xl yl width height f s = Some t \<and> painted s (within (in_rect xl yl width height) pic) t"
proof (cases "0 \<le> height")
  case True
  let ?P = "\<lambda>i t. painted s (within (\<lambda>u v. xl \<le> u \<and> u < xl + width \<and> yl \<le> v \<and> v < i) pic) t"
  let ?row = "\<lambda>y s. do { x_end \<leftarrow> c_int (xl + width); for_int xl x_end (\<lambda>x s. f x y s) s }"
  have "?P yl s" using assms(1) by (auto intro!: painted_refl simp: within_def)
  moreover have "\<exists>t'. ?row i t = Some t' \<and> ?P (i + 1) t'" if i: "yl \<le> i" "i < yl + height" and P: "?P i t" for i t
  proof -
    have "\<exists>t'. for_int xl (xl + width) (\<lambda>x s. f x i s) t = Some t' \<and> painted t (within (\<lambda>u v. xl \<le> u \<and> u < xl + width \<and> v = i) pic) t'"
      by (rule for_row_painted) (use painted_dims[OF P] i step in \<open>auto simp: like_def in_rect_def\<close>)
    then obtain t' where t': "?row i t = Some t'" "painted t (within (\<lambda>u v. xl \<le> u \<and> u < xl + width \<and> v = i) pic) t'"
      using assms(2) by auto
    have "?P (i + 1) t'"
      by (rule painted_trans[OF P t'(2)]) (use i in \<open>auto simp: within_def split: option.splits\<close>)
    with t' show ?thesis by blast
  qed
  ultimately have "\<exists>t. for_int yl (yl + height) ?row s = Some t \<and> ?P (yl + height) t"
    by (intro for_int_inv[where a = yl and P = ?P]) (use True in auto)
  then show ?thesis using assms(3) by (simp add: for_area_def in_rect_def[abs_def])
qed (use assms in \<open>auto simp: for_area_def for_int_empty within_def in_rect_def intro!: painted_refl\<close>)

section \<open>What the routines draw\<close>

lemma like_refl_plot:
  assumes "like s t" "screen_ok s" "0 \<le> x" "0 \<le> y" "0 \<le> c" "c < 65536" "pic x y = Some (word_of_int c)"
  shows "\<exists>t'. plot x y c t = Some t' \<and> painted t (within (\<lambda>u v. u = x \<and> v = y) pic) t'"
proof -
  have "within (\<lambda>u v. u = x \<and> v = y) pic = within (\<lambda>u v. u = x \<and> v = y) (\<lambda>u v. Some (word_of_int c))"
    using assms(7) by (auto simp: within_def fun_eq_iff)
  then show ?thesis using plot_painted[of t x y c] assms by (simp add: like_def)
qed

lemma like_skip:
  "like s t \<Longrightarrow> pic x y = None \<Longrightarrow> painted t (within (\<lambda>u v. u = x \<and> v = y) pic) t"
  by (auto simp: like_def within_def intro!: painted_refl)

definition rect_ok :: "int \<Rightarrow> int \<Rightarrow> int \<Rightarrow> int \<Rightarrow> bool" where
  "rect_ok xl yl width height \<longleftrightarrow> 0 \<le> xl \<and> 0 \<le> yl \<and> xl + width < 2 ^ 27 \<and> yl + height < 2 ^ 27 \<and> - (2 ^ 27) < width \<and> - (2 ^ 27) < height"

lemma rect_ok_c_int:
  "rect_ok xl yl width height \<Longrightarrow> c_int (xl + width) = Some (xl + width) \<and> c_int (yl + height) = Some (yl + height)"
  by (auto simp: rect_ok_def c_int_def)

lemma rect_pos: "rect_ok xl yl width height \<Longrightarrow> in_rect xl yl width height x y \<Longrightarrow> 0 \<le> x \<and> 0 \<le> y"
  by (auto simp: rect_ok_def in_rect_def)

lemma area_index:
  assumes "in_rect xl yl width height x y"
  shows "0 \<le> x - xl + (y - yl) * width \<and> x - xl + (y - yl) * width < width * height"
proof -
  let ?s = "\<lparr>vtemp = [], vesa = [], sw = width, sh = height\<rparr>"
  have "on_screen ?s (x - xl) (y - yl)" using assms by (auto simp: on_screen_def in_rect_def)
  from index_range[OF this] show ?thesis by simp
qed

lemma drawarea_painted:
  assumes "screen_ok s" "rect_ok xl yl width height" "width * height \<le> int (length colors)" "\<forall>c \<in> set colors. 0 \<le> c \<and> c < 65536"
  shows "\<exists>t. drawarea xl yl width height colors s = Some t \<and>
    painted s (within (in_rect xl yl width height) (\<lambda>x y. Some (word_of_int (colors ! nat (x - xl + (y - yl) * width))))) t"
  unfolding drawarea_def
proof (rule for_area_painted)
  fix x y t assume r: "in_rect xl yl width height x y" "like s t"
  let ?i = "x - xl + (y - yl) * width"
  have i: "0 \<le> ?i" "?i < int (length colors)" using area_index[OF r(1)] assms(3) by linarith+
  then have "colors ! nat ?i \<in> set colors" by simp
  then have "0 \<le> colors ! nat ?i \<and> colors ! nat ?i < 65536" using assms(4) by blast
  then show "\<exists>t'. rd colors ?i \<bind> (\<lambda>c. plot x y c t) = Some t' \<and>
    painted t (within (\<lambda>u v. u = x \<and> v = y) (\<lambda>x y. Some (word_of_int (colors ! nat (x - xl + (y - yl) * width))))) t'"
    using like_refl_plot[OF r(2) assms(1)] rect_pos[OF assms(2) r(1)] i by (simp add: rd_def)
qed (use assms rect_ok_c_int in blast)+

lemma drawarea_short_loop:
  assumes "\<not> (xl = 0 \<and> yl = 0 \<and> width = 800 \<and> height = 600)"
  shows "drawarea_short xl yl width height colors s = drawarea xl yl width height (map uint colors) s"
proof -
  have "rd (map uint colors) i = map_option uint (rd colors i)" for i by (auto simp: rd_def nat_less_iff)
  then have "rd (map uint colors) i \<bind> g = rd colors i \<bind> (\<lambda>c. g (uint c))" for i and g :: "int \<Rightarrow> screen option"
    by (cases "rd colors i") simp_all
  then show ?thesis using assms unfolding drawarea_short_def drawarea_def by auto
qed

text \<open>The copy of a whole picture is the loop over its pixels.\<close>

lemma copy_cells_painted:
  assumes "screen_ok s" "sw s * sh s \<le> int (length colors)"
  shows "\<exists>t. copy_cells (vtemp s) colors (nat (sw s * sh s)) = Some t \<and>
    painted s (\<lambda>x y. Some (colors ! nat (x + y * sw s))) (s\<lparr>vtemp := t\<rparr>)"
proof -
  let ?t = "take (nat (sw s * sh s)) colors @ drop (nat (sw s * sh s)) (vtemp s)"
  have l: "nat (sw s * sh s) \<le> length colors" "length (vtemp s) = nat (sw s * sh s)" using assms by (auto simp: screen_ok_def)
  have "pixel (s\<lparr>vtemp := ?t\<rparr>) x y = colors ! nat (x + y * sw s)" if "on_screen s x y" for x y
    using index_range[OF that] l by (simp add: pixel_def nth_append)
  then have "painted s (\<lambda>x y. Some (colors ! nat (x + y * sw s))) (s\<lparr>vtemp := ?t\<rparr>)"
    using assms l by (auto simp: painted_def screen_ok_def min_def)
  then show ?thesis using l by (auto simp: copy_cells_def)
qed

lemma drawarea_short_painted:
  assumes "screen_ok s" "sw s = 800" "sh s = 600" "rect_ok xl yl width height" "width * height \<le> int (length colors)"
  shows "\<exists>t. drawarea_short xl yl width height colors s = Some t \<and>
    painted s (within (in_rect xl yl width height) (\<lambda>x y. Some (colors ! nat (x - xl + (y - yl) * width)))) t"
proof (cases "xl = 0 \<and> yl = 0 \<and> width = 800 \<and> height = 600")
  case True
  then obtain t where t: "copy_cells (vtemp s) colors 480000 = Some t" "painted s (\<lambda>x y. Some (colors ! nat (x + y * 800))) (s\<lparr>vtemp := t\<rparr>)"
    using copy_cells_painted[OF assms(1), of colors] assms by auto
  have "painted s (within (in_rect xl yl width height) (\<lambda>x y. Some (colors ! nat (x - xl + (y - yl) * width)))) (s\<lparr>vtemp := t\<rparr>)"
    by (rule painted_cong[OF t(2)]) (use True assms in \<open>auto simp: within_def in_rect_def on_screen_def\<close>)
  then show ?thesis using t(1) True by (simp add: drawarea_short_def)
next
  case False
  have "\<forall>c \<in> set (map uint colors). 0 \<le> c \<and> c < 65536" by (auto intro: less_le_trans[OF uint_lt2p])
  from drawarea_painted[OF assms(1,4) _ this] assms(5) obtain t where
    t: "drawarea xl yl width height (map uint colors) s = Some t"
      "painted s (within (in_rect xl yl width height) (\<lambda>x y. Some (word_of_int (map uint colors ! nat (x - xl + (y - yl) * width))))) t" by auto
  have "painted s (within (in_rect xl yl width height) (\<lambda>x y. Some (colors ! nat (x - xl + (y - yl) * width)))) t"
  proof (rule painted_cong[OF t(2)])
    fix x y show "within (in_rect xl yl width height) (\<lambda>x y. Some (colors ! nat (x - xl + (y - yl) * width))) x y =
      within (in_rect xl yl width height) (\<lambda>x y. Some (word_of_int (map uint colors ! nat (x - xl + (y - yl) * width)))) x y"
      using area_index[of xl yl width height x y] assms(5) by (auto simp: within_def)
  qed
  then show ?thesis using t(1) drawarea_short_loop[OF False] by auto
qed

lemma scale_range:
  fixes a w k :: int
  assumes "0 \<le> a" "a < w" "0 < k"
  shows "0 \<le> a * k div w \<and> a * k div w < k"
proof -
  have "w * (a * k div w) \<le> a * k" using assms by (simp add: minus_mod_eq_mult_div[symmetric])
  also have "\<dots> < w * k" using assms by simp
  finally have "a * k div w < k" using assms by simp
  then show ?thesis using assms by (simp add: pos_imp_zdiv_nonneg_iff)
qed

text \<open>The cell of a glyph that a pixel of the rectangle shows.\<close>

definition glyph_cell :: "int \<Rightarrow> int \<Rightarrow> int \<Rightarrow> int \<Rightarrow> int \<Rightarrow> int \<Rightarrow> int \<Rightarrow> nat" where
  "glyph_cell cols xl yl width height x y = nat ((x - xl) * cols div width + (y - yl) * 16 div height * cols)"

lemma glyph_cell_bound:
  assumes "in_rect xl yl width height x y" "0 < cols"
  shows "0 \<le> (x - xl) * cols div width + (y - yl) * 16 div height * cols"
    "(x - xl) * cols div width + (y - yl) * 16 div height * cols < 16 * cols"
proof -
  have j: "0 \<le> (x - xl) * cols div width \<and> (x - xl) * cols div width < cols"
    and i: "0 \<le> (y - yl) * 16 div height \<and> (y - yl) * 16 div height < 16"
    using assms scale_range[of "x - xl" width cols] scale_range[of "y - yl" height 16] by (simp_all add: in_rect_def)
  show "0 \<le> (x - xl) * cols div width + (y - yl) * 16 div height * cols" using j i assms(2) by simp
  have "(y - yl) * 16 div height * cols \<le> 15 * cols" using i assms(2) by (intro mult_right_mono) auto
  then show "(x - xl) * cols div width + (y - yl) * 16 div height * cols < 16 * cols" using j by linarith
qed

lemma glyph_c_int:
  assumes "rect_ok xl yl width height" "in_rect xl yl width height x y"
  shows "c_int ((x - xl) * 8) = Some ((x - xl) * 8)" "c_int ((x - xl) * 16) = Some ((x - xl) * 16)"
    "c_int ((y - yl) * 16) = Some ((y - yl) * 16)"
  using assms by (auto simp: rect_ok_def in_rect_def c_int_def)

lemma drawarea_color_painted:
  assumes "screen_ok s" "rect_ok xl yl width height" "128 \<le> length colors" "0 \<le> color" "color < 65536"
  shows "\<exists>t. drawarea_color xl yl width height color colors s = Some t \<and>
    painted s (within (in_rect xl yl width height)
      (\<lambda>x y. if colors ! glyph_cell 8 xl yl width height x y = - 1 then None else Some (word_of_int color))) t"
  unfolding drawarea_color_def
proof (rule for_area_painted)
  fix x y t assume r: "in_rect xl yl width height x y" "like s t"
  have "rd colors ((x - xl) * 8 div width + (y - yl) * 16 div height * 8) = Some (colors ! glyph_cell 8 xl yl width height x y)"
    using glyph_cell_bound[OF r(1), of 8] assms(3) by (simp add: rd_def glyph_cell_def)
  then show "\<exists>t'. c_int ((x - xl) * 8) \<bind> (\<lambda>j. c_int ((y - yl) * 16) \<bind> (\<lambda>i. rd colors (j div width + i div height * 8) \<bind>
      (\<lambda>c. if c \<noteq> - 1 then plot x y color t else Some t))) = Some t' \<and>
    painted t (within (\<lambda>u v. u = x \<and> v = y)
      (\<lambda>x y. if colors ! glyph_cell 8 xl yl width height x y = - 1 then None else Some (word_of_int color))) t'"
    using like_refl_plot[OF r(2) assms(1)] like_skip[OF r(2)] rect_pos[OF assms(2) r(1)] assms(4,5) glyph_c_int[OF assms(2) r(1)]
    by simp
qed (use assms rect_ok_c_int in blast)+

text \<open>The bits of a Chinese glyph.\<close>

definition glyph_bit :: "byte list \<Rightarrow> nat \<Rightarrow> bool" where
  "glyph_bit gbk n \<longleftrightarrow> bit (gbk ! (n div 8)) (7 - n mod 8)"

lemma byte_mask: "(b :: byte) AND drop_bit k 0x80 \<noteq> 0 \<longleftrightarrow> bit b (7 - k)" if "k < 8"
proof -
  have "drop_bit k (0x80 :: byte) = push_bit (7 - k) 1"
  proof -
    have "k = 0 \<or> k = 1 \<or> k = 2 \<or> k = 3 \<or> k = 4 \<or> k = 5 \<or> k = 6 \<or> k = 7" using that by auto
    then show ?thesis by (elim disjE) simp_all
  qed
  then show ?thesis using that by (simp add: bit_iff_and_push_bit_not_eq_0)
qed

lemma gbk_bit_eq:
  assumes "32 \<le> length gbk" "n < 256"
  shows "gbk_bit gbk (int n) = Some (glyph_bit gbk n)"
proof -
  have "int n div 8 = int (n div 8)" "nat (int n mod 8) = n mod 8" by (simp_all add: zdiv_int nat_mod_distrib)
  moreover have "n div 8 < length gbk" using assms by simp
  ultimately show ?thesis by (simp add: gbk_bit_def glyph_bit_def byte_mask)
qed

lemma gbk_colors_eq:
  assumes "32 \<le> length gbk"
  shows "n \<le> 256 \<Longrightarrow> gbk_colors color gbk (int n) = Some (map (\<lambda>k. if glyph_bit gbk k then color else - 1) [n..<256])"
proof (induction "256 - n" arbitrary: n)
  case 0
  then show ?case by (subst gbk_colors.simps) simp
next
  case (Suc m)
  then have n: "n < 256" by simp
  from Suc.hyps(1)[of "Suc n"] Suc.hyps(2) n
  have "gbk_colors color gbk (int n + 1) = Some (map (\<lambda>k. if glyph_bit gbk k then color else - 1) [Suc n..<256])" by (simp add: add.commute)
  then show ?case using n gbk_bit_eq[OF assms n] by (subst gbk_colors.simps) (simp add: upt_conv_Cons)
qed

lemma drawgbk_color_painted:
  assumes "screen_ok s" "rect_ok xl yl width height" "32 \<le> length gbk" "0 \<le> color" "color < 65536"
  shows "\<exists>t. drawgbk_color xl yl width height color gbk s = Some t \<and>
    painted s (within (in_rect xl yl width height)
      (\<lambda>x y. if glyph_bit gbk (glyph_cell 16 xl yl width height x y) then Some (word_of_int color) else None)) t"
proof -
  let ?cs = "map (\<lambda>k. if glyph_bit gbk k then color else - 1) [0..<256]"
  let ?pic = "\<lambda>x y. if glyph_bit gbk (glyph_cell 16 xl yl width height x y) then Some (word_of_int color) else None"
  have cs: "gbk_colors color gbk 0 = Some ?cs" using gbk_colors_eq[OF assms(3), of 0 color] by simp
  show ?thesis
    unfolding drawgbk_color_def cs bind.bind_lunit
  proof (rule for_area_painted)
    fix x y t assume r: "in_rect xl yl width height x y" "like s t"
    have "rd ?cs ((x - xl) * 16 div width + (y - yl) * 16 div height * 16) =
        Some (if glyph_bit gbk (glyph_cell 16 xl yl width height x y) then color else - 1)"
      using glyph_cell_bound[OF r(1), of 16] by (simp add: rd_def glyph_cell_def nat_less_iff)
    then show "\<exists>t'. c_int ((x - xl) * 16) \<bind> (\<lambda>j. c_int ((y - yl) * 16) \<bind> (\<lambda>i. rd ?cs (j div width + i div height * 16) \<bind>
        (\<lambda>c. if c \<noteq> - 1 then plot x y c t else Some t))) = Some t' \<and> painted t (within (\<lambda>u v. u = x \<and> v = y) ?pic) t'"
      using like_refl_plot[OF r(2) assms(1)] like_skip[OF r(2)] rect_pos[OF assms(2) r(1)] assms(4,5) glyph_c_int[OF assms(2) r(1)]
      by simp
  qed (use assms rect_ok_c_int in blast)+
qed

text \<open>
  C32: Filling a rectangle whose start is not negative and whose extent does not overflow gives its colour to exactly the pixels of the
  screen inside of it and leaves every other pixel and the visible screen as they were, whether the
  rectangle reaches over the right or lower border or not, and also on the fast path for the whole
  screen; a colour that does not fit 16 bits is refused without any effect. A negative start is a defect of the code,
  which \<open>set_color_negative\<close> shows.
\<close>

theorem drawrect_pixels:
  assumes "screen_ok s" "sw s = 800" "sh s = 600" "0 \<le> xl" "0 \<le> yl"
    "- (2 ^ 31) \<le> width" "- (2 ^ 31) \<le> height" "xl + width < 2 ^ 31" "yl + height < 2 ^ 31"
  shows "\<exists>r t. drawrect xl yl width height color s = Some (r, t) \<and>
    (if 0 \<le> color \<and> color < 65536
     then r = 0 \<and> painted s (\<lambda>x y. if in_rect xl yl width height x y then Some (word_of_int color) else None) t
     else r = - 1 \<and> t = s)"
proof (cases "0 \<le> color \<and> color < 65536")
  case c: True
  let ?pic = "\<lambda>x y. if in_rect xl yl width height x y then Some (word_of_int color :: 16 word) else None"
  show ?thesis
  proof (cases "xl = 0 \<and> yl = 0 \<and> width = 800 \<and> height = 600 \<and> color = 65535")
    case True
    let ?w = "replicate 480000 (0xFFFF :: 16 word)"
    obtain t where t: "copy_cells (vtemp s) ?w 480000 = Some t" "painted s (\<lambda>x y. Some (?w ! nat (x + y * 800))) (s\<lparr>vtemp := t\<rparr>)"
      using copy_cells_painted[OF assms(1), of ?w] assms(2,3) by auto
    have "painted s ?pic (s\<lparr>vtemp := t\<rparr>)"
    proof (rule painted_cong[OF t(2)])
      fix x y assume "on_screen s x y"
      then show "?pic x y = Some (?w ! nat (x + y * 800))"
        using index_range[of s x y] True assms(2,3) by (simp add: on_screen_def in_rect_def nat_less_iff)
    qed
    then show ?thesis using t(1) True assms(2,3) by (simp add: drawrect_def)
  next
    case False
    have "\<exists>t. for_area xl yl width height (\<lambda>x y s. plot x y color s) s = Some t \<and>
        painted s (within (in_rect xl yl width height) (\<lambda>x y. Some (word_of_int color))) t"
    proof (rule for_area_painted)
      show "c_int (xl + width) = Some (xl + width)" "c_int (yl + height) = Some (yl + height)" using assms by (auto simp: c_int_def)
    qed (use assms(1,4,5) like_refl_plot[OF _ assms(1)] c in \<open>auto simp: in_rect_def\<close>)
    moreover have "within (in_rect xl yl width height) (\<lambda>x y. Some (word_of_int color)) = ?pic" by (simp add: within_def fun_eq_iff)
    ultimately show ?thesis using c False by (auto simp: drawrect_def)
  qed
qed (auto simp: drawrect_def)

definition blank_screen :: screen where
  "blank_screen = \<lparr>vtemp = replicate 480000 0, vesa = replicate 480000 0, sw = 800, sh = 600\<rparr>"

lemma blank_screen_ok: "screen_ok blank_screen" "sw blank_screen = 800" "sh blank_screen = 600"
  by (simp_all add: blank_screen_def screen_ok_def)

theorem drawrect_pixels_witness:
  "\<exists>t. drawrect 790 10 20 5 7 blank_screen = Some (0, t) \<and> pixel t 795 12 = 7 \<and> pixel t 789 12 = pixel blank_screen 789 12"
proof -
  from drawrect_pixels[OF blank_screen_ok, of 790 10 20 5 7] obtain t where t: "drawrect 790 10 20 5 7 blank_screen = Some (0, t)"
    "painted blank_screen (\<lambda>x y. if in_rect 790 10 20 5 x y then Some (word_of_int 7) else None) t" by auto
  from t(2) have p: "on_screen blank_screen x y \<Longrightarrow>
      pixel t x y = (case if in_rect 790 10 20 5 x y then Some (word_of_int 7) else None of None \<Rightarrow> pixel blank_screen x y | Some c \<Rightarrow> c)" for x y
    by (simp add: painted_def)
  have "on_screen blank_screen 795 12" "on_screen blank_screen 789 12" by (simp_all add: on_screen_def blank_screen_ok)
  from p[OF this(1)] p[OF this(2)] t(1) show ?thesis by (simp add: in_rect_def)
qed

section \<open>Accesses out of range\<close>

text \<open>A rectangle that starts left of the screen in its first row writes before the array.\<close>

lemma set_color_negative:
  assumes "screen_ok s" "x < 0" "0 \<le> color" "color < 65536"
  shows "set_color x 0 color s = None"
  using assms by (simp add: set_color_def bad_color_def wr_def screen_ok_def)

text \<open>Copying a square of the width of the screen reads and writes after both arrays.\<close>

lemma update_overruns:
  assumes "screen_ok s" "sw s = 800" "sh s = 600"
  shows "update m s = None \<and> reverse_update s = None"
  using assms by (simp add: update_def reverse_update_def copy_cells_def screen_ok_def SCREEN_WIDTH_EXPECT_def)

text \<open>The mouse handler redraws the square below the pointer also in the lower right corner.\<close>

lemma update_area_corner:
  assumes "screen_ok s" "sw s = 800" "sh s = 600"
  shows "update_area 799 599 10 10 s = None"
proof -
  have l: "length (vtemp s) = 480000" "length (vesa s) = 480000" using assms by (simp_all add: screen_ok_def)
  have e: "for_int i n f s = (if i < n then (case f i s of None \<Rightarrow> None | Some s' \<Rightarrow> for_int (i + 1) n f s') else Some s)"
    for i n :: int and f :: "int \<Rightarrow> screen \<Rightarrow> screen option" and s by (rule for_int.simps)
  show ?thesis unfolding update_area_def for_area_def
    by (subst e, simp add: c_int_def, subst e, simp add: rd_def wr_def l assms, subst e, simp add: rd_def l assms)
qed

end
