(* ===== verification/Grep.thy ===== *)
theory Grep
  imports CString
begin

text \<open>
  The pattern matcher and the line loop of grep (src/src/grep.c). A C string is the list of the bytes
  before its NUL. The patterns are given a language, and the matcher decides whether a text has
  a part in it. The loop over the buffer is modelled with the bytes that earlier reads left in it.
\<close>

section \<open>The matcher\<close>

text \<open>The codes of the five special characters.\<close>

abbreviation caret :: byte where "caret \<equiv> 94"
abbreviation star :: byte where "star \<equiv> 42"
abbreviation dollar :: byte where "dollar \<equiv> 36"
abbreviation dot :: byte where "dot \<equiv> 46"
abbreviation newline :: byte where "newline \<equiv> 10"

text \<open>\<^verbatim>\<open>re[1] == '*'\<close>, where \<^verbatim>\<open>re[1]\<close> may be the NUL.\<close>

definition second :: "cstring \<Rightarrow> byte" where
  "second re = (case re of _ # c # _ \<Rightarrow> c | _ \<Rightarrow> 0)"

function (sequential) matchhere :: "cstring \<Rightarrow> cstring \<Rightarrow> bool"
  and matchstar :: "byte \<Rightarrow> cstring \<Rightarrow> cstring \<Rightarrow> bool" where
  "matchhere [] tx = True"
| "matchhere (c # re) tx =
     (if second (c # re) = star then matchstar c (tl re) tx
      else if c = dollar \<and> re = [] then tx = []
      else case tx of [] \<Rightarrow> False | t # tx' \<Rightarrow> (c = dot \<or> c = t) \<and> matchhere re tx')"
| "matchstar c re tx =
     (matchhere re tx \<or> (case tx of [] \<Rightarrow> False | t # tx' \<Rightarrow> (t = c \<or> c = dot) \<and> matchstar c re tx'))"
  by pat_completeness auto
termination
  by (relation "measure (\<lambda>x. case x of Inl (re, tx) \<Rightarrow> 2 * (length re + length tx) | Inr (c, re, tx) \<Rightarrow> 2 * (length re + length tx) + 1)")
    (auto simp: second_def split: list.splits)

declare matchhere.simps [simp del] matchstar.simps [simp del]

fun match_from :: "cstring \<Rightarrow> cstring \<Rightarrow> bool" where
  "match_from re tx = (matchhere re tx \<or> (case tx of [] \<Rightarrow> False | _ # tx' \<Rightarrow> match_from re tx'))"

declare match_from.simps [simp del]

definition match :: "cstring \<Rightarrow> cstring \<Rightarrow> bool" where
  "match re tx = (case re of c # re' \<Rightarrow> if c = caret then matchhere re' tx else match_from re tx | [] \<Rightarrow> match_from re tx)"

section \<open>The loop over the lines\<close>

lemma strchr_found: "strchr mem s c = Some (Some q) \<Longrightarrow> s \<le> q \<and> q < length mem \<and> mem ! q = c"
proof (induction mem s c rule: strchr.induct)
  case (1 mem s c)
  from 1(2) show ?case
    by (subst (asm) strchr.simps) (use 1(1) in \<open>auto simp: rd_def split: if_splits\<close>)
qed

function grep_lines :: "cstring \<Rightarrow> memory \<Rightarrow> nat \<Rightarrow> byte list \<Rightarrow> (memory \<times> nat \<times> byte list) option" where
  "grep_lines re buf p out = (case strchr buf p newline of
       None \<Rightarrow> None
     | Some None \<Rightarrow> Some (buf, p, out)
     | Some (Some q) \<Rightarrow>
         let buf = buf[q := 0] in
         if match re (cstr (drop p buf))
         then let buf = buf[q := newline] in grep_lines re buf (q + 1) (out @ range_of buf p (q + 1 - p))
         else grep_lines re buf (q + 1) out)"
  by pat_completeness auto
termination
  by (relation "measure (\<lambda>(re, buf, p, out). length buf - p)") (auto dest!: strchr_found)

declare grep_lines.simps [simp del]

text \<open>
  The results of the reads are a list of chunks; a read returns at most the room it is given, and the
  end of the list or an empty chunk is the end of the file. A read before or behind the buffer is None.
\<close>

fun grep_loop :: "cstring \<Rightarrow> memory \<Rightarrow> int \<Rightarrow> byte list list \<Rightarrow> byte list \<Rightarrow> (memory \<times> byte list) option" where
  "grep_loop re buf m [] out = Some (buf, out)"
| "grep_loop re buf m (chunk # chunks) out =
     (if chunk = [] then Some (buf, out)
      else if m < 0 \<or> nat m + length chunk > length buf then None
      else do {
        let buf = blit buf (nat m) chunk;
        let m = m + int (length chunk);
        (buf, p, out) \<leftarrow> grep_lines re buf 0 out;
        let m = (if p = 0 then 0 else m);
        if m > 0
        then do {
          let m = m - int p;
          buf \<leftarrow> u_memmove buf 0 p m;
          grep_loop re buf m chunks out
        }
        else grep_loop re buf m chunks out
      })"

definition grep :: "cstring \<Rightarrow> memory \<Rightarrow> byte list list \<Rightarrow> (memory \<times> byte list) option" where
  "grep re buf chunks = grep_loop re buf 0 chunks []"

text \<open>
  The command line. What a file gives to the reads, or that it cannot be opened, is an argument; the
  buffer is not cleared between two files. The results are the bytes on the standard output and on
  the standard error.
\<close>

fun grep_files :: "cstring \<Rightarrow> memory \<Rightarrow> (cstring \<Rightarrow> byte list list option) \<Rightarrow> cstring list \<Rightarrow> byte list \<Rightarrow> byte list option" where
  "grep_files re buf open_file [] out = Some out"
| "grep_files re buf open_file (name # names) out = (case open_file name of
       None \<Rightarrow> Some (out @ lit ''grep: cannot open '' @ name @ [newline])
     | Some chunks \<Rightarrow> do { (buf, out') \<leftarrow> grep re buf chunks; grep_files re buf open_file names (out @ out') })"

definition grep_main :: "cstring list \<Rightarrow> byte list list \<Rightarrow> (cstring \<Rightarrow> byte list list option) \<Rightarrow> (byte list \<times> byte list) option" where
  "grep_main argv stdin open_file = (case argv of
       _ # re # [] \<Rightarrow> do { (buf, out) \<leftarrow> grep re (replicate 1024 0) stdin; Some (out, []) }
     | _ # re # names \<Rightarrow> do { out \<leftarrow> grep_files re (replicate 1024 0) open_file names []; Some (out, []) }
     | _ \<Rightarrow> Some ([], lit ''usage: grep pattern [file ...]'' @ [newline]))"

section \<open>The language of a pattern\<close>

datatype atom = One byte | Star byte

text \<open>A pattern without its caret is a list of atoms and whether it ends at the end of the text.\<close>

fun parse :: "cstring \<Rightarrow> atom list \<times> bool" where
  "parse [] = ([], False)"
| "parse [c] = (if c = dollar then ([], True) else ([One c], False))"
| "parse (c # d # re) =
     (if d = star then (let (as, e) = parse re in (Star c # as, e)) else (let (as, e) = parse (d # re) in (One c # as, e)))"

definition fits :: "byte \<Rightarrow> byte \<Rightarrow> bool" where
  "fits c t \<longleftrightarrow> c = dot \<or> c = t"

inductive denotes :: "atom list \<Rightarrow> byte list \<Rightarrow> bool" where
  "denotes [] []"
| "fits c t \<Longrightarrow> denotes as u \<Longrightarrow> denotes (One c # as) (t # u)"
| "denotes as u \<Longrightarrow> denotes (Star c # as) u"
| "fits c t \<Longrightarrow> denotes (Star c # as) u \<Longrightarrow> denotes (Star c # as) (t # u)"

inductive_simps denotes_Nil [simp]: "denotes [] u"
inductive_simps denotes_One: "denotes (One c # as) u"
inductive_simps denotes_Star: "denotes (Star c # as) u"

text \<open>A part of the text at its beginning is in the language.\<close>

definition prefix_in :: "atom list \<times> bool \<Rightarrow> byte list \<Rightarrow> bool" where
  "prefix_in pat tx \<longleftrightarrow> (\<exists>u v. tx = u @ v \<and> denotes (fst pat) u \<and> (snd pat \<longrightarrow> v = []))"

lemma prefix_in_Nil [simp]: "prefix_in ([], e) tx \<longleftrightarrow> (e \<longrightarrow> tx = [])"
  by (auto simp: prefix_in_def)

lemma prefix_in_One:
  "prefix_in (One c # as, e) tx \<longleftrightarrow> (case tx of [] \<Rightarrow> False | t # tx' \<Rightarrow> fits c t \<and> prefix_in (as, e) tx')"
proof -
  have "prefix_in (One c # as, e) tx \<longleftrightarrow>
      (\<exists>t u v. tx = t # u @ v \<and> fits c t \<and> denotes as u \<and> (e \<longrightarrow> v = []))"
    unfolding prefix_in_def fst_conv snd_conv by (subst denotes_One) (metis append_Cons)
  then show ?thesis by (auto simp: prefix_in_def split: list.splits)
qed

lemma prefix_in_Star:
  "prefix_in (Star c # as, e) tx \<longleftrightarrow>
     prefix_in (as, e) tx \<or> (case tx of [] \<Rightarrow> False | t # tx' \<Rightarrow> fits c t \<and> prefix_in (Star c # as, e) tx')"
proof -
  have "prefix_in (Star c # as, e) tx \<longleftrightarrow> prefix_in (as, e) tx \<or>
      (\<exists>t u v. tx = t # u @ v \<and> fits c t \<and> denotes (Star c # as) u \<and> (e \<longrightarrow> v = []))"
    (is "?l \<longleftrightarrow> ?r")
  proof
    assume ?l
    then obtain u v where u: "tx = u @ v" "denotes (Star c # as) u" "e \<longrightarrow> v = []" by (auto simp: prefix_in_def)
    from u(2) show ?r by cases (use u in \<open>auto simp: prefix_in_def\<close>)
  next
    assume ?r
    then show ?l
    proof (elim disjE exE conjE)
      fix t u v assume "tx = t # u @ v" "fits c t" "denotes (Star c # as) u" "e \<longrightarrow> v = []"
      then show ?l using denotes.intros(4)[of c t as u] unfolding prefix_in_def by (intro exI[of _ "t # u"] exI[of _ v]) simp
    qed (auto simp: prefix_in_def intro: denotes.intros)
  qed
  then show ?thesis by (auto simp: prefix_in_def split: list.splits)
qed

lemma matchhere_parse:
  "matchhere re tx = prefix_in (parse re) tx"
  "matchstar c re tx = prefix_in (Star c # fst (parse re), snd (parse re)) tx"
proof (induction re tx and c re tx rule: matchhere_matchstar.induct)
  case (1 tx)
  then show ?case by (simp add: matchhere.simps)
next
  case (2 c re tx)
  show ?case
  proof (cases re)
    case Nil
    then show ?thesis using 2
      by (subst matchhere.simps) (auto simp: second_def prefix_in_One fits_def matchhere.simps split: list.splits)
  next
    case (Cons d re')
    then show ?thesis using 2
      by (subst matchhere.simps)
        (auto simp: second_def prefix_in_One fits_def case_prod_beta split: list.splits)
  qed
next
  case (3 c re tx)
  then show ?case
    by (subst matchstar.simps, subst prefix_in_Star) (auto simp: fits_def split: list.splits)
qed

lemma match_from_parse: "match_from re tx \<longleftrightarrow> (\<exists>w. \<exists>tx'. tx = w @ tx' \<and> prefix_in (parse re) tx')"
proof (induction tx)
  case Nil
  then show ?case by (subst match_from.simps) (simp add: matchhere_parse)
next
  case (Cons t tx)
  have "(\<exists>w tx'. t # tx = w @ tx' \<and> prefix_in (parse re) tx') \<longleftrightarrow>
      prefix_in (parse re) (t # tx) \<or> (\<exists>w tx'. tx = w @ tx' \<and> prefix_in (parse re) tx')"
    by (metis append_Cons append_Nil neq_Nil_conv list.inject)
  moreover have "match_from re (t # tx) \<longleftrightarrow> matchhere re (t # tx) \<or> match_from re tx" by (subst match_from.simps) simp
  ultimately show ?case unfolding Cons.IH matchhere_parse by blast
qed

text \<open>
  C33: The matcher decides the language of the pattern: without a caret a text matches when some
  part of it is denoted by the atoms, with a caret when that part is at the beginning, and with
  a dollar at the end of the pattern only when the part reaches the end of the text.
\<close>

theorem match_language:
  "match re tx \<longleftrightarrow>
     (let pat = parse (if re \<noteq> [] \<and> hd re = caret then tl re else re) in
      \<exists>w u v. tx = w @ u @ v \<and> denotes (fst pat) u \<and> (re \<noteq> [] \<and> hd re = caret \<longrightarrow> w = []) \<and> (snd pat \<longrightarrow> v = []))"
proof (cases "re \<noteq> [] \<and> hd re = caret")
  case True
  then obtain re' where "re = caret # re'" by (cases re) auto
  then show ?thesis by (simp add: match_def matchhere_parse prefix_in_def Let_def)
next
  case False
  then have "match re tx = match_from re tx" by (auto simp: match_def split: list.splits)
  also have "\<dots> \<longleftrightarrow> (\<exists>w u v. tx = w @ u @ v \<and> denotes (fst (parse re)) u \<and> (snd (parse re) \<longrightarrow> v = []))"
    by (auto simp: match_from_parse prefix_in_def)
  finally show ?thesis using False by (auto simp: Let_def)
qed

theorem match_language_witness:
  "\<exists>w u. lit ''xaab'' = w @ u \<and> denotes [Star 97, One 98] u"
proof -
  have m: "match (lit ''a*b$'') (lit ''xaab'')" by code_simp
  have p: "parse (lit ''a*b$'') = ([Star 97, One 98], True)" and h: "hd (lit ''a*b$'') \<noteq> caret" by code_simp+
  from m h show ?thesis unfolding match_language[of "lit ''a*b$''" "lit ''xaab''"] by (auto simp: p)
qed

section \<open>A file that one read takes\<close>

lemma strchr_string:
  "string_at mem p tx \<Longrightarrow> c \<noteq> 0 \<Longrightarrow>
   strchr mem p c = Some (if c \<in> set tx then Some (p + length (takeWhile (\<lambda>t. t \<noteq> c) tx)) else None)"
proof (induction tx arbitrary: p)
  case Nil
  then show ?case by (subst strchr.simps) simp
next
  case (Cons t tx)
  then show ?case by (subst strchr.simps) auto
qed

lemma string_at_append:
  "string_at mem p (xs @ ys) \<longleftrightarrow> 0 \<notin> set xs \<and> p + length xs \<le> length mem \<and> range_of mem p (length xs) = xs \<and> string_at mem (p + length xs) ys"
proof (induction xs arbitrary: p)
  case Nil
  then show ?case by (auto simp: string_at_def)
next
  case (Cons x xs)
  show ?case
  proof (cases "p < length mem")
    case True
    then show ?thesis using Cons.IH[of "Suc p"] by (simp add: range_of_Suc) blast
  qed simp
qed

text \<open>The complete lines of a text, and what follows the last of them.\<close>

function lines_of :: "byte list \<Rightarrow> byte list list" where
  "lines_of tx = (if newline \<in> set tx then takeWhile (\<lambda>t. t \<noteq> newline) tx # lines_of (tl (dropWhile (\<lambda>t. t \<noteq> newline) tx)) else [])"
  by pat_completeness auto
termination
proof (relation "measure length")
  fix tx :: "byte list" assume "newline \<in> set tx"
  then have "dropWhile (\<lambda>t. t \<noteq> newline) tx \<noteq> []" by simp
  then have "length (tl (dropWhile (\<lambda>t. t \<noteq> newline) tx)) < length (dropWhile (\<lambda>t. t \<noteq> newline) tx)" by simp
  also have "\<dots> \<le> length tx" by (rule length_dropWhile_le)
  finally show "(tl (dropWhile (\<lambda>t. t \<noteq> newline) tx), tx) \<in> measure length" by simp
qed simp

declare lines_of.simps [simp del]

lemma first_line:
  assumes "newline \<notin> set l"
  shows "takeWhile (\<lambda>t. t \<noteq> newline) (l @ newline # tx) = l" "dropWhile (\<lambda>t. t \<noteq> newline) (l @ newline # tx) = newline # tx"
  using assms by (induction l) auto

lemma lines_of_Cons: "newline \<notin> set l \<Longrightarrow> lines_of (l @ newline # tx) = l # lines_of tx"
  by (subst lines_of.simps) (simp add: first_line)

lemma lines_of_None: "newline \<notin> set l \<Longrightarrow> lines_of l = []"
  by (subst lines_of.simps) simp

definition printed :: "cstring \<Rightarrow> byte list \<Rightarrow> byte list" where
  "printed re tx = concat (map (\<lambda>l. l @ [newline]) (filter (match re) (lines_of tx)))"

text \<open>One round of the inner loop.\<close>

lemma grep_lines_step:
  assumes "string_at buf p (l @ newline # tx)" "newline \<notin> set l"
  shows "\<exists>buf'. length buf' = length buf \<and> string_at buf' (p + length l + 1) tx \<and>
    grep_lines re buf p out = grep_lines re buf' (p + length l + 1) (out @ (if match re l then l @ [newline] else []))"
proof -
  let ?q = "p + length l"
  have s: "0 \<notin> set l" "range_of buf p (length l) = l" "?q < length buf" "buf ! ?q = newline" "string_at buf (?q + 1) tx"
    using assms(1) by (auto simp: string_at_append)
  have q: "strchr buf p newline = Some (Some ?q)" using strchr_string[OF assms(1), of newline] first_line[OF assms(2)] by simp
  have "string_at (buf[?q := 0]) p l" using s by (simp add: string_at_def range_of_update)
  then have c: "cstr (drop p (buf[?q := 0])) = l" by (rule cstr_string)
  have r: "range_of buf p (Suc (length l)) = l @ [newline]" using s by (simp add: range_of_snoc)
  have b: "buf[?q := newline] = buf" using s(3,4) by (simp add: list_update_same_conv)
  show ?thesis
  proof (cases "match re l")
    case True
    then have "grep_lines re buf p out = grep_lines re buf (?q + 1) (out @ l @ [newline])"
      by (subst grep_lines.simps) (simp add: q c b r Let_def)
    then show ?thesis using s(5) True by (intro exI[of _ buf]) simp
  next
    case False
    then have "grep_lines re buf p out = grep_lines re (buf[?q := 0]) (?q + 1) out"
      by (subst grep_lines.simps) (simp add: q c Let_def)
    moreover have "string_at (buf[?q := 0]) (?q + 1) tx" using s(5) by (simp add: string_at_update)
    ultimately show ?thesis using False by (intro exI[of _ "buf[?q := 0]"]) simp
  qed
qed

lemma grep_lines_string:
  "string_at buf p tx \<Longrightarrow> \<exists>buf' p'. length buf' = length buf \<and> p \<le> p' \<and> p' \<le> p + length tx \<and>
     grep_lines re buf p out = Some (buf', p', out @ printed re tx)"
proof (induction "length tx" arbitrary: buf p tx out rule: less_induct)
  case less
  show ?case
  proof (cases "newline \<in> set tx")
    case True
    then obtain l tx' where tx: "tx = l @ newline # tx'" "newline \<notin> set l" by (meson split_list_first)
    from grep_lines_step[of buf p l tx' re out] less.prems tx obtain buf' where
      b: "length buf' = length buf" "string_at buf' (p + length l + 1) tx'"
        "grep_lines re buf p out = grep_lines re buf' (p + length l + 1) (out @ (if match re l then l @ [newline] else []))" by auto
    have "printed re tx = (if match re l then l @ [newline] else []) @ printed re tx'"
      using tx by (simp add: printed_def lines_of_Cons)
    moreover have "length tx' < length tx" using tx by simp
    ultimately show ?thesis using less.hyps[OF _ b(2), of "out @ (if match re l then l @ [newline] else [])"] b tx(1)
      by (fastforce split: if_splits)
  next
    case False
    then have "grep_lines re buf p out = Some (buf, p, out @ printed re tx)"
      by (subst grep_lines.simps) (simp add: strchr_string[OF less.prems] printed_def lines_of_None)
    then show ?thesis by auto
  qed
qed

lemma string_after_read:
  assumes "0 \<notin> set tx" "length tx \<le> length buf" "0 \<in> set (drop (length tx) buf)"
  shows "string_at (blit buf 0 tx) 0 (tx @ cstr (drop (length tx) buf))"
proof -
  let ?r = "drop (length tx) buf"
  have b: "blit buf 0 tx = tx @ ?r" by (simp add: blit_def)
  obtain xs ys where r: "?r = xs @ 0 # ys" "0 \<notin> set xs" using assms(3) by (meson split_list_first)
  have "cstr ?r = xs" using r by simp
  then show ?thesis using assms r unfolding b by (auto simp: string_at_def range_of_def nth_append)
qed

text \<open>
  C34: What a call writes for a file that one read takes, whatever an earlier file has left in the buffer: the complete
  lines that match the pattern, in order, of the bytes read followed by the bytes of the buffer behind them up to
  the next NUL. These are exactly the matching lines of the file when a NUL follows the bytes read, as it does
  for the first file. No access leaves the buffer. The file has no NUL, and the buffer has one behind the bytes read.
\<close>

theorem grep_short_file:
  assumes "0 \<notin> set tx" "tx \<noteq> []" "length tx \<le> length buf" "0 \<in> set (drop (length tx) buf)"
  shows "\<exists>buf'. length buf' = length buf \<and> grep re buf [tx] = Some (buf', printed re (tx @ cstr (drop (length tx) buf)))"
proof -
  let ?b = "blit buf 0 tx" and ?tx = "tx @ cstr (drop (length tx) buf)"
  have "string_at ?b 0 ?tx" using string_after_read[OF assms(1,3,4)] .
  from grep_lines_string[OF this, of re "[]"] obtain buf' p' where
    g: "length buf' = length buf" "p' \<le> length ?tx" "grep_lines re ?b 0 [] = Some (buf', p', printed re ?tx)"
    using assms(3) by (auto simp: blit_def)
  have "\<exists>b. length b = length buf \<and> u_memmove buf' 0 p' (int (length tx) - int p') = Some b"
  proof (cases "p' \<le> length tx")
    case True
    with g(1) assms(3) show ?thesis using move_up_blit[of p' 0 "length tx - p'" buf']
      by (auto simp: u_memmove_def nat_diff_distrib blit_def range_of_def)
  next
    case False
    with g(1) show ?thesis by (simp add: u_memmove_def move_up.simps)
  qed
  then show ?thesis using g assms(2,3) by (auto simp: grep_def)
qed

theorem grep_short_file_witness:
  "(\<exists>buf'. grep (lit ''^b'') (replicate 1024 0) [lit ''ab'' @ [newline] @ lit ''ba'' @ [newline] @ lit ''b''] = Some (buf', lit ''ba'' @ [newline])) \<and>
   (\<exists>buf'. grep (lit ''b'') (lit ''abcb'' @ [newline, 0]) [lit ''b'' @ [newline]] =
      Some (buf', lit ''b'' @ [newline] @ lit ''cb'' @ [newline]))"
proof
  let ?tx = "lit ''ab'' @ [newline] @ lit ''ba'' @ [newline] @ lit ''b''"
  have "0 \<notin> set ?tx" "?tx \<noteq> []" "length ?tx \<le> length (replicate 1024 (0 :: byte))" "0 \<in> set (drop (length ?tx) (replicate 1024 (0 :: byte)))"
    "printed (lit ''^b'') (?tx @ cstr (drop (length ?tx) (replicate 1024 0))) = lit ''ba'' @ [newline]" by code_simp+
  then show "\<exists>buf'. grep (lit ''^b'') (replicate 1024 0) [?tx] = Some (buf', lit ''ba'' @ [newline])"
    using grep_short_file[of ?tx "replicate 1024 0" "lit ''^b''"] by metis
  let ?ty = "lit ''b'' @ [newline]" and ?buf = "lit ''abcb'' @ [newline, 0]"
  have "0 \<notin> set ?ty" "?ty \<noteq> []" "length ?ty \<le> length ?buf" "0 \<in> set (drop (length ?ty) ?buf)"
    "printed (lit ''b'') (?ty @ cstr (drop (length ?ty) ?buf)) = lit ''b'' @ [newline] @ lit ''cb'' @ [newline]" by code_simp+
  then show "\<exists>buf'. grep (lit ''b'') ?buf [?ty] = Some (buf', lit ''b'' @ [newline] @ lit ''cb'' @ [newline])"
    using grep_short_file[of ?ty ?buf "lit ''b''"] by metis
qed

text \<open>
  A later, shorter read leaves the bytes of the earlier one behind it, which are searched again as if
  they were read: here the second line of the first read appears twice, and a piece of the first one.
  The count of bytes is negative afterwards, and the next read writes before the buffer.
\<close>

lemma grep_stale_lines:
  "map_option snd (grep (lit ''b'') (replicate 16 0) [lit ''bbbb'' @ [newline] @ lit ''bbbb'' @ [newline], lit ''c'' @ [newline]]) =
     Some (lit ''bbbb'' @ [newline] @ lit ''bbbb'' @ [newline] @ lit ''bb'' @ [newline] @ lit ''bbbb'' @ [newline])"
  by code_simp

lemma grep_before_buffer:
  "grep (lit ''b'') (replicate 16 0) [lit ''bbbb'' @ [newline] @ lit ''bbbb'' @ [newline], lit ''c'' @ [newline], lit ''d''] = None"
  by code_simp

end
