(* ===== verification/Shell.thy ===== *)
theory Shell
  imports CString
begin

text \<open>
  The parser of the shell (src/src/sh.c). The line is the list of the bytes before its NUL, and a pointer
  into it is an index up to the index of the NUL. The four parsing routines that call each other take
  fuel, one unit per call; None is only the lack of fuel, and a panic of the parser is an error value.
  The allocation of the tree nodes is taken to succeed. Running a command is not part of this theory.
\<close>

section \<open>Commands\<close>

text \<open>The strings of a command are ranges of the line while it is parsed, and texts afterwards.\<close>

datatype 's cmd =
    EXEC "'s list"
  | REDIR "'s cmd" 's (rmode: int) (rfd: int)
  | PIPE "'s cmd" "'s cmd"
  | LIST "'s cmd" "'s cmd"
  | BACK "'s cmd"

type_synonym span = "nat \<times> nat"

datatype parse_error = Missing_file | Parseblock | Missing_paren | Syntax | Too_many_args | Leftovers

definition MAXARGS :: nat where "MAXARGS = 10"
definition O_RDONLY :: int where "O_RDONLY = 0"
definition O_WRONLY :: int where "O_WRONLY = 1"
definition O_CREATE :: int where "O_CREATE = 0x200"

section \<open>Tokens\<close>

definition whitespace :: cstring where "whitespace = [32, 9, 13, 10, 11]"
definition symbols :: cstring where "symbols = lit ''<|>&;()''"

definition at :: "cstring \<Rightarrow> nat \<Rightarrow> byte" where
  "at s p = (if p < length s then s ! p else 0)"

function skip_white :: "cstring \<Rightarrow> nat \<Rightarrow> nat" where
  "skip_white s p = (if p < length s \<and> at s p \<in> set whitespace then skip_white s (p + 1) else p)"
  by pat_completeness auto
termination by (relation "measure (\<lambda>(s, p). length s - p)") auto

function skip_word :: "cstring \<Rightarrow> nat \<Rightarrow> nat" where
  "skip_word s p = (if p < length s \<and> at s p \<notin> set whitespace \<and> at s p \<notin> set symbols then skip_word s (p + 1) else p)"
  by pat_completeness auto
termination by (relation "measure (\<lambda>(s, p). length s - p)") auto

declare skip_white.simps [simp del] skip_word.simps [simp del]

abbreviation sym :: "char \<Rightarrow> byte" where "sym c \<equiv> of_char c"

text \<open>The kind of the token, its range and the start of the next one.\<close>

definition gettoken :: "cstring \<Rightarrow> nat \<Rightarrow> byte \<times> nat \<times> nat \<times> nat" where
  "gettoken s p =
     (let q = skip_white s p;
          c = at s q;
          (ret, eq) =
            (if c = 0 then (c, q)
             else if c \<in> {sym CHR ''|'', sym CHR ''('', sym CHR '')'', sym CHR '';'', sym CHR ''&'', sym CHR ''<''} then (c, q + 1)
             else if c = sym CHR ''>'' then (if at s (q + 1) = sym CHR ''>'' then (sym CHR ''+'', q + 2) else (c, q + 1))
             else (sym CHR ''a'', skip_word s q))
      in (ret, q, eq, skip_white s eq))"

definition peek :: "cstring \<Rightarrow> nat \<Rightarrow> cstring \<Rightarrow> nat \<times> bool" where
  "peek s p toks = (let p = skip_white s p in (p, at s p \<noteq> 0 \<and> at s p \<in> set toks))"

subsection \<open>Every token moves the parser on\<close>

lemma skip_white_ge: "p \<le> skip_white s p"
  by (induction s p rule: skip_white.induct) (subst skip_white.simps, auto)

lemma skip_word_ge: "p \<le> skip_word s p"
  by (induction s p rule: skip_word.induct) (subst skip_word.simps, auto)

lemma skip_white_le: "p \<le> length s \<Longrightarrow> skip_white s p \<le> length s"
  by (induction s p rule: skip_white.induct) (subst skip_white.simps, auto)

lemma skip_word_le: "p \<le> length s \<Longrightarrow> skip_word s p \<le> length s"
  by (induction s p rule: skip_word.induct) (subst skip_word.simps, auto)

lemma skip_white_idem [simp]: "skip_white s (skip_white s p) = skip_white s p"
proof (induction s p rule: skip_white.induct)
  case (1 s p)
  show ?case
  proof (cases "p < length s \<and> at s p \<in> set whitespace")
    case True
    then show ?thesis using 1 by (simp add: skip_white.simps[of s p])
  next
    case False
    then have "skip_white s p = p" by (subst skip_white.simps) auto
    then show ?thesis by simp
  qed
qed

lemma skip_white_stop: "\<not> (skip_white s p < length s \<and> at s (skip_white s p) \<in> set whitespace)"
  by (induction s p rule: skip_white.induct) (subst skip_white.simps, subst (2) skip_white.simps, auto)

lemma skip_word_stop:
  "\<not> (skip_word s p < length s \<and> at s (skip_word s p) \<notin> set whitespace \<and> at s (skip_word s p) \<notin> set symbols)"
  by (induction s p rule: skip_word.induct) (subst skip_word.simps, subst (2) skip_word.simps, subst (3) skip_word.simps, auto)

lemma at_pos: "at s p \<noteq> 0 \<Longrightarrow> p < length s"
  by (auto simp: at_def split: if_splits)

lemma in_symbols: "c \<in> set symbols \<longleftrightarrow> c \<in> {60, 124, 62, 38, 59, 40, 41}"
  by (simp add: symbols_def lit_def)

text \<open>A character that starts a token, symbol or word, is consumed.\<close>

lemma skip_word_gt:
  assumes "at s p \<noteq> 0" "at s p \<notin> set whitespace" "at s p \<notin> set symbols"
  shows "p < skip_word s p"
  using skip_word_ge[of "p + 1" s] at_pos[OF assms(1)] assms by (subst skip_word.simps) simp

lemma gettoken_bounds:
  assumes "p \<le> length s" "gettoken s p = (tok, q, eq, p')"
  shows "p \<le> q" "q \<le> eq" "eq \<le> p'" "p' \<le> length s" "tok \<noteq> 0 \<longrightarrow> q < eq"
proof -
  let ?q = "skip_white s p"
  have q: "q = ?q" and p': "p' = skip_white s eq" using assms(2) by (auto simp: gettoken_def Let_def split: prod.splits if_splits)
  have eq: "q \<le> eq \<and> eq \<le> length s \<and> (tok \<noteq> 0 \<longrightarrow> q < eq)"
  proof (cases "at s ?q = 0")
    case True
    then show ?thesis using assms skip_white_le[OF assms(1)] by (auto simp: gettoken_def Let_def)
  next
    case False
    then have l: "?q < length s" "at s ?q \<notin> set whitespace" using at_pos skip_white_stop by blast+
    show ?thesis
      using assms(2) False l skip_word_gt[OF False l(2)] skip_word_le[of ?q s] at_pos[of s "?q + 1"]
      by (auto simp: gettoken_def Let_def in_symbols split: if_splits)
  qed
  show "p \<le> q" "q \<le> eq" "eq \<le> p'" "p' \<le> length s" "tok \<noteq> 0 \<longrightarrow> q < eq"
    using q p' eq skip_white_ge skip_white_le by auto
qed

section \<open>The parser\<close>

text \<open>The loop over the ampersands behind a pipeline.\<close>

lemma peek_moves:
  assumes "peek s p toks = (p', True)" "gettoken s p' = (tok, q, eq, p'')"
  shows "p < p'' \<and> p'' \<le> length s"
proof -
  have p': "p' = skip_white s p" "at s p' \<noteq> 0" using assms(1) by (auto simp: peek_def Let_def)
  have "p' < length s" using at_pos p'(2) by blast
  moreover have "tok \<noteq> 0" using assms(2) p' by (auto simp: gettoken_def Let_def split: if_splits)
  ultimately show ?thesis
    using gettoken_bounds[of p' s, OF _ assms(2)] p'(1) skip_white_ge[of p s] by auto
qed

lemma token_measure:
  assumes "(p', b) = peek s p toks" "b" "(tok, q, eq, p'') = gettoken s p'"
  shows "length s - p'' < length s - p"
  using peek_moves[of s p toks p' tok q eq p''] assms by auto

lemma token_measure2:
  assumes "(p', b) = peek s p toks" "b" "(tok, q, eq, p'') = gettoken s p'" "(tok2, q2, eq2, p3) = gettoken s p''"
  shows "length s - p3 < length s - p"
  using token_measure[OF assms(1-3)] peek_moves[of s p toks p' tok q eq p''] gettoken_bounds[of p'' s tok2 q2 eq2 p3] assms by auto

function back_loop :: "cstring \<Rightarrow> span cmd \<Rightarrow> nat \<Rightarrow> span cmd \<times> nat" where
  "back_loop s cmd p =
     (case peek s p [sym CHR ''&''] of (p, b) \<Rightarrow>
        if b then (case gettoken s p of (_, _, _, p) \<Rightarrow> back_loop s (BACK cmd) p) else (cmd, p))"
  by pat_completeness auto
termination
  by (relation "measure (\<lambda>(s, cmd, p). length s - p)") (auto intro: token_measure)

declare back_loop.simps [simp del]

text \<open>The redirections behind a command or an argument.\<close>

function parseredirs :: "cstring \<Rightarrow> span cmd \<Rightarrow> nat \<Rightarrow> parse_error + span cmd \<times> nat" where
  "parseredirs s cmd p =
     (case peek s p [sym CHR ''<'', sym CHR ''>''] of (p, b) \<Rightarrow>
        if b then
          (case gettoken s p of (tok, _, _, p) \<Rightarrow>
           case gettoken s p of (tok2, q, eq, p) \<Rightarrow>
             if tok2 \<noteq> sym CHR ''a'' then Inl Missing_file
             else if tok = sym CHR ''<'' then parseredirs s (REDIR cmd (q, eq) O_RDONLY 0) p
             else if tok = sym CHR ''>'' then parseredirs s (REDIR cmd (q, eq) (O_WRONLY OR O_CREATE) 1) p
             else if tok = sym CHR ''+'' then parseredirs s (REDIR cmd (q, eq) (O_WRONLY OR O_CREATE) 1) p
             else parseredirs s cmd p)
        else Inr (cmd, p))"
  by pat_completeness auto
termination
  by (relation "measure (\<lambda>(s, cmd, p). length s - p)") (auto intro: token_measure2)

declare parseredirs.simps [simp del]

text \<open>
  The arguments of a simple command are stored in the node that \<^verbatim>\<open>execcmd\<close> made, which the
  redirections may already have wrapped.
\<close>

fun add_arg :: "'s cmd \<Rightarrow> 's \<Rightarrow> 's cmd" where
  "add_arg (EXEC args) a = EXEC (args @ [a])"
| "add_arg (REDIR c f m d) a = REDIR (add_arg c a) f m d"
| "add_arg c a = c"

function arg_loop :: "cstring \<Rightarrow> span cmd \<Rightarrow> nat \<Rightarrow> nat \<Rightarrow> parse_error + span cmd \<times> nat" where
  "arg_loop s ret argc p =
     (case peek s p [sym CHR ''|'', sym CHR '')'', sym CHR ''&'', sym CHR '';''] of (p, b) \<Rightarrow>
        if b then Inr (ret, p)
        else case gettoken s p of (tok, q, eq, p) \<Rightarrow>
          if tok = 0 then Inr (ret, p)
          else if tok \<noteq> sym CHR ''a'' then Inl Syntax
          else if argc + 1 \<ge> MAXARGS then Inl Too_many_args
          else case parseredirs s (add_arg ret (q, eq)) p of
            Inl e \<Rightarrow> Inl e
          | Inr (ret, p) \<Rightarrow> arg_loop s ret (argc + 1) p)"
  by pat_completeness auto
termination by (relation "measure (\<lambda>(s, ret, argc, p). MAXARGS - argc)") auto

declare arg_loop.simps [simp del]

type_synonym parsed = "(parse_error + span cmd \<times> nat) option"

definition pbind :: "parsed \<Rightarrow> (span cmd \<Rightarrow> nat \<Rightarrow> parsed) \<Rightarrow> parsed" where
  "pbind r f = (case r of None \<Rightarrow> None | Some (Inl e) \<Rightarrow> Some (Inl e) | Some (Inr (c, p)) \<Rightarrow> f c p)"

fun parseline :: "nat \<Rightarrow> cstring \<Rightarrow> nat \<Rightarrow> parsed"
  and parsepipe :: "nat \<Rightarrow> cstring \<Rightarrow> nat \<Rightarrow> parsed"
  and parseexec :: "nat \<Rightarrow> cstring \<Rightarrow> nat \<Rightarrow> parsed"
  and parseblock :: "nat \<Rightarrow> cstring \<Rightarrow> nat \<Rightarrow> parsed" where
  "parseline 0 s p = None"
| "parseline (Suc n) s p = pbind (parsepipe n s p) (\<lambda>cmd p.
     case back_loop s cmd p of (cmd, p) \<Rightarrow>
     case peek s p [sym CHR '';''] of (p, b) \<Rightarrow>
       if b then (case gettoken s p of (_, _, _, p) \<Rightarrow> pbind (parseline n s p) (\<lambda>r p. Some (Inr (LIST cmd r, p))))
       else Some (Inr (cmd, p)))"
| "parsepipe 0 s p = None"
| "parsepipe (Suc n) s p = pbind (parseexec n s p) (\<lambda>cmd p.
     case peek s p [sym CHR ''|''] of (p, b) \<Rightarrow>
       if b then (case gettoken s p of (_, _, _, p) \<Rightarrow> pbind (parsepipe n s p) (\<lambda>r p. Some (Inr (PIPE cmd r, p))))
       else Some (Inr (cmd, p)))"
| "parseexec 0 s p = None"
| "parseexec (Suc n) s p =
     (case peek s p [sym CHR ''(''] of (p, b) \<Rightarrow>
        if b then parseblock n s p
        else pbind (Some (parseredirs s (EXEC []) p)) (\<lambda>ret p. Some (arg_loop s ret 0 p)))"
| "parseblock 0 s p = None"
| "parseblock (Suc n) s p =
     (case peek s p [sym CHR ''(''] of (p, b) \<Rightarrow>
        if \<not> b then Some (Inl Parseblock)
        else case gettoken s p of (_, _, _, p) \<Rightarrow> pbind (parseline n s p) (\<lambda>cmd p.
          case peek s p [sym CHR '')''] of (p, b) \<Rightarrow>
            if \<not> b then Some (Inl Missing_paren)
            else case gettoken s p of (_, _, _, p) \<Rightarrow> Some (parseredirs s cmd p)))"

text \<open>Ending the strings in the line itself.\<close>

fun nulterminate_args :: "span list \<Rightarrow> memory \<Rightarrow> memory option" where
  "nulterminate_args [] buf = Some buf"
| "nulterminate_args ((q, eq) # args) buf = do { buf \<leftarrow> wr buf (int eq) 0; nulterminate_args args buf }"

fun nulterminate :: "span cmd \<Rightarrow> memory \<Rightarrow> memory option" where
  "nulterminate (EXEC args) buf = nulterminate_args args buf"
| "nulterminate (REDIR c (q, efile) m d) buf = do { buf \<leftarrow> nulterminate c buf; wr buf (int efile) 0 }"
| "nulterminate (PIPE l r) buf = do { buf \<leftarrow> nulterminate l buf; nulterminate r buf }"
| "nulterminate (LIST l r) buf = do { buf \<leftarrow> nulterminate l buf; nulterminate r buf }"
| "nulterminate (BACK c) buf = nulterminate c buf"

definition parse_fuel :: "cstring \<Rightarrow> nat" where
  "parse_fuel s = 4 * length s + 4"

definition parsecmd :: "cstring \<Rightarrow> (parse_error + span cmd \<times> memory) option" where
  "parsecmd s = do {
     r \<leftarrow> parseline (parse_fuel s) s 0;
     (case r of
        Inl e \<Rightarrow> Some (Inl e)
      | Inr (cmd, p) \<Rightarrow>
          if fst (peek s p []) \<noteq> length s then Some (Inl Leftovers)
          else do { buf \<leftarrow> nulterminate cmd (s @ [0]); Some (Inr (cmd, buf)) })
   }"

section \<open>Ranges of a parsed command\<close>

text \<open>A string of a command is a longest run of word characters of the line.\<close>

definition delim :: "cstring \<Rightarrow> nat \<Rightarrow> bool" where
  "delim s p \<longleftrightarrow> p \<ge> length s \<or> s ! p \<in> set whitespace \<or> s ! p \<in> set symbols"

definition word_at :: "cstring \<Rightarrow> span \<Rightarrow> bool" where
  "word_at s sp \<longleftrightarrow> fst sp < snd sp \<and> snd sp \<le> length s \<and> delim s (snd sp) \<and> (\<forall>i. fst sp \<le> i \<and> i < snd sp \<longrightarrow> \<not> delim s i)"

fun base_args :: "'s cmd \<Rightarrow> 's list" where
  "base_args (EXEC args) = args"
| "base_args (REDIR c f m d) = base_args c"
| "base_args c = []"

fun exec_based :: "'s cmd \<Rightarrow> bool" where
  "exec_based (EXEC args) = True"
| "exec_based (REDIR c f m d) = exec_based c"
| "exec_based c = False"

text \<open>The shape that the rest of the shell relies on: few enough arguments, and the two kinds of redirection.\<close>

definition redir_ok :: "int \<Rightarrow> int \<Rightarrow> bool" where
  "redir_ok m d \<longleftrightarrow> m = O_RDONLY \<and> d = 0 \<or> m = O_WRONLY OR O_CREATE \<and> d = 1"

fun shape_ok :: "'s cmd \<Rightarrow> bool" where
  "shape_ok (EXEC args) \<longleftrightarrow> length args < MAXARGS"
| "shape_ok (REDIR c f m d) \<longleftrightarrow> shape_ok c \<and> redir_ok m d"
| "shape_ok (PIPE l r) \<longleftrightarrow> shape_ok l \<and> shape_ok r"
| "shape_ok (LIST l r) \<longleftrightarrow> shape_ok l \<and> shape_ok r"
| "shape_ok (BACK c) \<longleftrightarrow> shape_ok c"

definition cmd_ok :: "cstring \<Rightarrow> span cmd \<Rightarrow> bool" where
  "cmd_ok s c \<longleftrightarrow> shape_ok c \<and> (\<forall>sp \<in> set_cmd c. word_at s sp)"

lemma cmd_ok_simps [simp]:
  "cmd_ok s (EXEC args) \<longleftrightarrow> length args < MAXARGS \<and> (\<forall>sp \<in> set args. word_at s sp)"
  "cmd_ok s (REDIR c f m d) \<longleftrightarrow> cmd_ok s c \<and> word_at s f \<and> redir_ok m d"
  "cmd_ok s (PIPE l r) \<longleftrightarrow> cmd_ok s l \<and> cmd_ok s r"
  "cmd_ok s (LIST l r) \<longleftrightarrow> cmd_ok s l \<and> cmd_ok s r"
  "cmd_ok s (BACK c) \<longleftrightarrow> cmd_ok s c"
  by (auto simp: cmd_ok_def)

lemma skip_word_inside: "p \<le> i \<Longrightarrow> i < skip_word s p \<Longrightarrow> \<not> delim s i"
proof (induction s p rule: skip_word.induct)
  case (1 s p)
  show ?case
  proof (cases "p < length s \<and> at s p \<notin> set whitespace \<and> at s p \<notin> set symbols")
    case True
    then have "skip_word s p = skip_word s (p + 1)" by (subst skip_word.simps) simp
    moreover have "\<not> delim s p" using True by (auto simp: delim_def at_def)
    ultimately show ?thesis using 1 True by (cases "i = p") auto
  next
    case False
    then have "skip_word s p = p" by (subst skip_word.simps) auto
    then show ?thesis using 1 by simp
  qed
qed

lemma gettoken_word:
  assumes "p \<le> length s" "gettoken s p = (sym CHR ''a'', q, eq, p')"
  shows "word_at s (q, eq)"
proof -
  have q: "q = skip_white s p" "eq = skip_word s q" using assms(2) by (auto simp: gettoken_def Let_def split: if_splits)
  note b = gettoken_bounds[OF assms]
  have "delim s eq" using skip_word_stop[of s q] q(2) by (auto simp: delim_def at_def)
  then show ?thesis using b q skip_word_inside by (auto simp: word_at_def)
qed

text \<open>The result of a parsing step that started at \<open>p\<close>.\<close>

definition res_ok :: "cstring \<Rightarrow> nat \<Rightarrow> parse_error + span cmd \<times> nat \<Rightarrow> bool" where
  "res_ok s p r \<longleftrightarrow> (case r of Inl e \<Rightarrow> True | Inr (c, p') \<Rightarrow> p \<le> p' \<and> p' \<le> length s \<and> cmd_ok s c)"

lemma res_ok_Inl [simp]: "res_ok s p (Inl e)"
  by (simp add: res_ok_def)

lemma res_ok_Inr [simp]: "res_ok s p (Inr (c, p')) \<longleftrightarrow> p \<le> p' \<and> p' \<le> length s \<and> cmd_ok s c"
  by (simp add: res_ok_def)

lemma res_ok_mono: "res_ok s p r \<Longrightarrow> p0 \<le> p \<Longrightarrow> res_ok s p0 r"
  by (auto simp: res_ok_def split: sum.splits)

lemma peek_bounds: "p \<le> length s \<Longrightarrow> peek s p toks = (p', b) \<Longrightarrow> p \<le> p' \<and> p' \<le> length s"
  using skip_white_ge skip_white_le by (auto simp: peek_def Let_def)

lemma back_loop_ok: "p \<le> length s \<Longrightarrow> cmd_ok s c \<Longrightarrow> res_ok s p (Inr (back_loop s c p))"
proof (induction s c p rule: back_loop.induct)
  case (1 s c p)
  obtain p1 b where k: "peek s p [sym CHR ''&''] = (p1, b)" by fastforce
  obtain tok q eq p2 where g: "gettoken s p1 = (tok, q, eq, p2)" by (metis prod_cases4)
  show ?case
  proof (cases b)
    case True
    with k g peek_moves have m: "p < p2" "p2 \<le> length s" by auto
    have "res_ok s p2 (Inr (back_loop s (BACK c) p2))" using 1(1)[OF k[symmetric] True g[symmetric]] 1 m by simp
    then show ?thesis using res_ok_mono m k g True by (subst back_loop.simps) simp
  next
    case False
    then show ?thesis using peek_bounds[OF 1(2) k] k 1(3) by (subst back_loop.simps) simp
  qed
qed

lemma parseredirs_ok:
  "p \<le> length s \<Longrightarrow> cmd_ok s c \<Longrightarrow> res_ok s p (parseredirs s c p) \<and>
   (\<forall>c' p'. parseredirs s c p = Inr (c', p') \<longrightarrow> base_args c' = base_args c \<and> exec_based c' = exec_based c)"
proof (induction s c p rule: parseredirs.induct)
  case (1 s c p)
  obtain p1 b where k: "peek s p [sym CHR ''<'', sym CHR ''>''] = (p1, b)" by fastforce
  obtain tok q eq p2 where g: "gettoken s p1 = (tok, q, eq, p2)" by (metis prod_cases4)
  obtain tok2 q2 eq2 p3 where g2: "gettoken s p2 = (tok2, q2, eq2, p3)" by (metis prod_cases4)
  show ?case
  proof (cases b)
    case True
    with k g peek_moves have m: "p < p2" "p2 \<le> length s" by auto
    note b2 = gettoken_bounds[OF m(2) g2]
    show ?thesis
    proof (cases "tok2 = sym CHR ''a''")
      case a: True
      have w: "word_at s (q2, eq2)" using gettoken_word m(2) g2 a by blast
      note ih = 1(1-4)[OF k[symmetric] True g[symmetric] refl refl g2[symmetric] refl refl]
      have le: "p \<le> p3" using m b2 by simp
      have e: "parseredirs s c p =
          (if tok = sym CHR ''<'' then parseredirs s (REDIR c (q2, eq2) O_RDONLY 0) p3
           else if tok = sym CHR ''>'' then parseredirs s (REDIR c (q2, eq2) (O_WRONLY OR O_CREATE) 1) p3
           else if tok = sym CHR ''+'' then parseredirs s (REDIR c (q2, eq2) (O_WRONLY OR O_CREATE) 1) p3
           else parseredirs s c p3)"
        using a k g g2 True by (subst parseredirs.simps) simp
      have "cmd_ok s (REDIR c (q2, eq2) O_RDONLY 0)" "cmd_ok s (REDIR c (q2, eq2) (O_WRONLY OR O_CREATE) 1)"
        using w 1(6) by (simp_all add: redir_ok_def)
      note ok = this
      consider (lt) "tok = sym CHR ''<''" | (gt) "tok = sym CHR ''>''" | (plus) "tok = sym CHR ''+''"
        | (other) "tok \<noteq> sym CHR ''<''" "tok \<noteq> sym CHR ''>''" "tok \<noteq> sym CHR ''+''" by blast
      then show ?thesis
      proof cases
        case lt
        show ?thesis using ih(1)[OF _ lt b2(4) ok(1)] res_ok_mono[OF _ le] a lt unfolding e by simp
      next
        case gt
        show ?thesis using ih(2)[OF _ _ gt b2(4) ok(2)] res_ok_mono[OF _ le] a gt unfolding e by simp
      next
        case plus
        show ?thesis using ih(3)[OF _ _ _ plus b2(4) ok(2)] res_ok_mono[OF _ le] a plus unfolding e by simp
      next
        case other
        show ?thesis using ih(4)[OF _ other b2(4) 1(6)] res_ok_mono[OF _ le] a other unfolding e by simp
      qed
    next
      case False
      then show ?thesis using k g g2 True by (subst (1 2) parseredirs.simps) simp
    qed
  next
    case False
    then show ?thesis using peek_bounds[OF _ k] k 1(5,6) by (subst (1 2) parseredirs.simps) simp
  qed
qed

lemma add_arg_facts:
  "exec_based c \<Longrightarrow> exec_based (add_arg c a) \<and> base_args (add_arg c a) = base_args c @ [a]"
  by (induction c a rule: add_arg.induct) auto

lemma add_arg_ok:
  "exec_based c \<Longrightarrow> cmd_ok s c \<Longrightarrow> word_at s a \<Longrightarrow> length (base_args c) + 1 < MAXARGS \<Longrightarrow> cmd_ok s (add_arg c a)"
  by (induction c a rule: add_arg.induct) auto

lemma arg_loop_ok:
  "p \<le> length s \<Longrightarrow> cmd_ok s c \<Longrightarrow> exec_based c \<Longrightarrow> length (base_args c) = argc \<Longrightarrow> res_ok s p (arg_loop s c argc p)"
proof (induction s c argc p rule: arg_loop.induct)
  case (1 s c argc p)
  obtain p1 b where k: "peek s p [sym CHR ''|'', sym CHR '')'', sym CHR ''&'', sym CHR '';''] = (p1, b)" by fastforce
  obtain tok q eq p2 where g: "gettoken s p1 = (tok, q, eq, p2)" by (metis prod_cases4)
  note b1 = peek_bounds[OF 1(2) k]
  then have b2: "p1 \<le> p2" "p2 \<le> length s" using gettoken_bounds[OF _ g] by auto
  show ?case
  proof (cases "b \<or> tok \<noteq> sym CHR ''a'' \<or> argc + 1 \<ge> MAXARGS")
    case True
    then show ?thesis using b1 b2 1(3) k g by (subst arg_loop.simps) auto
  next
    case False
    then have w: "word_at s (q, eq)" using gettoken_word b1 g by blast
    let ?c = "add_arg c (q, eq)"
    have c: "cmd_ok s ?c" "exec_based ?c" "length (base_args ?c) = argc + 1"
      using add_arg_ok[OF 1(4,3) w] add_arg_facts[OF 1(4)] 1(5) False by auto
    note r = parseredirs_ok[OF b2(2) c(1)]
    show ?thesis
    proof (cases "parseredirs s ?c p2")
      case (Inl e)
      then show ?thesis using False k g by (subst arg_loop.simps) simp
    next
      case (Inr x)
      obtain c' p3 where x: "x = (c', p3)" by fastforce
      have "res_ok s p3 (arg_loop s c' (argc + 1) p3)"
        using 1(1)[OF k[symmetric] _ g[symmetric] refl refl _ _ _ Inr x[symmetric]] False r c Inr x by simp
      then show ?thesis using False k g Inr x r b1 b2 res_ok_mono[of s p3 _ p] by (subst arg_loop.simps) simp
    qed
  qed
qed

text \<open>What the four routines have in common.\<close>

definition sound :: "cstring \<Rightarrow> nat \<Rightarrow> parsed \<Rightarrow> bool" where
  "sound s p r \<longleftrightarrow> (\<forall>x. r = Some x \<longrightarrow> res_ok s p x)"

lemma sound_simps [simp]: "sound s p None" "sound s p (Some r) \<longleftrightarrow> res_ok s p r"
  by (simp_all add: sound_def)

lemma sound_pbind:
  "sound s p r \<Longrightarrow> (\<And>c p'. p \<le> p' \<Longrightarrow> p' \<le> length s \<Longrightarrow> cmd_ok s c \<Longrightarrow> sound s p (f c p')) \<Longrightarrow> sound s p (pbind r f)"
  by (auto simp: sound_def pbind_def split: option.splits sum.splits prod.splits)

lemma sound_mono: "sound s p r \<Longrightarrow> p0 \<le> p \<Longrightarrow> sound s p0 r"
  by (auto simp: sound_def intro: res_ok_mono)

lemma gettoken_mono: "p \<le> length s \<Longrightarrow> gettoken s p = (tok, q, eq, p') \<Longrightarrow> p \<le> p' \<and> p' \<le> length s"
  using gettoken_bounds[of p s tok q eq p'] by linarith

lemma sound_peek:
  assumes "p \<le> length s" "\<And>p' b. p \<le> p' \<Longrightarrow> p' \<le> length s \<Longrightarrow> sound s p0 (f p' b)"
  shows "sound s p0 (case peek s p toks of (p, b) \<Rightarrow> f p b)"
  using assms peek_bounds[OF assms(1), of toks] by (cases "peek s p toks") simp

lemma sound_token:
  assumes "p \<le> length s" "\<And>tok q eq p'. p \<le> p' \<Longrightarrow> p' \<le> length s \<Longrightarrow> sound s p0 (f tok q eq p')"
  shows "sound s p0 (case gettoken s p of (tok, q, eq, p) \<Rightarrow> f tok q eq p)"
  using assms gettoken_mono[OF assms(1)] by (cases "gettoken s p" rule: prod_cases4) simp

lemma sound_back:
  assumes "p \<le> length s" "cmd_ok s c" "\<And>c' p'. p \<le> p' \<Longrightarrow> p' \<le> length s \<Longrightarrow> cmd_ok s c' \<Longrightarrow> sound s p0 (f c' p')"
  shows "sound s p0 (case back_loop s c p of (c, p) \<Rightarrow> f c p)"
  using assms(3) back_loop_ok[OF assms(1,2)] by (cases "back_loop s c p") simp

lemma sound_if: "(b \<Longrightarrow> sound s p x) \<Longrightarrow> (\<not> b \<Longrightarrow> sound s p y) \<Longrightarrow> sound s p (if b then x else y)"
  by simp

lemmas sound_steps = sound_peek sound_token sound_back sound_if

lemma sound_redirs: "q \<le> length s \<Longrightarrow> cmd_ok s c \<Longrightarrow> p \<le> q \<Longrightarrow> sound s p (Some (parseredirs s c q))"
  using parseredirs_ok res_ok_mono by simp blast

lemma sound_simple:
  assumes "p \<le> length s"
  shows "sound s p (pbind (Some (parseredirs s (EXEC []) p)) (\<lambda>ret p. Some (arg_loop s ret 0 p)))"
proof (cases "parseredirs s (EXEC []) p")
  case (Inr x)
  obtain c q where x: "x = (c, q)" by fastforce
  from parseredirs_ok[OF assms, of "EXEC []"] Inr x
  have "p \<le> q" "q \<le> length s" "cmd_ok s c" "exec_based c" "base_args c = []" by (simp_all add: MAXARGS_def)
  with arg_loop_ok[of q s c 0] have "res_ok s p (arg_loop s c 0 q)" using res_ok_mono by simp
  then show ?thesis using Inr x by (simp add: pbind_def)
qed (simp add: pbind_def)

lemma parse_sound:
  "p \<le> length s \<Longrightarrow> sound s p (parseline n s p)"
  "p \<le> length s \<Longrightarrow> sound s p (parsepipe n s p)"
  "p \<le> length s \<Longrightarrow> sound s p (parseexec n s p)"
  "p \<le> length s \<Longrightarrow> sound s p (parseblock n s p)"
proof (induction n arbitrary: p)
  case (Suc n)
  {
    case 1
    show ?case unfolding parseline.simps
      by (intro sound_pbind[OF Suc.IH(2)[OF 1]] sound_steps sound_pbind[OF sound_mono[OF Suc.IH(1)]]) auto
  next
    case 2
    show ?case unfolding parsepipe.simps
      by (intro sound_pbind[OF Suc.IH(3)[OF 2]] sound_steps sound_pbind[OF sound_mono[OF Suc.IH(2)]]) (use 2 in auto)
  next
    case 3
    show ?case unfolding parseexec.simps
      by (intro sound_steps sound_mono[OF Suc.IH(4)] sound_mono[OF sound_simple]) (use 3 in auto)
  next
    case 4
    show ?case unfolding parseblock.simps
      by (intro sound_steps sound_pbind[OF sound_mono[OF Suc.IH(1)]] sound_redirs) (use 4 in auto)
  }
qed simp_all

section \<open>The parser ends\<close>

lemma total_pbind:
  "r \<noteq> None \<Longrightarrow> sound s p r \<Longrightarrow> (\<And>c p'. p \<le> p' \<Longrightarrow> p' \<le> length s \<Longrightarrow> cmd_ok s c \<Longrightarrow> f c p' \<noteq> None) \<Longrightarrow> pbind r f \<noteq> None"
  by (fastforce simp: sound_def pbind_def split: option.splits sum.splits prod.splits)

lemma total_pbind_last: "r \<noteq> None \<Longrightarrow> (\<And>c p'. f c p' \<noteq> None) \<Longrightarrow> pbind r f \<noteq> None"
  by (auto simp: pbind_def split: option.splits sum.splits)

lemma total_token:
  assumes "\<And>p'. p < p' \<Longrightarrow> p' \<le> length s \<Longrightarrow> f p' \<noteq> None" "\<And>p'. g p' \<noteq> None"
  shows "(case peek s p toks of (p, b) \<Rightarrow> if b then (case gettoken s p of (tok, q, eq, p) \<Rightarrow> f p) else g p) \<noteq> None"
proof (cases "peek s p toks")
  case (Pair p' b)
  then show ?thesis using assms peek_moves[of s p toks p']
    by (cases "gettoken s p'" rule: prod_cases4) auto
qed

lemma total_back:
  assumes "p \<le> length s" "cmd_ok s c" "\<And>c' p'. p \<le> p' \<Longrightarrow> p' \<le> length s \<Longrightarrow> f c' p' \<noteq> None"
  shows "(case back_loop s c p of (c, p) \<Rightarrow> f c p) \<noteq> None"
  using assms(3) back_loop_ok[OF assms(1,2)] by (cases "back_loop s c p") simp

lemma parse_total:
  "p \<le> length s \<Longrightarrow> 4 * (length s - p) + 4 \<le> n \<Longrightarrow> parseline n s p \<noteq> None"
  "p \<le> length s \<Longrightarrow> 4 * (length s - p) + 3 \<le> n \<Longrightarrow> parsepipe n s p \<noteq> None"
  "p \<le> length s \<Longrightarrow> 4 * (length s - p) + 2 \<le> n \<Longrightarrow> parseexec n s p \<noteq> None"
  "p \<le> length s \<Longrightarrow> 4 * (length s - p) + 1 \<le> n \<Longrightarrow> parseblock n s p \<noteq> None"
proof (induction n arbitrary: p)
  case (Suc n)
  {
    case 1
    have r: "parsepipe n s p \<noteq> None" using Suc.IH(2)[of p] 1 by simp
    have l: "parseline n s q \<noteq> None" if "p < q" "q \<le> length s" for q using Suc.IH(1)[of q] 1 that by linarith
    show ?case unfolding parseline.simps
      by (rule total_pbind[OF r parse_sound(2)[OF 1(1)]], rule total_back, assumption, assumption, rule total_token, rule total_pbind_last, rule l)
        simp_all
  next
    case 2
    have r: "parseexec n s p \<noteq> None" using Suc.IH(3)[of p] 2 by simp
    have l: "parsepipe n s q \<noteq> None" if "p < q" "q \<le> length s" for q using Suc.IH(2)[of q] 2 that by linarith
    show ?case unfolding parsepipe.simps
      by (rule total_pbind[OF r parse_sound(3)[OF 2(1)]], rule total_token, rule total_pbind_last, rule l)
        simp_all
  next
    case 3
    obtain q b where k: "peek s p [sym CHR ''(''] = (q, b)" by fastforce
    then have q: "p \<le> q" "q \<le> length s" using peek_bounds[OF 3(1)] by auto
    then have "parseblock n s q \<noteq> None" using Suc.IH(4)[of q] 3 by linarith
    then show ?case using k by (simp add: pbind_def split: sum.splits)
  next
    case 4
    obtain q b where k: "peek s p [sym CHR ''(''] = (q, b)" by fastforce
    obtain tok a e q' where g: "gettoken s q = (tok, a, e, q')" by (metis prod_cases4)
    show ?case
    proof (cases b)
      case True
      with peek_moves[of s p _ q tok a e q'] k g have "p < q'" "q' \<le> length s" by auto
      then have "parseline n s q' \<noteq> None" using Suc.IH(1)[of q'] 4 by linarith
      then show ?thesis using k g True by (auto intro!: total_pbind_last[simplified not_None_eq] split: prod.splits)
    qed (use k in simp)
  }
qed simp_all

text \<open>More fuel gives the same result.\<close>

definition fuel_le :: "'a option \<Rightarrow> 'a option \<Rightarrow> bool" where
  "fuel_le r r' \<longleftrightarrow> r = None \<or> r' = r"

lemma fuel_le_refl [simp]: "fuel_le r r"
  by (simp add: fuel_le_def)

lemma fuel_le_pbind: "fuel_le r r' \<Longrightarrow> (\<And>c p. fuel_le (f c p) (f' c p)) \<Longrightarrow> fuel_le (pbind r f) (pbind r' f')"
  by (auto simp: fuel_le_def pbind_def split: option.splits sum.splits)

lemma fuel_le_if: "fuel_le x x' \<Longrightarrow> fuel_le y y' \<Longrightarrow> fuel_le (if b then x else y) (if b then x' else y')"
  by simp

lemma fuel_le_pair: "(\<And>a b. fuel_le (f a b) (f' a b)) \<Longrightarrow> fuel_le (case x of (a, b) \<Rightarrow> f a b) (case x of (a, b) \<Rightarrow> f' a b)"
  by (cases x) simp

lemmas fuel_le_steps = fuel_le_if fuel_le_pair

lemma fuel_step:
  "fuel_le (parseline n s p) (parseline (Suc n) s p)"
  "fuel_le (parsepipe n s p) (parsepipe (Suc n) s p)"
  "fuel_le (parseexec n s p) (parseexec (Suc n) s p)"
  "fuel_le (parseblock n s p) (parseblock (Suc n) s p)"
proof (induction n arbitrary: p)
  case (Suc n)
  {
    case 1
    show ?case
      unfolding parseline.simps(2)[of n s p] parseline.simps(2)[of "Suc n" s p] by (intro fuel_le_pbind Suc.IH fuel_le_steps fuel_le_refl)
  next
    case 2
    show ?case
      unfolding parsepipe.simps(2)[of n s p] parsepipe.simps(2)[of "Suc n" s p] by (intro fuel_le_pbind Suc.IH fuel_le_steps fuel_le_refl)
  next
    case 3
    show ?case
      unfolding parseexec.simps(2)[of n s p] parseexec.simps(2)[of "Suc n" s p] by (intro fuel_le_pbind Suc.IH fuel_le_steps fuel_le_refl)
  next
    case 4
    show ?case
      unfolding parseblock.simps(2)[of n s p] parseblock.simps(2)[of "Suc n" s p] by (intro fuel_le_pbind Suc.IH fuel_le_steps fuel_le_refl)
  }
qed (simp_all add: fuel_le_def)

lemma fuel_more: "parseline n s p \<noteq> None \<Longrightarrow> parseline (n + k) s p = parseline n s p"
proof (induction k)
  case (Suc k)
  then show ?case using fuel_step(1)[of "n + k" s p] by (simp add: fuel_le_def del: not_None_eq parseline.simps)
qed simp

section \<open>Ending the strings\<close>

definition ends :: "span set \<Rightarrow> nat set" where
  "ends A = snd ` A"

definition cut_at :: "nat set \<Rightarrow> memory \<Rightarrow> memory \<Rightarrow> bool" where
  "cut_at E buf buf' \<longleftrightarrow> length buf' = length buf \<and> (\<forall>i < length buf. buf' ! i = (if i \<in> E then 0 else buf ! i))"

lemma cut_at_trans: "cut_at E a b \<Longrightarrow> cut_at F b c \<Longrightarrow> cut_at (E \<union> F) a c"
  by (auto simp: cut_at_def)

lemma cut_at_wr: "i < length buf \<Longrightarrow> \<exists>buf'. wr buf (int i) 0 = Some buf' \<and> cut_at {i} buf buf'"
  by (auto simp: cut_at_def nth_list_update)

lemma nulterminate_args_cut:
  "\<forall>sp \<in> set args. snd sp < length buf \<Longrightarrow> \<exists>buf'. nulterminate_args args buf = Some buf' \<and> cut_at (ends (set args)) buf buf'"
proof (induction args buf rule: nulterminate_args.induct)
  case (1 buf)
  then show ?case by (simp add: cut_at_def ends_def)
next
  case (2 q eq args buf)
  then obtain b1 where b1: "wr buf (int eq) 0 = Some b1" "cut_at {eq} buf b1" using cut_at_wr[of eq buf] by auto
  then have "length b1 = length buf" by (simp add: cut_at_def)
  with 2 b1 obtain b2 where b2: "nulterminate_args args b1 = Some b2" "cut_at (ends (set args)) b1 b2" by auto
  have e: "ends (set ((q, eq) # args)) = {eq} \<union> ends (set args)" by (simp add: ends_def)
  show ?case using b1(1) b2(1) cut_at_trans[OF b1(2) b2(2)] unfolding e by simp
qed

lemma nulterminate_cut:
  "\<forall>sp \<in> set_cmd c. snd sp < length buf \<Longrightarrow> \<exists>buf'. nulterminate c buf = Some buf' \<and> cut_at (ends (set_cmd c)) buf buf'"
proof (induction c buf rule: nulterminate.induct)
  case (1 args buf)
  then show ?case using nulterminate_args_cut by simp
next
  case (2 c q eq m d buf)
  then obtain b1 where b1: "nulterminate c buf = Some b1" "cut_at (ends (set_cmd c)) buf b1" by auto
  then have "eq < length b1" using 2 by (simp add: cut_at_def)
  from cut_at_wr[OF this] obtain b2 where b2: "wr b1 (int eq) 0 = Some b2" "cut_at {eq} b1 b2" by auto
  have e: "ends (set_cmd (REDIR c (q, eq) m d)) = ends (set_cmd c) \<union> {eq}" by (simp add: ends_def)
  show ?case using b1(1) b2(1) cut_at_trans[OF b1(2) b2(2)] unfolding e by simp
next
  case (3 l r buf)
  then obtain b1 where b1: "nulterminate l buf = Some b1" "cut_at (ends (set_cmd l)) buf b1" by auto
  then have "length b1 = length buf" by (simp add: cut_at_def)
  with 3 b1 obtain b2 where b2: "nulterminate r b1 = Some b2" "cut_at (ends (set_cmd r)) b1 b2" by auto
  have e: "ends (set_cmd (PIPE l r)) = ends (set_cmd l) \<union> ends (set_cmd r)" by (simp add: ends_def image_Un)
  show ?case using b1(1) b2(1) cut_at_trans[OF b1(2) b2(2)] unfolding e by simp
next
  case (4 l r buf)
  then obtain b1 where b1: "nulterminate l buf = Some b1" "cut_at (ends (set_cmd l)) buf b1" by auto
  then have "length b1 = length buf" by (simp add: cut_at_def)
  with 4 b1 obtain b2 where b2: "nulterminate r b1 = Some b2" "cut_at (ends (set_cmd r)) b1 b2" by auto
  have e: "ends (set_cmd (LIST l r)) = ends (set_cmd l) \<union> ends (set_cmd r)" by (simp add: ends_def image_Un)
  show ?case using b1(1) b2(1) cut_at_trans[OF b1(2) b2(2)] unfolding e by simp
qed (simp add: ends_def)

text \<open>No end of a string lies inside of another one.\<close>

lemma word_after_cut:
  assumes "0 \<notin> set s" "\<forall>sp \<in> A. word_at s sp" "cut_at (ends A) (s @ [0]) buf" "(q, e) \<in> A"
  shows "cstr (drop q buf) = range_of s q (e - q)"
proof -
  have w: "word_at s (q, e)" using assms(2,4) by blast
  have l: "length buf = length s + 1" using assms(3) by (simp add: cut_at_def)
  have inside: "buf ! i = s ! i" if "q \<le> i" "i < e" for i
  proof -
    have "i < length s" "\<not> delim s i" using w that by (auto simp: word_at_def)
    moreover have "i \<notin> ends A" using assms(2) calculation(2) by (auto simp: ends_def word_at_def)
    ultimately show ?thesis using assms(3) by (simp add: cut_at_def nth_append)
  qed
  have "buf ! e = 0" using assms(3,4) w by (force simp: cut_at_def ends_def word_at_def)
  moreover have "range_of buf q (e - q) = range_of s q (e - q)"
    using w l inside by (auto simp: range_of_def word_at_def intro!: nth_equalityI)
  moreover have "0 \<notin> set (range_of s q (e - q))" using assms(1) by (auto simp: range_of_def dest: in_set_takeD in_set_dropD)
  ultimately have "string_at buf q (range_of s q (e - q))" using w l by (simp add: string_at_def word_at_def)
  then show ?thesis by (rule cstr_string)
qed

lemma cmd_ok_ends: "cmd_ok s c \<Longrightarrow> \<forall>sp \<in> set_cmd c. snd sp < length (s @ [0])"
  by (auto simp: cmd_ok_def word_at_def less_Suc_eq_le)

lemma parsecmd_cases:
  "\<exists>r. parsecmd s = Some r \<and>
     (case r of Inl e \<Rightarrow> True
      | Inr (c, buf) \<Rightarrow> cmd_ok s c \<and> cut_at (ends (set_cmd c)) (s @ [0]) buf \<and>
          (\<exists>p. parseline (parse_fuel s) s 0 = Some (Inr (c, p)) \<and> skip_white s p = length s))"
proof -
  have "parseline (parse_fuel s) s 0 \<noteq> None" by (rule parse_total) (simp_all add: parse_fuel_def)
  then obtain r where r: "parseline (parse_fuel s) s 0 = Some r" by blast
  then have ok: "res_ok s 0 r" using parse_sound(1)[of 0 s "parse_fuel s"] by simp
  show ?thesis
  proof (cases r)
    case (Inr x)
    obtain c p where x: "x = (c, p)" by fastforce
    have c: "cmd_ok s c" using ok Inr x by simp
    obtain buf where "nulterminate c (s @ [0]) = Some buf" "cut_at (ends (set_cmd c)) (s @ [0]) buf"
      using nulterminate_cut[OF cmd_ok_ends[OF c]] by blast
    then show ?thesis using r Inr x c by (auto simp: parsecmd_def peek_def Let_def)
  qed (use r in \<open>simp add: parsecmd_def\<close>)
qed

text \<open>
  C35: The parser ends on every line: it gives a command or one of its errors, no write for ending
  a string leaves the line, and the calls nest no deeper than four times the length of the line and
  four, since more fuel does not change the result.
\<close>

theorem parsecmd_total:
  "(\<exists>r. parsecmd s = Some r) \<and> (\<exists>r. parseline (parse_fuel s) s 0 = Some r \<and> parseline (parse_fuel s + k) s 0 = Some r)"
proof
  show "\<exists>r. parsecmd s = Some r" using parsecmd_cases[of s] by blast
  have "parseline (parse_fuel s) s 0 \<noteq> None" by (rule parse_total) (simp_all add: parse_fuel_def)
  then show "\<exists>r. parseline (parse_fuel s) s 0 = Some r \<and> parseline (parse_fuel s + k) s 0 = Some r"
    using fuel_more[of "parse_fuel s" s 0 k] by fastforce
qed

text \<open>
  C36: A command that the parser returns is well formed: a simple command has fewer than ten
  arguments, a redirection opens descriptor 0 for reading or descriptor 1 for writing, and every
  string of it, once the ends are written into the line, reads as the non-empty word of the line
  that it was parsed from: ending one string does not cut another one.
\<close>

theorem parsecmd_strings:
  assumes "0 \<notin> set s" "parsecmd s = Some (Inr (c, buf))"
  shows "shape_ok c \<and> (\<forall>(q, e) \<in> set_cmd c. word_at s (q, e) \<and> cstr (drop q buf) = range_of s q (e - q))"
proof -
  have c: "cmd_ok s c" "cut_at (ends (set_cmd c)) (s @ [0]) buf" using parsecmd_cases[of s] assms(2) by auto
  then show ?thesis using word_after_cut[OF assms(1) _ c(2)] by (auto simp: cmd_ok_def)
qed

theorem parsecmd_strings_witness:
  "shape_ok (PIPE (EXEC [(0, 2)]) (REDIR (EXEC [(3, 5)]) (7, 8) (O_WRONLY OR O_CREATE) 1 :: span cmd) ) \<and>
   cstr (drop 3 (lit ''ls'' @ [0] @ lit ''wc'' @ [0] @ lit ''>f'' @ [0])) = lit ''wc''"
proof -
  let ?s = "lit ''ls|wc >f''"
  let ?c = "PIPE (EXEC [(0, 2)]) (REDIR (EXEC [(3, 5)]) (7, 8) (O_WRONLY OR O_CREATE) 1) :: span cmd"
  let ?b = "lit ''ls'' @ [0] @ lit ''wc'' @ [0] @ lit ''>f'' @ [0]"
  have p: "parsecmd ?s = Some (Inr (?c, ?b))" by code_simp
  have "0 \<notin> set ?s" by code_simp
  from parsecmd_strings[OF this p] have a: "shape_ok ?c" and "cstr (drop 3 ?b) = range_of ?s 3 2" by auto
  moreover have "range_of ?s 3 2 = lit ''wc''" by code_simp
  ultimately show ?thesis by simp
qed

end
