(* ===== verification/Shell_Print.thy ===== *)
theory Shell_Print
  imports Shell
begin

text \<open>
  Every command of the shell can be written down: a printer for command trees, which puts parentheses
  where the grammar needs them, and the proof that the parser of \<^verbatim>\<open>Shell\<close> reads the printed
  line back as the same tree.
\<close>

section \<open>The printer\<close>

abbreviation space :: byte where "space \<equiv> 32"

definition tok :: "cstring \<Rightarrow> cstring" where
  "tok w = w @ [space]"

text \<open>
  The level says what the place in the line admits: 0 a simple command or a block, 1 a pipeline as
  well, 2 also a command in the background, 3 a list.
\<close>

definition paren :: "bool \<Rightarrow> cstring \<Rightarrow> cstring" where
  "paren b x = (if b then tok [sym CHR ''(''] @ x @ tok [sym CHR '')''] else x)"

primrec pr :: "cstring cmd \<Rightarrow> nat \<Rightarrow> cstring" where
  "pr (EXEC args) l = concat (map tok args)"
| "pr (REDIR c f m d) l = pr c 0 @ tok [if d = 0 then sym CHR ''<'' else sym CHR ''>''] @ tok f"
| "pr (PIPE a b) l = paren (l < 1) (pr a 0 @ tok [sym CHR ''|''] @ pr b 1)"
| "pr (BACK a) l = paren (l < 2) (pr a 2 @ tok [sym CHR ''&''])"
| "pr (LIST a b) l = paren (l < 3) (pr a 2 @ tok [sym CHR '';''] @ pr b 3)"

text \<open>A string of a command that can be a word of a line.\<close>

definition word :: "cstring \<Rightarrow> bool" where
  "word w \<longleftrightarrow> w \<noteq> [] \<and> (\<forall>c \<in> set w. c \<noteq> 0 \<and> c \<notin> set whitespace \<and> c \<notin> set symbols)"

definition printable :: "cstring cmd \<Rightarrow> bool" where
  "printable c \<longleftrightarrow> shape_ok c \<and> (\<forall>w \<in> set_cmd c. word w)"

lemma printable_simps [simp]:
  "printable (EXEC args) \<longleftrightarrow> length args < MAXARGS \<and> (\<forall>w \<in> set args. word w)"
  "printable (REDIR c f m d) \<longleftrightarrow> printable c \<and> word f \<and> redir_ok m d"
  "printable (PIPE a b) \<longleftrightarrow> printable a \<and> printable b"
  "printable (LIST a b) \<longleftrightarrow> printable a \<and> printable b"
  "printable (BACK a) \<longleftrightarrow> printable a"
  by (auto simp: printable_def)

text \<open>The texts of the ranges.\<close>

definition texts :: "cstring \<Rightarrow> span cmd \<Rightarrow> cstring cmd" where
  "texts s c = map_cmd (\<lambda>(q, e). range_of s q (e - q)) c"

lemma texts_simps [simp]:
  "texts s (EXEC args) = EXEC (map (\<lambda>(q, e). range_of s q (e - q)) args)"
  "texts s (REDIR c f m d) = REDIR (texts s c) (case f of (q, e) \<Rightarrow> range_of s q (e - q)) m d"
  "texts s (PIPE a b) = PIPE (texts s a) (texts s b)"
  "texts s (LIST a b) = LIST (texts s a) (texts s b)"
  "texts s (BACK a) = BACK (texts s a)"
  by (simp_all add: texts_def)

section \<open>Reading one token\<close>

text \<open>The rest of the line from \<open>p\<close> on starts with a token or is empty.\<close>

definition here :: "cstring \<Rightarrow> nat \<Rightarrow> cstring \<Rightarrow> bool" where
  "here s p x \<longleftrightarrow> p \<le> length s \<and> drop p s = x \<and> 0 \<notin> set x \<and> (x = [] \<or> hd x \<notin> set whitespace)"

lemma here_skip: "here s p x \<Longrightarrow> skip_white s p = p"
  by (subst skip_white.simps) (auto simp: here_def at_def hd_drop_conv_nth)

lemma here_at: "here s p x \<Longrightarrow> at s p = (if x = [] then 0 else hd x)"
  by (auto simp: here_def at_def hd_drop_conv_nth)

lemma here_peek: "here s p x \<Longrightarrow> peek s p toks = (p, x \<noteq> [] \<and> hd x \<in> set toks)"
proof -
  assume h: "here s p x"
  then have "x \<noteq> [] \<Longrightarrow> hd x \<noteq> 0" by (metis here_def hd_in_set)
  then show ?thesis using here_skip[OF h] here_at[OF h] by (auto simp: peek_def Let_def)
qed

text \<open>What follows a token in a printed line.\<close>

definition next_ok :: "cstring \<Rightarrow> bool" where
  "next_ok x \<longleftrightarrow> 0 \<notin> set x \<and> (x = [] \<or> hd x \<notin> set whitespace)"

lemma skip_space:
  assumes "p < length s" "drop p s = space # x" "next_ok x"
  shows "skip_white s p = p + 1 \<and> here s (p + 1) x"
proof -
  have d: "drop (p + 1) s = x" using assms(2) by (metis drop_drop add.commute drop_Suc_Cons drop0 plus_1_eq_Suc)
  then have h: "here s (p + 1) x" using assms by (simp add: here_def next_ok_def)
  have "at s p = space" using assms(1,2) by (simp add: at_def flip: hd_drop_conv_nth)
  then have "skip_white s p = skip_white s (p + 1)" using assms(1) by (subst skip_white.simps) (simp add: whitespace_def)
  then show ?thesis using here_skip[OF h] h by simp
qed

lemma here_drop:
  assumes "here s p (w @ space # x)"
  shows "p + length w < length s" "drop (p + length w) s = space # x"
proof -
  have d: "drop p s = w @ space # x" "p \<le> length s" using assms by (auto simp: here_def)
  then have "length s - p = length w + 1 + length x" by (metis length_drop length_append length_Cons add.assoc add_Suc plus_1_eq_Suc)
  then show "p + length w < length s" by simp
  have "drop (p + length w) s = drop (length w) (drop p s)" by (simp add: add.commute)
  then show "drop (p + length w) s = space # x" using d by simp
qed

lemma skip_word_word:
  assumes "\<forall>i. p \<le> i \<and> i < e \<longrightarrow> \<not> delim s i" "delim s e" "p \<le> e"
  shows "skip_word s p = e"
  using assms
proof (induction s p rule: skip_word.induct)
  case (1 s p)
  show ?case
  proof (cases "p = e")
    case True
    then show ?thesis using 1(3) by (subst skip_word.simps) (auto simp: delim_def at_def)
  next
    case False
    then have "\<not> delim s p" using 1 by auto
    then have n: "p < length s \<and> at s p \<notin> set whitespace \<and> at s p \<notin> set symbols" by (auto simp: delim_def at_def)
    then have "skip_word s p = skip_word s (p + 1)" by (subst skip_word.simps) simp
    also have "\<dots> = e" by (rule 1(1)[OF n]) (use 1 False in auto)
    finally show ?thesis .
  qed
qed

lemma word_nonsym: "word w \<Longrightarrow> hd w \<notin> set symbols \<and> hd w \<notin> set whitespace \<and> hd w \<noteq> 0 \<and> w \<noteq> []"
  by (auto simp: word_def)

lemma gettoken_tok:
  assumes "here s p (tok w @ x)" "word w" "next_ok x"
  shows "gettoken s p = (sym CHR ''a'', p, p + length w, p + length w + 1) \<and> here s (p + length w + 1) x \<and> range_of s p (length w) = w"
proof -
  have h: "here s p (w @ space # x)" using assms(1) by (simp add: tok_def)
  note d = here_drop[OF h]
  have s: "drop p s = w @ space # x" "p \<le> length s" using h by (auto simp: here_def)
  have r: "range_of s p (length w) = w" using s by (simp add: range_of_def)
  have i: "s ! (p + j) = w ! j" if "j < length w" for j
    using s that by (metis nth_append nth_drop)
  have "\<forall>i. p \<le> i \<and> i < p + length w \<longrightarrow> \<not> delim s i"
  proof (intro allI impI)
    fix k assume k: "p \<le> k \<and> k < p + length w"
    then have j: "k - p < length w" "p + (k - p) = k" by auto
    then have "s ! k \<in> set w" using i[OF j(1)] by simp
    then show "\<not> delim s k" using assms(2) d(1) k by (auto simp: delim_def word_def)
  qed
  moreover have "s ! (p + length w) = space" using d by (simp flip: hd_drop_conv_nth)
  then have "delim s (p + length w)" by (simp add: delim_def whitespace_def)
  ultimately have sw: "skip_word s p = p + length w" by (intro skip_word_word) auto
  have "at s p = hd w" using here_at[OF h] word_nonsym[OF assms(2)] by simp
  then have "gettoken s p = (sym CHR ''a'', p, p + length w, p + length w + 1)"
    using word_nonsym[OF assms(2)] here_skip[OF h] sw skip_space[OF d assms(3)] by (simp add: gettoken_def in_symbols)
  then show ?thesis using skip_space[OF d assms(3)] r by simp
qed

lemma gettoken_sym:
  assumes "here s p (tok [c] @ x)" "c \<in> set symbols" "next_ok x"
  shows "gettoken s p = (c, p, p + 1, p + 2) \<and> here s (p + 2) x"
proof -
  have h: "here s p ([c] @ space # x)" using assms(1) by (simp add: tok_def)
  note d = here_drop[OF h]
  have a: "at s p = c" "at s (p + 1) = space" using here_at[OF h] d by (simp_all add: at_def flip: hd_drop_conv_nth)
  have "c \<noteq> 0" using assms(2) by (auto simp: in_symbols)
  then have "gettoken s p = (c, p, p + 1, skip_white s (p + 1))"
    using assms(2) here_skip[OF h] a by (auto simp: gettoken_def in_symbols)
  then show ?thesis using skip_space[of "p + 1" s x] d assms(3) by simp
qed

section \<open>Loops of the parser\<close>

abbreviation text_of :: "cstring \<Rightarrow> span \<Rightarrow> cstring" where
  "text_of s sp \<equiv> (case sp of (q, e) \<Rightarrow> range_of s q (e - q))"

lemma next_ok_sym: "c \<in> set symbols \<Longrightarrow> next_ok x \<Longrightarrow> next_ok (tok [c] @ x)"
  by (auto simp: next_ok_def tok_def in_symbols whitespace_def)

lemma next_ok_word: "word w \<Longrightarrow> next_ok x \<Longrightarrow> next_ok (tok w @ x)"
  by (auto simp: next_ok_def tok_def word_def hd_append)

lemma syms: "sym CHR ''|'' \<in> set symbols" "sym CHR ''&'' \<in> set symbols" "sym CHR '';'' \<in> set symbols" "sym CHR ''('' \<in> set symbols"
  "sym CHR '')'' \<in> set symbols" "sym CHR ''<'' \<in> set symbols" "sym CHR ''>'' \<in> set symbols"
  by (simp_all add: in_symbols)

text \<open>The line goes on with one of the characters, or ends.\<close>

definition follows :: "byte set \<Rightarrow> cstring \<Rightarrow> bool" where
  "follows cs x \<longleftrightarrow> next_ok x \<and> (x = [] \<or> hd x \<in> cs)"

lemma follows_next: "follows cs x \<Longrightarrow> next_ok x"
  by (simp add: follows_def)

lemma follows_sym: "c \<in> set symbols \<Longrightarrow> c \<in> cs \<Longrightarrow> next_ok x \<Longrightarrow> follows cs (tok [c] @ x)"
  using next_ok_sym by (simp add: follows_def) (simp add: tok_def)

lemma follows_mono: "follows cs x \<Longrightarrow> cs \<subseteq> ds \<Longrightarrow> follows ds x"
  by (auto simp: follows_def)

lemma back_stop:
  assumes "here s p x" "x = [] \<or> hd x \<noteq> sym CHR ''&''"
  shows "back_loop s c p = (c, p)"
  using here_peek[OF assms(1)] assms(2) by (subst back_loop.simps) auto

lemma back_step:
  assumes "here s p (tok [sym CHR ''&''] @ x)" "next_ok x"
  shows "back_loop s c p = back_loop s (BACK c) (p + 2) \<and> here s (p + 2) x"
  using here_peek[OF assms(1)] gettoken_sym[OF assms(1) syms(2) assms(2)] by (subst back_loop.simps) (simp add: tok_def)

lemma redirs_stop:
  assumes "here s p x" "x = [] \<or> hd x \<notin> {sym CHR ''<'', sym CHR ''>''}"
  shows "parseredirs s c p = Inr (c, p)"
  using here_peek[OF assms(1)] assms(2) by (subst parseredirs.simps) auto

lemma redirs_step:
  assumes "here s p (tok [if d = 0 then sym CHR ''<'' else sym CHR ''>''] @ tok f @ x)" "word f" "next_ok x" "redir_ok m d"
  shows "\<exists>sp p'. parseredirs s c p = parseredirs s (REDIR c sp m d) p' \<and> here s p' x \<and> text_of s sp = f"
proof -
  let ?c = "if d = 0 then sym CHR ''<'' else sym CHR ''>'' :: byte"
  have c: "?c \<in> set symbols" using syms by simp
  note g1 = gettoken_sym[OF assms(1) c next_ok_word[OF assms(2,3)]]
  note g2 = gettoken_tok[OF conjunct2[OF g1] assms(2,3)]
  have "peek s p [sym CHR ''<'', sym CHR ''>''] = (p, True)" using here_peek[OF assms(1)] by (simp add: tok_def)
  then have "parseredirs s c p = parseredirs s (REDIR c (p + 2, p + 2 + length f) m d) (p + 2 + length f + 1)"
    using g1 g2 assms(4) by (subst parseredirs.simps) (auto simp: redir_ok_def)
  then show ?thesis using g2 by (intro exI[of _ "(p + 2, p + 2 + length f)"] exI[of _ "p + 2 + length f + 1"]) simp
qed

text \<open>The rest of a simple command: redirections, then arguments with redirections.\<close>

definition args_from :: "cstring \<Rightarrow> span cmd \<Rightarrow> nat \<Rightarrow> nat \<Rightarrow> parse_error + span cmd \<times> nat" where
  "args_from s c n p = (case parseredirs s c p of Inl e \<Rightarrow> Inl e | Inr (c, p) \<Rightarrow> arg_loop s c n p)"

lemma args_stop:
  assumes "here s p x" "follows {sym CHR ''|'', sym CHR ''&'', sym CHR '';'', sym CHR '')''} x"
  shows "args_from s c n p = Inr (c, p)"
proof -
  have "x = [] \<or> hd x \<notin> {sym CHR ''<'', sym CHR ''>''}" using assms(2) by (auto simp: follows_def)
  then have r: "parseredirs s c p = Inr (c, p)" by (rule redirs_stop[OF assms(1)])
  have e: "gettoken s p = (0, p, p, p)" if "x = []"
    using here_at[OF assms(1)] here_skip[OF assms(1)] that by (simp add: gettoken_def)
  have "arg_loop s c n p = Inr (c, p)"
    using here_peek[OF assms(1)] assms(2) e by (subst arg_loop.simps) (auto simp: follows_def)
  then show ?thesis using r by (simp add: args_from_def)
qed

lemma args_step:
  assumes "here s p (tok w @ x)" "word w" "next_ok x" "n + 1 < MAXARGS"
  shows "\<exists>sp p'. args_from s c n p = args_from s (add_arg c sp) (n + 1) p' \<and> here s p' x \<and> text_of s sp = w"
proof -
  note g = gettoken_tok[OF assms(1-3)]
  have h: "tok w @ x \<noteq> []" "hd (tok w @ x) \<notin> set symbols" using word_nonsym[OF assms(2)] by (simp_all add: tok_def)
  then have "parseredirs s c p = Inr (c, p)" by (intro redirs_stop[OF assms(1)]) (auto simp: in_symbols)
  moreover have "peek s p [sym CHR ''|'', sym CHR '')'', sym CHR ''&'', sym CHR '';''] = (p, False)"
    using here_peek[OF assms(1)] h by (simp add: in_symbols)
  then have "arg_loop s c n p = args_from s (add_arg c (p, p + length w)) (n + 1) (p + length w + 1)"
    using g assms(4) by (subst arg_loop.simps) (simp add: args_from_def cong: sum.case_cong)
  ultimately show ?thesis using g by (intro exI[of _ "(p, p + length w)"] exI[of _ "p + length w + 1"]) (simp add: args_from_def)
qed

lemma args_redir:
  assumes "here s p (tok [if d = 0 then sym CHR ''<'' else sym CHR ''>''] @ tok f @ x)" "word f" "next_ok x" "redir_ok m d"
  shows "\<exists>sp p'. args_from s c n p = args_from s (REDIR c sp m d) n p' \<and> here s p' x \<and> text_of s sp = f"
proof -
  obtain sp p' where r: "parseredirs s c p = parseredirs s (REDIR c sp m d) p'" "here s p' x" "text_of s sp = f"
    using redirs_step[OF assms] by blast
  show ?thesis unfolding args_from_def r(1) using r(2,3) by blast
qed

lemma args_words:
  "here s p (concat (map tok args) @ x) \<Longrightarrow> \<forall>w \<in> set args. word w \<Longrightarrow> next_ok x \<Longrightarrow> n + length args < MAXARGS \<Longrightarrow>
   \<exists>sps p'. args_from s (EXEC as) n p = args_from s (EXEC (as @ sps)) (n + length args) p' \<and> here s p' x \<and> map (text_of s) sps = args"
proof (induction args arbitrary: as n p)
  case Nil
  then show ?case by (intro exI[of _ "[]"] exI[of _ p]) simp
next
  case (Cons w args)
  have nx: "next_ok (concat (map tok args) @ x)" using Cons.prems(2,3)
    by (induction args) (auto intro: next_ok_word)
  obtain sp p1 where 1: "args_from s (EXEC as) n p = args_from s (EXEC (as @ [sp])) (n + 1) p1"
      "here s p1 (concat (map tok args) @ x)" "text_of s sp = w"
    using args_step[of s p w "concat (map tok args) @ x" n "EXEC as"] Cons.prems nx by auto
  obtain sps p2 where 2: "args_from s (EXEC (as @ [sp])) (n + 1) p1 = args_from s (EXEC ((as @ [sp]) @ sps)) (n + 1 + length args) p2"
      "here s p2 x" "map (text_of s) sps = args"
    using Cons.IH[OF 1(2), of "n + 1" "as @ [sp]"] Cons.prems by auto
  show ?case using 1 2 by (intro exI[of _ "sp # sps"] exI[of _ p2]) simp
qed

section \<open>The levels of the grammar\<close>

text \<open>
  What each parsing routine does with a printed command in front of the rest of the line. A simple
  command or block may go on with redirections, and a pipeline with ampersands; so these two are
  stated up to the loop that would take them.
\<close>

definition ends_exec :: "byte set" where "ends_exec = {sym CHR ''|'', sym CHR ''&'', sym CHR '';'', sym CHR '')''}"
definition ends_redir :: "byte set" where "ends_redir = ends_exec \<union> {sym CHR ''<'', sym CHR ''>''}"
definition ends_pipe :: "byte set" where "ends_pipe = {sym CHR ''&'', sym CHR '';'', sym CHR '')''}"
definition ends_line :: "byte set" where "ends_line = {sym CHR '')''}"

definition reads0 :: "cstring cmd \<Rightarrow> bool" where
  "reads0 c \<longleftrightarrow> (\<forall>s p x. here s p (pr c 0 @ x) \<and> follows ends_redir x \<longrightarrow>
     (\<exists>n c' p' k. parseexec n s p = Some (if exec_based c then args_from s c' k p' else parseredirs s c' p') \<and> here s p' x \<and> texts s c' = c))"

definition reads1 :: "cstring cmd \<Rightarrow> bool" where
  "reads1 c \<longleftrightarrow> (\<forall>s p x. here s p (pr c 1 @ x) \<and> follows ends_pipe x \<longrightarrow>
     (\<exists>n c' p'. parsepipe n s p = Some (Inr (c', p')) \<and> here s p' x \<and> texts s c' = c))"

definition reads2 :: "cstring cmd \<Rightarrow> bool" where
  "reads2 c \<longleftrightarrow> (\<forall>s p x. here s p (pr c 2 @ x) \<and> follows ends_pipe x \<longrightarrow>
     (\<exists>n c0 q c' p'. parsepipe n s p = Some (Inr (c0, q)) \<and> back_loop s c0 q = back_loop s c' p' \<and> here s p' x \<and> texts s c' = c))"

definition reads3 :: "cstring cmd \<Rightarrow> bool" where
  "reads3 c \<longleftrightarrow> (\<forall>s p x. here s p (pr c 3 @ x) \<and> follows ends_line x \<longrightarrow>
     (\<exists>n c' p'. parseline n s p = Some (Inr (c', p')) \<and> here s p' x \<and> texts s c' = c))"

lemma fuel_chain:
  assumes "\<And>n. fuel_le (f n) (f (Suc n))" "f n = Some r" "n \<le> m"
  shows "f m = Some r"
  using assms(3)
proof (induction rule: dec_induct)
  case (step k)
  then show ?case using assms(1)[of k] by (simp add: fuel_le_def)
qed (rule assms(2))

lemma fuel_up:
  "parseline n s p = Some r \<Longrightarrow> n \<le> m \<Longrightarrow> parseline m s p = Some r"
  "parsepipe n s p = Some r \<Longrightarrow> n \<le> m \<Longrightarrow> parsepipe m s p = Some r"
  "parseexec n s p = Some r \<Longrightarrow> n \<le> m \<Longrightarrow> parseexec m s p = Some r"
  by (rule fuel_chain[of "\<lambda>n. parseline n s p", OF fuel_step(1)] fuel_chain[of "\<lambda>n. parsepipe n s p", OF fuel_step(2)]
      fuel_chain[of "\<lambda>n. parseexec n s p", OF fuel_step(3)]; assumption)+

text \<open>A simple command or block before something that is no redirection.\<close>

lemma reads0_stop:
  assumes "reads0 c" "here s p (pr c 0 @ x)" "follows ends_exec x"
  shows "\<exists>n c' p'. parseexec n s p = Some (Inr (c', p')) \<and> here s p' x \<and> texts s c' = c"
proof -
  have "follows ends_redir x" using assms(3) by (rule follows_mono) (auto simp: ends_redir_def)
  then obtain n c' p' k where r: "parseexec n s p = Some (if exec_based c then args_from s c' k p' else parseredirs s c' p')"
      "here s p' x" "texts s c' = c" using assms(1,2) unfolding reads0_def by blast
  have "args_from s c' k p' = Inr (c', p')" using args_stop[OF r(2)] assms(3) by (simp add: ends_exec_def)
  moreover have "parseredirs s c' p' = Inr (c', p')"
    by (rule redirs_stop[OF r(2)]) (use assms(3) in \<open>auto simp: follows_def ends_exec_def\<close>)
  ultimately show ?thesis using r by (auto split: if_splits)
qed

lemma pipe_stop:
  assumes "parseexec n s p = Some (Inr (c, p'))" "here s p' x" "follows ends_pipe x"
  shows "parsepipe (Suc n) s p = Some (Inr (c, p'))"
  using assms here_peek[OF assms(2)] by (auto simp: pbind_def follows_def ends_pipe_def)

lemma reads1_0:
  assumes "reads0 c" "pr c 1 = pr c 0"
  shows "reads1 c"
  unfolding reads1_def
proof (intro allI impI, elim conjE)
  fix s p x assume h: "here s p (pr c 1 @ x)" "follows ends_pipe x"
  have "follows ends_exec x" using h(2) by (rule follows_mono) (auto simp: ends_pipe_def ends_exec_def)
  then obtain n c' p' where r: "parseexec n s p = Some (Inr (c', p'))" "here s p' x" "texts s c' = c"
    using reads0_stop[OF assms(1)] h(1) assms(2) by metis
  then show "\<exists>n c' p'. parsepipe n s p = Some (Inr (c', p')) \<and> here s p' x \<and> texts s c' = c"
    using pipe_stop[OF r(1,2) h(2)] by blast
qed

lemma reads2_1: "reads1 c \<Longrightarrow> pr c 2 = pr c 1 \<Longrightarrow> reads2 c"
  unfolding reads1_def reads2_def by metis

lemma line_stop:
  assumes "parsepipe n s p = Some (Inr (c0, q))" "back_loop s c0 q = back_loop s c p'" "here s p' x" "follows ends_line x"
  shows "parseline (Suc n) s p = Some (Inr (c, p'))"
proof -
  have "back_loop s c p' = (c, p')" by (rule back_stop[OF assms(3)]) (use assms(4) in \<open>auto simp: follows_def ends_line_def\<close>)
  then show ?thesis using assms here_peek[OF assms(3)] by (auto simp: pbind_def follows_def ends_line_def)
qed

lemma reads3_2:
  assumes "reads2 c" "pr c 3 = pr c 2"
  shows "reads3 c"
  unfolding reads3_def
proof (intro allI impI, elim conjE)
  fix s p x assume h: "here s p (pr c 3 @ x)" "follows ends_line x"
  have "follows ends_pipe x" using h(2) by (rule follows_mono) (auto simp: ends_pipe_def ends_line_def)
  then obtain n c0 q c' p' where r: "parsepipe n s p = Some (Inr (c0, q))" "back_loop s c0 q = back_loop s c' p'" "here s p' x" "texts s c' = c"
    using assms h(1) unfolding reads2_def by metis
  then show "\<exists>n c' p'. parseline n s p = Some (Inr (c', p')) \<and> here s p' x \<and> texts s c' = c"
    using line_stop[OF r(1-3) h(2)] by blast
qed

lemma reads0_block:
  assumes "reads3 c" "pr c 0 = paren True (pr c 3)" "\<not> exec_based c" "\<And>x. next_ok x \<Longrightarrow> next_ok (pr c 3 @ x)"
  shows "reads0 c"
  unfolding reads0_def
proof (intro allI impI, elim conjE)
  fix s p x assume h: "here s p (pr c 0 @ x)" "follows ends_redir x"
  note x = follows_next[OF h(2)]
  let ?y = "tok [sym CHR '')''] @ x"
  have y: "follows ends_line ?y" using follows_sym[OF syms(5) _ x] by (simp add: ends_line_def)
  have h1: "here s p (tok [sym CHR ''(''] @ pr c 3 @ ?y)" using h(1) assms(2) by (simp add: paren_def)
  note g1 = gettoken_sym[OF h1 syms(4) assms(4)[OF follows_next[OF y]]]
  obtain n c' p' where r: "parseline n s (p + 2) = Some (Inr (c', p'))" "here s p' ?y" "texts s c' = c"
    using assms(1) g1 y unfolding reads3_def by blast
  note g2 = gettoken_sym[OF r(2) syms(5) x]
  have "parseexec (Suc (Suc n)) s p = Some (parseredirs s c' (p' + 2))"
    using here_peek[OF h1] here_peek[OF r(2)] g1 g2 r(1) by (simp add: pbind_def tok_def)
  then show "\<exists>n c' p' k. parseexec n s p = Some (if exec_based c then args_from s c' k p' else parseredirs s c' p') \<and> here s p' x \<and> texts s c' = c"
    unfolding if_not_P[OF assms(3)] using g2 r(3) by blast
qed

section \<open>Each constructor\<close>

lemma next_ok_words: "\<forall>w \<in> set args. word w \<Longrightarrow> next_ok x \<Longrightarrow> next_ok (concat (map tok args) @ x)"
  by (induction args) (auto intro: next_ok_word)

lemma next_ok_paren: "(\<And>x. next_ok x \<Longrightarrow> next_ok (y @ x)) \<Longrightarrow> next_ok x \<Longrightarrow> next_ok (paren b y @ x)"
  using next_ok_sym[OF syms(4)] next_ok_sym[OF syms(5)] by (simp add: paren_def)

lemma next_ok_pr: "printable c \<Longrightarrow> next_ok x \<Longrightarrow> next_ok (pr c l @ x)"
proof (induction c arbitrary: l x)
  case (EXEC args)
  then show ?case using next_ok_words by simp
next
  case (REDIR c f m d)
  then show ?case using next_ok_word next_ok_sym syms by simp
next
  case (PIPE a b)
  then show ?case unfolding pr.simps by (intro next_ok_paren) (use next_ok_sym[OF syms(1)] in simp_all)
next
  case (LIST a b)
  then show ?case unfolding pr.simps by (intro next_ok_paren) (use next_ok_sym[OF syms(3)] in simp_all)
next
  case (BACK a)
  then show ?case unfolding pr.simps by (intro next_ok_paren) (use next_ok_sym[OF syms(2)] in simp_all)
qed

lemma exec_start:
  assumes "here s p y" "y = [] \<or> hd y \<noteq> sym CHR ''(''"
  shows "parseexec (Suc 0) s p = Some (args_from s (EXEC []) 0 p)"
  using here_peek[OF assms(1)] assms(2)
  by (cases "parseredirs s (EXEC []) p") (auto simp: pbind_def args_from_def)

lemma reads0_EXEC:
  assumes "printable (EXEC args)"
  shows "reads0 (EXEC args)"
  unfolding reads0_def
proof (intro allI impI, elim conjE)
  fix s p x assume h: "here s p (pr (EXEC args) 0 @ x)" "follows ends_redir x"
  have w: "\<forall>w \<in> set args. word w" "length args < MAXARGS" using assms by simp_all
  have "pr (EXEC args) 0 @ x = [] \<or> hd (pr (EXEC args) 0 @ x) \<noteq> sym CHR ''(''"
  proof (cases args)
    case Nil
    then show ?thesis using h(2) by (auto simp: follows_def ends_redir_def ends_exec_def)
  next
    case (Cons a as)
    then show ?thesis using word_nonsym[of a] w(1) by (simp add: tok_def in_symbols)
  qed
  note e = exec_start[OF h(1) this]
  obtain sps p' where "args_from s (EXEC []) 0 p = args_from s (EXEC sps) (length args) p'" "here s p' x" "map (text_of s) sps = args"
    using args_words[of s p args x 0 "[]"] h follows_next w by auto
  then show "\<exists>n c' p' k. parseexec n s p = Some (if exec_based (EXEC args) then args_from s c' k p' else parseredirs s c' p') \<and> here s p' x \<and> texts s c' = EXEC args"
    using e by (intro exI[of _ "Suc 0"] exI[of _ "EXEC sps"] exI[of _ p'] exI[of _ "length args"]) (simp del: parseexec.simps)
qed

lemma reads0_REDIR:
  assumes "reads0 c" "printable (REDIR c f m d)"
  shows "reads0 (REDIR c f m d)"
  unfolding reads0_def
proof (intro allI impI, elim conjE)
  fix s p x assume h: "here s p (pr (REDIR c f m d) 0 @ x)" "follows ends_redir x"
  let ?r = "if d = 0 then sym CHR ''<'' else sym CHR ''>'' :: byte"
  let ?y = "tok [?r] @ tok f @ x"
  have f: "word f" "redir_ok m d" using assms(2) by simp_all
  note x = follows_next[OF h(2)]
  have y: "follows ends_redir ?y"
    by (rule follows_sym) (use syms next_ok_word[OF f(1) x] in \<open>simp_all add: ends_redir_def\<close>)
  obtain n c' p' k where r: "parseexec n s p = Some (if exec_based c then args_from s c' k p' else parseredirs s c' p')" "here s p' ?y" "texts s c' = c"
    using assms(1) h(1) y unfolding reads0_def by (metis append_assoc pr.simps(2))
  obtain sp q where a: "args_from s c' k p' = args_from s (REDIR c' sp m d) k q" "here s q x" "text_of s sp = f"
    using args_redir[OF r(2) f(1) x f(2)] by blast
  obtain sp2 q2 where b: "parseredirs s c' p' = parseredirs s (REDIR c' sp2 m d) q2" "here s q2 x" "text_of s sp2 = f"
    using redirs_step[OF r(2) f(1) x f(2)] by blast
  show "\<exists>n c' p' k. parseexec n s p = Some (if exec_based (REDIR c f m d) then args_from s c' k p' else parseredirs s c' p') \<and> here s p' x \<and> texts s c' = REDIR c f m d"
  proof (cases "exec_based c")
    case True
    then show ?thesis using r a by (intro exI[of _ n] exI[of _ "REDIR c' sp m d"] exI[of _ q] exI[of _ k]) simp
  next
    case False
    then show ?thesis using r b by (intro exI[of _ n] exI[of _ "REDIR c' sp2 m d"] exI[of _ q2] exI[of _ k]) simp
  qed
qed

lemma reads1_PIPE:
  assumes "reads0 a" "reads1 b" "printable b"
  shows "reads1 (PIPE a b)"
  unfolding reads1_def
proof (intro allI impI, elim conjE)
  fix s p x assume h: "here s p (pr (PIPE a b) 1 @ x)" "follows ends_pipe x"
  let ?y = "tok [sym CHR ''|''] @ pr b 1 @ x"
  note nb = next_ok_pr[OF assms(3) follows_next[OF h(2)]]
  have y: "follows ends_exec ?y" by (rule follows_sym) (use syms nb in \<open>simp_all add: ends_exec_def\<close>)
  have "here s p (pr a 0 @ ?y)" using h(1) by (simp add: paren_def)
  then obtain n1 a' q where 1: "parseexec n1 s p = Some (Inr (a', q))" "here s q ?y" "texts s a' = a"
    using reads0_stop[OF assms(1) _ y] by blast
  note g = gettoken_sym[OF 1(2) syms(1) nb]
  obtain n2 b' p' where 2: "parsepipe n2 s (q + 2) = Some (Inr (b', p'))" "here s p' x" "texts s b' = b"
    using assms(2) g h(2) unfolding reads1_def by blast
  let ?n = "max n1 n2"
  have "parseexec ?n s p = Some (Inr (a', q))" "parsepipe ?n s (q + 2) = Some (Inr (b', p'))"
    using fuel_up(3)[OF 1(1)] fuel_up(2)[OF 2(1)] by simp_all
  then have "parsepipe (Suc ?n) s p = Some (Inr (PIPE a' b', p'))"
    using here_peek[OF 1(2)] g by (simp add: pbind_def tok_def)
  then show "\<exists>n c' p'. parsepipe n s p = Some (Inr (c', p')) \<and> here s p' x \<and> texts s c' = PIPE a b"
    using 1 2 by (intro exI[of _ "Suc ?n"] exI[of _ "PIPE a' b'"] exI[of _ p']) (simp del: parsepipe.simps)
qed

lemma reads2_BACK:
  assumes "reads2 a"
  shows "reads2 (BACK a)"
  unfolding reads2_def
proof (intro allI impI, elim conjE)
  fix s p x assume h: "here s p (pr (BACK a) 2 @ x)" "follows ends_pipe x"
  let ?y = "tok [sym CHR ''&''] @ x"
  note x = follows_next[OF h(2)]
  have y: "follows ends_pipe ?y" by (rule follows_sym) (use syms x in \<open>simp_all add: ends_pipe_def\<close>)
  have "here s p (pr a 2 @ ?y)" using h(1) by (simp add: paren_def)
  then obtain n c0 q a' p' where r: "parsepipe n s p = Some (Inr (c0, q))" "back_loop s c0 q = back_loop s a' p'" "here s p' ?y" "texts s a' = a"
    using assms y unfolding reads2_def by blast
  show "\<exists>n c0 q c' p'. parsepipe n s p = Some (Inr (c0, q)) \<and> back_loop s c0 q = back_loop s c' p' \<and> here s p' x \<and> texts s c' = BACK a"
    using r back_step[OF r(3) x]
    by (intro exI[of _ n] exI[of _ c0] exI[of _ q] exI[of _ "BACK a'"] exI[of _ "p' + 2"]) simp
qed

lemma reads3_LIST:
  assumes "reads2 a" "reads3 b" "printable b"
  shows "reads3 (LIST a b)"
  unfolding reads3_def
proof (intro allI impI, elim conjE)
  fix s p x assume h: "here s p (pr (LIST a b) 3 @ x)" "follows ends_line x"
  let ?y = "tok [sym CHR '';''] @ pr b 3 @ x"
  note nb = next_ok_pr[OF assms(3) follows_next[OF h(2)]]
  have y: "follows ends_pipe ?y" by (rule follows_sym) (use syms nb in \<open>simp_all add: ends_pipe_def\<close>)
  have "here s p (pr a 2 @ ?y)" using h(1) by (simp add: paren_def)
  then obtain n1 c0 q a' q' where 1: "parsepipe n1 s p = Some (Inr (c0, q))" "back_loop s c0 q = back_loop s a' q'" "here s q' ?y" "texts s a' = a"
    using assms(1) y unfolding reads2_def by blast
  have l: "back_loop s c0 q = (a', q')" unfolding 1(2) by (rule back_stop[OF 1(3)]) (simp add: tok_def)
  note g = gettoken_sym[OF 1(3) syms(3) nb]
  obtain n2 b' p' where 2: "parseline n2 s (q' + 2) = Some (Inr (b', p'))" "here s p' x" "texts s b' = b"
    using assms(2) g h(2) unfolding reads3_def by blast
  let ?n = "max n1 n2"
  have "parsepipe ?n s p = Some (Inr (c0, q))" "parseline ?n s (q' + 2) = Some (Inr (b', p'))"
    using fuel_up(2)[OF 1(1)] fuel_up(1)[OF 2(1)] by simp_all
  then have "parseline (Suc ?n) s p = Some (Inr (LIST a' b', p'))"
    using here_peek[OF 1(3)] g l by (simp add: pbind_def tok_def)
  then show "\<exists>n c' p'. parseline n s p = Some (Inr (c', p')) \<and> here s p' x \<and> texts s c' = LIST a b"
    using 1 2 by (intro exI[of _ "Suc ?n"] exI[of _ "LIST a' b'"] exI[of _ p']) (simp del: parseline.simps)
qed

lemma reads_all: "printable c \<Longrightarrow> reads0 c \<and> reads1 c \<and> reads2 c \<and> reads3 c"
proof (induction c)
  case (EXEC args)
  note 0 = reads0_EXEC[OF EXEC]
  note 1 = reads1_0[OF 0, simplified]
  note 2 = reads2_1[OF 1, simplified]
  show ?case using 0 1 2 reads3_2[OF 2] by simp
next
  case (REDIR c f m d)
  have 0: "reads0 (REDIR c f m d)" using REDIR reads0_REDIR by simp
  note 1 = reads1_0[OF 0, simplified]
  note 2 = reads2_1[OF 1, simplified]
  show ?case using 0 1 2 reads3_2[OF 2] by simp
next
  case (PIPE a b)
  have 1: "reads1 (PIPE a b)" using PIPE reads1_PIPE by simp
  have 2: "reads2 (PIPE a b)" by (rule reads2_1[OF 1]) (simp add: paren_def)
  have 3: "reads3 (PIPE a b)" by (rule reads3_2[OF 2]) (simp add: paren_def)
  have "reads0 (PIPE a b)" by (rule reads0_block[OF 3]) (simp add: paren_def, simp, rule next_ok_pr[OF PIPE.prems])
  then show ?case using 1 2 3 by simp
next
  case (LIST a b)
  have 3: "reads3 (LIST a b)" using LIST reads3_LIST by simp
  have 0: "reads0 (LIST a b)" by (rule reads0_block[OF 3]) (simp add: paren_def, simp, rule next_ok_pr[OF LIST.prems])
  have 1: "reads1 (LIST a b)" by (rule reads1_0[OF 0]) (simp add: paren_def)
  have "reads2 (LIST a b)" by (rule reads2_1[OF 1]) (simp add: paren_def)
  then show ?case using 0 1 3 by simp
next
  case (BACK a)
  have 2: "reads2 (BACK a)" using BACK reads2_BACK by simp
  have 3: "reads3 (BACK a)" by (rule reads3_2[OF 2]) (simp add: paren_def)
  have 0: "reads0 (BACK a)" by (rule reads0_block[OF 3]) (simp add: paren_def, simp, rule next_ok_pr[OF BACK.prems])
  have "reads1 (BACK a)" by (rule reads1_0[OF 0]) (simp add: paren_def)
  then show ?case using 0 2 3 by simp
qed

section \<open>Reading a printed command back\<close>

lemma map_cmd_eq: "(\<And>sp. sp \<in> set_cmd c \<Longrightarrow> f sp = g sp) \<Longrightarrow> map_cmd f c = map_cmd g c"
  by (rule cmd.map_cong) auto

text \<open>
  C37: Every well-formed command tree is written by some line and read back from it: the parser
  returns a tree of the same shape on the printed line, and its strings, after their ends are
  written into the line, are the strings of the tree.
\<close>

theorem parsecmd_print:
  assumes "printable c"
  shows "\<exists>c' buf. parsecmd (pr c 3) = Some (Inr (c', buf)) \<and> map_cmd (\<lambda>(q, e). cstr (drop q buf)) c' = c"
proof -
  let ?s = "pr c 3"
  have "next_ok ?s" using next_ok_pr[OF assms, of "[]" 3] by (simp add: next_ok_def)
  then have h: "here ?s 0 (?s @ [])" and nul: "0 \<notin> set ?s" by (simp_all add: here_def next_ok_def)
  have "follows ends_line []" by (simp add: follows_def next_ok_def)
  with h reads_all[OF assms] obtain n c' p where r: "parseline n ?s 0 = Some (Inr (c', p))" "here ?s p []" "texts ?s c' = c"
    unfolding reads3_def by blast
  obtain x where x: "parseline (parse_fuel ?s) ?s 0 = Some x"
    using parse_total(1)[of 0 ?s "parse_fuel ?s"] by (auto simp: parse_fuel_def)
  from fuel_up(1)[OF r(1), of "max n (parse_fuel ?s)"] fuel_up(1)[OF x, of "max n (parse_fuel ?s)"]
  have x': "x = Inr (c', p)" by simp
  have e: "skip_white ?s p = length ?s" using here_skip[OF r(2)] r(2) by (simp add: here_def)
  have c': "cmd_ok ?s c'" using parse_sound(1)[of 0 ?s "parse_fuel ?s"] x x' by simp
  obtain buf where b: "nulterminate c' (?s @ [0]) = Some buf" "cut_at (ends (set_cmd c')) (?s @ [0]) buf"
    using nulterminate_cut[OF cmd_ok_ends[OF c']] by blast
  have "parsecmd ?s = Some (Inr (c', buf))" using x x' e b(1) by (simp add: parsecmd_def peek_def Let_def)
  moreover have "map_cmd (\<lambda>(q, e). cstr (drop q buf)) c' = texts ?s c'"
    unfolding texts_def by (rule map_cmd_eq) (use word_after_cut[OF nul _ b(2)] c' in \<open>auto simp: cmd_ok_def\<close>)
  ultimately have "parsecmd ?s = Some (Inr (c', buf)) \<and> map_cmd (\<lambda>(q, e). cstr (drop q buf)) c' = c" using r(3) by simp
  then show ?thesis by (intro exI)
qed

theorem parsecmd_print_witness:
  "\<exists>c' buf. parsecmd (lit ''( ls & ) | wc > f '') = Some (Inr (c', buf)) \<and>
     map_cmd (\<lambda>(q, e). cstr (drop q buf)) c' = PIPE (BACK (EXEC [lit ''ls''])) (REDIR (EXEC [lit ''wc'']) (lit ''f'') (O_WRONLY OR O_CREATE) 1)"
proof -
  let ?c = "PIPE (BACK (EXEC [lit ''ls''])) (REDIR (EXEC [lit ''wc'']) (lit ''f'') (O_WRONLY OR O_CREATE) 1)"
  have p: "pr ?c 3 = lit ''( ls & ) | wc > f ''" by code_simp
  have "printable ?c"
    by (simp add: MAXARGS_def redir_ok_def) (simp add: word_def lit_def whitespace_def symbols_def)
  from parsecmd_print[OF this] show ?thesis unfolding p .
qed

end
