(* ===== verification/Umalloc.thy ===== *)
theory Umalloc
  imports Prelude
begin

text \<open>
  The allocator of the user library (src/src/umalloc.c). An address counts headers of eight bytes.
  The memory of the process holds a pointer and a size in every header that is below the break; an
  access elsewhere is None, and so is a search that does not end. The break is moved by \<^verbatim>\<open>sbrk\<close> up to a
  limit, where the kernel has no more memory. Sizes of blocks do not overflow, since they are inside of
  the memory; the sizes that are computed from a request are 32-bit words.
\<close>

section \<open>The code\<close>

record heap =
  hptr :: "nat \<Rightarrow> nat"
  hsize :: "nat \<Rightarrow> nat"
  hbase :: nat
  hlo :: nat
  brk :: nat
  lim :: nat
  freep :: nat

definition mapped :: "heap \<Rightarrow> nat \<Rightarrow> bool" where
  "mapped h a \<longleftrightarrow> a = hbase h \<or> hlo h \<le> a \<and> a < brk h"

definition ptr :: "heap \<Rightarrow> nat \<Rightarrow> nat option" where
  "ptr h a = (if mapped h a then Some (hptr h a) else None)"

definition size_of :: "heap \<Rightarrow> nat \<Rightarrow> nat option" where
  "size_of h a = (if mapped h a then Some (hsize h a) else None)"

definition set_ptr :: "heap \<Rightarrow> nat \<Rightarrow> nat \<Rightarrow> heap option" where
  "set_ptr h a v = (if mapped h a then Some (h\<lparr>hptr := (hptr h)(a := v)\<rparr>) else None)"

definition set_size :: "heap \<Rightarrow> nat \<Rightarrow> nat \<Rightarrow> heap option" where
  "set_size h a v = (if mapped h a then Some (h\<lparr>hsize := (hsize h)(a := v)\<rparr>) else None)"

text \<open>The search of \<^verbatim>\<open>free\<close> for the place of the block.\<close>

partial_function (option) free_find :: "heap \<Rightarrow> nat \<Rightarrow> nat \<Rightarrow> nat option" where
  "free_find h bp p = (case ptr h p of None \<Rightarrow> None
     | Some q \<Rightarrow> if bp > p \<and> bp < q then Some p
                else if p \<ge> q \<and> (bp > p \<or> bp < q) then Some p
                else free_find h bp q)"

text \<open>Joining the block with the one behind it, and the one before it with the block.\<close>

definition join_next :: "heap \<Rightarrow> nat \<Rightarrow> nat \<Rightarrow> heap option" where
  "join_next h bp q = do {
     bsz \<leftarrow> size_of h bp;
     if bp + bsz = q
     then do { qsz \<leftarrow> size_of h q; h \<leftarrow> set_size h bp (bsz + qsz); qq \<leftarrow> ptr h q; set_ptr h bp qq }
     else set_ptr h bp q
   }"

definition join_prev :: "heap \<Rightarrow> nat \<Rightarrow> nat \<Rightarrow> heap option" where
  "join_prev h p bp = do {
     psz \<leftarrow> size_of h p;
     if p + psz = bp
     then do { bsz \<leftarrow> size_of h bp; h \<leftarrow> set_size h p (psz + bsz); bq \<leftarrow> ptr h bp; set_ptr h p bq }
     else set_ptr h p bp
   }"

definition free :: "heap \<Rightarrow> nat \<Rightarrow> heap option" where
  "free h ap = do {
     let bp = ap - 1;
     p \<leftarrow> free_find h bp (freep h);
     q \<leftarrow> ptr h p;
     h \<leftarrow> join_next h bp q;
     h \<leftarrow> join_prev h p bp;
     Some (h\<lparr>freep := p\<rparr>)
   }"

text \<open>
  The system call takes a signed number of bytes and gives the old break, or None for -1. A negative
  number shrinks the memory, except below zero, where the kernel leaves it as it is.
\<close>

definition sbrk :: "heap \<Rightarrow> 32 word \<Rightarrow> nat option \<times> heap" where
  "sbrk h n =
     (let new = int (brk h) + sint n div 8 in
      if sint n > 0
      then if new > int (lim h) then (None, h) else (Some (brk h), h\<lparr>brk := nat new\<rparr>)
      else if new = 0 then (None, h)
      else if new < 0 then (Some (brk h), h)
      else (Some (brk h), h\<lparr>brk := nat new\<rparr>))"

definition morecore :: "heap \<Rightarrow> 32 word \<Rightarrow> (nat \<times> heap) option" where
  "morecore h nu =
     (let nu = (if nu < 4096 then 4096 else nu) in
      case sbrk h (nu * 8) of
        (None, h) \<Rightarrow> Some (0, h)
      | (Some hp, h) \<Rightarrow> do {
          h \<leftarrow> set_size h hp (unat nu);
          h \<leftarrow> free h (hp + 1);
          Some (freep h, h)
        })"

definition take_block :: "heap \<Rightarrow> nat \<Rightarrow> nat \<Rightarrow> nat \<Rightarrow> (nat \<times> heap) option" where
  "take_block h nunits prevp p = do {
     sz \<leftarrow> size_of h p;
     (p, h) \<leftarrow> (if sz = nunits
        then do { q \<leftarrow> ptr h p; h \<leftarrow> set_ptr h prevp q; Some (p, h) }
        else do { h \<leftarrow> set_size h p (sz - nunits); let p = p + (sz - nunits); h \<leftarrow> set_size h p nunits; Some (p, h) });
     Some (p + 1, h\<lparr>freep := prevp\<rparr>)
   }"

partial_function (option) malloc_loop :: "heap \<Rightarrow> 32 word \<Rightarrow> nat \<Rightarrow> nat \<Rightarrow> (nat \<times> heap) option" where
  "malloc_loop h nunits prevp p = (case size_of h p of None \<Rightarrow> None
     | Some sz \<Rightarrow>
         if sz \<ge> unat nunits then take_block h (unat nunits) prevp p
         else if p = freep h
         then (case morecore h nunits of None \<Rightarrow> None
               | Some (p, h) \<Rightarrow> if p = 0 then Some (0, h)
                   else (case ptr h p of None \<Rightarrow> None | Some q \<Rightarrow> malloc_loop h nunits p q))
         else (case ptr h p of None \<Rightarrow> None | Some q \<Rightarrow> malloc_loop h nunits p q))"

definition malloc_init :: "heap \<Rightarrow> heap option" where
  "malloc_init h =
     (if freep h = 0
      then do { h \<leftarrow> set_ptr h (hbase h) (hbase h); h \<leftarrow> set_size h (hbase h) 0; Some (h\<lparr>freep := hbase h\<rparr>) }
      else Some h)"

definition malloc :: "heap \<Rightarrow> 32 word \<Rightarrow> (nat \<times> heap) option" where
  "malloc h nbytes = do {
     let nunits = (nbytes + 8 - 1) div 8 + 1;
     h \<leftarrow> malloc_init h;
     let prevp = freep h;
     p \<leftarrow> ptr h prevp;
     malloc_loop h nunits prevp p
   }"

section \<open>The free list\<close>

text \<open>
  The free list is a circle that starts at the base and has increasing addresses. The blocks of the
  heap, free or handed out, do not overlap; two free blocks do not even touch.
\<close>

fun linked :: "heap \<Rightarrow> nat list \<Rightarrow> bool" where
  "linked h (x # y # zs) \<longleftrightarrow> hptr h x = y \<and> linked h (y # zs)"
| "linked h _ \<longleftrightarrow> True"

definition cells :: "heap \<Rightarrow> nat \<Rightarrow> nat set" where
  "cells h a = {a..<a + hsize h a}"

definition free_list :: "heap \<Rightarrow> nat list \<Rightarrow> bool" where
  "free_list h fs \<longleftrightarrow> linked h (hbase h # fs @ [hbase h]) \<and> sorted_wrt (\<lambda>a b. a + hsize h a < b) (hbase h # fs)"

definition blocks_ok :: "heap \<Rightarrow> nat set \<Rightarrow> bool" where
  "blocks_ok h B \<longleftrightarrow> (\<forall>a \<in> B. hlo h \<le> a \<and> 0 < hsize h a \<and> a + hsize h a \<le> brk h) \<and>
     (\<forall>a \<in> B. \<forall>b \<in> B. a \<noteq> b \<longrightarrow> cells h a \<inter> cells h b = {})"

definition heap_ok :: "heap \<Rightarrow> nat list \<Rightarrow> nat set \<Rightarrow> bool" where
  "heap_ok h fs A \<longleftrightarrow> free_list h fs \<and> blocks_ok h (set fs \<union> A) \<and> set fs \<inter> A = {} \<and>
     hsize h (hbase h) = 0 \<and> 0 < hbase h \<and> hbase h < hlo h \<and> hlo h \<le> brk h \<and> brk h \<le> lim h \<and> freep h \<in> insert (hbase h) (set fs)"

lemma linked_append: "linked h (xs @ y # zs) \<longleftrightarrow> linked h (xs @ [y]) \<and> linked h (y # zs)"
proof (induction xs)
  case (Cons x xs)
  then show ?case by (cases xs) auto
qed simp

lemma linked_cong: "(\<And>x. x \<in> set xs \<Longrightarrow> hptr h' x = hptr h x) \<Longrightarrow> linked h' (xs @ [y]) = linked h (xs @ [y])"
proof (induction xs)
  case (Cons x xs)
  then show ?case by (cases xs) auto
qed simp

lemma linked_nth: "linked h xs \<Longrightarrow> i + 1 < length xs \<Longrightarrow> hptr h (xs ! i) = xs ! (i + 1)"
proof (induction h xs arbitrary: i rule: linked.induct)
  case (1 h x y zs)
  then show ?case by (cases i) auto
qed auto

section \<open>Finding the place of a block\<close>

lemma heap_ok_mapped:
  assumes "heap_ok h fs A" "a \<in> insert (hbase h) (set fs \<union> A)"
  shows "mapped h a"
proof (cases "a = hbase h")
  case False
  then have "hlo h \<le> a \<and> 0 < hsize h a \<and> a + hsize h a \<le> brk h"
    using assms unfolding heap_ok_def blocks_ok_def by blast
  then show ?thesis by (simp add: mapped_def)
qed (simp add: mapped_def)

lemma free_sorted:
  assumes "heap_ok h fs A"
  shows "sorted_wrt (<) (hbase h # fs)"
  by (rule sorted_wrt_mono_rel[of _ "\<lambda>a b. a + hsize h a < b"]) (use assms in \<open>auto simp: heap_ok_def free_list_def\<close>)

text \<open>The circle as a list that starts at the base, and the successor of each of its elements.\<close>

lemma circle_next:
  assumes "heap_ok h fs A" "i \<le> length fs"
  shows "ptr h ((hbase h # fs) ! i) = Some (if i < length fs then (hbase h # fs) ! (i + 1) else hbase h)"
proof -
  let ?c = "hbase h # fs @ [hbase h]"
  have "(hbase h # fs) ! i \<in> insert (hbase h) (set fs)" using nth_mem[of i "hbase h # fs"] assms(2) by auto
  then have "mapped h ((hbase h # fs) ! i)" using heap_ok_mapped[OF assms(1)] by blast
  moreover have "hptr h (?c ! i) = ?c ! (i + 1)"
    by (rule linked_nth) (use assms in \<open>auto simp: heap_ok_def free_list_def\<close>)
  moreover have "?c ! i = (hbase h # fs) ! i" using assms(2) by (cases i) (auto simp: nth_append)
  ultimately show ?thesis using assms(2) by (auto simp: ptr_def nth_append)
qed

text \<open>The index after which a block belongs.\<close>

definition place :: "heap \<Rightarrow> nat list \<Rightarrow> nat \<Rightarrow> nat \<Rightarrow> bool" where
  "place h fs bp j \<longleftrightarrow> j \<le> length fs \<and> (hbase h # fs) ! j < bp \<and> (j < length fs \<longrightarrow> bp < (hbase h # fs) ! (j + 1))"

lemma place_exists:
  "sorted_wrt (<) (b # fs :: nat list) \<Longrightarrow> b < bp \<Longrightarrow> bp \<notin> set fs \<Longrightarrow>
   \<exists>j \<le> length fs. (b # fs) ! j < bp \<and> (j < length fs \<longrightarrow> bp < (b # fs) ! (j + 1))"
proof (induction fs arbitrary: b)
  case (Cons f fs)
  show ?case
  proof (cases "bp < f")
    case True
    then show ?thesis using Cons.prems by (intro exI[of _ 0]) simp
  next
    case False
    then have "f < bp" using Cons.prems by auto
    with Cons.IH[of f] Cons.prems obtain j where "j \<le> length fs" "(f # fs) ! j < bp" "j < length fs \<longrightarrow> bp < (f # fs) ! (j + 1)" by auto
    then show ?thesis by (intro exI[of _ "Suc j"]) auto
  qed
qed simp

lemma sorted_le: "sorted_wrt (<) (xs :: nat list) \<Longrightarrow> i \<le> j \<Longrightarrow> j < length xs \<Longrightarrow> xs ! i \<le> xs ! j"
  using sorted_wrt_nth_less[of "(<)" xs i j] by (cases "i = j") auto

text \<open>The search ends there from every element of the circle.\<close>

lemma free_find_place:
  assumes ok: "heap_ok h fs A" and j: "place h fs bp j"
  shows "i \<le> length fs \<Longrightarrow> free_find h bp ((hbase h # fs) ! i) = Some ((hbase h # fs) ! j)"
proof (induction "if i \<le> j then j - i else j + length fs + 1 - i" arbitrary: i rule: less_induct)
  case less
  let ?c = "hbase h # fs"
  note s = free_sorted[OF ok]
  have jc: "j \<le> length fs" "?c ! j < bp" "j < length fs \<Longrightarrow> bp < ?c ! (j + 1)" using j by (auto simp: place_def)
  have base: "hbase h < bp" using sorted_le[OF s, of 0 j] jc by simp
  note nx = circle_next[OF ok less.prems]
  consider (here) "i = j" | (inside) "i \<noteq> j" "i < length fs" | (last) "i \<noteq> j" "i = length fs" using less.prems by linarith
  then show ?case
  proof cases
    case here
    then show ?thesis using nx jc base sorted_le[OF s, of 0 j] by (subst free_find.simps) auto
  next
    case inside
    have lt: "?c ! i < ?c ! (i + 1)" using sorted_wrt_nth_less[OF s, of i "i + 1"] inside by simp
    have "\<not> (?c ! i < bp \<and> bp < ?c ! (i + 1))"
    proof (cases "i < j")
      case True
      then have "?c ! (i + 1) \<le> ?c ! j" using sorted_le[OF s, of "i + 1" j] jc by simp
      then show ?thesis using jc by linarith
    next
      case False
      then have "?c ! (j + 1) \<le> ?c ! i" using sorted_le[OF s, of "j + 1" i] inside by simp
      moreover have "j < length fs" using False inside by simp
      ultimately show ?thesis using jc(3) by linarith
    qed
    then have "free_find h bp (?c ! i) = free_find h bp (?c ! (i + 1))" using nx inside lt by (subst free_find.simps) auto
    also have "\<dots> = Some (?c ! j)" by (rule less.hyps) (use inside jc in auto)
    finally show ?thesis .
  next
    case last
    then have "j < length fs" using jc by simp
    then have "bp < ?c ! i" using jc(3) sorted_le[OF s, of "j + 1" i] last by simp
    moreover have "hbase h \<le> ?c ! i" using sorted_le[OF s, of 0 i] last by simp
    ultimately have "free_find h bp (?c ! i) = free_find h bp (?c ! 0)" using nx last base by (subst free_find.simps) auto
    also have "\<dots> = Some (?c ! j)" by (rule less.hyps) (use last jc in auto)
    finally show ?thesis .
  qed
qed

section \<open>Giving a block back\<close>

lemma block_before:
  assumes "blocks_ok h B" "a \<in> B" "b \<in> B" "a < b"
  shows "a + hsize h a \<le> b"
proof -
  have "cells h a \<inter> cells h b = {}" "0 < hsize h b" using assms by (auto simp: blocks_ok_def)
  then show ?thesis using assms(4) by (fastforce simp: cells_def)
qed

text \<open>Joining two blocks that touch.\<close>

lemma blocks_join:
  assumes ok: "blocks_ok h B" and ab: "a \<in> B" "b \<in> B" "a + hsize h a = b"
    and h': "hsize h' = (hsize h)(a := hsize h a + hsize h b)" "hlo h' = hlo h" "brk h' = brk h"
  shows "blocks_ok h' (B - {b})"
proof -
  have pos: "\<And>x. x \<in> B \<Longrightarrow> hlo h \<le> x \<and> 0 < hsize h x \<and> x + hsize h x \<le> brk h"
    and dis: "\<And>x y. x \<in> B \<Longrightarrow> y \<in> B \<Longrightarrow> x \<noteq> y \<Longrightarrow> cells h x \<inter> cells h y = {}"
    using ok by (auto simp: blocks_ok_def)
  have c: "cells h' x = (if x = a then cells h a \<union> cells h b else cells h x)" for x
    using ab(3) by (auto simp: cells_def h')
  have "cells h' x \<inter> cells h' y = {}" if "x \<in> B - {b}" "y \<in> B - {b}" "x \<noteq> y" for x y
    using that dis[of x y] dis[of b x] dis[of b y] ab(1,2) unfolding c by (auto split: if_splits)
  moreover have "hlo h' \<le> x \<and> 0 < hsize h' x \<and> x + hsize h' x \<le> brk h'" if "x \<in> B - {b}" for x
    using that pos[of x] pos[OF ab(1)] pos[OF ab(2)] ab(3) by (auto simp: h')
  ultimately show ?thesis by (simp add: blocks_ok_def)
qed

lemma blocks_ok_cong:
  "(\<And>a. a \<in> B \<Longrightarrow> hsize h' a = hsize h a) \<Longrightarrow> hlo h' = hlo h \<Longrightarrow> brk h' = brk h \<Longrightarrow> blocks_ok h B \<Longrightarrow> blocks_ok h' B"
proof -
  assume eq: "\<And>a. a \<in> B \<Longrightarrow> hsize h' a = hsize h a" "hlo h' = hlo h" "brk h' = brk h" and ok: "blocks_ok h B"
  then have "\<And>a. a \<in> B \<Longrightarrow> cells h' a = cells h a" by (simp add: cells_def)
  with eq ok show ?thesis by (simp add: blocks_ok_def)
qed

text \<open>
  The state in the middle of \<^verbatim>\<open>free\<close>: the block is not in the list yet, but its pointer leads to the part
  of the list behind its place.
\<close>

abbreviation gaps :: "heap \<Rightarrow> nat list \<Rightarrow> bool" where
  "gaps h c \<equiv> sorted_wrt (\<lambda>a b. a + hsize h a < b) c"

definition frame_ok :: "heap \<Rightarrow> bool" where
  "frame_ok h \<longleftrightarrow> hsize h (hbase h) = 0 \<and> 0 < hbase h \<and> hbase h < hlo h \<and> hlo h \<le> brk h \<and> brk h \<le> lim h"

definition same_frame :: "heap \<Rightarrow> heap \<Rightarrow> bool" where
  "same_frame h h' \<longleftrightarrow> hbase h' = hbase h \<and> hlo h' = hlo h \<and> brk h' = brk h \<and> lim h' = lim h"

definition pending :: "heap \<Rightarrow> nat list \<Rightarrow> nat \<Rightarrow> nat \<Rightarrow> nat list \<Rightarrow> nat set \<Rightarrow> bool" where
  "pending h pre p bp r A \<longleftrightarrow> linked h (pre @ [p]) \<and> linked h (bp # r @ [hbase h]) \<and>
     gaps h (pre @ p # r) \<and> p < bp \<and> (\<forall>x \<in> set r. bp + hsize h bp < x) \<and> hd (pre @ [p]) = hbase h \<and> frame_ok h \<and>
     bp \<in> A \<and> blocks_ok h (set (tl (pre @ p # r)) \<union> A) \<and> set (tl (pre @ p # r)) \<inter> A = {}"

lemma gaps_cong: "(\<And>x. x \<in> set c \<Longrightarrow> hsize h' x = hsize h x) \<Longrightarrow> gaps h c \<Longrightarrow> gaps h' c"
  by (induction c) auto

lemma linked_Cons: "xs \<noteq> [] \<Longrightarrow> linked h (x # xs) \<longleftrightarrow> hptr h x = hd xs \<and> linked h xs"
  by (cases xs) auto

lemma links_upd: "hptr h' = (hptr h)(bp := v) \<Longrightarrow> bp \<notin> set xs \<Longrightarrow> linked h' (xs @ [y]) = linked h (xs @ [y])"
  by (rule linked_cong) auto

lemma gaps_upd: "hsize h' = (hsize h)(b := v) \<Longrightarrow> b \<notin> set c \<Longrightarrow> gaps h c \<Longrightarrow> gaps h' c"
  by (rule gaps_cong[of c h' h]) auto

lemma circle_set: "hd (pre @ [p]) = b \<Longrightarrow> set (pre @ p # ys) = insert b (set (tl (pre @ p # ys)))"
  by (cases pre) auto

lemma gaps_less: "gaps h (xs @ y # zs) \<Longrightarrow> x \<in> set xs \<Longrightarrow> x + hsize h x < y"
  by (simp add: sorted_wrt_append)

lemma gaps_base: "gaps h (pre @ p # ys) \<Longrightarrow> hd (pre @ [p]) = b \<Longrightarrow> b \<le> p"
  by (cases pre) (auto simp: sorted_wrt_append)

text \<open>The list around the place of a block that is handed out.\<close>

definition around :: "heap \<Rightarrow> nat list \<Rightarrow> nat \<Rightarrow> nat \<Rightarrow> nat list \<Rightarrow> nat set \<Rightarrow> bool" where
  "around h pre p bp ys A \<longleftrightarrow> linked h (pre @ [p]) \<and> linked h (p # ys @ [hbase h]) \<and> gaps h (pre @ p # ys) \<and>
     p < bp \<and> (\<forall>y \<in> set ys. bp < y) \<and> hd (pre @ [p]) = hbase h \<and> frame_ok h \<and>
     bp \<in> A \<and> blocks_ok h (set (tl (pre @ p # ys)) \<union> A) \<and> set (tl (pre @ p # ys)) \<inter> A = {}"

lemma around_new:
  assumes "around h pre p bp ys A"
  shows "bp \<notin> set (pre @ p # ys)" "hbase h < bp"
proof -
  show "hbase h < bp" using assms gaps_base[of h pre p ys] by (simp add: around_def)
  then show "bp \<notin> set (pre @ p # ys)" using assms circle_set[of pre p "hbase h" ys] by (auto simp: around_def)
qed

lemma around_gap:
  assumes "around h pre p bp ys A" "bp + hsize h bp \<noteq> hd (ys @ [hbase h])" "y \<in> set ys"
  shows "bp + hsize h bp < y"
proof -
  obtain y0 ys' where ys: "ys = y0 # ys'" using assms(3) by (cases ys) auto
  have "y0 \<in> set (tl (pre @ p # ys))" using ys by (cases pre) auto
  then have "bp + hsize h bp \<le> y0" using block_before[of h _ bp y0] assms(1) ys by (auto simp: around_def)
  then have "bp + hsize h bp < y0" using assms(2) ys by simp
  moreover have "y0 \<le> y" using assms(1,3) ys by (auto simp: around_def sorted_wrt_append)
  ultimately show ?thesis by simp
qed

lemma around_mapped:
  assumes "around h pre p bp ys A" "x \<in> insert bp (set (pre @ p # ys))"
  shows "mapped h x"
proof (cases "x = hbase h")
  case False
  then have "x \<in> set (tl (pre @ p # ys)) \<union> A" using assms circle_set[of pre p "hbase h" ys] by (auto simp: around_def)
  then have "hlo h \<le> x \<and> 0 < hsize h x \<and> x + hsize h x \<le> brk h" using assms(1) unfolding around_def blocks_ok_def by blast
  then show ?thesis by (simp add: mapped_def)
qed (simp add: mapped_def)

lemma join_next_apart:
  assumes ar: "around h pre p bp ys A" and ne: "bp + hsize h bp \<noteq> hd (ys @ [hbase h])"
  defines "h1 \<equiv> h\<lparr>hptr := (hptr h)(bp := hd (ys @ [hbase h]))\<rparr>"
  shows "join_next h bp (hd (ys @ [hbase h])) = Some h1" "pending h1 pre p bp ys A"
proof -
  show "join_next h bp (hd (ys @ [hbase h])) = Some h1"
    using around_mapped[OF ar, of bp] ne by (simp add: join_next_def size_of_def set_ptr_def h1_def)
  note new = around_new[OF ar]
  have l: "linked h (pre @ [p])" "linked h (ys @ [hbase h])" using ar linked_Cons[of "ys @ [hbase h]" h p] by (simp_all add: around_def)
  have "linked h1 (pre @ [p])" using l(1) links_upd[of h1 h bp "hd (ys @ [hbase h])" pre p] new by (simp add: h1_def)
  moreover have "linked h1 (ys @ [hbase h])" using l(2) links_upd[of h1 h bp "hd (ys @ [hbase h])" ys "hbase h"] new by (simp add: h1_def)
  then have "linked h1 (bp # ys @ [hbase h])" by (simp add: linked_Cons h1_def)
  moreover have "blocks_ok h1 (set (tl (pre @ p # ys)) \<union> A)" using ar by (auto simp: around_def h1_def intro: blocks_ok_cong)
  ultimately show "pending h1 pre p bp ys A"
    using ar around_gap[OF ar ne] by (simp add: around_def pending_def h1_def frame_ok_def)
qed

lemma join_next_joined:
  assumes ar: "around h pre p bp (y # ys) A" and eq: "bp + hsize h bp = y"
  defines "h1 \<equiv> h\<lparr>hsize := (hsize h)(bp := hsize h bp + hsize h y), hptr := (hptr h)(bp := hd (ys @ [hbase h]))\<rparr>"
  shows "join_next h bp y = Some h1" "pending h1 pre p bp ys A"
proof -
  note new = around_new[OF ar]
  have l: "linked h (pre @ [p])" "hptr h y = hd (ys @ [hbase h])" "linked h (ys @ [hbase h])"
    using ar linked_Cons[of "ys @ [hbase h]" h y] by (simp_all add: around_def)
  show "join_next h bp y = Some h1"
    using around_mapped[OF ar, of bp] around_mapped[OF ar, of y] eq l(2)
    by (simp add: join_next_def size_of_def set_ptr_def set_size_def ptr_def mapped_def h1_def)
  have "linked h1 (pre @ [p])" using l(1) links_upd[of h1 h bp "hd (ys @ [hbase h])" pre p] new by (simp add: h1_def)
  moreover have "linked h1 (ys @ [hbase h])" using l(3) links_upd[of h1 h bp "hd (ys @ [hbase h])" ys "hbase h"] new by (simp add: h1_def)
  then have "linked h1 (bp # ys @ [hbase h])" by (simp add: linked_Cons h1_def)
  moreover have g: "gaps h (pre @ p # y # ys)" using ar by (simp add: around_def)
  then have "gaps h (pre @ p # ys)" "\<forall>x \<in> set ys. y + hsize h y < x" by (auto simp: sorted_wrt_append)
  then have "gaps h1 (pre @ p # ys)" "\<forall>x \<in> set ys. bp + hsize h1 bp < x"
    using new eq gaps_upd[of h1 h bp _ "pre @ p # ys"] by (auto simp: h1_def)
  moreover have b: "blocks_ok h (set (tl (pre @ p # y # ys)) \<union> A)" and yA: "y \<notin> A" "bp \<in> A" and d: "set (tl (pre @ p # y # ys)) \<inter> A = {}"
    using ar by (cases pre; auto simp: around_def)+
  have "y \<in> set (tl (pre @ p # y # ys))" by (cases pre) auto
  then have "blocks_ok h1 (set (tl (pre @ p # y # ys)) \<union> A - {y})"
    using blocks_join[OF b _ _ eq, of h1] yA by (simp add: h1_def)
  moreover have "y \<notin> set (pre @ p # ys)" using g by (auto simp: sorted_wrt_append)
  then have "set (tl (pre @ p # y # ys)) \<union> A - {y} = set (tl (pre @ p # ys)) \<union> A" using yA by (cases pre) auto
  moreover have "set (tl (pre @ p # ys)) \<subseteq> set (tl (pre @ p # y # ys))" by (cases pre) auto
  ultimately show "pending h1 pre p bp ys A"
    using ar d new(2) by (auto simp: around_def pending_def h1_def frame_ok_def)
qed

lemma pending_facts:
  assumes "pending h pre p bp r A"
  shows "bp \<notin> set (pre @ p # r)" "p \<noteq> hbase h \<Longrightarrow> p + hsize h p \<le> bp" "mapped h p" "mapped h bp" "p \<notin> set r" "hbase h < bp"
proof -
  show b: "hbase h < bp" using assms gaps_base[of h pre p r] by (simp add: pending_def)
  show "bp \<notin> set (pre @ p # r)" using assms circle_set[of pre p "hbase h" r] b by (auto simp: pending_def)
  have B: "blocks_ok h (set (tl (pre @ p # r)) \<union> A)" "bp \<in> A" "p < bp" using assms by (simp_all add: pending_def)
  have pB: "p \<in> set (tl (pre @ p # r))" if "p \<noteq> hbase h" using that assms by (cases pre) (auto simp: pending_def)
  then show "p \<noteq> hbase h \<Longrightarrow> p + hsize h p \<le> bp" using block_before[OF B(1), of p bp] B by blast
  have "hlo h \<le> x \<and> x < brk h" if "x \<in> set (tl (pre @ p # r)) \<union> A" for x
  proof -
    have "hlo h \<le> x \<and> 0 < hsize h x \<and> x + hsize h x \<le> brk h" using B(1) that unfolding blocks_ok_def by blast
    then show ?thesis by linarith
  qed
  then show "mapped h p" "mapped h bp" using pB B(2) by (auto simp: mapped_def)
  show "p \<notin> set r" using assms by (auto simp: pending_def sorted_wrt_append)
qed

text \<open>The list after the block is in it.\<close>

definition relisted :: "heap \<Rightarrow> nat list \<Rightarrow> nat set \<Rightarrow> bool" where
  "relisted h c A \<longleftrightarrow> c \<noteq> [] \<and> hd c = hbase h \<and> linked h (c @ [hbase h]) \<and> gaps h c \<and> frame_ok h \<and>
     blocks_ok h (set (tl c) \<union> A) \<and> set (tl c) \<inter> A = {}"

lemma join_prev_apart:
  assumes pe: "pending h pre p bp r A" and ne: "p + hsize h p \<noteq> bp"
  defines "h' \<equiv> h\<lparr>hptr := (hptr h)(p := bp)\<rparr>"
  shows "join_prev h p bp = Some h'" "relisted h' (pre @ p # bp # r) (A - {bp})"
proof -
  note f = pending_facts[OF pe]
  show "join_prev h p bp = Some h'" using f(3) ne by (simp add: join_prev_def size_of_def set_ptr_def h'_def)
  have lt: "p + hsize h p < bp" using f(2) ne pe by (cases "p = hbase h") (auto simp: pending_def frame_ok_def)
  have g: "gaps h (pre @ p # r)" "\<forall>x \<in> set r. bp + hsize h bp < x" using pe by (auto simp: pending_def)
  then have "gaps h (pre @ p # bp # r)" using lt by (auto simp: sorted_wrt_append)
  then have g': "gaps h' (pre @ p # bp # r)" by (simp add: h'_def)
  have pp: "p \<notin> set pre" using g(1) by (auto simp: sorted_wrt_append)
  have "linked h (pre @ [p])" "linked h (bp # r @ [hbase h])" using pe by (simp_all add: pending_def)
  then have "linked h' (pre @ [p])" "linked h' ((bp # r) @ [hbase h])"
    using links_upd[of h' h p bp pre p] links_upd[of h' h p bp "bp # r" "hbase h"] pp f(1,5) by (auto simp: h'_def)
  then have l: "linked h' ((pre @ p # bp # r) @ [hbase h])"
    using linked_append[of h' pre p "bp # r @ [hbase h]"] by (simp add: h'_def)
  have t: "set (tl (pre @ p # bp # r)) = insert bp (set (tl (pre @ p # r)))" by (cases pre) auto
  have A: "bp \<in> A" "blocks_ok h (set (tl (pre @ p # r)) \<union> A)" "set (tl (pre @ p # r)) \<inter> A = {}" using pe by (simp_all add: pending_def)
  then have e: "set (tl (pre @ p # bp # r)) \<union> (A - {bp}) = set (tl (pre @ p # r)) \<union> A" using t by auto
  have "blocks_ok h' (set (tl (pre @ p # bp # r)) \<union> (A - {bp}))" unfolding e by (rule blocks_ok_cong[OF _ _ _ A(2)]) (simp_all add: h'_def)
  moreover have "set (tl (pre @ p # bp # r)) \<inter> (A - {bp}) = {}" using t A(3) by auto
  ultimately show "relisted h' (pre @ p # bp # r) (A - {bp})"
    using g' l pe by (cases pre) (auto simp: relisted_def pending_def frame_ok_def h'_def)
qed

lemma join_prev_joined:
  assumes pe: "pending h pre p bp r A" and eq: "p + hsize h p = bp"
  defines "h' \<equiv> h\<lparr>hsize := (hsize h)(p := hsize h p + hsize h bp), hptr := (hptr h)(p := hd (r @ [hbase h]))\<rparr>"
  shows "join_prev h p bp = Some h'" "relisted h' (pre @ p # r) (A - {bp})"
proof -
  note f = pending_facts[OF pe]
  have nb: "p \<noteq> hbase h" using eq f(6) pe by (auto simp: pending_def frame_ok_def)
  have bpp: "hptr h bp = hd (r @ [hbase h])" "linked h (r @ [hbase h])" using pe linked_Cons[of "r @ [hbase h]" h bp] by (simp_all add: pending_def)
  show "join_prev h p bp = Some h'"
    using f(3,4) eq bpp by (simp add: join_prev_def size_of_def set_ptr_def set_size_def ptr_def mapped_def h'_def)
  have g: "gaps h (pre @ p # r)" "\<forall>x \<in> set r. bp + hsize h bp < x" using pe by (auto simp: pending_def)
  have pp: "p \<notin> set pre" using g(1) by (auto simp: sorted_wrt_append)
  have "gaps h' pre" "gaps h' r" using g(1) gaps_upd[of h' h p _ pre] gaps_upd[of h' h p _ r] pp f(5) by (auto simp: sorted_wrt_append h'_def)
  then have g': "gaps h' (pre @ p # r)" using g pp f(5) eq by (auto simp: sorted_wrt_append h'_def)
  have "linked h (pre @ [p])" using pe by (simp add: pending_def)
  then have "linked h' (pre @ [p])" "linked h' (r @ [hbase h])"
    using links_upd[of h' h p _ pre p] links_upd[of h' h p _ r "hbase h"] pp f(5) bpp(2) by (auto simp: h'_def)
  then have l: "linked h' ((pre @ p # r) @ [hbase h])"
    using linked_append[of h' pre p "r @ [hbase h]"] linked_Cons[of "r @ [hbase h]" h' p] by (simp add: h'_def)
  have B: "blocks_ok h (set (tl (pre @ p # r)) \<union> A)" "bp \<in> A" "set (tl (pre @ p # r)) \<inter> A = {}" using pe by (simp_all add: pending_def)
  have "p \<in> set (tl (pre @ p # r))" using nb pe by (cases pre) (auto simp: pending_def)
  then have "blocks_ok h' (set (tl (pre @ p # r)) \<union> A - {bp})" using blocks_join[OF B(1) _ _ eq, of h'] B(2) by (simp add: h'_def)
  moreover have "set (tl (pre @ p # r)) \<union> A - {bp} = set (tl (pre @ p # r)) \<union> (A - {bp})" using B by auto
  ultimately show "relisted h' (pre @ p # r) (A - {bp})"
    using g' l pe nb B(3) by (cases pre) (auto simp: relisted_def pending_def frame_ok_def h'_def)
qed

lemma freep_simps [simp]:
  "cells (h\<lparr>freep := p\<rparr>) a = cells h a" "blocks_ok (h\<lparr>freep := p\<rparr>) B = blocks_ok h B"
  "linked (h\<lparr>freep := p\<rparr>) xs = linked h xs"
proof -
  show c: "cells (h\<lparr>freep := p\<rparr>) a = cells h a" for a by (simp add: cells_def)
  show "blocks_ok (h\<lparr>freep := p\<rparr>) B = blocks_ok h B" by (simp add: blocks_ok_def c)
  show "linked (h\<lparr>freep := p\<rparr>) xs = linked h xs" by (induction h xs rule: linked.induct) auto
qed

lemma relisted_heap_ok:
  assumes "relisted h c A" "p \<in> set c"
  shows "heap_ok (h\<lparr>freep := p\<rparr>) (tl c) A"
proof -
  obtain fs where c: "c = hbase h # fs" using assms(1) by (cases c) (auto simp: relisted_def)
  then show ?thesis using assms unfolding c by (auto simp: relisted_def heap_ok_def free_list_def frame_ok_def)
qed

lemma heap_ok_around:
  assumes ok: "heap_ok h fs A" and bp: "bp \<in> A"
  shows "\<exists>pre p ys. hbase h # fs = pre @ p # ys \<and> around h pre p bp ys A \<and> free_find h bp (freep h) = Some p \<and> ptr h p = Some (hd (ys @ [hbase h]))"
proof -
  let ?c = "hbase h # fs"
  have "hlo h \<le> bp" using ok bp by (simp add: heap_ok_def blocks_ok_def)
  then have b: "hbase h < bp" "bp \<notin> set fs" using ok bp by (auto simp: heap_ok_def)
  note s = free_sorted[OF ok]
  obtain j where "place h fs bp j" using place_exists[OF s b] unfolding place_def by blast
  then have j: "place h fs bp j" "j \<le> length fs" "?c ! j < bp" "j < length fs \<longrightarrow> bp < ?c ! (j + 1)" by (auto simp: place_def)
  let ?pre = "take j ?c" and ?p = "?c ! j" and ?ys = "drop (Suc j) ?c"
  have c: "?c = ?pre @ ?p # ?ys" using id_take_nth_drop[of j ?c] j(2) by simp
  have ys: "\<forall>y \<in> set ?ys. bp < y"
  proof
    fix y assume "y \<in> set ?ys"
    then obtain k where k: "k < length ?ys" "y = ?ys ! k" by (metis in_set_conv_nth)
    then have "y = ?c ! (Suc j + k)" "Suc j + k < length ?c" by auto
    then have "?c ! (j + 1) \<le> y" using sorted_le[OF s, of "j + 1" "Suc j + k"] by simp
    moreover have "j < length fs" using k by simp
    ultimately show "bp < y" using j(4) by simp
  qed
  obtain i where i: "i \<le> length fs" "freep h = ?c ! i"
    using ok by (auto simp: heap_ok_def in_set_conv_nth) (metis Suc_leI nth_Cons_Suc le0 nth_Cons_0)+
  have find: "free_find h bp (freep h) = Some ?p" unfolding i(2) by (rule free_find_place[OF ok j(1) i(1)])
  have q: "ptr h ?p = Some (hd (?ys @ [hbase h]))"
    using circle_next[OF ok j(2)] j(2) by (auto simp: hd_append hd_drop_conv_nth)
  have "linked h (?c @ [hbase h])" using ok by (simp add: heap_ok_def free_list_def)
  then have "linked h (?pre @ ?p # ?ys @ [hbase h])" using c by (metis append_Cons append_assoc)
  then have "linked h (?pre @ [?p])" "linked h (?p # ?ys @ [hbase h])" using linked_append[of h ?pre ?p "?ys @ [hbase h]"] by simp_all
  moreover have "hd (?pre @ [?p]) = hbase h" by (cases j) auto
  moreover have "gaps h (?pre @ ?p # ?ys)" "blocks_ok h (set (tl (?pre @ ?p # ?ys)) \<union> A)" "set (tl (?pre @ ?p # ?ys)) \<inter> A = {}"
    unfolding c[symmetric] list.sel using ok unfolding heap_ok_def free_list_def by blast+
  ultimately have "around h ?pre ?p bp ?ys A" using ok bp ys j(3) by (simp add: around_def heap_ok_def frame_ok_def)
  with c find q show ?thesis by blast
qed

lemma join_next_ok:
  assumes "around h pre p bp ys A"
  shows "\<exists>h1 r. join_next h bp (hd (ys @ [hbase h])) = Some h1 \<and> pending h1 pre p bp r A \<and> same_frame h h1 \<and>
    (\<forall>a. a \<noteq> bp \<longrightarrow> hsize h1 a = hsize h a) \<and> hsize h bp \<le> hsize h1 bp"
proof (cases "bp + hsize h bp = hd (ys @ [hbase h])")
  case True
  then obtain y ys' where ys: "ys = y # ys'" using around_new(2)[OF assms] by (cases ys) auto
  then have "bp + hsize h bp = y" using True by simp
  from join_next_joined[OF assms[unfolded ys] this] show ?thesis using ys
    by (intro exI[of _ "h\<lparr>hsize := (hsize h)(bp := hsize h bp + hsize h y), hptr := (hptr h)(bp := hd (ys' @ [hbase h]))\<rparr>"] exI[of _ ys'])
      (simp add: same_frame_def)
next
  case False
  from join_next_apart[OF assms this] show ?thesis
    by (intro exI[of _ "h\<lparr>hptr := (hptr h)(bp := hd (ys @ [hbase h]))\<rparr>"] exI[of _ ys]) (simp add: same_frame_def)
qed

lemma join_prev_ok:
  assumes "pending h pre p bp r A"
  shows "\<exists>h' c. join_prev h p bp = Some h' \<and> relisted h' c (A - {bp}) \<and> p \<in> set c \<and> same_frame h h' \<and>
    (\<forall>a \<in> A - {bp}. hsize h' a = hsize h a) \<and> (\<exists>a \<in> set (tl c). hsize h bp \<le> hsize h' a)"
proof (cases "p + hsize h p = bp")
  case True
  note f = pending_facts[OF assms]
  have nb: "p \<noteq> hbase h" using True f(6) assms by (auto simp: pending_def frame_ok_def)
  then have "p \<in> set (tl (pre @ p # r))" using assms by (cases pre) (auto simp: pending_def)
  moreover have "p \<notin> A" using calculation assms by (auto simp: pending_def)
  ultimately show ?thesis using join_prev_joined[OF assms True]
    by (intro exI[of _ "h\<lparr>hsize := (hsize h)(p := hsize h p + hsize h bp), hptr := (hptr h)(p := hd (r @ [hbase h]))\<rparr>"] exI[of _ "pre @ p # r"])
      (auto simp: same_frame_def intro!: bexI[of _ p])
next
  case False
  have "bp \<in> set (tl (pre @ p # bp # r))" by (cases pre) auto
  then show ?thesis using join_prev_apart[OF assms False]
    by (intro exI[of _ "h\<lparr>hptr := (hptr h)(p := bp)\<rparr>"] exI[of _ "pre @ p # bp # r"]) (auto simp: same_frame_def intro!: bexI[of _ bp])
qed

lemma free_ok:
  assumes ok: "heap_ok h fs A" and bp: "bp \<in> A"
  shows "\<exists>h' fs'. free h (bp + 1) = Some h' \<and> heap_ok h' fs' (A - {bp}) \<and> same_frame h h' \<and>
    (\<forall>a \<in> A - {bp}. hsize h' a = hsize h a) \<and> (\<exists>a \<in> set fs'. hsize h bp \<le> hsize h' a)"
proof -
  obtain pre p ys where a: "around h pre p bp ys A" "free_find h bp (freep h) = Some p" "ptr h p = Some (hd (ys @ [hbase h]))"
    using heap_ok_around[OF ok bp] by blast
  obtain h1 r where h1: "join_next h bp (hd (ys @ [hbase h])) = Some h1" "pending h1 pre p bp r A" "same_frame h h1"
      "\<forall>a. a \<noteq> bp \<longrightarrow> hsize h1 a = hsize h a" "hsize h bp \<le> hsize h1 bp"
    using join_next_ok[OF a(1)] by blast
  obtain h2 c where h2: "join_prev h1 p bp = Some h2" "relisted h2 c (A - {bp})" "p \<in> set c" "same_frame h1 h2"
      "\<forall>a \<in> A - {bp}. hsize h2 a = hsize h1 a" "\<exists>a \<in> set (tl c). hsize h1 bp \<le> hsize h2 a"
    using join_prev_ok[OF h1(2)] by blast
  have "free h (bp + 1) = Some (h2\<lparr>freep := p\<rparr>)" using a h1(1) h2(1) by (simp add: free_def)
  moreover note relisted_heap_ok[OF h2(2,3)]
  moreover have "same_frame h (h2\<lparr>freep := p\<rparr>)" using h1(3) h2(4) by (simp add: same_frame_def)
  moreover have "\<forall>a \<in> A - {bp}. hsize h2 a = hsize h a" using h1(4) h2(5) by simp
  moreover have "\<exists>a \<in> set (tl c). hsize h bp \<le> hsize h2 a" using h1(5) h2(6) le_trans by blast
  ultimately show ?thesis by (intro exI[of _ "h2\<lparr>freep := p\<rparr>"] exI[of _ "tl c"]) simp
qed

section \<open>Taking a block\<close>

lemma cells_not_block:
  assumes "blocks_ok h B" "a \<in> B" "x \<in> cells h a" "x \<noteq> a"
  shows "x \<notin> B"
proof
  assume "x \<in> B"
  then have "0 < hsize h x" "cells h a \<inter> cells h x = {}" using assms by (auto simp: blocks_ok_def)
  then show False using assms(3) by (auto simp: cells_def)
qed

text \<open>Splitting a block at its end.\<close>

lemma blocks_split:
  assumes ok: "blocks_ok h B" and a: "a \<in> B" "0 < n" "n < hsize h a" and q: "q = a + (hsize h a - n)"
    and h': "hsize h' = (hsize h)(a := hsize h a - n, q := n)" "hlo h' = hlo h" "brk h' = brk h"
  shows "blocks_ok h' (insert q B)" "q \<notin> B"
proof -
  have qc: "q \<in> cells h a" "q \<noteq> a" using a q by (auto simp: cells_def)
  then show qB: "q \<notin> B" using cells_not_block[OF ok a(1)] by blast
  have pos: "\<And>x. x \<in> B \<Longrightarrow> hlo h \<le> x \<and> 0 < hsize h x \<and> x + hsize h x \<le> brk h"
    and dis: "\<And>x y. x \<in> B \<Longrightarrow> y \<in> B \<Longrightarrow> x \<noteq> y \<Longrightarrow> cells h x \<inter> cells h y = {}"
    using ok by (auto simp: blocks_ok_def)
  have c: "cells h' q \<subseteq> cells h a" "cells h' a \<subseteq> cells h a" "cells h' q \<inter> cells h' a = {}" "\<And>x. x \<in> B \<Longrightarrow> x \<noteq> a \<Longrightarrow> cells h' x = cells h x"
    using a q qB qc(2) by (auto simp: cells_def h')
  have sub: "cells h' x \<subseteq> cells h (if x = q then a else x)" if "x \<in> insert q B" for x
    using c that qc(2) by (cases "x = q"; cases "x = a") auto
  have "cells h' x \<inter> cells h' y = {}" if "x \<in> insert q B" "y \<in> insert q B" "x \<noteq> y" for x y
  proof (cases "(if x = q then a else x) = (if y = q then a else y)")
    case True
    then have "x = q \<and> y = a \<or> x = a \<and> y = q" using that(3) by (auto split: if_splits)
    then show ?thesis using c(3) by auto
  next
    case False
    then have "cells h (if x = q then a else x) \<inter> cells h (if y = q then a else y) = {}" using dis that a(1) by (auto split: if_splits)
    then show ?thesis using sub[OF that(1)] sub[OF that(2)] by blast
  qed
  moreover have "hlo h' \<le> x \<and> 0 < hsize h' x \<and> x + hsize h' x \<le> brk h'" if "x \<in> insert q B" for x
    using that pos[of x] pos[OF a(1)] a q qc(2) by (auto simp: h')
  ultimately show "blocks_ok h' (insert q B)" by (simp add: blocks_ok_def)
qed

definition taken :: "heap \<Rightarrow> nat set \<Rightarrow> nat \<Rightarrow> nat \<Rightarrow> heap \<Rightarrow> bool" where
  "taken h A n q h' \<longleftrightarrow> (\<exists>fs'. heap_ok h' fs' (insert q A)) \<and> q \<notin> A \<and> hsize h' q = n \<and>
     (\<forall>a \<in> A. hsize h' a = hsize h a) \<and> hbase h' = hbase h \<and> hlo h' = hlo h \<and> lim h' = lim h"

lemma heap_ok_circle:
  assumes "heap_ok h fs A" "hbase h # fs = c"
  shows "linked h (c @ [hbase h])" "gaps h c"
  using assms(1) unfolding assms(2)[symmetric] heap_ok_def free_list_def append_Cons by blast+

lemma take_exact:
  assumes ok: "heap_ok h fs A" and c: "hbase h # fs = pre @ prevp # p # ys"
  shows "\<exists>h'. take_block h (hsize h p) prevp p = Some (p + 1, h') \<and> taken h A (hsize h p) p h'"
proof -
  let ?h = "h\<lparr>hptr := (hptr h)(prevp := hptr h p)\<rparr>"
  have fs: "prevp \<in> insert (hbase h) (set fs)" "p \<in> set fs" and t: "fs = tl (pre @ prevp # p # ys)"
    using arg_cong[OF c, of set] arg_cong[OF c, of tl] by (cases pre; auto)+
  have m: "mapped h p" "mapped h prevp" using heap_ok_mapped[OF ok] fs by auto
  have l: "linked h (pre @ prevp # p # ys @ [hbase h])" and g: "gaps h (pre @ prevp # p # ys)"
    using heap_ok_circle[OF ok c] by simp_all
  have ne: "prevp \<notin> set pre" "prevp \<notin> set ys" using g by (auto simp: sorted_wrt_append)
  have "linked h (pre @ [prevp])" "linked h (p # ys @ [hbase h])"
    using l linked_append[of h pre prevp "p # ys @ [hbase h]"] by simp_all
  then have "linked ?h (pre @ [prevp])" "hptr h p = hd (ys @ [hbase h])" "linked ?h (ys @ [hbase h])"
    using links_upd[of ?h h prevp _ pre prevp] links_upd[of ?h h prevp _ ys "hbase h"] ne linked_Cons[of "ys @ [hbase h]" h p] by auto
  then have l': "linked ?h ((pre @ prevp # ys) @ [hbase h])"
    using linked_append[of ?h pre prevp "ys @ [hbase h]"] linked_Cons[of "ys @ [hbase h]" ?h prevp] by simp
  have g': "gaps ?h (pre @ prevp # ys)" using g by (auto simp: sorted_wrt_append)
  have hd: "hd (pre @ prevp # ys) = hbase h" using c by (cases pre) auto
  have "p \<notin> set (pre @ prevp # ys)" using g by (auto simp: sorted_wrt_append)
  then have S: "set fs = insert p (set (tl (pre @ prevp # ys)))" "p \<notin> set (tl (pre @ prevp # ys))" using t by (cases pre; auto)+
  have b: "blocks_ok h (set fs \<union> A)" "set fs \<inter> A = {}" using ok by (simp_all add: heap_ok_def)
  have "blocks_ok ?h (set (tl (pre @ prevp # ys)) \<union> insert p A)"
    using b(1) S(1) blocks_ok_cong[of "set fs \<union> A" ?h h] by (simp add: insert_commute)
  then have "relisted ?h (pre @ prevp # ys) (insert p A)"
    using l' g' hd S b(2) ok by (auto simp: relisted_def heap_ok_def frame_ok_def)
  from relisted_heap_ok[OF this, of prevp] have "heap_ok (?h\<lparr>freep := prevp\<rparr>) (tl (pre @ prevp # ys)) (insert p A)" by simp
  moreover have "take_block h (hsize h p) prevp p = Some (p + 1, ?h\<lparr>freep := prevp\<rparr>)"
    using m by (simp add: take_block_def size_of_def ptr_def set_ptr_def)
  moreover have "p \<notin> A" using b(2) S(1) by auto
  ultimately show ?thesis by (auto simp: taken_def)
qed

lemma take_split:
  assumes ok: "heap_ok h fs A" and p: "p \<in> set fs" "prevp \<in> insert (hbase h) (set fs)" and n: "0 < n" "n < hsize h p"
  shows "\<exists>q h'. take_block h n prevp p = Some (q + 1, h') \<and> taken h A n q h'"
proof -
  let ?q = "p + (hsize h p - n)"
  let ?h = "h\<lparr>hsize := (hsize h)(p := hsize h p - n, ?q := n)\<rparr>"
  have b: "blocks_ok h (set fs \<union> A)" "set fs \<inter> A = {}" using ok by (simp_all add: heap_ok_def)
  have B: "blocks_ok ?h (insert ?q (set fs \<union> A))" "?q \<notin> set fs \<union> A"
    using blocks_split[OF b(1) _ n refl, of ?h] p(1) by auto
  have "hlo h \<le> p \<and> 0 < hsize h p \<and> p + hsize h p \<le> brk h" using b(1) p(1) unfolding blocks_ok_def by blast
  then have m: "mapped h p" "mapped h ?q" "?q \<noteq> hbase h" using n ok by (auto simp: mapped_def heap_ok_def)
  note ci = heap_ok_circle[OF ok refl]
  have "?q \<notin> set (hbase h # fs)" using B(2) m(3) by auto
  then have le: "hsize ?h x \<le> hsize h x" if "x \<in> set (hbase h # fs)" for x using that by auto
  have "gaps ?h (hbase h # fs)"
  proof (rule sorted_wrt_mono_rel[OF _ ci(2)])
    fix x y assume "x \<in> set (hbase h # fs)" "x + hsize h x < y"
    then show "x + hsize ?h x < y" using le[of x] by linarith
  qed
  moreover have "linked ?h ((hbase h # fs) @ [hbase h])" using ci(1) linked_cong[of "hbase h # fs" ?h h "hbase h"] by simp
  ultimately have "relisted ?h (hbase h # fs) (insert ?q A)"
    using B b(2) ok m(3) p(1) n by (auto simp: relisted_def heap_ok_def frame_ok_def)
  from relisted_heap_ok[OF this, of prevp] p(2) have "heap_ok (?h\<lparr>freep := prevp\<rparr>) fs (insert ?q A)" by simp
  moreover have "take_block h n prevp p = Some (?q + 1, ?h\<lparr>freep := prevp\<rparr>)"
    using m n by (simp add: take_block_def size_of_def set_size_def mapped_def Let_def)
  moreover have "?q \<notin> A" "\<forall>a \<in> A. a \<noteq> p" using B(2) b(2) p(1) by auto
  ultimately show ?thesis using n by (intro exI[of _ ?q] exI[of _ "?h\<lparr>freep := prevp\<rparr>"]) (auto simp: taken_def)
qed

section \<open>More memory\<close>

lemma sint_bytes:
  fixes nu :: "32 word"
  assumes "unat nu < 2 ^ 28"
  shows "sint (nu * 8) = 8 * int (unat nu)"
proof -
  have u: "unat (nu * 8) = 8 * unat nu" using assms by (simp add: unat_word_ariths)
  then have "unat (nu * 8) < 2 ^ 31" using assms by simp
  then have "uint (nu * 8) < 2 ^ 31" by (metis of_nat_less_iff of_nat_numeral of_nat_power uint_nat)
  then have "sint (nu * 8) = uint (nu * 8)" 
    unfolding sint_uint by - (rule signed_take_bit_int_eq_self, rule order_trans[of _ 0], simp_all)
  then show ?thesis using u by (metis of_nat_mult of_nat_numeral uint_nat)
qed

text \<open>The memory behind the old break as a block that is handed out.\<close>

lemma grown_ok:
  assumes ok: "heap_ok h fs A" and n: "0 < n" "brk h + n \<le> lim h"
  shows "heap_ok (h\<lparr>brk := brk h + n, hsize := (hsize h)(brk h := n)\<rparr>) fs (insert (brk h) A)" "brk h \<notin> A"
proof -
  let ?h = "h\<lparr>brk := brk h + n, hsize := (hsize h)(brk h := n)\<rparr>"
  let ?B = "set fs \<union> A"
  have b: "blocks_ok h ?B" "set fs \<inter> A = {}" using ok by (simp_all add: heap_ok_def)
  then have below: "hlo h \<le> x \<and> 0 < hsize h x \<and> x + hsize h x \<le> brk h" if "x \<in> ?B" for x using that unfolding blocks_ok_def by blast
  have new: "brk h \<notin> ?B"
  proof
    assume "brk h \<in> ?B"
    from below[OF this] show False by linarith
  qed
  then show "brk h \<notin> A" by simp
  have nb: "brk h \<noteq> hbase h" using ok by (auto simp: heap_ok_def)
  have c: "cells ?h x = cells h x" if "x \<in> ?B" for x using that new by (auto simp: cells_def)
  have d: "cells h x \<inter> cells ?h (brk h) = {}" if "x \<in> ?B" for x using below[OF that] by (auto simp: cells_def)
  have "cells ?h x \<inter> cells ?h y = {}" if "x \<in> insert (brk h) ?B" "y \<in> insert (brk h) ?B" "x \<noteq> y" for x y
    using that c d[of x] d[of y] b(1) unfolding blocks_ok_def by (cases "x = brk h"; cases "y = brk h") auto
  moreover have "hlo h \<le> x \<and> 0 < hsize ?h x \<and> x + hsize ?h x \<le> brk h + n" if "x \<in> insert (brk h) ?B" for x
    using that below[of x] new n ok by (cases "x = brk h") (auto simp: heap_ok_def)
  ultimately have "blocks_ok ?h (set fs \<union> insert (brk h) A)" by (simp add: blocks_ok_def)
  moreover note ci = heap_ok_circle[OF ok refl]
  have "gaps ?h (hbase h # fs)" by (rule gaps_upd[OF _ _ ci(2), of _ "brk h" n]) (use new nb in auto)
  moreover have "linked ?h ((hbase h # fs) @ [hbase h])" using ci(1) linked_cong[of "hbase h # fs" ?h h "hbase h"] by simp
  ultimately show "heap_ok ?h fs (insert (brk h) A)"
    using ok new nb n unfolding heap_ok_def free_list_def by simp
qed

lemma morecore_ok:
  assumes ok: "heap_ok h fs A" and nu: "unat nu < 2 ^ 28"
  shows "\<exists>p h'. morecore h nu = Some (p, h') \<and> (p = 0 \<and> h' = h \<and> lim h < brk h + max 4096 (unat nu) \<or>
    (\<exists>fs'. p \<noteq> 0 \<and> p = freep h' \<and> heap_ok h' fs' A \<and> (\<exists>a \<in> set fs'. unat nu \<le> hsize h' a) \<and> (\<forall>a \<in> A. hsize h' a = hsize h a) \<and>
       hbase h' = hbase h \<and> hlo h' = hlo h \<and> lim h' = lim h))"
proof -
  define w where "w = (if nu < 4096 then 4096 else nu)"
  define n where "n = unat w"
  have n: "n < 2 ^ 28" "0 < n" "unat nu \<le> n" using nu by (auto simp: n_def w_def word_less_nat_alt)
  have sb: "sint (w * 8) = 8 * int n" using sint_bytes[of w] n(1) by (simp add: n_def)
  show ?thesis
  proof (cases "brk h + n \<le> lim h")
    case False
    then have "sbrk h (w * 8) = (None, h)" using sb n(2) by (simp add: sbrk_def)
    then have "morecore h nu = Some (0, h)" by (simp add: morecore_def Let_def flip: w_def n_def)
    moreover have "n = max 4096 (unat nu)" by (auto simp: n_def w_def word_less_nat_alt max_def)
    ultimately show ?thesis using False by simp
  next
    case True
    let ?h = "h\<lparr>brk := brk h + n, hsize := (hsize h)(brk h := n)\<rparr>"
    note g = grown_ok[OF ok n(2) True]
    obtain h' fs' where f: "free ?h (brk h + 1) = Some h'" "heap_ok h' fs' (insert (brk h) A - {brk h})" "same_frame ?h h'"
        "\<forall>a \<in> insert (brk h) A - {brk h}. hsize h' a = hsize ?h a" "\<exists>a \<in> set fs'. hsize ?h (brk h) \<le> hsize h' a"
      using free_ok[OF g(1), of "brk h"] by blast
    have A: "insert (brk h) A - {brk h} = A" using g(2) by auto
    have "hlo h \<le> brk h" using ok by (simp add: heap_ok_def)
    then have "set_size (h\<lparr>brk := brk h + n\<rparr>) (brk h) (n) = Some ?h" using n(2) by (simp add: set_size_def mapped_def)
    moreover have "sbrk h (w * 8) = (Some (brk h), h\<lparr>brk := brk h + n\<rparr>)"
      using True sb n(2) by (simp add: sbrk_def nat_add_distrib)
    ultimately have "morecore h nu = Some (freep h', h')" using f(1) by (simp add: morecore_def Let_def flip: w_def n_def)
    moreover have "freep h' \<noteq> 0" using f(2) free_sorted[OF f(2)] by (auto simp: heap_ok_def)
    moreover have "\<exists>a \<in> set fs'. unat nu \<le> hsize h' a" using f(5) n(3) by (fastforce intro: le_trans)
    moreover have "\<forall>a \<in> A. hsize h' a = hsize h a" using f(4) g(2) unfolding A by auto
    ultimately show ?thesis using f(2,3) unfolding A by (intro exI[of _ "freep h'"] exI[of _ h']) (auto simp: same_frame_def)
  qed
qed

section \<open>The search for a block that is large enough\<close>

lemma take_ok:
  assumes ok: "heap_ok h fs A" and i: "i < length fs" and n: "0 < n" "n \<le> hsize h (fs ! i)"
  shows "\<exists>q h'. take_block h n ((hbase h # fs) ! i) (fs ! i) = Some (q + 1, h') \<and> taken h A n q h'"
proof (cases "n = hsize h (fs ! i)")
  case True
  have "hbase h # fs = take i (hbase h # fs) @ (hbase h # fs) ! i # drop (Suc i) (hbase h # fs)" using i by (intro id_take_nth_drop) simp
  also have "drop (Suc i) (hbase h # fs) = fs ! i # drop (Suc i) fs" using i by (simp add: Cons_nth_drop_Suc)
  finally show ?thesis using take_exact[OF ok] True by blast
next
  case False
  have "(hbase h # fs) ! i \<in> insert (hbase h) (set fs)" using nth_mem[of i "hbase h # fs"] i by simp
  then show ?thesis using take_split[OF ok, of "fs ! i"] i n False by simp
qed

text \<open>The elements of the circle after one another, and how far one is from another.\<close>

definition nxt :: "nat \<Rightarrow> nat \<Rightarrow> nat" where
  "nxt n k = (if k < n then k + 1 else 0)"

definition far :: "nat \<Rightarrow> nat \<Rightarrow> nat \<Rightarrow> nat" where
  "far n k m = (if k \<le> m then m - k else m + n + 1 - k)"

lemma far_nxt: "k \<le> n \<Longrightarrow> m \<le> n \<Longrightarrow> k \<noteq> m \<Longrightarrow> Suc (far n (nxt n k) m) = far n k m \<and> nxt n k \<le> n"
  by (auto simp: far_def nxt_def)

lemma far_0: "k \<le> n \<Longrightarrow> m \<le> n \<Longrightarrow> far n k m = 0 \<longleftrightarrow> k = m"
  by (auto simp: far_def)

lemma far_start: "f \<le> n \<Longrightarrow> m \<le> n \<Longrightarrow> far n (nxt n f) m \<le> far n (nxt n f) f"
  by (auto simp: far_def nxt_def)

lemma circle_size:
  assumes "heap_ok h fs A" "k \<le> length fs"
  shows "size_of h ((hbase h # fs) ! k) = Some (hsize h ((hbase h # fs) ! k))"
proof -
  have "(hbase h # fs) ! k \<in> insert (hbase h) (set fs)" using nth_mem[of k "hbase h # fs"] assms(2) by auto
  then have "mapped h ((hbase h # fs) ! k)" using heap_ok_mapped[OF assms(1)] by blast
  then show ?thesis by (simp add: size_of_def)
qed

lemma circle_ptr:
  assumes "heap_ok h fs A" "k \<le> length fs"
  shows "ptr h ((hbase h # fs) ! k) = Some ((hbase h # fs) ! nxt (length fs) k)"
  using circle_next[OF assms] assms(2) by (auto simp: nxt_def)

lemma circle_inj:
  assumes "heap_ok h fs A" "k \<le> length fs" "f \<le> length fs" "(hbase h # fs) ! k = (hbase h # fs) ! f"
  shows "k = f"
proof -
  have "distinct (hbase h # fs)" using free_sorted[OF assms(1)] strict_sorted_iff by blast
  then show ?thesis using assms(2-4) nth_eq_iff_index_eq[of "hbase h # fs" k f] by simp
qed

text \<open>A block that is large enough is taken, if the search comes to one before it is round.\<close>

lemma scan_finds:
  assumes ok: "heap_ok h fs A" and f: "freep h = (hbase h # fs) ! f" "f \<le> length fs"
    and m: "m < length fs" "unat nu \<le> hsize h (fs ! m)" and nu: "0 < unat nu"
  shows "i \<le> length fs \<Longrightarrow> far (length fs) (nxt (length fs) i) (Suc m) \<le> far (length fs) (nxt (length fs) i) f \<Longrightarrow>
    \<exists>q h'. malloc_loop h nu ((hbase h # fs) ! i) ((hbase h # fs) ! nxt (length fs) i) = Some (q + 1, h') \<and> taken h A (unat nu) q h'"
proof (induction "far (length fs) (nxt (length fs) i) (Suc m)" arbitrary: i rule: less_induct)
  case less
  let ?c = "hbase h # fs" and ?k = "nxt (length fs) i"
  have k: "?k \<le> length fs" using less.prems by (auto simp: nxt_def)
  note sz = circle_size[OF ok k]
  show ?case
  proof (cases "unat nu \<le> hsize h (?c ! ?k)")
    case True
    have "hsize h (hbase h) = 0" using ok by (simp add: heap_ok_def)
    then have "?k \<noteq> 0" using True nu by (cases ?k) auto
    then have i: "i < length fs" "?c ! ?k = fs ! i" by (auto simp: nxt_def split: if_splits)
    obtain q h' where t: "take_block h (unat nu) (?c ! i) (?c ! ?k) = Some (q + 1, h')" "taken h A (unat nu) q h'"
      using take_ok[OF ok i(1) nu] True i(2) by auto
    have "malloc_loop h nu (?c ! i) (?c ! ?k) = Some (q + 1, h')" by (subst malloc_loop.simps) (use sz True t in simp)
    then show ?thesis using t(2) by blast
  next
    case False
    then have km: "?k \<noteq> Suc m" using m by auto
    then have "far (length fs) ?k (Suc m) \<noteq> 0" using far_0[OF k, of "Suc m"] m(1) by simp
    then have "?k \<noteq> f" using less.prems(2) far_0[OF k f(2)] by auto
    then have kf: "?c ! ?k \<noteq> freep h" using circle_inj[OF ok k f(2)] f(1) by metis
    have "malloc_loop h nu (?c ! i) (?c ! ?k) = malloc_loop h nu (?c ! ?k) (?c ! nxt (length fs) ?k)"
      by (subst malloc_loop.simps) (use sz False kf circle_ptr[OF ok k] in simp)
    moreover have "\<exists>q h'. malloc_loop h nu (?c ! ?k) (?c ! nxt (length fs) ?k) = Some (q + 1, h') \<and> taken h A (unat nu) q h'"
      by (rule less.hyps) (use far_nxt[OF k _ km] far_nxt[OF k f(2) \<open>?k \<noteq> f\<close>] m(1) k less.prems in auto)
    ultimately show ?thesis by simp
  qed
qed

text \<open>Otherwise it goes round and asks for more memory.\<close>

lemma scan_round:
  assumes ok: "heap_ok h fs A" and f: "freep h = (hbase h # fs) ! f" "f \<le> length fs"
    and small: "\<forall>a \<in> set (hbase h # fs). hsize h a < unat nu"
  shows "i \<le> length fs \<Longrightarrow> malloc_loop h nu ((hbase h # fs) ! i) ((hbase h # fs) ! nxt (length fs) i) =
    (case morecore h nu of None \<Rightarrow> None
     | Some (p, h) \<Rightarrow> if p = 0 then Some (0, h) else (case ptr h p of None \<Rightarrow> None | Some q \<Rightarrow> malloc_loop h nu p q))"
proof (induction "far (length fs) (nxt (length fs) i) f" arbitrary: i rule: less_induct)
  case less
  let ?c = "hbase h # fs" and ?k = "nxt (length fs) i"
  have k: "?k \<le> length fs" using less.prems by (auto simp: nxt_def)
  note sz = circle_size[OF ok k]
  have sm: "\<not> unat nu \<le> hsize h (?c ! ?k)" using small nth_mem[of ?k ?c] k by (auto simp: not_le)
  show ?case
  proof (cases "?k = f")
    case True
    then show ?thesis by (subst malloc_loop.simps) (use sz sm f in simp)
  next
    case False
    then have kf: "?c ! ?k \<noteq> freep h" using circle_inj[OF ok k f(2)] f(1) by metis
    have "malloc_loop h nu (?c ! i) (?c ! ?k) = malloc_loop h nu (?c ! ?k) (?c ! nxt (length fs) ?k)"
      by (subst malloc_loop.simps) (use sz sm kf circle_ptr[OF ok k] in simp)
    also have "\<dots> = (case morecore h nu of None \<Rightarrow> None
     | Some (p, h) \<Rightarrow> if p = 0 then Some (0, h) else (case ptr h p of None \<Rightarrow> None | Some q \<Rightarrow> malloc_loop h nu p q))"
      by (rule less.hyps) (use far_nxt[OF k f(2) False] k in auto)
    finally show ?thesis .
  qed
qed

section \<open>A program that uses the allocator\<close>

lemma nunits_val:
  fixes nbytes :: "32 word"
  assumes "unat nbytes \<le> 2 ^ 31 - 16"
  shows "unat ((nbytes + 8 - 1) div 8 + 1) = (unat nbytes + 7) div 8 + 1"
proof -
  have e: "nbytes + 8 - 1 = nbytes + 7" by simp
  have "unat (nbytes + 7) = unat nbytes + 7" using assms by (simp add: unat_word_ariths)
  then have "unat ((nbytes + 7) div 8) = (unat nbytes + 7) div 8" by (simp add: unat_div)
  then show ?thesis unfolding e using assms by (simp add: unat_word_ariths)
qed

lemma malloc_loop_ok:
  assumes ok: "heap_ok h fs A" and f: "freep h = (hbase h # fs) ! f" "f \<le> length fs" and nu: "0 < unat nu" "unat nu < 2 ^ 28"
  shows "\<exists>r h'. malloc_loop h nu ((hbase h # fs) ! f) ((hbase h # fs) ! nxt (length fs) f) = Some (r, h') \<and>
    (r = 0 \<and> h' = h \<and> lim h < brk h + max 4096 (unat nu) \<or> r \<noteq> 0 \<and> taken h A (unat nu) (r - 1) h')"
proof (cases "\<exists>m < length fs. unat nu \<le> hsize h (fs ! m)")
  case True
  then obtain m where m: "m < length fs" "unat nu \<le> hsize h (fs ! m)" by blast
  have "far (length fs) (nxt (length fs) f) (Suc m) \<le> far (length fs) (nxt (length fs) f) f" using far_start[OF f(2)] m(1) by simp
  from scan_finds[OF ok f m nu(1) f(2) this] show ?thesis by fastforce
next
  case False
  have "hsize h (hbase h) = 0" using ok by (simp add: heap_ok_def)
  then have small: "\<forall>a \<in> set (hbase h # fs). hsize h a < unat nu" using False nu(1) by (auto simp: in_set_conv_nth not_le)
  note r = scan_round[OF ok f small f(2)]
  obtain p h' where mc: "morecore h nu = Some (p, h')" and res: "p = 0 \<and> h' = h \<and> lim h < brk h + max 4096 (unat nu) \<or>
      (\<exists>fs'. p \<noteq> 0 \<and> p = freep h' \<and> heap_ok h' fs' A \<and> (\<exists>a \<in> set fs'. unat nu \<le> hsize h' a) \<and> (\<forall>a \<in> A. hsize h' a = hsize h a) \<and>
       hbase h' = hbase h \<and> hlo h' = hlo h \<and> lim h' = lim h)"
    using morecore_ok[OF ok nu(2)] by blast
  show ?thesis
  proof (cases "p = 0")
    case True
    then show ?thesis using r mc res by simp
  next
    case False
    then obtain fs' a where h': "p = freep h'" "heap_ok h' fs' A" "a \<in> set fs'" "unat nu \<le> hsize h' a"
        and keep: "\<forall>a \<in> A. hsize h' a = hsize h a" "hbase h' = hbase h" "hlo h' = hlo h" "lim h' = lim h" using res by blast
    obtain m where m: "m < length fs'" "unat nu \<le> hsize h' (fs' ! m)" using h'(3,4) by (auto simp: in_set_conv_nth)
    have "p \<in> set (hbase h' # fs')" using h'(1,2) by (simp add: heap_ok_def)
    then obtain g where g: "g < length (hbase h' # fs')" "p = (hbase h' # fs') ! g" by (metis in_set_conv_nth)
    then have gl: "g \<le> length fs'" by simp
    have "far (length fs') (nxt (length fs') g) (Suc m) \<le> far (length fs') (nxt (length fs') g) g" using far_start[OF gl] m(1) by simp
    from scan_finds[OF h'(2) _ gl m nu(1) gl this] g(2) h'(1) obtain q h2 where
      q: "malloc_loop h' nu p ((hbase h' # fs') ! nxt (length fs') g) = Some (q + 1, h2)" "taken h' A (unat nu) q h2" by auto
    moreover have "ptr h' p = Some ((hbase h' # fs') ! nxt (length fs') g)" using circle_ptr[OF h'(2) gl] g(2) by simp
    moreover have "taken h A (unat nu) q h2" using q(2) keep by (simp add: taken_def)
    ultimately show ?thesis using r mc False by simp
  qed
qed

text \<open>
  Calls of the two functions and writes of the program into the blocks that it was given. The set
  holds the headers of these blocks; what \<^verbatim>\<open>malloc\<close> returns is the address behind the header.
\<close>

inductive uses :: "heap \<Rightarrow> nat set \<Rightarrow> bool" where
  uses_start: "freep h = 0 \<Longrightarrow> 0 < hbase h \<Longrightarrow> hbase h < hlo h \<Longrightarrow> hlo h \<le> brk h \<Longrightarrow> brk h \<le> lim h \<Longrightarrow> uses h {}"
| uses_malloc: "uses h A \<Longrightarrow> unat nbytes \<le> 2 ^ 31 - 16 \<Longrightarrow> malloc h nbytes = Some (r, h') \<Longrightarrow> uses h' (if r = 0 then A else insert (r - 1) A)"
| uses_free: "uses h A \<Longrightarrow> a \<in> A \<Longrightarrow> free h (a + 1) = Some h' \<Longrightarrow> uses h' (A - {a})"
| uses_write: "uses h A \<Longrightarrow> a \<in> A \<Longrightarrow> a < x \<Longrightarrow> x < a + hsize h a \<Longrightarrow>
    uses (h\<lparr>hptr := (hptr h)(x := v), hsize := (hsize h)(x := w)\<rparr>) A"

definition ready :: "heap \<Rightarrow> nat set \<Rightarrow> bool" where
  "ready h A \<longleftrightarrow> (freep h = 0 \<and> A = {} \<and> 0 < hbase h \<and> hbase h < hlo h \<and> hlo h \<le> brk h \<and> brk h \<le> lim h) \<or> (\<exists>fs. heap_ok h fs A)"

lemma ready_init:
  assumes "ready h A"
  shows "\<exists>h1 fs. malloc_init h = Some h1 \<and> heap_ok h1 fs A \<and> same_frame h h1 \<and> (\<forall>a \<in> A. hsize h1 a = hsize h a)"
proof (cases "freep h = 0")
  case True
  have "\<not> heap_ok h fs A" for fs
  proof
    assume ok: "heap_ok h fs A"
    then show False using True free_sorted[OF ok] by (auto simp: heap_ok_def)
  qed
  then have r: "A = {}" "0 < hbase h" "hbase h < hlo h" "hlo h \<le> brk h" "brk h \<le> lim h" using assms by (auto simp: ready_def)
  then show ?thesis using True
    by (auto simp: malloc_init_def set_ptr_def set_size_def mapped_def heap_ok_def free_list_def blocks_ok_def same_frame_def intro!: exI[of _ "[]"])
next
  case False
  then show ?thesis using assms by (auto simp: ready_def malloc_init_def same_frame_def)
qed

definition units :: "32 word \<Rightarrow> nat" where
  "units nbytes = unat ((nbytes + 8 - 1) div 8 + 1)"

lemma malloc_units:
  assumes "ready h A" "0 < units nbytes" "units nbytes < 2 ^ 28"
  shows "\<exists>r h'. malloc h nbytes = Some (r, h') \<and>
    (r = 0 \<and> ready h' A \<and> lim h < brk h + max 4096 (units nbytes) \<or> r \<noteq> 0 \<and> taken h A (units nbytes) (r - 1) h')"
proof -
  let ?nu = "(nbytes + 8 - 1) div 8 + 1"
  have nu: "0 < unat ?nu" "unat ?nu < 2 ^ 28" using assms(2,3) by (simp_all add: units_def)
  obtain h1 fs where h1: "malloc_init h = Some h1" "heap_ok h1 fs A" "same_frame h h1" "\<forall>a \<in> A. hsize h1 a = hsize h a"
    using ready_init[OF assms(1)] by blast
  have "freep h1 \<in> set (hbase h1 # fs)" using h1(2) by (simp add: heap_ok_def)
  then obtain f where f: "f < length (hbase h1 # fs)" "freep h1 = (hbase h1 # fs) ! f" by (metis in_set_conv_nth)
  then have fl: "f \<le> length fs" by simp
  obtain r h' where m: "malloc_loop h1 ?nu ((hbase h1 # fs) ! f) ((hbase h1 # fs) ! nxt (length fs) f) = Some (r, h')"
      "r = 0 \<and> h' = h1 \<and> lim h1 < brk h1 + max 4096 (unat ?nu) \<or> r \<noteq> 0 \<and> taken h1 A (unat ?nu) (r - 1) h'"
    using malloc_loop_ok[OF h1(2) f(2) fl nu] by blast
  have "malloc h nbytes = Some (r, h')" using h1(1) circle_ptr[OF h1(2) fl] m(1) f(2) by (simp add: malloc_def Let_def)
  moreover have "r \<noteq> 0 \<Longrightarrow> taken h A (units nbytes) (r - 1) h'"
    using m(2) h1(3,4) unfolding units_def by (auto simp: taken_def same_frame_def)
  moreover have "r = 0 \<Longrightarrow> ready h' A \<and> lim h < brk h + max 4096 (units nbytes)"
    using m(2) h1(2,3) unfolding units_def by (auto simp: ready_def same_frame_def)
  ultimately show ?thesis by (intro exI[of _ r] exI[of _ h']) auto
qed

lemma malloc_ready:
  assumes "ready h A" "unat nbytes \<le> 2 ^ 31 - 16"
  shows "\<exists>r h'. malloc h nbytes = Some (r, h') \<and>
    (r = 0 \<and> ready h' A \<and> lim h < brk h + max 4096 ((unat nbytes + 7) div 8 + 1) \<or> r \<noteq> 0 \<and> taken h A ((unat nbytes + 7) div 8 + 1) (r - 1) h')"
proof -
  have n: "units nbytes = (unat nbytes + 7) div 8 + 1" unfolding units_def by (rule nunits_val[OF assms(2)])
  then have "0 < units nbytes" "units nbytes < 2 ^ 28" using assms(2) by auto
  from malloc_units[OF assms(1) this] show ?thesis unfolding n .
qed

lemma write_ok:
  assumes ok: "heap_ok h fs A" and x: "a \<in> A" "a < x" "x < a + hsize h a"
  shows "heap_ok (h\<lparr>hptr := (hptr h)(x := v), hsize := (hsize h)(x := w)\<rparr>) fs A" (is "heap_ok ?h fs A")
proof -
  have b: "blocks_ok h (set fs \<union> A)" using ok by (simp add: heap_ok_def)
  have "x \<in> cells h a" using x by (simp add: cells_def)
  then have xB: "x \<notin> set fs \<union> A" using cells_not_block[OF b] x by blast
  have "hlo h \<le> a" using b x(1) by (simp add: blocks_ok_def)
  then have xb: "x \<noteq> hbase h" using ok x(2) by (auto simp: heap_ok_def)
  note ci = heap_ok_circle[OF ok refl]
  have "linked ?h ((hbase h # fs) @ [hbase h])" using ci(1) links_upd[of ?h h x v "hbase h # fs" "hbase h"] xB xb by simp
  moreover have "gaps ?h (hbase h # fs)" by (rule gaps_upd[OF _ _ ci(2), of _ x w]) (use xB xb in auto)
  moreover have "blocks_ok ?h (set fs \<union> A)" by (rule blocks_ok_cong[OF _ _ _ b]) (use xB in auto)
  ultimately show ?thesis using ok xb unfolding heap_ok_def free_list_def by simp
qed

lemma ready_ok: "ready h A \<Longrightarrow> a \<in> A \<Longrightarrow> \<exists>fs. heap_ok h fs A"
  by (auto simp: ready_def)

lemma uses_ready: "uses h A \<Longrightarrow> ready h A"
proof (induction rule: uses.induct)
  case (uses_start h)
  then show ?case by (simp add: ready_def)
next
  case (uses_malloc h A nbytes r h')
  then show ?case using malloc_ready[of h A nbytes] by (auto simp: ready_def taken_def)
next
  case (uses_free h A a h')
  obtain fs where ok: "heap_ok h fs A" using ready_ok[OF uses_free.IH uses_free.hyps(2)] by blast
  from free_ok[OF ok uses_free.hyps(2)] uses_free.hyps(3) show ?case by (auto simp: ready_def)
next
  case (uses_write h A a x v w)
  obtain fs where ok: "heap_ok h fs A" using ready_ok[OF uses_write.IH uses_write.hyps(2)] by blast
  from write_ok[OF ok uses_write.hyps(2-4)] show ?case by (auto simp: ready_def)
qed

text \<open>
  C38: After any calls of malloc and free and any writes into the blocks handed out, both functions
  return: malloc gives a new block inside of the memory, with room for the request, which overlaps none
  of the blocks in use and leaves their sizes alone, or it fails, which happens only when the kernel has
  no more memory; and every block in use can be given back.
\<close>

theorem malloc_safe:
  assumes "uses h A" "unat nbytes \<le> 2 ^ 31 - 16"
  shows "(\<exists>r h'. malloc h nbytes = Some (r, h') \<and>
      (if r = 0 then lim h < brk h + max 4096 ((unat nbytes + 7) div 8 + 1)
       else r - 1 \<notin> A \<and> unat nbytes \<le> 8 * (hsize h' (r - 1) - 1) \<and> hlo h \<le> r - 1 \<and> r - 1 + hsize h' (r - 1) \<le> brk h' \<and>
         (\<forall>a \<in> A. hsize h' a = hsize h a \<and> cells h' a \<inter> cells h' (r - 1) = {}))) \<and>
    (\<forall>a \<in> A. \<exists>h'. free h (a + 1) = Some h')"
proof
  note rd = uses_ready[OF assms(1)]
  show "\<forall>a \<in> A. \<exists>h'. free h (a + 1) = Some h'"
  proof
    fix a assume a: "a \<in> A"
    then obtain fs where "heap_ok h fs A" using ready_ok[OF rd] by blast
    then show "\<exists>h'. free h (a + 1) = Some h'" using free_ok a by blast
  qed
  obtain r h' where m: "malloc h nbytes = Some (r, h')" and c: "r = 0 \<and> ready h' A \<and> lim h < brk h + max 4096 ((unat nbytes + 7) div 8 + 1) \<or>
      r \<noteq> 0 \<and> taken h A ((unat nbytes + 7) div 8 + 1) (r - 1) h'" using malloc_ready[OF rd assms(2)] by blast
  have "r - 1 \<notin> A \<and> unat nbytes \<le> 8 * (hsize h' (r - 1) - 1) \<and> hlo h \<le> r - 1 \<and> r - 1 + hsize h' (r - 1) \<le> brk h' \<and>
      (\<forall>a \<in> A. hsize h' a = hsize h a \<and> cells h' a \<inter> cells h' (r - 1) = {})" if "r \<noteq> 0"
  proof -
    from c that obtain fs where t: "heap_ok h' fs (insert (r - 1) A)" "r - 1 \<notin> A" "hsize h' (r - 1) = (unat nbytes + 7) div 8 + 1"
      "\<forall>a \<in> A. hsize h' a = hsize h a" "hlo h' = hlo h" by (auto simp: taken_def)
    then have b: "blocks_ok h' (set fs \<union> insert (r - 1) A)" by (simp add: heap_ok_def)
    have "hlo h' \<le> r - 1 \<and> r - 1 + hsize h' (r - 1) \<le> brk h'" using b by (simp add: blocks_ok_def)
    moreover have "cells h' a \<inter> cells h' (r - 1) = {}" if "a \<in> A" for a
    proof -
      have "a \<noteq> r - 1" using that t(2) by blast
      then show ?thesis using b that unfolding blocks_ok_def by blast
    qed
    ultimately show ?thesis using t by auto
  qed
  then show "\<exists>r h'. malloc h nbytes = Some (r, h') \<and>
      (if r = 0 then lim h < brk h + max 4096 ((unat nbytes + 7) div 8 + 1)
       else r - 1 \<notin> A \<and> unat nbytes \<le> 8 * (hsize h' (r - 1) - 1) \<and> hlo h \<le> r - 1 \<and> r - 1 + hsize h' (r - 1) \<le> brk h' \<and>
         (\<forall>a \<in> A. hsize h' a = hsize h a \<and> cells h' a \<inter> cells h' (r - 1) = {}))"
    using m c by (intro exI[of _ r] exI[of _ h']) auto
qed

definition demo_heap :: heap where
  "demo_heap = \<lparr>hptr = (\<lambda>_. 0), hsize = (\<lambda>_. 0), hbase = 10, hlo = 512, brk = 512, lim = 100000, freep = 0\<rparr>"

theorem malloc_safe_witness:
  "\<exists>r h'. malloc demo_heap 100 = Some (r, h') \<and> 0 < r \<and> 13 \<le> hsize h' (r - 1) - 1 \<and> 512 \<le> r - 1"
proof -
  have "uses demo_heap {}" by (rule uses_start) (simp_all add: demo_heap_def)
  from malloc_safe[OF this, of 100] obtain r h' where "malloc demo_heap 100 = Some (r, h')"
    "if r = 0 then lim demo_heap < brk demo_heap + 4096 else 100 \<le> 8 * (hsize h' (r - 1) - 1) \<and> hlo demo_heap \<le> r - 1"
    by (auto split: if_splits)
  then show ?thesis by (intro exI[of _ r] exI[of _ h']) (auto simp: demo_heap_def split: if_splits)
qed

text \<open>A request close to the largest word is rounded to a single header, so the block has no room at all.\<close>

lemma malloc_wraps: "\<exists>r h'. malloc demo_heap 0xFFFFFFFF = Some (r, h') \<and> 0 < r \<and> hsize h' (r - 1) = 1"
proof -
  have u: "units 0xFFFFFFFF = 1" by (simp add: units_def)
  have "ready demo_heap {}" by (simp add: ready_def demo_heap_def)
  from malloc_units[OF this, of "0xFFFFFFFF"] u obtain r h' where m: "malloc demo_heap 0xFFFFFFFF = Some (r, h')"
    "r = 0 \<and> lim demo_heap < brk demo_heap + 4096 \<or> r \<noteq> 0 \<and> hsize h' (r - 1) = 1" by (auto simp: taken_def)
  then show ?thesis by (intro exI[of _ r] exI[of _ h']) (auto simp: demo_heap_def)
qed

end
