(* ===== verification/Proc.thy ===== *)
theory Proc
  imports Prelude
begin

text \<open>
  The process table (src/src/proc.c, proc.h). A process is an index of the table. The model has the
  fields that the table is managed by; page tables, saved registers, open files and the current
  directory of a process are not part of it. Every section of the code that holds the lock of the
  table is one step, so the interleavings of several processors are the sequences of these steps.
  Whether an allocation of memory succeeds is an argument.
\<close>

section \<open>The code\<close>

definition NPROC :: nat where "NPROC = 64"

datatype procstate = UNUSED | EMBRYO | SLEEPING | RUNNABLE | RUNNING | ZOMBIE

text \<open>What a process can sleep on: nothing, the address of a process, or some other address.\<close>

datatype chan = NoChan | ProcChan nat | AddrChan nat

record proc =
  pstate :: procstate
  pid :: int
  parent :: "nat option"
  pchan :: chan
  killed :: bool
  kstack :: "nat option"
  psz :: "32 word"
  pname :: cstring

record ptable =
  procs :: "proc list"
  nextpid :: int
  initproc :: nat

definition set_proc :: "nat \<Rightarrow> (proc \<Rightarrow> proc) \<Rightarrow> ptable \<Rightarrow> ptable" where
  "set_proc i f t = t\<lparr>procs := (procs t)[i := f (procs t ! i)]\<rparr>"

text \<open>The first index from \<open>i\<close> on with a property.\<close>

function find_from :: "(proc \<Rightarrow> bool) \<Rightarrow> nat \<Rightarrow> ptable \<Rightarrow> nat option" where
  "find_from P i t = (if i < length (procs t) then (if P (procs t ! i) then Some i else find_from P (i + 1) t) else None)"
  by pat_completeness auto
termination by (relation "measure (\<lambda>(P, i, t). length (procs t) - i)") auto

declare find_from.simps [simp del]

text \<open>The locked part of \<^verbatim>\<open>allocproc\<close>, and the rest of it, which has the slot for itself.\<close>

definition alloc_slot :: "ptable \<Rightarrow> (nat \<times> ptable) option" where
  "alloc_slot t = (case find_from (\<lambda>p. pstate p = UNUSED) 0 t of
       None \<Rightarrow> None
     | Some i \<Rightarrow> Some (i, (set_proc i (\<lambda>p. p\<lparr>pstate := EMBRYO, pid := nextpid t\<rparr>) t)\<lparr>nextpid := nextpid t + 1\<rparr>))"

definition alloc_stack :: "nat \<Rightarrow> nat option \<Rightarrow> ptable \<Rightarrow> bool \<times> ptable" where
  "alloc_stack i page t = (case page of
       None \<Rightarrow> (False, set_proc i (\<lambda>p. p\<lparr>kstack := None, pstate := UNUSED\<rparr>) t)
     | Some a \<Rightarrow> (True, set_proc i (\<lambda>p. p\<lparr>kstack := Some a\<rparr>) t))"

text \<open>The rest of \<^verbatim>\<open>fork\<close>: the stack, the copy of the memory, and the fields of the child.\<close>

definition fork_rest :: "nat \<Rightarrow> nat \<Rightarrow> nat option \<Rightarrow> bool \<Rightarrow> ptable \<Rightarrow> int \<times> ptable" where
  "fork_rest me np page copied t =
     (case alloc_stack np page t of
        (False, t) \<Rightarrow> (- 1, t)
      | (True, t) \<Rightarrow>
          if \<not> copied then (- 1, set_proc np (\<lambda>p. p\<lparr>kstack := None, pstate := UNUSED\<rparr>) t)
          else (pid (procs t ! np),
                set_proc np (\<lambda>p. p\<lparr>psz := psz (procs t ! me), parent := Some me, pstate := RUNNABLE, pname := pname (procs t ! me)\<rparr>) t))"

definition wakeup1 :: "chan \<Rightarrow> ptable \<Rightarrow> ptable" where
  "wakeup1 c t = t\<lparr>procs := map (\<lambda>p. if pstate p = SLEEPING \<and> pchan p = c then p\<lparr>pstate := RUNNABLE\<rparr> else p) (procs t)\<rparr>"

text \<open>Passing the children of a process to the first process: one child, and the loop.\<close>

definition adopt :: "nat \<Rightarrow> nat \<Rightarrow> ptable \<Rightarrow> ptable" where
  "adopt me i t =
     (if parent (procs t ! i) = Some me
      then let t = set_proc i (\<lambda>p. p\<lparr>parent := Some (initproc t)\<rparr>) t in
           if pstate (procs t ! i) = ZOMBIE then wakeup1 (ProcChan (initproc t)) t else t
      else t)"

lemma adopt_length [simp]: "length (procs (adopt me i t)) = length (procs t)"
  by (simp add: adopt_def set_proc_def wakeup1_def Let_def)

function reparent :: "nat \<Rightarrow> nat \<Rightarrow> ptable \<Rightarrow> ptable" where
  "reparent me i t = (if i < length (procs t) then reparent me (i + 1) (adopt me i t) else t)"
  by pat_completeness auto
termination by (relation "measure (\<lambda>(me, i, t). length (procs t) - i)") auto

declare reparent.simps [simp del]

text \<open>The parent of a process may be the null pointer, which no process sleeps on.\<close>

definition parent_chan :: "nat option \<Rightarrow> chan" where
  "parent_chan p = (case p of None \<Rightarrow> NoChan | Some i \<Rightarrow> ProcChan i)"

text \<open>\<^verbatim>\<open>exit\<close>, where None is the panic of the first process.\<close>

definition exit :: "nat \<Rightarrow> ptable \<Rightarrow> ptable option" where
  "exit me t =
     (if me = initproc t then None
      else let t = wakeup1 (parent_chan (parent (procs t ! me))) t;
               t = reparent me 0 t
           in Some (set_proc me (\<lambda>p. p\<lparr>pstate := ZOMBIE\<rparr>) t))"

text \<open>One round of \<^verbatim>\<open>wait\<close>: the pid of a child, -1, or going to sleep.\<close>

datatype wait_result = Waited int | Waits

definition reap :: "nat \<Rightarrow> ptable \<Rightarrow> ptable" where
  "reap i t = set_proc i (\<lambda>p. p\<lparr>kstack := None, pstate := UNUSED, pid := 0, parent := None, pname := [], killed := False\<rparr>) t"

definition sleep :: "nat \<Rightarrow> chan \<Rightarrow> ptable \<Rightarrow> ptable" where
  "sleep me c t = set_proc me (\<lambda>p. p\<lparr>pchan := c, pstate := SLEEPING\<rparr>) t"

definition wait :: "nat \<Rightarrow> ptable \<Rightarrow> wait_result \<times> ptable" where
  "wait me t = (case find_from (\<lambda>p. parent p = Some me \<and> pstate p = ZOMBIE) 0 t of
       Some i \<Rightarrow> (Waited (pid (procs t ! i)), reap i t)
     | None \<Rightarrow>
         if find_from (\<lambda>p. parent p = Some me) 0 t = None \<or> killed (procs t ! me) then (Waited (- 1), t)
         else (Waits, sleep me (ProcChan me) t))"

text \<open>Back from \<^verbatim>\<open>sched\<close> in \<^verbatim>\<open>sleep\<close>.\<close>

definition sleep_end :: "nat \<Rightarrow> ptable \<Rightarrow> ptable" where
  "sleep_end me t = set_proc me (\<lambda>p. p\<lparr>pchan := NoChan\<rparr>) t"

definition yield :: "nat \<Rightarrow> ptable \<Rightarrow> ptable" where
  "yield me t = set_proc me (\<lambda>p. p\<lparr>pstate := RUNNABLE\<rparr>) t"

text \<open>A scheduler that is at index \<open>i\<close> takes the next process that can run.\<close>

definition schedule :: "nat \<Rightarrow> ptable \<Rightarrow> (nat \<times> ptable) option" where
  "schedule i t = (case find_from (\<lambda>p. pstate p = RUNNABLE) i t of
       None \<Rightarrow> None
     | Some j \<Rightarrow> Some (j, set_proc j (\<lambda>p. p\<lparr>pstate := RUNNING\<rparr>) t))"

definition kill :: "int \<Rightarrow> ptable \<Rightarrow> int \<times> ptable" where
  "kill n t = (case find_from (\<lambda>p. pid p = n) 0 t of
       None \<Rightarrow> (- 1, t)
     | Some i \<Rightarrow> (0, set_proc i (\<lambda>p. p\<lparr>killed := True, pstate := (if pstate p = SLEEPING then RUNNABLE else pstate p)\<rparr>) t))"

definition unused_proc :: proc where
  "unused_proc = \<lparr>pstate = UNUSED, pid = 0, parent = None, pchan = NoChan, killed = False, kstack = None, psz = 0, pname = []\<rparr>"

text \<open>The table at the start, and the first process, for which there is memory.\<close>

definition pinit :: ptable where
  "pinit = \<lparr>procs = replicate NPROC unused_proc, nextpid = 1, initproc = 0\<rparr>"

definition userinit :: "nat \<Rightarrow> ptable \<Rightarrow> ptable option" where
  "userinit page t = (case alloc_slot t of None \<Rightarrow> None
     | Some (i, t) \<Rightarrow>
         let t = snd (alloc_stack i (Some page) t)\<lparr>initproc := i\<rparr> in
         Some (set_proc i (\<lambda>p. p\<lparr>psz := 4096, pname := lit ''initcode'', pstate := RUNNABLE\<rparr>) t))"

section \<open>Processes that call into the kernel\<close>

text \<open>
  Where a process is: in its own program or a system call without waiting, in \<^verbatim>\<open>fork\<close> with the slot of the
  child, in \<^verbatim>\<open>wait\<close>, or sleeping for something else. A running process may be preempted anywhere.
\<close>

datatype place = Running_free | In_fork nat | In_wait | In_sleep

record system =
  table :: ptable
  at :: "nat \<Rightarrow> place"

definition running :: "system \<Rightarrow> nat \<Rightarrow> bool" where
  "running s me \<longleftrightarrow> me < NPROC \<and> pstate (procs (table s) ! me) = RUNNING"

definition wait_place :: "wait_result \<Rightarrow> place" where
  "wait_place r = (case r of Waited _ \<Rightarrow> Running_free | Waits \<Rightarrow> In_wait)"

text \<open>
  The counter of the pids is an int: what happens once it has passed the largest one is not defined by C,
  and the steps end there.
\<close>

inductive kstep :: "system \<Rightarrow> system \<Rightarrow> bool" where
  fork_none: "running s me \<Longrightarrow> at s me = Running_free \<Longrightarrow> alloc_slot (table s) = None \<Longrightarrow> kstep s s"
| fork_start: "running s me \<Longrightarrow> at s me = Running_free \<Longrightarrow> nextpid (table s) < 2147483647 \<Longrightarrow> alloc_slot (table s) = Some (np, t) \<Longrightarrow>
    kstep s \<lparr>table = t, at = (at s)(me := In_fork np)\<rparr>"
| fork_end: "running s me \<Longrightarrow> at s me = In_fork np \<Longrightarrow> fork_rest me np page copied (table s) = (r, t) \<Longrightarrow>
    kstep s \<lparr>table = t, at = (at s)(me := Running_free)\<rparr>"
| do_exit: "running s me \<Longrightarrow> at s me = Running_free \<Longrightarrow> exit me (table s) = Some t \<Longrightarrow> kstep s (s\<lparr>table := t\<rparr>)"
| wait_call: "running s me \<Longrightarrow> at s me = Running_free \<Longrightarrow> wait me (table s) = (r, t) \<Longrightarrow>
    kstep s \<lparr>table = t, at = (at s)(me := wait_place r)\<rparr>"
| wait_again: "running s me \<Longrightarrow> at s me = In_wait \<Longrightarrow> wait me (sleep_end me (table s)) = (r, t) \<Longrightarrow>
    kstep s \<lparr>table = t, at = (at s)(me := wait_place r)\<rparr>"
| sleep_enter: "running s me \<Longrightarrow> at s me = Running_free \<Longrightarrow>
    kstep s \<lparr>table = sleep me (AddrChan c) (table s), at = (at s)(me := In_sleep)\<rparr>"
| sleep_return: "running s me \<Longrightarrow> at s me = In_sleep \<Longrightarrow>
    kstep s \<lparr>table = sleep_end me (table s), at = (at s)(me := Running_free)\<rparr>"
| do_wakeup: "kstep s (s\<lparr>table := wakeup1 (AddrChan c) (table s)\<rparr>)"
| do_kill: "kill n (table s) = (r, t) \<Longrightarrow> kstep s (s\<lparr>table := t\<rparr>)"
| do_yield: "running s me \<Longrightarrow> kstep s (s\<lparr>table := yield me (table s)\<rparr>)"
| do_schedule: "schedule i (table s) = Some (j, t) \<Longrightarrow> kstep s (s\<lparr>table := t\<rparr>)"

inductive kreach :: "system \<Rightarrow> bool" where
  kreach_boot: "userinit page pinit = Some t \<Longrightarrow> kreach \<lparr>table = t, at = (\<lambda>_. Running_free)\<rparr>"
| kreach_step: "kreach s \<Longrightarrow> kstep s s' \<Longrightarrow> kreach s'"

section \<open>What the operations do to the entries of the table\<close>

lemma set_proc_simps [simp]:
  "length (procs (set_proc i f t)) = length (procs t)" "nextpid (set_proc i f t) = nextpid t" "initproc (set_proc i f t) = initproc t"
  by (simp_all add: set_proc_def)

lemma nth_set_proc [simp]: "j < length (procs t) \<Longrightarrow> procs (set_proc i f t) ! j = (if j = i then f (procs t ! i) else procs t ! j)"
  by (auto simp: set_proc_def)

lemma wakeup1_simps [simp]:
  "length (procs (wakeup1 c t)) = length (procs t)" "nextpid (wakeup1 c t) = nextpid t" "initproc (wakeup1 c t) = initproc t"
  by (simp_all add: wakeup1_def)

lemma nth_wakeup1 [simp]:
  "j < length (procs t) \<Longrightarrow> procs (wakeup1 c t) ! j =
     (if pstate (procs t ! j) = SLEEPING \<and> pchan (procs t ! j) = c then (procs t ! j)\<lparr>pstate := RUNNABLE\<rparr> else procs t ! j)"
  by (simp add: wakeup1_def)

lemma find_from_Some: "find_from P i t = Some j \<Longrightarrow> i \<le> j \<and> j < length (procs t) \<and> P (procs t ! j)"
proof (induction P i t rule: find_from.induct)
  case (1 P i t)
  from 1(2) show ?case by (subst (asm) find_from.simps) (use 1(1) in \<open>fastforce split: if_splits\<close>)
qed

lemma find_from_None: "find_from P i t = None \<longleftrightarrow> (\<forall>j. i \<le> j \<and> j < length (procs t) \<longrightarrow> \<not> P (procs t ! j))"
proof (induction P i t rule: find_from.induct)
  case (1 P i t)
  show ?case
  proof (cases "i < length (procs t)")
    case True
    have le: "i \<le> j \<longleftrightarrow> j = i \<or> i + 1 \<le> j" for j by auto
    show ?thesis using 1 True by (subst find_from.simps) (auto simp: le)
  qed (subst find_from.simps, auto)
qed

definition zombie_child :: "nat \<Rightarrow> nat \<Rightarrow> ptable \<Rightarrow> bool" where
  "zombie_child me i t \<longleftrightarrow> (\<exists>k. i \<le> k \<and> k < length (procs t) \<and> parent (procs t ! k) = Some me \<and> pstate (procs t ! k) = ZOMBIE)"

definition adopted :: "nat \<Rightarrow> nat \<Rightarrow> ptable \<Rightarrow> nat \<Rightarrow> proc" where
  "adopted me i t j =
     (let p = procs t ! j;
          q = (if i \<le> j \<and> parent p = Some me then p\<lparr>parent := Some (initproc t)\<rparr> else p)
      in if zombie_child me i t \<and> pstate p = SLEEPING \<and> pchan p = ProcChan (initproc t) then q\<lparr>pstate := RUNNABLE\<rparr> else q)"

lemma adopted_fields:
  "pid (adopted me i t j) = pid (procs t ! j)" "pchan (adopted me i t j) = pchan (procs t ! j)"
  "parent (adopted me i t j) = (if i \<le> j \<and> parent (procs t ! j) = Some me then Some (initproc t) else parent (procs t ! j))"
  "pstate (adopted me i t j) =
     (if zombie_child me i t \<and> pstate (procs t ! j) = SLEEPING \<and> pchan (procs t ! j) = ProcChan (initproc t) then RUNNABLE else pstate (procs t ! j))"
  by (simp_all add: adopted_def Let_def)

lemma zombie_child_step:
  "i < length (procs t) \<Longrightarrow> zombie_child me i t \<longleftrightarrow> parent (procs t ! i) = Some me \<and> pstate (procs t ! i) = ZOMBIE \<or> zombie_child me (i + 1) t"
  by (auto simp: zombie_child_def Suc_le_eq dest: le_neq_implies_less intro: less_imp_le)

lemma adopt_simps [simp]: "nextpid (adopt me i t) = nextpid t" "initproc (adopt me i t) = initproc t"
  by (simp_all add: adopt_def Let_def)

lemma nth_adopt:
  assumes "i < length (procs t)" "j < length (procs t)"
  shows "procs (adopt me i t) ! j =
    (let p = procs t ! j;
         q = (if j = i \<and> parent p = Some me then p\<lparr>parent := Some (initproc t)\<rparr> else p)
     in if parent (procs t ! i) = Some me \<and> pstate (procs t ! i) = ZOMBIE \<and> pstate p = SLEEPING \<and> pchan p = ProcChan (initproc t)
        then q\<lparr>pstate := RUNNABLE\<rparr> else q)"
  using assms by (simp add: adopt_def Let_def)

lemma zombie_child_adopt:
  assumes "i < length (procs t)"
  shows "zombie_child me (i + 1) (adopt me i t) \<longleftrightarrow> zombie_child me (i + 1) t"
proof -
  have "parent (procs (adopt me i t) ! k) = parent (procs t ! k) \<and> (pstate (procs (adopt me i t) ! k) = ZOMBIE \<longleftrightarrow> pstate (procs t ! k) = ZOMBIE)"
    if "i + 1 \<le> k" "k < length (procs t)" for k
    using that assms by (simp add: nth_adopt Let_def)
  then show ?thesis unfolding zombie_child_def adopt_length by metis
qed

lemma adopted_adopt:
  assumes "i < length (procs t)" "j < length (procs t)"
  shows "adopted me (i + 1) (adopt me i t) j = adopted me i t j"
proof -
  have le: "i \<le> j \<longleftrightarrow> j = i \<or> i + 1 \<le> j" by auto
  show ?thesis
    unfolding adopted_def zombie_child_adopt[OF assms(1)] zombie_child_step[OF assms(1)] nth_adopt[OF assms] adopt_simps le
    by (cases "pstate (procs t ! j) = SLEEPING \<and> pchan (procs t ! j) = ProcChan (initproc t)"; cases "parent (procs t ! j) = Some me";
        cases "j = i"; cases "zombie_child me (i + 1) t") (auto simp: Let_def)
qed

lemma reparent_adopts:
  "length (procs (reparent me i t)) = length (procs t) \<and> nextpid (reparent me i t) = nextpid t \<and> initproc (reparent me i t) = initproc t \<and>
   (\<forall>j < length (procs t). procs (reparent me i t) ! j = adopted me i t j)"
proof (induction me i t rule: reparent.induct)
  case (1 me i t)
  show ?case
  proof (cases "i < length (procs t)")
    case False
    then have "reparent me i t = t" by (subst reparent.simps) simp
    moreover have "\<not> zombie_child me i t" using False by (auto simp: zombie_child_def)
    ultimately show ?thesis using False by (simp add: adopted_def Let_def)
  next
    case True
    then have "reparent me i t = reparent me (i + 1) (adopt me i t)" by (subst reparent.simps) simp
    then show ?thesis using 1[OF True] by (simp add: adopted_adopt[OF True, simplified])
  qed
qed

lemma exit_entries:
  assumes "exit me t = Some t'"
  shows "me \<noteq> initproc t" "length (procs t') = length (procs t)" "nextpid t' = nextpid t" "initproc t' = initproc t"
    "\<And>j. j < length (procs t) \<Longrightarrow> procs t' ! j =
       (let q = adopted me 0 (wakeup1 (parent_chan (parent (procs t ! me))) t) j in if j = me then q\<lparr>pstate := ZOMBIE\<rparr> else q)"
proof -
  let ?w = "wakeup1 (parent_chan (parent (procs t ! me))) t"
  have t': "me \<noteq> initproc t" "t' = set_proc me (\<lambda>p. p\<lparr>pstate := ZOMBIE\<rparr>) (reparent me 0 ?w)"
    using assms by (simp_all add: exit_def Let_def split: if_splits)
  note r = reparent_adopts[of me 0 ?w]
  show "me \<noteq> initproc t" "length (procs t') = length (procs t)" "nextpid t' = nextpid t" "initproc t' = initproc t"
    using t' r by simp_all
  show "procs t' ! j = (let q = adopted me 0 ?w j in if j = me then q\<lparr>pstate := ZOMBIE\<rparr> else q)" if "j < length (procs t)" for j
    using t'(2) r that by (simp add: Let_def)
qed

section \<open>The invariant\<close>

definition live :: "procstate \<Rightarrow> bool" where
  "live st \<longleftrightarrow> st = SLEEPING \<or> st = RUNNABLE \<or> st = RUNNING"

text \<open>The tree of processes: everyone but the first has a parent that has not exited.\<close>

definition tree_ok :: "ptable \<Rightarrow> bool" where
  "tree_ok t \<longleftrightarrow> length (procs t) = NPROC \<and> initproc t < NPROC \<and> live (pstate (procs t ! initproc t)) \<and>
     (\<forall>i < NPROC. parent (procs t ! i) = None \<longleftrightarrow> pstate (procs t ! i) = UNUSED \<or> pstate (procs t ! i) = EMBRYO \<or> i = initproc t) \<and>
     (\<forall>i < NPROC. parent (procs t ! i) \<noteq> Some i) \<and>
     (\<forall>i < NPROC. \<forall>p. parent (procs t ! i) = Some p \<longrightarrow> p < NPROC \<and> live (pstate (procs t ! p)))"

text \<open>The numbers of the processes in use differ.\<close>

definition pids_ok :: "ptable \<Rightarrow> bool" where
  "pids_ok t \<longleftrightarrow> 0 < nextpid t \<and> nextpid t \<le> 2147483647 \<and>
     (\<forall>i < NPROC. pstate (procs t ! i) \<noteq> UNUSED \<longrightarrow> 0 < pid (procs t ! i) \<and> pid (procs t ! i) < nextpid t) \<and>
     (\<forall>i < NPROC. \<forall>j < NPROC. i \<noteq> j \<longrightarrow> pstate (procs t ! i) \<noteq> UNUSED \<longrightarrow> pstate (procs t ! j) \<noteq> UNUSED \<longrightarrow> pid (procs t ! i) \<noteq> pid (procs t ! j))"

text \<open>Who sleeps, and on what; a process that sleeps in \<^verbatim>\<open>wait\<close> has no child to collect.\<close>

definition sleepers_ok :: "system \<Rightarrow> bool" where
  "sleepers_ok s \<longleftrightarrow> (\<forall>i < NPROC. pstate (procs (table s) ! i) = SLEEPING \<longrightarrow>
     (\<exists>c. pchan (procs (table s) ! i) = AddrChan c \<and> at s i = In_sleep) \<or>
     pchan (procs (table s) ! i) = ProcChan i \<and> at s i = In_wait \<and> \<not> zombie_child i 0 (table s))"

text \<open>A slot that is being filled belongs to exactly one process in \<^verbatim>\<open>fork\<close>.\<close>

definition forks_ok :: "system \<Rightarrow> bool" where
  "forks_ok s \<longleftrightarrow> (\<forall>i. at s i \<noteq> Running_free \<longrightarrow> i < NPROC \<and> live (pstate (procs (table s) ! i))) \<and>
     (\<forall>i np. at s i = In_fork np \<longrightarrow> np < NPROC \<and> pstate (procs (table s) ! np) = EMBRYO) \<and>
     (\<forall>i j np. at s i = In_fork np \<longrightarrow> at s j = In_fork np \<longrightarrow> i = j) \<and>
     (\<forall>np < NPROC. pstate (procs (table s) ! np) = EMBRYO \<longrightarrow> (\<exists>i. at s i = In_fork np))"

definition sys_ok :: "system \<Rightarrow> bool" where
  "sys_ok s \<longleftrightarrow> tree_ok (table s) \<and> pids_ok (table s) \<and> sleepers_ok s \<and> forks_ok s"

lemma live_simps [simp]: "live SLEEPING" "live RUNNABLE" "live RUNNING" "\<not> live UNUSED" "\<not> live EMBRYO" "\<not> live ZOMBIE"
  by (simp_all add: live_def)

lemmas proc_inv = sys_ok_def tree_ok_def pids_ok_def sleepers_ok_def forks_ok_def zombie_child_def

lemma forks_okI:
  assumes "\<And>i. at s i \<noteq> Running_free \<Longrightarrow> i < NPROC \<and> live (pstate (procs (table s) ! i))"
    and "\<And>i np. at s i = In_fork np \<Longrightarrow> np < NPROC \<and> pstate (procs (table s) ! np) = EMBRYO"
    and "\<And>i j np. at s i = In_fork np \<Longrightarrow> at s j = In_fork np \<Longrightarrow> i = j"
    and "\<And>np. np < NPROC \<Longrightarrow> pstate (procs (table s) ! np) = EMBRYO \<Longrightarrow> \<exists>i. at s i = In_fork np"
  shows "forks_ok s"
  unfolding forks_ok_def using assms by blast

lemma forks_okD:
  assumes "forks_ok s"
  shows "at s i \<noteq> Running_free \<Longrightarrow> i < NPROC" "at s i \<noteq> Running_free \<Longrightarrow> live (pstate (procs (table s) ! i))"
    "at s i = In_fork np \<Longrightarrow> np < NPROC" "at s i = In_fork np \<Longrightarrow> pstate (procs (table s) ! np) = EMBRYO"
    "at s i = In_fork np \<Longrightarrow> at s j = In_fork np \<Longrightarrow> i = j"
    "np < NPROC \<Longrightarrow> pstate (procs (table s) ! np) = EMBRYO \<Longrightarrow> \<exists>i. at s i = In_fork np"
  using assms unfolding forks_ok_def by blast+

lemma tree_okI:
  assumes "length (procs t) = NPROC" "initproc t < NPROC" "live (pstate (procs t ! initproc t))"
    and "\<And>i. i < NPROC \<Longrightarrow> parent (procs t ! i) = None \<longleftrightarrow> pstate (procs t ! i) = UNUSED \<or> pstate (procs t ! i) = EMBRYO \<or> i = initproc t"
    and "\<And>i. i < NPROC \<Longrightarrow> parent (procs t ! i) \<noteq> Some i"
    and "\<And>i p. i < NPROC \<Longrightarrow> parent (procs t ! i) = Some p \<Longrightarrow> p < NPROC \<and> live (pstate (procs t ! p))"
  shows "tree_ok t"
  unfolding tree_ok_def using assms(4-6) by (simp add: assms(1-3))

text \<open>
  A change of the state of one entry between states of a live process that does not put it to sleep,
  as yielding, scheduling, waking up and being killed make it.
\<close>

definition stirred :: "ptable \<Rightarrow> ptable \<Rightarrow> bool" where
  "stirred t t' \<longleftrightarrow> length (procs t') = length (procs t) \<and> nextpid t' = nextpid t \<and> initproc t' = initproc t \<and>
     (\<forall>i < length (procs t). (let p = procs t ! i; q = procs t' ! i in
        pid q = pid p \<and> parent q = parent p \<and>
        (pstate q = pstate p \<and> pchan q = pchan p \<or> live (pstate p) \<and> live (pstate q) \<and> pstate q \<noteq> SLEEPING)))"

lemma zombie_child_cong:
  assumes "length (procs t') = length (procs t)"
    and "\<And>k. k < length (procs t) \<Longrightarrow> parent (procs t' ! k) = parent (procs t ! k)"
    and "\<And>k. k < length (procs t) \<Longrightarrow> pstate (procs t' ! k) = ZOMBIE \<longleftrightarrow> pstate (procs t ! k) = ZOMBIE"
  shows "zombie_child i 0 t' \<longleftrightarrow> zombie_child i 0 t"
  unfolding zombie_child_def assms(1) using assms(2,3) by auto

lemma stirred_zombie: "stirred t t' \<Longrightarrow> zombie_child i 0 t' \<longleftrightarrow> zombie_child i 0 t"
  unfolding stirred_def zombie_child_def Let_def by (metis live_simps(6) le0)

lemma stirred_ok:
  assumes ok: "sys_ok s" and st: "stirred (table s) t"
  shows "sys_ok (s\<lparr>table := t\<rparr>)"
proof -
  let ?t = "table s"
  have n: "length (procs ?t) = NPROC" using ok by (simp add: sys_ok_def tree_ok_def)
  have e: "pid (procs t ! i) = pid (procs ?t ! i)" "parent (procs t ! i) = parent (procs ?t ! i)"
      "pstate (procs t ! i) = pstate (procs ?t ! i) \<and> pchan (procs t ! i) = pchan (procs ?t ! i) \<or>
       live (pstate (procs ?t ! i)) \<and> live (pstate (procs t ! i)) \<and> pstate (procs t ! i) \<noteq> SLEEPING" if "i < NPROC" for i
    using st that n by (auto simp: stirred_def Let_def)
  have g: "nextpid t = nextpid ?t" "initproc t = initproc ?t" "length (procs t) = NPROC" using st n by (auto simp: stirred_def)
  have l: "live (pstate (procs t ! i)) = live (pstate (procs ?t ! i))" "pstate (procs t ! i) = UNUSED \<longleftrightarrow> pstate (procs ?t ! i) = UNUSED"
      "pstate (procs t ! i) = EMBRYO \<longleftrightarrow> pstate (procs ?t ! i) = EMBRYO" if "i < NPROC" for i
    using e(3)[OF that] by auto
  have "tree_ok t" using ok e(2) l g unfolding sys_ok_def tree_ok_def by simp
  moreover have "pids_ok t" using ok e(1) l g unfolding sys_ok_def pids_ok_def by simp
  moreover have "sleepers_ok (s\<lparr>table := t\<rparr>)"
    using ok e(3) stirred_zombie[OF st] unfolding sys_ok_def sleepers_ok_def by simp metis
  moreover have "forks_ok (s\<lparr>table := t\<rparr>)" using ok l unfolding sys_ok_def forks_ok_def by simp
  ultimately show ?thesis by (simp add: sys_ok_def)
qed

lemma sys_okD:
  assumes "sys_ok s"
  shows "length (procs (table s)) = NPROC" "initproc (table s) < NPROC" "live (pstate (procs (table s) ! initproc (table s)))"
  using assms by (simp_all add: sys_ok_def tree_ok_def)

lemma sys_ok_parent: "sys_ok s \<Longrightarrow> j < NPROC \<Longrightarrow> parent (procs (table s) ! j) = Some p \<Longrightarrow> p < NPROC \<and> live (pstate (procs (table s) ! p))"
  by (simp add: sys_ok_def tree_ok_def)

lemma sys_ok_self: "sys_ok s \<Longrightarrow> j < NPROC \<Longrightarrow> parent (procs (table s) ! j) \<noteq> Some j"
  by (simp add: sys_ok_def tree_ok_def)

lemma sys_ok_orphan:
  "sys_ok s \<Longrightarrow> j < NPROC \<Longrightarrow> parent (procs (table s) ! j) = None \<longleftrightarrow>
     pstate (procs (table s) ! j) = UNUSED \<or> pstate (procs (table s) ! j) = EMBRYO \<or> j = initproc (table s)"
  by (simp add: sys_ok_def tree_ok_def)

lemma running_state: "running s me \<Longrightarrow> me < NPROC \<and> pstate (procs (table s) ! me) = RUNNING"
  by (simp add: running_def)

lemma stirred_set_proc:
  assumes "live (pstate (procs t ! i))" "live (pstate (f (procs t ! i)))" "pstate (f (procs t ! i)) \<noteq> SLEEPING"
    "pid (f (procs t ! i)) = pid (procs t ! i)" "parent (f (procs t ! i)) = parent (procs t ! i)"
  shows "stirred t (set_proc i f t)"
  using assms by (simp add: stirred_def Let_def)

lemma stirred_wakeup1: "stirred t (wakeup1 c t)"
  by (simp add: stirred_def Let_def)

lemma stirred_kill: "kill n t = (r, t') \<Longrightarrow> stirred t t'"
  by (auto simp: kill_def stirred_def Let_def split: option.splits if_splits)

lemma stirred_schedule: "schedule i t = Some (j, t') \<Longrightarrow> stirred t t'"
  by (auto simp: schedule_def split: option.splits dest!: find_from_Some intro!: stirred_set_proc)

lemma stirred_running:
  assumes "running s me"
  shows "stirred (table s) (yield me (table s))" "stirred (table s) (sleep_end me (table s))"
  using running_state[OF assms] by (auto simp: yield_def sleep_end_def intro!: stirred_set_proc)

lemma place_ok:
  assumes ok: "sys_ok s" and me: "running s me" and old: "\<And>np. at s me \<noteq> In_fork np" and new: "\<And>np. q \<noteq> In_fork np"
  shows "sys_ok (s\<lparr>at := (at s)(me := q)\<rparr>)"
proof -
  note r = running_state[OF me]
  have "sleepers_ok (s\<lparr>at := (at s)(me := q)\<rparr>)" using ok r by (simp add: sys_ok_def sleepers_ok_def)
  moreover have "forks_ok (s\<lparr>at := (at s)(me := q)\<rparr>)"
  proof -
    have f: "forks_ok s" using ok by (simp add: sys_ok_def)
    have fk: "((at s)(me := q)) i = In_fork np \<longleftrightarrow> at s i = In_fork np" for i np using old new by (cases "i = me") auto
    have "i < NPROC \<and> live (pstate (procs (table s) ! i))" if "((at s)(me := q)) i \<noteq> Running_free" for i
      using f r that by (cases "i = me") (auto simp: forks_ok_def)
    then show ?thesis using f unfolding forks_ok_def by (simp add: fk del: fun_upd_apply)
  qed
  ultimately show ?thesis using ok by (simp add: sys_ok_def)
qed

lemma sleep_ok:
  assumes ok: "sys_ok s" and me: "running s me"
    and ch: "(\<exists>a. c = AddrChan a) \<and> at s me = In_sleep \<or> c = ProcChan me \<and> at s me = In_wait \<and> \<not> zombie_child me 0 (table s)"
  shows "sys_ok (s\<lparr>table := sleep me c (table s)\<rparr>)"
proof -
  note r = running_state[OF me] and n = sys_okD(1)[OF ok]
  have z: "zombie_child i 0 (sleep me c (table s)) \<longleftrightarrow> zombie_child i 0 (table s)" for i
    by (rule zombie_child_cong) (use r n in \<open>simp_all add: sleep_def\<close>)
  have l: "live (pstate (procs (sleep me c (table s)) ! i)) \<longleftrightarrow> live (pstate (procs (table s) ! i))"
      "pstate (procs (sleep me c (table s)) ! i) = UNUSED \<longleftrightarrow> pstate (procs (table s) ! i) = UNUSED"
      "pstate (procs (sleep me c (table s)) ! i) = EMBRYO \<longleftrightarrow> pstate (procs (table s) ! i) = EMBRYO"
      "pid (procs (sleep me c (table s)) ! i) = pid (procs (table s) ! i)"
      "parent (procs (sleep me c (table s)) ! i) = parent (procs (table s) ! i)" if "i < NPROC" for i
    using r n that by (auto simp: sleep_def)
  have g: "length (procs (sleep me c (table s))) = NPROC" "nextpid (sleep me c (table s)) = nextpid (table s)"
    "initproc (sleep me c (table s)) = initproc (table s)" using n by (simp_all add: sleep_def)
  have "tree_ok (sleep me c (table s))" using ok l g unfolding sys_ok_def tree_ok_def by simp
  moreover have "pids_ok (sleep me c (table s))" using ok l g unfolding sys_ok_def pids_ok_def by simp
  moreover have "sleepers_ok (s\<lparr>table := sleep me c (table s)\<rparr>)"
    using ok ch n unfolding sys_ok_def sleepers_ok_def by (auto simp: z) (auto simp: sleep_def split: if_splits)
  moreover have "forks_ok (s\<lparr>table := sleep me c (table s)\<rparr>)" using ok l unfolding sys_ok_def forks_ok_def by simp
  ultimately show ?thesis by (simp add: sys_ok_def)
qed

text \<open>Collecting a child, which has no children itself any more.\<close>

lemma reap_ok:
  assumes ok: "sys_ok s" and i: "i < NPROC" "pstate (procs (table s) ! i) = ZOMBIE"
  shows "sys_ok (s\<lparr>table := reap i (table s)\<rparr>)"
proof -
  note n = sys_okD[OF ok]
  have e: "procs (reap i (table s)) ! j = (if j = i then (procs (table s) ! i)\<lparr>kstack := None, pstate := UNUSED, pid := 0, parent := None, pname := [], killed := False\<rparr>
      else procs (table s) ! j)" if "j < NPROC" for j
    using that n by (simp add: reap_def)
  have g: "length (procs (reap i (table s))) = NPROC" "nextpid (reap i (table s)) = nextpid (table s)"
    "initproc (reap i (table s)) = initproc (table s)" using n by (simp_all add: reap_def)
  have l: "live (pstate (procs (reap i (table s)) ! j)) \<longleftrightarrow> live (pstate (procs (table s) ! j))" if "j < NPROC" for j
    using e[OF that] i by simp
  have ni: "i \<noteq> initproc (table s)" using n i by auto
  have nc: "parent (procs (table s) ! j) \<noteq> Some i" if "j < NPROC" for j
    using sys_ok_parent[OF ok that] i by force
  have "tree_ok (reap i (table s))"
    using ok ni nc unfolding sys_ok_def tree_ok_def g by (simp add: l) (simp add: e)
  moreover have "pids_ok (reap i (table s))" using ok unfolding sys_ok_def pids_ok_def g by (simp add: e)
  moreover have "sleepers_ok (s\<lparr>table := reap i (table s)\<rparr>)"
  proof -
    have "zombie_child j 0 (reap i (table s)) \<Longrightarrow> zombie_child j 0 (table s)" for j
      unfolding zombie_child_def g n by (auto simp: e split: if_splits)
    then show ?thesis using ok unfolding sys_ok_def sleepers_ok_def by (simp add: e) metis
  qed
  moreover have "forks_ok (s\<lparr>table := reap i (table s)\<rparr>)"
  proof (rule forks_okI, goal_cases)
    case (1 j)
    then show ?case using forks_okD(1,2)[of s j] ok l by (simp add: sys_ok_def)
  next
    case (2 j np)
    then show ?case using forks_okD(3,4)[of s j np] ok i e[of np] by (auto simp: sys_ok_def)
  next
    case (3 j k np)
    then show ?case using forks_okD(5)[of s j np k] ok by (simp add: sys_ok_def)
  next
    case (4 np)
    then show ?case using forks_okD(6)[of s np] ok e[of np] by (auto simp: sys_ok_def split: if_splits)
  qed
  ultimately show ?thesis by (simp add: sys_ok_def)
qed

text \<open>The two halves of \<^verbatim>\<open>fork\<close>.\<close>

lemma fork_start_ok:
  assumes ok: "sys_ok s" and me: "running s me" "at s me = Running_free" and room: "nextpid (table s) < 2147483647"
    and a: "alloc_slot (table s) = Some (np, t)"
  shows "sys_ok \<lparr>table = t, at = (at s)(me := In_fork np)\<rparr>"
proof -
  note n = sys_okD[OF ok] and r = running_state[OF me(1)]
  have np: "np < NPROC" "pstate (procs (table s) ! np) = UNUSED"
      "t = (set_proc np (\<lambda>p. p\<lparr>pstate := EMBRYO, pid := nextpid (table s)\<rparr>) (table s))\<lparr>nextpid := nextpid (table s) + 1\<rparr>"
    using a n by (auto simp: alloc_slot_def split: option.splits dest!: find_from_Some)
  have e: "procs t ! j = (if j = np then (procs (table s) ! np)\<lparr>pstate := EMBRYO, pid := nextpid (table s)\<rparr> else procs (table s) ! j)" if "j < NPROC" for j
    using that n np by simp
  have g: "length (procs t) = NPROC" "nextpid t = nextpid (table s) + 1" "initproc t = initproc (table s)" using n np by simp_all
  have l: "live (pstate (procs t ! j)) \<longleftrightarrow> live (pstate (procs (table s) ! j))" "parent (procs t ! j) = parent (procs (table s) ! j)"
      "pstate (procs t ! j) = SLEEPING \<longleftrightarrow> pstate (procs (table s) ! j) = SLEEPING" "pchan (procs t ! j) = pchan (procs (table s) ! j)"
      "pstate (procs t ! j) = ZOMBIE \<longleftrightarrow> pstate (procs (table s) ! j) = ZOMBIE"
    if "j < NPROC" for j using e[OF that] np by simp_all
  have z: "zombie_child j 0 t \<longleftrightarrow> zombie_child j 0 (table s)" for j by (rule zombie_child_cong) (simp_all add: g n l)
  have "tree_ok t" using ok np(1,2) unfolding sys_ok_def tree_ok_def g by (simp add: l) (simp add: e)
  moreover have "pids_ok t" using ok room unfolding sys_ok_def pids_ok_def g by (auto simp: e)
  moreover have "sleepers_ok \<lparr>table = t, at = (at s)(me := In_fork np)\<rparr>"
    using ok r unfolding sys_ok_def sleepers_ok_def by (auto simp: l z)
  moreover have "forks_ok \<lparr>table = t, at = (at s)(me := In_fork np)\<rparr>"
  proof -
    have f: "forks_ok s" using ok by (simp add: sys_ok_def)
    have no: "at s i \<noteq> In_fork np" for i using f np(2) by (auto simp: forks_ok_def)
    show ?thesis
    proof (rule forks_okI, goal_cases)
      case (1 j)
      then show ?case using forks_okD(1,2)[OF f, of j] r l[of j] by (auto split: if_splits)
    next
      case (2 j k)
      then show ?case using forks_okD(3,4)[OF f, of j k] np(1) e[of k] by (auto split: if_splits)
    next
      case (3 j k m)
      then show ?case using forks_okD(5)[OF f, of j m k] no by (auto split: if_splits)
    next
      case (4 k)
      show ?case
      proof (cases "k = np")
        case False
        then obtain i where "at s i = In_fork k" using 4 e[of k] forks_okD(6)[OF f, of k] by auto
        then show ?thesis using me(2) by (intro exI[of _ i]) auto
      qed (auto intro!: exI[of _ me])
    qed
  qed
  ultimately show ?thesis by (simp add: sys_ok_def)
qed

lemma fork_rest_entry:
  assumes "fork_rest me np page copied t = (r, t')" "np < length (procs t)" "pstate (procs t ! np) = EMBRYO" "parent (procs t ! np) = None"
  shows "\<exists>q. t' = set_proc np (\<lambda>_. q) t \<and> pid q = pid (procs t ! np) \<and>
    (pstate q = UNUSED \<and> parent q = None \<or> pstate q = RUNNABLE \<and> parent q = Some me)"
proof -
  have "\<exists>q. t' = set_proc np (\<lambda>_. q) t" and l: "length (procs t') = length (procs t)"
    using assms by (auto simp: fork_rest_def alloc_stack_def set_proc_def split: option.splits if_splits)
  then obtain q where q: "t' = set_proc np (\<lambda>_. q) t" by blast
  then have "q = procs t' ! np" using assms(2) by simp
  moreover have "pid (procs t' ! np) = pid (procs t ! np) \<and> (pstate (procs t' ! np) = UNUSED \<and> parent (procs t' ! np) = None \<or>
      pstate (procs t' ! np) = RUNNABLE \<and> parent (procs t' ! np) = Some me)"
    using assms by (auto simp: fork_rest_def alloc_stack_def split: option.splits if_splits)
  ultimately show ?thesis using q by auto
qed

lemma fork_end_ok:
  assumes ok: "sys_ok s" and me: "running s me" "at s me = In_fork np"
    and fr: "fork_rest me np page copied (table s) = (r, t)"
  shows "sys_ok \<lparr>table = t, at = (at s)(me := Running_free)\<rparr>"
proof -
  have f: "forks_ok s" using ok by (simp add: sys_ok_def)
  note n = sys_okD[OF ok] and run = running_state[OF me(1)] and np = forks_okD(3,4)[OF f me(2)]
  let ?p = "procs (table s) ! np"
  have pn: "parent ?p = None" using ok np by (simp add: sys_ok_def tree_ok_def)
  obtain q where t: "t = set_proc np (\<lambda>_. q) (table s)" and pid: "pid q = pid ?p"
    and q: "pstate q = UNUSED \<and> parent q = None \<or> pstate q = RUNNABLE \<and> parent q = Some me"
    using fork_rest_entry[OF fr] np n pn by metis
  have e: "procs t ! j = (if j = np then q else procs (table s) ! j)" if "j < NPROC" for j using that n t by simp
  have g: "length (procs t) = NPROC" "nextpid t = nextpid (table s)" "initproc t = initproc (table s)" using n t by simp_all
  have ne: "np \<noteq> me" "np \<noteq> initproc (table s)" using np run n by auto
  have nc: "parent (procs (table s) ! j) \<noteq> Some np" if "j < NPROC" for j using sys_ok_parent[OF ok that] np by force
  have z: "zombie_child j 0 t \<Longrightarrow> zombie_child j 0 (table s)" for j
    unfolding zombie_child_def g n using q by (auto simp: e split: if_splits)
  have "tree_ok t"
  proof (rule tree_okI, unfold g)
    show "live (pstate (procs t ! initproc (table s)))" using n ne e by simp
    show "parent (procs t ! i) = None \<longleftrightarrow> pstate (procs t ! i) = UNUSED \<or> pstate (procs t ! i) = EMBRYO \<or> i = initproc (table s)" if "i < NPROC" for i
      using sys_ok_orphan[OF ok that] e[OF that] q ne by (cases "i = np") auto
    show "parent (procs t ! i) \<noteq> Some i" if "i < NPROC" for i using sys_ok_self[OF ok that] e[OF that] q ne by auto
    show "p < NPROC \<and> live (pstate (procs t ! p))" if "i < NPROC" "parent (procs t ! i) = Some p" for i p
    proof (cases "i = np")
      case True
      then have "p = me" using q e[OF that(1)] that(2) by auto
      then show ?thesis using run ne e[of me] by simp
    next
      case False
      then show ?thesis using sys_ok_parent[OF ok that(1)] nc[OF that(1)] e[OF that(1)] e[of p] that(2) by auto
    qed
  qed (use n in simp_all)
  moreover have "pids_ok t" using ok np pid unfolding sys_ok_def pids_ok_def g by (auto simp: e)
  moreover have "sleepers_ok \<lparr>table = t, at = (at s)(me := Running_free)\<rparr>"
    using ok q run z unfolding sys_ok_def sleepers_ok_def by (auto simp: e)
  moreover have "forks_ok \<lparr>table = t, at = (at s)(me := Running_free)\<rparr>"
  proof (rule forks_okI, goal_cases)
    case (1 j)
    then show ?case using forks_okD(1,2)[OF f, of j] np e[of j] by (auto split: if_splits)
  next
    case (2 j k)
    then have jk: "j \<noteq> me" "at s j = In_fork k" by (auto split: if_splits)
    then have "k \<noteq> np" using forks_okD(5)[OF f, of j np me] me(2) by auto
    then show ?case using forks_okD(3,4)[OF f jk(2)] e[of k] by simp
  next
    case (3 j k m)
    then show ?case using forks_okD(5)[OF f, of j m k] by (auto split: if_splits)
  next
    case (4 k)
    then have "k \<noteq> np" "pstate (procs (table s) ! k) = EMBRYO" using e[of k] q by (auto split: if_splits)
    then obtain i where "at s i = In_fork k" using 4 forks_okD(6)[OF f, of k] by auto
    then show ?case using me(2) \<open>k \<noteq> np\<close> by (intro exI[of _ i]) auto
  qed
  ultimately show ?thesis by (simp add: sys_ok_def)
qed

text \<open>Exiting: the parent is woken up, and the first process if there are children to collect for it.\<close>

lemma exit_fields:
  assumes x: "exit me t = Some t'" and j: "j < length (procs t)"
  shows "pid (procs t' ! j) = pid (procs t ! j)" "pchan (procs t' ! j) = pchan (procs t ! j)"
    "parent (procs t' ! j) = (if parent (procs t ! j) = Some me then Some (initproc t) else parent (procs t ! j))"
    "pstate (procs t' ! j) = (if j = me then ZOMBIE
       else if pstate (procs t ! j) = SLEEPING \<and>
         (pchan (procs t ! j) = parent_chan (parent (procs t ! me)) \<or> zombie_child me 0 t \<and> pchan (procs t ! j) = ProcChan (initproc t)) then RUNNABLE
       else pstate (procs t ! j))"
  unfolding exit_entries(5)[OF x j] Let_def using j by (simp_all add: adopted_fields stirred_zombie[OF stirred_wakeup1]) blast

lemma exit_sleepers:
  assumes ok: "sys_ok s" and me: "running s me" and x: "exit me (table s) = Some t"
  shows "sleepers_ok (s\<lparr>table := t\<rparr>)"
proof -
  note n = sys_okD[OF ok] and run = running_state[OF me]
  note e = exit_fields[OF x, unfolded n(1)]
  have lt: "length (procs t) = NPROC" using exit_entries(2)[OF x] n by simp
  have "\<not> zombie_child i 0 t"
    if i: "i < NPROC" "pstate (procs t ! i) = SLEEPING" "pchan (procs t ! i) = ProcChan i" "\<not> zombie_child i 0 (table s)" for i
  proof
    assume "zombie_child i 0 t"
    then obtain k where k: "k < NPROC" "parent (procs t ! k) = Some i" "pstate (procs t ! k) = ZOMBIE" by (auto simp: zombie_child_def lt)
    have awake: "parent (procs (table s) ! me) \<noteq> Some i" "\<not> (zombie_child me 0 (table s) \<and> i = initproc (table s))"
      using i e(2,4)[OF i(1)] by (auto simp: parent_chan_def split: if_splits)
    show False
    proof (cases "k = me")
      case True
      then show False using k e(3)[OF k(1)] sys_ok_self[OF ok k(1)] awake by (auto split: if_splits)
    next
      case False
      then have zk: "pstate (procs (table s) ! k) = ZOMBIE" using k e(4)[OF k(1)] by (auto split: if_splits)
      then have "parent (procs (table s) ! k) \<noteq> Some i" using i(4) k(1) n by (auto simp: zombie_child_def)
      then have "parent (procs (table s) ! k) = Some me" "i = initproc (table s)" using k e(3)[OF k(1)] by (auto split: if_splits)
      then show False using awake(2) zk k(1) n by (auto simp: zombie_child_def)
    qed
  qed
  moreover have "pstate (procs (table s) ! i) = SLEEPING" if "i < NPROC" "pstate (procs t ! i) = SLEEPING" for i
    using that e(4)[OF that(1)] by (auto split: if_splits)
  ultimately show ?thesis using ok e(2) unfolding sys_ok_def sleepers_ok_def by simp metis
qed

lemma exit_ok:
  assumes ok: "sys_ok s" and me: "running s me" "at s me = Running_free" and x: "exit me (table s) = Some t"
  shows "sys_ok (s\<lparr>table := t\<rparr>)"
proof -
  note n = sys_okD[OF ok] and run = running_state[OF me(1)]
  note e = exit_fields[OF x, unfolded n(1)]
  have f: "forks_ok s" using ok by (simp add: sys_ok_def)
  have g: "me \<noteq> initproc (table s)" "length (procs t) = NPROC" "nextpid t = nextpid (table s)" "initproc t = initproc (table s)"
    using exit_entries(1-4)[OF x] n by simp_all
  have l: "live (pstate (procs t ! j)) \<longleftrightarrow> j \<noteq> me \<and> live (pstate (procs (table s) ! j))"
      "pstate (procs t ! j) = UNUSED \<longleftrightarrow> pstate (procs (table s) ! j) = UNUSED"
      "pstate (procs t ! j) = EMBRYO \<longleftrightarrow> pstate (procs (table s) ! j) = EMBRYO" if "j < NPROC" for j
    using e(4)[OF that] run by auto
  have "tree_ok t"
  proof (rule tree_okI, unfold g)
    show "live (pstate (procs t ! initproc (table s)))" using n g l(1) by auto
    show "parent (procs t ! i) = None \<longleftrightarrow> pstate (procs t ! i) = UNUSED \<or> pstate (procs t ! i) = EMBRYO \<or> i = initproc (table s)" if "i < NPROC" for i
      using sys_ok_orphan[OF ok that] e(3)[OF that] l(2,3)[OF that] by auto
    show "parent (procs t ! i) \<noteq> Some i" if "i < NPROC" for i
      using sys_ok_self[OF ok that] sys_ok_orphan[OF ok that] e(3)[OF that] by auto
    show "p < NPROC \<and> live (pstate (procs t ! p))" if i: "i < NPROC" "parent (procs t ! i) = Some p" for i p
      using i e(3)[OF i(1)] n g l(1) sys_ok_parent[OF ok i(1), of p] by (auto split: if_splits)
  qed (use n in simp_all)
  moreover have "pids_ok t" using ok l e(1) g unfolding sys_ok_def pids_ok_def by simp
  moreover have "sleepers_ok (s\<lparr>table := t\<rparr>)" by (rule exit_sleepers[OF ok me(1) x])
  moreover have "forks_ok (s\<lparr>table := t\<rparr>)"
  proof (rule forks_okI, goal_cases)
    case (1 j)
    then show ?case using forks_okD(1,2)[OF f, of j] l(1)[of j] me(2) by auto
  next
    case (2 j k)
    then show ?case using forks_okD(3,4)[OF f, of j k] l(3)[of k] by simp
  next
    case (3 j k m)
    then show ?case using forks_okD(5)[OF f, of j m k] by simp
  next
    case (4 k)
    then show ?case using forks_okD(6)[OF f, of k] l(3)[of k] by simp
  qed
  ultimately show ?thesis by (simp add: sys_ok_def)
qed

text \<open>One round of \<^verbatim>\<open>wait\<close>, from its start or back from sleeping.\<close>

lemma wait_ok:
  assumes ok: "sys_ok s" and me: "running s me" and w: "wait me (table s) = (r, t)" and old: "\<And>np. at s me \<noteq> In_fork np"
  shows "sys_ok \<lparr>table = t, at = (at s)(me := wait_place r)\<rparr>"
proof -
  let ?s = "s\<lparr>at := (at s)(me := wait_place r)\<rparr>"
  have new: "wait_place r \<noteq> In_fork np" for np by (simp add: wait_place_def split: wait_result.split)
  have s: "sys_ok ?s" "running ?s me" using place_ok[OF ok me old new] me by (auto simp: running_def)
  consider i where "i < NPROC" "pstate (procs (table s) ! i) = ZOMBIE" "t = reap i (table s)" | "t = table s"
    | "r = Waits" "t = sleep me (ProcChan me) (table s)" "\<not> zombie_child me 0 (table s)"
  proof (cases "find_from (\<lambda>p. parent p = Some me \<and> pstate p = ZOMBIE) 0 (table s)")
    case None
    then have "\<not> zombie_child me 0 (table s)" by (auto simp: find_from_None zombie_child_def)
    then show ?thesis using that(2,3) w None by (simp add: wait_def split: if_splits)
  next
    case (Some i)
    then show ?thesis using that(1)[of i] w find_from_Some[OF Some] sys_okD(1)[OF ok] by (simp add: wait_def)
  qed
  then have "sys_ok (?s\<lparr>table := t\<rparr>)"
  proof cases
    case 1
    then show ?thesis using reap_ok[OF s(1)] by simp
  next
    case 2
    then show ?thesis using s(1) by simp
  next
    case 3
    then show ?thesis using sleep_ok[OF s, of "ProcChan me"] by (simp add: wait_place_def)
  qed
  then show ?thesis by (cases s) simp
qed

lemma boot_ok:
  assumes "userinit page pinit = Some t"
  shows "sys_ok \<lparr>table = t, at = (\<lambda>_. Running_free)\<rparr>"
proof -
  have "find_from (\<lambda>p. pstate p = UNUSED) 0 pinit = Some 0"
    by (subst find_from.simps) (simp add: pinit_def NPROC_def unused_proc_def)
  then have t: "t = \<lparr>procs = (replicate NPROC unused_proc)[0 := unused_proc\<lparr>pid := 1, kstack := Some page, psz := 4096, pname := lit ''initcode'', pstate := RUNNABLE\<rparr>],
      nextpid = 2, initproc = 0\<rparr>"
    using assms by (auto simp: userinit_def alloc_slot_def alloc_stack_def set_proc_def pinit_def NPROC_def Let_def)
  have e: "procs t ! j = (if j = 0 then unused_proc\<lparr>pid := 1, kstack := Some page, psz := 4096, pname := lit ''initcode'', pstate := RUNNABLE\<rparr> else unused_proc)"
    if "j < NPROC" for j using that by (simp add: t nth_list_update)
  have g: "length (procs t) = NPROC" "nextpid t = 2" "initproc t = 0" "0 < NPROC" by (simp_all add: t NPROC_def)
  have "tree_ok t" by (rule tree_okI) (simp_all add: g e unused_proc_def split: if_splits)
  moreover have "pids_ok t" by (simp add: pids_ok_def g e unused_proc_def)
  ultimately show ?thesis by (simp add: sys_ok_def sleepers_ok_def forks_ok_def e unused_proc_def)
qed

lemma kstep_ok: "kstep s s' \<Longrightarrow> sys_ok s \<Longrightarrow> sys_ok s'"
proof (induction rule: kstep.induct)
  case (wait_again s me r t)
  let ?s = "s\<lparr>table := sleep_end me (table s)\<rparr>"
  have "sys_ok ?s" by (rule stirred_ok[OF wait_again(4) stirred_running(2)[OF wait_again(1)]])
  moreover have "running ?s me" using running_state[OF wait_again(1)] sys_okD(1)[OF wait_again(4)] by (simp add: running_def sleep_end_def)
  ultimately show ?case using wait_ok[of ?s me r t] wait_again by simp
next
  case (sleep_enter s me c)
  let ?s = "s\<lparr>at := (at s)(me := In_sleep)\<rparr>"
  have "sys_ok ?s" "running ?s me" using place_ok[of s me In_sleep] sleep_enter by (simp_all add: running_def)
  then show ?case using sleep_ok[of ?s me "AddrChan c"] by (cases s) simp
next
  case (sleep_return s me)
  let ?s = "s\<lparr>at := (at s)(me := Running_free)\<rparr>"
  have "sys_ok ?s" "running ?s me" using place_ok[of s me Running_free] sleep_return by (simp_all add: running_def)
  then show ?case using stirred_ok[OF _ stirred_running(2), of ?s me] by (cases s) simp
qed (auto intro: fork_start_ok fork_end_ok exit_ok wait_ok stirred_ok stirred_wakeup1 stirred_kill stirred_schedule stirred_running)

section \<open>The properties\<close>

text \<open>
  C39: In every state that the processes of a booted system can bring about, with any interleaving of fork, exit, wait,
  sleep, wakeup, kill and the schedulers of all processors, the process table is in order: every process but the first has a
  live parent other than itself, the first process lives, the pids in use are positive and differ, every slot
  being filled belongs to one process in fork, and no process sleeps in wait while it has a child to collect (no wakeup is lost).
\<close>

theorem process_table_ok: "kreach s \<Longrightarrow> sys_ok s"
  by (induction rule: kreach.induct) (auto intro: boot_ok kstep_ok)

definition booted :: system where
  "booted = \<lparr>table = the (userinit 1 pinit), at = (\<lambda>_. Running_free)\<rparr>"

lemma booted_reach: "kreach booted"
proof -
  have "userinit 1 pinit = Some (the (userinit 1 pinit))" by code_simp
  then show ?thesis unfolding booted_def by (rule kreach_boot)
qed

definition first_runs :: system where
  "first_runs = booted\<lparr>table := snd (the (schedule 0 (table booted)))\<rparr>"

lemma first_runs_reach: "kreach first_runs"
proof -
  have "schedule 0 (table booted) = Some (0, snd (the (schedule 0 (table booted))))" by code_simp
  then show ?thesis unfolding first_runs_def using kreach_step[OF booted_reach] do_schedule by blast
qed

text \<open>The first process has forked, and its child is ready to run.\<close>

definition forked :: system where
  "forked = \<lparr>table = snd (fork_rest 0 1 (Some 2) True (snd (the (alloc_slot (table first_runs))))), at = (\<lambda>_. Running_free)\<rparr>"

lemma forked_reach: "kreach forked"
proof -
  let ?t = "snd (the (alloc_slot (table first_runs)))"
  let ?s = "\<lparr>table = ?t, at = (at first_runs)(0 := In_fork 1)\<rparr>"
  have run: "running first_runs 0" "at first_runs 0 = Running_free" "nextpid (table first_runs) < 2147483647"
      "alloc_slot (table first_runs) = Some (1, ?t)" by code_simp+
  have "kstep first_runs ?s" by (rule fork_start[OF run])
  then have s: "kreach ?s" by (rule kreach_step[OF first_runs_reach])
  have "running ?s 0" by code_simp
  then have "kstep ?s \<lparr>table = snd (fork_rest 0 1 (Some 2) True ?t), at = (at ?s)(0 := Running_free)\<rparr>"
    by (rule fork_end[where np = 1 and page = "Some 2" and copied = True and r = "fst (fork_rest 0 1 (Some 2) True ?t)"]) simp_all
  moreover have "(at ?s)(0 := Running_free) = (\<lambda>_. Running_free)" by (auto simp: first_runs_def booted_def)
  ultimately show ?thesis using kreach_step[OF s] unfolding forked_def by simp
qed

theorem process_table_ok_witness: "kreach forked \<and> sys_ok forked"
  using process_table_ok[OF forked_reach] forked_reach by simp

text \<open>
  Killing pid 0 succeeds: it marks a slot that is not in use, and as nothing clears the mark when the slot is
  taken, the next process that is forked into the slot is killed from its start.
\<close>

lemma kill_zero:
  "fst (kill 0 (table first_runs)) = 0"
  "killed (procs (snd (fork_rest 0 1 (Some 2) True (snd (the (alloc_slot (snd (kill 0 (table first_runs)))))))) ! 1)"
  by code_simp+

end
