(* ===== verification/File.thy ===== *)
theory File
  imports Dir Pipe
begin

text \<open>
  The table of open files (src/src/file.c), the creation of pipes (src/src/pipe.c), and what a process
  holds of them: its descriptors and its current directory (src/src/proc.h). A pointer to a file is an index
  of the table, a pointer to a pipe the address of its page. An operation panics, has to wait, or returns.
\<close>

definition NFILE :: nat where "NFILE = 100"
definition NOFILE :: nat where "NOFILE = 100"

datatype fd_type = FD_NONE | FD_PIPE | FD_INODE

record open_file =
  ftype :: fd_type
  fref :: int
  readable :: bool
  writable :: bool
  fpipe :: nat
  fip :: nat
  foff :: "32 word"

record holder =
  ofile :: "nat option list"
  pcwd :: "nat option"

record kernel =
  kfs :: fs
  ftable :: "open_file list"
  kpipes :: "nat \<Rightarrow> pipe option"
  holders :: "holder list"

definition set_file :: "nat \<Rightarrow> open_file \<Rightarrow> kernel \<Rightarrow> kernel" where
  "set_file i x s = s\<lparr>ftable := (ftable s)[i := x]\<rparr>"

definition get_file :: "nat \<Rightarrow> kernel \<Rightarrow> open_file outcome" where
  "get_file i s = or_panic (rd (ftable s) (int i))"

text \<open>Running an operation of the file system inside of the kernel.\<close>

definition on_fs :: "(fs \<Rightarrow> ('a \<times> fs) outcome) \<Rightarrow> kernel \<Rightarrow> ('a \<times> kernel) outcome" where
  "on_fs g s = and_then (g (kfs s)) (\<lambda>(a, f). Ret (a, s\<lparr>kfs := f\<rparr>))"

definition run_fs :: "(fs \<Rightarrow> fs outcome) \<Rightarrow> kernel \<Rightarrow> kernel outcome" where
  "run_fs g s = and_then (g (kfs s)) (\<lambda>f. Ret (s\<lparr>kfs := f\<rparr>))"

definition begin_op :: "fs \<Rightarrow> fs outcome" where
  "begin_op f = (case begin_trans (fst (fstore f)) of None \<Rightarrow> Sleeps | Some m \<Rightarrow> Ret (f\<lparr>fstore := (m, snd (fstore f))\<rparr>))"

definition end_op :: "fs \<Rightarrow> fs outcome" where
  "end_op f = and_then (or_panic (commit_trans (fst (fstore f)) (snd (fstore f)))) (\<lambda>st. Ret (f\<lparr>fstore := st\<rparr>))"

section \<open>The table\<close>

fun free_file :: "open_file list \<Rightarrow> nat \<Rightarrow> nat option" where
  "free_file [] i = None"
| "free_file (x # xs) i = (if fref x = 0 then Some i else free_file xs (i + 1))"

definition filealloc :: "kernel \<Rightarrow> nat option \<times> kernel" where
  "filealloc s = (case free_file (ftable s) 0 of
       None \<Rightarrow> (None, s)
     | Some i \<Rightarrow> (Some i, set_file i ((ftable s ! i)\<lparr>fref := 1\<rparr>) s))"

definition filedup :: "nat \<Rightarrow> kernel \<Rightarrow> kernel outcome" where
  "filedup i s = and_then (get_file i s) (\<lambda>x. if fref x < 1 then Panic else Ret (set_file i (x\<lparr>fref := fref x + 1\<rparr>) s))"

text \<open>Closing one end of a pipe, whose page is freed with the other end.\<close>

definition close_pipe :: "nat \<Rightarrow> bool \<Rightarrow> kernel \<Rightarrow> kernel outcome" where
  "close_pipe a w s = (case kpipes s a of
       None \<Rightarrow> Panic
     | Some p \<Rightarrow> (case pipeclose w p of (p, freed, _) \<Rightarrow> Ret (s\<lparr>kpipes := (kpipes s)(a := if freed then None else Some p)\<rparr>)))"

definition fileclose :: "nat \<Rightarrow> kernel \<Rightarrow> kernel outcome" where
  "fileclose i s = and_then (get_file i s) (\<lambda>x.
     if fref x < 1 then Panic
     else if fref x - 1 > 0 then Ret (set_file i (x\<lparr>fref := fref x - 1\<rparr>) s)
     else let s = set_file i (x\<lparr>fref := 0, ftype := FD_NONE\<rparr>) s in
       case ftype x of
         FD_PIPE \<Rightarrow> close_pipe (fpipe x) (writable x) s
       | FD_INODE \<Rightarrow> and_then (run_fs begin_op s) (\<lambda>s. and_then (run_fs (iput (fip x)) s) (\<lambda>s. run_fs end_op s))
       | FD_NONE \<Rightarrow> Ret s)"

section \<open>Reading and writing\<close>

text \<open>
  What a driver does is an argument: it returns a count and, for reading, the bytes. The result of a call is
  the value it returns to the process, with the bytes that it copies to it.
\<close>

type_synonym driver = "int \<Rightarrow> int \<times> byte list"

definition filestat :: "nat \<Rightarrow> kernel \<Rightarrow> ((int \<times> stat_rec option) \<times> kernel) outcome" where
  "filestat i s = and_then (get_file i s) (\<lambda>x.
     if ftype x = FD_INODE
     then and_then (run_fs (ilock (fip x)) s) (\<lambda>s.
       and_then (get_inode (fip x) (kfs s)) (\<lambda>ip.
       and_then (run_fs (iunlock (fip x)) s) (\<lambda>s. Ret ((0, Some (stati ip)), s))))
     else Ret ((- 1, None), s))"

definition io_count :: "driver \<Rightarrow> ('a \<Rightarrow> int \<times> byte list) \<Rightarrow> 'a io \<Rightarrow> int \<times> byte list" where
  "io_count drv g r = (case r of Io_err \<Rightarrow> (- 1, []) | Io_device m \<Rightarrow> drv m | Io_ok a \<Rightarrow> g a)"

definition read_inode :: "(int \<Rightarrow> bool) \<Rightarrow> driver \<Rightarrow> nat \<Rightarrow> 32 word \<Rightarrow> 32 word \<Rightarrow> fs \<Rightarrow> ((int \<times> byte list) \<times> fs) outcome" where
  "read_inode hr drv k off n f = and_then (get_inode k f) (\<lambda>ip.
     and_then (or_panic (readi hr ip off n (fstore f))) (\<lambda>(r, ip, st).
       Ret (io_count drv (\<lambda>bs. (int (length bs), bs)) r, set_inode k ip (f\<lparr>fstore := st\<rparr>))))"

definition write_inode :: "(int \<Rightarrow> bool) \<Rightarrow> driver \<Rightarrow> nat \<Rightarrow> byte list \<Rightarrow> 32 word \<Rightarrow> fs \<Rightarrow> (int \<times> fs) outcome" where
  "write_inode hw drv k src off f = and_then (get_inode k f) (\<lambda>ip.
     and_then (or_panic (writei hw ip src off (fstore f))) (\<lambda>(r, ip, st).
       Ret (fst (io_count drv (\<lambda>n. (uint n, [])) r), set_inode k ip (f\<lparr>fstore := st\<rparr>))))"

definition advance :: "nat \<Rightarrow> int \<Rightarrow> kernel \<Rightarrow> kernel outcome" where
  "advance i r s = (if r > 0 then and_then (get_file i s) (\<lambda>x. Ret (set_file i (x\<lparr>foff := foff x + word_of_int r\<rparr>) s)) else Ret s)"

definition fileread :: "(int \<Rightarrow> bool) \<Rightarrow> driver \<Rightarrow> bool \<Rightarrow> nat \<Rightarrow> nat \<Rightarrow> kernel \<Rightarrow> ((int \<times> byte list) \<times> kernel) outcome" where
  "fileread hr drv killed i n s = and_then (get_file i s) (\<lambda>x.
     if \<not> readable x then Ret ((- 1, []), s)
     else case ftype x of
       FD_PIPE \<Rightarrow> (case kpipes s (fpipe x) of None \<Rightarrow> Panic | Some p \<Rightarrow>
         (case piperead killed n p of (p, r, _) \<Rightarrow>
           (case r of R_sleep \<Rightarrow> Sleeps | R_ret c bs \<Rightarrow> Ret ((c, bs), s\<lparr>kpipes := (kpipes s)(fpipe x \<mapsto> p)\<rparr>))))
     | FD_INODE \<Rightarrow> and_then (run_fs (ilock (fip x)) s) (\<lambda>s.
         and_then (on_fs (read_inode hr drv (fip x) (foff x) (of_nat n)) s) (\<lambda>(r, s).
         and_then (advance i (fst r) s) (\<lambda>s.
         and_then (run_fs (iunlock (fip x)) s) (\<lambda>s. Ret (r, s)))))
     | FD_NONE \<Rightarrow> Panic)"

text \<open>The size of the pieces of a write, each of which is a transaction of its own.\<close>

definition max_write :: nat where
  "max_write = nat ((LOGSIZE - 1 - 1 - 2) div 2 * 512)"

definition write_piece :: "(int \<Rightarrow> bool) \<Rightarrow> driver \<Rightarrow> nat \<Rightarrow> byte list \<Rightarrow> kernel \<Rightarrow> (int \<times> kernel) outcome" where
  "write_piece hw drv i src s = and_then (get_file i s) (\<lambda>x.
     and_then (run_fs begin_op s) (\<lambda>s.
     and_then (run_fs (ilock (fip x)) s) (\<lambda>s.
     and_then (on_fs (write_inode hw drv (fip x) src (foff x)) s) (\<lambda>(r, s).
     and_then (advance i r s) (\<lambda>s.
     and_then (run_fs (iunlock (fip x)) s) (\<lambda>s.
     and_then (run_fs end_op s) (\<lambda>s. Ret (r, s))))))))"

function write_pieces :: "(int \<Rightarrow> bool) \<Rightarrow> driver \<Rightarrow> nat \<Rightarrow> byte list \<Rightarrow> kernel \<Rightarrow> (bool \<times> kernel) outcome" where
  "write_pieces hw drv i src s =
     (if src = [] then Ret (True, s)
      else let n1 = min (length src) max_write in
        and_then (write_piece hw drv i (take n1 src) s) (\<lambda>(r, s).
          if r < 0 then Ret (False, s)
          else if r \<noteq> int n1 then Panic
          else write_pieces hw drv i (drop n1 src) s))"
  by pat_completeness auto
termination
  by (relation "measure (\<lambda>(hw, drv, i, src, s). length src)") (auto simp: max_write_def LOGSIZE_def)

declare write_pieces.simps [simp del]

text \<open>The bytes to write are the list \<open>src\<close>.\<close>

definition filewrite :: "(int \<Rightarrow> bool) \<Rightarrow> driver \<Rightarrow> bool \<Rightarrow> nat \<Rightarrow> byte list \<Rightarrow> kernel \<Rightarrow> (int \<times> kernel) outcome" where
  "filewrite hw drv killed i src s = and_then (get_file i s) (\<lambda>x.
     if \<not> writable x then Ret (- 1, s)
     else case ftype x of
       FD_PIPE \<Rightarrow> (case kpipes s (fpipe x) of None \<Rightarrow> Panic | Some p \<Rightarrow>
         (case pipewrite killed src p of (p, r, _) \<Rightarrow>
           (case r of W_sleep _ \<Rightarrow> Sleeps | W_ret c \<Rightarrow> Ret (c, s\<lparr>kpipes := (kpipes s)(fpipe x \<mapsto> p)\<rparr>))))
     | FD_INODE \<Rightarrow> and_then (write_pieces hw drv i src s) (\<lambda>(fin, s). Ret (if fin then int (length src) else - 1, s))
     | FD_NONE \<Rightarrow> Panic)"

section \<open>Pipes\<close>

text \<open>The page for the pipe, with the bytes in it, is what the allocator gives.\<close>

definition close_opt :: "nat option \<Rightarrow> kernel \<Rightarrow> kernel outcome" where
  "close_opt i s = (case i of None \<Rightarrow> Ret s | Some i \<Rightarrow> fileclose i s)"

definition pipe_file :: "bool \<Rightarrow> nat \<Rightarrow> open_file \<Rightarrow> open_file" where
  "pipe_file w a x = x\<lparr>ftype := FD_PIPE, readable := \<not> w, writable := w, fpipe := a\<rparr>"

definition pipealloc :: "(nat \<times> byte list) option \<Rightarrow> kernel \<Rightarrow> ((nat \<times> nat) option \<times> kernel) outcome" where
  "pipealloc page s =
     (case filealloc s of (f0, s) \<Rightarrow>
      case (if f0 = None then (None, s) else filealloc s) of (f1, s) \<Rightarrow>
      case (f0, f1, page) of
        (Some i, Some j, Some (a, bs)) \<Rightarrow>
          let s = s\<lparr>kpipes := (kpipes s)(a \<mapsto> new_pipe bs)\<rparr> in
          and_then (get_file i s) (\<lambda>x. let s = set_file i (pipe_file False a x) s in
          and_then (get_file j s) (\<lambda>y. Ret (Some (i, j), set_file j (pipe_file True a y) s)))
      | _ \<Rightarrow> and_then (close_opt f0 s) (\<lambda>s. and_then (close_opt f1 s) (\<lambda>s. Ret (None, s))))"

end
