(* ===== verification/Sysfile.thy ===== *)
theory Sysfile
  imports File
begin

text \<open>
  The system calls on files (src/src/sysfile.c), and the part of \<^verbatim>\<open>fork\<close> and \<^verbatim>\<open>exit\<close> (src/src/proc.c) that
  passes on and drops what a process holds. An argument is None when fetching it from the process fails; \<open>hr\<close> and \<open>hw\<close>
  tell which device drivers can read and write. The device of every inode is the one of the disk.
\<close>

unbundle bit_operations_syntax

definition O_RDONLY :: int where "O_RDONLY = 0"
definition O_WRONLY :: int where "O_WRONLY = 1"
definition O_RDWR :: int where "O_RDWR = 2"
definition O_CREATE :: int where "O_CREATE = 0x200"

definition get_holder :: "nat \<Rightarrow> kernel \<Rightarrow> holder outcome" where
  "get_holder me s = or_panic (rd (holders s) (int me))"

definition set_holder :: "nat \<Rightarrow> holder \<Rightarrow> kernel \<Rightarrow> kernel" where
  "set_holder me h s = s\<lparr>holders := (holders s)[me := h]\<rparr>"

definition set_fd :: "nat \<Rightarrow> nat \<Rightarrow> nat option \<Rightarrow> kernel \<Rightarrow> kernel outcome" where
  "set_fd me fd v s = and_then (get_holder me s) (\<lambda>h. Ret (set_holder me (h\<lparr>ofile := (ofile h)[fd := v]\<rparr>) s))"

definition cwd_of :: "nat \<Rightarrow> kernel \<Rightarrow> nat outcome" where
  "cwd_of me s = and_then (get_holder me s) (\<lambda>h. or_panic (pcwd h))"

section \<open>Descriptors\<close>

definition argfd :: "nat \<Rightarrow> int option \<Rightarrow> kernel \<Rightarrow> (nat \<times> nat) option outcome" where
  "argfd me fd s = and_then (get_holder me s) (\<lambda>h.
     case fd of
       None \<Rightarrow> Ret None
     | Some fd \<Rightarrow>
         if fd < 0 \<or> fd \<ge> int NOFILE then Ret None
         else and_then (or_panic (rd (ofile h) fd)) (\<lambda>v. Ret (map_option (\<lambda>i. (nat fd, i)) v)))"

fun free_fd :: "nat option list \<Rightarrow> nat \<Rightarrow> nat option" where
  "free_fd [] fd = None"
| "free_fd (v # vs) fd = (if v = None then Some fd else free_fd vs (fd + 1))"

definition fdalloc :: "nat \<Rightarrow> nat \<Rightarrow> kernel \<Rightarrow> (nat option \<times> kernel) outcome" where
  "fdalloc me i s = and_then (get_holder me s) (\<lambda>h.
     case free_fd (ofile h) 0 of
       None \<Rightarrow> Ret (None, s)
     | Some fd \<Rightarrow> and_then (set_fd me fd (Some i) s) (\<lambda>s. Ret (Some fd, s)))"

definition sys_dup :: "nat \<Rightarrow> int option \<Rightarrow> kernel \<Rightarrow> (int \<times> kernel) outcome" where
  "sys_dup me fd s = and_then (argfd me fd s) (\<lambda>r. case r of
       None \<Rightarrow> Ret (- 1, s)
     | Some (_, i) \<Rightarrow> and_then (fdalloc me i s) (\<lambda>(r, s). case r of
           None \<Rightarrow> Ret (- 1, s)
         | Some fd \<Rightarrow> and_then (filedup i s) (\<lambda>s. Ret (int fd, s))))"

definition sys_read :: "(int \<Rightarrow> bool) \<Rightarrow> driver \<Rightarrow> bool \<Rightarrow> nat \<Rightarrow> int option \<Rightarrow> nat option \<Rightarrow> kernel \<Rightarrow> ((int \<times> byte list) \<times> kernel) outcome" where
  "sys_read hr drv killed me fd n s = and_then (argfd me fd s) (\<lambda>r. case (r, n) of
       (Some (_, i), Some n) \<Rightarrow> fileread hr drv killed i n s
     | _ \<Rightarrow> Ret ((- 1, []), s))"

definition sys_write :: "(int \<Rightarrow> bool) \<Rightarrow> driver \<Rightarrow> bool \<Rightarrow> nat \<Rightarrow> int option \<Rightarrow> byte list option \<Rightarrow> kernel \<Rightarrow> (int \<times> kernel) outcome" where
  "sys_write hw drv killed me fd src s = and_then (argfd me fd s) (\<lambda>r. case (r, src) of
       (Some (_, i), Some src) \<Rightarrow> filewrite hw drv killed i src s
     | _ \<Rightarrow> Ret (- 1, s))"

definition sys_close :: "nat \<Rightarrow> int option \<Rightarrow> kernel \<Rightarrow> (int \<times> kernel) outcome" where
  "sys_close me fd s = and_then (argfd me fd s) (\<lambda>r. case r of
       None \<Rightarrow> Ret (- 1, s)
     | Some (fd, i) \<Rightarrow> and_then (set_fd me fd None s) (\<lambda>s. and_then (fileclose i s) (\<lambda>s. Ret (0, s))))"

definition sys_fstat :: "nat \<Rightarrow> int option \<Rightarrow> bool \<Rightarrow> kernel \<Rightarrow> ((int \<times> stat_rec option) \<times> kernel) outcome" where
  "sys_fstat me fd ptr s = and_then (argfd me fd s) (\<lambda>r. case r of
       Some (_, i) \<Rightarrow> if ptr then filestat i s else Ret ((- 1, None), s)
     | None \<Rightarrow> Ret ((- 1, None), s))"

section \<open>Links and directories\<close>

definition change_inode :: "nat \<Rightarrow> (inode \<Rightarrow> inode) \<Rightarrow> fs \<Rightarrow> fs outcome" where
  "change_inode k g f = and_then (get_inode k f) (\<lambda>ip. Ret (set_inode k (g ip) f))"

definition update_inode :: "nat \<Rightarrow> fs \<Rightarrow> fs outcome" where
  "update_inode k f = and_then (get_inode k f) (\<lambda>ip. and_then (or_panic (iupdate ip (fstore f))) (\<lambda>st. Ret (f\<lparr>fstore := st\<rparr>)))"

text \<open>The label \<^verbatim>\<open>bad\<close> of \<^verbatim>\<open>sys_link\<close>.\<close>

definition link_bad :: "nat \<Rightarrow> fs \<Rightarrow> (int \<times> fs) outcome" where
  "link_bad ip f =
     and_then (ilock ip f) (\<lambda>f.
     and_then (change_inode ip (\<lambda>i. i\<lparr>nlink := nlink i - 1\<rparr>) f) (\<lambda>f.
     and_then (update_inode ip f) (\<lambda>f.
     and_then (iunlockput ip f) (\<lambda>f.
     and_then (end_op f) (\<lambda>f. Ret (- 1, f))))))"

text \<open>The second half: entering the new name.\<close>

definition link_name :: "(int \<Rightarrow> bool) \<Rightarrow> (int \<Rightarrow> bool) \<Rightarrow> nat \<Rightarrow> cstring \<Rightarrow> nat \<Rightarrow> fs \<Rightarrow> (int \<times> fs) outcome" where
  "link_name hr hw cwd new ip f = and_then (nameiparent hr new cwd f) (\<lambda>(r, f). case r of
       None \<Rightarrow> link_bad ip f
     | Some (dp, name) \<Rightarrow>
         and_then (ilock dp f) (\<lambda>f.
         and_then (get_inode dp f) (\<lambda>d.
         and_then (get_inode ip f) (\<lambda>i.
         and_then (if idev d \<noteq> idev i then Ret (- 1, f) else dirlink hr hw dp name (inum i) f) (\<lambda>(r, f).
           if r < 0 then and_then (iunlockput dp f) (\<lambda>f. link_bad ip f)
           else and_then (iunlockput dp f) (\<lambda>f. and_then (iput ip f) (\<lambda>f. and_then (end_op f) (\<lambda>f. Ret (0, f)))))))))"

definition link_paths :: "(int \<Rightarrow> bool) \<Rightarrow> (int \<Rightarrow> bool) \<Rightarrow> nat \<Rightarrow> cstring \<Rightarrow> cstring \<Rightarrow> fs \<Rightarrow> (int \<times> fs) outcome" where
  "link_paths hr hw cwd old new f = and_then (namei hr old cwd f) (\<lambda>(r, f). case r of
       None \<Rightarrow> Ret (- 1, f)
     | Some ip \<Rightarrow>
         and_then (begin_op f) (\<lambda>f.
         and_then (ilock ip f) (\<lambda>f.
         and_then (get_inode ip f) (\<lambda>i.
           if itype i = T_DIR then and_then (iunlockput ip f) (\<lambda>f. and_then (end_op f) (\<lambda>f. Ret (- 1, f)))
           else
             and_then (change_inode ip (\<lambda>i. i\<lparr>nlink := nlink i + 1\<rparr>) f) (\<lambda>f.
             and_then (update_inode ip f) (\<lambda>f.
             and_then (iunlock ip f) (\<lambda>f. link_name hr hw cwd new ip f)))))))"

definition sys_link :: "(int \<Rightarrow> bool) \<Rightarrow> (int \<Rightarrow> bool) \<Rightarrow> nat \<Rightarrow> cstring option \<Rightarrow> cstring option \<Rightarrow> kernel \<Rightarrow> (int \<times> kernel) outcome" where
  "sys_link hr hw me old new s = and_then (cwd_of me s) (\<lambda>cwd. case (old, new) of
       (Some old, Some new) \<Rightarrow> on_fs (link_paths hr hw cwd old new) s
     | _ \<Rightarrow> Ret (- 1, s))"

text \<open>The scan of a directory behind its first two entries.\<close>

function isdirempty_loop :: "(int \<Rightarrow> bool) \<Rightarrow> inode \<Rightarrow> nat \<Rightarrow> store \<Rightarrow> (bool \<times> inode \<times> store) option" where
  "isdirempty_loop hr ip off st =
     (if off < unat (isize ip)
      then (case read_dirent hr ip off st of
         None \<Rightarrow> None
       | Some (i, nm, ip', st') \<Rightarrow> if i \<noteq> 0 then Some (False, ip', st') else isdirempty_loop hr ip' (off + 16) st')
      else Some (True, ip, st))"
  by pat_completeness auto
termination by (relation "measure (\<lambda>(hr, ip, off, st). unat (isize ip) - off)") (auto dest!: read_dirent_same)

declare isdirempty_loop.simps [simp del]

definition isdirempty :: "(int \<Rightarrow> bool) \<Rightarrow> nat \<Rightarrow> fs \<Rightarrow> (bool \<times> fs) outcome" where
  "isdirempty hr k f = and_then (get_inode k f) (\<lambda>ip.
     and_then (or_panic (isdirempty_loop hr ip 32 (fstore f))) (\<lambda>(b, ip, st). Ret (b, set_inode k ip (f\<lparr>fstore := st\<rparr>))))"

definition unlink_bad :: "nat \<Rightarrow> fs \<Rightarrow> (int \<times> fs) outcome" where
  "unlink_bad dp f = and_then (iunlockput dp f) (\<lambda>f. and_then (end_op f) (\<lambda>f. Ret (- 1, f)))"

text \<open>Clearing the entry and dropping the link.\<close>

definition clear_entry :: "(int \<Rightarrow> bool) \<Rightarrow> nat \<Rightarrow> nat \<Rightarrow> fs \<Rightarrow> fs outcome" where
  "clear_entry hw dp off f = and_then (get_inode dp f) (\<lambda>d.
     and_then (or_panic (writei hw d (replicate 16 0) (of_nat off) (fstore f))) (\<lambda>(r, d, st).
       if r \<noteq> Io_ok 16 then Panic else Ret (set_inode dp d (f\<lparr>fstore := st\<rparr>))))"

definition drop_link :: "nat \<Rightarrow> fs \<Rightarrow> fs outcome" where
  "drop_link k f = and_then (change_inode k (\<lambda>i. i\<lparr>nlink := nlink i - 1\<rparr>) f) (\<lambda>f. update_inode k f)"

definition unlink_entry :: "(int \<Rightarrow> bool) \<Rightarrow> bool \<Rightarrow> nat \<Rightarrow> nat \<Rightarrow> nat \<Rightarrow> fs \<Rightarrow> (int \<times> fs) outcome" where
  "unlink_entry hw isdir dp off ip f =
     and_then (clear_entry hw dp off f) (\<lambda>f.
     and_then (if isdir then drop_link dp f else Ret f) (\<lambda>f.
     and_then (iunlockput dp f) (\<lambda>f.
     and_then (drop_link ip f) (\<lambda>f.
     and_then (iunlockput ip f) (\<lambda>f.
     and_then (end_op f) (\<lambda>f. Ret (0, f)))))))"

definition unlink_found :: "(int \<Rightarrow> bool) \<Rightarrow> (int \<Rightarrow> bool) \<Rightarrow> nat \<Rightarrow> nat \<Rightarrow> nat \<Rightarrow> fs \<Rightarrow> (int \<times> fs) outcome" where
  "unlink_found hr hw dp off ip f =
     and_then (ilock ip f) (\<lambda>f.
     and_then (get_inode ip f) (\<lambda>i.
       if sint (nlink i) < 1 then Panic
       else and_then (if itype i = T_DIR then isdirempty hr ip f else Ret (True, f)) (\<lambda>(empty, f).
         if \<not> empty then and_then (iunlockput ip f) (\<lambda>f. unlink_bad dp f)
         else unlink_entry hw (itype i = T_DIR) dp off ip f)))"

text \<open>A name that is a dot or two dots; \<^verbatim>\<open>name\<close> is a field of \<^const>\<open>DIRSIZ\<close> bytes.\<close>

definition is_name :: "cstring \<Rightarrow> string \<Rightarrow> bool outcome" where
  "is_name name t = and_then (or_panic (namecmp (lit t) (padded DIRSIZ name))) (\<lambda>d. Ret (d = 0))"

definition unlink_path :: "(int \<Rightarrow> bool) \<Rightarrow> (int \<Rightarrow> bool) \<Rightarrow> nat \<Rightarrow> cstring \<Rightarrow> fs \<Rightarrow> (int \<times> fs) outcome" where
  "unlink_path hr hw cwd path f = and_then (nameiparent hr path cwd f) (\<lambda>(r, f). case r of
       None \<Rightarrow> Ret (- 1, f)
     | Some (dp, name) \<Rightarrow>
         and_then (begin_op f) (\<lambda>f.
         and_then (ilock dp f) (\<lambda>f.
         and_then (is_name name ''.'') (\<lambda>dot.
         and_then (is_name name ''..'') (\<lambda>dots.
           if dot \<or> dots then unlink_bad dp f
           else and_then (dirlookup hr dp name f) (\<lambda>(r, f). case r of
               None \<Rightarrow> unlink_bad dp f
             | Some (ip, off) \<Rightarrow> unlink_found hr hw dp off ip f))))))"

definition sys_unlink :: "(int \<Rightarrow> bool) \<Rightarrow> (int \<Rightarrow> bool) \<Rightarrow> nat \<Rightarrow> cstring option \<Rightarrow> kernel \<Rightarrow> (int \<times> kernel) outcome" where
  "sys_unlink hr hw me path s = and_then (cwd_of me s) (\<lambda>cwd. case path of
       Some path \<Rightarrow> on_fs (unlink_path hr hw cwd path) s
     | None \<Rightarrow> Ret (- 1, s))"

section \<open>Creating and opening\<close>

text \<open>The entries of a new directory.\<close>

definition make_dots :: "(int \<Rightarrow> bool) \<Rightarrow> (int \<Rightarrow> bool) \<Rightarrow> nat \<Rightarrow> nat \<Rightarrow> fs \<Rightarrow> fs outcome" where
  "make_dots hr hw dp ip f =
     and_then (change_inode dp (\<lambda>d. d\<lparr>nlink := nlink d + 1\<rparr>) f) (\<lambda>f.
     and_then (update_inode dp f) (\<lambda>f.
     and_then (get_inode ip f) (\<lambda>i.
     and_then (get_inode dp f) (\<lambda>d.
     and_then (dirlink hr hw ip (lit ''.'') (inum i) f) (\<lambda>(r, f).
       if r < 0 then Panic
       else and_then (dirlink hr hw ip (lit ''..'') (inum d) f) (\<lambda>(r, f). if r < 0 then Panic else Ret f))))))"

definition create_new :: "(int \<Rightarrow> bool) \<Rightarrow> (int \<Rightarrow> bool) \<Rightarrow> nat \<Rightarrow> cstring \<Rightarrow> 16 word \<Rightarrow> 16 word \<Rightarrow> 16 word \<Rightarrow> fs \<Rightarrow> (nat option \<times> fs) outcome" where
  "create_new hr hw dp name ty maj mnr f =
     and_then (ialloc ty f) (\<lambda>(ip, f).
     and_then (ilock ip f) (\<lambda>f.
     and_then (change_inode ip (\<lambda>i. i\<lparr>major := maj, minor := mnr, nlink := 1\<rparr>) f) (\<lambda>f.
     and_then (update_inode ip f) (\<lambda>f.
     and_then (if ty = T_DIR then make_dots hr hw dp ip f else Ret f) (\<lambda>f.
     and_then (get_inode ip f) (\<lambda>i.
     and_then (dirlink hr hw dp name (inum i) f) (\<lambda>(r, f).
       if r < 0 then Panic
       else and_then (iunlockput dp f) (\<lambda>f. Ret (Some ip, f)))))))))"

definition create :: "(int \<Rightarrow> bool) \<Rightarrow> (int \<Rightarrow> bool) \<Rightarrow> nat \<Rightarrow> cstring \<Rightarrow> 16 word \<Rightarrow> 16 word \<Rightarrow> 16 word \<Rightarrow> fs \<Rightarrow> (nat option \<times> fs) outcome" where
  "create hr hw cwd path ty maj mnr f = and_then (nameiparent hr path cwd f) (\<lambda>(r, f). case r of
       None \<Rightarrow> Ret (None, f)
     | Some (dp, name) \<Rightarrow>
         and_then (ilock dp f) (\<lambda>f.
         and_then (dirlookup hr dp name f) (\<lambda>(r, f). case r of
             Some (ip, off) \<Rightarrow>
               and_then (iunlockput dp f) (\<lambda>f.
               and_then (ilock ip f) (\<lambda>f.
               and_then (get_inode ip f) (\<lambda>i.
                 if ty = T_FILE \<and> itype i = T_FILE then Ret (Some ip, f)
                 else and_then (iunlockput ip f) (\<lambda>f. Ret (None, f)))))
           | None \<Rightarrow> create_new hr hw dp name ty maj mnr f)))"

text \<open>The inode to open, locked, or none.\<close>

definition open_inode :: "(int \<Rightarrow> bool) \<Rightarrow> (int \<Rightarrow> bool) \<Rightarrow> nat \<Rightarrow> cstring \<Rightarrow> int \<Rightarrow> fs \<Rightarrow> (nat option \<times> fs) outcome" where
  "open_inode hr hw cwd path omode f =
     (if omode AND O_CREATE \<noteq> 0
      then and_then (begin_op f) (\<lambda>f.
           and_then (create hr hw cwd path T_FILE 0 0 f) (\<lambda>(r, f).
           and_then (end_op f) (\<lambda>f. Ret (r, f))))
      else and_then (namei hr path cwd f) (\<lambda>(r, f). case r of
          None \<Rightarrow> Ret (None, f)
        | Some ip \<Rightarrow>
            and_then (ilock ip f) (\<lambda>f.
            and_then (get_inode ip f) (\<lambda>i.
              if itype i = T_DIR \<and> omode \<noteq> O_RDONLY then and_then (iunlockput ip f) (\<lambda>f. Ret (None, f))
              else Ret (Some ip, f)))))"

definition inode_file :: "int \<Rightarrow> nat \<Rightarrow> open_file \<Rightarrow> open_file" where
  "inode_file omode ip x = x\<lparr>ftype := FD_INODE, fip := ip, foff := 0, readable := omode AND O_WRONLY = 0,
     writable := omode AND O_WRONLY \<noteq> 0 \<or> omode AND O_RDWR \<noteq> 0\<rparr>"

definition open_fd :: "nat \<Rightarrow> int \<Rightarrow> nat \<Rightarrow> kernel \<Rightarrow> (int \<times> kernel) outcome" where
  "open_fd me omode ip s =
     (case filealloc s of
        (None, s) \<Rightarrow> and_then (run_fs (iunlockput ip) s) (\<lambda>s. Ret (- 1, s))
      | (Some i, s) \<Rightarrow> and_then (fdalloc me i s) (\<lambda>(r, s). case r of
            None \<Rightarrow> and_then (fileclose i s) (\<lambda>s. and_then (run_fs (iunlockput ip) s) (\<lambda>s. Ret (- 1, s)))
          | Some fd \<Rightarrow>
              and_then (run_fs (iunlock ip) s) (\<lambda>s.
              and_then (get_file i s) (\<lambda>x. Ret (int fd, set_file i (inode_file omode ip x) s)))))"

definition sys_open :: "(int \<Rightarrow> bool) \<Rightarrow> (int \<Rightarrow> bool) \<Rightarrow> nat \<Rightarrow> cstring option \<Rightarrow> int option \<Rightarrow> kernel \<Rightarrow> (int \<times> kernel) outcome" where
  "sys_open hr hw me path omode s = and_then (cwd_of me s) (\<lambda>cwd. case (path, omode) of
       (Some path, Some omode) \<Rightarrow> and_then (on_fs (open_inode hr hw cwd path omode) s) (\<lambda>(r, s). case r of
           None \<Rightarrow> Ret (- 1, s)
         | Some ip \<Rightarrow> open_fd me omode ip s)
     | _ \<Rightarrow> Ret (- 1, s))"

text \<open>What \<^verbatim>\<open>sys_mkdir\<close> and \<^verbatim>\<open>sys_mknod\<close> share: the arguments are fetched inside of the transaction.\<close>

definition make_node :: "(int \<Rightarrow> bool) \<Rightarrow> (int \<Rightarrow> bool) \<Rightarrow> nat \<Rightarrow> 16 word \<Rightarrow> (cstring \<times> 16 word \<times> 16 word) option \<Rightarrow> fs \<Rightarrow> (int \<times> fs) outcome" where
  "make_node hr hw cwd ty arg f = and_then (begin_op f) (\<lambda>f.
     and_then (case arg of None \<Rightarrow> Ret (None, f) | Some (path, maj, mnr) \<Rightarrow> create hr hw cwd path ty maj mnr f) (\<lambda>(r, f). case r of
       None \<Rightarrow> and_then (end_op f) (\<lambda>f. Ret (- 1, f))
     | Some ip \<Rightarrow> and_then (iunlockput ip f) (\<lambda>f. and_then (end_op f) (\<lambda>f. Ret (0, f)))))"

definition sys_mkdir :: "(int \<Rightarrow> bool) \<Rightarrow> (int \<Rightarrow> bool) \<Rightarrow> nat \<Rightarrow> cstring option \<Rightarrow> kernel \<Rightarrow> (int \<times> kernel) outcome" where
  "sys_mkdir hr hw me path s = and_then (cwd_of me s) (\<lambda>cwd.
     on_fs (make_node hr hw cwd T_DIR (map_option (\<lambda>p. (p, 0, 0)) path)) s)"

definition sys_mknod :: "(int \<Rightarrow> bool) \<Rightarrow> (int \<Rightarrow> bool) \<Rightarrow> nat \<Rightarrow> cstring option \<Rightarrow> int option \<Rightarrow> int option \<Rightarrow> kernel \<Rightarrow> (int \<times> kernel) outcome" where
  "sys_mknod hr hw me path maj mnr s = and_then (cwd_of me s) (\<lambda>cwd.
     on_fs (make_node hr hw cwd T_DEV (case (path, maj, mnr) of
       (Some p, Some a, Some b) \<Rightarrow> Some (p, word_of_int a, word_of_int b) | _ \<Rightarrow> None)) s)"

definition chdir_path :: "(int \<Rightarrow> bool) \<Rightarrow> nat \<Rightarrow> cstring \<Rightarrow> fs \<Rightarrow> (nat option \<times> fs) outcome" where
  "chdir_path hr cwd path f = and_then (namei hr path cwd f) (\<lambda>(r, f). case r of
       None \<Rightarrow> Ret (None, f)
     | Some ip \<Rightarrow>
         and_then (ilock ip f) (\<lambda>f.
         and_then (get_inode ip f) (\<lambda>i.
           if itype i \<noteq> T_DIR then and_then (iunlockput ip f) (\<lambda>f. Ret (None, f))
           else and_then (iunlock ip f) (\<lambda>f. Ret (Some ip, f)))))"

definition sys_chdir :: "(int \<Rightarrow> bool) \<Rightarrow> nat \<Rightarrow> cstring option \<Rightarrow> kernel \<Rightarrow> (int \<times> kernel) outcome" where
  "sys_chdir hr me path s = and_then (cwd_of me s) (\<lambda>cwd. case path of
       None \<Rightarrow> Ret (- 1, s)
     | Some path \<Rightarrow> and_then (on_fs (chdir_path hr cwd path) s) (\<lambda>(r, s). case r of
           None \<Rightarrow> Ret (- 1, s)
         | Some ip \<Rightarrow>
             and_then (run_fs (iput cwd) s) (\<lambda>s.
             and_then (get_holder me s) (\<lambda>h. Ret (0, set_holder me (h\<lparr>pcwd := Some ip\<rparr>) s)))))"

text \<open>The two descriptors of a new pipe, which the call stores in the memory of the process.\<close>

definition pipe_fds :: "nat \<Rightarrow> nat \<Rightarrow> nat \<Rightarrow> kernel \<Rightarrow> ((nat \<times> nat) option \<times> kernel) outcome" where
  "pipe_fds me rf wrf s =
     and_then (fdalloc me rf s) (\<lambda>(fd0, s).
     and_then (if fd0 = None then Ret (None, s) else fdalloc me wrf s) (\<lambda>(fd1, s).
     case (fd0, fd1) of
       (Some a, Some b) \<Rightarrow> Ret (Some (a, b), s)
     | _ \<Rightarrow>
         and_then (case fd0 of None \<Rightarrow> Ret s | Some a \<Rightarrow> set_fd me a None s) (\<lambda>s.
         and_then (fileclose rf s) (\<lambda>s.
         and_then (fileclose wrf s) (\<lambda>s. Ret (None, s))))))"

definition sys_pipe :: "nat \<Rightarrow> bool \<Rightarrow> (nat \<times> byte list) option \<Rightarrow> kernel \<Rightarrow> ((nat \<times> nat) option \<times> kernel) outcome" where
  "sys_pipe me ptr page s =
     (if \<not> ptr then Ret (None, s)
      else and_then (pipealloc page s) (\<lambda>(r, s). case r of
          None \<Rightarrow> Ret (None, s)
        | Some (rf, wrf) \<Rightarrow> pipe_fds me rf wrf s))"

section \<open>Processes that come and go\<close>

fun dup_fds :: "nat option list \<Rightarrow> nat \<Rightarrow> nat \<Rightarrow> kernel \<Rightarrow> kernel outcome" where
  "dup_fds [] np i s = Ret s"
| "dup_fds (None # vs) np i s = dup_fds vs np (i + 1) s"
| "dup_fds (Some x # vs) np i s = and_then (filedup x s) (\<lambda>s. and_then (set_fd np i (Some x) s) (\<lambda>s. dup_fds vs np (i + 1) s))"

definition fork_files :: "nat \<Rightarrow> nat \<Rightarrow> kernel \<Rightarrow> kernel outcome" where
  "fork_files me np s =
     and_then (get_holder me s) (\<lambda>h.
     and_then (dup_fds (ofile h) np 0 s) (\<lambda>s.
     and_then (cwd_of me s) (\<lambda>cwd.
     and_then (run_fs (idup cwd) s) (\<lambda>s.
     and_then (get_holder np s) (\<lambda>h. Ret (set_holder np (h\<lparr>pcwd := Some cwd\<rparr>) s))))))"

fun close_fds :: "nat \<Rightarrow> nat \<Rightarrow> nat \<Rightarrow> kernel \<Rightarrow> kernel outcome" where
  "close_fds 0 me fd s = Ret s"
| "close_fds (Suc n) me fd s = and_then (get_holder me s) (\<lambda>h.
     case ofile h ! fd of
       None \<Rightarrow> close_fds n me (fd + 1) s
     | Some i \<Rightarrow> and_then (fileclose i s) (\<lambda>s. and_then (set_fd me fd None s) (\<lambda>s. close_fds n me (fd + 1) s)))"

definition exit_files :: "nat \<Rightarrow> kernel \<Rightarrow> kernel outcome" where
  "exit_files me s =
     and_then (close_fds NOFILE me 0 s) (\<lambda>s.
     and_then (cwd_of me s) (\<lambda>cwd.
     and_then (run_fs (iput cwd) s) (\<lambda>s.
     and_then (get_holder me s) (\<lambda>h. Ret (set_holder me (h\<lparr>pcwd := None\<rparr>) s)))))"

text \<open>The first process starts in the root directory.\<close>

definition init_files :: "store \<Rightarrow> nat \<Rightarrow> kernel" where
  "init_files st n = \<lparr>kfs = iinit st,
     ftable = replicate NFILE \<lparr>ftype = FD_NONE, fref = 0, readable = False, writable = False, fpipe = 0, fip = 0, foff = 0\<rparr>,
     kpipes = (\<lambda>_. None), holders = replicate n \<lparr>ofile = replicate NOFILE None, pcwd = None\<rparr>\<rparr>"

definition first_cwd :: "kernel \<Rightarrow> kernel outcome" where
  "first_cwd s =
     and_then (on_fs (\<lambda>f. namei (\<lambda>_. False) (lit ''/'') 0 f) s) (\<lambda>(r, s).
     and_then (get_holder 0 s) (\<lambda>h. Ret (set_holder 0 (h\<lparr>pcwd := r\<rparr>) s)))"

end
