(* ===== verification/Sysfile_Refs.thy ===== *)
theory Sysfile_Refs
  imports Sysfile "HOL-Library.Multiset"
begin

text \<open>
  Accounting for the references to inodes and the locks that a system call takes on its way: on every path through
  a call, what it took is given back or handed to the caller.
\<close>

declare split_paired_All [simp del]

section \<open>The account of a system call\<close>

text \<open>
  \<open>acc f0 M L f\<close>: since the state \<open>f0\<close>, in which nobody held a lock, the call has taken the references \<open>M\<close> and the locks \<open>L\<close>. The
  references of others are untouched, and so are the inodes they stand for.
\<close>

definition acc :: "fs \<Rightarrow> nat multiset \<Rightarrow> nat set \<Rightarrow> fs \<Rightarrow> bool" where
  "acc f0 M L f \<longleftrightarrow> icache_ok f \<and> length (icache f) = length (icache f0) \<and>
     (\<forall>j < length (icache f0). 0 \<le> iref (icache f0 ! j) \<and> iref (icache f ! j) = iref (icache f0 ! j) + int (count M j)) \<and>
     (\<forall>j < length (icache f0). iref (icache f0 ! j) > 0 \<longrightarrow> key (icache f ! j) = key (icache f0 ! j)) \<and>
     (\<forall>j < length (icache f0). ibusy (icache f ! j) \<longleftrightarrow> j \<in> L) \<and>
     (\<forall>j \<in> L. j < length (icache f0) \<and> iref (icache f ! j) > 0) \<and> (\<forall>j \<in># M. j < length (icache f0))"

definition quiet :: "fs \<Rightarrow> bool" where
  "quiet f \<longleftrightarrow> icache_ok f \<and> (\<forall>j < length (icache f). \<not> ibusy (icache f ! j))"

lemma acc_start: "quiet f \<Longrightarrow> acc f {#} {} f"
  by (simp add: acc_def quiet_def icache_ok_def)

lemma acc_quiet: "acc f0 M {} f \<Longrightarrow> quiet f"
  by (simp add: acc_def quiet_def)

lemma accD:
  assumes "acc f0 M L f"
  shows "icache_ok f" "length (icache f) = length (icache f0)"
    "j < length (icache f0) \<Longrightarrow> 0 \<le> iref (icache f0 ! j)"
    "j < length (icache f0) \<Longrightarrow> iref (icache f ! j) = iref (icache f0 ! j) + int (count M j)"
    "j < length (icache f0) \<Longrightarrow> iref (icache f0 ! j) > 0 \<Longrightarrow> key (icache f ! j) = key (icache f0 ! j)"
    "j < length (icache f0) \<Longrightarrow> ibusy (icache f ! j) \<longleftrightarrow> j \<in> L"
    "j \<in> L \<Longrightarrow> j < length (icache f0)" "j \<in> L \<Longrightarrow> iref (icache f ! j) > 0" "j \<in># M \<Longrightarrow> j < length (icache f0)"
  using assms unfolding acc_def by blast+

lemma acc_slot:
  assumes a: "acc f0 M L f" and k: "k < length (icache f0)" and ok: "icache_ok (set_inode k ip (f\<lparr>fstore := st\<rparr>))"
    and r: "iref ip = iref (icache f0 ! k) + int (count M' k)" "iref (icache f0 ! k) > 0 \<Longrightarrow> key ip = key (icache f ! k)"
    and b: "ibusy ip \<longleftrightarrow> k \<in> L'" "ibusy ip \<Longrightarrow> iref ip > 0"
    and o: "\<And>j. j \<noteq> k \<Longrightarrow> count M' j = count M j" "\<And>j. j \<noteq> k \<Longrightarrow> j \<in> L' \<longleftrightarrow> j \<in> L"
  shows "acc f0 M' L' (set_inode k ip (f\<lparr>fstore := st\<rparr>))"
proof -
  let ?f = "set_inode k ip (f\<lparr>fstore := st\<rparr>)"
  have e: "icache ?f ! j = (if j = k then ip else icache f ! j)" if "j < length (icache f0)" for j
    using that accD(2)[OF a] by (simp add: set_inode_def nth_list_update)
  have m: "j < length (icache f0)" if "j \<in># M'" for j
    using that accD(9)[OF a, of j] o(1)[of j] k by (cases "j = k") (auto simp: count_greater_zero_iff[symmetric] simp del: count_greater_zero_iff)
  have l: "j < length (icache f0) \<and> iref (icache ?f ! j) > 0" if "j \<in> L'" for j
    using that accD(7,8)[OF a, of j] o(2)[of j] k b e by (cases "j = k") auto
  show ?thesis unfolding acc_def
  proof (intro conjI allI impI ballI)
    fix j assume j: "j < length (icache f0)"
    show "0 \<le> iref (icache f0 ! j)" using accD(3)[OF a j] .
    show "iref (icache ?f ! j) = iref (icache f0 ! j) + int (count M' j)" using e[OF j] r(1) o(1) accD(4)[OF a j] by auto
    show "ibusy (icache ?f ! j) \<longleftrightarrow> j \<in> L'" using e[OF j] b o(2) accD(6)[OF a j] by auto
  next
    fix j assume j: "j < length (icache f0)" "iref (icache f0 ! j) > 0"
    show "key (icache ?f ! j) = key (icache f0 ! j)" using e[OF j(1)] r(2) accD(5)[OF a j] j(2) by auto
  qed (use ok accD(2)[OF a] l m in auto)
qed

lemma acc_store: "acc f0 M L f \<Longrightarrow> acc f0 M L (f\<lparr>fstore := st\<rparr>)"
  by (fastforce simp: acc_def)

text \<open>A change of an inode that leaves its identity, its references and its lock alone.\<close>

lemma acc_change:
  assumes a: "acc f0 M L f" and k: "k < length (icache f0)"
    and ip: "iref ip = iref (icache f ! k)" "key ip = key (icache f ! k)" "ibusy ip = ibusy (icache f ! k)"
  shows "acc f0 M L (set_inode k ip (f\<lparr>fstore := st\<rparr>))"
proof (rule acc_slot[OF a k])
  show "icache_ok (set_inode k ip (f\<lparr>fstore := st\<rparr>))"
    using kept_set[of "f\<lparr>fstore := st\<rparr>" k ip] ip k accD(1,2)[OF a] by (simp add: kept_def)
qed (use ip accD(4,6)[OF a k] accD(8)[OF a, of k] in auto)

lemma get_inode_acc: "acc f0 M L f \<Longrightarrow> get_inode k f = Ret ip \<Longrightarrow> k < length (icache f0) \<and> ip = icache f ! k"
  using accD(2) by fastforce

lemma ilock_acc:
  assumes a: "acc f0 M L f" and r: "ilock k f = Ret f'"
  shows "acc f0 M (insert k L) f' \<and> k \<notin> L \<and> k < length (icache f0)"
proof -
  have K: "kept f f'" "k < length (icache f)" "iref (icache f ! k) > 0" using ilock_kept[OF accD(1)[OF a] r] by auto
  have k: "k < length (icache f0)" using K(2) accD(2)[OF a] by simp
  obtain ip where f': "f' = set_inode k ip (f\<lparr>fstore := fstore f\<rparr>)" and ip: "iref ip = iref (icache f ! k)" "key ip = key (icache f ! k)" "ibusy ip"
    and nb: "\<not> ibusy (icache f ! k)"
    using r by (auto simp: ilock_def Let_def key_def load_dinode_def split: if_splits Option.bind_splits)
  have "acc f0 M (insert k L) f'" unfolding f'
    by (rule acc_slot[OF a k]) (use ip K(1,3) accD(4)[OF a k] f' in \<open>auto simp: kept_def\<close>)
  then show ?thesis using nb accD(6)[OF a k] k by simp
qed

lemma iunlock_acc:
  assumes a: "acc f0 M L f" and r: "iunlock k f = Ret f'"
  shows "acc f0 M (L - {k}) f'" "k \<in> L"
proof -
  have K: "kept f f'" "k < length (icache f)" using iunlock_kept[OF accD(1)[OF a] r] by auto
  have k: "k < length (icache f0)" using K(2) accD(2)[OF a] by simp
  have f': "f' = set_inode k ((icache f ! k)\<lparr>ibusy := False\<rparr>) (f\<lparr>fstore := fstore f\<rparr>)" and b: "ibusy (icache f ! k)"
    using r by (auto simp: iunlock_def split: if_splits)
  show "acc f0 M (L - {k}) f'" unfolding f'
    by (rule acc_slot[OF a k]) (use K(1) accD(4)[OF a k] f' in \<open>auto simp: kept_def key_def\<close>)
  show "k \<in> L" using b accD(6)[OF a k] by simp
qed

lemma iget_acc:
  assumes a: "acc f0 M L f" and r: "iget dv i f = Ret (k, f')"
  shows "acc f0 (add_mset k M) L f'"
proof -
  have g: "Icache.got f (dv, i) k f'" using iget_got[OF accD(1)[OF a] r] .
  have k: "k < length (icache f0)" using g accD(2)[OF a] by (simp add: Icache.got_def)
  obtain h e where l: "iget_loop dv i (icache f) 0 None = (h, e)" by fastforce
  note sp = iget_loop_spec[OF l]
  obtain ip where f': "f' = set_inode k ip (f\<lparr>fstore := fstore f\<rparr>)" and ip: "iref ip = iref (icache f ! k) + 1"
    "ibusy ip = ibusy (icache f ! k)" "iref (icache f ! k) > 0 \<longrightarrow> key ip = key (icache f ! k)"
  proof (cases h)
    case (Some j)
    then show thesis using r l sp that[of "(icache f ! j)\<lparr>iref := iref (icache f ! j) + 1\<rparr>"] by (auto simp: iget_def key_def)
  next
    case None
    then obtain j where e: "e = Some j" using r l by (cases e) (auto simp: iget_def)
    with sp None have j: "j < length (icache f)" "iref (icache f ! j) = 0" by auto
    then have "\<not> ibusy (icache f ! j)" using accD(2)[OF a] accD(6)[OF a, of j] accD(8)[OF a, of j] by auto
    then show thesis using r l None e j that[of "(icache f ! j)\<lparr>idev := dv, inum := i, iref := 1, ibusy := False, ivalid := False\<rparr>"]
      by (auto simp: iget_def)
  qed
  show ?thesis unfolding f'
    by (rule acc_slot[OF a k]) (use g f' ip accD(3,4,6)[OF a k] accD(8)[OF a, of k] in \<open>auto simp: Icache.got_def\<close>)
qed

lemma idup_acc:
  assumes a: "acc f0 M L f" and r: "idup k f = Ret f'" and h: "iref (icache f ! k) > 0"
  shows "acc f0 (add_mset k M) L f'"
proof -
  have g: "Icache.got f (key (icache f ! k)) k f'" using idup_got[OF accD(1)[OF a] r h] .
  have k: "k < length (icache f0)" using g accD(2)[OF a] by (simp add: Icache.got_def)
  have f': "f' = set_inode k ((icache f ! k)\<lparr>iref := iref (icache f ! k) + 1\<rparr>) (f\<lparr>fstore := fstore f\<rparr>)" using r by (auto simp: idup_def)
  show ?thesis unfolding f'
    by (rule acc_slot[OF a k]) (use g f' accD(4,6)[OF a k] accD(8)[OF a, of k] in \<open>auto simp: Icache.got_def key_def\<close>)
qed

text \<open>Dropping a reference to an inode that is not locked, or that is still referred to.\<close>

lemma iput_entry:
  assumes "iput k f = Ret f'" "\<not> ibusy (icache f ! k) \<or> iref (icache f ! k) > 1"
  obtains ip st where "f' = set_inode k ip (f\<lparr>fstore := st\<rparr>)" "iref ip = iref (icache f ! k) - 1" "key ip = key (icache f ! k)"
    "ibusy ip = ibusy (icache f ! k)" "k < length (icache f)"
proof (cases "iref (icache f ! k) = 1 \<and> ivalid (icache f ! k) \<and> nlink (icache f ! k) = 0")
  case True
  with assms obtain ip1 st1 st2 where i: "itrunc ((icache f ! k)\<lparr>ibusy := True\<rparr>) (fstore f) = Some (ip1, st1)" "k < length (icache f)"
    and f': "f' = set_inode k (ip1\<lparr>itype := 0, ibusy := False, ivalid := False, iref := iref ip1 - 1\<rparr>) (f\<lparr>fstore := st2\<rparr>)"
    by (auto simp: iput_def Let_def split: if_splits)
  show thesis by (rule that[OF f']) (use itrunc_same[OF i(1)] True assms(2) i(2) in \<open>auto simp: key_def\<close>)
next
  case False
  with assms(1) have f': "f' = set_inode k ((icache f ! k)\<lparr>iref := iref (icache f ! k) - 1\<rparr>) (f\<lparr>fstore := fstore f\<rparr>)" and k: "k < length (icache f)"
    by (auto simp: iput_def)
  show thesis by (rule that[OF f']) (simp_all add: key_def k)
qed

lemma iput_acc:
  assumes a: "acc f0 (add_mset k M) L f" and r: "iput k f = Ret f'" and l: "k \<in> L \<Longrightarrow> k \<in># M \<or> iref (icache f0 ! k) > 0"
  shows "acc f0 M L f'"
proof -
  have k: "k < length (icache f0)" using accD(9)[OF a] by simp
  have c: "iref (icache f ! k) = iref (icache f0 ! k) + 1 + int (count M k)" "0 \<le> iref (icache f0 ! k)" using accD(3,4)[OF a k] by simp_all
  have m: "k \<in># M \<Longrightarrow> count M k > 0" by simp
  have nb: "\<not> ibusy (icache f ! k) \<or> iref (icache f ! k) > 1" using l accD(6)[OF a k] c m by fastforce
  obtain ip st where f': "f' = set_inode k ip (f\<lparr>fstore := st\<rparr>)" "iref ip = iref (icache f ! k) - 1" "key ip = key (icache f ! k)"
    "ibusy ip = ibusy (icache f ! k)" using iput_entry[OF r nb] by metis
  have d: "dropped f k f'" using iput_dropped[OF accD(1)[OF a] r] c by simp
  show ?thesis unfolding f'(1)
    by (rule acc_slot[OF a k]) (use d f' nb c l accD(6)[OF a k] in \<open>auto simp: dropped_def\<close>)
qed

lemma iunlockput_acc:
  assumes a: "acc f0 (add_mset k M) L f" and r: "iunlockput k f = Ret f'"
  shows "acc f0 M (L - {k}) f'"
proof -
  obtain g where g: "iunlock k f = Ret g" "iput k g = Ret f'" using r by (auto simp: iunlockput_def)
  show ?thesis by (rule iput_acc[OF iunlock_acc(1)[OF a g(1)] g(2)]) simp
qed

section \<open>Conditions after a call that returns\<close>

definition after :: "'a outcome \<Rightarrow> ('a \<Rightarrow> bool) \<Rightarrow> bool" where
  "after x Q \<longleftrightarrow> (\<forall>a. x = Ret a \<longrightarrow> Q a)"

named_theorems calls

lemma afterI: "(\<And>a. x = Ret a \<Longrightarrow> Q a) \<Longrightarrow> after x Q"
  by (simp add: after_def)

lemma afterD: "after x Q \<Longrightarrow> x = Ret a \<Longrightarrow> Q a"
  by (simp add: after_def)

lemma after_simps [simp]: "after Panic Q" "after Sleeps Q" "after (Ret a) Q \<longleftrightarrow> Q a"
  by (simp_all add: after_def)

lemma after_mono: "after x P \<Longrightarrow> (\<And>a. P a \<Longrightarrow> Q a) \<Longrightarrow> after x Q"
  by (simp add: after_def)

lemma after_and_then [calls]: "after x (\<lambda>a. after (g a) Q) \<Longrightarrow> after (and_then x g) Q"
  by (auto simp: after_def)

lemma after_if [calls]: "(b \<Longrightarrow> after x Q) \<Longrightarrow> (\<not> b \<Longrightarrow> after y Q) \<Longrightarrow> after (if b then x else y) Q"
  by simp

lemma after_get_inode [calls]:
  "acc f0 M L f \<Longrightarrow> (k < length (icache f0) \<Longrightarrow> Q (icache f ! k)) \<Longrightarrow> after (get_inode k f) Q"
  by (auto simp: after_def dest: get_inode_acc)

lemma after_ilock [calls]:
  assumes "acc f0 M L f" "\<And>f'. acc f0 M (insert k L) f' \<Longrightarrow> k \<notin> L \<Longrightarrow> k < length (icache f0) \<Longrightarrow> Q f'"
  shows "after (ilock k f) Q"
  using ilock_acc[OF assms(1)] assms(2) by (auto intro!: afterI)

lemma after_iunlock [calls]:
  assumes "acc f0 M L f" "\<And>f'. acc f0 M (L - {k}) f' \<Longrightarrow> k \<in> L \<Longrightarrow> Q f'"
  shows "after (iunlock k f) Q"
  using iunlock_acc[OF assms(1)] assms(2) by (auto intro!: afterI)

lemma after_iput [calls]:
  assumes "acc f0 M L f" "k \<in># M" "k \<notin> L" "\<And>f'. acc f0 (M - {#k#}) L f' \<Longrightarrow> Q f'"
  shows "after (iput k f) Q"
proof (rule afterI)
  fix f' assume r: "iput k f = Ret f'"
  have "acc f0 (add_mset k (M - {#k#})) L f" using assms(1,2) by simp
  from iput_acc[OF this r] assms(3,4) show "Q f'" by blast
qed

lemma after_iunlockput [calls]:
  assumes "acc f0 M L f" "k \<in># M" "\<And>f'. acc f0 (M - {#k#}) (L - {k}) f' \<Longrightarrow> Q f'"
  shows "after (iunlockput k f) Q"
proof (rule afterI)
  fix f' assume r: "iunlockput k f = Ret f'"
  have "acc f0 (add_mset k (M - {#k#})) L f" using assms(1,2) by simp
  from iunlockput_acc[OF this r] assms(3) show "Q f'" by blast
qed

lemma after_iget [calls]:
  assumes "acc f0 M L f" "\<And>k f'. acc f0 (add_mset k M) L f' \<Longrightarrow> Q (k, f')"
  shows "after (iget dv i f) Q"
  using iget_acc[OF assms(1)] assms(2) by (auto intro!: afterI)

lemma after_begin_op [calls]:
  assumes "acc f0 M L f" "\<And>f'. acc f0 M L f' \<Longrightarrow> Q f'"
  shows "after (begin_op f) Q"
  using acc_store[OF assms(1)] assms(2) by (auto simp: begin_op_def split: option.splits)

lemma after_end_op [calls]:
  assumes "acc f0 M L f" "\<And>f'. acc f0 M L f' \<Longrightarrow> Q f'"
  shows "after (end_op f) Q"
  using acc_store[OF assms(1)] assms(2) by (auto simp: end_op_def intro!: afterI)

text \<open>Operations on the contents of an inode.\<close>

definition same_slot_data :: "inode \<Rightarrow> inode \<Rightarrow> bool" where
  "same_slot_data ip ip' \<longleftrightarrow> iref ip' = iref ip \<and> key ip' = key ip \<and> ibusy ip' = ibusy ip"

lemma acc_contents:
  "acc f0 M L f \<Longrightarrow> k < length (icache f0) \<Longrightarrow> same_slot_data (icache f ! k) ip \<Longrightarrow> acc f0 M L (set_inode k ip (f\<lparr>fstore := st\<rparr>))"
  using acc_change[of f0 M L f k ip st] by (simp add: same_slot_data_def)

lemma same_addrs: "\<exists>as. ip' = ip\<lparr>addrs := as\<rparr> \<Longrightarrow> same_slot_data ip ip'"
  by (auto simp: same_slot_data_def key_def)

lemma writei_loop_same: "writei_loop ip src tot n off st = Some (ip', st') \<Longrightarrow> \<exists>as. ip' = ip\<lparr>addrs := as\<rparr>"
proof (induction "n - tot" arbitrary: ip tot off st rule: less_induct)
  case less
  show ?case
  proof (cases "tot < n")
    case False
    then have "ip' = ip" using less.prems by (simp add: writei_loop.simps)
    then show ?thesis by (intro exI[of _ "addrs ip"]) simp
  next
    case True
    let ?m = "min (n - tot) (BSIZE - off mod BSIZE)"
    obtain a ip1 st1 st2 where "bmap ip (off div BSIZE) st = Some (a, ip1, st1)"
      and r: "writei_loop ip1 src (tot + ?m) n (off + ?m) st2 = Some (ip', st')"
      using less.prems True by (subst (asm) writei_loop.simps) (auto simp: Let_def split: option.splits)
    then obtain as where "ip1 = ip\<lparr>addrs := as\<rparr>" using bmap_same by blast
    moreover have "n - (tot + ?m) < n - tot" using True chunk_pos[OF True, of off] by linarith
    then obtain bs where "ip' = ip1\<lparr>addrs := bs\<rparr>" using less.hyps[OF _ r] by blast
    ultimately show ?thesis by auto
  qed
qed

lemma writei_same: "writei hw ip src off st = Some (r, ip', st') \<Longrightarrow> same_slot_data ip ip'"
  by (auto simp: writei_def Let_def same_slot_data_def key_def dest!: writei_loop_same split: if_splits Option.bind_splits)

lemma isdirempty_same: "isdirempty_loop hr ip off st = Some (b, ip', st') \<Longrightarrow> same_slot_data ip ip'"
proof (induction hr ip off st rule: isdirempty_loop.induct)
  case (1 hr ip off st)
  show ?case
  proof (cases "off < unat (isize ip)")
    case False
    then show ?thesis using "1.prems" by (subst (asm) isdirempty_loop.simps) (simp add: same_slot_data_def)
  next
    case True
    then obtain i nm ip1 st1 where r: "read_dirent hr ip off st = Some (i, nm, ip1, st1)"
      using "1.prems" by (subst (asm) isdirempty_loop.simps) (auto split: option.splits)
    have s: "same_slot_data ip ip1" using same_addrs[OF read_dirent_same[OF r]] .
    have "isdirempty_loop hr ip off st = (if i \<noteq> 0 then Some (False, ip1, st1) else isdirempty_loop hr ip1 (off + 16) st1)"
      using True r by (subst isdirempty_loop.simps) simp
    then show ?thesis using "1.prems" "1.IH"[OF True r refl refl refl] s by (auto simp: same_slot_data_def split: if_splits)
  qed
qed

lemma dirlink_loop_same: "dirlink_loop hr ip off st = Some (o', ip', st') \<Longrightarrow> same_slot_data ip ip'"
proof (induction hr ip off st rule: dirlink_loop.induct)
  case (1 hr ip off st)
  show ?case
  proof (cases "off < unat (isize ip)")
    case False
    then show ?thesis using "1.prems" by (subst (asm) dirlink_loop.simps) (simp add: same_slot_data_def)
  next
    case True
    then obtain i nm ip1 st1 where r: "read_dirent hr ip off st = Some (i, nm, ip1, st1)"
      using "1.prems" by (subst (asm) dirlink_loop.simps) (auto split: option.splits)
    have s: "same_slot_data ip ip1" using same_addrs[OF read_dirent_same[OF r]] .
    have "dirlink_loop hr ip off st = (if i = 0 then Some (off, ip1, st1) else dirlink_loop hr ip1 (off + 16) st1)"
      using True r by (subst dirlink_loop.simps) simp
    then show ?thesis using "1.prems" "1.IH"[OF True r refl refl refl] s by (auto simp: same_slot_data_def split: if_splits)
  qed
qed

lemma dirlink_write_same: "dirlink_write hr hw ip name i st = Some (ip', st') \<Longrightarrow> same_slot_data ip ip'"
  by (auto simp: dirlink_write_def same_slot_data_def dest!: dirlink_loop_same writei_same split: Option.bind_splits if_splits)

lemma after_change_inode [calls]:
  assumes "acc f0 M L f" "\<And>ip. same_slot_data ip (g ip)" "\<And>f'. acc f0 M L f' \<Longrightarrow> Q f'"
  shows "after (change_inode k g f) Q"
  using acc_contents[OF assms(1) _ assms(2), of k "fstore f"] assms(3) accD(2)[OF assms(1)]
  by (auto simp: change_inode_def intro!: afterI)

lemma after_update_inode [calls]:
  assumes "acc f0 M L f" "\<And>f'. acc f0 M L f' \<Longrightarrow> Q f'"
  shows "after (update_inode k f) Q"
  using acc_store[OF assms(1)] assms(2) by (auto simp: update_inode_def intro!: afterI)

lemma after_isdirempty [calls]:
  assumes "acc f0 M L f" "\<And>b f'. acc f0 M L f' \<Longrightarrow> Q (b, f')"
  shows "after (isdirempty hr k f) Q"
  using acc_contents[OF assms(1)] assms(2) accD(2)[OF assms(1)] by (auto simp: isdirempty_def dest!: isdirempty_same intro!: afterI)

lemma after_clear_entry [calls]:
  assumes "acc f0 M L f" "\<And>f'. acc f0 M L f' \<Longrightarrow> Q f'"
  shows "after (clear_entry hw k off f) Q"
  using acc_contents[OF assms(1)] assms(2) accD(2)[OF assms(1)] by (auto simp: clear_entry_def dest!: writei_same intro!: afterI split: if_splits)

lemma after_write_inode [calls]:
  assumes "acc f0 M L f" "\<And>r f'. acc f0 M L f' \<Longrightarrow> Q (r, f')"
  shows "after (write_inode hw drv k src off f) Q"
  using acc_contents[OF assms(1)] assms(2) accD(2)[OF assms(1)] by (auto simp: write_inode_def dest!: writei_same intro!: afterI)

lemma after_read_inode [calls]:
  assumes "acc f0 M L f" "\<And>r f'. acc f0 M L f' \<Longrightarrow> Q (r, f')"
  shows "after (read_inode hr drv k off n f) Q"
  using acc_contents[OF assms(1)] assms(2) accD(2)[OF assms(1)] same_addrs[OF readi_same]
  by (fastforce simp: read_inode_def intro!: afterI)

lemma after_drop_link [calls]:
  assumes a: "acc f0 M L f" and q: "\<And>f'. acc f0 M L f' \<Longrightarrow> Q f'"
  shows "after (drop_link k f) Q"
  unfolding drop_link_def
  by (rule after_and_then, rule after_change_inode[OF a]) (auto simp: same_slot_data_def key_def intro!: after_update_inode q)

lemma after_ialloc [calls]:
  assumes a: "acc f0 M L f" and q: "\<And>k f'. acc f0 (add_mset k M) L f' \<Longrightarrow> Q (k, f')"
  shows "after (ialloc ty f) Q"
  unfolding ialloc_def using iget_acc[OF acc_store[OF a]] q by (auto intro!: afterI)

lemma after_dirlookup [calls]:
  assumes a: "acc f0 M L f" and none: "\<And>f'. acc f0 M L f' \<Longrightarrow> Q (None, f')"
    and found: "\<And>j off f'. acc f0 (add_mset j M) L f' \<Longrightarrow> Q (Some (j, off), f')"
  shows "after (dirlookup hr k name f) Q"
proof (rule afterI, clarify)
  fix r f' assume d: "dirlookup hr k name f = Ret (r, f')"
  then obtain r' ip' st' where k: "k < length (icache f)" and l: "dirlookup_loop hr (icache f ! k) name 0 (fstore f) = Some (r', ip', st')"
    by (auto simp: dirlookup_def split: if_splits)
  let ?f = "set_inode k ip' (f\<lparr>fstore := st'\<rparr>)"
  have a': "acc f0 M L ?f" using acc_contents[OF a _ same_addrs[OF dirlookup_loop_same[OF l]]] k accD(2)[OF a] by simp
  show "Q (r, f')"
  proof (cases r')
    case None
    then have "r = None" "f' = ?f" using d k l by (auto simp: dirlookup_def Let_def split: if_splits)
    then show ?thesis using none[OF a'] by simp
  next
    case (Some p)
    obtain off i where p: "p = (off, i)" by (cases p)
    obtain j where "r = Some (j, off)" "iget (idev ip') (ucast i) ?f = Ret (j, f')"
      using d k l Some p by (auto simp: dirlookup_def Let_def split: if_splits)
    then show ?thesis using found[OF iget_acc[OF a']] by simp
  qed
qed

lemma after_dirlink [calls]:
  assumes a: "acc f0 M L f" and m: "k \<in># M" and q: "\<And>r f'. acc f0 M L f' \<Longrightarrow> Q (r, f')"
  shows "after (dirlink hr hw k name i f) Q"
  unfolding dirlink_def
proof (rule after_and_then, rule after_dirlookup[OF a], simp_all)
  fix f' assume a': "acc f0 M L f'"
  show "after (and_then (get_inode k f') (\<lambda>ip. and_then (or_panic (dirlink_write hr hw ip name i (fstore f'))) (\<lambda>(ip, st). Ret (0, set_inode k ip (f'\<lparr>fstore := st\<rparr>))))) Q"
    using acc_contents[OF a'] q accD(2)[OF a'] by (auto dest!: dirlink_write_same intro!: afterI)
next
  fix j off f' assume a': "acc f0 (add_mset j M) L f'"
  show "after (and_then (iput j f') (\<lambda>f. Ret (- 1, f))) Q"
  proof (rule after_and_then, rule afterI, simp)
    fix g assume r: "iput j f' = Ret g"
    have "j \<in># M \<or> iref (icache f0 ! j) > 0" if "j \<in> L"
      using accD(8)[OF a that] accD(4)[OF a accD(7)[OF a that]] by (cases "j \<in># M") (auto simp: not_in_iff)
    then show "Q (- 1, g)" by (intro q iput_acc[OF a' r])
  qed
qed

text \<open>A path: the reference it starts from is passed on or dropped.\<close>

abbreviation found :: "fs \<Rightarrow> nat multiset \<Rightarrow> (nat \<times> 'a) option \<Rightarrow> fs \<Rightarrow> bool" where
  "found f0 M r f \<equiv> (case r of None \<Rightarrow> acc f0 M {} f | Some (j, _) \<Rightarrow> acc f0 (add_mset j M) {} f)"

lemma found_cases: "found f0 M r f \<Longrightarrow> r = None \<and> acc f0 M {} f \<or> (\<exists>j nm. r = Some (j, nm) \<and> acc f0 (add_mset j M) {} f)"
  by (cases r) auto

lemma after_namex_loop:
  "acc f0 (add_mset k M) {} f \<Longrightarrow> after (namex_loop hr path par k f) (\<lambda>(r, f'). found f0 M r f')"
proof (induction "length path" arbitrary: path k f rule: less_induct)
  case less
  note a = less.prems
  show ?case
  proof (cases "skipelem path")
    case None
    then show ?thesis using a by (subst namex_loop.simps) (auto intro!: calls)
  next
    case (Some p)
    obtain name rest where sk: "skipelem path = Some (name, rest)" using Some by (cases p) auto
    note IH = less.hyps[OF skipelem_shorter[OF sk]]
    show ?thesis
      unfolding namex_loop.simps[of hr path] sk option.case prod.case
    proof (intro after_and_then, rule after_ilock[OF a])
      fix g assume g: "acc f0 (add_mset k M) (insert k {}) g"
      let ?rest = "\<lambda>r. case r of (None, f) \<Rightarrow> and_then (iunlockput k f) (\<lambda>f. Ret (None, f))
          | (Some (nxt, off), f) \<Rightarrow> and_then (iunlockput k f) (\<lambda>f. namex_loop hr rest par nxt f)"
      have "after (dirlookup hr k name g) (\<lambda>r. after (?rest r) (\<lambda>(r, f'). found f0 M r f'))"
      proof (rule after_dirlookup[OF g])
        fix f' assume b: "acc f0 (add_mset k M) (insert k {}) f'"
        show "after (?rest (None, f')) (\<lambda>(r, f'). found f0 M r f')" by (auto intro!: after_and_then after_iunlockput[OF b])
      next
        fix j off f' assume b: "acc f0 (add_mset j (add_mset k M)) (insert k {}) f'"
        show "after (?rest (Some (j, off), f')) (\<lambda>(r, f'). found f0 M r f')"
          by (auto intro!: after_and_then after_iunlockput[OF b] IH)
      qed
      then show "after (and_then (get_inode k g) (\<lambda>ip.
           if itype ip \<noteq> T_DIR then and_then (iunlockput k g) (\<lambda>f. Ret (None, f))
           else if par \<and> rest = [] then and_then (iunlock k g) (\<lambda>f. Ret (Some (k, name), f))
           else and_then (dirlookup hr k name g) ?rest)) (\<lambda>(r, f'). found f0 M r f')"
        by (intro after_and_then after_get_inode[OF g] after_if after_iunlockput[OF g] after_iunlock[OF g]) auto
    qed
  qed
qed

lemma after_namex:
  assumes a: "acc f0 M {} f" and cwd: "iref (icache f0 ! cwd) > 0"
  shows "after (namex hr path par cwd f) (\<lambda>(r, f'). found f0 M r f')"
  unfolding namex_def
proof (rule after_if)
  show "after (and_then (iget ROOTDEV ROOTINO f) (\<lambda>(k, f). namex_loop hr path par k f)) (\<lambda>(r, f'). found f0 M r f')"
    by (intro after_and_then after_iget[OF a]) (simp add: after_namex_loop)
  show "after (and_then (idup cwd f) (\<lambda>f. namex_loop hr path par cwd f)) (\<lambda>(r, f'). found f0 M r f')"
  proof (rule after_and_then, rule afterI)
    fix g assume r: "idup cwd f = Ret g"
    then have "cwd < length (icache f0)" using accD(2)[OF a] by (auto simp: idup_def)
    then have "acc f0 (add_mset cwd M) {} g" using idup_acc[OF a r] accD(4)[OF a] cwd by simp
    then show "after (namex_loop hr path par cwd g) (\<lambda>(r, f'). found f0 M r f')" by (rule after_namex_loop)
  qed
qed

lemma after_nameiparent [calls]:
  assumes "acc f0 M {} f" "iref (icache f0 ! cwd) > 0" "\<And>f'. acc f0 M {} f' \<Longrightarrow> Q (None, f')"
    "\<And>j nm f'. acc f0 (add_mset j M) {} f' \<Longrightarrow> Q (Some (j, nm), f')"
  shows "after (nameiparent hr path cwd f) Q"
  unfolding nameiparent_def using assms(3,4) by (intro after_mono[OF after_namex[OF assms(1,2)]]) (auto dest!: found_cases)

lemma after_namei [calls]:
  assumes "acc f0 M {} f" "iref (icache f0 ! cwd) > 0" "\<And>f'. acc f0 M {} f' \<Longrightarrow> Q (None, f')"
    "\<And>j f'. acc f0 (add_mset j M) {} f' \<Longrightarrow> Q (Some j, f')"
  shows "after (namei hr path cwd f) Q"
  unfolding namei_def using assms(3,4) by (intro after_and_then after_mono[OF after_namex[OF assms(1,2)]]) (auto dest!: found_cases)

section \<open>The calls on paths\<close>

lemma same_link [simp]: "same_slot_data ip (ip\<lparr>nlink := n\<rparr>)" "same_slot_data ip (ip\<lparr>major := a, minor := b, nlink := n\<rparr>)"
  by (simp_all add: same_slot_data_def key_def)

lemma after_link_bad:
  assumes "acc f0 (add_mset ip M) {} f" "\<And>f'. acc f0 M {} f' \<Longrightarrow> Q (- 1, f')"
  shows "after (link_bad ip f) Q"
  unfolding link_bad_def
  by (((rule calls, rule assms) | (rule calls, assumption) | rule after_and_then | simp add: assms(2))+)

lemma after_link_paths:
  assumes "acc f0 {#} {} f" "iref (icache f0 ! cwd) > 0"
  shows "after (link_paths hr hw cwd old new f) (\<lambda>(r, f'). acc f0 {#} {} f')"
  unfolding link_paths_def link_name_def
  by (((rule calls, rule assms) | (rule calls, assumption) | rule after_and_then after_if | simp add: assms after_link_bad split del: if_split)+)

lemma after_unlink_bad [calls]:
  assumes "acc f0 {#dp#} {dp} f" "\<And>f'. acc f0 {#} {} f' \<Longrightarrow> Q (- 1, f')"
  shows "after (unlink_bad dp f) Q"
  unfolding unlink_bad_def by (((rule calls, rule assms) | (rule calls, assumption) | rule after_and_then | simp add: assms(2))+)

lemma after_is_name [calls]: "acc f0 M L f \<Longrightarrow> (\<And>b. Q b) \<Longrightarrow> after (is_name name t) Q"
  by (simp add: after_def)

lemma after_unlink_path:
  assumes "acc f0 {#} {} f" "iref (icache f0 ! cwd) > 0"
  shows "after (unlink_path hr hw cwd path f) (\<lambda>(r, f'). acc f0 {#} {} f')"
  unfolding unlink_path_def unlink_found_def unlink_entry_def
  by (((rule calls, rule assms) | (rule calls, assumption) | rule after_and_then after_if | simp add: assms insert_Diff_if split del: if_split)+)

lemma after_create:
  assumes "acc f0 {#} {} f" "iref (icache f0 ! cwd) > 0" "\<And>f'. acc f0 {#} {} f' \<Longrightarrow> Q (None, f')"
    "\<And>j f'. acc f0 {#j#} {j} f' \<Longrightarrow> Q (Some j, f')"
  shows "after (create hr hw cwd path ty maj mnr f) Q"
  unfolding create_def create_new_def make_dots_def
  by (((rule calls, rule assms) | (rule calls, assumption) | rule after_and_then after_if | simp add: assms insert_Diff_if split del: if_split)+)

lemma after_make_node:
  assumes "acc f0 {#} {} f" "iref (icache f0 ! cwd) > 0"
  shows "after (make_node hr hw cwd ty arg f) (\<lambda>(r, f'). acc f0 {#} {} f')"
proof (cases arg)
  case None
  show ?thesis unfolding make_node_def None
    by (((rule calls, rule assms) | (rule calls, assumption) | rule after_and_then | simp)+)
next
  case (Some a)
  then obtain path maj mnr where arg: "arg = Some (path, maj, mnr)" by (cases a) auto
  show ?thesis unfolding make_node_def arg
    by (((rule calls, rule assms) | (rule calls, assumption) | (rule after_create, assumption, rule assms) | rule after_and_then | simp)+)
qed

lemma after_open_inode:
  assumes "acc f0 {#} {} f" "iref (icache f0 ! cwd) > 0"
  shows "after (open_inode hr hw cwd path omode f) (\<lambda>(r, f'). case r of None \<Rightarrow> acc f0 {#} {} f' | Some ip \<Rightarrow> acc f0 {#ip#} {ip} f')"
  unfolding open_inode_def
  by (((rule calls, rule assms) | (rule calls, assumption) | (rule after_create, assumption, rule assms) | rule after_and_then after_if
    | simp add: assms split del: if_split)+)

lemma after_chdir_path:
  assumes "acc f0 {#} {} f" "iref (icache f0 ! cwd) > 0"
  shows "after (chdir_path hr cwd path f) (\<lambda>(r, f'). case r of None \<Rightarrow> acc f0 {#} {} f' | Some ip \<Rightarrow> acc f0 {#ip#} {} f')"
  unfolding chdir_path_def
  by (((rule calls, rule assms) | (rule calls, assumption) | rule after_and_then after_if | simp add: assms split del: if_split)+)

end
