(* ===== verification/Sysfile_Inv.thy ===== *)
theory Sysfile_Inv
  imports Sysfile_Refs
begin

text \<open>
  The invariant of the kernel's tables: the reference count of an open file is the number of descriptors for it, the one of an
  inode the number of open files and current directories that stand for it, and a pipe is open at an end just
  as long as there is an open file for this end.
\<close>

section \<open>Counting\<close>

definition held :: "nat \<Rightarrow> holder \<Rightarrow> int" where
  "held i h = sum_list (map (\<lambda>v. if v = Some i then 1 else 0) (ofile h))"

definition fd_uses :: "kernel \<Rightarrow> nat \<Rightarrow> int" where
  "fd_uses s i = sum_list (map (held i) (holders s))"

definition is_inode :: "nat \<Rightarrow> open_file \<Rightarrow> int" where
  "is_inode j x = (if ftype x = FD_INODE \<and> fip x = j then 1 else 0)"

definition in_dir :: "nat \<Rightarrow> holder \<Rightarrow> int" where
  "in_dir j h = (if pcwd h = Some j then 1 else 0)"

definition inode_uses :: "kernel \<Rightarrow> nat \<Rightarrow> int" where
  "inode_uses s j = sum_list (map (is_inode j) (ftable s)) + sum_list (map (in_dir j) (holders s))"

lemma sum_list_ge: "(\<And>x. x \<in> set xs \<Longrightarrow> 0 \<le> g x) \<Longrightarrow> y \<in> set xs \<Longrightarrow> (g y :: int) \<le> sum_list (map g xs)"
proof (induction xs)
  case (Cons x xs)
  have "0 \<le> sum_list (map g xs)" using Cons.prems(1) by (intro sum_list_nonneg) auto
  then show ?case using Cons by (fastforce intro: add_increasing)
qed simp

lemma no_uses: "y \<notin> set xs \<Longrightarrow> sum_list (map (\<lambda>v. if v = y then 1 else 0) xs) = (0 :: int)"
  by (induction xs) auto

lemma held_nonneg: "0 \<le> held i h"
  unfolding held_def by (rule sum_list_nonneg) auto

lemma held_ge: "Some i \<in> set (ofile h) \<Longrightarrow> 1 \<le> held i h"
  unfolding held_def using sum_list_ge[of "ofile h" "\<lambda>v. if v = Some i then 1 else 0" "Some i"] by simp

lemma held_0: "Some i \<notin> set (ofile h) \<Longrightarrow> held i h = 0"
  unfolding held_def by (rule no_uses)

lemma fd_uses_nonneg: "0 \<le> fd_uses s i"
  unfolding fd_uses_def by (rule sum_list_nonneg) (auto simp: held_nonneg)

lemma fd_uses_ge: "h \<in> set (holders s) \<Longrightarrow> Some i \<in> set (ofile h) \<Longrightarrow> 1 \<le> fd_uses s i"
  unfolding fd_uses_def using sum_list_ge[of "holders s" "held i" h] held_nonneg held_ge[of i h] by fastforce

lemma inode_uses_nonneg: "0 \<le> inode_uses s j"
  unfolding inode_uses_def by (intro add_nonneg_nonneg sum_list_nonneg) (auto simp: is_inode_def in_dir_def)

lemma inode_uses_file: "x \<in> set (ftable s) \<Longrightarrow> ftype x = FD_INODE \<Longrightarrow> 1 \<le> inode_uses s (fip x)"
  using sum_list_ge[of "ftable s" "is_inode (fip x)" x] sum_list_nonneg[of "map (in_dir (fip x)) (holders s)"]
  by (fastforce simp: inode_uses_def is_inode_def in_dir_def)

lemma inode_uses_cwd: "h \<in> set (holders s) \<Longrightarrow> pcwd h = Some j \<Longrightarrow> 1 \<le> inode_uses s j"
  using sum_list_ge[of "holders s" "in_dir j" h] sum_list_nonneg[of "map (is_inode j) (ftable s)"]
  by (fastforce simp: inode_uses_def is_inode_def in_dir_def)

text \<open>How the counts change.\<close>

lemma fd_uses_simps [simp]:
  "fd_uses (set_file i x s) = fd_uses s" "fd_uses (s\<lparr>kfs := f\<rparr>) = fd_uses s" "fd_uses (s\<lparr>kpipes := p\<rparr>) = fd_uses s"
  by (simp_all add: fd_uses_def set_file_def fun_eq_iff)

lemma inode_uses_simps [simp]: "inode_uses (s\<lparr>kfs := f\<rparr>) = inode_uses s" "inode_uses (s\<lparr>kpipes := p\<rparr>) = inode_uses s"
  by (simp_all add: inode_uses_def fun_eq_iff)

lemma inode_uses_set_file:
  "i < length (ftable s) \<Longrightarrow> inode_uses (set_file i x s) j = inode_uses s j - is_inode j (ftable s ! i) + is_inode j x"
  using sum_list_replace[of i "ftable s" "is_inode j" x] by (simp add: inode_uses_def set_file_def)

lemma inode_uses_set_holder:
  "me < length (holders s) \<Longrightarrow> inode_uses (set_holder me h s) j = inode_uses s j - in_dir j (holders s ! me) + in_dir j h"
  using sum_list_replace[of me "holders s" "in_dir j" h] by (simp add: inode_uses_def set_holder_def)

lemma held_set:
  "fd < length (ofile h) \<Longrightarrow> held i (h\<lparr>ofile := (ofile h)[fd := v]\<rparr>) =
     held i h - (if ofile h ! fd = Some i then 1 else 0) + (if v = Some i then 1 else 0)"
  using sum_list_replace[of fd "ofile h" "\<lambda>v. if v = Some i then 1 else 0" v] by (simp add: held_def)

lemma fd_uses_set_holder: "me < length (holders s) \<Longrightarrow> fd_uses (set_holder me h s) i = fd_uses s i - held i (holders s ! me) + held i h"
  using sum_list_replace[of me "holders s" "held i" h] by (simp add: fd_uses_def set_holder_def)

section \<open>The invariant\<close>

text \<open>
  \<open>X\<close> and \<open>Y\<close> are the references to files and inodes that a call holds itself, or owes, while it is on its way, \<open>L\<close> the inodes that it has locked,
  and \<open>T\<close> the files that it has allocated and not filled in yet.
\<close>

definition inodes_ok :: "fs \<Rightarrow> (nat \<Rightarrow> int) \<Rightarrow> nat set \<Rightarrow> bool" where
  "inodes_ok f U L \<longleftrightarrow> icache_ok f \<and> (\<forall>j < length (icache f). iref (icache f ! j) = U j \<and> (ibusy (icache f ! j) \<longleftrightarrow> j \<in> L)) \<and>
     (\<forall>j. U j \<noteq> 0 \<longrightarrow> j < length (icache f))"

definition files_ok :: "(nat \<Rightarrow> int) \<Rightarrow> nat set \<Rightarrow> kernel \<Rightarrow> bool" where
  "files_ok X T s \<longleftrightarrow> length (ftable s) = NFILE \<and> (\<forall>i < NFILE. fref (ftable s ! i) = fd_uses s i + X i) \<and>
     (\<forall>i. i \<ge> NFILE \<longrightarrow> fd_uses s i = 0) \<and>
     (\<forall>i < NFILE. 0 \<le> fref (ftable s ! i) \<and> (if i \<in> T then ftype (ftable s ! i) = FD_NONE \<and> fref (ftable s ! i) = 1
        else fref (ftable s ! i) = 0 \<longleftrightarrow> ftype (ftable s ! i) = FD_NONE))"

text \<open>The open files for one end of a pipe.\<close>

definition ends :: "kernel \<Rightarrow> nat \<Rightarrow> bool \<Rightarrow> nat set" where
  "ends s a w = {i. i < length (ftable s) \<and> ftype (ftable s ! i) = FD_PIPE \<and> fpipe (ftable s ! i) = a \<and> writable (ftable s ! i) = w}"

definition end_open :: "bool \<Rightarrow> pipe \<Rightarrow> bool" where
  "end_open w p = (if w then writeopen p else readopen p)"

definition pipes_ok :: "kernel \<Rightarrow> bool" where
  "pipes_ok s \<longleftrightarrow> (\<forall>a w. (\<forall>i \<in> ends s a w. \<forall>j \<in> ends s a w. i = j) \<and>
     (ends s a w \<noteq> {} \<longleftrightarrow> (\<exists>p. kpipes s a = Some p \<and> end_open w p))) \<and>
     (\<forall>a p. kpipes s a = Some p \<longrightarrow> readopen p \<or> writeopen p)"

text \<open>A process that does not exist has no descriptors; one of \<open>E\<close> is being made.\<close>

definition holders_ok :: "nat set \<Rightarrow> kernel \<Rightarrow> bool" where
  "holders_ok E s \<longleftrightarrow> (\<forall>p < length (holders s). length (ofile (holders s ! p)) = NOFILE \<and>
     (pcwd (holders s ! p) = None \<longrightarrow> p \<notin> E \<longrightarrow> set (ofile (holders s ! p)) \<subseteq> {None}))"

definition counts_ok :: "nat set \<Rightarrow> (nat \<Rightarrow> int) \<Rightarrow> (nat \<Rightarrow> int) \<Rightarrow> nat set \<Rightarrow> nat set \<Rightarrow> kernel \<Rightarrow> bool" where
  "counts_ok E X Y L T s \<longleftrightarrow> inodes_ok (kfs s) (\<lambda>j. inode_uses s j + Y j) L \<and> files_ok X T s \<and> holders_ok E s"

definition in_order :: "nat set \<Rightarrow> (nat \<Rightarrow> int) \<Rightarrow> (nat \<Rightarrow> int) \<Rightarrow> nat set \<Rightarrow> nat set \<Rightarrow> kernel \<Rightarrow> bool" where
  "in_order E X Y L T s \<longleftrightarrow> counts_ok E X Y L T s \<and> pipes_ok s"

text \<open>Between the calls nothing is on its way.\<close>

definition kernel_ok :: "kernel \<Rightarrow> bool" where
  "kernel_ok s \<longleftrightarrow> in_order {} (\<lambda>_. 0) (\<lambda>_. 0) {} {} s"

section \<open>Inodes\<close>

lemma inodes_acc:
  assumes b: "inodes_ok f U {}" and a: "acc f M L f'"
  shows "inodes_ok f' (\<lambda>j. U j + int (count M j)) L"
proof -
  have "j < length (icache f)" if "U j + int (count M j) \<noteq> 0" for j
    using that b accD(9)[OF a, of j] by (cases "j \<in># M") (auto simp: inodes_ok_def not_in_iff)
  then show ?thesis using b accD[OF a] by (auto simp: inodes_ok_def)
qed

lemma inodes_start: "inodes_ok f U {} \<Longrightarrow> acc f {#} {} f"
  by (rule acc_start) (simp add: inodes_ok_def quiet_def)

lemma inodes_slot:
  assumes b: "inodes_ok f U L" and k: "k < length (icache f)" and ok: "icache_ok (set_inode k ip (f\<lparr>fstore := st\<rparr>))"
    and ip: "iref ip = U' k" "ibusy ip \<longleftrightarrow> k \<in> L'" and o: "\<And>j. j \<noteq> k \<Longrightarrow> U' j = U j" "\<And>j. j \<noteq> k \<Longrightarrow> j \<in> L' \<longleftrightarrow> j \<in> L"
  shows "inodes_ok (set_inode k ip (f\<lparr>fstore := st\<rparr>)) U' L'"
proof -
  let ?f = "set_inode k ip (f\<lparr>fstore := st\<rparr>)"
  have "iref (icache ?f ! j) = U' j \<and> (ibusy (icache ?f ! j) \<longleftrightarrow> j \<in> L')" if "j < length (icache f)" for j
    using that b ip o[of j] by (cases "j = k") (auto simp: set_inode_def inodes_ok_def)
  moreover have "j < length (icache f)" if "U' j \<noteq> 0" for j using that k o(1)[of j] b by (cases "j = k") (auto simp: inodes_ok_def)
  ultimately show ?thesis using ok by (simp add: inodes_ok_def)
qed

lemma iunlock_ok:
  assumes b: "inodes_ok f U L" and r: "iunlock k f = Ret f'"
  shows "inodes_ok f' U (L - {k})"
proof -
  have K: "kept f f'" "k < length (icache f)" using iunlock_kept[OF _ r] b by (auto simp: inodes_ok_def)
  have f': "f' = set_inode k ((icache f ! k)\<lparr>ibusy := False\<rparr>) (f\<lparr>fstore := fstore f\<rparr>)" using r by (auto simp: iunlock_def split: if_splits)
  show ?thesis unfolding f' by (rule inodes_slot[OF b K(2)]) (use K f' b in \<open>auto simp: kept_def inodes_ok_def\<close>)
qed

lemma ilock_ok:
  assumes b: "inodes_ok f U L" and r: "ilock k f = Ret f'"
  shows "inodes_ok f' U (insert k L)" "k \<notin> L"
proof -
  have K: "kept f f'" "k < length (icache f)" using ilock_kept[OF _ r] b by (auto simp: inodes_ok_def)
  obtain ip where f': "f' = set_inode k ip (f\<lparr>fstore := fstore f\<rparr>)" and ip: "iref ip = iref (icache f ! k)" "ibusy ip" and nb: "\<not> ibusy (icache f ! k)"
    using r by (auto simp: ilock_def Let_def load_dinode_def split: if_splits Option.bind_splits)
  show "inodes_ok f' U (insert k L)" unfolding f' by (rule inodes_slot[OF b K(2)]) (use K f' b ip in \<open>auto simp: kept_def inodes_ok_def\<close>)
  show "k \<notin> L" using nb b K by (auto simp: inodes_ok_def)
qed

lemma iput_ok:
  assumes b: "inodes_ok f U L" and r: "iput k f = Ret f'" and u: "U k > 0" "k \<notin> L"
  shows "inodes_ok f' (U(k := U k - 1)) L"
proof -
  have k: "k < length (icache f)" using b u by (auto simp: inodes_ok_def)
  have i: "iref (icache f ! k) = U k" "\<not> ibusy (icache f ! k)" "icache_ok f" using b k u by (auto simp: inodes_ok_def)
  have d: "dropped f k f'" using iput_dropped[OF i(3) r] i u by simp
  obtain ip st where f': "f' = set_inode k ip (f\<lparr>fstore := st\<rparr>)" "iref ip = iref (icache f ! k) - 1" "ibusy ip = ibusy (icache f ! k)"
    using iput_entry[OF r] i by metis
  show ?thesis unfolding f'(1) by (rule inodes_slot[OF b k]) (use d f' i u in \<open>auto simp: dropped_def\<close>)
qed

lemma idup_ok:
  assumes b: "inodes_ok f U L" and r: "idup k f = Ret f'" and u: "U k > 0"
  shows "inodes_ok f' (U(k := U k + 1)) L"
proof -
  have k: "k < length (icache f)" using b u by (auto simp: inodes_ok_def)
  have i: "iref (icache f ! k) = U k" "icache_ok f" using b k by (auto simp: inodes_ok_def)
  have g: "Icache.got f (key (icache f ! k)) k f'" using idup_got[OF i(2) r] i u by simp
  have f': "f' = set_inode k ((icache f ! k)\<lparr>iref := iref (icache f ! k) + 1\<rparr>) (f\<lparr>fstore := fstore f\<rparr>)" using r by (auto simp: idup_def)
  show ?thesis unfolding f' by (rule inodes_slot[OF b k]) (use g f' i b k in \<open>auto simp: Icache.got_def inodes_ok_def\<close>)
qed

lemma inodes_store: "inodes_ok f U L \<Longrightarrow> inodes_ok (f\<lparr>fstore := st\<rparr>) U L"
  by (simp add: inodes_ok_def)

section \<open>Open files\<close>

lemma files_okD:
  assumes "files_ok X T s"
  shows "length (ftable s) = NFILE" "i < NFILE \<Longrightarrow> fref (ftable s ! i) = fd_uses s i + X i" "i < NFILE \<Longrightarrow> 0 \<le> fref (ftable s ! i)"
    "i < NFILE \<Longrightarrow> i \<in> T \<Longrightarrow> ftype (ftable s ! i) = FD_NONE \<and> fref (ftable s ! i) = 1"
    "i < NFILE \<Longrightarrow> i \<notin> T \<Longrightarrow> fref (ftable s ! i) = 0 \<longleftrightarrow> ftype (ftable s ! i) = FD_NONE" "i \<ge> NFILE \<Longrightarrow> fd_uses s i = 0"
proof -
  have a: "\<forall>i < NFILE. 0 \<le> fref (ftable s ! i) \<and> (if i \<in> T then ftype (ftable s ! i) = FD_NONE \<and> fref (ftable s ! i) = 1
        else fref (ftable s ! i) = 0 \<longleftrightarrow> ftype (ftable s ! i) = FD_NONE)" using assms unfolding files_ok_def by blast
  show "i < NFILE \<Longrightarrow> 0 \<le> fref (ftable s ! i)" "i < NFILE \<Longrightarrow> i \<in> T \<Longrightarrow> ftype (ftable s ! i) = FD_NONE \<and> fref (ftable s ! i) = 1"
    "i < NFILE \<Longrightarrow> i \<notin> T \<Longrightarrow> fref (ftable s ! i) = 0 \<longleftrightarrow> ftype (ftable s ! i) = FD_NONE" using a by auto
qed (use assms in \<open>simp_all add: files_ok_def\<close>)

lemma counts_files: "counts_ok E X Y L T s \<Longrightarrow> files_ok X T s"
  by (simp add: counts_ok_def)

lemma set_file_simps [simp]:
  "kfs (set_file i x s) = kfs s" "holders (set_file i x s) = holders s" "kpipes (set_file i x s) = kpipes s" "length (ftable (set_file i x s)) = length (ftable s)"
  "i < length (ftable s) \<Longrightarrow> ftable (set_file i x s) ! j = (if j = i then x else ftable s ! j)"
  by (auto simp: set_file_def nth_list_update)

lemma counts_set_file:
  assumes c: "counts_ok E X Y L T s" and i: "i < NFILE" and d: "fref x = fref (ftable s ! i) + d" "0 \<le> fref x"
    and t: "if i \<in> T' then ftype x = FD_NONE \<and> fref x = 1 else fref x = 0 \<longleftrightarrow> ftype x = FD_NONE"
    and o: "\<And>j. j \<noteq> i \<Longrightarrow> j \<in> T' \<longleftrightarrow> j \<in> T" and y: "\<And>j. Y' j = Y j + is_inode j (ftable s ! i) - is_inode j x"
  shows "counts_ok E (X(i := X i + d)) Y' L T' (set_file i x s)"
proof -
  have n: "length (ftable s) = NFILE" using c by (simp add: counts_ok_def files_ok_def)
  have "inode_uses (set_file i x s) j + Y' j = inode_uses s j + Y j" for j using inode_uses_set_file[of i s x j] i n y[of j] by simp
  then have "inodes_ok (kfs s) (\<lambda>j. inode_uses (set_file i x s) j + Y' j) L" using c by (simp add: counts_ok_def)
  moreover have "files_ok (X(i := X i + d)) T' (set_file i x s)" unfolding files_ok_def
  proof (intro conjI allI impI)
    fix j assume j: "j < NFILE"
    note f = files_okD(2-5)[OF counts_files[OF c] j]
    let ?y = "ftable (set_file i x s) ! j"
    show "fref ?y = fd_uses (set_file i x s) j + (X(i := X i + d)) j" "0 \<le> fref ?y" using f d i n by auto
    show "if j \<in> T' then ftype ?y = FD_NONE \<and> fref ?y = 1 else fref ?y = 0 \<longleftrightarrow> ftype ?y = FD_NONE"
      using f(3,4) t o[of j] i n by (cases "j = i"; cases "j \<in> T") simp_all
  qed (use c n in \<open>simp_all add: counts_ok_def files_ok_def\<close>)
  ultimately show ?thesis using c by (simp add: counts_ok_def holders_ok_def)
qed

lemma counts_kpipes [simp]: "counts_ok E X Y L T (s\<lparr>kpipes := K\<rparr>) \<longleftrightarrow> counts_ok E X Y L T s"
  by (simp add: counts_ok_def files_ok_def holders_ok_def)

definition same_kind :: "open_file \<Rightarrow> open_file \<Rightarrow> bool" where
  "same_kind x y \<longleftrightarrow> ftype y = ftype x \<and> fip y = fip x \<and> fpipe y = fpipe x \<and> writable y = writable x"

definition is_end :: "nat \<Rightarrow> bool \<Rightarrow> open_file \<Rightarrow> bool" where
  "is_end a w x \<longleftrightarrow> ftype x = FD_PIPE \<and> fpipe x = a \<and> writable x = w"

lemma ends_set_file:
  "i < length (ftable s) \<Longrightarrow> ends (set_file i x s) a w = (if is_end a w x then insert i (ends s a w) else ends s a w - {i})"
  by (auto simp: ends_def is_end_def)

lemma ends_kpipes [simp]: "ends (s\<lparr>kpipes := K\<rparr>) = ends s"
  by (simp add: ends_def fun_eq_iff)

lemma pipes_same:
  assumes "pipes_ok s" "i < length (ftable s)" "\<And>a w. is_end a w x \<longleftrightarrow> is_end a w (ftable s ! i)"
  shows "pipes_ok (set_file i x s)"
proof -
  have "ends (set_file i x s) a w = ends s a w" for a w
    using assms(2,3) by (auto simp: ends_set_file ends_def is_end_def)
  then show ?thesis using assms(1) by (simp add: pipes_ok_def)
qed

lemma order_file:
  assumes c: "in_order E X Y L T s" and i: "i < NFILE" and k: "same_kind (ftable s ! i) x" and d: "fref x = fref (ftable s ! i) + d" "0 \<le> fref x"
    and t: "if i \<in> T' then ftype x = FD_NONE \<and> fref x = 1 else fref x = 0 \<longleftrightarrow> ftype x = FD_NONE"
    and o: "\<And>j. j \<noteq> i \<Longrightarrow> j \<in> T' \<longleftrightarrow> j \<in> T"
  shows "in_order E (X(i := X i + d)) Y L T' (set_file i x s)"
proof -
  have n: "length (ftable s) = NFILE" using c by (simp add: in_order_def counts_ok_def files_ok_def)
  have "counts_ok E (X(i := X i + d)) Y L T' (set_file i x s)"
    by (rule counts_set_file[OF _ i d t o]) (use c k in \<open>auto simp: in_order_def is_inode_def same_kind_def\<close>)
  moreover have "pipes_ok (set_file i x s)" by (rule pipes_same) (use c k i n in \<open>auto simp: in_order_def is_end_def same_kind_def\<close>)
  ultimately show ?thesis by (simp add: in_order_def)
qed

lemma order_fileD:
  assumes "in_order E X Y L T s"
  shows "length (ftable s) = NFILE" "i < NFILE \<Longrightarrow> fref (ftable s ! i) = fd_uses s i + X i" "i < NFILE \<Longrightarrow> 0 \<le> fref (ftable s ! i)"
    "i < NFILE \<Longrightarrow> i \<in> T \<Longrightarrow> ftype (ftable s ! i) = FD_NONE \<and> fref (ftable s ! i) = 1"
    "i < NFILE \<Longrightarrow> i \<notin> T \<Longrightarrow> fref (ftable s ! i) = 0 \<longleftrightarrow> ftype (ftable s ! i) = FD_NONE" "i \<ge> NFILE \<Longrightarrow> fd_uses s i = 0"
  using files_okD[OF counts_files, of E X Y L T s] assms unfolding in_order_def by blast+

lemma get_file_Ret [simp]: "get_file i s = Ret x \<longleftrightarrow> i < length (ftable s) \<and> x = ftable s ! i"
  by (auto simp: get_file_def rd_eq_Some_iff)

lemma free_file_Some: "free_file xs k = Some i \<Longrightarrow> k \<le> i \<and> i < k + length xs \<and> fref (xs ! (i - k)) = 0"
  by (induction xs arbitrary: k) (fastforce simp: nth_Cons' split: if_splits)+

lemma filealloc_ok:
  assumes c: "in_order E X Y L T s" and r: "filealloc s = (Some i, s')"
  shows "in_order E (X(i := X i + 1)) Y L (insert i T) s'" "i < NFILE" "i \<notin> T" "fd_uses s' i + X i = 0"
proof -
  have f: "free_file (ftable s) 0 = Some i" and s': "s' = set_file i ((ftable s ! i)\<lparr>fref := 1\<rparr>) s"
    using r by (auto simp: filealloc_def split: option.splits)
  show i: "i < NFILE" using free_file_Some[OF f] order_fileD(1)[OF c] by simp
  have z: "fref (ftable s ! i) = 0" using free_file_Some[OF f] by simp
  show t: "i \<notin> T" using order_fileD(4)[OF c i] z by auto
  show "in_order E (X(i := X i + 1)) Y L (insert i T) s'" unfolding s'
    by (rule order_file[OF c i]) (use z t order_fileD(5)[OF c i] in \<open>auto simp: same_kind_def\<close>)
  show "fd_uses s' i + X i = 0" using z order_fileD(2)[OF c i] by (simp add: s')
qed

lemma filedup_ok:
  assumes c: "in_order E X Y L T s" and r: "filedup i s = Ret s'" and t: "i \<notin> T"
  shows "in_order E (X(i := X i + 1)) Y L T s'"
proof -
  have i: "i < NFILE" "\<not> fref (ftable s ! i) < 1" and s': "s' = set_file i ((ftable s ! i)\<lparr>fref := fref (ftable s ! i) + 1\<rparr>) s"
    using r order_fileD(1)[OF c] by (auto simp: filedup_def split: if_splits)
  show ?thesis unfolding s' by (rule order_file[OF c i(1)]) (use i t order_fileD(5)[OF c i(1) t] in \<open>auto simp: same_kind_def\<close>)
qed

lemma files_ok_kfs [simp]: "files_ok X T (s\<lparr>kfs := f\<rparr>) \<longleftrightarrow> files_ok X T s" "holders_ok E (s\<lparr>kfs := f\<rparr>) \<longleftrightarrow> holders_ok E s"
  "pipes_ok (s\<lparr>kfs := f\<rparr>) \<longleftrightarrow> pipes_ok s"
  by (simp_all add: files_ok_def holders_ok_def pipes_ok_def ends_def)

lemma order_fs:
  assumes "in_order E X Y L T s" "inodes_ok f (\<lambda>j. inode_uses s j + Y' j) L'"
  shows "in_order E X Y' L' T (s\<lparr>kfs := f\<rparr>)"
  using assms by (simp add: in_order_def counts_ok_def)

lemma order_inodes: "in_order E X Y L T s \<Longrightarrow> inodes_ok (kfs s) (\<lambda>j. inode_uses s j + Y j) L"
  by (simp add: in_order_def counts_ok_def)

lemma order_cong: "in_order E X Y L T s \<Longrightarrow> X = X' \<Longrightarrow> Y = Y' \<Longrightarrow> L = L' \<Longrightarrow> T = T' \<Longrightarrow> in_order E X' Y' L' T' s"
  by simp

lemma trans_ok:
  assumes c: "in_order E X Y L T s"
  shows "run_fs begin_op s = Ret s' \<Longrightarrow> in_order E X Y L T s'" "run_fs end_op s = Ret s' \<Longrightarrow> in_order E X Y L T s'"
  using order_fs[OF c inodes_store[OF order_inodes[OF c]]]
  by (auto simp: run_fs_def begin_op_def end_op_def split: option.splits)

lemma put_ok:
  assumes c: "in_order E X Y L T s" and r: "run_fs (iput k) s = Ret s'" and u: "inode_uses s k + Y k > 0" "k \<notin> L"
  shows "in_order E X (Y(k := Y k - 1)) L T s'"
proof -
  obtain f where f: "iput k (kfs s) = Ret f" "s' = s\<lparr>kfs := f\<rparr>" using r by (auto simp: run_fs_def)
  have "(\<lambda>j. inode_uses s j + (Y(k := Y k - 1)) j) = (\<lambda>j. inode_uses s j + Y j)(k := inode_uses s k + Y k - 1)" by (simp add: fun_eq_iff)
  then have "inodes_ok f (\<lambda>j. inode_uses s j + (Y(k := Y k - 1)) j) L" using iput_ok[OF order_inodes[OF c] f(1)] u by metis
  then show ?thesis unfolding f(2) by (rule order_fs[OF c])
qed

lemma unlock_ok:
  assumes c: "in_order E X Y L T s" and r: "run_fs (iunlock k) s = Ret s'"
  shows "in_order E X Y (L - {k}) T s'"
proof -
  obtain f where f: "iunlock k (kfs s) = Ret f" "s' = s\<lparr>kfs := f\<rparr>" using r by (auto simp: run_fs_def)
  show ?thesis unfolding f(2) by (rule order_fs[OF c iunlock_ok[OF order_inodes[OF c] f(1)]])
qed

lemma lock_ok:
  assumes c: "in_order E X Y L T s" and r: "run_fs (ilock k) s = Ret s'"
  shows "in_order E X Y (insert k L) T s'"
proof -
  obtain f where f: "ilock k (kfs s) = Ret f" "s' = s\<lparr>kfs := f\<rparr>" using r by (auto simp: run_fs_def)
  show ?thesis unfolding f(2) by (rule order_fs[OF c ilock_ok(1)[OF order_inodes[OF c] f(1)]])
qed

lemma unlockput_ok:
  assumes c: "in_order E X Y L T s" and r: "run_fs (iunlockput k) s = Ret s'" and u: "inode_uses s k + Y k > 0"
  shows "in_order E X (Y(k := Y k - 1)) (L - {k}) T s'"
proof -
  obtain g f where f: "iunlock k (kfs s) = Ret g" "iput k g = Ret f" "s' = s\<lparr>kfs := f\<rparr>" using r by (auto simp: run_fs_def iunlockput_def)
  have "in_order E X Y (L - {k}) T (s\<lparr>kfs := g\<rparr>)" by (rule unlock_ok[OF c]) (simp add: run_fs_def f(1))
  from put_ok[OF this, of k s'] u f show ?thesis by (simp add: run_fs_def)
qed

text \<open>Closing the last descriptor of an end of a pipe.\<close>

lemma pipes_okI:
  assumes "\<And>a w i j. i \<in> ends s a w \<Longrightarrow> j \<in> ends s a w \<Longrightarrow> i = j"
    and "\<And>a w. ends s a w \<noteq> {} \<longleftrightarrow> (\<exists>p. kpipes s a = Some p \<and> end_open w p)"
    and "\<And>a p. kpipes s a = Some p \<Longrightarrow> readopen p \<or> writeopen p"
  shows "pipes_ok s"
  unfolding pipes_ok_def using assms by blast

lemma close_pipe_ok:
  assumes p: "pipes_ok s" and i: "i < length (ftable s)" "ftype (ftable s ! i) = FD_PIPE" and x: "ftype x = FD_NONE"
    and r: "close_pipe (fpipe (ftable s ! i)) (writable (ftable s ! i)) (set_file i x s) = Ret s'"
  shows "\<exists>K. s' = (set_file i x s)\<lparr>kpipes := K\<rparr> \<and> pipes_ok s'"
proof -
  let ?a = "fpipe (ftable s ! i)" and ?w = "writable (ftable s ! i)"
  have e: "i \<in> ends s ?a ?w" using i by (simp add: ends_def)
  then obtain q where q: "kpipes s ?a = Some q" "end_open ?w q" using p unfolding pipes_ok_def by blast
  define q' where "q' = (if ?w then q\<lparr>writeopen := False\<rparr> else q\<lparr>readopen := False\<rparr>)"
  define K where "K = (kpipes s)(?a := if readopen q' \<or> writeopen q' then Some q' else None)"
  have s': "s' = (set_file i x s)\<lparr>kpipes := K\<rparr>"
    using r q(1) by (auto simp: close_pipe_def pipeclose_def q'_def K_def Let_def)
  have one: "ends s ?a ?w = {i}" using p e unfolding pipes_ok_def by blast
  have en: "ends s' a w = (if a = ?a \<and> w = ?w then {} else ends s a w)" for a w
  proof -
    have "ends s' a w = ends s a w - {i}" unfolding s' using ends_set_file[OF i(1), of x a w] x by (simp add: is_end_def)
    moreover have "i \<notin> ends s a w" if "\<not> (a = ?a \<and> w = ?w)" using that by (auto simp: ends_def)
    ultimately show ?thesis using one by auto
  qed
  have oq: "end_open w q' \<longleftrightarrow> w \<noteq> ?w \<and> end_open w q" for w by (auto simp: q'_def end_open_def)
  have ko: "(\<exists>p. K a = Some p \<and> end_open w p) \<longleftrightarrow> \<not> (a = ?a \<and> w = ?w) \<and> (\<exists>p. kpipes s a = Some p \<and> end_open w p)" for a w
  proof (cases "a = ?a")
    case True
    have "end_open w q' \<Longrightarrow> readopen q' \<or> writeopen q'" by (auto simp: end_open_def split: if_splits)
    then show ?thesis using True q oq[of w] by (auto simp: K_def)
  qed (simp add: K_def)
  have kp: "readopen p \<or> writeopen p" if "K a = Some p" for a p using p that unfolding pipes_ok_def K_def by (auto split: if_splits)
  have "pipes_ok s'"
  proof (rule pipes_okI)
    show "j = k" if "j \<in> ends s' a w" "k \<in> ends s' a w" for a w j k using p that unfolding en pipes_ok_def by (auto split: if_splits)
    show "ends s' a w \<noteq> {} \<longleftrightarrow> (\<exists>p. kpipes s' a = Some p \<and> end_open w p)" for a w
    proof -
      have "ends s a w \<noteq> {} \<longleftrightarrow> (\<exists>p. kpipes s a = Some p \<and> end_open w p)" using p unfolding pipes_ok_def by blast
      moreover have "kpipes s' = K" by (simp add: s')
      ultimately show ?thesis using ko[of a w] unfolding en by simp
    qed
  qed (use kp in \<open>simp add: s'\<close>)
  then show ?thesis using s' by blast
qed

lemma fileclose_ok:
  assumes c: "in_order E X Y L T s" and r: "fileclose i s = Ret s'" and l: "i \<in> T \<or> L = {}"
    and y: "\<And>j. 0 \<le> Y j"
  shows "in_order E (X(i := X i - 1)) Y L (T - {i}) s'"
proof -
  let ?x = "ftable s ! i" and ?x' = "(ftable s ! i)\<lparr>fref := 0, ftype := FD_NONE\<rparr>"
  note n = order_fileD(1)[OF c]
  have i: "i < NFILE" "1 \<le> fref ?x" using r n by (auto simp: fileclose_def split: if_splits)
  note D = order_fileD(3-5)[OF c i(1)]
  have X: "X i + - 1 = X i - 1" by simp
  show ?thesis
  proof (cases "fref ?x = 1")
    case False
    then have "s' = set_file i (?x\<lparr>fref := fref ?x - 1\<rparr>) s" "i \<notin> T" using r i n D by (auto simp: fileclose_def)
    then show ?thesis using order_file[OF c i(1), of "?x\<lparr>fref := fref ?x - 1\<rparr>" "- 1" "T - {i}"] False i D by (auto simp: same_kind_def)
  next
    case True
    have cl: "counts_ok E (X(i := X i - 1)) Y' L (T - {i}) (set_file i ?x' s)" if "\<And>j. Y' j = Y j + is_inode j ?x" for Y'
      using counts_set_file[of E X Y L T s i ?x' "- 1" "T - {i}" Y'] c i True that by (auto simp: in_order_def is_inode_def)
    show ?thesis
    proof (cases "ftype ?x")
      case FD_NONE
      then have "s' = set_file i ?x' s" using r i n True by (simp add: fileclose_def Let_def)
      then show ?thesis using cl[of Y] pipes_same[of s i ?x'] c i n FD_NONE by (auto simp: in_order_def is_inode_def is_end_def)
    next
      case FD_PIPE
      then have "close_pipe (fpipe ?x) (writable ?x) (set_file i ?x' s) = Ret s'" using r i n True by (simp add: fileclose_def Let_def)
      from close_pipe_ok[OF _ _ FD_PIPE _ this] obtain K where "s' = (set_file i ?x' s)\<lparr>kpipes := K\<rparr>" "pipes_ok s'"
        using c i n by (auto simp: in_order_def)
      then show ?thesis using cl[of Y] FD_PIPE by (simp add: in_order_def is_inode_def)
    next
      case FD_INODE
      then have t: "i \<notin> T" "L = {}" using D l by auto
      let ?k = "fip ?x" and ?Y = "Y(fip ?x := Y (fip ?x) + 1)"
      obtain s1 s2 where s: "run_fs begin_op (set_file i ?x' s) = Ret s1" "run_fs (iput ?k) s1 = Ret s2" "run_fs end_op s2 = Ret s'"
        using r i n True FD_INODE by (auto simp: fileclose_def Let_def)
      have "in_order E (X(i := X i - 1)) ?Y L (T - {i}) (set_file i ?x' s)"
        using cl[of ?Y] pipes_same[of s i ?x'] c i n FD_INODE by (auto simp: in_order_def is_inode_def is_end_def)
      from trans_ok(1)[OF this s(1)] have "in_order E (X(i := X i - 1)) ?Y L (T - {i}) s1" .
      from put_ok[OF this s(2)] have "in_order E (X(i := X i - 1)) Y L (T - {i}) s2"
        using t y[of ?k] inode_uses_nonneg[of s1 ?k] by simp
      from trans_ok(2)[OF this s(3)] show ?thesis .
    qed
  qed
qed

section \<open>Descriptors\<close>

lemma set_holder_simps [simp]:
  "kfs (set_holder me h s) = kfs s" "ftable (set_holder me h s) = ftable s" "kpipes (set_holder me h s) = kpipes s"
  "length (holders (set_holder me h s)) = length (holders s)" "ends (set_holder me h s) = ends s"
  "me < length (holders s) \<Longrightarrow> holders (set_holder me h s) ! p = (if p = me then h else holders s ! p)"
  by (auto simp: set_holder_def nth_list_update ends_def fun_eq_iff)

lemma get_holder_Ret [simp]: "get_holder me s = Ret h \<longleftrightarrow> me < length (holders s) \<and> h = holders s ! me"
  by (auto simp: get_holder_def rd_eq_Some_iff)

definition fd_at :: "nat option \<Rightarrow> nat \<Rightarrow> int" where
  "fd_at v i = (if v = Some i then 1 else 0)"

lemma set_fd_ok:
  assumes c: "in_order E X Y L T s" and r: "set_fd me fd v s = Ret s'" and fd: "fd < NOFILE"
    and v: "\<And>i. v = Some i \<Longrightarrow> i < NFILE \<and> (me \<in> E \<or> pcwd (holders s ! me) \<noteq> None)"
  shows "in_order E (\<lambda>i. X i + fd_at (ofile (holders s ! me) ! fd) i - fd_at v i) Y L T s'"
proof -
  let ?h = "holders s ! me"
  have me: "me < length (holders s)" and s': "s' = set_holder me (?h\<lparr>ofile := (ofile ?h)[fd := v]\<rparr>) s"
    using r by (auto simp: set_fd_def)
  have len: "length (ofile ?h) = NOFILE" using c me by (simp add: in_order_def counts_ok_def holders_ok_def)
  have u: "fd_uses s' i = fd_uses s i - fd_at (ofile ?h ! fd) i + fd_at v i" for i
    using fd_uses_set_holder[OF me] held_set[of fd ?h i v] fd len by (simp add: s' fd_at_def)
  have iu: "inode_uses s' = inode_uses s" using inode_uses_set_holder[OF me] by (simp add: s' fun_eq_iff in_dir_def)
  note D = order_fileD[OF c]
  have "fd_uses s' i = 0" if "i \<ge> NFILE" for i
  proof -
    have "0 \<le> fd_uses s' i" by (rule fd_uses_nonneg)
    moreover have "fd_at v i = 0" using v that by (force simp: fd_at_def)
    ultimately show ?thesis using u[of i] D(6)[OF that] by (simp add: fd_at_def split: if_splits)
  qed
  then have "files_ok (\<lambda>i. X i + fd_at (ofile ?h ! fd) i - fd_at v i) T s'"
    using D(1) D(3-5) unfolding files_ok_def by (simp add: s'[symmetric] u) (simp add: s' D(2))
  moreover have "holders_ok E s'" unfolding holders_ok_def
  proof (intro allI impI conjI)
    fix p assume p: "p < length (holders s')"
    have h: "length (ofile (holders s ! p)) = NOFILE" "pcwd (holders s ! p) = None \<Longrightarrow> p \<notin> E \<Longrightarrow> set (ofile (holders s ! p)) \<subseteq> {None}"
      using c p by (simp_all add: s' in_order_def counts_ok_def holders_ok_def)
    show "length (ofile (holders s' ! p)) = NOFILE" using h me by (cases "p = me") (simp_all add: s')
    assume "pcwd (holders s' ! p) = None" "p \<notin> E"
    then show "set (ofile (holders s' ! p)) \<subseteq> {None}" using h me v set_update_subset_insert[of "ofile ?h" fd v]
      by (cases v) (auto simp: s' split: if_splits)
  qed
  moreover have "pipes_ok s'" using c by (simp add: s' in_order_def pipes_ok_def)
  ultimately show ?thesis using c iu by (simp add: in_order_def counts_ok_def s')
qed

lemma argfd_Some:
  assumes "argfd me fd s = Ret (Some (n, i))" "in_order E X Y L T s"
  shows "me < length (holders s)" "n < NOFILE" "ofile (holders s ! me) ! n = Some i" "Some i \<in> set (ofile (holders s ! me))"
proof -
  show n: "me < length (holders s)" "n < NOFILE" using assms(1) by (auto simp: argfd_def split: option.splits if_splits)
  then have l: "length (ofile (holders s ! me)) = NOFILE" using assms(2) by (simp add: in_order_def counts_ok_def holders_ok_def)
  show o: "ofile (holders s ! me) ! n = Some i" using assms(1) l by (auto simp: argfd_def rd_eq_Some_iff split: option.splits if_splits)
  show "Some i \<in> set (ofile (holders s ! me))" using o n l by (metis nth_mem)
qed

lemma free_fd_Some: "free_fd vs k = Some fd \<Longrightarrow> k \<le> fd \<and> fd < k + length vs \<and> vs ! (fd - k) = None"
  by (induction vs arbitrary: k) (fastforce simp: nth_Cons' split: if_splits)+

lemma fdalloc_ok:
  assumes c: "in_order E X Y L T s" and r: "fdalloc me i s = Ret (Some fd, s')" and i: "i < NFILE" "pcwd (holders s ! me) \<noteq> None"
  shows "in_order E (X(i := X i - 1)) Y L T s'" "fd < NOFILE" "ftable s' = ftable s" "ofile (holders s' ! me) ! fd = Some i"
    "pcwd (holders s' ! me) = pcwd (holders s ! me)"
proof -
  let ?h = "holders s ! me"
  have me: "me < length (holders s)" and f: "free_fd (ofile ?h) 0 = Some fd" and s: "set_fd me fd (Some i) s = Ret s'"
    using r by (auto simp: fdalloc_def split: option.splits)
  have len: "length (ofile ?h) = NOFILE" using c me by (simp add: in_order_def counts_ok_def holders_ok_def)
  show fd: "fd < NOFILE" using free_fd_Some[OF f] len by simp
  have "(\<lambda>j. X j + fd_at (ofile ?h ! fd) j - fd_at (Some i) j) = X(i := X i - 1)" using free_fd_Some[OF f] by (auto simp: fd_at_def)
  then show "in_order E (X(i := X i - 1)) Y L T s'" using set_fd_ok[OF c s fd] i by simp
  show "ftable s' = ftable s" "ofile (holders s' ! me) ! fd = Some i" "pcwd (holders s' ! me) = pcwd ?h"
    using s me fd len by (auto simp: set_fd_def)
qed

lemma fdalloc_None: "fdalloc me i s = Ret (None, s') \<Longrightarrow> s' = s"
  by (auto simp: fdalloc_def split: option.splits)

section \<open>The calls\<close>

definition alive :: "nat \<Rightarrow> kernel \<Rightarrow> bool" where
  "alive me s \<longleftrightarrow> me < length (holders s) \<and> pcwd (holders s ! me) \<noteq> None"

lemma kernel_fd:
  assumes "kernel_ok s" "me < length (holders s)" "Some i \<in> set (ofile (holders s ! me))"
  shows "i < NFILE" "1 \<le> fref (ftable s ! i)" "ftype (ftable s ! i) \<noteq> FD_NONE"
proof -
  have c: "in_order {} (\<lambda>_. 0) (\<lambda>_. 0) {} {} s" using assms(1) by (simp add: kernel_ok_def)
  have u: "1 \<le> fd_uses s i" using fd_uses_ge[of "holders s ! me" s i] assms by simp
  show i: "i < NFILE" using order_fileD(6)[OF c, of i] u by linarith
  show "1 \<le> fref (ftable s ! i)" using order_fileD(2)[OF c i] u by simp
  then show "ftype (ftable s ! i) \<noteq> FD_NONE" using order_fileD(5)[OF c i] by auto
qed

lemma kernel_okD: "kernel_ok s \<Longrightarrow> in_order {} (\<lambda>_. 0) (\<lambda>_. 0) {} {} s"
  by (simp add: kernel_ok_def)

lemma kernel_okI: "in_order {} X Y L T s \<Longrightarrow> X = (\<lambda>_. 0) \<Longrightarrow> Y = (\<lambda>_. 0) \<Longrightarrow> L = {} \<Longrightarrow> T = {} \<Longrightarrow> kernel_ok s"
  by (simp add: kernel_ok_def)

lemma sys_dup_ok:
  assumes k: "kernel_ok s" and me: "alive me s" and r: "sys_dup me fd s = Ret (v, s')"
  shows "kernel_ok s'"
proof (cases "\<exists>n i fd' s1. argfd me fd s = Ret (Some (n, i)) \<and> fdalloc me i s = Ret (Some fd', s1) \<and> filedup i s1 = Ret s'")
  case True
  then obtain n i fd' s1 where a: "argfd me fd s = Ret (Some (n, i))" and f: "fdalloc me i s = Ret (Some fd', s1)" and d: "filedup i s1 = Ret s'" by blast
  note A = argfd_Some[OF a kernel_okD[OF k]]
  have c: "in_order {} ((\<lambda>_. 0)(i := 0 - 1)) (\<lambda>_. 0) {} {} s1"
    using fdalloc_ok(1)[OF kernel_okD[OF k] f] kernel_fd(1)[OF k A(1,4)] me by (simp add: alive_def)
  show ?thesis by (rule kernel_okI[OF filedup_ok[OF c d]]) (auto simp: fun_eq_iff)
next
  case False
  then have "s' = s" using r fdalloc_None[of me _ s] by (auto simp: sys_dup_def split: option.splits)
  then show ?thesis using k by simp
qed

lemma sys_close_ok:
  assumes k: "kernel_ok s" and r: "sys_close me fd s = Ret (v, s')"
  shows "kernel_ok s'"
proof (cases "\<exists>n i. argfd me fd s = Ret (Some (n, i))")
  case True
  then obtain n i where a: "argfd me fd s = Ret (Some (n, i))" by blast
  note A = argfd_Some[OF a kernel_okD[OF k]]
  obtain s1 where s: "set_fd me n None s = Ret s1" "fileclose i s1 = Ret s'" using r a by (auto simp: sys_close_def)
  have c: "in_order {} (\<lambda>j. 0 + fd_at (Some i) j - fd_at None j) (\<lambda>_. 0) {} {} s1"
    using set_fd_ok[OF kernel_okD[OF k] s(1) A(2)] A(3) by simp
  show ?thesis by (rule kernel_okI[OF fileclose_ok[OF c s(2)]]) (auto simp: fun_eq_iff fd_at_def)
next
  case False
  then have "s' = s" using r by (auto simp: sys_close_def split: option.splits)
  then show ?thesis using k by simp
qed

text \<open>The calls on paths, which give back what they take.\<close>

lemma kernel_cwd:
  assumes "kernel_ok s" "cwd_of me s = Ret cwd"
  shows "iref (icache (kfs s) ! cwd) > 0" "acc (kfs s) {#} {} (kfs s)" "pcwd (holders s ! me) = Some cwd" "alive me s"
proof -
  note c = kernel_okD[OF assms(1)]
  show w: "pcwd (holders s ! me) = Some cwd" and a: "alive me s" using assms(2) by (auto simp: cwd_of_def alive_def)
  have u: "1 \<le> inode_uses s cwd" using inode_uses_cwd[of "holders s ! me" s cwd] w a by (simp add: alive_def)
  then show "iref (icache (kfs s) ! cwd) > 0" using order_inodes[OF c] by (auto simp: inodes_ok_def)
  show "acc (kfs s) {#} {} (kfs s)" using inodes_start[OF order_inodes[OF c]] .
qed

lemma order_acc:
  assumes c: "in_order E X Y {} T s" and a: "acc (kfs s) M L f"
  shows "in_order E X (\<lambda>j. Y j + int (count M j)) L T (s\<lparr>kfs := f\<rparr>)"
  by (rule order_fs[OF c]) (use inodes_acc[OF order_inodes[OF c] a] in \<open>simp add: add.assoc\<close>)

lemma on_fs_ok:
  assumes k: "kernel_ok s" and w: "cwd_of me s = Ret cwd" and r: "on_fs g s = Ret (v, s')"
    and a: "\<And>f0. acc f0 {#} {} (kfs s) \<Longrightarrow> iref (icache f0 ! cwd) > 0 \<Longrightarrow> after (g (kfs s)) (\<lambda>(r, f). acc f0 {#} {} f)"
  shows "kernel_ok s'"
proof -
  obtain f where f: "g (kfs s) = Ret (v, f)" "s' = s\<lparr>kfs := f\<rparr>" using r by (auto simp: on_fs_def)
  have "acc (kfs s) {#} {} f" using afterD[OF a[OF kernel_cwd(2,1)[OF k w]] f(1)] by simp
  from order_acc[OF kernel_okD[OF k] this] f(2) show ?thesis by (simp add: kernel_ok_def)
qed

lemma path_calls_ok:
  assumes k: "kernel_ok s"
  shows "sys_link hr hw me old new s = Ret (v, s') \<Longrightarrow> kernel_ok s'" "sys_unlink hr hw me path s = Ret (v, s') \<Longrightarrow> kernel_ok s'"
    "sys_mkdir hr hw me path s = Ret (v, s') \<Longrightarrow> kernel_ok s'" "sys_mknod hr hw me path maj mnr s = Ret (v, s') \<Longrightarrow> kernel_ok s'"
  using k by (auto simp: sys_link_def sys_unlink_def sys_mkdir_def sys_mknod_def split: option.splits
    elim!: on_fs_ok[OF k] intro!: after_link_paths after_unlink_path after_make_node)

text \<open>Opening: the reference to the inode goes to the open file.\<close>

lemma open_fd_ok:
  assumes c: "in_order {} (\<lambda>_. 0) ((\<lambda>_. 0)(ip := 1)) {ip} {} s" and me: "alive me s" and r: "open_fd me omode ip s = Ret (v, s')"
  shows "kernel_ok s'"
proof (cases "filealloc s")
  case (Pair fi s1)
  show ?thesis
  proof (cases fi)
    case None
    then have "s1 = s" using Pair by (auto simp: filealloc_def split: option.splits)
    then have u: "run_fs (iunlockput ip) s = Ret s'" using r Pair None by (auto simp: open_fd_def)
    show ?thesis by (rule kernel_okI[OF unlockput_ok[OF c u]]) (use inode_uses_nonneg[of s ip] in \<open>auto simp: fun_eq_iff\<close>)
  next
    case (Some i)
    note F = filealloc_ok[OF c Pair[unfolded Some]]
    have al: "pcwd (holders s1 ! me) \<noteq> None" using me Pair Some by (auto simp: alive_def filealloc_def split: option.splits)
    obtain fo s2 where fd: "fdalloc me i s1 = Ret (fo, s2)" using r Pair Some by (auto simp: open_fd_def)
    show ?thesis
    proof (cases fo)
      case None
      then have "s2 = s1" using fdalloc_None fd by blast
      then obtain s3 where s3: "fileclose i s1 = Ret s3" "run_fs (iunlockput ip) s3 = Ret s'" using r Pair Some fd None by (auto simp: open_fd_def)
      have c3: "in_order {} (\<lambda>_. 0) ((\<lambda>_. 0)(ip := 1)) {ip} {} s3"
        using order_cong[OF fileclose_ok[OF F(1) s3(1)]] F(3) by (simp add: fun_eq_iff)
      show ?thesis by (rule kernel_okI[OF unlockput_ok[OF c3 s3(2)]]) (use inode_uses_nonneg[of s3 ip] in \<open>auto simp: fun_eq_iff\<close>)
    next
      case (Some n)
      note G = fdalloc_ok(1)[OF F(1) fd[unfolded Some] F(2) al]
      obtain s3 where s3: "run_fs (iunlock ip) s2 = Ret s3" and s': "s' = set_file i (inode_file omode ip (ftable s3 ! i)) s3" and i3: "i < length (ftable s3)"
        using r Pair \<open>fi = Some i\<close> fd Some by (auto simp: open_fd_def)
      have c3: "in_order {} (\<lambda>_. 0) ((\<lambda>_. 0)(ip := 1)) {} {i} s3" using order_cong[OF unlock_ok[OF G s3]] by (auto simp: fun_eq_iff)
      have t: "ftype (ftable s3 ! i) = FD_NONE" "fref (ftable s3 ! i) = 1" using order_fileD(4)[OF c3 F(2)] by auto
      have "counts_ok {} ((\<lambda>_. 0)(i := 0 + 0)) (\<lambda>_. 0) {} {} s'" unfolding s'
        by (rule counts_set_file[OF conjunct1[OF c3[unfolded in_order_def]] F(2)]) (use t in \<open>auto simp: inode_file_def is_inode_def\<close>)
      moreover have "pipes_ok s'" unfolding s' using pipes_same[OF _ i3] c3 t by (auto simp: in_order_def is_end_def inode_file_def)
      ultimately show ?thesis by (intro kernel_okI) (auto simp: in_order_def fun_eq_iff)
    qed
  qed
qed

lemma cwd_alive: "kernel_ok s \<Longrightarrow> cwd_of me s = Ret cwd \<Longrightarrow> alive me (s\<lparr>kfs := f\<rparr>)"
  using kernel_cwd(4) by (fastforce simp: alive_def)

lemma sys_open_ok:
  assumes k: "kernel_ok s" and r: "sys_open hr hw me path omode s = Ret (v, s')"
  shows "kernel_ok s'"
proof (cases "\<exists>p m. path = Some p \<and> omode = Some m")
  case True
  then obtain p m cwd ri s1 where w: "cwd_of me s = Ret cwd" and o: "on_fs (open_inode hr hw cwd p m) s = Ret (ri, s1)"
    and rest: "(case ri of None \<Rightarrow> Ret (- 1, s1) | Some ip \<Rightarrow> open_fd me m ip s1) = Ret (v, s')"
    using r by (auto simp: sys_open_def)
  obtain f where f: "open_inode hr hw cwd p m (kfs s) = Ret (ri, f)" "s1 = s\<lparr>kfs := f\<rparr>" using o by (auto simp: on_fs_def)
  have a: "case ri of None \<Rightarrow> acc (kfs s) {#} {} f | Some ip \<Rightarrow> acc (kfs s) {#ip#} {ip} f"
    using afterD[OF after_open_inode[OF kernel_cwd(2,1)[OF k w]] f(1)] by simp
  show ?thesis
  proof (cases ri)
    case None
    then show ?thesis using order_acc[OF kernel_okD[OF k], of "{#}" "{}" f] a rest f(2) by (simp add: kernel_ok_def)
  next
    case (Some ip)
    have "in_order {} (\<lambda>_. 0) ((\<lambda>_. 0)(ip := 1)) {ip} {} s1"
      using order_acc[OF kernel_okD[OF k], of "{#ip#}" "{ip}" f] a Some f(2) by (auto elim!: order_cong simp: fun_eq_iff)
    then show ?thesis using open_fd_ok[of ip s1 me m v s'] cwd_alive[OF k w] rest Some f(2) by simp
  qed
next
  case False
  then have "s' = s" using r by (auto simp: sys_open_def split: option.splits)
  then show ?thesis using k by simp
qed

lemma set_cwd_ok:
  assumes c: "in_order E X Y L T s" and me: "me < length (holders s)" and ch: "\<And>j. Y' j = Y j + in_dir j (holders s ! me) - in_dir j h"
    and h: "ofile h = ofile (holders s ! me)" "pcwd h = None \<Longrightarrow> set (ofile h) \<subseteq> {None}" and e: "E' = E - {me}"
  shows "in_order E' X Y' L T (set_holder me h s)"
proof -
  have u: "fd_uses (set_holder me h s) = fd_uses s" using fd_uses_set_holder[OF me] h(1) by (simp add: fun_eq_iff held_def)
  have "inode_uses (set_holder me h s) j + Y' j = inode_uses s j + Y j" for j using inode_uses_set_holder[OF me] ch by simp
  then have "inodes_ok (kfs s) (\<lambda>j. inode_uses (set_holder me h s) j + Y' j) L" using order_inodes[OF c] by simp
  moreover have "files_ok X T s" "pipes_ok s" "holders_ok E s" using c by (auto simp: in_order_def counts_ok_def)
  then have "files_ok X T (set_holder me h s)" "pipes_ok (set_holder me h s)" "holders_ok E' (set_holder me h s)"
    using h me by (auto simp: files_ok_def u pipes_ok_def holders_ok_def e)
  ultimately show ?thesis by (simp add: in_order_def counts_ok_def)
qed

lemma sys_chdir_ok:
  assumes k: "kernel_ok s" and r: "sys_chdir hr me path s = Ret (v, s')"
  shows "kernel_ok s'"
proof (cases path)
  case None
  then have "s' = s" using r by (auto simp: sys_chdir_def)
  then show ?thesis using k by simp
next
  case (Some p)
  then obtain cwd ri s1 where w: "cwd_of me s = Ret cwd" and o: "on_fs (chdir_path hr cwd p) s = Ret (ri, s1)"
    and rest: "(case ri of None \<Rightarrow> Ret (- 1, s1) | Some ip \<Rightarrow> and_then (run_fs (iput cwd) s1) (\<lambda>s. and_then (get_holder me s)
       (\<lambda>h. Ret (0, set_holder me (h\<lparr>pcwd := Some ip\<rparr>) s)))) = Ret (v, s')"
    using r by (auto simp: sys_chdir_def)
  obtain f where f: "chdir_path hr cwd p (kfs s) = Ret (ri, f)" "s1 = s\<lparr>kfs := f\<rparr>" using o by (auto simp: on_fs_def)
  have a: "case ri of None \<Rightarrow> acc (kfs s) {#} {} f | Some ip \<Rightarrow> acc (kfs s) {#ip#} {} f"
    using afterD[OF after_chdir_path[OF kernel_cwd(2,1)[OF k w]] f(1)] by simp
  show ?thesis
  proof (cases ri)
    case None
    then show ?thesis using order_acc[OF kernel_okD[OF k], of "{#}" "{}" f] a rest f(2) by (simp add: kernel_ok_def)
  next
    case (Some ip)
    obtain s2 where s2: "run_fs (iput cwd) s1 = Ret s2" and me: "me < length (holders s2)"
      and s': "s' = set_holder me ((holders s2 ! me)\<lparr>pcwd := Some ip\<rparr>) s2" using rest Some by auto
    have c1: "in_order {} (\<lambda>_. 0) ((\<lambda>_. 0)(ip := 1)) {} {} s1"
      using order_acc[OF kernel_okD[OF k], of "{#ip#}" "{}" f] a Some f(2) by (auto elim!: order_cong simp: fun_eq_iff)
    have cw: "pcwd (holders s1 ! me) = Some cwd" "me < length (holders s1)" using kernel_cwd(3,4)[OF k w] f(2) by (simp_all add: alive_def)
    have "1 \<le> inode_uses s1 cwd" using inode_uses_cwd[of "holders s1 ! me" s1 cwd] cw by simp
    then have c2: "in_order {} (\<lambda>_. 0) (((\<lambda>_. 0)(ip := 1))(cwd := ((\<lambda>_. 0)(ip := 1)) cwd - 1)) {} {} s2" by (intro put_ok[OF c1 s2]) auto
    have h2: "holders s2 = holders s1" using s2 by (auto simp: run_fs_def)
    have "in_order {} (\<lambda>_. 0) (\<lambda>_. 0) {} {} s'" unfolding s'
      by (rule set_cwd_ok[OF c2 me]) (use cw h2 in \<open>auto simp: in_dir_def\<close>)
    then show ?thesis by (simp add: kernel_ok_def)
  qed
qed

text \<open>Reading and writing.\<close>

lemma inodes_contents:
  assumes b: "inodes_ok f U L" and k: "k < length (icache f)" and d: "same_slot_data (icache f ! k) ip"
  shows "inodes_ok (set_inode k ip (f\<lparr>fstore := st\<rparr>)) U L"
proof (rule inodes_slot[OF b k])
  show "icache_ok (set_inode k ip (f\<lparr>fstore := st\<rparr>))"
    using kept_set[of "f\<lparr>fstore := st\<rparr>" k ip] b k d by (simp add: kept_def inodes_ok_def same_slot_data_def)
qed (use b k d in \<open>auto simp: inodes_ok_def same_slot_data_def\<close>)

lemma contents_ok:
  assumes c: "in_order E X Y L T s"
  shows "on_fs (read_inode hr drv k off n) s = Ret (v, s') \<Longrightarrow> in_order E X Y L T s'"
    "on_fs (write_inode hw drv k src off) s = Ret (w, s') \<Longrightarrow> in_order E X Y L T s'"
  using order_fs[OF c inodes_contents[OF order_inodes[OF c]]] same_addrs[OF readi_same] writei_same
  by (fastforce simp: on_fs_def read_inode_def write_inode_def)+

lemma advance_ok:
  assumes c: "in_order E X Y L T s" and r: "advance i v s = Ret s'"
  shows "in_order E X Y L T s'"
proof (cases "v > 0")
  case True
  let ?x = "(ftable s ! i)\<lparr>foff := foff (ftable s ! i) + word_of_int v\<rparr>"
  have i: "i < NFILE" and s': "s' = set_file i ?x s" using r True order_fileD(1)[OF c] by (auto simp: advance_def)
  have "in_order E (X(i := X i + 0)) Y L T s'" unfolding s'
    by (rule order_file[OF c i]) (use order_fileD(3-5)[OF c i] in \<open>auto simp: same_kind_def\<close>)
  then show ?thesis by simp
next
  case False
  then show ?thesis using c r by (simp add: advance_def)
qed

lemma piperead_copy_flags: "piperead_copy n p = (bs, p') \<Longrightarrow> readopen p' = readopen p \<and> writeopen p' = writeopen p"
  by (induction n arbitrary: p bs) (fastforce simp: pipe_get_def Let_def split: prod.splits if_splits)+

lemma pipewrite_loop_flags: "pipewrite_loop killed n src p = (p', y, b) \<Longrightarrow> readopen p' = readopen p \<and> writeopen p' = writeopen p"
  by (induction killed n src p rule: pipewrite_loop.induct) (auto simp: pipe_put_def split: if_splits)

lemma pipe_flags:
  "piperead killed n p = (p', x, b) \<Longrightarrow> readopen p' = readopen p \<and> writeopen p' = writeopen p"
  "pipewrite killed src p = (p', y, b) \<Longrightarrow> readopen p' = readopen p \<and> writeopen p' = writeopen p"
  using piperead_copy_flags[of n p] pipewrite_loop_flags
  by (auto simp: piperead_def pipewrite_def Let_def split: if_splits prod.splits)

lemma pipe_contents_ok:
  assumes c: "in_order E X Y L T s" and p: "kpipes s a = Some p" "readopen p' = readopen p" "writeopen p' = writeopen p"
  shows "in_order E X Y L T (s\<lparr>kpipes := (kpipes s)(a \<mapsto> p')\<rparr>)"
proof -
  have e: "end_open w p' = end_open w p" for w using p by (simp add: end_open_def)
  have q: "pipes_ok s" using c by (simp add: in_order_def)
  have "pipes_ok (s\<lparr>kpipes := (kpipes s)(a \<mapsto> p')\<rparr>)"
  proof (rule pipes_okI)
    show "i = j" if "i \<in> ends (s\<lparr>kpipes := (kpipes s)(a \<mapsto> p')\<rparr>) b w" "j \<in> ends (s\<lparr>kpipes := (kpipes s)(a \<mapsto> p')\<rparr>) b w" for b w i j
      using q that unfolding pipes_ok_def ends_kpipes by blast
    show "ends (s\<lparr>kpipes := (kpipes s)(a \<mapsto> p')\<rparr>) b w \<noteq> {} \<longleftrightarrow>
        (\<exists>q. kpipes (s\<lparr>kpipes := (kpipes s)(a \<mapsto> p')\<rparr>) b = Some q \<and> end_open w q)" for b w
    proof -
      have "ends s b w \<noteq> {} \<longleftrightarrow> (\<exists>p. kpipes s b = Some p \<and> end_open w p)" using q unfolding pipes_ok_def by blast
      then show ?thesis using p(1) e by (cases "b = a") simp_all
    qed
  next
    fix b r assume "kpipes (s\<lparr>kpipes := (kpipes s)(a \<mapsto> p')\<rparr>) b = Some r"
    then show "readopen r \<or> writeopen r" using q p unfolding pipes_ok_def by (cases "b = a") auto
  qed
  then show ?thesis using c by (simp add: in_order_def)
qed

lemma fileread_ok:
  assumes c: "in_order E X Y {} T s" and r: "fileread hr drv killed i n s = Ret (v, s')"
  shows "in_order E X Y {} T s'"
proof (cases "readable (ftable s ! i)")
  case False
  then have "s' = s" using r by (auto simp: fileread_def)
  then show ?thesis using c by simp
next
  case True
  let ?x = "ftable s ! i"
  show ?thesis
  proof (cases "ftype ?x")
    case FD_NONE
    then show ?thesis using r True by (auto simp: fileread_def)
  next
    case FD_PIPE
    then obtain p p' c' bs b where "kpipes s (fpipe ?x) = Some p" "piperead killed n p = (p', R_ret c' bs, b)" "s' = s\<lparr>kpipes := (kpipes s)(fpipe ?x \<mapsto> p')\<rparr>"
      using r True by (auto simp: fileread_def split: option.splits prod.splits read_result.splits)
    then show ?thesis using pipe_contents_ok[OF c] pipe_flags(1) by blast
  next
    case FD_INODE
    then obtain s1 s2 s3 where s: "run_fs (ilock (fip ?x)) s = Ret s1" "on_fs (read_inode hr drv (fip ?x) (foff ?x) (of_nat n)) s1 = Ret (v, s2)"
      "advance i (fst v) s2 = Ret s3" "run_fs (iunlock (fip ?x)) s3 = Ret s'" using r True by (auto simp: fileread_def)
    from unlock_ok[OF advance_ok[OF contents_ok(1)[OF lock_ok[OF c s(1)] s(2)] s(3)] s(4)] show ?thesis by simp
  qed
qed

lemma write_piece_ok:
  assumes c: "in_order E X Y {} T s" and r: "write_piece hw drv i src s = Ret (v, s')"
  shows "in_order E X Y {} T s'"
proof -
  let ?x = "ftable s ! i"
  obtain s0 s1 s2 s3 s4 where s: "run_fs begin_op s = Ret s0" "run_fs (ilock (fip ?x)) s0 = Ret s1" "on_fs (write_inode hw drv (fip ?x) src (foff ?x)) s1 = Ret (v, s2)"
    "advance i v s2 = Ret s3" "run_fs (iunlock (fip ?x)) s3 = Ret s4" "run_fs end_op s4 = Ret s'" using r by (auto simp: write_piece_def)
  have "in_order E X Y (insert (fip ?x) {} - {fip ?x}) T s4"
    by (rule unlock_ok[OF advance_ok[OF contents_ok(2)[OF lock_ok[OF trans_ok(1)[OF c s(1)] s(2)] s(3)] s(4)] s(5)])
  from trans_ok(2)[OF this s(6)] show ?thesis by simp
qed

lemma write_pieces_ok: "in_order E X Y {} T s \<Longrightarrow> write_pieces hw drv i src s = Ret (v, s') \<Longrightarrow> in_order E X Y {} T s'"
proof (induction "length src" arbitrary: src s rule: less_induct)
  case less
  show ?case
  proof (cases "src = []")
    case True
    then show ?thesis using less.prems by (subst (asm) write_pieces.simps) simp
  next
    case False
    let ?n = "min (length src) max_write"
    obtain w s1 where p: "write_piece hw drv i (take ?n src) s = Ret (w, s1)"
      and rest: "(if w < 0 then Ret (False, s1) else if w \<noteq> int ?n then Panic else write_pieces hw drv i (drop ?n src) s1) = Ret (v, s')"
      using less.prems(2) False by (subst (asm) write_pieces.simps) (auto simp: Let_def)
    have c: "in_order E X Y {} T s1" by (rule write_piece_ok[OF less.prems(1) p])
    have "length (drop ?n src) < length src" using False by (simp add: max_write_def LOGSIZE_def)
    from less.hyps[OF this c] c rest show ?thesis by (auto split: if_splits)
  qed
qed

lemma filewrite_ok:
  assumes c: "in_order E X Y {} T s" and r: "filewrite hw drv killed i src s = Ret (v, s')"
  shows "in_order E X Y {} T s'"
proof (cases "writable (ftable s ! i)")
  case False
  then have "s' = s" using r by (auto simp: filewrite_def)
  then show ?thesis using c by simp
next
  case True
  let ?x = "ftable s ! i"
  show ?thesis
  proof (cases "ftype ?x")
    case FD_NONE
    then show ?thesis using r True by (auto simp: filewrite_def)
  next
    case FD_PIPE
    then obtain p p' c' b where "kpipes s (fpipe ?x) = Some p" "pipewrite killed src p = (p', W_ret c', b)" "s' = s\<lparr>kpipes := (kpipes s)(fpipe ?x \<mapsto> p')\<rparr>"
      using r True by (auto simp: filewrite_def split: option.splits prod.splits write_result.splits)
    then show ?thesis using pipe_contents_ok[OF c] pipe_flags(2) by blast
  next
    case FD_INODE
    then show ?thesis using r True write_pieces_ok[OF c] by (auto simp: filewrite_def)
  qed
qed

lemma filestat_ok:
  assumes c: "in_order E X Y {} T s" and r: "filestat i s = Ret (v, s')"
  shows "in_order E X Y {} T s'"
proof (cases "ftype (ftable s ! i) = FD_INODE")
  case True
  then obtain s1 where "run_fs (ilock (fip (ftable s ! i))) s = Ret s1" "run_fs (iunlock (fip (ftable s ! i))) s1 = Ret s'"
    using r by (auto simp: filestat_def)
  from unlock_ok[OF lock_ok[OF c this(1)] this(2)] show ?thesis by simp
next
  case False
  then show ?thesis using r c by (auto simp: filestat_def)
qed

lemma io_calls_ok:
  assumes k: "kernel_ok s"
  shows "sys_read hr drv killed me fd n s = Ret (v, s') \<Longrightarrow> kernel_ok s'" "sys_write hw drv killed me fd src s = Ret (w, s') \<Longrightarrow> kernel_ok s'"
    "sys_fstat me fd ptr s = Ret (x, s') \<Longrightarrow> kernel_ok s'"
proof -
  note R = fileread_ok[OF kernel_okD[OF k], folded kernel_ok_def] and W = filewrite_ok[OF kernel_okD[OF k], folded kernel_ok_def]
    and S = filestat_ok[OF kernel_okD[OF k], folded kernel_ok_def]
  have split: "a = None \<or> (\<exists>n i. a = Some (n, i))" for a :: "(nat \<times> nat) option" by (cases a) auto
  show "kernel_ok s'" if r: "sys_read hr drv killed me fd n s = Ret (v, s')"
  proof -
    obtain a where a: "argfd me fd s = Ret a" using r by (auto simp: sys_read_def)
    show ?thesis using split[of a] r a k by (cases n) (auto simp: sys_read_def dest: R)
  qed
  show "kernel_ok s'" if r: "sys_write hw drv killed me fd src s = Ret (w, s')"
  proof -
    obtain a where a: "argfd me fd s = Ret a" using r by (auto simp: sys_write_def)
    show ?thesis using split[of a] r a k by (cases src) (auto simp: sys_write_def dest: W)
  qed
  show "kernel_ok s'" if r: "sys_fstat me fd ptr s = Ret (x, s')"
  proof -
    obtain a where a: "argfd me fd s = Ret a" using r by (auto simp: sys_fstat_def)
    show ?thesis using split[of a] r a k by (cases ptr) (auto simp: sys_fstat_def dest: S)
  qed
qed

text \<open>Pipes.\<close>

lemma fill_pipe_file:
  assumes c: "counts_ok E X Y L T s" and i: "i < NFILE" "i \<in> T"
  shows "counts_ok E X Y L (T - {i}) (set_file i (pipe_file w a (ftable s ! i)) s)"
proof -
  have t: "ftype (ftable s ! i) = FD_NONE" "fref (ftable s ! i) = 1" using files_okD(4)[OF counts_files[OF c] i] by auto
  have "counts_ok E (X(i := X i + 0)) Y L (T - {i}) (set_file i (pipe_file w a (ftable s ! i)) s)"
    by (rule counts_set_file[OF c i(1)]) (use t in \<open>auto simp: pipe_file_def is_inode_def\<close>)
  then show ?thesis by simp
qed

lemma new_pipe_ok:
  assumes p: "pipes_ok s" and n: "i < length (ftable s)" "j < length (ftable s)" "i \<noteq> j" and a: "kpipes s a = None"
    and t: "ftype (ftable s ! i) = FD_NONE" "ftype (ftable s ! j) = FD_NONE" and x: "is_end a False x" "is_end a True y"
  shows "pipes_ok (set_file j y (set_file i x (s\<lparr>kpipes := (kpipes s)(a \<mapsto> new_pipe bs)\<rparr>)))"
proof -
  let ?s = "set_file j y (set_file i x (s\<lparr>kpipes := (kpipes s)(a \<mapsto> new_pipe bs)\<rparr>))"
  have none: "ends s a w = {}" for w using p a unfolding pipes_ok_def by force
  have out: "i \<notin> ends s b w" "j \<notin> ends s b w" for b w using t by (auto simp: ends_def)
  have e: "ends ?s b w = (if b = a then (if w then {j} else {i}) else ends s b w)" for b w
  proof -
    have "is_end b w x \<longleftrightarrow> b = a \<and> \<not> w" "is_end b w y \<longleftrightarrow> b = a \<and> w" using x by (auto simp: is_end_def)
    then show ?thesis using n none out[of b w] by (auto simp: ends_set_file)
  qed
  show ?thesis
  proof (rule pipes_okI)
    show "k = l" if "k \<in> ends ?s b w" "l \<in> ends ?s b w" for b w k l using that p unfolding e pipes_ok_def by (auto split: if_splits)
    show "ends ?s b w \<noteq> {} \<longleftrightarrow> (\<exists>q. kpipes ?s b = Some q \<and> end_open w q)" for b w
    proof -
      have "ends s b w \<noteq> {} \<longleftrightarrow> (\<exists>p. kpipes s b = Some p \<and> end_open w p)" using p unfolding pipes_ok_def by blast
      then show ?thesis unfolding e by (cases "b = a") (auto simp: new_pipe_def end_open_def)
    qed
  next
    fix b r assume "kpipes ?s b = Some r"
    then show "readopen r \<or> writeopen r" using p unfolding pipes_ok_def by (cases "b = a") (auto simp: new_pipe_def)
  qed
qed

lemma close_opt_ok:
  assumes c: "in_order E X Y {} T s" and r: "close_opt v s = Ret s'" and y: "\<And>j. 0 \<le> Y j"
  shows "in_order E (\<lambda>i. X i - fd_at v i) Y {} (T - set_option v) s'"
proof (cases v)
  case None
  then show ?thesis using c r by (simp add: close_opt_def fd_at_def)
next
  case (Some i)
  then have "fileclose i s = Ret s'" using r by (simp add: close_opt_def)
  from order_cong[OF fileclose_ok[OF c this _ y]] Some show ?thesis by (auto simp: fd_at_def fun_eq_iff)
qed

lemma filealloc_None: "filealloc s = (None, s') \<Longrightarrow> s' = s"
  by (auto simp: filealloc_def split: option.splits)

lemma pipealloc_ok:
  assumes c: "in_order E (\<lambda>_. 0) (\<lambda>_. 0) {} {} s" and r: "pipealloc page s = Ret (v, s')" and pg: "\<And>a bs. page = Some (a, bs) \<Longrightarrow> kpipes s a = None"
  shows "case v of None \<Rightarrow> in_order E (\<lambda>_. 0) (\<lambda>_. 0) {} {} s'
    | Some (i, j) \<Rightarrow> in_order E (\<lambda>k. fd_at (Some i) k + fd_at (Some j) k) (\<lambda>_. 0) {} {} s' \<and> i < NFILE \<and> j < NFILE \<and> holders s' = holders s"
proof -
  obtain f0 s1 where f0: "filealloc s = (f0, s1)" by fastforce
  show ?thesis
  proof (cases f0)
    case None
    then have "v = None" "s' = s" using r f0 filealloc_None[of s s1] by (auto simp: pipealloc_def close_opt_def)
    then show ?thesis using c by simp
  next
    case (Some i)
    note F = filealloc_ok[OF c f0[unfolded Some]]
    have k1: "kpipes s1 = kpipes s" "holders s1 = holders s" using f0 Some by (auto simp: filealloc_def split: option.splits)
    obtain f1 s2 where f1: "filealloc s1 = (f1, s2)" by fastforce
    show ?thesis
    proof (cases "\<exists>j a bs. f1 = Some j \<and> page = Some (a, bs)")
      case True
      then obtain j a bs where j: "f1 = Some j" and pa: "page = Some (a, bs)" by blast
      note G = filealloc_ok[OF F(1) f1[unfolded j]]
      have k2: "kpipes s2 = kpipes s" "holders s2 = holders s" using f1 j k1 by (auto simp: filealloc_def split: option.splits)
      have n: "length (ftable s2) = NFILE" "i \<noteq> j" using order_fileD(1)[OF G(1)] G(3) by auto
      have T: "ftype (ftable s2 ! i) = FD_NONE" "ftype (ftable s2 ! j) = FD_NONE" using order_fileD(4)[OF G(1)] F(2) G(2) by auto
      let ?x = "pipe_file False a (ftable s2 ! i)" and ?y = "pipe_file True a (ftable s2 ! j)"
      let ?p = "s2\<lparr>kpipes := (kpipes s2)(a \<mapsto> new_pipe bs)\<rparr>"
      have v: "v = Some (i, j)" "s' = set_file j ?y (set_file i ?x ?p)"
        using r f0 Some f1 j pa n by (auto simp: pipealloc_def Let_def)
      have "counts_ok E (((\<lambda>_. 0)(i := 0 + 1))(j := ((\<lambda>_. 0)(i := 0 + 1)) j + 1)) (\<lambda>_. 0) {} (insert j (insert i {}) - {i}) (set_file i ?x ?p)"
        using fill_pipe_file[of E _ "\<lambda>_. 0" "{}" "insert j (insert i {})" ?p i False a] G(1) F(2) by (simp add: in_order_def)
      from fill_pipe_file[OF this G(2), of True a] have "counts_ok E (\<lambda>k. fd_at (Some i) k + fd_at (Some j) k) (\<lambda>_. 0) {} {} s'"
        using n F(2) v(2) by (auto simp: fd_at_def fun_eq_iff insert_Diff_if elim!: back_subst[of "\<lambda>X. counts_ok E X (\<lambda>_. 0) {} {} _"])
      moreover have "pipes_ok s'" unfolding v(2)
        by (rule new_pipe_ok) (use G F n T pg[OF pa] k2 in \<open>auto simp: in_order_def is_end_def pipe_file_def\<close>)
      ultimately show ?thesis using v F(2) G(2) k2 by (simp add: in_order_def)
    next
      case False
      then obtain s3 where cl: "close_opt (Some i) s2 = Ret s3" "close_opt f1 s3 = Ret s'" and v: "v = None"
        using r f0 Some f1 by (cases f1; cases page) (auto simp: pipealloc_def)
      let ?X = "\<lambda>k. fd_at (Some i) k + fd_at f1 k"
      have c2: "in_order E ?X (\<lambda>_. 0) {} (insert i (set_option f1)) s2"
      proof (cases f1)
        case None
        then show ?thesis using F(1) f1 filealloc_None[of s1 s2] by (auto simp: fd_at_def fun_eq_iff elim!: order_cong)
      next
        case (Some j)
        show ?thesis using filealloc_ok(1,3)[OF F(1) f1[unfolded Some]] Some by (auto simp: fd_at_def fun_eq_iff elim!: order_cong)
      qed
      from close_opt_ok[OF close_opt_ok[OF c2 cl(1)] cl(2)] v show ?thesis by (auto elim!: order_cong simp: fun_eq_iff)
    qed
  qed
qed

lemma close_two_ok:
  assumes c: "in_order E (\<lambda>k. fd_at (Some i) k + fd_at (Some j) k) (\<lambda>_. 0) {} {} s" and r: "fileclose i s = Ret s1" "fileclose j s1 = Ret s'"
  shows "in_order E (\<lambda>_. 0) (\<lambda>_. 0) {} {} s'"
proof -
  have c1: "in_order E (fd_at (Some j)) (\<lambda>_. 0) {} {} s1"
    using order_cong[OF fileclose_ok[OF c r(1)], of "fd_at (Some j)"] by (auto simp: fd_at_def fun_eq_iff)
  show ?thesis using order_cong[OF fileclose_ok[OF c1 r(2)], of "\<lambda>_. 0"] by (auto simp: fd_at_def fun_eq_iff)
qed

lemma pipe_fds_ok:
  assumes c: "in_order {} (\<lambda>k. fd_at (Some i) k + fd_at (Some j) k) (\<lambda>_. 0) {} {} s" and ij: "i < NFILE" "j < NFILE" and me: "alive me s"
    and r: "pipe_fds me i j s = Ret (v, s')"
  shows "kernel_ok s'"
proof -
  obtain fd0 s1 where f0: "fdalloc me i s = Ret (fd0, s1)" using r by (auto simp: pipe_fds_def)
  show ?thesis
  proof (cases fd0)
    case None
    then have "s1 = s" using f0 fdalloc_None by blast
    then show ?thesis using close_two_ok[OF c] r f0 None by (auto simp: pipe_fds_def kernel_ok_def)
  next
    case (Some a)
    note F = fdalloc_ok[OF c f0[unfolded Some] ij(1)]
    have al: "pcwd (holders s ! me) \<noteq> None" using me by (simp add: alive_def)
    obtain fd1 s2 where f1: "fdalloc me j s1 = Ret (fd1, s2)" using r f0 Some by (auto simp: pipe_fds_def)
    have c1: "in_order {} (fd_at (Some j)) (\<lambda>_. 0) {} {} s1" using order_cong[OF F(1)[OF al], of "fd_at (Some j)"] by (auto simp: fd_at_def fun_eq_iff)
    show ?thesis
    proof (cases fd1)
      case None
      then have "s2 = s1" using f1 fdalloc_None by blast
      then obtain s3 s4 where s: "set_fd me a None s1 = Ret s3" "fileclose i s3 = Ret s4" "fileclose j s4 = Ret s'"
        using r f0 Some f1 None by (auto simp: pipe_fds_def)
      have "in_order {} (\<lambda>k. fd_at (Some i) k + fd_at (Some j) k) (\<lambda>_. 0) {} {} s3"
        using order_cong[OF set_fd_ok[OF c1 s(1) F(2)[OF al]], of "\<lambda>k. fd_at (Some i) k + fd_at (Some j) k"] F(4)[OF al]
        by (auto simp: fd_at_def fun_eq_iff)
      from close_two_ok[OF this s(2,3)] show ?thesis by (simp add: kernel_ok_def)
    next
      case (Some b)
      then have "s' = s2" using r f0 \<open>fd0 = Some a\<close> f1 by (auto simp: pipe_fds_def)
      then show ?thesis using order_cong[OF fdalloc_ok(1)[OF c1 f1[unfolded Some] ij(2)], of "\<lambda>_. 0"] F(5)[OF al] al
        by (auto simp: kernel_ok_def fd_at_def fun_eq_iff)
    qed
  qed
qed

lemma sys_pipe_ok:
  assumes k: "kernel_ok s" and me: "alive me s" and r: "sys_pipe me ptr page s = Ret (v, s')" and pg: "\<And>a bs. page = Some (a, bs) \<Longrightarrow> kpipes s a = None"
  shows "kernel_ok s'"
proof (cases ptr)
  case True
  then obtain p s1 where p: "pipealloc page s = Ret (p, s1)" and rest: "(case p of None \<Rightarrow> Ret (None, s1) | Some (rf, wrf) \<Rightarrow> pipe_fds me rf wrf s1) = Ret (v, s')"
    using r by (auto simp: sys_pipe_def)
  note P = pipealloc_ok[OF kernel_okD[OF k] p pg]
  show ?thesis
  proof (cases p)
    case None
    then show ?thesis using P rest by (auto simp: kernel_ok_def)
  next
    case (Some q)
    then obtain i j where q: "p = Some (i, j)" by (cases q) auto
    then have "alive me s1" using P me by (simp add: alive_def)
    then show ?thesis using P rest q pipe_fds_ok[of i j s1 me v s'] by simp
  qed
next
  case False
  then show ?thesis using r k by (auto simp: sys_pipe_def)
qed

text \<open>Fork and exit.\<close>

lemma dup_fds_ok:
  assumes "in_order {np} (\<lambda>_. 0) (\<lambda>_. 0) {} {} s" "dup_fds vs np n s = Ret s'" "n + length vs \<le> NOFILE" "np < length (holders s)"
    "\<And>fd. n \<le> fd \<Longrightarrow> fd < NOFILE \<Longrightarrow> ofile (holders s ! np) ! fd = None"
  shows "in_order {np} (\<lambda>_. 0) (\<lambda>_. 0) {} {} s' \<and> length (holders s') = length (holders s) \<and> pcwd (holders s' ! np) = pcwd (holders s ! np) \<and>
    (\<forall>p. p \<noteq> np \<longrightarrow> holders s' ! p = holders s ! p)"
  using assms
proof (induction vs np n s rule: dup_fds.induct)
  case (3 x vs np n s)
  obtain s1 s2 where s: "filedup x s = Ret s1" "set_fd np n (Some x) s1 = Ret s2" "dup_fds vs np (n + 1) s2 = Ret s'" using "3.prems"(2) by auto
  have h: "holders s1 = holders s" "x < NFILE" using s(1) order_fileD(1)[OF "3.prems"(1)] by (auto simp: filedup_def split: if_splits)
  have c1: "in_order {np} (fd_at (Some x)) (\<lambda>_. 0) {} {} s1" using order_cong[OF filedup_ok[OF "3.prems"(1) s(1)], of "fd_at (Some x)"] by (auto simp: fd_at_def fun_eq_iff)
  have len: "length (ofile (holders s ! np)) = NOFILE" using "3.prems"(1,4) by (simp add: in_order_def counts_ok_def holders_ok_def)
  have s2: "s2 = set_holder np ((holders s ! np)\<lparr>ofile := (ofile (holders s ! np))[n := Some x]\<rparr>) s1" using s(2) h by (auto simp: set_fd_def)
  have "in_order {np} (\<lambda>_. 0) (\<lambda>_. 0) {} {} s2"
    using order_cong[OF set_fd_ok[OF c1 s(2)], of "\<lambda>_. 0"] h "3.prems"(3) "3.prems"(5)[of n] by (auto simp: fd_at_def fun_eq_iff)
  from "3.IH"[OF s(1) s(2) this s(3)] "3.prems"(3-5) s2 h len show ?case by simp
qed auto

lemma fork_files_ok:
  assumes k: "kernel_ok s" and me: "alive me s" and np': "np < length (holders s)" "\<not> alive np s" and r: "fork_files me np s = Ret s'"
  shows "kernel_ok s'"
proof -
  obtain s1 cwd s2 where s: "dup_fds (ofile (holders s ! me)) np 0 s = Ret s1" "cwd_of me s1 = Ret cwd" "run_fs (idup cwd) s1 = Ret s2"
    and s': "s' = set_holder np ((holders s2 ! np)\<lparr>pcwd := Some cwd\<rparr>) s2" using r by (auto simp: fork_files_def)
  note c = kernel_okD[OF k]
  have np: "np < length (holders s)" "pcwd (holders s ! np) = None" using np' by (auto simp: alive_def)
  have row: "length (ofile (holders s ! p)) = NOFILE" if "p < length (holders s)" for p
    using c that by (simp add: in_order_def counts_ok_def holders_ok_def)
  have "set (ofile (holders s ! np)) \<subseteq> {None}" using c np by (simp add: in_order_def counts_ok_def holders_ok_def)
  then have e: "ofile (holders s ! np) ! fd = None" if "fd < NOFILE" for fd
    using row[OF np(1)] that nth_mem[of fd "ofile (holders s ! np)"] by (metis singletonD subsetD)
  have "in_order {np} (\<lambda>_. 0) (\<lambda>_. 0) {} {} s" using c by (auto simp: in_order_def counts_ok_def holders_ok_def)
  from dup_fds_ok[OF this s(1)] have D: "in_order {np} (\<lambda>_. 0) (\<lambda>_. 0) {} {} s1" "length (holders s1) = length (holders s)"
    "pcwd (holders s1 ! np) = None" using row e np me by (auto simp: alive_def)
  have u: "1 \<le> inode_uses s1 cwd" using s(2) inode_uses_cwd[of "holders s1 ! me" s1 cwd] by (auto simp: cwd_of_def)
  obtain f where f: "idup cwd (kfs s1) = Ret f" "s2 = s1\<lparr>kfs := f\<rparr>" using s(3) by (auto simp: run_fs_def)
  have "(\<lambda>j. inode_uses s1 j + ((\<lambda>_. 0)(cwd := 1)) j) = (\<lambda>j. inode_uses s1 j + 0)(cwd := inode_uses s1 cwd + 0 + 1)" by (simp add: fun_eq_iff)
  then have "inodes_ok f (\<lambda>j. inode_uses s1 j + ((\<lambda>_. 0)(cwd := 1)) j) {}" using idup_ok[OF order_inodes[OF D(1)] f(1)] u by simp
  from order_fs[OF D(1) this] have c2: "in_order {np} (\<lambda>_. 0) ((\<lambda>_. 0)(cwd := 1)) {} {} s2" unfolding f(2) .
  have h2: "holders s2 = holders s1" using f(2) by simp
  have "in_order {} (\<lambda>_. 0) (\<lambda>_. 0) {} {} s'" unfolding s'
    by (rule set_cwd_ok[OF c2]) (use np D h2 in \<open>auto simp: in_dir_def\<close>)
  then show ?thesis by (simp add: kernel_ok_def)
qed

lemma run_fs_holders: "run_fs g s = Ret s' \<Longrightarrow> holders s' = holders s"
  by (auto simp: run_fs_def)

lemma fileclose_holders: "fileclose i s = Ret s' \<Longrightarrow> holders s' = holders s"
  by (auto simp: fileclose_def Let_def close_pipe_def dest!: run_fs_holders split: if_splits fd_type.splits option.splits prod.splits)

lemma close_fds_ok:
  assumes "kernel_ok s" "close_fds n me fd s = Ret s'" "fd + n = NOFILE" "\<And>k. k < fd \<Longrightarrow> ofile (holders s ! me) ! k = None" "me < length (holders s)"
  shows "kernel_ok s' \<and> (\<forall>k < NOFILE. ofile (holders s' ! me) ! k = None)"
  using assms
proof (induction n me fd s rule: close_fds.induct)
  case (2 n me fd s)
  let ?h = "holders s ! me"
  have len: "length (ofile ?h) = NOFILE" using kernel_okD[OF "2.prems"(1)] "2.prems"(5) by (simp add: in_order_def counts_ok_def holders_ok_def)
  have g: "get_holder me s = Ret ?h" using "2.prems"(5) by simp
  show ?case
  proof (cases "ofile ?h ! fd")
    case None
    then show ?thesis using "2.IH"(1)[OF g None "2.prems"(1)] "2.prems" by (auto simp: less_Suc_eq)
  next
    case (Some i)
    obtain s1 s2 where s: "fileclose i s = Ret s1" "set_fd me fd None s1 = Ret s2" "close_fds n me (fd + 1) s2 = Ret s'"
      using "2.prems"(2,5) Some by auto
    have c1: "in_order {} (\<lambda>k. - fd_at (Some i) k) (\<lambda>_. 0) {} {} s1"
      using order_cong[OF fileclose_ok[OF kernel_okD[OF "2.prems"(1)] s(1)], of "\<lambda>k. - fd_at (Some i) k"] by (auto simp: fd_at_def fun_eq_iff)
    have h: "holders s1 = holders s" using fileclose_holders[OF s(1)] .
    have k2: "kernel_ok s2" using order_cong[OF set_fd_ok[OF c1 s(2)], of "\<lambda>_. 0"] "2.prems"(3) h Some by (auto simp: kernel_ok_def fd_at_def fun_eq_iff)
    have h2: "length (holders s2) = length (holders s)" "ofile (holders s2 ! me) = (ofile ?h)[fd := None]" using s(2) h by (auto simp: set_fd_def)
    have "ofile (holders s2 ! me) ! k = None" if "k < fd + 1" for k
      using that "2.prems"(3,4) h2(2) len by (cases "k = fd") simp_all
    then show ?thesis using "2.IH"(2)[OF g Some s(1,2) k2 s(3)] "2.prems"(3,5) h2(1) by simp
  qed
qed simp

lemma exit_files_ok:
  assumes k: "kernel_ok s" and r: "exit_files me s = Ret s'" and me: "alive me s"
  shows "kernel_ok s'"
proof -
  obtain s1 cwd s2 where s: "close_fds NOFILE me 0 s = Ret s1" "cwd_of me s1 = Ret cwd" "run_fs (iput cwd) s1 = Ret s2"
    and s': "s' = set_holder me ((holders s2 ! me)\<lparr>pcwd := None\<rparr>) s2" using r by (auto simp: exit_files_def)
  have C: "kernel_ok s1" "\<forall>k < NOFILE. ofile (holders s1 ! me) ! k = None"
    using close_fds_ok[OF k s(1)] me by (simp_all add: alive_def)
  note W = kernel_cwd(3,4)[OF C(1) s(2)]
  have u: "1 \<le> inode_uses s1 cwd" using inode_uses_cwd[of "holders s1 ! me" s1 cwd] W by (simp add: alive_def)
  have c2: "in_order {} (\<lambda>_. 0) ((\<lambda>_. 0)(cwd := 0 - 1)) {} {} s2" by (rule put_ok[OF kernel_okD[OF C(1)] s(3)]) (use u in auto)
  have h2: "holders s2 = holders s1" using s(3) by (auto simp: run_fs_def)
  have len: "length (ofile (holders s1 ! me)) = NOFILE" using kernel_okD[OF C(1)] W(2) by (simp add: in_order_def counts_ok_def holders_ok_def alive_def)
  have "set (ofile (holders s1 ! me)) \<subseteq> {None}" using C(2) len by (auto simp: in_set_conv_nth)
  then have "in_order {} (\<lambda>_. 0) (\<lambda>_. 0) {} {} s'" unfolding s'
    by (intro set_cwd_ok[OF c2]) (use W h2 in \<open>auto simp: in_dir_def alive_def\<close>)
  then show ?thesis by (simp add: kernel_ok_def)
qed

text \<open>The start.\<close>

lemma init_files_ok: "kernel_ok (init_files st n)"
proof -
  let ?s = "init_files st n"
  have u: "fd_uses ?s i = 0" for i
    unfolding fd_uses_def by (simp add: init_files_def sum_list_replicate held_def)
  have v: "inode_uses ?s j = 0" for j
    unfolding inode_uses_def by (simp add: init_files_def sum_list_replicate is_inode_def in_dir_def)
  have "inodes_ok (kfs ?s) (\<lambda>j. inode_uses ?s j + 0) {}"
    by (simp add: v inodes_ok_def icache_ok_def) (simp add: init_files_def iinit_def free_inode_def)
  moreover have "files_ok (\<lambda>_. 0) {} ?s" by (simp add: files_ok_def u) (simp add: init_files_def)
  moreover have "ends ?s a w = {}" for a w by (auto simp: ends_def init_files_def)
  then have "pipes_ok ?s" by (simp add: pipes_ok_def) (simp add: init_files_def)
  moreover have "holders_ok {} ?s" by (auto simp: holders_ok_def init_files_def)
  ultimately show ?thesis by (simp add: kernel_ok_def in_order_def counts_ok_def)
qed

lemma first_cwd_ok:
  assumes k: "kernel_ok s" and z: "holders s \<noteq> []" "pcwd (holders s ! 0) = None" and r: "first_cwd s = Ret s'"
  shows "kernel_ok s'"
proof -
  obtain i f where i: "iget ROOTDEV ROOTINO (kfs s) = Ret (i, f)" and s': "s' = set_holder 0 ((holders s ! 0)\<lparr>pcwd := Some i\<rparr>) (s\<lparr>kfs := f\<rparr>)"
    using r by (auto simp: first_cwd_def on_fs_def namei_def namex_def lit_def slash_def namex_loop.simps skipelem_def Let_def)
  have "acc (kfs s) {#i#} {} f" using iget_acc[OF inodes_start[OF order_inodes[OF kernel_okD[OF k]]] i] .
  from order_acc[OF kernel_okD[OF k] this] have c: "in_order {} (\<lambda>_. 0) (\<lambda>j. 0 + int (count {#i#} j)) {} {} (s\<lparr>kfs := f\<rparr>)" .
  have "in_order {} (\<lambda>_. 0) (\<lambda>_. 0) {} {} s'" unfolding s'
    by (rule set_cwd_ok[OF c]) (use z in \<open>auto simp: in_dir_def\<close>)
  then show ?thesis by (simp add: kernel_ok_def)
qed

section \<open>Every sequence of calls\<close>

text \<open>
  A system call of some process that returns. The page for a new pipe is one that no pipe has, which the page allocator
  gives; a new process gets a slot that no process has.
\<close>

inductive kcall :: "kernel \<Rightarrow> kernel \<Rightarrow> bool" where
  call_dup: "alive me s \<Longrightarrow> sys_dup me fd s = Ret (v, s') \<Longrightarrow> kcall s s'"
| call_close: "alive me s \<Longrightarrow> sys_close me fd s = Ret (v, s') \<Longrightarrow> kcall s s'"
| call_read: "alive me s \<Longrightarrow> sys_read hr drv killed me fd n s = Ret (b, s') \<Longrightarrow> kcall s s'"
| call_write: "alive me s \<Longrightarrow> sys_write hw drv killed me fd src s = Ret (v, s') \<Longrightarrow> kcall s s'"
| call_fstat: "alive me s \<Longrightarrow> sys_fstat me fd ptr s = Ret (x, s') \<Longrightarrow> kcall s s'"
| call_link: "alive me s \<Longrightarrow> sys_link hr hw me old new s = Ret (v, s') \<Longrightarrow> kcall s s'"
| call_unlink: "alive me s \<Longrightarrow> sys_unlink hr hw me path s = Ret (v, s') \<Longrightarrow> kcall s s'"
| call_open: "alive me s \<Longrightarrow> sys_open hr hw me path omode s = Ret (v, s') \<Longrightarrow> kcall s s'"
| call_mkdir: "alive me s \<Longrightarrow> sys_mkdir hr hw me path s = Ret (v, s') \<Longrightarrow> kcall s s'"
| call_mknod: "alive me s \<Longrightarrow> sys_mknod hr hw me path maj mnr s = Ret (v, s') \<Longrightarrow> kcall s s'"
| call_chdir: "alive me s \<Longrightarrow> sys_chdir hr me path s = Ret (v, s') \<Longrightarrow> kcall s s'"
| call_pipe: "alive me s \<Longrightarrow> (\<And>a bs. page = Some (a, bs) \<Longrightarrow> kpipes s a = None) \<Longrightarrow> sys_pipe me ptr page s = Ret (p, s') \<Longrightarrow> kcall s s'"
| call_fork: "alive me s \<Longrightarrow> np < length (holders s) \<Longrightarrow> \<not> alive np s \<Longrightarrow> fork_files me np s = Ret s' \<Longrightarrow> kcall s s'"
| call_exit: "alive me s \<Longrightarrow> exit_files me s = Ret s' \<Longrightarrow> kcall s s'"

inductive called :: "kernel \<Rightarrow> bool" where
  called_boot: "first_cwd (init_files st (Suc n)) = Ret s \<Longrightarrow> called s"
| called_step: "called s \<Longrightarrow> kcall s s' \<Longrightarrow> called s'"

lemmas call_rules = sys_dup_ok sys_close_ok io_calls_ok path_calls_ok sys_open_ok sys_chdir_ok sys_pipe_ok fork_files_ok exit_files_ok

lemma kcall_ok: "kcall s s' \<Longrightarrow> kernel_ok s \<Longrightarrow> kernel_ok s'"
  by (induction rule: kcall.induct; (rule call_rules; assumption))

lemma called_ok: "called s \<Longrightarrow> kernel_ok s"
proof (induction rule: called.induct)
  case (called_boot st n s)
  show ?case by (rule first_cwd_ok[OF init_files_ok _ _ called_boot]) (simp_all add: init_files_def)
qed (rule kcall_ok)

text \<open>
  C40: After every sequence of system calls of any number of processes, the reference counts are exact: an open file
  counts the descriptors for it, an inode in memory counts the open files and the current directories that stand for it, no inode is left
  locked, an end of a pipe is open exactly as long as an open file for it exists, and a process that does not exist has no
  descriptors. So no call on any of its error paths loses a reference or drops one too many.
\<close>

theorem references_exact:
  assumes "called s"
  shows "(\<forall>i < NFILE. fref (ftable s ! i) = fd_uses s i) \<and>
    (\<forall>j < length (icache (kfs s)). iref (icache (kfs s) ! j) = inode_uses s j \<and> \<not> ibusy (icache (kfs s) ! j)) \<and>
    icache_ok (kfs s) \<and> pipes_ok s \<and> holders_ok {} s"
proof -
  note c = kernel_okD[OF called_ok[OF assms]]
  show ?thesis using c order_fileD(2)[OF c] order_inodes[OF c] by (simp add: inodes_ok_def in_order_def counts_ok_def)
qed

text \<open>The first process forks, and both are in the root directory.\<close>

definition root_inode :: "int \<Rightarrow> inode" where
  "root_inode n = free_inode\<lparr>idev := ROOTDEV, inum := ROOTINO, iref := n, ibusy := False, ivalid := False\<rparr>"

definition in_root :: holder where
  "in_root = \<lparr>ofile = replicate NOFILE None, pcwd = Some 0\<rparr>"

definition one_process :: "store \<Rightarrow> kernel" where
  "one_process st = (init_files st 2)\<lparr>kfs := set_inode 0 (root_inode 1) (iinit st), holders := [in_root, in_root\<lparr>pcwd := None\<rparr>]\<rparr>"

definition two_processes :: "store \<Rightarrow> kernel" where
  "two_processes st = (init_files st 2)\<lparr>kfs := set_inode 0 (root_inode 2) (iinit st), holders := [in_root, in_root]\<rparr>"

lemma iget_first: "iget ROOTDEV ROOTINO (iinit st) = Ret (0, set_inode 0 (root_inode 1) (iinit st))"
proof -
  have "iget_loop dv i (replicate n free_inode) k (Some e) = (None, Some e)" for dv i n k e
    by (induction n arbitrary: k) (auto simp: free_inode_def)
  then have "iget_loop dv i (replicate (Suc n) free_inode) 0 None = (None, Some 0)" for dv i n by (simp add: free_inode_def)
  moreover have "icache (iinit st) = replicate (Suc 49) free_inode" unfolding iinit_def NINODE_def by (simp only: fs.simps) simp
  ultimately have "iget_loop dv i (icache (iinit st)) 0 None = (None, Some 0)" for dv i by metis
  moreover have "get_inode 0 (iinit st) = Ret free_inode" by (simp add: iinit_def NINODE_def)
  ultimately show ?thesis by (simp add: iget_def root_inode_def free_inode_def)
qed

lemma one_process_boot: "first_cwd (init_files st (Suc 1)) = Ret (one_process st)"
proof -
  have "kfs (init_files st (Suc 1)) = iinit st" by (simp add: init_files_def)
  then have "on_fs (\<lambda>f. namei (\<lambda>_. False) (lit ''/'') 0 f) (init_files st (Suc 1)) =
      Ret (Some 0, (init_files st (Suc 1))\<lparr>kfs := set_inode 0 (root_inode 1) (iinit st)\<rparr>)"
    by (simp add: on_fs_def namei_def namex_def lit_def slash_def iget_first namex_loop.simps skipelem_def)
  then show ?thesis
    by (simp add: first_cwd_def get_holder_def rd_def set_holder_def one_process_def init_files_def in_root_def numeral_2_eq_2)
qed

lemma dup_fds_none: "dup_fds (replicate n None) np i s = Ret s"
  by (induction n arbitrary: i) simp_all

lemma two_processes_fork: "fork_files 0 1 (one_process st) = Ret (two_processes st)"
  by (simp add: fork_files_def get_holder_def rd_def cwd_of_def run_fs_def idup_def get_inode_def set_holder_def one_process_def two_processes_def
    in_root_def dup_fds_none set_inode_def iinit_def NINODE_def root_inode_def free_inode_def)

theorem references_exact_witness:
  "called (two_processes demo_store) \<and> iref (icache (kfs (two_processes demo_store)) ! 0) = inode_uses (two_processes demo_store) 0 \<and>
   inode_uses (two_processes demo_store) 0 = 2"
proof -
  have "called (one_process demo_store)" by (rule called_boot[OF one_process_boot])
  moreover have "kcall (one_process demo_store) (two_processes demo_store)"
    by (rule call_fork[OF _ _ _ two_processes_fork]) (simp_all add: alive_def one_process_def in_root_def)
  ultimately have c: "called (two_processes demo_store)" by (rule called_step)
  have "iref (icache (kfs (two_processes demo_store)) ! 0) = 2" "0 < length (icache (kfs (two_processes demo_store)))"
    by (simp_all add: two_processes_def set_inode_def iinit_def NINODE_def root_inode_def)
  then show ?thesis using c references_exact[OF c] by simp
qed

section \<open>Dropping a reference outside of a transaction\<close>

lemma put_blk_busy: "put_blk b d st = Some st' \<Longrightarrow> lbusy (fst st)"
  by (auto simp: put_blk_def log_write_def split: if_splits)

lemma bfree_busy: "bfree b st = Some st' \<Longrightarrow> lbusy (fst st)"
  by (auto simp: bfree_def Let_def dest: put_blk_busy split: Option.bind_splits if_splits)

lemma iupdate_busy: "iupdate ip st = Some st' \<Longrightarrow> lbusy (fst st)"
  by (auto simp: iupdate_def Let_def dest: put_blk_busy split: Option.bind_splits)

lemma trunc_direct_idle: "trunc_direct n ip i st = Some (ip', st') \<Longrightarrow> \<not> lbusy (fst st) \<Longrightarrow> st' = st"
  by (induction n arbitrary: ip i) (auto dest: bfree_busy split: Option.bind_splits if_splits)

lemma trunc_indirect_idle: "trunc_indirect n b j st = Some st' \<Longrightarrow> \<not> lbusy (fst st) \<Longrightarrow> st' = st"
  by (induction n arbitrary: j) (auto dest: bfree_busy split: Option.bind_splits if_splits)

lemma itrunc_idle: "\<not> lbusy (fst st) \<Longrightarrow> itrunc ip st = None"
  by (auto simp: itrunc_def Let_def dest!: trunc_direct_idle trunc_indirect_idle bfree_busy iupdate_busy split: Option.bind_splits if_splits)

text \<open>
  Freeing a file writes to the disk, which panics outside of a transaction. The exit of a process drops its current
  directory there, and when this was the last reference to a directory that has been removed, the kernel panics.
\<close>

lemma exit_removed_cwd:
  assumes "close_fds NOFILE me 0 s = Ret s1" "cwd_of me s1 = Ret cwd" "cwd < length (icache (kfs s1))"
    and "iref (icache (kfs s1) ! cwd) = 1" "ivalid (icache (kfs s1) ! cwd)" "nlink (icache (kfs s1) ! cwd) = 0"
    and "\<not> lbusy (fst (fstore (kfs s1)))"
  shows "exit_files me s = Panic"
proof -
  have g: "get_inode cwd (kfs s1) = Ret (icache (kfs s1) ! cwd)" using assms(3) by simp
  have "iput cwd (kfs s1) = Panic" unfolding iput_def g using assms(4-7) by (simp add: itrunc_idle)
  then show ?thesis using assms(1,2) by (simp add: exit_files_def run_fs_def)
qed

end
