(* ===== verification/Pinyin_Input.thy ===== *)
theory Pinyin_Input
  imports Widget_Spec Pinyin
begin

text \<open>
  The line of the pinyin input method (src/src/Gui.c): its text has two rows, the letters typed so far and the
  Chinese characters of the current page. The text that has the focus is an argument, None when there is none;
  a key returns -1 when the line does not take it.
\<close>

section \<open>The widget\<close>

definition ITEM_EVERY_PAGE :: int where "ITEM_EVERY_PAGE = 5"

record pinyin_input =
  pi_area :: area
  page :: int
  pi_on :: int
  pi_edit :: text_edit

text \<open>\<open>mem\<close> and \<open>m\<close> are what \<^verbatim>\<open>malloc\<close> returned for the widget and for its edit.\<close>

definition make_pinyinInput :: "pinyin_input \<Rightarrow> text_edit \<Rightarrow> pinyin_input option" where
  "make_pinyinInput mem m = do {
     let edit = (make_TextEdit m True)\<lparr>te_area := Area 0 0 200 32 0 0, te_text := LineEdit_set_str []\<rparr>;
     text \<leftarrow> new_line_to_editor (te_text edit);
     text \<leftarrow> move_to_pos text 0 0;
     Some (mem\<lparr>pi_area := Area 600 548 200 32 0 0, page := 0, pi_on := 0, pi_edit := edit\<lparr>te_text := text\<rparr>\<rparr>) }"

text \<open>Several bytes one after the other, as the loops over a string do it.\<close>

fun type_bytes :: "byte list \<Rightarrow> textframe \<Rightarrow> textframe option" where
  "type_bytes [] text = Some text"
| "type_bytes (c # cs) text = do { text \<leftarrow> putc_to_str text c; text \<leftarrow> move_to_next_char text; type_bytes cs text }"

definition show_han :: "pinyin \<Rightarrow> int \<Rightarrow> nat \<Rightarrow> textframe \<Rightarrow> textframe option" where
  "show_han p pg i text = do {
     l \<leftarrow> line_at text 0;
     (r, (c1, c2), count) \<leftarrow> get_pinyin_ith_han p l (pg * ITEM_EVERY_PAGE + int i);
     if r \<ge> 0 then do {
       text \<leftarrow> move_to_pos text 1 (-1);
       text \<leftarrow> type_bytes [of_nat (i + 1) + 48, 46, c1, c2] text;
       move_to_pos text 0 (-1) }
     else Some text }"

fun show_hans :: "pinyin \<Rightarrow> int \<Rightarrow> nat list \<Rightarrow> textframe \<Rightarrow> textframe option" where
  "show_hans p pg [] text = Some text"
| "show_hans p pg (i # is) text = do { text \<leftarrow> show_han p pg i text; show_hans p pg is text }"

definition pinyin_updateHanList :: "pinyin \<Rightarrow> pinyin_input \<Rightarrow> pinyin_input option" where
  "pinyin_updateHanList p w = do {
     edit \<leftarrow> on_text (\<lambda>text. do {
        text \<leftarrow> move_to_pos text 1 (-1);
        text \<leftarrow> clear_cur_line text;
        show_hans p (page w) [0..<nat ITEM_EVERY_PAGE] text }) (pi_edit w);
     Some (w\<lparr>pi_edit := edit\<rparr>) }"

definition is_az :: "int \<Rightarrow> bool" where
  "is_az c \<longleftrightarrow> 97 \<le> c \<and> c \<le> 122"

text \<open>The quotes after the letters that were used are skipped.\<close>

definition skip_quotes :: "cstring \<Rightarrow> cstring" where
  "skip_quotes s = dropWhile (\<lambda>c. c = 39) s"

text \<open>A letter, a quote or Backspace edits the line; comma and period turn the pages.\<close>

definition pinyin_edit_key :: "pinyin \<Rightarrow> pinyin_input \<Rightarrow> textframe option \<Rightarrow> int \<Rightarrow> pinyin_input option" where
  "pinyin_edit_key p w clipBoard c = do {
     w \<leftarrow> (if c = 44 then Some (if page w > 0 then w\<lparr>page := page w - 1\<rparr> else w)
           else if c = 46 then Some (w\<lparr>page := page w + 1\<rparr>)
           else do {
             edit \<leftarrow> on_text (\<lambda>t. move_to_pos t 0 (-1)) (pi_edit w);
             (edit, _) \<leftarrow> handle_keyboard_TextEdit edit clipBoard c;
             Some (w\<lparr>page := 0, pi_edit := edit\<rparr>) });
     pinyin_updateHanList p w }"

text \<open>What is inserted into the target, and how many letters it uses up; None is a character that does not exist.\<close>

definition pinyin_choice :: "pinyin \<Rightarrow> cstring \<Rightarrow> int \<Rightarrow> int \<Rightarrow> (cstring \<times> nat) option option" where
  "pinyin_choice p l pg c =
     (if c = ENTER then Some (Some (l, length l))
      else do {
        (r, (c1, c2), count) \<leftarrow> get_pinyin_ith_han p l (c - 48 - 1 + pg * ITEM_EVERY_PAGE);
        Some (if r = -1 then None else Some (cstr [c1, c2], count)) })"

definition pinyin_choose :: "pinyin \<Rightarrow> pinyin_input \<Rightarrow> textframe \<Rightarrow> int \<Rightarrow> (int \<times> pinyin_input \<times> textframe) option" where
  "pinyin_choose p w target c = do {
     l \<leftarrow> line_at (te_text (pi_edit w)) 0;
     choice \<leftarrow> pinyin_choice p l (page w) c;
     case choice of None \<Rightarrow> Some (-1, w, target)
     | Some (s, count) \<Rightarrow> do {
         target \<leftarrow> type_bytes s target;
         let text = LineEdit_set_str (skip_quotes (drop count l));
         text \<leftarrow> move_to_pos text 0 (-1);
         text \<leftarrow> new_line_to_editor text;
         text \<leftarrow> move_to_pos text 0 (-1);
         w \<leftarrow> pinyin_updateHanList p (w\<lparr>pi_edit := (pi_edit w)\<lparr>te_text := text\<rparr>\<rparr>);
         Some (0, w, target) } }"

definition handle_keyboard_pinyinInput ::
  "pinyin \<Rightarrow> pinyin_input \<Rightarrow> textframe option \<Rightarrow> textframe option \<Rightarrow> int \<Rightarrow> (int \<times> pinyin_input \<times> textframe option) option" where
  "handle_keyboard_pinyinInput p w clipBoard target c = do {
     l \<leftarrow> line_at (te_text (pi_edit w)) 0;
     if l = [] \<and> \<not> is_az c then Some (-1, w, target)
     else if is_az c \<or> c = BACKSPACE \<or> c = 44 \<or> c = 46 \<or> c = 39
     then do { w \<leftarrow> pinyin_edit_key p w clipBoard c; Some (0, w, target) }
     else case target of
       None \<Rightarrow> Some (-1, w, None)
     | Some t \<Rightarrow>
         if c = ENTER \<or> (49 \<le> c \<and> c \<le> 48 + ITEM_EVERY_PAGE)
         then do { (r, w, t) \<leftarrow> pinyin_choose p w t c; Some (r, w, Some t) }
         else Some (-1, w, Some t) }"

section \<open>Inserting bytes\<close>

text \<open>
  A byte put at the cursor stays in its row. The cursor moves behind it, and further when it would then stand inside of a
  pair of Chinese bytes.
\<close>

definition insert_at :: "textframe \<Rightarrow> cstring \<Rightarrow> cstring list" where
  "insert_at t s = (lines t)[nat (cursor_row t) :=
     take (nat (cursor_col t)) (cur_line t) @ s @ drop (nat (cursor_col t)) (cur_line t)]"

lemma put_byte:
  assumes "text_ok t" "ch \<noteq> 0"
  obtains t' where "putc_to_str t ch \<bind> move_to_next_char = Some t'" "frame_ok t'" "lines t' = insert_at t [ch]"
    "cursor_row t' = cursor_row t" "cursor_col t' = snap (insert_at t [ch] ! nat (cursor_row t)) (cursor_col t + 1) 1"
proof -
  have t: "wf_text t" "cursor_in t" using assms(1) by (auto simp: text_ok_def)
  note c = cursor_inD[OF t]
  let ?l = "take (nat (cursor_col t)) (cur_line t) @ ch # drop (nat (cursor_col t)) (cur_line t)"
  let ?u = "t\<lparr>data := (data t)[nat (cursor_row t) := Some ?l]\<rparr>"
  have no0: "0 \<notin> set ?l" using c(7) assms(2) by (auto dest: in_set_takeD in_set_dropD)
  have u: "wf_text ?u" "lines ?u = insert_at t [ch]"
    using wf_update_row[OF t(1) _ no0, of "nat (cursor_row t)"] c by (simp_all add: insert_at_def)
  have l: "insert_at t [ch] ! nat (cursor_row t) = ?l" using c by (simp add: insert_at_def)
  have "line_at ?u (cursor_row t) = Some ?l" using line_at_wf[OF u(1), of "cursor_row t"] u(2) l c by simp
  then have m: "move_to_next_char ?u = adjust_cursor (?u\<lparr>cursor_col := cursor_col t + 1\<rparr>) 0 1"
    using c by (simp add: move_to_next_char_def strlen_def)
  let ?t' = "?u\<lparr>cursor_row := cursor_row t, cursor_col := snap ?l (cursor_col t + 1) 1\<rparr>"
  have a: "adjust_cursor (?u\<lparr>cursor_col := cursor_col t + 1\<rparr>) 0 1 = Some ?t'"
    using adjust_cursor_wf[of "?u\<lparr>cursor_col := cursor_col t + 1\<rparr>" 1] u l c by (simp add: min_def)
  have "frame_ok ?t'"
    using adjust_moves_only[OF u(1), of "?u\<lparr>cursor_col := cursor_col t + 1\<rparr>" 1] u(1) c(1)
    unfolding a by (simp add: moves_only_def)
  with that[of ?t'] show ?thesis using putc_to_str_wf[OF t assms(2)] m a u(2) l by simp
qed

lemma type_bytes_ok:
  "text_ok t \<Longrightarrow> 0 \<notin> set s \<Longrightarrow> \<exists>t'. type_bytes s t = Some t' \<and> text_ok t' \<and> maxrow t' = maxrow t"
proof (induction s arbitrary: t)
  case (Cons ch s)
  then obtain u where u: "putc_to_str t ch \<bind> move_to_next_char = Some u" "frame_ok u" "lines u = insert_at t [ch]"
    using put_byte[of t ch] by auto
  have "text_ok u" using u(2) by (simp add: frame_ok_def text_ok_def)
  moreover have "length (lines u) = length (lines t)" using u(3) by (simp add: insert_at_def)
  then have "maxrow u = maxrow t"
    using wf_text_fields(5)[of u] wf_text_fields(5)[of t] u(2) Cons.prems(1) by (metis frame_ok_def text_ok_def)
  moreover obtain t' where "type_bytes s u = Some t'" "text_ok t'" "maxrow t' = maxrow u"
    using Cons.IH[OF \<open>text_ok u\<close>] Cons.prems(2) by auto
  ultimately show ?case using u(1) by (auto simp: bind_eq_Some_conv)
qed simp

text \<open>A place where text can be inserted: the end of the row, or in front of an ASCII character.\<close>

definition before_ascii :: "textframe \<Rightarrow> bool" where
  "before_ascii t \<longleftrightarrow> nat (cursor_col t) = length (cur_line t) \<or> cur_line t ! nat (cursor_col t) < 160"

lemma before_ascii_boundary:
  assumes "c \<le> length s" "c = length s \<or> s ! c < 160"
  shows "snap s (int c) d = int c"
proof -
  have "boundary s c" using assms boundary_length[of s] boundary_ascii[of c s] by (cases "c = length s") auto
  then show ?thesis using assms(1) by (intro snap_id) (simp_all add: strlen_def)
qed

lemma type_bytes_inserts:
  "text_ok t \<Longrightarrow> before_ascii t \<Longrightarrow> 0 \<notin> set s \<Longrightarrow>
   \<exists>t'. type_bytes s t = Some t' \<and> text_ok t' \<and> before_ascii t' \<and> lines t' = insert_at t s \<and>
     cursor_row t' = cursor_row t \<and> cursor_col t' = cursor_col t + int (length s)"
proof (induction s arbitrary: t)
  case Nil
  have "nat (cursor_row t) < length (lines t)" using Nil(1) cursor_inD(3) by (auto simp: text_ok_def)
  with Nil show ?case by (simp add: insert_at_def)
next
  case (Cons ch s)
  then obtain u where u: "putc_to_str t ch \<bind> move_to_next_char = Some u" "frame_ok u" "lines u = insert_at t [ch]"
    "cursor_row u = cursor_row t" "cursor_col u = snap (insert_at t [ch] ! nat (cursor_row t)) (cursor_col t + 1) 1"
    using put_byte[of t ch] by auto
  have t: "wf_text t" "cursor_in t" using Cons.prems(1) by (auto simp: text_ok_def)
  note c = cursor_inD[OF t]
  let ?c = "nat (cursor_col t)"
  have l: "cur_line u = take ?c (cur_line t) @ ch # drop ?c (cur_line t)" using u(3,4) c by (simp add: insert_at_def)
  have b: "Suc ?c = length (cur_line u) \<or> cur_line u ! Suc ?c < 160"
    using Cons.prems(2) c(6) unfolding before_ascii_def l by (auto simp: nth_append)
  have "cursor_col u = int (Suc ?c)"
    using before_ascii_boundary[OF _ b, of 1] u(3,4,5) c l by (simp add: add.commute)
  then have cu: "cursor_col u = cursor_col t + 1" "nat (cursor_col u) = Suc ?c" using c(4) by auto
  have "text_ok u" "before_ascii u" using u(2) b cu by (auto simp: frame_ok_def text_ok_def before_ascii_def)
  from Cons.IH[OF this] Cons.prems(3) obtain t' where t': "type_bytes s u = Some t'" "text_ok t'" "before_ascii t'" "lines t' = insert_at u s"
    "cursor_row t' = cursor_row u" "cursor_col t' = cursor_col u + int (length s)" by auto
  have "insert_at u s = insert_at t (ch # s)" using u(3,4) cu(2) c l by (simp add: insert_at_def)
  with t' u(1,4) cu(1) show ?case by (auto simp: bind_eq_Some_conv)
qed

text \<open>
  In front of a Chinese character it goes wrong: after the first byte the cursor seems to stand inside of a pair and moves on, so that
  the second byte ends up in the middle of the character behind.
\<close>

lemma han_before_han:
  "map_option lines (type_bytes [176, 161] (LineEdit_set_str [186, 186])) = Some [[176, 186, 161, 186]]"
  by code_simp

section \<open>The line as an abstract machine\<close>

text \<open>The dictionary holds C strings. A lookup then gives two bytes that are not NUL, and uses no more letters than there are.\<close>

definition hans_ok :: "pinyin \<Rightarrow> bool" where
  "hans_ok p \<longleftrightarrow> (\<forall>u h. hans p u = Some h \<longrightarrow> 0 \<notin> set h)"

definition han_at :: "pinyin \<Rightarrow> cstring \<Rightarrow> int \<Rightarrow> ((byte \<times> byte) \<times> nat) option" where
  "han_at p a i = (case get_pinyin_ith_han p a i of None \<Rightarrow> None | Some (r, h, n) \<Rightarrow> if r = 0 then Some (h, n) else None)"

lemma get_han_cases:
  assumes "hans_ok p" "0 \<le> i"
  obtains (none) h n where "get_pinyin_ith_han p a i = Some (-1, h, n)" "han_at p a i = None"
  | (han) c1 c2 n where "get_pinyin_ith_han p a i = Some (0, (c1, c2), n)" "han_at p a i = Some ((c1, c2), n)" "c1 \<noteq> 0" "c2 \<noteq> 0"
proof -
  obtain r u n where g: "getnode p a = (r, u, n)" by (cases "getnode p a")
  show ?thesis
  proof (cases "hans p u")
    case None
    with g show ?thesis by (intro none[of "(0, 0)" n]) (auto simp: get_pinyin_ith_han_def han_at_def)
  next
    case (Some h)
    show ?thesis
    proof (cases "r = -1 \<or> i * 2 + 1 \<ge> strlen h")
      case True
      with g Some show ?thesis by (intro none[of "(0, 0)" n]) (auto simp: get_pinyin_ith_han_def han_at_def)
    next
      case False
      then have i: "nat (i * 2) < length h" "nat (i * 2 + 1) < length h" using assms(2) by (auto simp: strlen_def)
      have "h ! k \<noteq> 0" if "k < length h" for k using assms(1) Some that by (metis hans_ok_def nth_mem)
      with False g Some i assms(2) show ?thesis
        by (intro han[of "h ! nat (i * 2)" "h ! nat (i * 2 + 1)" n]) (simp_all add: get_pinyin_ith_han_def han_at_def rd_def strlen_def Let_def)
    qed
  qed
qed

text \<open>The second row: the characters of the page, each with its number.\<close>

definition han_item :: "pinyin \<Rightarrow> cstring \<Rightarrow> int \<Rightarrow> nat \<Rightarrow> cstring" where
  "han_item p a pg i = (case han_at p a (pg * ITEM_EVERY_PAGE + int i) of None \<Rightarrow> []
     | Some ((c1, c2), n) \<Rightarrow> [of_nat (i + 1) + 48, 46, c1, c2])"

definition han_row :: "pinyin \<Rightarrow> cstring \<Rightarrow> int \<Rightarrow> cstring" where
  "han_row p a pg = concat (map (han_item p a pg) [0..<5])"

text \<open>
  The machine has the letters and the page. A key gives the value returned, the next state, and the bytes that the
  text with the focus receives.
\<close>

definition pinyin_step :: "pinyin \<Rightarrow> bool \<Rightarrow> int \<Rightarrow> cstring \<times> int \<Rightarrow> int \<times> (cstring \<times> int) \<times> cstring" where
  "pinyin_step p focus c = (\<lambda>(a, pg).
     if a = [] \<and> \<not> is_az c then (-1, (a, pg), [])
     else if is_az c \<or> c = 39 then (0, (a @ [word_of_int c], 0), [])
     else if c = BACKSPACE then (0, (butlast a, 0), [])
     else if c = 44 then (0, (a, max 0 (pg - 1)), [])
     else if c = 46 then (0, (a, pg + 1), [])
     else if focus \<and> c = ENTER then (0, ([], pg), a)
     else if focus \<and> 49 \<le> c \<and> c \<le> 53 then
       case han_at p a (c - 49 + pg * 5) of None \<Rightarrow> (-1, (a, pg), [])
       | Some ((c1, c2), n) \<Rightarrow> (0, (skip_quotes (drop n a), pg), [c1, c2])
     else (-1, (a, pg), []))"

definition line_char :: "byte \<Rightarrow> bool" where
  "line_char b \<longleftrightarrow> is_letter b \<or> b = 39"

definition pinyin_line :: "pinyin \<Rightarrow> pinyin_input \<Rightarrow> cstring \<times> int \<Rightarrow> bool" where
  "pinyin_line p w = (\<lambda>(a, pg). frame_ok (te_text (pi_edit w)) \<and> lines (te_text (pi_edit w)) = [a, han_row p a pg] \<and>
     point2_col (pi_edit w) = -1 \<and> page w = pg \<and> 0 \<le> pg \<and> list_all line_char a)"

text \<open>What a text is after bytes were inserted; in front of a Chinese character only that it is a proper text.\<close>

definition received :: "cstring \<Rightarrow> textframe \<Rightarrow> textframe \<Rightarrow> bool" where
  "received s t u \<longleftrightarrow> text_ok u \<and> (before_ascii t \<longrightarrow> lines u = insert_at t s \<and> cursor_row u = cursor_row t \<and>
     cursor_col u = cursor_col t + int (length s))"

section \<open>The widget implements the machine\<close>

lemma two_rows_at:
  assumes "frame_ok t" "lines t = [a, b]"
  shows "maxrow t = 2" "line_at t 0 = Some a" "line_at t 1 = Some b"
proof -
  have t: "wf_text t" using assms(1) by auto
  then show m: "maxrow t = 2" using wf_text_fields(5)[OF t] assms(2) by simp
  show "line_at t 0 = Some a" "line_at t 1 = Some b" using line_at_wf[OF t, of 0] line_at_wf[OF t, of 1] m assms(2) by simp_all
qed

lemma to_row_end:
  assumes t: "wf_text t" and "0 \<le> r" "r < maxrow t" "length (lines t ! nat r) \<le> 0x7fffffff"
  obtains t' where "move_to_pos t r (-1) = Some t'" "frame_ok t'" "lines t' = lines t" "data t' = data t"
    "cursor_row t' = r" "cursor_col t' = strlen (lines t ! nat r)" "before_ascii t'"
proof -
  have m: "move_to_pos t r (-1) = Some (t\<lparr>cursor_row := r, cursor_col := strlen (lines t ! nat r)\<rparr>)"
    using move_to_pos_end[OF t assms(2,3)] snap_end_of_line[of "lines t ! nat r" "0x7fffffff"] assms(4) by (simp add: strlen_def)
  have "moves_only t (move_to_pos t r (-1))" using move_to_pos_ok[OF t] assms(2) by simp
  with m that show ?thesis by (simp add: moves_only_def before_ascii_def strlen_def)
qed

lemma frame_text [simp]: "frame_ok t \<Longrightarrow> text_ok t"
  by (auto simp: frame_ok_def text_ok_def)

lemma item_number: "i < 5 \<Longrightarrow> (of_nat (i + 1) + 48 :: byte) \<noteq> 0"
proof -
  assume "i < 5"
  then have "i \<in> {0, 1, 2, 3, 4}" by auto
  then show ?thesis by auto
qed

lemma han_item_length: "length (han_item p a pg i) \<le> 4"
  by (simp add: han_item_def split: option.splits prod.splits)

lemma show_han_ok:
  assumes "frame_ok t" "lines t = [a, b]" "hans_ok p" "0 \<le> pg" "length a \<le> 0x7fffffff" "length b \<le> 0x7fffffff" "i < 5"
  shows "\<exists>t'. show_han p pg i t = Some t' \<and> frame_ok t' \<and> lines t' = [a, b @ han_item p a pg i]"
proof -
  note at = two_rows_at[OF assms(1,2)]
  have "0 \<le> pg * ITEM_EVERY_PAGE + int i" using assms(4) by (simp add: ITEM_EVERY_PAGE_def)
  from assms(3) this show ?thesis
  proof (cases rule: get_han_cases[of p _ a])
    case (none h n)
    then show ?thesis using at assms(1,2) by (cases h) (simp add: show_han_def han_item_def)
  next
    case (han c1 c2 n)
    let ?s = "[of_nat (i + 1) + 48, 46, c1, c2]"
    obtain t1 where t1: "move_to_pos t 1 (-1) = Some t1" "frame_ok t1" "lines t1 = [a, b]" "cursor_row t1 = 1" "cursor_col t1 = strlen b" "before_ascii t1"
      using to_row_end[of t 1] at assms(1,2,6) by auto
    obtain t2 where t2: "type_bytes ?s t1 = Some t2" "text_ok t2" "lines t2 = insert_at t1 ?s"
      using type_bytes_inserts[OF frame_text[OF t1(2)] t1(6), of ?s] han(3,4) item_number[OF assms(7)] by auto
    have l2: "lines t2 = [a, b @ ?s]" using t2(3) t1(3-5) by (simp add: insert_at_def strlen_def)
    have w2: "wf_text t2" using t2(2) by (simp add: text_ok_def)
    obtain t3 where "move_to_pos t2 0 (-1) = Some t3" "frame_ok t3" "lines t3 = lines t2"
      using to_row_end[OF w2, of 0] wf_text_fields(1)[OF w2] l2 assms(5) by auto
    then show ?thesis using at han(1,2) t1(1) t2(1) l2 by (simp add: show_han_def han_item_def del: type_bytes.simps)
  qed
qed

lemma show_hans_ok:
  "frame_ok t \<Longrightarrow> lines t = [a, b] \<Longrightarrow> hans_ok p \<Longrightarrow> 0 \<le> pg \<Longrightarrow> length a \<le> 0x7fffffff \<Longrightarrow> length b + 4 * length is \<le> 0x7fffffff \<Longrightarrow>
   set is \<subseteq> {..<5} \<Longrightarrow> \<exists>t'. show_hans p pg is t = Some t' \<and> frame_ok t' \<and> lines t' = [a, b @ concat (map (han_item p a pg) is)]"
proof (induction "is" arbitrary: t b)
  case (Cons i "is")
  then obtain t1 where t1: "show_han p pg i t = Some t1" "frame_ok t1" "lines t1 = [a, b @ han_item p a pg i]"
    using show_han_ok[of t a b p pg i] by auto
  have "length (b @ han_item p a pg i) + 4 * length is \<le> 0x7fffffff" using Cons.prems(6) han_item_length[of p a pg i] by simp
  from Cons.IH[OF t1(2,3) Cons.prems(3-5) this] Cons.prems(7) t1(1) show ?case by auto
qed simp

text \<open>Filling in the second row.\<close>

lemma updateHanList_ok:
  assumes "wf_text (te_text (pi_edit w))" "lines (te_text (pi_edit w)) = [a, b]" "hans_ok p" "0 \<le> page w" "length a \<le> 0x7fffffff" "length b \<le> 0x7fffffff"
  shows "\<exists>t. pinyin_updateHanList p w = Some (w\<lparr>pi_edit := (pi_edit w)\<lparr>te_text := t\<rparr>\<rparr>) \<and> frame_ok t \<and> lines t = [a, han_row p a (page w)]"
proof -
  let ?t = "te_text (pi_edit w)"
  have m: "maxrow ?t = 2" using wf_text_fields(5)[OF assms(1)] assms(2) by simp
  obtain t1 where t1: "move_to_pos ?t 1 (-1) = Some t1" "frame_ok t1" "lines t1 = [a, b]" "cursor_row t1 = 1"
    using to_row_end[OF assms(1), of 1] m assms(2,6) by auto
  have w1: "wf_text t1" "maxrow t1 = 2" using t1(2) two_rows_at(1)[OF t1(2,3)] by auto
  let ?t2 = "t1\<lparr>data := (data t1)[1 := Some []], cursor_col := 0\<rparr>"
  have c: "clear_cur_line t1 = Some ?t2" using t1(4) w1 by (simp add: clear_cur_line_def set_line_wf)
  have l2: "wf_text ?t2" "lines ?t2 = [a, []]" using wf_update_row[OF w1(1), of 1 "[]"] w1(2) t1(3) by simp_all
  then have "frame_ok ?t2" using t1(4) w1(2) by (simp add: frame_ok_def cursor_ok_def cursor_in_def)
  then obtain t3 where "show_hans p (page w) [0..<5] ?t2 = Some t3" "frame_ok t3" "lines t3 = [a, han_row p a (page w)]"
    using show_hans_ok[OF _ l2(2) assms(3,4,5), of "[0..<5]"] by (auto simp: han_row_def lessThan_atLeast0)
  with t1(1) c show ?thesis by (intro exI[of _ t3]) (simp add: pinyin_updateHanList_def on_text_def ITEM_EVERY_PAGE_def)
qed

text \<open>The keys that edit the line.\<close>

lemma line_type:
  assumes "frame_ok t" "lines t = [a, b]" "cursor_row t = 0" "cursor_col t = strlen a" "ch \<noteq> 0" "ch < 160"
  shows "frame_ok (typed t ch)" "lines (typed t ch) = [a @ [ch], b]"
  using typed_ok(1,4)[OF assms(1,5,6)] assms(2-4) by (simp_all add: strlen_def)

lemma line_erase:
  assumes "frame_ok t" "lines t = [a @ [ch], b]" "cursor_row t = 0" "cursor_col t = strlen (a @ [ch])"
    "list_all (\<lambda>c. c < 160) (a @ [ch])"
  obtains u where "frame_ok u" "lines u = [a, b]" "t = typed u ch" "ch \<noteq> 0" "ch < 160"
proof -
  have t: "wf_text t" using assms(1) by auto
  note at = two_rows_at[OF assms(1,2)]
  have z: "0 \<notin> set (a @ [ch])" using lines_no0[OF t, of "a @ [ch]"] assms(2) by simp
  let ?u = "t\<lparr>data := (data t)[0 := Some a], cursor_col := strlen a\<rparr>"
  have l: "wf_text ?u" "lines ?u = [a, b]" using wf_update_row[OF t, of 0 a] z at(1) assms(2) by simp_all
  have "frame_ok ?u"
    using l assms(3) at(1) boundary_length[of a] by (simp add: frame_ok_def cursor_ok_def cursor_in_def strlen_def)
  moreover have "(data t)[0 := Some (a @ [ch])] = data t"
    using data_line[OF t, of 0] at(1) assms(2) by (metis list_update_id nth_Cons_0 nat_numeral zero_less_numeral)
  then have "t = typed ?u ch" using l(2) assms(3,4) by (simp add: typed_def strlen_def)
  ultimately show ?thesis using that[of ?u] l(2) z assms(5) by auto
qed

lemma line_char_ascii: "list_all line_char a \<Longrightarrow> list_all (\<lambda>c. c < 160) a"
  by (auto simp: list_all_iff line_char_def is_letter_def word_le_def word_less_def)

lemma line_char_key: "is_az c \<or> c = 39 \<Longrightarrow> line_char (word_of_int c) \<and> 32 \<le> c \<and> c \<le> 126"
  by (auto simp: line_char_def is_letter_def is_az_def word_le_def uint_word_of_int)

lemma pinyin_lineD:
  assumes "pinyin_line p w (a, pg)"
  shows "frame_ok (te_text (pi_edit w))" "lines (te_text (pi_edit w)) = [a, han_row p a pg]" "point2_col (pi_edit w) = -1"
    "page w = pg" "0 \<le> pg" "list_all line_char a"
  using assms by (simp_all add: pinyin_line_def)

lemma han_row_length: "length (han_row p a pg) \<le> 20"
proof -
  have "length (han_row p a pg) = (\<Sum>i \<leftarrow> [0..<5]. length (han_item p a pg i))" by (simp add: han_row_def length_concat comp_def)
  also have "\<dots> \<le> (\<Sum>i \<leftarrow> [0..<5::nat]. 4)" by (rule sum_list_mono) (rule han_item_length)
  finally show ?thesis by (simp add: sum_list_triv)
qed

lemma refill:
  assumes "wf_text t" "lines t = [a, b]" "hans_ok p" "0 \<le> pg" "length a \<le> 0x7fffffff" "length b \<le> 0x7fffffff" "list_all line_char a"
    "te_text (pi_edit w) = t" "page w = pg" "point2_col (pi_edit w) = -1"
  shows "\<exists>w'. pinyin_updateHanList p w = Some w' \<and> pinyin_line p w' (a, pg)"
  using updateHanList_ok[of w a b p] assms by (auto simp: pinyin_line_def)

lemma edit_line_ok:
  assumes w: "pinyin_line p w (a, pg)" and "hans_ok p" "length a < 0x7fffffff" "is_az c \<or> c = 39 \<or> c = BACKSPACE \<and> a \<noteq> []"
  shows "\<exists>w'. pinyin_edit_key p w clip c = Some w' \<and>
    pinyin_line p w' (if c = BACKSPACE then butlast a else a @ [word_of_int c], 0)"
proof -
  let ?a = "if c = BACKSPACE then butlast a else a @ [word_of_int c]"
  note l = pinyin_lineD[OF w]
  obtain t where t: "move_to_pos (te_text (pi_edit w)) 0 (-1) = Some t" "frame_ok t" "lines t = [a, han_row p a pg]"
    "cursor_row t = 0" "cursor_col t = strlen a"
    using to_row_end[of "te_text (pi_edit w)" 0] l(1,2) two_rows_at(1)[OF l(1,2)] assms(3) by auto
  let ?e = "(pi_edit w)\<lparr>te_text := t\<rparr>"
  have "\<exists>u e. handle_keyboard_TextEdit ?e clip c = Some (e, clip) \<and> te_text e = u \<and> point2_col e = -1 \<and> frame_ok u \<and> lines u = [?a, han_row p a pg]"
  proof (cases "c = BACKSPACE")
    case True
    then obtain a' ch where a: "a = a' @ [ch]" using assms(4) by (cases a rule: rev_cases) (auto simp: keys is_az_def)
    obtain u where u: "frame_ok u" "lines u = [a', han_row p a pg]" "t = typed u ch" "ch \<noteq> 0" "ch < 160"
      using line_erase[OF t(2)] t(3-5) line_char_ascii[OF l(6)] a by metis
    obtain v where "move_to_previous_char t = Some v" "backspace_to_str v = Some u"
      using erase_typed[OF u(1,4,5)] u(3) by (auto simp: bind_eq_Some_conv)
    then have "key_left_backspace ?e BACKSPACE = Some (no_selection (?e\<lparr>te_text := u\<rparr>))"
      using l(3) t(5) a by (simp add: key_left_backspace_def on_text_def keys strlen_def)
    with True u(1,2) a show ?thesis by (simp add: handle_keyboard_TextEdit_def keys no_selection_def)
  next
    case False
    then have c: "32 \<le> c" "c \<le> 126" using assms(4) line_char_key[of c] by auto
    then show ?thesis
      using key_char_typed[of ?e c clip] line_type[OF t(2-5)] printable_byte[OF c] False t(2) l(3) by simp
  qed
  then obtain u e where u: "handle_keyboard_TextEdit ?e clip c = Some (e, clip)" "te_text e = u" "point2_col e = -1" "frame_ok u" "lines u = [?a, han_row p a pg]"
    by blast
  have "list_all line_char ?a" using l(6) assms(4) line_char_key[of c] by (auto simp: list_all_iff dest: in_set_butlastD)
  then have "\<exists>w'. pinyin_updateHanList p (w\<lparr>page := 0, pi_edit := e\<rparr>) = Some w' \<and> pinyin_line p w' (?a, 0)"
    using u(2-5) assms(2,3) han_row_length[of p a pg] by (intro refill[of u]) auto
  moreover have "c \<noteq> 44" "c \<noteq> 46" using assms(4) by (auto simp: keys is_az_def)
  ultimately show ?thesis using t(1) u(1) by (simp add: pinyin_edit_key_def on_text_def)
qed

lemma turn_page_ok:
  assumes w: "pinyin_line p w (a, pg)" and "hans_ok p" "length a < 0x7fffffff" "c = 44 \<or> c = 46"
  shows "\<exists>w'. pinyin_edit_key p w clip c = Some w' \<and> pinyin_line p w' (a, if c = 44 then max 0 (pg - 1) else pg + 1)"
proof -
  note l = pinyin_lineD[OF w]
  let ?pg = "if c = 44 then max 0 (pg - 1) else pg + 1"
  have "\<exists>w'. pinyin_updateHanList p (w\<lparr>page := ?pg\<rparr>) = Some w' \<and> pinyin_line p w' (a, ?pg)"
    using l assms(2,3) han_row_length[of p a pg] by (intro refill[of "te_text (pi_edit w)" a "han_row p a pg"]) auto
  moreover have "pinyin_edit_key p w clip c = pinyin_updateHanList p (w\<lparr>page := ?pg\<rparr>)"
  proof (cases "pg = 0 \<and> c = 44")
    case True
    then have e: "w\<lparr>page := 0\<rparr> = w" and "?pg = 0" using l(4) by (cases w; simp)+
    from True l(4) have "pinyin_edit_key p w clip c = pinyin_updateHanList p w" by (simp add: pinyin_edit_key_def)
    then show ?thesis unfolding \<open>?pg = 0\<close> e .
  next
    case False
    with l(4,5) assms(4) show ?thesis by (auto simp: pinyin_edit_key_def)
  qed
  ultimately show ?thesis by simp
qed

text \<open>Choosing a character.\<close>

lemma reset_line:
  assumes "0 \<notin> set s" "length s \<le> 0x7fffffff"
  shows "\<exists>t. (do { text \<leftarrow> move_to_pos (LineEdit_set_str s) 0 (-1); text \<leftarrow> new_line_to_editor text; move_to_pos text 0 (-1) }) = Some t \<and>
    frame_ok t \<and> lines t = [s, []]"
proof -
  have w: "wf_text (LineEdit_set_str s)" "lines (LineEdit_set_str s) = [s]"
    using wf_rowsI[of "LineEdit_set_str s" "[s]" "[]"] assms(1) by (simp_all add: LineEdit_set_str_def)
  have m: "maxrow (LineEdit_set_str s) = 1" by (simp add: LineEdit_set_str_def)
  obtain t1 where t1: "move_to_pos (LineEdit_set_str s) 0 (-1) = Some t1" "frame_ok t1" "lines t1 = [s]" "cursor_row t1 = 0" "cursor_col t1 = strlen s"
    using to_row_end[OF w(1), of 0] m w(2) assms(2) by auto
  have f: "wf_text t1" "cursor_ok t1" using t1(2) by auto
  obtain t2 where t2: "new_line_to_editor t1 = Some t2" "wf_text t2" "lines t2 = [s, []]"
    using new_line_to_editor_wf[OF f] t1(3-5) by (auto simp: strlen_def)
  obtain t3 where "move_to_pos t2 0 (-1) = Some t3" "frame_ok t3" "lines t3 = lines t2"
    using to_row_end[OF t2(2), of 0] wf_text_fields(1)[OF t2(2)] t2(3) assms(2) by auto
  with t1(1) t2 show ?thesis by simp
qed

lemma received_bytes:
  assumes "text_ok t" "0 \<notin> set s"
  shows "\<exists>u. type_bytes s t = Some u \<and> received s t u"
proof (cases "before_ascii t")
  case True
  then show ?thesis using type_bytes_inserts[OF assms(1) _ assms(2)] by (auto simp: received_def)
next
  case False
  then show ?thesis using type_bytes_ok[OF assms] by (auto simp: received_def)
qed

lemma received_nothing: "text_ok t \<Longrightarrow> received [] t t"
  using cursor_inD(3)[of t] by (simp add: received_def insert_at_def text_ok_def)

lemma choose_ok:
  assumes w: "pinyin_line p w (a, pg)" and "hans_ok p" "length a < 0x7fffffff" "text_ok t"
    "pinyin_choice p a pg c = Some (Some (s, n))" "0 \<notin> set s"
  shows "\<exists>w' u. pinyin_choose p w t c = Some (0, w', u) \<and> pinyin_line p w' (skip_quotes (drop n a), pg) \<and> received s t u"
proof -
  note l = pinyin_lineD[OF w]
  let ?a = "skip_quotes (drop n a)"
  have sub: "set ?a \<subseteq> set a" using set_dropWhileD[of _ "\<lambda>c. c = 39" "drop n a"] in_set_dropD[of _ n a] by (auto simp: skip_quotes_def)
  have len: "length ?a \<le> length a" using length_dropWhile_le[of "\<lambda>c. c = 39" "drop n a"] by (simp add: skip_quotes_def)
  have "list_all line_char ?a" using sub l(6) by (auto simp: list_all_iff)
  moreover have "0 \<notin> set a" using lines_no0[of "te_text (pi_edit w)" a] l(1,2) by auto
  then have "0 \<notin> set ?a" using sub by blast
  then obtain x where x: "(do { text \<leftarrow> move_to_pos (LineEdit_set_str ?a) 0 (-1); text \<leftarrow> new_line_to_editor text; move_to_pos text 0 (-1) }) = Some x"
    "frame_ok x" "lines x = [?a, []]" using reset_line[of ?a] len assms(3) by auto
  ultimately obtain w' where w': "pinyin_updateHanList p (w\<lparr>pi_edit := (pi_edit w)\<lparr>te_text := x\<rparr>\<rparr>) = Some w'" "pinyin_line p w' (?a, pg)"
    using refill[of x ?a "[]" p pg "w\<lparr>pi_edit := (pi_edit w)\<lparr>te_text := x\<rparr>\<rparr>"] l(3-5) assms(2,3) len by auto
  obtain u where "type_bytes s t = Some u" "received s t u" using received_bytes[OF assms(4,6)] by blast
  then show ?thesis
    using two_rows_at(2)[OF l(1,2)] l(4) assms(5) x(1) w' by (auto simp: pinyin_choose_def bind_eq_Some_conv)
qed

lemma choice_key_ok:
  assumes w: "pinyin_line p w (a, pg)" and "hans_ok p" "length a < 0x7fffffff" "text_ok t" "c = ENTER \<or> 49 \<le> c \<and> c \<le> 53" "a \<noteq> []"
    and step: "pinyin_step p True c (a, pg) = (r, st, s)"
  shows "\<exists>w' u. pinyin_choose p w t c = Some (r, w', u) \<and> pinyin_line p w' st \<and> received s t u"
proof (cases "c = ENTER")
  case True
  have "0 \<notin> set a" using lines_no0[of "te_text (pi_edit w)" a] pinyin_lineD(1,2)[OF w] by auto
  moreover have "r = 0" "st = ([], pg)" "s = a" using step True assms(6) by (auto simp: pinyin_step_def is_az_def keys)
  ultimately show ?thesis using choose_ok[OF assms(1-4), of c a "length a"] True by (simp add: pinyin_choice_def skip_quotes_def)
next
  case False
  note l = pinyin_lineD[OF w]
  have c: "49 \<le> c" "c \<le> 53" using False assms(5) by auto
  let ?i = "c - 49 + pg * 5"
  have i: "c - 48 - 1 + pg * ITEM_EVERY_PAGE = ?i" "0 \<le> ?i" using c(1) l(5) by (auto simp: ITEM_EVERY_PAGE_def)
  have st: "(r, st, s) = (case han_at p a ?i of None \<Rightarrow> (-1, (a, pg), [])
      | Some ((c1, c2), n) \<Rightarrow> (0, (skip_quotes (drop n a), pg), [c1, c2]))"
    using step c assms(6) by (simp add: pinyin_step_def is_az_def keys)
  from assms(2) i(2) show ?thesis
  proof (cases rule: get_han_cases[of p _ a])
    case (none h n)
    then have "pinyin_choice p a pg c = Some None" using False by (cases h) (simp add: pinyin_choice_def ITEM_EVERY_PAGE_def)
    then show ?thesis
      using st none(2) w received_nothing[OF assms(4)] two_rows_at(2)[OF l(1,2)] l(4) by (simp add: pinyin_choose_def)
  next
    case (han c1 c2 n)
    then have "pinyin_choice p a pg c = Some (Some ([c1, c2], n))" using False by (simp add: pinyin_choice_def ITEM_EVERY_PAGE_def cstr_def)
    from choose_ok[OF assms(1-4) this] st han show ?thesis by simp
  qed
qed

definition new_pinyin_input :: pinyin_input where
  "new_pinyin_input = \<lparr>pi_area = Area 0 0 0 0 0 0, page = 0, pi_on = 0, pi_edit = new_edit\<rparr>"

lemma no_hans: "han_row p [] pg = []"
  by (simp add: han_row_def han_item_def han_at_def get_pinyin_ith_han_def getnode_def)

lemma make_pinyinInput_ok: "\<exists>w. make_pinyinInput mem m = Some w \<and> pinyin_line p w ([], 0)"
proof -
  have w: "wf_text (LineEdit_set_str [])" "cursor_ok (LineEdit_set_str [])" by code_simp+
  have l: "lines (LineEdit_set_str []) = [[]]" "cursor_row (LineEdit_set_str []) = 0" "cursor_col (LineEdit_set_str []) = 0" by code_simp+
  obtain t where t: "new_line_to_editor (LineEdit_set_str []) = Some t" "wf_text t" "lines t = [[], []]"
    by (rule new_line_to_editor_wf[OF w]) (simp add: l)
  have "moves_only t (move_to_pos t 0 0)" using move_to_pos_ok[OF t(2), of 0 0] by simp
  then obtain u where "move_to_pos t 0 0 = Some u" "frame_ok u" "lines u = [[], []]"
    using t(3) by (metis moves_onlyE)
  with t show ?thesis by (simp add: make_pinyinInput_def make_TextEdit_def pinyin_line_def no_hans)
qed

section \<open>From the letters to the character\<close>

fun pinyin_keys :: "pinyin \<Rightarrow> pinyin_input \<Rightarrow> textframe option \<Rightarrow> int list \<Rightarrow> (pinyin_input \<times> textframe option) option" where
  "pinyin_keys p w target [] = Some (w, target)"
| "pinyin_keys p w target (c # cs) = do {
     (r, w, target) \<leftarrow> handle_keyboard_pinyinInput p w None target c; pinyin_keys p w target cs }"

lemma pinyin_keys_append:
  "pinyin_keys p w target (xs @ ys) = do { (w, target) \<leftarrow> pinyin_keys p w target xs; pinyin_keys p w target ys }"
  by (induction xs arbitrary: w target) (auto split: prod.splits Option.bind_splits)

lemma is_az_letter: "is_letter b \<Longrightarrow> is_az (uint b) \<and> word_of_int (uint b) = b"
  by (simp add: is_letter_def is_az_def word_le_def)

lemma type_letters:
  "pinyin_line p w (a, pg) \<Longrightarrow> hans_ok p \<Longrightarrow> length a + length py \<le> 0x7fffffff \<Longrightarrow> list_all is_letter py \<Longrightarrow> py \<noteq> [] \<Longrightarrow>
   \<exists>w'. pinyin_keys p w target (map uint py) = Some (w', target) \<and> pinyin_line p w' (a @ py, 0)"
proof (induction py arbitrary: w a pg)
  case (Cons b py)
  have b: "is_az (uint b)" "word_of_int (uint b) = b" using Cons.prems(4) is_az_letter[of b] by auto
  have "uint b \<noteq> BACKSPACE" using b(1) by (auto simp: is_az_def keys)
  with edit_line_ok[OF Cons.prems(1,2) _ disjI1[OF b(1)], of None] Cons.prems(3) b(2)
  obtain w1 where w1: "pinyin_edit_key p w None (uint b) = Some w1" "pinyin_line p w1 (a @ [b], 0)" by auto
  note l = pinyin_lineD[OF Cons.prems(1)]
  have h: "handle_keyboard_pinyinInput p w None target (uint b) = Some (0, w1, target)"
    using w1(1) b(1) two_rows_at(2)[OF l(1,2)] by (simp add: handle_keyboard_pinyinInput_def)
  show ?case
  proof (cases "py = []")
    case True
    with h w1(2) show ?thesis by simp
  next
    case False
    with Cons.IH[OF w1(2) Cons.prems(2)] Cons.prems(3,4) h show ?thesis by simp
  qed
qed simp

lemma turn_pages:
  "pinyin_line p w (a, pg) \<Longrightarrow> hans_ok p \<Longrightarrow> length a < 0x7fffffff \<Longrightarrow> a \<noteq> [] \<Longrightarrow>
   \<exists>w'. pinyin_keys p w target (replicate n 46) = Some (w', target) \<and> pinyin_line p w' (a, pg + int n)"
proof (induction n arbitrary: w pg)
  case (Suc n)
  obtain w1 where w1: "pinyin_edit_key p w None 46 = Some w1" "pinyin_line p w1 (a, pg + 1)"
    using turn_page_ok[OF Suc.prems(1-3), of 46 None] by auto
  note l = pinyin_lineD[OF Suc.prems(1)]
  have "handle_keyboard_pinyinInput p w None target 46 = Some (0, w1, target)"
    using w1(1) two_rows_at(2)[OF l(1,2)] Suc.prems(4) by (simp add: handle_keyboard_pinyinInput_def)
  with Suc.IH[OF w1(2) Suc.prems(2-4)] show ?case by (simp add: add.assoc)
qed simp

lemma hans_ok_table:
  "put_all handle_pinyin_hans p (map loaded tbl) = Some p' \<Longrightarrow> hans_ok p \<Longrightarrow> hans_ok p'"
proof (induction tbl arbitrary: p)
  case (Cons kv tbl)
  then obtain p1 where p1: "handle_pinyin_hans p (fst kv) (kept (snd kv)) = Some p1" "put_all handle_pinyin_hans p1 (map loaded tbl) = Some p'"
    by (cases "loaded kv") (auto simp: loaded_def[of kv] bind_eq_Some_conv)
  have "0 \<notin> set (kept (snd kv))" using kept_bytes(1)[of "snd kv"] by (auto simp: list_all_iff word_le_def)
  then have "hans_ok p1" using p1(1) Cons.prems(2) by (auto simp: hans_ok_def handle_pinyin_hans_def bind_eq_Some_conv split: if_splits)
  with Cons p1(2) show ?case by simp
qed simp

lemma hans_ok_init: "list_all entry_ok tbl \<Longrightarrow> pinyin_init (concat (map render tbl)) = Some p \<Longrightarrow> hans_ok p"
  using hans_ok_table[of empty_pinyin tbl p] pinyin_init_table[of tbl] by (simp add: hans_ok_def empty_pinyin_def)

section \<open>What the line guarantees\<close>

text \<open>
  C11: the pinyin line implements its machine. For every key, the handler makes no access out of bounds, returns what the machine returns,
  and leaves the line with the letters and the page of the machine and with the characters of that page in its second row; the
  text with the focus receives the bytes of the machine at its cursor (exactly so at the end of a row or in front of an ASCII character).
\<close>

theorem pinyin_line_refines:
  assumes "pinyin_line p w (a, pg)" "hans_ok p" "length a < 0x7fffffff" "pred_option text_ok target"
    and step: "pinyin_step p (target \<noteq> None) c (a, pg) = (r, st, s)"
  shows "\<exists>w' target'. handle_keyboard_pinyinInput p w clip target c = Some (r, w', target') \<and>
    pinyin_line p w' st \<and> rel_option (received s) target target'"
proof -
  note l = pinyin_lineD[OF assms(1)]
  have at: "line_at (te_text (pi_edit w)) 0 = Some a" by (rule two_rows_at(2)[OF l(1,2)])
  have same: "rel_option (received []) target target"
    using assms(4) by (cases target) (simp_all add: received_nothing)
  consider (ignored) "a = [] \<and> \<not> is_az c" | (edit) "is_az c \<or> c = 39 \<or> c = BACKSPACE \<and> a \<noteq> []" "a \<noteq> [] \<or> is_az c"
    | (turn) "c = 44 \<or> c = 46" "a \<noteq> []" | (other) "a \<noteq> []" "\<not> is_az c" "c \<noteq> 39" "c \<noteq> BACKSPACE" "c \<noteq> 44" "c \<noteq> 46"
    by blast
  then show ?thesis
  proof cases
    case ignored
    with at assms(1) step same show ?thesis by (auto simp: handle_keyboard_pinyinInput_def pinyin_step_def)
  next
    case edit
    then show ?thesis
      using edit_line_ok[OF assms(1-3) edit(1), of clip] at step same
      by (auto simp: handle_keyboard_pinyinInput_def pinyin_step_def is_az_def keys split: if_splits)
  next
    case turn
    then show ?thesis
      using turn_page_ok[OF assms(1-3) turn(1), of clip] at step same
      by (auto simp: handle_keyboard_pinyinInput_def pinyin_step_def is_az_def keys split: if_splits)
  next
    case other
    show ?thesis
    proof (cases "target \<noteq> None \<and> (c = ENTER \<or> 49 \<le> c \<and> c \<le> 53)")
      case True
      then obtain t where t: "target = Some t" "text_ok t" using assms(4) by auto
      with True choice_key_ok[OF assms(1-3) t(2) _ other(1), of c r st s] step obtain w' u where
        "pinyin_choose p w t c = Some (r, w', u)" "pinyin_line p w' st" "received s t u" by auto
      with True t(1) at other show ?thesis by (auto simp: handle_keyboard_pinyinInput_def ITEM_EVERY_PAGE_def)
    next
      case False
      then have "r = -1" "st = (a, pg)" "s = []" using step other by (auto simp: pinyin_step_def)
      moreover have "handle_keyboard_pinyinInput p w clip target c = Some (-1, w, target)"
        using False at other by (auto simp: handle_keyboard_pinyinInput_def ITEM_EVERY_PAGE_def split: option.splits)
      ultimately show ?thesis using assms(1) same by simp
    qed
  qed
qed

lemma first_lines_load:
  obtains p where "pinyin_init (concat (map render first_lines)) = Some p" "hans_ok p"
proof -
  have "list_all entry_ok first_lines" "distinct (map fst first_lines)" "sum_list (map (length \<circ> fst) first_lines) < MAXNODE" by code_simp+
  then show ?thesis using that pinyin_init_lookup[of first_lines] hans_ok_init[of first_lines] by blast
qed

theorem pinyin_line_refines_witness:
  "\<exists>p w w' t. pinyin_init (concat (map render first_lines)) = Some p \<and> make_pinyinInput new_pinyin_input new_edit = Some w \<and>
     handle_keyboard_pinyinInput p w None (Some (LineEdit_set_str [])) 97 = Some (0, w', t) \<and> pinyin_line p w' ([97], 0)"
proof -
  obtain p where p: "pinyin_init (concat (map render first_lines)) = Some p" "hans_ok p" by (rule first_lines_load)
  obtain w where w: "make_pinyinInput new_pinyin_input new_edit = Some w" "pinyin_line p w ([], 0)"
    using make_pinyinInput_ok by blast
  have "text_ok (LineEdit_set_str [])" by code_simp
  then have t: "pred_option text_ok (Some (LineEdit_set_str []))" by simp
  have "pinyin_step p (Some (LineEdit_set_str []) \<noteq> None) 97 ([], 0) = (0, ([97], 0), [])" by (simp add: pinyin_step_def is_az_def)
  from pinyin_line_refines[OF w(2) p(2) _ t this, of None] p(1) w(1) show ?thesis by auto
qed

text \<open>
  C12: After loading a file of distinct syllables with their GBK characters, every character that the loader keeps can be typed: the letters
  of its syllable, a period for every page of five characters before it, and its number on its page, typed into a new
  pinyin line, insert exactly its two bytes into the text with the focus, at the cursor, and leave the line empty. The cursor
  is at the end of a row or in front of an ASCII character.
\<close>

theorem pinyin_types_han:
  assumes "list_all entry_ok tbl" "distinct (map fst tbl)" "sum_list (map (length \<circ> fst) tbl) < MAXNODE"
    "(py, h) \<in> set tbl" "2 * k + 1 < length (kept h)" "text_ok t" "before_ascii t"
  shows "\<exists>p w w' t'. pinyin_init (concat (map render tbl)) = Some p \<and> make_pinyinInput mem m = Some w \<and>
    pinyin_keys p w (Some t) (map uint py @ replicate (k div 5) 46 @ [49 + int (k mod 5)]) = Some (w', Some t') \<and>
    lines t' = insert_at t [h ! (2 * k), h ! (2 * k + 1)] \<and> lines (te_text (pi_edit w')) = [[], []]"
proof -
  have e: "entry_ok (py, h)" using assms(1,4) by (auto simp: list_all_iff)
  then have py: "syllable py" "length py < 100" "gbk_pairs h" by (auto simp: entry_ok_def)
  have k: "k mod 5 \<le> 4" by presburger
  let ?c = "49 + int (k mod 5)" and ?pg = "int (k div 5)" and ?s = "[h ! (2 * k), h ! (2 * k + 1)]"
  obtain p where p: "pinyin_init (concat (map render tbl)) = Some p" "pinyin_ok p"
    "\<forall>py. syllable py \<longrightarrow> lookup p py = map_option kept (map_of tbl py)"
    using pinyin_init_lookup[OF assms(1-3)] by blast
  note ok = hans_ok_init[OF assms(1) p(1)]
  obtain w where w: "make_pinyinInput mem m = Some w" "pinyin_line p w ([], 0)" using make_pinyinInput_ok by blast
  obtain w0 where w0: "pinyin_keys p w (Some t) (map uint py) = Some (w0, Some t)" "pinyin_line p w0 (py, 0)"
    using type_letters[OF w(2) ok, of py "Some t"] py by (auto simp: syllable_def)
  obtain w1 where w1: "pinyin_keys p w0 (Some t) (replicate (k div 5) 46) = Some (w1, Some t)" "pinyin_line p w1 (py, ?pg)"
    using turn_pages[OF w0(2) ok, of "Some t" "k div 5"] py by (auto simp: syllable_def)
  have "han_at p py (int k) = Some ((kept h ! (2 * k), kept h ! (2 * k + 1)), length py)"
    using get_pinyin_ith_han_lookup[OF p(2) py(1), of "kept h" "int k"] p(3) py(1) assms(2,4,5)
    by (simp add: han_at_def strlen_def nat_add_distrib nat_mult_distrib)
  moreover have "kept h ! (2 * k) = h ! (2 * k)" "kept h ! (2 * k + 1) = h ! (2 * k + 1)"
    using kept_prefix[OF py(3)] assms(5) by (metis nth_append add_lessD1)+
  moreover have "?c - 49 + ?pg * 5 = int k" by (simp add: zmod_int zdiv_int)
  ultimately have "pinyin_step p True ?c (py, ?pg) = (0, ([], ?pg), ?s)"
    using py(1) by (simp add: pinyin_step_def is_az_def keys syllable_def skip_quotes_def)
  from choice_key_ok[OF w1(2) ok _ assms(6) _ _ this] obtain w' u where c: "pinyin_choose p w1 t ?c = Some (0, w', u)"
    "pinyin_line p w' ([], ?pg)" "received ?s t u" using py k by (auto simp: syllable_def)
  have "handle_keyboard_pinyinInput p w1 None (Some t) ?c = Some (0, w', Some u)"
    using c(1) two_rows_at(2)[OF pinyin_lineD(1,2)[OF w1(2)]] py(1)
    by (auto simp: handle_keyboard_pinyinInput_def is_az_def keys ITEM_EVERY_PAGE_def syllable_def)
  then have "pinyin_keys p w (Some t) (map uint py @ replicate (k div 5) 46 @ [?c]) = Some (w', Some u)"
    using w0(1) w1(1) by (simp add: pinyin_keys_append)
  moreover have "lines (te_text (pi_edit w')) = [[], []]" using pinyin_lineD(2)[OF c(2)] by (simp add: no_hans)
  ultimately show ?thesis using p(1) w(1) c(3) assms(7) by (auto simp: received_def)
qed

theorem pinyin_types_han_witness:
  "\<exists>p w w' t'. pinyin_init (concat (map render first_lines)) = Some p \<and> make_pinyinInput new_pinyin_input new_edit = Some w \<and>
    pinyin_keys p w (Some (LineEdit_set_str [])) [97, 46, 50] = Some (w', Some t') \<and>
    lines t' = [[0xEF, 0xB9]] \<and> lines (te_text (pi_edit w')) = [[], []]"
proof -
  let ?h = "[0xB0, 0xA1, 0xB0, 0xA2, 0xBA, 0xC7, 0xDF, 0xB9, 0xE0, 0xC4, 0xEB, 0xE7, 0xEF, 0xB9, 0xE5, 0x48] :: cstring"
  let ?t = "LineEdit_set_str []"
  have "list_all entry_ok first_lines" "distinct (map fst first_lines)" "sum_list (map (length \<circ> fst) first_lines) < MAXNODE"
    "2 * 6 + 1 < length (kept ?h)" "text_ok ?t" "before_ascii ?t" by code_simp+
  moreover have "(lit ''a'', ?h) \<in> set first_lines" by (simp add: first_lines_def)
  ultimately have "\<exists>p w w' t'. pinyin_init (concat (map render first_lines)) = Some p \<and> make_pinyinInput new_pinyin_input new_edit = Some w \<and>
    pinyin_keys p w (Some ?t) (map uint (lit ''a'') @ replicate (6 div 5) 46 @ [49 + int (6 mod 5)]) = Some (w', Some t') \<and>
    lines t' = insert_at ?t [?h ! (2 * 6), ?h ! (2 * 6 + 1)] \<and> lines (te_text (pi_edit w')) = [[], []]"
    by (intro pinyin_types_han)
  moreover have "map uint (lit ''a'') @ replicate (6 div 5) 46 @ [49 + int (6 mod 5)] = [97, 46, 50]" by code_simp
  moreover have "insert_at ?t [?h ! (2 * 6), ?h ! (2 * 6 + 1)] = [[0xEF, 0xB9]]" by code_simp
  ultimately show ?thesis by simp
qed

end
