(* ===== verification/Spec2Isabelle.thy ===== *)
theory Spec2Isabelle
  imports Prelude Textframe Text_Spec Text_Edit Text_Range Text_Cut Text_File Text_Search Widgets Widget_Spec Trie Pinyin Highlight Fifo
    Messages Input CString Ring Pipe Printf Console Spinlock Kalloc Blocks Bio Log Bitmap Inode Icache Dir Dir_Spec Draw Grep Shell_Print Umalloc Proc Sysfile_Inv Pinyin_Input
begin

text \<open>
  A verification development for src/: the xv6 teaching kernel for x86, extended by a graphical text editor with syntax
  highlighting and a pinyin input method. The C files are all in src/src/.

  \<^bold>\<open>The program.\<close> The kernel shares the memory and the processors among processes (proc.c, kalloc.c, spinlock.c), and gives them
  files (sysfile.c, file.c, pipe.c) on a disk with a log (fs.c, log.c, bio.c, and ide.c or, in the build kernelmemfs, memide.c), a console (console.c), and a screen with mouse and
  keyboard (sysdraw.c, mouse.c, kbd.c, sys\_get\_msg.c). The interrupt handlers of mouse and keyboard put messages into a queue, from which the
  main loop of the editor (Gui.c) takes them and gives them to its widgets; these edit a text buffer (textframe.c), colour words (highlight.c) and
  look up Chinese characters (init\_ascii\_gbk\_pinyin.c). The user programs are built on a small library (ulib.c, umalloc.c, printf.c); of them the
  shell (sh.c) and grep (grep.c) have algorithms of their own.

  \<^bold>\<open>Conventions.\<close> A C array is a list that is read and written with a check of the index, so that \<open>None\<close> is an access out of bounds (or a
  panic, where the theory says so) and a theorem that a definition returns \<open>Some\<close> says that it makes no such access. Kernel routines that may wait have
  the outcomes \<open>Panic\<close>, \<open>Sleeps\<close> and \<open>Ret\<close>. A pointer to an entry of a table is an index. Machine integers are words where the code relies on or
  suffers from their width (the counters of rings, addresses, block numbers, the sizes in system calls and in malloc), and integers or natural numbers with the
  range as an invariant or hypothesis elsewhere. What a driver, an allocation or a read from outside gives is an argument of the definition.

  \<^bold>\<open>The editor.\<close>
  \<^item> \<open>Textframe\<close> has the operations of textframe.c on the record of the rows and the cursor; \<open>Text_Spec\<close> relates each of them to a list of rows,
    and \<open>Text_Edit\<close> shows that every sequence of commands keeps the cursor on a character boundary. \<open>Text_Range\<close> and \<open>Text_Cut\<close> show what deleting, copying
    and inserting a range do to the text as one sequence of bytes, \<open>Text_File\<close> that saving and loading are inverse, \<open>Text_Search\<close> that the search finds the first occurrence.
  \<^item> \<open>Widgets\<close> has the handlers of the widgets in Gui.c; \<open>Widget_Spec\<close> shows that no sequence of keys
    other than copy and cut makes an access out of bounds, and what typing and erasing do.
  \<^item> \<open>Trie\<close> has the array trie and the interface \<open>dictionary\<close>, which \<open>Pinyin\<close> and \<open>Highlight\<close> interpret; they show that lookups give the characters
    that the loader keeps of each line of pinyin.txt (those before the first one with a byte below 160), and the colours of the keywords.
  \<^item> \<open>Pinyin_Input\<close> has the input line of Gui.c over the dictionary: each key does what a machine of letters and page does, and typing a syllable and a number
    inserts the character into the text with the focus.

  \<^bold>\<open>Input and output.\<close>
  \<^item> \<open>Fifo\<close> has the interface \<open>bounded_fifo\<close> of a bounded queue, which \<open>Messages\<close> (sys\_get\_msg.c) and \<open>Pipe\<close> interpret.
  \<^item> \<open>Input\<close> has the handlers of mouse.c and kbd.c: every position is on the screen, every printable character can be typed.
  \<^item> \<open>Console\<close> has console.c over the rings of \<open>Ring\<close>: the input is a line editor, the output stays on the screen. \<open>Printf\<close> has printf.c.
  \<^item> \<open>Draw\<close> has sysdraw.c over the arguments fetched by \<open>Syscall\<close> (syscall.c): each routine paints exactly its pixels.

  \<^bold>\<open>Processes and memory.\<close>
  \<^item> \<open>Spinlock\<close>: the accesses of several processors to a lock are the steps of a relation; mutual exclusion holds in every reachable state.
  \<^item> \<open>Kalloc\<close>: the free list threaded through the pages; a page is never given out twice. \<open>Umalloc\<close>: the circular list of umalloc.c; blocks are apart,
    and every search ends, although it is a loop over pointers.
  \<^item> \<open>Proc\<close>: each section of proc.c that holds the lock of the process table is one step, and a process remembers where in fork, wait or sleep it is. In every reachable
    state every process but the first has a live parent, the pids differ, and no process sleeps in wait while it has a child to collect.
  \<^item> \<open>Pipe\<close>: a reader and a writer as steps; bytes arrive in order, and no wakeup is lost.

  \<^bold>\<open>Files.\<close>
  \<^item> \<open>Bio\<close> (bio.c over the memory disk of memide.c): the cache implements one block store. \<open>Log\<close> (log.c) uses it by this contract: a crash at any write of a transaction or of a recovery
    leaves all or nothing of the transaction. \<open>Blocks\<close> has the fields in a block.
  \<^item> \<open>Bitmap\<close>, \<open>Inode\<close>, \<open>Icache\<close>, \<open>Dir\<close> and \<open>Dir_Spec\<close> have fs.c from the bitmap up to paths: allocation takes the first free block, and, while the data blocks suffice, what is written to a file is read
    back, directories are maps from names, and looking up a path balances its references.
  \<^item> \<open>File\<close> (file.c and the creation of pipes) and \<open>Sysfile\<close> (sysfile.c, and the part of fork and exit that deals with files) have the system calls on files. \<open>Sysfile_Refs\<close> accounts for the references
    and locks of a call on all of its paths, and \<open>Sysfile_Inv\<close> shows that after every sequence of calls all reference counts are exact.

  \<^bold>\<open>User programs.\<close> \<open>CString\<close> has the string routines of the kernel and of the library, \<open>Grep\<close> the matcher against the language of a pattern, \<open>Shell\<close> the
  parser with its errors, and \<open>Shell_Print\<close> that it reads every printed command back.

  \<^bold>\<open>Fuel and loops.\<close> All loops are recursions with a termination proof but for two groups. The four routines of the shell's parser that call each other take fuel, four units
  per byte of the line and four more; this is enough for every line, and more fuel does not change the result. The loops over the free list
  in \<open>Umalloc\<close> are partial functions, where not ending is \<open>None\<close>; that they end on every list that the program can build is part of what is shown.

  \<^bold>\<open>What the models abstract from.\<close> System calls on files are single steps with respect to each other: a call that would have to wait for a lock or for the log is
  not followed further, so the interleaving inside of them is not covered, other than for the process table, the pipes and the spin locks. The counter of the pids
  is not followed past the largest int. Allocating memory in the text buffer and in the
  shell's parser is taken to succeed. Locks are the subject of \<open>Spinlock\<close> only: elsewhere a critical section is one step.
  The memory of the page allocator is freed in one go at the start, although the kernel runs between kinit1 and kinit2. The log works on an unbounded cache of blocks; the
  ten buffers, and the panic when none is free, are the subject of \<open>Bio\<close>. The counts of bytes of file reads are natural numbers.

  \<^bold>\<open>Where the code does not do what it means to.\<close> Several lemmas state defects, each next to its component: \<open>delete_loses_tail\<close>,
  \<open>extract_last_row_fault\<close>, \<open>search_empty_fault\<close>, \<open>overflow_loses_all\<close>, \<open>highlight_inside_word\<close>, \<open>u_memmove_overlap\<close>, \<open>set_color_negative\<close>, \<open>update_overruns\<close>, \<open>update_area_corner\<close>,
  \<open>argptr_wraps\<close>, \<open>grep_stale_lines\<close>, \<open>grep_before_buffer\<close>, \<open>malloc_wraps\<close>, \<open>kill_zero\<close>, \<open>exit_removed_cwd\<close>, \<open>han_before_han\<close>,
  \<open>pinyin_init_drops\<close>, \<open>balloc_log_block\<close>. A theorem that such a defect would falsify
  has a hypothesis that excludes it. Defects without a lemma of their own are listed with the findings of the manifest.

  \<^bold>\<open>Not modelled.\<close> The boot code, the switch of contexts and the entry of traps are assembly or act on saved registers; there is no model of the processor. Page
  tables (vm.c), and with them exec and growproc, need a model of address translation. The controllers of interrupts, timer, serial line, and the setting of the
  graphics mode, are accesses to ports. Of Gui.c, the drawing of the widgets, the windows and bars around the text widgets and the pinyin line (file list, tabs, tool bar,
  search, status) with their files and buttons, and the main loop are left out, and so are the loading of the fonts and the older editor
  program of editor.c. Of the shell, running a command is left out; of syscall.c, the table and its dispatch; of proc.c, the checks of sched and the listing for debugging; of the
  console and the mouse, their registration and set-up. The driver of ide.c, which the default build uses in place of memide.c, is port input and
  output with an interrupt per request. The small user programs make a few system calls each; mkfs.c runs on the host, and only its super block and bitmap
  are modelled, in \<open>Bitmap\<close>, to show that the file system of the kernel starts from a well-formed disk; and the tests have nothing to verify.
\<close>

end
